(* ===== verification/Prelude.thy ===== *)
theory Prelude
  imports Main "HOL-Library.Word"
begin

text \<open>
  Shared vocabulary of the development: the integer types of \<^verbatim>\<open>include/types.h\<close>, the
  linear scans over fixed-size tables that every kernel table uses, byte arrays that
  are written by \<^verbatim>\<open>strncpy\<close>, and the interface \<open>kv_store\<close> shared by the key/value
  tables of the kernel (environment variables, file permissions, ARP cache, aliases).
\<close>

unbundle bit_operations_syntax

named_theorems kinv \<comment> \<open>preservation facts of component invariants\<close>
named_theorems klen \<comment> \<open>lengths of tables and arrays after an update\<close>

subsection \<open>Integer types\<close>

type_synonym u8 = "8 word"
type_synonym u16 = "16 word"
type_synonym u32 = "32 word"
type_synonym u64 = "64 word"
type_synonym i32 = "32 word" \<comment> \<open>read with \<open>sint\<close> where the code compares or divides\<close>

type_synonym mem = "u32 \<Rightarrow> u8" \<comment> \<open>the flat 32-bit address space\<close>
type_synonym cstr = "u8 list" \<comment> \<open>the bytes of a C string before its NUL\<close>

text \<open>A C string literal: the bytes of an Isabelle string.\<close>

definition lit :: "string \<Rightarrow> cstr" where
  "lit s = map of_char s"

lemma length_lit [simp, klen]: "length (lit s) = length s"
  by (simp add: lit_def)

lemma lit_Nil [simp]: "lit [] = []"
  by (simp add: lit_def)

lemma lit_Cons [simp]: "lit (c # cs) = of_char c # lit cs"
  by (simp add: lit_def)

subsection \<open>Words read as numbers\<close>

lemma unat32_lt [simp]: "unat (x :: u32) < 4294967296"
  by (rule order_less_le_trans [OF unsigned_less]) simp

lemma unat16_lt [simp]: "unat (x :: u16) < 65536"
  by (rule order_less_le_trans [OF unsigned_less]) simp

lemma unat8_lt [simp]: "unat (x :: u8) < 256"
  by (rule order_less_le_trans [OF unsigned_less]) simp

lemma unat32_of_nat: "unat (of_nat n :: u32) = n mod 4294967296"
  by (simp add: unat_of_nat)

lemma unat32_of_nat_small [simp]: "n < 4294967296 \<Longrightarrow> unat (of_nat n :: u32) = n"
  by (simp add: unat32_of_nat)

lemma unat16_of_nat_small [simp]: "n < 65536 \<Longrightarrow> unat (of_nat n :: u16) = n"
  by (simp add: unat_of_nat)

lemma unat32_add: "unat (x + y :: u32) = (unat x + unat y) mod 4294967296"
  by (simp add: unat_word_ariths)

lemma unat32_add_small: "unat x + unat y < 4294967296 \<Longrightarrow> unat (x + y :: u32) = unat x + unat y"
  by (simp add: unat32_add)

lemma unat32_sub: "y \<le> x \<Longrightarrow> unat (x - y :: u32) = unat x - unat y"
  by (simp add: unat_sub)

lemma unat32_minus1 [simp]: "unat (- 1 :: u32) = 4294967295"
  by (simp add: unsigned_minus_1_eq_mask mask_eq_exp_minus_1)

subsection \<open>Linear scans: \<^verbatim>\<open>for (i = 0; i < N; i++) if (P(t[i])) return i;\<close>\<close>

fun find_slot :: "('a \<Rightarrow> bool) \<Rightarrow> 'a list \<Rightarrow> nat option" where
  "find_slot P [] = None"
| "find_slot P (x # xs) = (if P x then Some 0 else map_option Suc (find_slot P xs))"

lemma find_slot_None: "find_slot P xs = None \<longleftrightarrow> (\<forall>x \<in> set xs. \<not> P x)"
  by (induction xs) auto

lemma find_slot_Some:
  "find_slot P xs = Some i \<longleftrightarrow> i < length xs \<and> P (xs ! i) \<and> (\<forall>j < i. \<not> P (xs ! j))"
proof (induction xs arbitrary: i)
  case Nil
  then show ?case by simp
next
  case (Cons x xs)
  show ?case
  proof (cases i)
    case 0
    then show ?thesis by auto
  next
    case (Suc k)
    then show ?thesis
      using Cons.IH [of k] by (auto simp: nth_Cons less_Suc_eq_0_disj split: nat.splits)
  qed
qed

lemma find_slot_SomeD:
  assumes "find_slot P xs = Some i"
  shows "i < length xs" "P (xs ! i)" "\<And>j. j < i \<Longrightarrow> \<not> P (xs ! j)"
  using assms by (auto simp: find_slot_Some)

lemma find_slot_cong:
  "length xs = length ys \<Longrightarrow> (\<And>i. i < length xs \<Longrightarrow> P (xs ! i) = Q (ys ! i)) \<Longrightarrow>
   find_slot P xs = find_slot Q ys"
proof (induction xs ys rule: list_induct2)
  case Nil
  then show ?case by simp
next
  case (Cons x xs y ys)
  from Cons.prems [of 0] have "P x = Q y" by simp
  moreover have "find_slot P xs = find_slot Q ys"
    by (rule Cons.IH) (use Cons.prems in force)
  ultimately show ?case by simp
qed

lemma find_slot_ex: "x \<in> set xs \<Longrightarrow> P x \<Longrightarrow> \<exists>i. find_slot P xs = Some i"
  by (cases "find_slot P xs") (auto simp: find_slot_None)

lemma find_slot_exists_iff: "(\<exists>i. find_slot P xs = Some i) \<longleftrightarrow> (\<exists>x \<in> set xs. P x)"
  using find_slot_None [of P xs] by (cases "find_slot P xs") auto

lemma find_slot_append:
  "find_slot P (xs @ ys) = (case find_slot P xs of Some i \<Rightarrow> Some i
     | None \<Rightarrow> map_option (\<lambda>i. length xs + i) (find_slot P ys))"
  by (induction xs; cases "find_slot P ys") (auto split: option.splits)

subsection \<open>Arrays of bytes\<close>

text \<open>
  \<open>overlay arr off bs\<close> is \<open>arr\<close> after the bytes \<open>bs\<close> were stored from index
  \<open>off\<close> on.  When the store leaves the array the result is longer than the array,
  so a length invariant of a component says that its stores stay inside.
\<close>

definition overlay :: "'a list \<Rightarrow> nat \<Rightarrow> 'a list \<Rightarrow> 'a list" where
  "overlay arr off bs = take off arr @ bs @ drop (off + length bs) arr"

lemma length_overlay [klen]:
  "off + length bs \<le> length arr \<Longrightarrow> length (overlay arr off bs) = length arr"
  by (simp add: overlay_def)

lemma overlay_0: "overlay arr 0 bs = bs @ drop (length bs) arr"
  by (simp add: overlay_def)

lemma nth_overlay:
  "off + length bs \<le> length arr \<Longrightarrow> i < length arr \<Longrightarrow>
   overlay arr off bs ! i =
     (if i < off then arr ! i else if i < off + length bs then bs ! (i - off) else arr ! i)"
  by (auto simp: overlay_def nth_append min_def)

lemma take_overlay [simp]: "off \<le> length arr \<Longrightarrow> take off (overlay arr off bs) = take off arr"
  by (simp add: overlay_def)

lemma overlay_slice:
  "off \<le> length arr \<Longrightarrow> take (length bs) (drop off (overlay arr off bs)) = bs"
  by (simp add: overlay_def)

text \<open>The C string held by an array: its bytes before the first NUL.\<close>

definition cstr_of :: "u8 list \<Rightarrow> cstr" where
  "cstr_of arr = takeWhile (\<lambda>b. b \<noteq> 0) arr"

definition is_cstr :: "u8 list \<Rightarrow> bool" where
  "is_cstr s \<longleftrightarrow> 0 \<notin> set s"

lemma cstr_of_no_nul [simp]: "0 \<notin> set (cstr_of arr)"
  unfolding cstr_of_def by (induction arr) auto

lemma is_cstr_cstr_of [simp]: "is_cstr (cstr_of arr)"
  by (simp add: is_cstr_def)

lemma cstr_of_append_nul [simp]: "is_cstr s \<Longrightarrow> cstr_of (s @ 0 # rest) = s"
  unfolding cstr_of_def is_cstr_def by (subst takeWhile_append2) auto

lemma cstr_of_id [simp]: "is_cstr s \<Longrightarrow> cstr_of s = s"
  unfolding cstr_of_def is_cstr_def by (auto simp: takeWhile_eq_all_conv)

lemma length_cstr_of: "length (cstr_of arr) \<le> length arr"
  by (simp add: cstr_of_def length_takeWhile_le)

lemma is_cstr_take: "is_cstr s \<Longrightarrow> is_cstr (take n s)"
  unfolding is_cstr_def by (meson in_set_takeD)

lemma set_update_cases: "x \<in> set (xs[i := y]) \<Longrightarrow> x = y \<or> x \<in> set xs"
  using set_update_subset_insert by fastforce

subsection \<open>Interface of the key/value tables\<close>

text \<open>
  What a client of a fixed-size key/value table relies on.  \<open>okk\<close> are the keys that
  fit the table's key field, \<open>okv\<close> the well-formed values, \<open>norm\<close> is what a value is cut to by its field, and
  \<open>room t k\<close> says that \<open>k\<close> is present or a slot is free.
\<close>

locale kv_store =
  fixes lookup :: "'t \<Rightarrow> 'k \<Rightarrow> 'v option"
    and store :: "'k \<Rightarrow> 'v \<Rightarrow> 't \<Rightarrow> 't"
    and room :: "'t \<Rightarrow> 'k \<Rightarrow> bool"
    and okk :: "'k \<Rightarrow> bool"
    and okv :: "'v \<Rightarrow> bool"
    and norm :: "'v \<Rightarrow> 'v"
    and inv :: "'t \<Rightarrow> bool"
  assumes store_same: "inv t \<Longrightarrow> okk k \<Longrightarrow> okv v \<Longrightarrow> room t k \<Longrightarrow> lookup (store k v t) k = Some (norm v)"
    and store_other: "inv t \<Longrightarrow> okk k \<Longrightarrow> k' \<noteq> k \<Longrightarrow> lookup (store k v t) k' = lookup t k'"
    and store_full: "inv t \<Longrightarrow> \<not> room t k \<Longrightarrow> store k v t = t"
    and store_present: "inv t \<Longrightarrow> okk k \<Longrightarrow> room t k \<Longrightarrow> lookup (store k v t) k \<noteq> None"
    and room_present: "inv t \<Longrightarrow> okk k \<Longrightarrow> lookup t k \<noteq> None \<Longrightarrow> room t k"
    and inv_store: "inv t \<Longrightarrow> inv (store k v t)"
begin

text \<open>A run of stores, as the boot code and the command loop perform them.\<close>

definition store_all :: "('k \<times> 'v) list \<Rightarrow> 't \<Rightarrow> 't" where
  "store_all kvs t = fold (\<lambda>(k, v). store k v) kvs t"

lemma store_all_Nil [simp]: "store_all [] t = t"
  by (simp add: store_all_def)

lemma store_all_Cons [simp]: "store_all ((k, v) # kvs) t = store_all kvs (store k v t)"
  by (simp add: store_all_def)

lemma store_all_append: "store_all (xs @ ys) t = store_all ys (store_all xs t)"
  by (simp add: store_all_def)

lemma inv_store_all: "inv t \<Longrightarrow> inv (store_all kvs t)"
  by (induction kvs arbitrary: t) (auto simp: inv_store)

lemma store_keeps_bound:
  assumes "inv t" "okk k" "okk k'" "lookup t k' \<noteq> None"
  shows "lookup (store k v t) k' \<noteq> None"
proof (cases "k' = k")
  case True
  then show ?thesis using assms by (simp add: store_present room_present)
next
  case False
  then show ?thesis using assms by (simp add: store_other)
qed

lemma store_all_keeps_bound:
  "inv t \<Longrightarrow> \<forall>(k, v) \<in> set kvs. okk k \<Longrightarrow> okk k' \<Longrightarrow> lookup t k' \<noteq> None \<Longrightarrow>
   lookup (store_all kvs t) k' \<noteq> None"
proof (induction kvs arbitrary: t)
  case Nil
  then show ?case by simp
next
  case (Cons kv kvs)
  obtain k v where kv: "kv = (k, v)" by (cases kv)
  have "lookup (store k v t) k' \<noteq> None"
    by (rule store_keeps_bound) (use Cons.prems kv in auto)
  then have "lookup (store_all kvs (store k v t)) k' \<noteq> None"
    by (intro Cons.IH) (use Cons.prems kv in \<open>auto intro: inv_store\<close>)
  then show ?case by (simp add: kv)
qed

lemma store_all_other:
  "inv t \<Longrightarrow> \<forall>(k, v) \<in> set kvs. okk k \<Longrightarrow> k' \<notin> fst ` set kvs \<Longrightarrow>
   lookup (store_all kvs t) k' = lookup t k'"
proof (induction kvs arbitrary: t)
  case Nil
  then show ?case by simp
next
  case (Cons kv kvs)
  then show ?case
    by (cases kv) (auto simp: store_other inv_store)
qed

text \<open>The last store to a key wins, whatever is stored to other keys afterwards.\<close>

lemma store_all_last:
  assumes "inv t" "okk k" "okv v" "\<forall>(k', v') \<in> set kvs. okk k'" "k \<notin> fst ` set kvs" "room t k"
  shows "lookup (store_all ((k, v) # kvs) t) k = Some (norm v)"
  using assms by (simp add: store_all_other inv_store store_same)

end

subsection \<open>Tables of slots\<close>

text \<open>
  The shape all the key/value tables of the kernel share: an array of entries, of which
  \<open>key_of\<close> gives the key of a used slot, searched front to back.
\<close>

definition slot_find :: "('e \<Rightarrow> 'k option) \<Rightarrow> 'k \<Rightarrow> 'e list \<Rightarrow> nat option" where
  "slot_find key_of k t = find_slot (\<lambda>e. key_of e = Some k) t"

definition slot_free :: "('e \<Rightarrow> 'k option) \<Rightarrow> 'e list \<Rightarrow> nat option" where
  "slot_free key_of t = find_slot (\<lambda>e. key_of e = None) t"

definition slot_lookup :: "('e \<Rightarrow> 'k option) \<Rightarrow> ('e \<Rightarrow> 'v) \<Rightarrow> 'k \<Rightarrow> 'e list \<Rightarrow> 'v option" where
  "slot_lookup key_of val_of k t = map_option (\<lambda>i. val_of (t ! i)) (slot_find key_of k t)"

lemma slot_find_update_same:
  assumes "slot_find key_of k t = Some i" "key_of e = Some k"
  shows "slot_find key_of k (t[i := e]) = Some i"
  using assms by (auto simp: slot_find_def find_slot_Some nth_list_update)

lemma slot_find_update_other:
  assumes "i < length t" "key_of e \<noteq> Some k'" "key_of (t ! i) \<noteq> Some k'"
  shows "slot_find key_of k' (t[i := e]) = slot_find key_of k' t"
  unfolding slot_find_def
  by (rule find_slot_cong) (use assms in \<open>auto simp: nth_list_update\<close>)

lemma slot_find_insert_same:
  assumes "slot_find key_of k t = None" "slot_free key_of t = Some i" "key_of e = Some k"
  shows "slot_find key_of k (t[i := e]) = Some i"
  using assms
  by (auto simp: slot_find_def slot_free_def find_slot_Some find_slot_None nth_list_update)

lemma slot_lookup_update_same:
  "slot_find key_of k t = Some i \<Longrightarrow> key_of e = Some k \<Longrightarrow>
   slot_lookup key_of val_of k (t[i := e]) = Some (val_of e)"
  using slot_find_update_same [of key_of k t i e]
  by (auto simp: slot_lookup_def slot_find_def find_slot_Some)

lemma slot_lookup_insert_same:
  "slot_find key_of k t = None \<Longrightarrow> slot_free key_of t = Some i \<Longrightarrow> key_of e = Some k \<Longrightarrow>
   slot_lookup key_of val_of k (t[i := e]) = Some (val_of e)"
  using slot_find_insert_same [of key_of k t i e]
  by (auto simp: slot_lookup_def slot_find_def find_slot_Some slot_free_def)

lemma slot_lookup_update_other:
  assumes "i < length t" "key_of e \<noteq> Some k'" "key_of (t ! i) \<noteq> Some k'"
  shows "slot_lookup key_of val_of k' (t[i := e]) = slot_lookup key_of val_of k' t"
proof -
  have "slot_find key_of k' (t[i := e]) = slot_find key_of k' t"
    by (rule slot_find_update_other) (use assms in auto)
  moreover have "slot_find key_of k' t = Some j \<Longrightarrow> j \<noteq> i" for j
    using assms by (auto simp: slot_find_def find_slot_Some)
  ultimately show ?thesis
    by (cases "slot_find key_of k' t") (auto simp: slot_lookup_def)
qed

lemmas slot_lookup_updates =
  slot_lookup_update_same slot_lookup_insert_same slot_lookup_update_other

text \<open>Update the slot of a key, or fill the first free slot, or leave a full table as it is.\<close>

definition slot_put ::
  "('e \<Rightarrow> 'k option) \<Rightarrow> 'k \<Rightarrow> ('e \<Rightarrow> 'e) \<Rightarrow> ('e \<Rightarrow> 'e) \<Rightarrow> 'e list \<Rightarrow> 'e list" where
  "slot_put key_of k upd ins t =
     (case slot_find key_of k t of
        Some i \<Rightarrow> t[i := upd (t ! i)]
      | None \<Rightarrow> (case slot_free key_of t of Some i \<Rightarrow> t[i := ins (t ! i)] | None \<Rightarrow> t))"

definition slot_room :: "('e \<Rightarrow> 'k option) \<Rightarrow> 'e list \<Rightarrow> 'k \<Rightarrow> bool" where
  "slot_room key_of t k \<longleftrightarrow> slot_find key_of k t \<noteq> None \<or> slot_free key_of t \<noteq> None"

lemma slot_find_nth: "slot_find key_of k t = Some i \<Longrightarrow> i < length t \<and> key_of (t ! i) = Some k"
  by (auto simp: slot_find_def find_slot_Some)

lemma slot_free_nth: "slot_free key_of t = Some i \<Longrightarrow> i < length t \<and> key_of (t ! i) = None"
  by (auto simp: slot_free_def find_slot_Some)

locale slot_table =
  fixes key_of :: "'e \<Rightarrow> 'k option"
    and val_of :: "'e \<Rightarrow> 'v"
    and upd :: "'v \<Rightarrow> 'e \<Rightarrow> 'e"
    and ins :: "'k \<Rightarrow> 'v \<Rightarrow> 'e \<Rightarrow> 'e"
    and eok :: "'e \<Rightarrow> bool"
    and okk :: "'k \<Rightarrow> bool"
    and okv :: "'v \<Rightarrow> bool"
    and norm :: "'v \<Rightarrow> 'v"
    and n :: nat
  assumes eok_upd: "eok e \<Longrightarrow> key_of e \<noteq> None \<Longrightarrow> eok (upd v e)"
    and eok_ins: "eok e \<Longrightarrow> eok (ins k v e)"
    and key_upd: "eok e \<Longrightarrow> key_of e = Some k \<Longrightarrow> key_of (upd v e) = Some k"
    and key_ins: "eok e \<Longrightarrow> okk k \<Longrightarrow> key_of (ins k v e) = Some k"
    and val_upd: "eok e \<Longrightarrow> okv v \<Longrightarrow> key_of e = Some k \<Longrightarrow> val_of (upd v e) = norm v"
    and val_ins: "eok e \<Longrightarrow> okv v \<Longrightarrow> val_of (ins k v e) = norm v"
begin

definition table_ok :: "'e list \<Rightarrow> bool" where
  "table_ok t \<longleftrightarrow> length t = n \<and> (\<forall>e \<in> set t. eok e)"

definition put :: "'k \<Rightarrow> 'v \<Rightarrow> 'e list \<Rightarrow> 'e list" where
  "put k v t = slot_put key_of k (upd v) (ins k v) t"

lemma table_ok_update: "table_ok t \<Longrightarrow> eok e \<Longrightarrow> table_ok (t[i := e])"
  by (auto simp: table_ok_def dest!: set_update_cases)

lemma table_ok_nth: "table_ok t \<Longrightarrow> i < length t \<Longrightarrow> eok (t ! i)"
  by (auto simp: table_ok_def)

lemma table_ok_put: "table_ok t \<Longrightarrow> table_ok (put k v t)"
  by (auto simp: put_def slot_put_def split: option.splits
      intro!: table_ok_update eok_upd eok_ins dest: slot_find_nth slot_free_nth table_ok_nth)

lemma lookup_put_same:
  assumes "table_ok t" "okk k" "okv v" "slot_room key_of t k"
  shows "slot_lookup key_of val_of k (put k v t) = Some (norm v)"
proof (cases "slot_find key_of k t")
  case (Some i)
  then have i: "i < length t" "key_of (t ! i) = Some k" by (auto dest: slot_find_nth)
  with assms have "key_of (upd v (t ! i)) = Some k" "val_of (upd v (t ! i)) = norm v"
    by (auto intro: key_upd val_upd table_ok_nth)
  with Some show ?thesis
    by (simp add: put_def slot_put_def slot_lookup_update_same)
next
  case None
  with assms obtain i where i: "slot_free key_of t = Some i" by (auto simp: slot_room_def)
  with assms have "key_of (ins k v (t ! i)) = Some k" "val_of (ins k v (t ! i)) = norm v"
    by (auto simp: key_ins val_ins table_ok_nth dest!: slot_free_nth)
  with i None show ?thesis
    by (simp add: put_def slot_put_def slot_lookup_insert_same)
qed

lemma lookup_put_bound:
  assumes "table_ok t" "okk k" "slot_room key_of t k"
  shows "slot_lookup key_of val_of k (put k v t) \<noteq> None"
proof (cases "slot_find key_of k t")
  case (Some i)
  then have i: "i < length t" "key_of (t ! i) = Some k" by (auto dest: slot_find_nth)
  with assms have "key_of (upd v (t ! i)) = Some k"
    by (auto intro: key_upd table_ok_nth)
  with Some show ?thesis
    by (simp add: put_def slot_put_def slot_lookup_update_same)
next
  case None
  with assms obtain i where i: "slot_free key_of t = Some i" by (auto simp: slot_room_def)
  with assms None have "key_of (ins k v (t ! i)) = Some k"
    by (auto simp: key_ins table_ok_nth dest!: slot_free_nth)
  with i None show ?thesis
    by (simp add: put_def slot_put_def slot_lookup_insert_same)
qed

lemma lookup_put_other:
  assumes "table_ok t" "okk k" "k' \<noteq> k"
  shows "slot_lookup key_of val_of k' (put k v t) = slot_lookup key_of val_of k' t"
  using assms
  by (auto simp: put_def slot_put_def key_upd key_ins table_ok_nth split: option.splits
      dest!: slot_find_nth slot_free_nth intro!: slot_lookup_update_other)

lemma put_full: "\<not> slot_room key_of t k \<Longrightarrow> put k v t = t"
  by (auto simp: put_def slot_put_def slot_room_def)

lemma room_if_found: "slot_lookup key_of val_of k t \<noteq> None \<Longrightarrow> slot_room key_of t k"
  by (auto simp: slot_lookup_def slot_room_def)

end

sublocale slot_table \<subseteq> kv: kv_store "\<lambda>t k. slot_lookup key_of val_of k t" put "slot_room key_of"
    okk okv norm table_ok
proof unfold_locales
  fix t k v
  assume "table_ok t" "okk k" "slot_room key_of t k"
  then show "slot_lookup key_of val_of k (put k v t) \<noteq> None" by (rule lookup_put_bound)
next
  fix t k
  assume "slot_lookup key_of val_of k t \<noteq> None"
  then show "slot_room key_of t k" by (rule room_if_found)
qed (simp_all add: lookup_put_same lookup_put_other put_full table_ok_put)

end
