(* ===== verification/KString.thy ===== *)
theory KString
  imports Prelude
begin

text \<open>
  \<^verbatim>\<open>lib/string.c\<close> over the flat address space \<open>mem\<close>.  A counted loop
  \<^verbatim>\<open>while (n--)\<close> is structural recursion on the count; a loop that runs to a NUL is a
  \<open>partial_function (option)\<close>, so that running for ever is \<open>None\<close>.  The functions
  that return \<^verbatim>\<open>dst\<close> return the memory only.  The second half gives the list-level meaning the other
  components use: \<open>strncpy_bytes\<close> is the exact byte sequence \<^verbatim>\<open>strncpy\<close> stores,
  and \<open>strcmp_bytes\<close> the result of \<^verbatim>\<open>strcmp\<close> on two strings.
\<close>

unbundle bit_operations_syntax

subsection \<open>The functions of \<^verbatim>\<open>lib/string.c\<close>\<close>

fun memset_loop :: "mem \<Rightarrow> u32 \<Rightarrow> u8 \<Rightarrow> nat \<Rightarrow> mem" where
  "memset_loop m p c 0 = m"
| "memset_loop m p c (Suc n) = memset_loop (m(p := c)) (p + 1) c n"

definition memset :: "mem \<Rightarrow> u32 \<Rightarrow> i32 \<Rightarrow> u32 \<Rightarrow> mem" where
  "memset m dst c n = memset_loop m dst (ucast c) (unat n)"

fun copy_up :: "mem \<Rightarrow> u32 \<Rightarrow> u32 \<Rightarrow> nat \<Rightarrow> mem" where
  "copy_up m d s 0 = m"
| "copy_up m d s (Suc n) = copy_up (m(d := m s)) (d + 1) (s + 1) n"

fun copy_down :: "mem \<Rightarrow> u32 \<Rightarrow> u32 \<Rightarrow> nat \<Rightarrow> mem" where
  "copy_down m d s 0 = m"
| "copy_down m d s (Suc n) = copy_down (m(d - 1 := m (s - 1))) (d - 1) (s - 1) n"

definition memcpy :: "mem \<Rightarrow> u32 \<Rightarrow> u32 \<Rightarrow> u32 \<Rightarrow> mem" where
  "memcpy m dst src n = copy_up m dst src (unat n)"

definition memmove :: "mem \<Rightarrow> u32 \<Rightarrow> u32 \<Rightarrow> u32 \<Rightarrow> mem" where
  "memmove m dst src n =
     (if dst < src then copy_up m dst src (unat n)
      else copy_down m (dst + n) (src + n) (unat n))"

fun memcmp_loop :: "mem \<Rightarrow> u32 \<Rightarrow> u32 \<Rightarrow> nat \<Rightarrow> int" where
  "memcmp_loop m a b 0 = 0"
| "memcmp_loop m a b (Suc n) =
     (if m a \<noteq> m b then uint (m a) - uint (m b) else memcmp_loop m (a + 1) (b + 1) n)"

definition memcmp :: "mem \<Rightarrow> u32 \<Rightarrow> u32 \<Rightarrow> u32 \<Rightarrow> int" where
  "memcmp m a b n = memcmp_loop m a b (unat n)"

partial_function (option) strlen_loop :: "mem \<Rightarrow> u32 \<Rightarrow> u32 \<Rightarrow> u32 option" where
  "strlen_loop m s len = (if m s \<noteq> 0 then strlen_loop m (s + 1) (len + 1) else Some len)"

definition strlen :: "mem \<Rightarrow> u32 \<Rightarrow> u32 option" where
  "strlen m s = strlen_loop m s 0"

partial_function (option) strcmp :: "mem \<Rightarrow> u32 \<Rightarrow> u32 \<Rightarrow> int option" where
  "strcmp m a b =
     (if m a \<noteq> 0 \<and> m a = m b then strcmp m (a + 1) (b + 1)
      else Some (uint (m a) - uint (m b)))"

fun strncmp_loop :: "mem \<Rightarrow> u32 \<Rightarrow> u32 \<Rightarrow> nat \<Rightarrow> int" where
  "strncmp_loop m a b 0 = 0"
| "strncmp_loop m a b (Suc n) =
     (if m a \<noteq> 0 \<and> m a = m b then strncmp_loop m (a + 1) (b + 1) n
      else uint (m a) - uint (m b))"

definition strncmp :: "mem \<Rightarrow> u32 \<Rightarrow> u32 \<Rightarrow> u32 \<Rightarrow> int" where
  "strncmp m a b n = strncmp_loop m a b (unat n)"

partial_function (option) strcpy :: "mem \<Rightarrow> u32 \<Rightarrow> u32 \<Rightarrow> mem option" where
  "strcpy m d s =
     (if m s \<noteq> 0 then strcpy (m(d := m s)) (d + 1) (s + 1) else Some (m(d := m s)))"

text \<open>
  \<^verbatim>\<open>strncpy\<close>: the first loop stops on the NUL \<^emph>\<open>before\<close> counting it, so the
  padding loop starts with a count that still includes it.
\<close>

fun strncpy_copy :: "mem \<Rightarrow> u32 \<Rightarrow> u32 \<Rightarrow> nat \<Rightarrow> mem \<times> u32 \<times> nat" where
  "strncpy_copy m d s 0 = (m, d, 0)"
| "strncpy_copy m d s (Suc n) =
     (let m' = m(d := m s)
      in if m s \<noteq> 0 then strncpy_copy m' (d + 1) (s + 1) n else (m', d + 1, Suc n))"

definition strncpy :: "mem \<Rightarrow> u32 \<Rightarrow> u32 \<Rightarrow> u32 \<Rightarrow> mem" where
  "strncpy m dst src n =
     (let (m', d, k) = strncpy_copy m dst src (unat n) in memset_loop m' d 0 k)"

subsection \<open>Byte ranges of memory\<close>

definition load_bytes :: "mem \<Rightarrow> u32 \<Rightarrow> nat \<Rightarrow> u8 list" where
  "load_bytes m a n = map (\<lambda>i. m (a + of_nat i)) [0..<n]"

fun store_bytes :: "mem \<Rightarrow> u32 \<Rightarrow> u8 list \<Rightarrow> mem" where
  "store_bytes m a [] = m"
| "store_bytes m a (b # bs) = store_bytes (m(a := b)) (a + 1) bs"

lemma length_load_bytes [simp]: "length (load_bytes m a n) = n"
  by (simp add: load_bytes_def)

lemma nth_load_bytes [simp]: "i < n \<Longrightarrow> load_bytes m a n ! i = m (a + of_nat i)"
  by (simp add: load_bytes_def)

text \<open>\<open>off a x\<close> is the distance from \<open>a\<close> up to \<open>x\<close>, around the address space.\<close>

abbreviation off :: "u32 \<Rightarrow> u32 \<Rightarrow> nat" where
  "off a x \<equiv> unat (x - a)"

lemma off_lt: "off a x < 4294967296"
  by simp

lemma off_of_nat [simp]: "i < 4294967296 \<Longrightarrow> off a (a + of_nat i) = i"
  by simp

lemma add_off [simp]: "a + of_nat (off a x) = x"
  by simp

lemma off_Suc: "x \<noteq> a \<Longrightarrow> off a x = Suc (off (a + 1) x)"
proof -
  assume "x \<noteq> a"
  then have "x - a \<noteq> 0" by simp
  then have "unat (x - a) = Suc (unat (x - a - 1))"
    by (metis Suc_pred' unat_gt_0 unat_minus_one)
  then show ?thesis by (simp add: algebra_simps)
qed

lemma off_same [simp]: "off a a = 0"
  by simp

lemma off_pos: "x \<noteq> a \<Longrightarrow> 0 < off a x"
  by (simp add: unat_gt_0)

lemma off_pred: "off a (a - 1) = 4294967295"
  by simp

lemma store_bytes_other: "length bs \<le> off a x \<Longrightarrow> store_bytes m a bs x = m x"
proof (induction bs arbitrary: m a)
  case Nil
  then show ?case by simp
next
  case (Cons b bs)
  then have "x \<noteq> a" by auto
  with Cons.prems have "length bs \<le> off (a + 1) x" by (simp add: off_Suc)
  with \<open>x \<noteq> a\<close> show ?case by (simp add: Cons.IH)
qed

lemma store_bytes_in:
  "length bs \<le> 4294967296 \<Longrightarrow> off a x < length bs \<Longrightarrow> store_bytes m a bs x = bs ! off a x"
proof (induction bs arbitrary: m a)
  case Nil
  then show ?case by simp
next
  case (Cons b bs)
  show ?case
  proof (cases "x = a")
    case True
    have "store_bytes (m(a := b)) (a + 1) bs a = (m(a := b)) a"
      by (rule store_bytes_other) (use Cons.prems in simp)
    with True show ?thesis by simp
  next
    case False
    then show ?thesis using Cons by (simp add: off_Suc)
  qed
qed

lemma store_bytes_apply:
  "length bs \<le> 4294967296 \<Longrightarrow>
   store_bytes m a bs x = (if off a x < length bs then bs ! off a x else m x)"
  by (simp add: store_bytes_in store_bytes_other)

lemma store_bytes_append:
  "store_bytes m a (xs @ ys) = store_bytes (store_bytes m a xs) (a + of_nat (length xs)) ys"
  by (induction xs arbitrary: m a) (simp_all add: algebra_simps)

lemma load_store_same:
  "length bs < 4294967296 \<Longrightarrow> load_bytes (store_bytes m a bs) a (length bs) = bs"
  by (rule nth_equalityI) (simp_all add: store_bytes_in)

text \<open>Two ranges that share no byte: a store into one leaves the other alone.\<close>

definition apart :: "u32 \<Rightarrow> nat \<Rightarrow> u32 \<Rightarrow> nat \<Rightarrow> bool" where
  "apart a n b k \<longleftrightarrow> n \<le> off a b \<and> k \<le> off b a \<or> n = 0 \<or> k = 0"

lemma off_sum:
  assumes "a \<noteq> b"
  shows "off a b + off b a = 4294967296"
proof -
  have "unat ((b - a) + (a - b)) = 0" by simp
  then show ?thesis
    using assms by (subst (asm) unat_plus_if') (auto simp: unat_eq_0 split: if_splits)
qed

lemma off_add_cases:
  assumes "off a x < n" "n \<le> off a b" "k \<le> off b a" "a \<noteq> b"
  shows "k \<le> off b x"
proof -
  have s: "unat (x - a) + unat (a - b) < 4294967296"
    using off_sum [OF assms(4)] assms by simp
  have "unat ((x - a) + (a - b)) = unat (x - a) + unat (a - b)"
    by (rule unat_add_lem [THEN iffD1]) (use s in simp)
  then show ?thesis using assms by simp
qed

lemma load_store_apart:
  assumes "apart a (length bs) b k"
  shows "load_bytes (store_bytes m a bs) b k = load_bytes m b k"
proof (rule nth_equalityI)
  fix i assume "i < length (load_bytes (store_bytes m a bs) b k)"
  then have i: "i < k" by simp
  show "load_bytes (store_bytes m a bs) b k ! i = load_bytes m b k ! i"
  proof (cases "length bs = 0")
    case True
    then show ?thesis using i by simp
  next
    case False
    with assms i have d: "length bs \<le> off a b" "k \<le> off b a"
      by (auto simp: apart_def)
    with i have "a \<noteq> b" by auto
    have "i < 4294967296"
      using i d(2) unat32_lt [of "a - b"] by linarith
    then have "off b (b + of_nat i) < k" using i by (simp only: off_of_nat)
    from off_add_cases [OF this d(2) d(1)] \<open>a \<noteq> b\<close> have "length bs \<le> off a (b + of_nat i)" by simp
    with i show ?thesis by (simp add: store_bytes_other)
  qed
qed simp

subsection \<open>The memory functions as stores of byte sequences\<close>

lemma memset_loop_store: "memset_loop m p c n = store_bytes m p (replicate n c)"
  by (induction n arbitrary: m p) simp_all

lemma load_bytes_Suc: "load_bytes m a (Suc n) = m a # load_bytes m (a + 1) n"
  by (rule nth_equalityI) (auto simp: nth_Cons algebra_simps split: nat.split)

lemma load_bytes_snoc: "load_bytes m a (Suc n) = load_bytes m a n @ [m (a + of_nat n)]"
  by (simp add: load_bytes_def)

lemma load_bytes_0 [simp]: "load_bytes m a 0 = []"
  by (simp add: load_bytes_def)

lemma load_bytes_upd_other:
  assumes "n \<le> off a x"
  shows "load_bytes (m(x := v)) a n = load_bytes m a n"
proof (rule nth_equalityI)
  fix i assume "i < length (load_bytes (m(x := v)) a n)"
  then have i: "i < n" by simp
  then have "i < 4294967296" using assms off_lt [of x a] by linarith
  then have "off a (a + of_nat i) = i" by (simp only: off_of_nat)
  with i assms have "x \<noteq> a + of_nat i" by auto
  with i show "load_bytes (m(x := v)) a n ! i = load_bytes m a n ! i" by simp
qed simp

lemma copy_up_store:
  "n \<le> Suc (off (s + 1) d) \<Longrightarrow> copy_up m d s n = store_bytes m d (load_bytes m s n)"
proof (induction n arbitrary: m d s)
  case 0
  then show ?case by simp
next
  case (Suc n)
  from Suc.prems have "n \<le> off (s + 1) d" by simp
  then have "load_bytes (m(d := m s)) (s + 1) n = load_bytes m (s + 1) n"
    by (rule load_bytes_upd_other)
  moreover have "n \<le> Suc (off (s + 1 + 1) (d + 1))"
    using Suc.prems by (simp add: algebra_simps)
  then have "copy_up (m(d := m s)) (d + 1) (s + 1) n =
      store_bytes (m(d := m s)) (d + 1) (load_bytes (m(d := m s)) (s + 1) n)"
    by (rule Suc.IH)
  ultimately show ?case
    by (simp only: copy_up.simps load_bytes_Suc store_bytes.simps)
qed

lemma copy_down_store:
  "n \<le> Suc (off d (s - 1)) \<Longrightarrow>
   copy_down m d s n = store_bytes m (d - of_nat n) (load_bytes m (s - of_nat n) n)"
proof (induction n arbitrary: m d s)
  case 0
  then show ?case by simp
next
  case (Suc n)
  define a where "a = d - of_nat (Suc n)"
  define b where "b = s - of_nat (Suc n)"
  let ?m = "m(d - 1 := m (s - 1))"
  have "n \<le> off (d - 1) (s - 1 - 1)"
    using Suc.prems by (simp add: algebra_simps)
  have n32: "n < 4294967296"
    using Suc.prems off_lt [of "s - 1" d] by linarith
  have le: "n \<le> off b (d - 1)"
  proof (rule ccontr)
    assume "\<not> n \<le> off b (d - 1)"
    then obtain j where j: "j = off b (d - 1)" "j < n" by simp
    then have "d - 1 = b + of_nat j" by simp
    then have "s - 1 - d = of_nat (n - Suc j)"
      using j by (simp add: b_def of_nat_diff algebra_simps)
    then have "off d (s - 1) = n - Suc j" using n32 by simp
    with Suc.prems j show False by simp
  qed
  have eqs: "d - 1 - of_nat n = a" "s - 1 - of_nat n = b"
    by (simp_all add: a_def b_def)
  have "n \<le> Suc (off (d - 1) (s - 1 - 1))"
    using \<open>n \<le> off (d - 1) (s - 1 - 1)\<close> by simp
  then have "copy_down ?m (d - 1) (s - 1) n =
      store_bytes ?m (d - 1 - of_nat n) (load_bytes ?m (s - 1 - of_nat n) n)"
    by (rule Suc.IH)
  then have "copy_down m d s (Suc n) = store_bytes ?m a (load_bytes ?m b n)"
    by (simp only: copy_down.simps eqs)
  also have "load_bytes ?m b n = load_bytes m b n"
    by (rule load_bytes_upd_other [OF le])
  also have "store_bytes ?m a (load_bytes m b n) =
      store_bytes m a (load_bytes m b n @ [m (s - 1)])"
  proof
    fix x
    have "a + of_nat n = d - 1" by (simp add: a_def)
    then show "store_bytes ?m a (load_bytes m b n) x =
        store_bytes m a (load_bytes m b n @ [m (s - 1)]) x"
      using n32 by (auto simp: store_bytes_apply store_bytes_append dest: arg_cong [where f = "off a"])
  qed
  also have "load_bytes m b n @ [m (s - 1)] = load_bytes m b (Suc n)"
    by (simp add: load_bytes_snoc b_def)
  finally show ?case by (simp add: a_def b_def)
qed

lemma memcpy_store:
  assumes "apart dst (unat n) src (unat n)"
  shows "memcpy m dst src n = store_bytes m dst (load_bytes m src (unat n))"
proof (cases "n = 0")
  case True
  then show ?thesis by (simp add: memcpy_def)
next
  case False
  then have "unat n \<le> off src dst" "0 < unat n"
    using assms by (auto simp: apart_def unat_gt_0)
  then have "unat n \<le> Suc (off (src + 1) dst)"
    by (cases "dst = src") (auto simp: off_Suc)
  then show ?thesis by (simp add: memcpy_def copy_up_store)
qed

lemma memmove_store:
  assumes "unat dst + unat n \<le> 4294967296" "unat src + unat n \<le> 4294967296"
  shows "memmove m dst src n = store_bytes m dst (load_bytes m src (unat n))"
proof (cases "dst < src")
  case True
  have ne: "src \<noteq> dst" using True by auto
  have "unat (src - dst) + unat n \<le> 4294967296"
    using True assms by (simp only: unat_sub order_less_imp_le)
  with off_sum [OF ne] have "unat n \<le> off src dst" by linarith
  with ne have "unat n \<le> Suc (off (src + 1) dst)"
    using off_Suc [of dst src] by simp
  with True show ?thesis by (simp add: memmove_def copy_up_store)
next
  case False
  have "unat n \<le> Suc (off (dst + n) (src + n - 1))"
  proof -
    have "unat (dst - src) + unat n \<le> 4294967296"
      using False assms by (simp only: unat_sub not_less)
    moreover have "unat (- 1 - (dst - src)) = unat (- 1 :: u32) - unat (dst - src)"
      by (rule unat_sub) simp
    moreover have "src + n - 1 - (dst + n) = - 1 - (dst - src)" by simp
    ultimately show ?thesis by (simp only: unat32_minus1)
  qed
  with False show ?thesis by (simp add: memmove_def copy_down_store)
qed

lemma memcmp_loop_eq_0:
  "memcmp_loop m a b n = 0 \<longleftrightarrow> load_bytes m a n = load_bytes m b n"
  by (induction n arbitrary: a b) (auto simp: load_bytes_Suc word_uint_eq_iff)

lemma memcmp_eq_0: "memcmp m a b n = 0 \<longleftrightarrow> load_bytes m a (unat n) = load_bytes m b (unat n)"
  by (simp add: memcmp_def memcmp_loop_eq_0)

subsection \<open>Strings in memory\<close>

definition cstr_at :: "mem \<Rightarrow> u32 \<Rightarrow> cstr \<Rightarrow> bool" where
  "cstr_at m s xs \<longleftrightarrow>
     is_cstr xs \<and> length xs < 4294967295 \<and> load_bytes m s (Suc (length xs)) = xs @ [0]"

lemma cstr_at_Nil [simp]: "cstr_at m s [] \<longleftrightarrow> m s = 0"
  by (auto simp: cstr_at_def is_cstr_def load_bytes_Suc)

lemma cstr_at_Cons:
  "cstr_at m s (x # xs) \<longleftrightarrow>
     m s = x \<and> x \<noteq> 0 \<and> cstr_at m (s + 1) xs \<and> Suc (length xs) < 4294967295"
  by (auto simp: cstr_at_def is_cstr_def load_bytes_Suc)

lemma cstr_at_store_apart:
  assumes "cstr_at m s xs" "apart a (length bs) s (Suc (length xs))"
  shows "cstr_at (store_bytes m a bs) s xs"
  using assms by (auto simp: cstr_at_def load_store_apart)

text \<open>The list-level meaning of the string functions.\<close>

definition strncpy_bytes :: "cstr \<Rightarrow> nat \<Rightarrow> u8 list" where
  "strncpy_bytes s n =
     (if length s < n then s @ replicate (Suc (n - length s)) 0 else take n s)"

fun strcmp_bytes :: "cstr \<Rightarrow> cstr \<Rightarrow> int" where
  "strcmp_bytes [] [] = 0"
| "strcmp_bytes [] (y # ys) = - uint y"
| "strcmp_bytes (x # xs) [] = uint x"
| "strcmp_bytes (x # xs) (y # ys) = (if x = y then strcmp_bytes xs ys else uint x - uint y)"

definition strncmp_bytes :: "cstr \<Rightarrow> cstr \<Rightarrow> nat \<Rightarrow> int" where
  "strncmp_bytes a b n = strcmp_bytes (take n a) (take n b)"

lemma strlen_loop_cstr:
  "cstr_at m s xs \<Longrightarrow> strlen_loop m s k = Some (k + of_nat (length xs))"
  by (induction xs arbitrary: s k)
     (auto simp: strlen_loop.simps cstr_at_Cons algebra_simps)

lemma strlen_cstr: "cstr_at m s xs \<Longrightarrow> strlen m s = Some (of_nat (length xs))"
  by (simp add: strlen_def strlen_loop_cstr)

lemma strcmp_cstr:
  "cstr_at m a xs \<Longrightarrow> cstr_at m b ys \<Longrightarrow> strcmp m a b = Some (strcmp_bytes xs ys)"
proof (induction xs ys arbitrary: a b rule: strcmp_bytes.induct)
  case (4 x xs y ys)
  then show ?case
    by (subst strcmp.simps) (auto simp: cstr_at_Cons)
qed (subst strcmp.simps, auto simp: cstr_at_Cons)+

lemma strncmp_loop_cstr:
  "cstr_at m a xs \<Longrightarrow> cstr_at m b ys \<Longrightarrow> strncmp_loop m a b n = strncmp_bytes xs ys n"
proof (induction n arbitrary: a b xs ys)
  case 0
  then show ?case by (simp add: strncmp_bytes_def)
next
  case (Suc n)
  then show ?case
    by (cases xs; cases ys) (auto simp: cstr_at_Cons strncmp_bytes_def)
qed

lemma length_strncpy_bytes:
  "length (strncpy_bytes s n) = (if length s < n then Suc n else n)"
  by (simp add: strncpy_bytes_def)

lemma length_strncpy_bytes_le [klen]: "length (strncpy_bytes s n) \<le> Suc n"
  by (simp add: length_strncpy_bytes)

lemma strncpy_bytes_0 [simp]: "strncpy_bytes s 0 = []"
  by (simp add: strncpy_bytes_def)

lemma strncpy_bytes_Nil [simp]: "0 < n \<Longrightarrow> strncpy_bytes [] n = replicate (Suc n) 0"
  by (simp add: strncpy_bytes_def)

lemma strncpy_bytes_Cons_Suc:
  "strncpy_bytes (x # s) (Suc n) = x # strncpy_bytes s n"
  by (cases n) (simp_all add: strncpy_bytes_def)

text \<open>An array written by \<^verbatim>\<open>strncpy(arr, s, N - 1); arr[N - 1] = 0;\<close> holds \<open>s\<close> cut to
  \<open>N - 1\<close> bytes.\<close>

definition copy_field :: "u8 list \<Rightarrow> cstr \<Rightarrow> nat \<Rightarrow> u8 list" where
  "copy_field arr s n = (overlay arr 0 (strncpy_bytes s n))[n := 0]"

lemma length_copy_field [klen, simp]: "length arr = Suc n \<Longrightarrow> length (copy_field arr s n) = Suc n"
  using length_overlay [of 0 "strncpy_bytes s n" arr] length_strncpy_bytes_le [of s n]
  by (simp add: copy_field_def)

lemma cstr_of_copy_field [simp]:
  assumes "is_cstr s" "length arr = Suc n"
  shows "cstr_of (copy_field arr s n) = take n s"
proof (cases "length s < n")
  case True
  then have "copy_field arr s n = s @ 0 # replicate (n - length s) 0"
    using assms by (auto simp: copy_field_def overlay_def strncpy_bytes_def list_update_append
      simp flip: replicate_Suc intro!: nth_equalityI simp: nth_list_update)
  then show ?thesis using True assms by simp
next
  case False
  then have "copy_field arr s n = take n s @ [0]"
    using assms by (auto simp: copy_field_def overlay_def strncpy_bytes_def list_update_append
      Suc_diff_le intro!: nth_equalityI simp: nth_append)
  then show ?thesis using False assms by (simp add: is_cstr_take)
qed

lemma copy_field_has_nul: "length arr = Suc n \<Longrightarrow> 0 \<in> set (copy_field arr s n)"
  unfolding copy_field_def
  by (rule set_update_memI)
     (use length_overlay [of 0 "strncpy_bytes s n" arr] length_strncpy_bytes_le [of s n] in simp)

lemma cstr_of_array: "length arr = N \<Longrightarrow> 0 \<in> set arr \<Longrightarrow> length (cstr_of arr) < N"
  unfolding cstr_of_def by (induction arr arbitrary: N) (auto simp: length_takeWhile_le le_imp_less_Suc)

subsection \<open>\<^verbatim>\<open>strncpy\<close> stores \<open>strncpy_bytes\<close>\<close>

lemma strncpy_copy_store:
  "cstr_at m s xs \<Longrightarrow> length (strncpy_bytes xs n) \<le> off d s \<Longrightarrow> Suc (length xs) \<le> off s d \<Longrightarrow>
   (case strncpy_copy m d s n of (m', d', k) \<Rightarrow> memset_loop m' d' 0 k) =
     store_bytes m d (strncpy_bytes xs n)"
proof (induction n arbitrary: m d s xs)
  case 0
  then show ?case by simp
next
  case (Suc n)
  show ?case
  proof (cases xs)
    case Nil
    with Suc.prems show ?thesis by (simp add: memset_loop_store)
  next
    case (Cons x ys)
    let ?m = "m(d := x)"
    have ne: "d \<noteq> s" using Suc.prems Cons by auto
    have d1: "length (strncpy_bytes ys n) \<le> off (d + 1) (s + 1)" and
         s1: "Suc (length ys) \<le> off (s + 1) (d + 1)"
      using Suc.prems Cons by (auto simp: strncpy_bytes_Cons_Suc)
    have "Suc (length ys) \<le> off (s + 1) d"
      using Suc.prems(3) Cons off_Suc [OF ne] by simp
    then have "cstr_at ?m (s + 1) ys"
      using Suc.prems(1)[unfolded Cons cstr_at_Cons]
      by (auto simp: cstr_at_def load_bytes_upd_other)
    from Suc.IH [OF this d1 s1] show ?thesis
      using Suc.prems(1) Cons
      by (simp add: cstr_at_Cons strncpy_bytes_Cons_Suc fun_upd_def)
  qed
qed

lemma strncpy_store:
  assumes "cstr_at m s xs" "apart d (length (strncpy_bytes xs (unat n))) s (Suc (length xs))"
  shows "strncpy m d s n = store_bytes m d (strncpy_bytes xs (unat n))"
proof (cases "n = 0")
  case True
  then show ?thesis by (simp add: strncpy_def)
next
  case False
  then have "0 < unat n" by (simp add: unat_gt_0)
  then have "strncpy_bytes xs (unat n) \<noteq> []" by (auto simp: strncpy_bytes_def)
  then show ?thesis
    using assms strncpy_copy_store [of m s xs "unat n" d]
    by (auto simp: strncpy_def apart_def Let_def)
qed

subsection \<open>The order of \<^verbatim>\<open>strcmp\<close>\<close>

lemma strcmp_bytes_eq_0 [simp]:
  "is_cstr a \<Longrightarrow> is_cstr b \<Longrightarrow> strcmp_bytes a b = 0 \<longleftrightarrow> a = b"
  by (induction a b rule: strcmp_bytes.induct) (auto simp: is_cstr_def word_uint_eq_iff)

lemma strcmp_bytes_refl [simp]: "strcmp_bytes a a = 0"
  by (induction a) simp_all

lemma strcmp_bytes_antisym: "strcmp_bytes b a = - strcmp_bytes a b"
  by (induction a b rule: strcmp_bytes.induct) auto

lemma strcmp_bytes_trans:
  "strcmp_bytes a b \<le> 0 \<Longrightarrow> strcmp_bytes b c \<le> 0 \<Longrightarrow> is_cstr a \<Longrightarrow> is_cstr b \<Longrightarrow> is_cstr c \<Longrightarrow>
   strcmp_bytes a c \<le> 0"
proof (induction a b arbitrary: c rule: strcmp_bytes.induct)
  case (4 x xs y ys)
  then show ?case
    by (cases c) (auto simp: is_cstr_def word_uint_eq_iff split: if_splits)
qed (case_tac c; auto simp: is_cstr_def word_uint_eq_iff split: if_splits)+

lemma strncmp_bytes_prefix:
  "is_cstr a \<Longrightarrow> is_cstr p \<Longrightarrow> strncmp_bytes a p (length p) = 0 \<longleftrightarrow> take (length p) a = p"
  by (simp add: strncmp_bytes_def is_cstr_take)

subsection \<open>Properties\<close>

text \<open>
  for two ranges that end inside the address space, however they overlap, \<^verbatim>\<open>memmove\<close>
  leaves at the destination the bytes the source held before the call and changes nothing else.
\<close>

lemma memmove_correct:
  assumes "unat dst + unat n \<le> 4294967296" "unat src + unat n \<le> 4294967296"
  shows "load_bytes (memmove m dst src n) dst (unat n) = load_bytes m src (unat n) \<and>
    (\<forall>x. unat n \<le> off dst x \<longrightarrow> memmove m dst src n x = m x)"
  using load_store_same [of "load_bytes m src (unat n)" m dst]
  by (simp add: memmove_store [OF assms] store_bytes_other)

lemma memmove_correct_witness:
  "load_bytes (memmove (\<lambda>a. ucast a) 101 100 3) 101 3 = [100, 101, 102]"
proof -
  have l: "load_bytes (\<lambda>a. ucast a) (100 :: u32) 3 = ([100, 101, 102] :: u8 list)"
    by (simp add: load_bytes_def upt_rec)
  have u: "unat (3 :: u32) = 3" by simp
  from memmove_correct [of 101 3 100 "\<lambda>a. ucast a", unfolded u] l show ?thesis by simp
qed

text \<open>
  \<^verbatim>\<open>strncpy(d, s, n)\<close> of a string apart from the destination stores the first
  \<^verbatim>\<open>n\<close> bytes of a long string without a NUL; for a string shorter than \<^verbatim>\<open>n\<close> it stores the
  string and zeros up to and including \<^verbatim>\<open>d[n]\<close>: \<open>n + 1\<close> bytes, one more than it
  was given room for.  No byte outside that range changes.
\<close>

lemma strncpy_correct:
  assumes "cstr_at m s xs" "unat n < 4294967295" "apart d (Suc (unat n)) s (Suc (length xs))"
  shows "(if length xs < unat n
      then load_bytes (strncpy m d s n) d (Suc (unat n)) = xs @ replicate (Suc (unat n - length xs)) 0 \<and>
           (\<forall>x. Suc (unat n) \<le> off d x \<longrightarrow> strncpy m d s n x = m x)
      else load_bytes (strncpy m d s n) d (unat n) = take (unat n) xs \<and>
           (\<forall>x. unat n \<le> off d x \<longrightarrow> strncpy m d s n x = m x))"
proof -
  have "apart d (length (strncpy_bytes xs (unat n))) s (Suc (length xs))"
    using assms(3) length_strncpy_bytes_le [of xs "unat n"] by (auto simp: apart_def)
  note st = strncpy_store [OF assms(1) this]
  have "length (strncpy_bytes xs (unat n)) < 4294967296"
    using length_strncpy_bytes_le [of xs "unat n"] assms(2) by linarith
  from load_store_same [OF this, of m d] show ?thesis
    unfolding st by (auto simp: length_strncpy_bytes store_bytes_other) (simp_all add: strncpy_bytes_def)
qed

lemma strncpy_correct_witness:
  "load_bytes (strncpy (\<lambda>a. if a = 0 then 65 else 0) 16 0 4) 16 5 = [65, 0, 0, 0, 0]"
proof -
  let ?m = "(\<lambda>a. if a = 0 then 65 else 0) :: mem"
  have "cstr_at ?m 0 [65]" by (simp add: cstr_at_Cons)
  moreover have "apart 16 (Suc (unat (4 :: u32))) 0 (Suc (length [65 :: u8]))"
    by (simp add: apart_def)
  ultimately have "load_bytes (strncpy ?m 16 0 4) 16 (Suc 4) = [65] @ replicate (Suc (4 - 1)) 0"
    using strncpy_correct [of ?m 0 "[65]" 4 16] by (simp del: replicate_Suc)
  moreover have "[65] @ replicate (Suc (4 - 1)) 0 = [65, 0, 0, 0, 0 :: u8]"
    by (simp add: numeral_eq_Suc)
  moreover have "Suc 4 = (5 :: nat)" by simp
  ultimately show ?thesis by metis
qed

end
