(* ===== verification/Env.thy ===== *)
theory Env
  imports KString
begin

text \<open>
  \<^verbatim>\<open>kernel/env.c\<close>: the environment variables, 32 slots of a key (32 bytes), a value
  (64 bytes) and a used flag.  Strings are written with \<open>copy_field\<close> (\<^verbatim>\<open>strncpy\<close>
  and the forced NUL).  The table interprets \<open>kv_store\<close>.
\<close>

subsection \<open>State\<close>

record env_entry =
  e_key :: "u8 list"
  e_val :: "u8 list"
  e_used :: bool

definition ENV_MAX_VARS :: nat where "ENV_MAX_VARS = 32"
definition ENV_KEY_MAX :: nat where "ENV_KEY_MAX = 32"
definition ENV_VAL_MAX :: nat where "ENV_VAL_MAX = 64"

lemmas env_limits [simp] = ENV_MAX_VARS_def ENV_KEY_MAX_def ENV_VAL_MAX_def

definition env_blank :: "env_entry list" where
  "env_blank = replicate ENV_MAX_VARS
     \<lparr>e_key = replicate ENV_KEY_MAX 0, e_val = replicate ENV_VAL_MAX 0, e_used = False\<rparr>"

subsection \<open>Operations\<close>

definition env_hit :: "cstr \<Rightarrow> env_entry \<Rightarrow> bool" where
  "env_hit key e \<longleftrightarrow> e_used e \<and> strcmp_bytes (cstr_of (e_key e)) key = 0"

definition env_set :: "cstr \<Rightarrow> cstr \<Rightarrow> env_entry list \<Rightarrow> bool \<times> env_entry list" where
  "env_set key val t =
     (case find_slot (env_hit key) t of
        Some i \<Rightarrow> (True, t[i := (t ! i)\<lparr>e_val := copy_field (e_val (t ! i)) val (ENV_VAL_MAX - 1)\<rparr>])
      | None \<Rightarrow>
        (case find_slot (\<lambda>e. \<not> e_used e) t of
           Some i \<Rightarrow> (True, t[i := \<lparr>e_key = copy_field (e_key (t ! i)) key (ENV_KEY_MAX - 1),
                                    e_val = copy_field (e_val (t ! i)) val (ENV_VAL_MAX - 1),
                                    e_used = True\<rparr>])
         | None \<Rightarrow> (False, t)))"

definition env_get :: "cstr \<Rightarrow> env_entry list \<Rightarrow> cstr option" where
  "env_get key t = map_option (\<lambda>i. cstr_of (e_val (t ! i))) (find_slot (env_hit key) t)"

definition env_unset :: "cstr \<Rightarrow> env_entry list \<Rightarrow> env_entry list" where
  "env_unset key t = map (\<lambda>e. if env_hit key e then e\<lparr>e_used := False\<rparr> else e) t"

definition env_dump :: "env_entry list \<Rightarrow> cstr list" where
  "env_dump t = map (\<lambda>e. lit ''  '' @ cstr_of (e_key e) @ lit ''='' @ cstr_of (e_val e) @ [10])
     (filter e_used t)"

definition env_init :: "env_entry list" where
  "env_init =
     (let t = env_blank;
          t = snd (env_set (lit ''OS'') (lit ''baSic_'') t);
          t = snd (env_set (lit ''VERSION'') (lit ''1.0'') t);
          t = snd (env_set (lit ''AUTHOR'') (lit ''Shahriar Dhrubo'') t);
          t = snd (env_set (lit ''ARCH'') (lit ''x86'') t)
      in snd (env_set (lit ''SHELL'') (lit ''baSic_shell'') t))"

subsection \<open>Invariant\<close>

definition env_entry_ok :: "env_entry \<Rightarrow> bool" where
  "env_entry_ok e \<longleftrightarrow> length (e_key e) = 32 \<and> length (e_val e) = 64 \<and>
     (e_used e \<longrightarrow> 0 \<in> set (e_key e) \<and> 0 \<in> set (e_val e))"

definition env_ok :: "env_entry list \<Rightarrow> bool" where
  "env_ok t \<longleftrightarrow> length t = 32 \<and> (\<forall>e \<in> set t. env_entry_ok e)"

lemma env_ok_nth: "env_ok t \<Longrightarrow> i < length t \<Longrightarrow> env_entry_ok (t ! i)"
  by (auto simp: env_ok_def)

lemma env_ok_update [kinv]: "env_ok t \<Longrightarrow> env_entry_ok e \<Longrightarrow> env_ok (t[i := e])"
  by (auto simp: env_ok_def dest!: set_update_cases)

lemma env_blank_ok [kinv]: "env_ok env_blank"
  by (auto simp: env_ok_def env_blank_def env_entry_ok_def)

lemma env_set_ok [kinv]: "env_ok t \<Longrightarrow> env_ok (snd (env_set k v t))"
  using env_ok_nth [of t]
  by (auto simp: env_set_def env_entry_ok_def find_slot_Some copy_field_has_nul
      split: option.splits intro!: env_ok_update)

lemma env_unset_ok [kinv]: "env_ok t \<Longrightarrow> env_ok (env_unset k t)"
  by (auto simp: env_ok_def env_unset_def env_entry_ok_def)

lemma env_init_ok [kinv]: "env_ok env_init"
  by (simp add: env_init_def Let_def env_set_ok env_blank_ok)

subsection \<open>The table is a key/value store\<close>

definition env_key_of :: "env_entry \<Rightarrow> cstr option" where
  "env_key_of e = (if e_used e then Some (cstr_of (e_key e)) else None)"

definition env_val_of :: "env_entry \<Rightarrow> cstr" where
  "env_val_of e = cstr_of (e_val e)"

definition env_okk :: "cstr \<Rightarrow> bool" where
  "env_okk k \<longleftrightarrow> is_cstr k \<and> length k < ENV_KEY_MAX"

definition env_upd :: "cstr \<Rightarrow> env_entry \<Rightarrow> env_entry" where
  "env_upd v e = e\<lparr>e_val := copy_field (e_val e) v (ENV_VAL_MAX - 1)\<rparr>"

definition env_ins :: "cstr \<Rightarrow> cstr \<Rightarrow> env_entry \<Rightarrow> env_entry" where
  "env_ins k v e = \<lparr>e_key = copy_field (e_key e) k (ENV_KEY_MAX - 1),
     e_val = copy_field (e_val e) v (ENV_VAL_MAX - 1), e_used = True\<rparr>"

interpretation env: slot_table env_key_of env_val_of env_upd env_ins env_entry_ok
    env_okk is_cstr "take 63" 32
  by unfold_locales
     (auto simp: env_key_of_def env_val_of_def env_okk_def env_upd_def env_ins_def
       env_entry_ok_def copy_field_has_nul split: if_splits)

lemma env_ok_table: "env_ok = env.table_ok"
  by (rule ext) (simp add: env_ok_def env.table_ok_def)

lemma env_hit_key: "is_cstr k \<Longrightarrow> env_hit k = (\<lambda>e. env_key_of e = Some k)"
  by (rule ext) (auto simp: env_hit_def env_key_of_def)

lemma env_free_key: "(\<lambda>e. \<not> e_used e) = (\<lambda>e. env_key_of e = None)"
  by (rule ext) (simp add: env_key_of_def)

lemma env_get_slot: "is_cstr k \<Longrightarrow> env_get k t = slot_lookup env_key_of env_val_of k t"
  by (simp add: env_get_def slot_lookup_def slot_find_def env_hit_key env_val_of_def)

lemma env_set_put: "is_cstr k \<Longrightarrow> snd (env_set k v t) = env.put k v t"
  by (simp add: env_set_def env.put_def slot_put_def slot_find_def slot_free_def env_hit_key
      env_free_key env_upd_def env_ins_def split: option.splits)

lemma env_set_room: "is_cstr k \<Longrightarrow> fst (env_set k v t) = slot_room env_key_of t k"
  by (simp add: env_set_def slot_room_def slot_find_def slot_free_def env_hit_key
      env_free_key split: option.splits)

lemmas env_as_store = env_get_slot env_set_put env_set_room env_ok_table

lemma env_get_unset_same: "env_get k (env_unset k t) = None"
  by (auto simp: env_get_def env_unset_def find_slot_None env_hit_def)

lemma env_get_unset_other:
  assumes "is_cstr k" "is_cstr k'" "k' \<noteq> k"
  shows "env_get k' (env_unset k t) = env_get k' t"
proof -
  have "find_slot (env_hit k') (env_unset k t) = find_slot (env_hit k') t"
    by (rule find_slot_cong) (use assms in \<open>auto simp: env_unset_def env_hit_def\<close>)
  moreover have "e_val (env_unset k t ! i) = e_val (t ! i)" if "i < length t" for i
    using that by (simp add: env_unset_def)
  ultimately show ?thesis
    by (cases "find_slot (env_hit k') t") (auto simp: env_get_def dest: find_slot_SomeD(1))
qed

subsection \<open>Properties\<close>

text \<open>setting a variable whose key fits and for which there is room succeeds; the value read
  back is the value set, cut to 63 bytes, and no other variable changes.\<close>

lemma env_set_get:
  assumes "env_ok t" "env_okk k" "is_cstr v" "fst (env_set k v t)"
  shows "env_get k (snd (env_set k v t)) = Some (take 63 v) \<and>
    (\<forall>k'. is_cstr k' \<longrightarrow> k' \<noteq> k \<longrightarrow> env_get k' (snd (env_set k v t)) = env_get k' t)"
  using assms env.kv.store_same [of t k v] env.kv.store_other [of t k _ v]
  by (auto simp: env_as_store env_okk_def)

lemma env_set_get_witness:
  "env_get (lit ''HOME'') (snd (env_set (lit ''HOME'') (lit ''/home'') env_init)) = Some (lit ''/home'')"
proof -
  have ok: "env_okk (lit ''HOME'')" "is_cstr (lit ''/home'')"
    by (simp_all add: env_okk_def is_cstr_def)
  have "fst (env_set (lit ''HOME'') (lit ''/home'') env_init)"
    by code_simp
  from env_set_get [OF env_init_ok ok this] show ?thesis by simp
qed

end
