(* ===== verification/Bytes.thy ===== *)
theory Bytes
  imports KString
begin

text \<open>
  Little-endian fields: \<^verbatim>\<open>read_u16\<close>, \<^verbatim>\<open>read_u32\<close>, \<^verbatim>\<open>write_u16\<close>, \<^verbatim>\<open>write_u32\<close> of
  \<^verbatim>\<open>kernel/fat12.c\<close>, and the loads and stores of 32-bit words the compiler emits for the
  structures of the heap, the page tables and the ELF headers.
\<close>

unbundle bit_operations_syntax

definition le16_bytes :: "u16 \<Rightarrow> u8 list" where
  "le16_bytes v = [ucast v, ucast (drop_bit 8 v)]"

definition le32_bytes :: "u32 \<Rightarrow> u8 list" where
  "le32_bytes v = [ucast v, ucast (drop_bit 8 v), ucast (drop_bit 16 v), ucast (drop_bit 24 v)]"

definition le16 :: "u8 \<Rightarrow> u8 \<Rightarrow> u16" where
  "le16 b0 b1 = ucast b0 OR push_bit 8 (ucast b1)"

definition le32 :: "u8 \<Rightarrow> u8 \<Rightarrow> u8 \<Rightarrow> u8 \<Rightarrow> u32" where
  "le32 b0 b1 b2 b3 =
     ucast b0 OR push_bit 8 (ucast b1) OR push_bit 16 (ucast b2) OR push_bit 24 (ucast b3)"

lemma length_le_bytes [simp]: "length (le16_bytes v) = 2" "length (le32_bytes w) = 4"
  by (simp_all add: le16_bytes_def le32_bytes_def)

lemma le16_roundtrip [simp]: "le16 (ucast v) (ucast (drop_bit 8 v)) = v"
  unfolding le16_def by (rule bit_word_eqI) (auto simp: bit_simps)

lemma le32_roundtrip [simp]:
  "le32 (ucast v) (ucast (drop_bit 8 v)) (ucast (drop_bit 16 v)) (ucast (drop_bit 24 v)) = v"
  unfolding le32_def
proof (rule bit_word_eqI)
  fix n assume "n < LENGTH(32)"
  then show "bit (ucast (ucast v :: u8) OR push_bit 8 (ucast (ucast (drop_bit 8 v) :: u8)) OR
      push_bit 16 (ucast (ucast (drop_bit 16 v) :: u8)) OR
      push_bit 24 (ucast (ucast (drop_bit 24 v) :: u8)) :: u32) n = bit v n"
    by (cases "n < 8"; cases "n < 16"; cases "n < 24") (auto simp: bit_simps)
qed

subsection \<open>32-bit loads and stores\<close>

definition ld16 :: "mem \<Rightarrow> u32 \<Rightarrow> u16" where
  "ld16 m a = le16 (m a) (m (a + 1))"

definition ld32 :: "mem \<Rightarrow> u32 \<Rightarrow> u32" where
  "ld32 m a = le32 (m a) (m (a + 1)) (m (a + 2)) (m (a + 3))"

definition st32 :: "mem \<Rightarrow> u32 \<Rightarrow> u32 \<Rightarrow> mem" where
  "st32 m a v = store_bytes m a (le32_bytes v)"

lemma st32_upd:
  "st32 m a v = m(a := ucast v, a + 1 := ucast (drop_bit 8 v), a + 2 := ucast (drop_bit 16 v),
     a + 3 := ucast (drop_bit 24 v))"
  by (simp add: st32_def le32_bytes_def add.assoc)

lemma ld32_st32_same [simp]: "ld32 (st32 m a v) a = v"
  by (simp add: ld32_def st32_upd)

lemma ld32_cong:
  assumes "\<And>i. i < 4 \<Longrightarrow> m' (a + of_nat i) = m (a + of_nat i)"
  shows "ld32 m' a = ld32 m a"
  using assms [of 0] assms [of 1] assms [of 2] assms [of 3] by (simp add: ld32_def)

text \<open>Addresses that are natural numbers below the end of the address space.\<close>

lemma off_nat:
  assumes "a \<le> x" "x < 4294967296"
  shows "off (of_nat a) (of_nat x) = x - a"
proof -
  have "(of_nat x - of_nat a :: u32) = of_nat (x - a)" using assms by (simp add: of_nat_diff)
  moreover have "x - a < 4294967296" using assms by simp
  ultimately show ?thesis by (simp only: unat32_of_nat_small)
qed

lemma of_nat_u32_inj:
  "a < 4294967296 \<Longrightarrow> b < 4294967296 \<Longrightarrow> (of_nat a :: u32) = of_nat b \<longleftrightarrow> a = b"
  by (metis unat32_of_nat_small)

lemma off_nat_less:
  assumes "x < a" "a + k \<le> 4294967296"
  shows "k \<le> off (of_nat a) (of_nat x)"
proof (cases "k = 0")
  case False
  with assms have "(of_nat x :: u32) \<noteq> of_nat a" by (subst of_nat_u32_inj) auto
  then have "off (of_nat x) (of_nat a) + off (of_nat a) (of_nat x) = 4294967296" by (rule off_sum)
  moreover have "off (of_nat x) (of_nat a) = a - x"
    by (rule off_nat) (use assms False in auto)
  ultimately show ?thesis using assms by linarith
qed simp

lemma store_bytes_nat_other:
  assumes "x < a \<or> a + length bs \<le> x" "a + length bs \<le> 4294967296" "x < 4294967296"
  shows "store_bytes m (of_nat a) bs (of_nat x) = m (of_nat x)"
proof (rule store_bytes_other)
  show "length bs \<le> off (of_nat a) (of_nat x)"
    using assms off_nat_less [of x a "length bs"] off_nat [of a x] by auto
qed

lemma st32_nat_other:
  "x < a \<or> a + 4 \<le> x \<Longrightarrow> a + 4 \<le> 4294967296 \<Longrightarrow> x < 4294967296 \<Longrightarrow>
   st32 m (of_nat a) v (of_nat x) = m (of_nat x)"
  unfolding st32_def by (rule store_bytes_nat_other) auto

lemma ld32_nat_cong:
  "(\<And>x. a \<le> x \<Longrightarrow> x < a + 4 \<Longrightarrow> m' (of_nat x) = m (of_nat x)) \<Longrightarrow>
   ld32 m' (of_nat a) = ld32 m (of_nat a)"
  by (rule ld32_cong) (metis add_less_cancel_left le_add1 of_nat_add)

lemma ld32_st32_nat_other:
  "b + 4 \<le> a \<or> a + 4 \<le> b \<Longrightarrow> a + 4 \<le> 4294967296 \<Longrightarrow> b + 4 \<le> 4294967296 \<Longrightarrow>
   ld32 (st32 m (of_nat a) v) (of_nat b) = ld32 m (of_nat b)"
  by (rule ld32_nat_cong) (auto intro!: st32_nat_other)

lemma upd_nat_other:
  "x \<noteq> a \<Longrightarrow> x < 4294967296 \<Longrightarrow> a < 4294967296 \<Longrightarrow>
   (m(of_nat a := v)) (of_nat x :: u32) = m (of_nat x)"
  by (simp add: of_nat_u32_inj)

lemma ld32_upd_nat_other:
  "x < b \<or> b + 4 \<le> x \<Longrightarrow> x < 4294967296 \<Longrightarrow> b + 4 \<le> 4294967296 \<Longrightarrow>
   ld32 (m(of_nat x := v)) (of_nat b) = ld32 m (of_nat b)"
  by (rule ld32_nat_cong) (rule upd_nat_other, auto)

end
