(* ===== verification/Heap.thy ===== *)
theory Heap
  imports Bytes
begin

text \<open>
  \<^verbatim>\<open>mm/heap.c\<close>: the kernel heap as a chain of block headers in byte-addressed memory.
  A header is 16 bytes: \<^verbatim>\<open>magic\<close> at 0, \<^verbatim>\<open>size\<close> at 4, the \<^verbatim>\<open>free\<close> byte at 8, \<^verbatim>\<open>next\<close> at 12.
  The loops follow \<^verbatim>\<open>next\<close> pointers read from memory, so they are partial functions.
  The specification is a list of blocks \<open>(size, free)\<close> that tile the arena:
  \<open>a_alloc\<close>, \<open>a_mark\<close> and \<open>a_merge\<close>, and \<open>chain\<close> relates the two.
\<close>

unbundle bit_operations_syntax

subsection \<open>The code\<close>

definition HEAP_START :: u32 where "HEAP_START = 0x300000"
definition HEAP_SIZE :: u32 where "HEAP_SIZE = 0x100000"
definition HEAP_MAGIC :: u32 where "HEAP_MAGIC = 0xB451C000"
definition HDR :: u32 where "HDR = 16" \<comment> \<open>\<^verbatim>\<open>sizeof(block_hdr_t)\<close>\<close>

definition hd_magic :: "mem \<Rightarrow> u32 \<Rightarrow> u32" where "hd_magic m b = ld32 m b"
definition hd_size :: "mem \<Rightarrow> u32 \<Rightarrow> u32" where "hd_size m b = ld32 m (b + 4)"
definition hd_free :: "mem \<Rightarrow> u32 \<Rightarrow> u8" where "hd_free m b = m (b + 8)"
definition hd_next :: "mem \<Rightarrow> u32 \<Rightarrow> u32" where "hd_next m b = ld32 m (b + 12)"

definition set_magic :: "u32 \<Rightarrow> u32 \<Rightarrow> mem \<Rightarrow> mem" where "set_magic b v m = st32 m b v"
definition set_size :: "u32 \<Rightarrow> u32 \<Rightarrow> mem \<Rightarrow> mem" where "set_size b v m = st32 m (b + 4) v"
definition set_free :: "u32 \<Rightarrow> u8 \<Rightarrow> mem \<Rightarrow> mem" where "set_free b v m = m(b + 8 := v)"
definition set_next :: "u32 \<Rightarrow> u32 \<Rightarrow> mem \<Rightarrow> mem" where "set_next b v m = st32 m (b + 12) v"

text \<open>\<open>heap_init\<close> returns the memory and the value of \<^verbatim>\<open>heap_head\<close>.\<close>

definition heap_init :: "mem \<Rightarrow> mem \<times> u32" where
  "heap_init m =
     (set_next HEAP_START 0 (set_free HEAP_START 1
       (set_size HEAP_START (HEAP_SIZE - HDR) (set_magic HEAP_START HEAP_MAGIC m))), HEAP_START)"

partial_function (option) merge_free_blocks :: "mem \<Rightarrow> u32 \<Rightarrow> mem option" where
  "merge_free_blocks m cur =
     (if cur \<noteq> 0 \<and> hd_next m cur \<noteq> 0 then
        (if hd_free m cur \<noteq> 0 \<and> hd_free m (hd_next m cur) \<noteq> 0 then
           (let m1 = set_size cur (hd_size m cur + (HDR + hd_size m (hd_next m cur))) m;
                m2 = set_next cur (hd_next m1 (hd_next m1 cur)) m1
            in merge_free_blocks m2 cur)
         else merge_free_blocks m (hd_next m cur))
      else Some m)"

definition align8 :: "u32 \<Rightarrow> u32" where
  "align8 n = (n + 7) AND NOT 7"

text \<open>Splitting the block \<open>cur\<close> when there is room, and taking it.\<close>

definition take_block :: "mem \<Rightarrow> u32 \<Rightarrow> u32 \<Rightarrow> mem" where
  "take_block m cur n =
     (let m = (if hd_size m cur \<ge> n + HDR + 8 then
                 (let split = cur + HDR + n;
                      m = set_magic split HEAP_MAGIC m;
                      m = set_size split (hd_size m cur - n - HDR) m;
                      m = set_free split 1 m;
                      m = set_next split (hd_next m cur) m;
                      m = set_next cur split m
                  in set_size cur n m)
               else m)
      in set_free cur 0 m)"

partial_function (option) kmalloc_loop :: "mem \<Rightarrow> u32 \<Rightarrow> u32 \<Rightarrow> (u32 \<times> mem) option" where
  "kmalloc_loop m n cur =
     (if cur \<noteq> 0 then
        (if hd_free m cur \<noteq> 0 \<and> hd_size m cur \<ge> n
         then Some (cur + HDR, take_block m cur n)
         else kmalloc_loop m n (hd_next m cur))
      else Some (0, m))"

definition kmalloc :: "u32 \<Rightarrow> u32 \<Rightarrow> mem \<Rightarrow> (u32 \<times> mem) option" where
  "kmalloc head n m =
     (if n = 0 then Some (0, m) else kmalloc_loop m (align8 n) head)"

definition kfree :: "u32 \<Rightarrow> u32 \<Rightarrow> mem \<Rightarrow> mem option" where
  "kfree head ptr m =
     (if ptr = 0 then Some m
      else if hd_magic m (ptr - HDR) \<noteq> HEAP_MAGIC then Some m
      else merge_free_blocks (set_free (ptr - HDR) 1 m) head)"

subsection \<open>The specification: a list of blocks\<close>

type_synonym block = "nat \<times> bool" \<comment> \<open>payload size, free\<close>

fun span :: "block list \<Rightarrow> nat" where
  "span [] = 0"
| "span ((sz, fr) # bs) = 16 + sz + span bs"

fun a_alloc :: "nat \<Rightarrow> nat \<Rightarrow> block list \<Rightarrow> (nat \<times> block list) option" where
  "a_alloc n a [] = None"
| "a_alloc n a ((sz, fr) # bs) =
     (if fr \<and> n \<le> sz then
        Some (a + 16, if n + 24 \<le> sz then (n, False) # (sz - n - 16, True) # bs
                      else (sz, False) # bs)
      else map_option (\<lambda>(p, bs'). (p, (sz, fr) # bs')) (a_alloc n (a + 16 + sz) bs))"

fun a_merge :: "block list \<Rightarrow> block list" where
  "a_merge ((s1, True) # (s2, True) # bs) = a_merge ((s1 + 16 + s2, True) # bs)"
| "a_merge (b # bs) = b # a_merge bs"
| "a_merge [] = []"

fun a_mark :: "nat \<Rightarrow> nat \<Rightarrow> block list \<Rightarrow> block list" where
  "a_mark p a [] = []"
| "a_mark p a ((sz, fr) # bs) =
     (if p = a + 16 then (sz, True) # bs else (sz, fr) # a_mark p (a + 16 + sz) bs)"

text \<open>The allocated blocks: payload address and size.\<close>

fun live :: "nat \<Rightarrow> block list \<Rightarrow> (nat \<times> nat) set" where
  "live a [] = {}"
| "live a ((sz, fr) # bs) = (if fr then {} else {(a + 16, sz)}) \<union> live (a + 16 + sz) bs"

fun separated :: "block list \<Rightarrow> bool" where
  "separated ((s1, f1) # (s2, f2) # bs) \<longleftrightarrow> \<not> (f1 \<and> f2) \<and> separated ((s2, f2) # bs)"
| "separated bs \<longleftrightarrow> True"

fun chain :: "mem \<Rightarrow> nat \<Rightarrow> block list \<Rightarrow> bool" where
  "chain m a [] \<longleftrightarrow> True"
| "chain m a ((sz, fr) # bs) \<longleftrightarrow>
     ld32 m (of_nat a) = HEAP_MAGIC \<and> ld32 m (of_nat (a + 4)) = of_nat sz \<and>
     m (of_nat (a + 8)) = (if fr then 1 else 0) \<and>
     ld32 m (of_nat (a + 12)) = (if bs = [] then 0 else of_nat (a + 16 + sz)) \<and>
     chain m (a + 16 + sz) bs"

abbreviation heap_lo :: nat where "heap_lo \<equiv> 0x300000"
abbreviation heap_hi :: nat where "heap_hi \<equiv> 0x400000"

definition heap_ok :: "mem \<Rightarrow> block list \<Rightarrow> bool" where
  "heap_ok m bs \<longleftrightarrow> chain m heap_lo bs \<and> heap_lo + span bs = heap_hi \<and> separated bs \<and>
     (\<forall>(sz, fr) \<in> set bs. 8 dvd sz) \<and> bs \<noteq> []"

subsection \<open>Headers at natural-number addresses\<close>

lemma hdr_nat:
  "hd_magic m (of_nat a) = ld32 m (of_nat a)"
  "hd_size m (of_nat a) = ld32 m (of_nat (a + 4))"
  "hd_free m (of_nat a) = m (of_nat (a + 8))"
  "hd_next m (of_nat a) = ld32 m (of_nat (a + 12))"
  "set_magic (of_nat a) v m = st32 m (of_nat a) v"
  "set_size (of_nat a) v m = st32 m (of_nat (a + 4)) v"
  "set_free (of_nat a) w m = m(of_nat (a + 8) := w)"
  "set_next (of_nat a) v m = st32 m (of_nat (a + 12)) v"
  by (simp_all add: hd_magic_def hd_size_def hd_free_def hd_next_def
      set_magic_def set_size_def set_free_def set_next_def)

lemma chain_cong:
  "(\<And>x. a \<le> x \<Longrightarrow> x < a + span bs \<Longrightarrow> m' (of_nat x) = m (of_nat x)) \<Longrightarrow>
   chain m' a bs = chain m a bs"
proof (induction bs arbitrary: a)
  case Nil
  then show ?case by simp
next
  case (Cons b bs)
  obtain sz fr where b: "b = (sz, fr)" by (cases b)
  have "chain m' (a + 16 + sz) bs = chain m (a + 16 + sz) bs"
    by (rule Cons.IH) (use Cons.prems b in auto)
  moreover have "ld32 m' (of_nat (a + k)) = ld32 m (of_nat (a + k))" if "k \<le> 12" for k
    by (rule ld32_nat_cong) (use Cons.prems b that in auto)
  from this [of 0] this [of 4] this [of 12] have
    "ld32 m' (of_nat a) = ld32 m (of_nat a)"
    "ld32 m' (of_nat (a + 4)) = ld32 m (of_nat (a + 4))"
    "ld32 m' (of_nat (a + 12)) = ld32 m (of_nat (a + 12))" by simp_all
  moreover have "m' (of_nat (a + 8)) = m (of_nat (a + 8))"
    by (rule Cons.prems) (simp_all add: b)
  ultimately show ?case by (simp add: b)
qed

lemma chain_head_cong:
  assumes "chain m a ((sz, fr) # bs)"
    "\<And>x. a \<le> x \<Longrightarrow> x < a + 16 \<Longrightarrow> m' (of_nat x) = m (of_nat x)"
    "chain m' (a + 16 + sz) bs'" "bs' = [] \<longleftrightarrow> bs = []"
  shows "chain m' a ((sz, fr) # bs')"
proof -
  have "ld32 m' (of_nat (a + k)) = ld32 m (of_nat (a + k))" if "k \<le> 12" for k
    by (rule ld32_nat_cong, rule assms(2)) (use that in auto)
  from this [of 0] this [of 4] this [of 12] have
    "ld32 m' (of_nat a) = ld32 m (of_nat a)"
    "ld32 m' (of_nat (a + 4)) = ld32 m (of_nat (a + 4))"
    "ld32 m' (of_nat (a + 12)) = ld32 m (of_nat (a + 12))" by simp_all
  moreover have "m' (of_nat (a + 8)) = m (of_nat (a + 8))" by (rule assms(2)) simp_all
  ultimately show ?thesis using assms(1,3,4) by simp
qed

lemmas mem_nat = st32_nat_other upd_nat_other ld32_st32_nat_other ld32_upd_nat_other

lemma of_nat_u32_le: "a < 4294967296 \<Longrightarrow> b < 4294967296 \<Longrightarrow> (of_nat a :: u32) \<le> of_nat b \<longleftrightarrow> a \<le> b"
  by (simp add: word_le_nat_alt)

lemma HDR_nat: "of_nat a + HDR = of_nat (a + 16)"
  "of_nat a + HDR + of_nat b = of_nat (a + 16 + b)"
  "of_nat a + HDR + 8 = (of_nat (a + 24) :: u32)"
  by (simp_all add: HDR_def)

lemma take_block_whole:
  assumes "chain m a ((sz, True) # bs)" "a + 16 + sz + span bs \<le> heap_hi" "n \<le> sz" "sz < n + 24"
  defines "m' \<equiv> take_block m (of_nat a) (of_nat n)"
  shows "chain m' a ((sz, False) # bs)"
    and "\<And>x. x < 4294967296 \<Longrightarrow> x < a \<or> a + 16 \<le> x \<Longrightarrow> m' (of_nat x) = m (of_nat x)"
proof -
  have "\<not> (of_nat n + HDR + 8 \<le> hd_size m (of_nat a))"
    using assms(1-4) by (simp add: hdr_nat(2) HDR_nat(3) of_nat_u32_le del: of_nat_add)
  then have m': "m' = m(of_nat (a + 8) := 0)"
    by (simp add: m'_def take_block_def Let_def hdr_nat(7) del: of_nat_add)
  show "m' (of_nat x) = m (of_nat x)" if "x < 4294967296" "x < a \<or> a + 16 \<le> x" for x
    unfolding m' by (rule upd_nat_other) (use that assms in auto)
  have "chain m' (a + 16 + sz) bs = chain m (a + 16 + sz) bs"
    unfolding m' by (rule chain_cong, rule upd_nat_other) (use assms(1-4) in auto)
  then show "chain m' a ((sz, False) # bs)"
    using assms(1-4) by (simp add: m' mem_nat del: of_nat_add)
qed

lemma take_block_split:
  assumes "chain m a ((sz, True) # bs)" "a + 16 + sz + span bs \<le> heap_hi" "n + 24 \<le> sz"
  defines "m' \<equiv> take_block m (of_nat a) (of_nat n)"
  shows "chain m' a ((n, False) # (sz - n - 16, True) # bs)"
    and "\<And>x. x < 4294967296 \<Longrightarrow> x < a \<or> a + 16 + sz \<le> x \<Longrightarrow> m' (of_nat x) = m (of_nat x)"
proof -
  define s where "s = a + 16 + n"
  have bounds: "a + 16 \<le> s" "s + 16 \<le> a + 16 + sz" "a + 16 + sz \<le> heap_hi"
    "s + 16 + (sz - n - 16) = a + 16 + sz"
    using assms(2,3) by (simp_all add: s_def)
  have sp: "of_nat a + HDR + of_nat n = (of_nat s :: u32)"
    by (simp add: s_def HDR_def)
  have fits: "of_nat n + HDR + 8 \<le> (of_nat sz :: u32)"
    using assms(2,3) by (simp add: HDR_nat(3) of_nat_u32_le del: of_nat_add)
  have diff: "of_nat sz - of_nat n - HDR = (of_nat (sz - n - 16) :: u32)"
    using assms(3) by (simp add: HDR_def of_nat_diff)
  note hdr = assms(1)[unfolded chain.simps]
  have m': "m' = (st32 (st32 (st32 ((st32 (st32 m (of_nat s) HEAP_MAGIC)
        (of_nat (s + 4)) (of_nat (sz - n - 16)))(of_nat (s + 8) := 1))
        (of_nat (s + 12)) (if bs = [] then 0 else of_nat (a + 16 + sz)))
        (of_nat (a + 12)) (of_nat s)) (of_nat (a + 4)) (of_nat n))(of_nat (a + 8) := 0)"
    using hdr bounds fits
    by (simp add: m'_def take_block_def Let_def sp hdr_nat mem_nat diff del: of_nat_add of_nat_diff)
  show unch: "m' (of_nat x) = m (of_nat x)" if "x < 4294967296" "x < a \<or> a + 16 + sz \<le> x" for x
    unfolding m' using that bounds by (auto simp: mem_nat of_nat_u32_inj simp del: of_nat_add)
  have "chain m' (a + 16 + sz) bs = chain m (a + 16 + sz) bs"
    by (rule chain_cong, rule unch) (use assms(2) in auto)
  then have "chain m' (s + 16 + (sz - n - 16)) bs"
    using hdr unfolding bounds(4) by blast
  moreover have "ld32 m' (of_nat s) = HEAP_MAGIC" "ld32 m' (of_nat (s + 4)) = of_nat (sz - n - 16)"
    "m' (of_nat (s + 8)) = 1"
    "ld32 m' (of_nat (s + 12)) = (if bs = [] then 0 else of_nat (s + 16 + (sz - n - 16)))"
    "ld32 m' (of_nat a) = HEAP_MAGIC" "ld32 m' (of_nat (a + 4)) = of_nat n"
    "m' (of_nat (a + 8)) = 0" "ld32 m' (of_nat (a + 12)) = of_nat s"
    using hdr bounds unfolding m' bounds(4)
    by (simp_all add: mem_nat of_nat_u32_inj del: of_nat_add of_nat_diff)
  ultimately show "chain m' a ((n, False) # (sz - n - 16, True) # bs)"
    unfolding chain.simps s_def [symmetric] by simp
qed

subsection \<open>What an operation leaves alone\<close>

text \<open>Bytes outside the part of the arena it walks, and the payloads of allocated blocks.\<close>

definition keeps :: "nat \<Rightarrow> block list \<Rightarrow> mem \<Rightarrow> mem \<Rightarrow> bool" where
  "keeps a bs m m' \<longleftrightarrow> (\<forall>x < 4294967296.
     (x < a \<or> a + span bs \<le> x \<or> (\<exists>(p, k) \<in> live a bs. p \<le> x \<and> x < p + k)) \<longrightarrow>
     m' (of_nat x) = m (of_nat x))"

lemma keeps_refl [simp]: "keeps a bs m m"
  by (simp add: keeps_def)

lemma keeps_trans:
  "keeps a bs m m1 \<Longrightarrow> keeps a bs1 m1 m2 \<Longrightarrow> span bs1 = span bs \<Longrightarrow> live a bs \<subseteq> live a bs1 \<Longrightarrow>
   keeps a bs m m2"
  unfolding keeps_def by (auto 4 4)

lemma live_bounds: "(p, k) \<in> live a bs \<Longrightarrow> a + 16 \<le> p \<and> p + k \<le> a + span bs"
  by (induction bs arbitrary: a rule: span.induct) (fastforce split: if_splits)+

lemma span_pos [simp]: "bs \<noteq> [] \<Longrightarrow> 16 \<le> span bs"
  by (cases bs rule: span.cases) auto

lemma a_merge_Nil [simp]: "a_merge bs = [] \<longleftrightarrow> bs = []"
  by (induction bs rule: a_merge.induct) auto

lemma span_a_merge [simp]: "span (a_merge bs) = span bs"
  by (induction bs rule: a_merge.induct) auto

lemma live_Cons:
  "live a (b # bs) = (if snd b then {} else {(a + 16, fst b)}) \<union> live (a + 16 + fst b) bs"
  by (cases b) simp

lemma live_a_merge [simp]: "live a (a_merge bs) = live a bs"
proof (induction bs arbitrary: a rule: a_merge.induct)
  case (1 s1 s2 bs)
  have "a + 16 + (s1 + 16 + s2) = a + 16 + s1 + 16 + s2" by simp
  with 1 [of a] show ?case by (simp only: a_merge.simps live.simps if_True Un_empty_left)
qed (simp_all only: a_merge.simps live_Cons live.simps(1) fst_conv snd_conv)

lemma a_merge_aligned:
  "\<forall>(sz, fr) \<in> set bs. 8 dvd sz \<Longrightarrow> \<forall>(sz, fr) \<in> set (a_merge bs). 8 dvd sz"
  by (induction bs rule: a_merge.induct) auto

lemma separated_Cons_False [simp]: "separated ((sz, False) # bs) \<longleftrightarrow> separated bs"
  by (cases bs) auto

lemma separated_a_merge: "separated (a_merge bs)"
  by (induction bs rule: a_merge.induct) auto

lemma merge_step_join:
  assumes "chain m a ((s1, True) # (s2, True) # bs)" "a + span ((s1, True) # (s2, True) # bs) \<le> heap_hi"
    "0 < a"
  obtains m2 where
    "merge_free_blocks m (of_nat a) = merge_free_blocks m2 (of_nat a)"
    "chain m2 a ((s1 + 16 + s2, True) # bs)"
    "keeps a ((s1, True) # (s2, True) # bs) m m2"
proof -
  define b where "b = a + 16 + s1"
  define nx :: u32 where "nx = (if bs = [] then 0 else of_nat (b + 16 + s2))"
  define m1 where "m1 = st32 m (of_nat (a + 4)) (of_nat (s1 + 16 + s2))"
  define m2 where "m2 = st32 m1 (of_nat (a + 12)) nx"
  have bounds: "a + 16 \<le> b" "b + 16 + s2 + span bs \<le> heap_hi" "0 < b"
    using assms(2,3) by (simp_all add: b_def)
  note hdr = assms(1)[unfolded chain.simps, folded b_def]
  have b0: "(of_nat b :: u32) \<noteq> 0" "(of_nat a :: u32) \<noteq> 0"
    using bounds assms(3) of_nat_u32_inj [of b 0] of_nat_u32_inj [of a 0] by auto
  have sum: "of_nat s1 + (HDR + of_nat s2) = (of_nat (s1 + 16 + s2) :: u32)"
    by (simp add: HDR_def)
  have unf: "merge_free_blocks m (of_nat a) = merge_free_blocks m2 (of_nat a)"
    using hdr bounds b0
    by (subst merge_free_blocks.simps)
       (simp add: hdr_nat mem_nat sum Let_def m1_def [symmetric] m2_def nx_def del: of_nat_add,
        simp add: hdr_nat mem_nat m1_def del: of_nat_add)
  have unch: "m2 (of_nat x) = m (of_nat x)"
    if "x < 4294967296" "x < a \<or> a + 16 \<le> x" for x
    unfolding m2_def m1_def using that bounds by (auto simp: mem_nat simp del: of_nat_add)
  have "chain m2 (b + 16 + s2) bs = chain m (b + 16 + s2) bs"
    by (rule chain_cong, rule unch) (use bounds in auto)
  then have "chain m2 a ((s1 + 16 + s2, True) # bs)"
    using hdr bounds by (simp add: m2_def m1_def mem_nat nx_def b_def ac_simps del: of_nat_add)
  moreover have "keeps a ((s1, True) # (s2, True) # bs) m m2"
    using unch bounds by (auto simp: keeps_def dest: live_bounds)
  ultimately show thesis using unf that by blast
qed


definition merges :: "mem \<Rightarrow> nat \<Rightarrow> block list \<Rightarrow> block list \<Rightarrow> bool" where
  "merges m a bs bs' \<longleftrightarrow>
     (\<exists>m'. merge_free_blocks m (of_nat a) = Some m' \<and> chain m' a bs' \<and> keeps a bs m m')"

lemma addr_nonzero: "0 < a \<Longrightarrow> a < 4294967296 \<Longrightarrow> (of_nat a :: u32) \<noteq> 0"
  using of_nat_u32_inj [of a 0] by auto

lemma merge_last:
  assumes "chain m a [(sz, fr)]"
  shows "merges m a [(sz, fr)] [(sz, fr)]"
proof -
  have "merge_free_blocks m (of_nat a) = Some m"
    using assms by (subst merge_free_blocks.simps) (simp add: hdr_nat del: of_nat_add)
  then show ?thesis using assms by (auto simp: merges_def)
qed

lemma merge_next:
  assumes ch: "chain m a ((sz, fr) # (s2, f2) # bs)" and nj: "\<not> (fr \<and> f2)"
    and lim: "a + span ((sz, fr) # (s2, f2) # bs) \<le> heap_hi" "0 < a"
    and IH: "merges m (a + 16 + sz) ((s2, f2) # bs) bs'"
    and ne: "bs' \<noteq> []"
  shows "merges m a ((sz, fr) # (s2, f2) # bs) ((sz, fr) # bs')"
proof -
  let ?b = "a + 16 + sz"
  obtain m' where m': "merge_free_blocks m (of_nat ?b) = Some m'" "chain m' ?b bs'"
    "keeps ?b ((s2, f2) # bs) m m'"
    using IH unfolding merges_def by blast
  have nz: "(of_nat a :: u32) \<noteq> 0" "(of_nat ?b :: u32) \<noteq> 0"
    using lim by (simp_all add: addr_nonzero del: of_nat_add)
  have "merge_free_blocks m (of_nat a) = merge_free_blocks m (of_nat ?b)"
    using ch nj nz by (subst merge_free_blocks.simps) (simp add: hdr_nat del: of_nat_add)
  moreover have unch: "m' (of_nat x) = m (of_nat x)" if "x < ?b" for x
    using m'(3) that lim by (auto simp: keeps_def)
  have "chain m' a ((sz, fr) # bs')"
    by (rule chain_head_cong [OF ch _ m'(2)]) (use unch ne in auto)
  moreover have "keeps a ((sz, fr) # (s2, f2) # bs) m m'"
    using m'(3) unch unfolding keeps_def by (auto simp: ac_simps split: if_splits)
  ultimately show ?thesis using m'(1) unfolding merges_def by auto
qed

lemma merges_trans:
  assumes "merge_free_blocks m (of_nat a) = merge_free_blocks m2 (of_nat a)"
    "keeps a bs m m2" "merges m2 a bs2 bs'" "span bs2 = span bs" "live a bs2 = live a bs"
  shows "merges m a bs bs'"
  using assms keeps_trans [of a bs m m2 bs2] unfolding merges_def by auto

theorem merge_refines:
  "chain m a bs \<Longrightarrow> a + span bs \<le> heap_hi \<Longrightarrow> 0 < a \<Longrightarrow> bs \<noteq> [] \<Longrightarrow> merges m a bs (a_merge bs)"
proof (induction bs arbitrary: m a rule: a_merge.induct [case_names join keep last adj nil])
  case (join s1 s2 bs)
  obtain m2 where m2: "merge_free_blocks m (of_nat a) = merge_free_blocks m2 (of_nat a)"
    "chain m2 a ((s1 + 16 + s2, True) # bs)" "keeps a ((s1, True) # (s2, True) # bs) m m2"
    using merge_step_join [OF join(2,3,4)] by blast
  have "merges m2 a ((s1 + 16 + s2, True) # bs) (a_merge ((s1 + 16 + s2, True) # bs))"
    by (rule join(1)) (use m2 join in auto)
  then show ?case
    using merges_trans [OF m2(1,3)] by (simp add: ac_simps)
next
  case (keep sz bs)
  show ?case
  proof (cases bs)
    case (Cons c cs)
    obtain s2 f2 where c: "c = (s2, f2)" by (cases c)
    have "merges m (a + 16 + sz) bs (a_merge bs)"
      by (rule keep(1)) (use keep Cons in auto)
    then show ?thesis using merge_next [of m a sz False s2 f2 cs "a_merge bs"] keep Cons c by simp
  qed (use keep in \<open>auto intro: merge_last\<close>)
next
  case (last b)
  then show ?case by (cases b) (auto intro: merge_last)
next
  case (adj b s2 bs)
  obtain sz fr where b: "b = (sz, fr)" by (cases b)
  have "merges m (a + 16 + sz) ((s2, False) # bs) (a_merge ((s2, False) # bs))"
    by (rule adj(1)) (use adj b in auto)
  then show ?case using merge_next [of m a sz fr s2 False bs "a_merge ((s2, False) # bs)"] adj b
    by simp
qed simp


subsection \<open>Allocation\<close>

definition allocs :: "mem \<Rightarrow> nat \<Rightarrow> nat \<Rightarrow> block list \<Rightarrow> nat \<Rightarrow> block list \<Rightarrow> bool" where
  "allocs m n a bs p bs' \<longleftrightarrow>
     (\<exists>m'. kmalloc_loop m (of_nat n) (of_nat a) = Some (of_nat p, m') \<and> chain m' a bs' \<and>
        keeps a bs m m')"

lemma alloc_here:
  assumes ch: "chain m a ((sz, True) # bs)" and lim: "a + 16 + sz + span bs \<le> heap_hi" "0 < a"
    and fit: "n \<le> sz"
  shows "allocs m n a ((sz, True) # bs) (a + 16)
     (if n + 24 \<le> sz then (n, False) # (sz - n - 16, True) # bs else (sz, False) # bs)"
proof -
  let ?m = "take_block m (of_nat a) (of_nat n)"
  have "(of_nat n :: u32) \<le> of_nat sz" using lim fit by (simp add: of_nat_u32_le)
  then have run: "kmalloc_loop m (of_nat n) (of_nat a) = Some (of_nat (a + 16), ?m)"
    using ch lim addr_nonzero [of a]
    by (subst kmalloc_loop.simps) (simp add: hdr_nat HDR_nat(1) del: of_nat_add)
  show ?thesis
  proof (cases "n + 24 \<le> sz")
    case True
    have "keeps a ((sz, True) # bs) m ?m"
      unfolding keeps_def
      by (safe, simp_all add: take_block_split(2) [OF ch lim(1) True])
         (use take_block_split(2) [OF ch lim(1) True] in \<open>auto dest!: live_bounds\<close>)
    with True take_block_split(1) [OF ch lim(1) True] run show ?thesis
      unfolding allocs_def by auto
  next
    case False
    then have f: "sz < n + 24" by simp
    have "keeps a ((sz, True) # bs) m ?m"
      unfolding keeps_def
      using take_block_whole(2) [OF ch lim(1) fit f] by (auto dest!: live_bounds)
    with False take_block_whole(1) [OF ch lim(1) fit f] run show ?thesis
      unfolding allocs_def by auto
  qed
qed

lemma chain_head_keeps:
  assumes "chain m a ((sz, fr) # bs)" "keeps (a + 16 + sz) bs m m'" "chain m' (a + 16 + sz) bs'"
    "bs' = [] \<longleftrightarrow> bs = []" "a + 16 + sz \<le> 4294967296"
  shows "chain m' a ((sz, fr) # bs')" "keeps a ((sz, fr) # bs) m m'"
proof -
  have unch: "m' (of_nat x) = m (of_nat x)" if "x < a + 16 + sz" for x
    using assms(2,5) that by (auto simp: keeps_def)
  show "chain m' a ((sz, fr) # bs')"
    by (rule chain_head_cong [OF assms(1) _ assms(3)]) (use unch assms(4) in auto)
  show "keeps a ((sz, fr) # bs) m m'"
    using assms(2) unch unfolding keeps_def by (auto simp: ac_simps split: if_splits)
qed

theorem alloc_refines:
  "chain m a bs \<Longrightarrow> a + span bs \<le> heap_hi \<Longrightarrow> 0 < a \<Longrightarrow> bs \<noteq> [] \<Longrightarrow> n < 4294967296 \<Longrightarrow>
   (case a_alloc n a bs of
      None \<Rightarrow> kmalloc_loop m (of_nat n) (of_nat a) = Some (0, m)
    | Some (p, bs') \<Rightarrow> allocs m n a bs p bs')"
proof (induction n a bs rule: a_alloc.induct)
  case (2 n a sz fr bs)
  let ?b = "a + 16 + sz"
  show ?case
  proof (cases "fr \<and> n \<le> sz")
    case True
    with 2 show ?thesis using alloc_here [of m a sz bs n] by simp
  next
    case False
    have nofit: "\<not> (hd_free m (of_nat a) \<noteq> 0 \<and> hd_size m (of_nat a) \<ge> of_nat n)"
      using False 2(2,3,6) by (auto simp: hdr_nat of_nat_u32_le simp del: of_nat_add)
    have step: "kmalloc_loop m (of_nat n) (of_nat a) =
        kmalloc_loop m (of_nat n) (if bs = [] then 0 else of_nat ?b)"
      using nofit 2(2,3,4) addr_nonzero [of a]
      by (subst kmalloc_loop.simps) (auto simp: hdr_nat(4) simp del: of_nat_add)
    show ?thesis
    proof (cases "bs = []")
      case True
      have "kmalloc_loop m (of_nat n) 0 = Some (0, m)" by (subst kmalloc_loop.simps) simp
      with True False step show ?thesis by auto
    next
      case ne: False
      have IH: "case a_alloc n ?b bs of None \<Rightarrow> kmalloc_loop m (of_nat n) (of_nat ?b) = Some (0, m)
        | Some (p, bs') \<Rightarrow> allocs m n ?b bs p bs'"
        by (rule 2(1) [OF False]) (use 2 ne in auto)
      show ?thesis
      proof (cases "a_alloc n ?b bs")
        case None
        with IH step ne False show ?thesis by auto
      next
        case (Some r)
        obtain p bs' where r: "r = (p, bs')" by (cases r)
        obtain m' where m': "kmalloc_loop m (of_nat n) (of_nat ?b) = Some (of_nat p, m')"
          "chain m' ?b bs'" "keeps ?b bs m m'"
          using IH Some r by (auto simp: allocs_def)
        have "bs' \<noteq> []"
          using Some r by (cases bs) (auto split: if_splits)
        with ne chain_head_keeps [OF 2(2) m'(3,2)] 2(3) m'(1) step have
          "allocs m n a ((sz, fr) # bs) p ((sz, fr) # bs')" by (simp add: allocs_def)
        with Some r False show ?thesis by auto
      qed
    qed
  qed
qed simp


subsection \<open>What allocation means for the list of blocks\<close>

lemma a_alloc_None: "a_alloc n a bs = None \<longleftrightarrow> (\<forall>(sz, fr) \<in> set bs. fr \<longrightarrow> sz < n)"
  by (induction n a bs rule: a_alloc.induct) auto

lemma a_alloc_Some:
  "a_alloc n a bs = Some (p, bs') \<Longrightarrow>
   span bs' = span bs \<and> bs' \<noteq> [] \<and>
   (\<exists>k. n \<le> k \<and> k < n + 24 \<and> live a bs' = insert (p, k) (live a bs))"
proof (induction n a bs arbitrary: bs' rule: a_alloc.induct)
  case (2 n a sz fr bs)
  show ?case
  proof (cases "fr \<and> n \<le> sz")
    case True
    have "live (16 + (a + sz)) bs = live (a + 16 + sz) bs" by (simp add: ac_simps)
    with True 2(2) show ?thesis
      by (cases "n + 24 \<le> sz") (auto simp: live_Cons simp del: live.simps(2))
  next
    case False
    then obtain cs where cs: "a_alloc n (a + 16 + sz) bs = Some (p, cs)" "bs' = (sz, fr) # cs"
      using 2(2) by (auto split: if_splits)
    with 2(1) [OF False] show ?thesis by (auto simp: insert_commute)
  qed
qed simp

lemma a_alloc_fresh: "a_alloc n a bs = Some (p, bs') \<Longrightarrow> (p, k) \<notin> live a bs"
proof (induction n a bs arbitrary: bs' rule: a_alloc.induct)
  case (2 n a sz fr bs)
  show ?case
  proof (cases "fr \<and> n \<le> sz")
    case True
    with 2(2) live_bounds [of p k "a + 16 + sz" bs] show ?thesis by (auto split: if_splits)
  next
    case False
    then obtain cs where cs: "a_alloc n (a + 16 + sz) bs = Some (p, cs)"
      using 2(2) by (auto split: if_splits)
    then obtain l where "(p, l) \<in> live (a + 16 + sz) cs" using a_alloc_Some by blast
    then have "p \<noteq> a + 16" using live_bounds by fastforce
    with 2(1) [OF False cs] show ?thesis by auto
  qed
qed simp

lemma a_alloc_separated:
  "a_alloc n a bs = Some (p, bs') \<Longrightarrow> separated bs \<Longrightarrow>
   separated bs' \<and> (bs \<noteq> [] \<longrightarrow> snd (hd bs') \<longrightarrow> snd (hd bs))"
proof (induction n a bs arbitrary: bs' rule: a_alloc.induct)
  case (2 n a sz fr bs)
  show ?case
  proof (cases "fr \<and> n \<le> sz")
    case True
    with 2(2,3) show ?thesis by (cases bs) (auto split: if_splits)
  next
    case False
    then obtain cs where cs: "a_alloc n (a + 16 + sz) bs = Some (p, cs)" "bs' = (sz, fr) # cs"
      using 2(2) by (auto split: if_splits)
    moreover have "separated bs" using 2(3) by (cases bs) auto
    ultimately have "separated cs" "bs \<noteq> [] \<longrightarrow> snd (hd cs) \<longrightarrow> snd (hd bs)"
      using 2(1) [OF False] by auto
    with cs 2(3) show ?thesis by (cases bs; cases cs) auto
  qed
qed simp

lemma a_alloc_aligned:
  "a_alloc n a bs = Some (p, bs') \<Longrightarrow> \<forall>(sz, fr) \<in> set bs. 8 dvd sz \<Longrightarrow> 8 dvd n \<Longrightarrow> 8 dvd a \<Longrightarrow>
   8 dvd p \<and> (\<forall>(sz, fr) \<in> set bs'. 8 dvd sz)"
proof (induction n a bs arbitrary: bs' rule: a_alloc.induct)
  case (2 n a sz fr bs)
  then show ?case
    by (cases "fr \<and> n \<le> sz") (auto split: if_splits intro!: dvd_diff_nat dvd_add)
qed simp

lemma live_disjoint:
  "(p, k) \<in> live a bs \<Longrightarrow> (q, l) \<in> live a bs \<Longrightarrow> (p, k) \<noteq> (q, l) \<Longrightarrow>
   p + k + 16 \<le> q \<or> q + l + 16 \<le> p"
proof (induction bs arbitrary: a)
  case (Cons b bs)
  have "a + 16 + fst b + 16 \<le> u" if "(u, v) \<in> live (a + 16 + fst b) bs" for u v
    using live_bounds [OF that] by simp
  with Cons show ?case by (auto simp: live_Cons simp del: live.simps split: if_splits)
qed simp

lemma span_a_mark [simp]: "span (a_mark p a bs) = span bs"
  by (induction p a bs rule: a_mark.induct) auto

lemma a_mark_Nil [simp]: "a_mark p a bs = [] \<longleftrightarrow> bs = []"
  by (cases bs) (auto split: if_splits)

lemma a_mark_aligned:
  "\<forall>(sz, fr) \<in> set bs. 8 dvd sz \<Longrightarrow> \<forall>(sz, fr) \<in> set (a_mark p a bs). 8 dvd sz"
  by (induction p a bs rule: a_mark.induct) auto

lemma live_a_mark: "live a (a_mark p a bs) = {(q, k) \<in> live a bs. q \<noteq> p}"
proof (induction p a bs rule: a_mark.induct)
  case (2 p a sz fr bs)
  have "a + 16 < q" if "(q, k) \<in> live (a + 16 + sz) bs" for q k
    using live_bounds [OF that] by simp
  with 2 show ?case by auto
qed simp

lemma live_a_mark_minus:
  assumes "(p, k) \<in> live a bs"
  shows "live a (a_mark p a bs) = live a bs - {(p, k)}"
proof -
  have "l = k" if "(p, l) \<in> live a bs" for l
    using live_disjoint [OF assms that] by auto
  then show ?thesis by (auto simp: live_a_mark)
qed

lemma live_header:
  "chain m a bs \<Longrightarrow> (p, k) \<in> live a bs \<Longrightarrow> a + span bs \<le> heap_hi \<Longrightarrow>
   ld32 m (of_nat (p - 16)) = HEAP_MAGIC"
  by (induction m a bs rule: chain.induct) (auto split: if_splits)

lemma chain_a_mark:
  "chain m a bs \<Longrightarrow> (p, k) \<in> live a bs \<Longrightarrow> a + span bs \<le> heap_hi \<Longrightarrow>
   chain (m(of_nat (p - 8) := 1)) a (a_mark p a bs)"
proof (induction m a bs rule: chain.induct)
  case (2 m a sz fr bs)
  let ?b = "a + 16 + sz"
  show ?case
  proof (cases "p = a + 16")
    case True
    then have p8: "p - 8 = a + 8" by simp
    define M where "M = m(of_nat (a + 8) := 1)"
    have "chain M ?b bs = chain m ?b bs"
      unfolding M_def by (rule chain_cong, rule upd_nat_other) (use 2(4) in auto)
    moreover have "ld32 M (of_nat a) = ld32 m (of_nat a)"
      "ld32 M (of_nat (a + 4)) = ld32 m (of_nat (a + 4))"
      "ld32 M (of_nat (a + 12)) = ld32 m (of_nat (a + 12))"
      unfolding M_def by (rule ld32_upd_nat_other; use 2(4) in auto)+
    moreover have "M (of_nat (a + 8)) = 1" by (simp add: M_def)
    ultimately show ?thesis
      using True 2(2) unfolding p8 M_def [symmetric] by (simp del: of_nat_add)
  next
    case False
    then have p: "(p, k) \<in> live ?b bs" using 2(3) by (auto split: if_splits)
    have IH: "chain (m(of_nat (p - 8) := 1)) ?b (a_mark p ?b bs)"
      by (rule 2(1)) (use 2 p in auto)
    have "?b + 16 \<le> p" "p \<le> heap_hi" using live_bounds [OF p] 2(4) by auto
    have "m' (of_nat x) = m (of_nat x)"
      if "m' = m(of_nat (p - 8) := 1)" "a \<le> x" "x < a + 16" for x m'
      using that(2,3) \<open>?b + 16 \<le> p\<close> \<open>p \<le> heap_hi\<close> unfolding that(1)
      by (intro upd_nat_other) auto
    then have "chain (m(of_nat (p - 8) := 1)) a ((sz, fr) # a_mark p ?b bs)"
      by (intro chain_head_cong [OF 2(2) _ IH]) auto
    with False show ?thesis by (simp only: a_mark.simps if_False)
  qed
qed simp

subsection \<open>Rounding the request up\<close>

lemma align8_nat: "unat (align8 n) = unat (n + 7) div 8 * 8"
proof -
  have seven: "(7 :: u32) = mask 3" by (simp add: mask_eq_exp_minus_1)
  have "align8 n = push_bit 3 (drop_bit 3 (n + 7))"
    unfolding align8_def unfolding seven by (rule bit_word_eqI) (auto simp: bit_simps)
  moreover have "unat (drop_bit 3 (n + 7)) = unat (n + 7) div 8"
    unfolding unat_drop_bit_eq by (simp add: drop_bit_eq_div)
  moreover have "unat (n + 7) div 8 * 8 < 4294967296"
    using unat32_lt [of "n + 7"] by (meson div_times_less_eq_dividend le_less_trans)
  ultimately have "unat (drop_bit 3 (n + 7) * 8) = unat (n + 7) div 8 * 8"
    by (simp add: unat_word_ariths)
  then show ?thesis using \<open>align8 n = push_bit 3 (drop_bit 3 (n + 7))\<close>
    by (simp add: push_bit_eq_mult)
qed

lemma align8_small: "unat n \<le> 4294967288 \<Longrightarrow> unat n \<le> unat (align8 n)"
  by (simp add: align8_nat unat32_add)

lemma align8_wraps:
  assumes "4294967288 < unat n"
  shows "align8 n = 0"
proof -
  from assms have "4294967289 \<le> unat n" by linarith
  then obtain d where d: "unat n = 4294967289 + d" using le_iff_add by blast
  then have "d \<le> 6" using unat32_lt [of n] by linarith
  with d have "unat (align8 n) = 0" unfolding align8_nat unat32_add by simp
  then show ?thesis using unsigned_eq_0_iff by blast
qed

lemma align8_dvd: "8 dvd unat (align8 n)"
  by (simp add: align8_nat)

subsection \<open>The heap invariant\<close>

lemma heap_head_nat: "HEAP_START = of_nat heap_lo"
  by (simp add: HEAP_START_def)

definition payload_kept :: "block list \<Rightarrow> mem \<Rightarrow> mem \<Rightarrow> bool" where
  "payload_kept bs m m' \<longleftrightarrow>
     (\<forall>(p, k) \<in> live heap_lo bs. \<forall>x. p \<le> x \<and> x < p + k \<longrightarrow> m' (of_nat x) = m (of_nat x)) \<and>
     (\<forall>x < 4294967296. x < heap_lo \<or> heap_hi \<le> x \<longrightarrow> m' (of_nat x) = m (of_nat x))"

lemma payload_keptI:
  assumes "\<And>p k x. (p, k) \<in> live heap_lo bs \<Longrightarrow> p \<le> x \<Longrightarrow> x < p + k \<Longrightarrow> m' (of_nat x) = m (of_nat x)"
    "\<And>x. x < 4294967296 \<Longrightarrow> x < heap_lo \<or> heap_hi \<le> x \<Longrightarrow> m' (of_nat x) = m (of_nat x)"
  shows "payload_kept bs m m'"
  using assms unfolding payload_kept_def by blast

lemma payload_keptD:
  assumes "payload_kept bs m m'"
  shows "(p, k) \<in> live heap_lo bs \<Longrightarrow> p \<le> x \<Longrightarrow> x < p + k \<Longrightarrow> m' (of_nat x) = m (of_nat x)"
    "x < 4294967296 \<Longrightarrow> x < heap_lo \<or> heap_hi \<le> x \<Longrightarrow> m' (of_nat x) = m (of_nat x)"
  using assms unfolding payload_kept_def by blast+

lemma payload_kept_merge: "payload_kept (a_merge bs) m m' = payload_kept bs m m'"
  unfolding payload_kept_def live_a_merge ..

lemma keeps_payload:
  assumes "keeps heap_lo bs m m'" "heap_lo + span bs = heap_hi"
  shows "payload_kept bs m m'"
proof -
  have "m' (of_nat x) = m (of_nat x)" if l: "(p, k) \<in> live heap_lo bs" and x: "p \<le> x" "x < p + k" for p k x
  proof -
    have "x < 4294967296" using live_bounds [OF l] x(2) assms(2) by linarith
    with assms(1) l x show ?thesis unfolding keeps_def by blast
  qed
  moreover have "m' (of_nat x) = m (of_nat x)" if "x < 4294967296" "x < heap_lo \<or> heap_hi \<le> x" for x
    using assms(1) that unfolding keeps_def assms(2) by blast
  ultimately show ?thesis unfolding payload_kept_def by blast
qed

lemma u32_of_unat: "(of_nat (unat w) :: u32) = w"
  by simp

lemma heap_okD:
  "heap_ok m bs \<Longrightarrow> chain m heap_lo bs" "heap_ok m bs \<Longrightarrow> heap_lo + span bs \<le> heap_hi"
  "heap_ok m bs \<Longrightarrow> bs \<noteq> []"
  by (simp_all add: heap_ok_def)

lemma kmalloc_cases:
  assumes "heap_ok m bs" "n \<noteq> 0"
  shows "case a_alloc (unat (align8 n)) heap_lo bs of
      None \<Rightarrow> kmalloc HEAP_START n m = Some (0, m)
    | Some (p, bs') \<Rightarrow> (\<exists>m'. kmalloc HEAP_START n m = Some (of_nat p, m') \<and> heap_ok m' bs' \<and>
        payload_kept bs m m')"
proof -
  have pos: "0 < heap_lo" by simp
  note R = alloc_refines [OF heap_okD(1) [OF assms(1)] heap_okD(2) [OF assms(1)] pos
    heap_okD(3) [OF assms(1)] unat32_lt [of "align8 n"]]
  show ?thesis
  proof (cases "a_alloc (unat (align8 n)) heap_lo bs")
    case None
    with R have "kmalloc_loop m (align8 n) HEAP_START = Some (0, m)"
      unfolding heap_head_nat by (simp only: option.case u32_of_unat)
    with None assms(2) show ?thesis by (simp add: kmalloc_def)
  next
    case (Some r)
    obtain p bs' where r: "r = (p, bs')" by (cases r)
    have "allocs m (unat (align8 n)) heap_lo bs p bs'"
      using R unfolding Some r by (simp only: option.case prod.case)
    then obtain m' where m': "kmalloc_loop m (align8 n) HEAP_START = Some (of_nat p, m')"
      "chain m' heap_lo bs'" "keeps heap_lo bs m m'"
      unfolding allocs_def heap_head_nat u32_of_unat by blast
    note A = Some [unfolded r]
    have "span bs' = span bs" "bs' \<noteq> []" using a_alloc_Some [OF A] by blast+
    moreover have "separated bs'" using a_alloc_separated [OF A] assms(1) by (simp add: heap_ok_def)
    moreover have "\<forall>(sz, fr) \<in> set bs'. 8 dvd sz"
      using a_alloc_aligned [OF A] assms(1) align8_dvd [of n] by (simp add: heap_ok_def)
    moreover have "heap_lo + span bs = heap_hi" using assms(1) by (simp add: heap_ok_def)
    ultimately have "heap_ok m' bs'" using m'(2) by (simp add: heap_ok_def)
    moreover have "payload_kept bs m m'"
      by (rule keeps_payload [OF m'(3) \<open>heap_lo + span bs = heap_hi\<close>])
    moreover have "kmalloc HEAP_START n m = Some (of_nat p, m')"
      using m'(1) assms(2) by (simp add: kmalloc_def)
    ultimately show ?thesis using A by auto
  qed
qed

lemma heap_live_bounds:
  "heap_ok m bs \<Longrightarrow> (p, k) \<in> live heap_lo bs \<Longrightarrow> heap_lo + 16 \<le> p \<and> p + k \<le> heap_hi"
  using live_bounds [of p k heap_lo bs] by (simp add: heap_ok_def)

lemma heap_init_chain: "heap_ok (fst (heap_init m)) [(0xFFFF0, True)] \<and> snd (heap_init m) = HEAP_START"
proof -
  have "fst (heap_init m) = st32 ((st32 (st32 m (of_nat heap_lo) HEAP_MAGIC) (of_nat (heap_lo + 4))
      (of_nat 0xFFFF0)) (of_nat (heap_lo + 8) := 1)) (of_nat (heap_lo + 12)) 0"
    unfolding heap_init_def heap_head_nat hdr_nat by (simp add: HEAP_SIZE_def HDR_def)
  then have "chain (fst (heap_init m)) heap_lo [(0xFFFF0, True)]"
    by (simp add: mem_nat upd_nat_other del: of_nat_add of_nat_numeral)
  then show ?thesis by (simp add: heap_ok_def heap_init_def)
qed

lemma kfree_cases:
  assumes ok: "heap_ok m bs" and p: "(p, k) \<in> live heap_lo bs"
  shows "\<exists>m'. kfree HEAP_START (of_nat p) m = Some m' \<and>
    heap_ok m' (a_merge (a_mark p heap_lo bs)) \<and> payload_kept (a_mark p heap_lo bs) m m'"
proof -
  define M where "M = m(of_nat (p - 8) := 1)"
  let ?mk = "a_mark p heap_lo bs"
  have b: "heap_lo + 16 \<le> p" "p + k \<le> heap_hi" using heap_live_bounds [OF ok p] by auto
  have nz: "(of_nat p :: u32) \<noteq> 0" by (rule addr_nonzero) (use b in auto)
  have hdr: "(of_nat p :: u32) - HDR = of_nat (p - 16)" using b by (simp add: HDR_def)
  have fr: "p - 16 + 8 = p - 8" using b by simp
  have "ld32 m (of_nat (p - 16)) = HEAP_MAGIC"
    by (rule live_header [OF heap_okD(1) [OF ok] p heap_okD(2) [OF ok]])
  then have run: "kfree HEAP_START (of_nat p) m = merge_free_blocks M (of_nat heap_lo)"
    unfolding kfree_def hdr hdr_nat fr M_def [symmetric] using nz by (simp add: heap_head_nat)
  have sp: "heap_lo + span ?mk = heap_hi" using ok by (simp add: heap_ok_def)
  have "merges M heap_lo ?mk (a_merge ?mk)"
  proof (rule merge_refines)
    show "chain M heap_lo ?mk"
      unfolding M_def by (rule chain_a_mark [OF heap_okD(1) [OF ok] p heap_okD(2) [OF ok]])
  qed (use sp ok in \<open>simp_all add: heap_ok_def\<close>)
  then obtain m' where m': "merge_free_blocks M (of_nat heap_lo) = Some m'"
    "chain m' heap_lo (a_merge ?mk)" "keeps heap_lo ?mk M m'"
    unfolding merges_def by blast
  have ok': "heap_ok m' (a_merge ?mk)"
    using m'(2) sp ok separated_a_merge a_merge_aligned [OF a_mark_aligned, of bs p heap_lo]
    by (simp add: heap_ok_def)
  have kept: "payload_kept ?mk M m'" by (rule keeps_payload [OF m'(3) sp])
  have ch: "M (of_nat x) = m (of_nat x)" if "x < 4294967296" "x \<noteq> p - 8" for x
    unfolding M_def by (rule upd_nat_other) (use that b in auto)
  have lim: "x < 4294967296 \<and> x \<noteq> p - 8"
    if q: "(q, l) \<in> live heap_lo ?mk" and x: "q \<le> x" "x < q + l" for q l x
  proof -
    have q': "(q, l) \<in> live heap_lo bs" "q \<noteq> p" using q by (auto simp: live_a_mark)
    with live_disjoint [OF p q'(1)] heap_live_bounds [OF ok q'(1)] x b show ?thesis by auto
  qed
  have "payload_kept ?mk m m'"
  proof (rule payload_keptI)
    fix q l x assume "(q, l) \<in> live heap_lo ?mk" "q \<le> x" "x < q + l"
    then show "m' (of_nat x) = m (of_nat x)"
      using payload_keptD(1) [OF kept] lim ch by metis
  next
    fix x :: nat assume x: "x < 4294967296" "x < heap_lo \<or> heap_hi \<le> x"
    then have "x \<noteq> p - 8" using b by auto
    with x show "m' (of_nat x) = m (of_nat x)" using payload_keptD(2) [OF kept] ch by metis
  qed
  with run m'(1) ok' show ?thesis by auto
qed

lemma a_merge_cons: "\<not> (fr \<and> bs \<noteq> [] \<and> snd (hd bs)) \<Longrightarrow> a_merge ((sz, fr) # bs) = (sz, fr) # a_merge bs"
  by (cases bs; cases fr) auto

lemma a_merge_hd: "bs \<noteq> [] \<Longrightarrow> snd (hd (a_merge bs)) = snd (hd bs)"
  by (induction bs rule: a_merge.induct) auto

lemma separated_tl: "separated (b # bs) \<Longrightarrow> separated bs"
  by (cases b; cases bs) auto

lemma a_merge_separated: "separated bs \<Longrightarrow> a_merge bs = bs"
  by (induction bs rule: a_merge.induct) (auto dest: separated_tl)

lemma a_alloc_undo:
  "a_alloc n a bs = Some (p, bs') \<Longrightarrow> separated bs \<Longrightarrow> a_merge (a_mark p a bs') = bs"
proof (induction n a bs arbitrary: bs' rule: a_alloc.induct)
  case (2 n a sz fr bs)
  show ?case
  proof (cases "fr \<and> n \<le> sz")
    case True
    with 2(2) a_merge_separated [OF 2(3)] show ?thesis by (auto split: if_splits simp: ac_simps)
  next
    case False
    then obtain cs where cs: "a_alloc n (a + 16 + sz) bs = Some (p, cs)" "bs' = (sz, fr) # cs"
      using 2(2) by (auto split: if_splits)
    let ?X = "a_mark p (a + 16 + sz) cs"
    have X: "a_merge ?X = bs" by (rule 2(1) [OF False cs(1) separated_tl [OF 2(3)]])
    obtain l where "(p, l) \<in> live (a + 16 + sz) cs" using a_alloc_Some [OF cs(1)] by blast
    then have "p \<noteq> a + 16" using live_bounds by fastforce
    moreover have "\<not> (fr \<and> ?X \<noteq> [] \<and> snd (hd ?X))"
      using 2(3) a_merge_hd [of ?X] X by (cases bs) auto
    ultimately show ?thesis using a_merge_cons [of fr ?X sz] X cs(2) by simp
  qed
qed simp

lemma live_empty: "live a bs = {} \<Longrightarrow> \<forall>(sz, fr) \<in> set bs. fr"
  by (induction a bs rule: live.induct) (auto split: if_splits)

lemma separated_free: "separated bs \<Longrightarrow> bs \<noteq> [] \<Longrightarrow> \<forall>(sz, fr) \<in> set bs. fr \<Longrightarrow> \<exists>sz. bs = [(sz, True)]"
  by (cases bs rule: separated.cases) auto

text \<open>
  C1: \<^verbatim>\<open>kmalloc\<close> on a well-formed heap always returns.  For a request whose rounding does not
  wrap it either reports exhaustion, leaving memory unchanged, exactly when no free block is
  large enough, or hands out a fresh block: at least as large as asked, 8-byte aligned, inside
  the arena, disjoint from every live block, with the invariant kept and the payload of every
  live block and all memory outside the arena unchanged.
\<close>

theorem kmalloc_correct:
  assumes "heap_ok m bs" "n \<noteq> 0" "unat n \<le> 4294967288"
  shows "(kmalloc HEAP_START n m = Some (0, m) \<and>
            (\<forall>(sz, fr) \<in> set bs. fr \<longrightarrow> sz < unat (align8 n))) \<or>
         (\<exists>p k bs' m'. kmalloc HEAP_START n m = Some (of_nat p, m') \<and> heap_ok m' bs' \<and>
            live heap_lo bs' = insert (p, k) (live heap_lo bs) \<and>
            unat n \<le> k \<and> 8 dvd p \<and> heap_lo + 16 \<le> p \<and> p + k \<le> heap_hi \<and>
            (\<forall>(q, l) \<in> live heap_lo bs. p + k + 16 \<le> q \<or> q + l + 16 \<le> p) \<and> payload_kept bs m m')"
proof (cases "a_alloc (unat (align8 n)) heap_lo bs")
  case None
  with kmalloc_cases [OF assms(1,2)] a_alloc_None [of _ _ bs] show ?thesis by auto
next
  case (Some r)
  obtain p bs' where r: "r = (p, bs')" by (cases r)
  then obtain m' where m': "kmalloc HEAP_START n m = Some (of_nat p, m')" "heap_ok m' bs'"
    "payload_kept bs m m'"
    using kmalloc_cases [OF assms(1,2)] Some by auto
  obtain k where k: "unat (align8 n) \<le> k" "live heap_lo bs' = insert (p, k) (live heap_lo bs)"
    using a_alloc_Some [OF Some [unfolded r]] by blast
  have "8 dvd p"
    using a_alloc_aligned [OF Some [unfolded r]] assms(1) align8_dvd [of n] by (simp add: heap_ok_def)
  moreover have "heap_lo + 16 \<le> p" "p + k \<le> heap_hi"
    using heap_live_bounds [OF m'(2), of p k] k(2) by auto
  moreover have fresh: "(p, k) \<notin> live heap_lo bs"
    by (rule a_alloc_fresh [OF Some [unfolded r]])
  moreover have "\<forall>(q, l) \<in> live heap_lo bs. p + k + 16 \<le> q \<or> q + l + 16 \<le> p"
    using live_disjoint [of p k heap_lo bs'] k(2) fresh by auto
  ultimately show ?thesis using m' k align8_small [OF assms(3)] by (intro disjI2 exI) auto
qed

theorem kmalloc_correct_witness:
  "\<exists>bs m. heap_ok m bs \<and> (100 :: u32) \<noteq> 0 \<and> kmalloc HEAP_START 100 m \<noteq> Some (0, m)"
proof -
  let ?m = "fst (heap_init (\<lambda>_. 0))"
  have ok: "heap_ok ?m [(0xFFFF0, True)]" using heap_init_chain by blast
  have "unat (align8 100) = 104" by (simp add: align8_nat)
  then have "kmalloc HEAP_START 100 ?m \<noteq> Some (0, ?m)"
    using kmalloc_correct [OF ok, of 100] addr_nonzero by (auto simp del: unsigned_0)
  then show ?thesis using ok by auto
qed

text \<open>
  C5: \<^verbatim>\<open>kfree\<close> of a live payload on a well-formed heap returns, keeps the invariant (in
  particular no two adjacent free blocks remain), removes exactly that block from the live set,
  and leaves the payload of the other live blocks and all memory outside the arena unchanged.
\<close>

theorem kfree_correct:
  assumes "heap_ok m bs" "(p, k) \<in> live heap_lo bs"
  shows "\<exists>m' bs'. kfree HEAP_START (of_nat p) m = Some m' \<and> heap_ok m' bs' \<and>
    live heap_lo bs' = live heap_lo bs - {(p, k)} \<and> payload_kept bs' m m'"
proof -
  let ?bs' = "a_merge (a_mark p heap_lo bs)"
  have "live heap_lo ?bs' = live heap_lo bs - {(p, k)}"
    unfolding live_a_merge by (rule live_a_mark_minus [OF assms(2)])
  moreover from kfree_cases [OF assms] obtain m' where
    "kfree HEAP_START (of_nat p) m = Some m'" "heap_ok m' ?bs'" "payload_kept ?bs' m m'"
    unfolding payload_kept_merge by blast
  ultimately show ?thesis by blast
qed

theorem kfree_correct_witness:
  "\<exists>m bs p k m' bs'. (p, k) \<in> live heap_lo bs \<and> kfree HEAP_START (of_nat p) m = Some m' \<and>
     heap_ok m' bs' \<and> live heap_lo bs' = live heap_lo bs - {(p, k)}"
proof -
  let ?m = "fst (heap_init (\<lambda>_. 0))"
  have ok: "heap_ok ?m [(0xFFFF0, True)]" using heap_init_chain by blast
  have "unat (align8 100) = 104" by (simp add: align8_nat)
  then obtain bs' p m1 where h: "heap_ok m1 bs'" and a: "a_alloc 104 heap_lo [(0xFFFF0, True)] = Some (p, bs')"
    using kmalloc_cases [OF ok, of 100] by auto
  obtain k where "(p, k) \<in> live heap_lo bs'" using a_alloc_Some [OF a] by auto
  with kfree_correct [OF h this] show ?thesis by metis
qed

text \<open>
  freeing the block just allocated restores the heap exactly: the block list, and with it
  every later allocation, is the one before the \<^verbatim>\<open>kmalloc\<close>.
\<close>

lemma kmalloc_kfree_undo:
  assumes "heap_ok m bs" "kmalloc HEAP_START n m = Some (p, m1)" "p \<noteq> 0"
  shows "\<exists>m2. kfree HEAP_START p m1 = Some m2 \<and> heap_ok m2 bs \<and> payload_kept bs m m2"
proof -
  have n: "n \<noteq> 0" using assms(2,3) by (auto simp: kmalloc_def)
  from kmalloc_cases [OF assms(1) n] assms(2,3) obtain q bs' where
    A: "a_alloc (unat (align8 n)) heap_lo bs = Some (q, bs')" "p = of_nat q" "heap_ok m1 bs'"
      "payload_kept bs m m1"
    by (auto split: option.splits)
  obtain k where lv: "live heap_lo bs' = insert (q, k) (live heap_lo bs)"
    using a_alloc_Some [OF A(1)] by blast
  have undo: "a_merge (a_mark q heap_lo bs') = bs"
    by (rule a_alloc_undo [OF A(1)]) (use assms(1) in \<open>simp add: heap_ok_def\<close>)
  obtain m2 where m2: "kfree HEAP_START p m1 = Some m2" "heap_ok m2 bs"
    "payload_kept (a_mark q heap_lo bs') m1 m2"
    using kfree_cases [OF A(3), of q k] lv A(2) undo by auto
  have lm: "live heap_lo (a_mark q heap_lo bs') = live heap_lo bs"
    using undo live_a_merge by metis
  have "payload_kept bs m1 m2" using m2(3) by (simp only: payload_kept_def lm)
  then have "payload_kept bs m m2"
    using payload_keptD [OF A(4)] payload_keptD [of bs m1 m2] by (intro payload_keptI) metis+
  with m2 show ?thesis by blast
qed

lemma kmalloc_kfree_undo_witness:
  "\<exists>p m1 m2. p \<noteq> 0 \<and> kmalloc HEAP_START 100 (fst (heap_init (\<lambda>_. 0))) = Some (p, m1) \<and>
     kfree HEAP_START p m1 = Some m2 \<and> heap_ok m2 [(0xFFFF0, True)]"
proof -
  let ?m = "fst (heap_init (\<lambda>_. 0))"
  have ok: "heap_ok ?m [(0xFFFF0, True)]" using heap_init_chain by blast
  have "unat (align8 100) = 104" by (simp add: align8_nat)
  then obtain m1 bs' where m1: "kmalloc HEAP_START 100 ?m = Some (of_nat (heap_lo + 16), m1)"
    using kmalloc_cases [OF ok, of 100] by auto
  have nz: "(of_nat (heap_lo + 16) :: u32) \<noteq> 0" by simp
  from kmalloc_kfree_undo [OF ok m1 nz] m1 nz show ?thesis by blast
qed

text \<open>
  C39: a request above \<^verbatim>\<open>0xFFFFFFF8\<close> is rounded up to 0, so whenever any block is free
  \<^verbatim>\<open>kmalloc\<close> hands out a non-null pointer to a block of fewer than 24 bytes for it.
\<close>

theorem kmalloc_wraps:
  assumes "heap_ok m bs" "4294967288 < unat n" "\<exists>sz. (sz, True) \<in> set bs"
  shows "\<exists>p k bs' m'. kmalloc HEAP_START n m = Some (of_nat p, m') \<and> (of_nat p :: u32) \<noteq> 0 \<and>
    heap_ok m' bs' \<and> (p, k) \<in> live heap_lo bs' \<and> k < 24"
proof -
  have n: "n \<noteq> 0" using assms(2) by auto
  have z: "unat (align8 n) = 0" using align8_wraps [OF assms(2)] by simp
  obtain p bs' where A: "a_alloc 0 heap_lo bs = Some (p, bs')"
    using a_alloc_None [of 0 heap_lo bs] assms(3) by (cases "a_alloc 0 heap_lo bs") auto
  obtain k where k: "k < 24" "(p, k) \<in> live heap_lo bs'" using a_alloc_Some [OF A] by auto
  obtain m' where m': "kmalloc HEAP_START n m = Some (of_nat p, m')" "heap_ok m' bs'"
    using kmalloc_cases [OF assms(1) n] A z by auto
  have "(of_nat p :: u32) \<noteq> 0"
    by (rule addr_nonzero) (use heap_live_bounds [OF m'(2) k(2)] in auto)
  with k m' show ?thesis by blast
qed

theorem kmalloc_wraps_witness:
  "\<exists>p k bs' m'. kmalloc HEAP_START 0xFFFFFFFC (fst (heap_init (\<lambda>_. 0))) = Some (of_nat p, m') \<and>
     (of_nat p :: u32) \<noteq> 0 \<and> heap_ok m' bs' \<and> (p, k) \<in> live heap_lo bs' \<and> k < 24"
  by (rule kmalloc_wraps [of _ "[(0xFFFF0, True)]"]) (use heap_init_chain in auto)

text \<open>
  once every allocated block has been freed the arena is a single free block again:
  freeing leaves no fragmentation behind.
\<close>

lemma all_freed_one_block:
  assumes "heap_ok m bs" "live heap_lo bs = {}"
  shows "bs = [(0xFFFF0, True)]"
proof -
  obtain sz where "bs = [(sz, True)]"
    using separated_free [of bs] live_empty [OF assms(2)] assms(1) by (auto simp: heap_ok_def)
  with assms(1) show ?thesis by (auto simp: heap_ok_def)
qed

lemma all_freed_one_block_witness:
  "\<exists>m bs. heap_ok m bs \<and> live heap_lo bs = {} \<and> bs = [(0xFFFF0, True)]"
proof -
  let ?m = "fst (heap_init (\<lambda>_. 0))"
  have ok: "heap_ok ?m [(0xFFFF0, True)]" using heap_init_chain by blast
  have "live heap_lo [(0xFFFF0, True)] = {}" by simp
  from ok this all_freed_one_block [OF ok this] show ?thesis by blast
qed

end
