(* ===== verification/Pmm.thy ===== *)
theory Pmm
  imports Prelude
begin

text \<open>
  \<^verbatim>\<open>mm/pmm.c\<close>: the bitmap of 4 KB frames.  The words at \<^verbatim>\<open>BITMAP_ADDR\<close> are a function from
  word index to word.  The specification is the set \<open>free_set\<close> of free frame numbers: the
  counter \<^verbatim>\<open>free_frames\<close> is its size, and allocation takes its least element.
\<close>

unbundle bit_operations_syntax

subsection \<open>The code\<close>

record pmm =
  bitmap :: "u32 \<Rightarrow> u32"
  total_frames :: u32
  free_frames :: u32
  bitmap_words :: u32

definition PMM_FRAME_SIZE :: u32 where "PMM_FRAME_SIZE = 4096"
definition KERNEL_END :: u32 where "KERNEL_END = 0x200000"

definition bitmap_set :: "u32 \<Rightarrow> pmm \<Rightarrow> pmm" where
  "bitmap_set frame s = s\<lparr>bitmap := (bitmap s)(frame div 32 :=
     bitmap s (frame div 32) OR push_bit (unat (frame mod 32)) 1)\<rparr>"

definition bitmap_clear :: "u32 \<Rightarrow> pmm \<Rightarrow> pmm" where
  "bitmap_clear frame s = s\<lparr>bitmap := (bitmap s)(frame div 32 :=
     bitmap s (frame div 32) AND NOT (push_bit (unat (frame mod 32)) 1))\<rparr>"

definition bitmap_test :: "u32 \<Rightarrow> pmm \<Rightarrow> bool" where
  "bitmap_test frame s \<longleftrightarrow>
     drop_bit (unat (frame mod 32)) (bitmap s (frame div 32)) AND 1 \<noteq> 0"

text \<open>The loop of \<open>pmm_init\<close> over the frames above the kernel.\<close>

fun free_from :: "u32 \<Rightarrow> nat \<Rightarrow> pmm \<Rightarrow> pmm" where
  "free_from f 0 s = s"
| "free_from f (Suc n) s =
     (let s = bitmap_clear f s in free_from (f + 1) n (s\<lparr>free_frames := free_frames s + 1\<rparr>))"

definition pmm_init :: "u32 \<Rightarrow> pmm \<Rightarrow> pmm" where
  "pmm_init mem_kb s =
     (let total = (mem_kb * 1024) div PMM_FRAME_SIZE;
          words = (total + 31) div 32;
          first_free = KERNEL_END div PMM_FRAME_SIZE;
          s = s\<lparr>bitmap := (\<lambda>i. if i < words then 0xFFFFFFFF else bitmap s i),
                total_frames := total, free_frames := 0, bitmap_words := words\<rparr>
      in free_from first_free (unat total - unat first_free) s)"

fun scan_bits :: "pmm \<Rightarrow> u32 \<Rightarrow> nat list \<Rightarrow> (u32 \<times> pmm) option" where
  "scan_bits s i [] = None"
| "scan_bits s i (bt # bts) =
     (let frame = i * 32 + of_nat bt
      in if frame \<ge> total_frames s then Some (0, s)
         else if \<not> bitmap_test frame s
         then (let s = bitmap_set frame s
               in Some (frame * PMM_FRAME_SIZE, s\<lparr>free_frames := free_frames s - 1\<rparr>))
         else scan_bits s i bts)"

fun scan_words :: "pmm \<Rightarrow> nat list \<Rightarrow> u32 \<times> pmm" where
  "scan_words s [] = (0, s)"
| "scan_words s (i # is) =
     (if bitmap s (of_nat i) = 0xFFFFFFFF then scan_words s is
      else case scan_bits s (of_nat i) [0..<32] of Some r \<Rightarrow> r | None \<Rightarrow> scan_words s is)"

definition pmm_alloc :: "pmm \<Rightarrow> u32 \<times> pmm" where
  "pmm_alloc s = scan_words s [0..<unat (bitmap_words s)]"

definition pmm_free :: "u32 \<Rightarrow> pmm \<Rightarrow> pmm" where
  "pmm_free addr s =
     (let frame = addr div PMM_FRAME_SIZE
      in if frame \<ge> total_frames s then s
         else (let s = bitmap_clear frame s in s\<lparr>free_frames := free_frames s + 1\<rparr>))"

definition pmm_free_frames :: "pmm \<Rightarrow> u32" where "pmm_free_frames s = free_frames s"
definition pmm_total_frames :: "pmm \<Rightarrow> u32" where "pmm_total_frames s = total_frames s"

subsection \<open>Frames as a set\<close>

definition frame_used :: "pmm \<Rightarrow> nat \<Rightarrow> bool" where
  "frame_used s f \<longleftrightarrow> bit (bitmap s (of_nat (f div 32))) (f mod 32)"

definition free_set :: "pmm \<Rightarrow> nat set" where
  "free_set s = {f. f < unat (total_frames s) \<and> \<not> frame_used s f}"

definition pmm_ok :: "pmm \<Rightarrow> bool" where
  "pmm_ok s \<longleftrightarrow> unat (total_frames s) \<le> 1048576 \<and>
     unat (bitmap_words s) = (unat (total_frames s) + 31) div 32 \<and>
     unat (free_frames s) = card (free_set s)"

lemma finite_free_set [simp]: "finite (free_set s)"
  by (simp add: free_set_def)

lemma frame_nat:
  assumes "f < 4294967296"
  shows "(of_nat f :: u32) div 32 = of_nat (f div 32)" "unat ((of_nat f :: u32) mod 32) = f mod 32"
proof -
  have "f div 32 < 4294967296" using assms by simp
  then show "(of_nat f :: u32) div 32 = of_nat (f div 32)"
    using assms by (simp add: word_arith_nat_div)
  show "unat ((of_nat f :: u32) mod 32) = f mod 32"
    using assms by (simp add: unat_mod)
qed

lemma div32_inj: "f < 4294967296 \<Longrightarrow> g < 4294967296 \<Longrightarrow>
   (of_nat (f div 32) :: u32) = of_nat (g div 32) \<longleftrightarrow> f div 32 = g div 32"
proof -
  have "(of_nat a :: u32) = of_nat b \<longleftrightarrow> a = b" if "a < 4294967296" "b < 4294967296" for a b
    using unat32_of_nat_small [OF that(1)] unat32_of_nat_small [OF that(2)] by metis
  moreover assume "f < 4294967296" "g < 4294967296"
  ultimately show ?thesis by simp
qed

lemma frame_eq: "f = g \<longleftrightarrow> f div 32 = g div 32 \<and> f mod 32 = (g :: nat) mod 32"
  by (metis div_mult_mod_eq)

lemma bit_one_shift: "k < 32 \<Longrightarrow> bit (2 ^ j :: u32) k \<longleftrightarrow> j = k"
  by (auto simp: bit_exp_iff)

lemma frame_used_set:
  "f < 4294967296 \<Longrightarrow> g < 4294967296 \<Longrightarrow>
   frame_used (bitmap_set (of_nat f) s) g \<longleftrightarrow> g = f \<or> frame_used s g"
  by (auto simp: frame_used_def bitmap_set_def frame_nat div32_inj bit_or_iff bit_one_shift
      frame_eq [of g f])

lemma frame_used_clear:
  "f < 4294967296 \<Longrightarrow> g < 4294967296 \<Longrightarrow>
   frame_used (bitmap_clear (of_nat f) s) g \<longleftrightarrow> g \<noteq> f \<and> frame_used s g"
  by (auto simp: frame_used_def bitmap_clear_def frame_nat div32_inj bit_and_iff bit_not_iff
      bit_one_shift frame_eq [of g f])

lemma bitmap_test_used:
  assumes "f < 4294967296"
  shows "bitmap_test (of_nat f) s \<longleftrightarrow> frame_used s f"
  unfolding bitmap_test_def frame_used_def frame_nat [OF assms] bit_iff_odd_drop_bit
  by (simp add: and_one_eq odd_iff_mod_2_eq_one)

lemma bitmap_upd_fields [simp]:
  "total_frames (bitmap_set f s) = total_frames s" "free_frames (bitmap_set f s) = free_frames s"
  "bitmap_words (bitmap_set f s) = bitmap_words s"
  "total_frames (bitmap_clear f s) = total_frames s"
  "free_frames (bitmap_clear f s) = free_frames s"
  "bitmap_words (bitmap_clear f s) = bitmap_words s"
  by (simp_all add: bitmap_set_def bitmap_clear_def)

lemma frame_used_frees [simp]: "frame_used (s\<lparr>free_frames := k\<rparr>) = frame_used s"
  by (rule ext) (simp add: frame_used_def)

subsection \<open>Allocation takes the least free frame\<close>

definition take_frame :: "nat \<Rightarrow> pmm \<Rightarrow> u32 \<times> pmm" where
  "take_frame f s = (of_nat f * PMM_FRAME_SIZE,
     (bitmap_set (of_nat f) s)\<lparr>free_frames := free_frames s - 1\<rparr>)"

definition scans :: "pmm \<Rightarrow> nat \<Rightarrow> u32 \<times> pmm \<Rightarrow> bool" where
  "scans s a r \<longleftrightarrow>
     (\<forall>f. a \<le> f \<longrightarrow> f < unat (total_frames s) \<longrightarrow> frame_used s f) \<and> r = (0, s) \<or>
     (\<exists>f. a \<le> f \<and> f < unat (total_frames s) \<and> \<not> frame_used s f \<and>
        (\<forall>g. a \<le> g \<longrightarrow> g < f \<longrightarrow> frame_used s g) \<and> r = take_frame f s)"

lemma scans_skip:
  assumes "scans s b r" "\<And>f. a \<le> f \<Longrightarrow> f < b \<Longrightarrow> frame_used s f" "a \<le> b"
  shows "scans s a r"
proof -
  have all: "frame_used s f" if "a \<le> f" "b \<le> f \<Longrightarrow> frame_used s f" for f
    using that assms(2) by (cases "b \<le> f") auto
  from assms(1) consider
      "\<forall>f. b \<le> f \<longrightarrow> f < unat (total_frames s) \<longrightarrow> frame_used s f" "r = (0, s)"
    | f where "b \<le> f" "f < unat (total_frames s)" "\<not> frame_used s f"
        "\<forall>g. b \<le> g \<longrightarrow> g < f \<longrightarrow> frame_used s g" "r = take_frame f s"
    unfolding scans_def by blast
  then show ?thesis
  proof cases
    case 1
    then show ?thesis using all unfolding scans_def by blast
  next
    case 2
    moreover have "a \<le> f" using 2(1) assms(3) by simp
    moreover have "\<forall>g. a \<le> g \<longrightarrow> g < f \<longrightarrow> frame_used s g" using all 2(4) by blast
    ultimately show ?thesis unfolding scans_def by blast
  qed
qed

lemma scan_bits_scans:
  assumes "unat (total_frames s) \<le> 1048576" "i < 134217728"
  shows "j \<le> 32 \<Longrightarrow> (case scan_bits s (of_nat i) [32 - j..<32] of
      Some r \<Rightarrow> scans s (i * 32 + (32 - j)) r
    | None \<Rightarrow> (\<forall>f. i * 32 + (32 - j) \<le> f \<longrightarrow> f < i * 32 + 32 \<longrightarrow> frame_used s f))"
proof (induction j)
  case (Suc j)
  let ?b = "32 - Suc j"
  let ?f = "i * 32 + ?b"
  have S: "Suc ?b = 32 - j" using Suc.prems by (simp add: Suc_diff_Suc)
  have b: "[?b..<32] = ?b # [32 - j..<32]"
    unfolding S [symmetric] by (rule upt_conv_Cons) simp
  have "i * 32 + (32 - j) = Suc ?f" using S by simp
  have f32: "?f < 4294967296" using assms(2) by simp
  have fr: "(of_nat i * 32 + of_nat ?b :: u32) = of_nat ?f" by simp
  have le: "total_frames s \<le> of_nat ?f \<longleftrightarrow> unat (total_frames s) \<le> ?f"
    using f32 by (simp only: word_le_nat_alt unat32_of_nat_small)
  have IH: "case scan_bits s (of_nat i) [32 - j..<32] of
      Some r \<Rightarrow> scans s (Suc ?f) r
    | None \<Rightarrow> (\<forall>f. Suc ?f \<le> f \<longrightarrow> f < i * 32 + 32 \<longrightarrow> frame_used s f)"
    using Suc \<open>i * 32 + (32 - j) = Suc ?f\<close> by (simp only: Suc_leD)
  show ?case
  proof (cases "unat (total_frames s) \<le> ?f \<or> \<not> frame_used s ?f")
    case True
    then show ?thesis
      unfolding b scan_bits.simps fr Let_def le bitmap_test_used [OF f32]
      by (auto simp: scans_def take_frame_def)
  next
    case False
    with IH show ?thesis
      unfolding b scan_bits.simps fr Let_def le bitmap_test_used [OF f32]
      by (auto split: option.splits intro: scans_skip simp: le_less_Suc_eq Suc_le_eq)
         (metis le_neq_implies_less)
  qed
qed simp

lemma full_word: "bitmap s (of_nat i) = 0xFFFFFFFF \<Longrightarrow> i * 32 \<le> f \<Longrightarrow> f < i * 32 + 32 \<Longrightarrow> frame_used s f"
proof -
  assume a: "bitmap s (of_nat i) = 0xFFFFFFFF" "i * 32 \<le> f" "f < i * 32 + 32"
  then have f: "f div 32 = i" by simp
  have "bit (- 1 :: u32) (f mod 32)" by (simp add: bit_minus_1_iff)
  moreover have "(- 1 :: u32) = 0xFFFFFFFF" by simp
  ultimately have "bit (0xFFFFFFFF :: u32) (f mod 32)" by metis
  with a(1) f show "frame_used s f" unfolding frame_used_def by (simp only:)
qed

lemma scan_words_scans:
  assumes "unat (total_frames s) \<le> 1048576" "unat (total_frames s) \<le> W * 32" "W \<le> 134217728"
  shows "i \<le> W \<Longrightarrow> scans s (i * 32) (scan_words s [i..<W])"
proof (induction "W - i" arbitrary: i)
  case 0
  then show ?case using assms by (auto simp: scans_def)
next
  case (Suc n)
  then have i: "i < W" "[i..<W] = i # [Suc i..<W]" by (auto simp: upt_rec)
  have IH: "scans s (i * 32 + 32) (scan_words s [Suc i..<W])"
    using Suc(1) [of "Suc i"] Suc(2) i by (simp add: add.commute)
  have sb: "case scan_bits s (of_nat i) [0..<32] of Some r \<Rightarrow> scans s (i * 32) r
      | None \<Rightarrow> (\<forall>f. i * 32 \<le> f \<longrightarrow> f < i * 32 + 32 \<longrightarrow> frame_used s f)"
    using scan_bits_scans [OF assms(1), of i 32] i assms(3) by (simp only: diff_self_eq_0 add_0_right)
  show ?case
    using IH sb full_word [of s i] by (auto simp: i(2) split: option.splits intro: scans_skip)
qed

lemma pmm_alloc_scans: "pmm_ok s \<Longrightarrow> scans s 0 (pmm_alloc s)"
proof -
  assume ok: "pmm_ok s"
  then have "unat (total_frames s) \<le> unat (bitmap_words s) * 32" "unat (bitmap_words s) \<le> 134217728"
    unfolding pmm_ok_def by linarith+
  then show ?thesis
    using scan_words_scans [of s "unat (bitmap_words s)" 0] ok by (simp add: pmm_alloc_def pmm_ok_def)
qed

lemma free_set_take:
  assumes "pmm_ok s" "f \<in> free_set s"
  shows "free_set (snd (take_frame f s)) = free_set s - {f}" "pmm_ok (snd (take_frame f s))"
    "fst (take_frame f s) = of_nat (f * 4096)"
proof -
  have lim: "unat (total_frames s) \<le> 1048576" using assms(1) by (simp add: pmm_ok_def)
  show fs: "free_set (snd (take_frame f s)) = free_set s - {f}"
    using assms lim by (auto simp: free_set_def take_frame_def frame_used_set)
  have "0 < card (free_set s)" using assms(2) by (auto simp: card_gt_0_iff)
  then have "free_frames s \<noteq> 0" using assms(1) by (auto simp: pmm_ok_def)
  then have "unat (free_frames s - 1) = card (free_set s) - 1"
    using assms(1) unat_minus_one [of "free_frames s"] by (simp add: pmm_ok_def)
  then show "pmm_ok (snd (take_frame f s))"
    using assms fs by (simp add: pmm_ok_def take_frame_def)
  show "fst (take_frame f s) = of_nat (f * 4096)"
    by (simp add: take_frame_def PMM_FRAME_SIZE_def)
qed

lemma pmm_alloc_cases:
  assumes "pmm_ok s"
  shows "if free_set s = {} then pmm_alloc s = (0, s)
    else pmm_alloc s = take_frame (Min (free_set s)) s"
proof -
  from pmm_alloc_scans [OF assms] consider
      "\<forall>f. f < unat (total_frames s) \<longrightarrow> frame_used s f" "pmm_alloc s = (0, s)"
    | f where "f \<in> free_set s" "\<forall>g. g < f \<longrightarrow> frame_used s g" "pmm_alloc s = take_frame f s"
    unfolding scans_def free_set_def by auto
  then show ?thesis
  proof cases
    case 1
    then have "free_set s = {}" by (simp add: free_set_def)
    with 1 show ?thesis by simp
  next
    case 2
    have "f \<le> g" if "g \<in> free_set s" for g
      using that 2(2) by (auto simp: free_set_def not_less [symmetric])
    with 2(1) have "Min (free_set s) = f" by (intro Min_eqI) auto
    with 2 show ?thesis by auto
  qed
qed

subsection \<open>Initialisation and freeing\<close>

lemma free_from_frees:
  "f + n \<le> 4294967296 \<Longrightarrow> g < 4294967296 \<Longrightarrow>
   frame_used (free_from (of_nat f) n s) g \<longleftrightarrow> frame_used s g \<and> \<not> (f \<le> g \<and> g < f + n)"
proof (induction n arbitrary: f s)
  case (Suc n)
  have "(of_nat f + 1 :: u32) = of_nat (Suc f)" by simp
  with Suc frame_used_clear [of f g s] show ?case
    by (auto simp: Let_def simp del: of_nat_Suc)
qed simp

lemma free_from_fields [simp]:
  "total_frames (free_from f n s) = total_frames s"
  "bitmap_words (free_from f n s) = bitmap_words s"
  "free_frames (free_from f n s) = free_frames s + of_nat n"
  by (induction f n s rule: free_from.induct) (simp_all add: Let_def)

lemma mem_total: "unat ((kb * 1024 :: u32) div PMM_FRAME_SIZE) < 1048576"
  using unat32_lt [of "kb * 1024"]
  by (simp add: PMM_FRAME_SIZE_def unat_div del: unat32_lt)

lemma mem_words:
  assumes "unat t < 1048576"
  shows "unat ((t + 31 :: u32) div 32) = (unat t + 31) div 32"
  using assms by (simp add: unat_div unat32_add)

lemma pmm_init_sets:
  fixes kb s
  defines "s' \<equiv> pmm_init kb s"
  shows "total_frames s' = kb * 1024 div PMM_FRAME_SIZE"
    "free_set s' = {512..<unat (total_frames s')}" "pmm_ok s'"
proof -
  let ?t = "kb * 1024 div PMM_FRAME_SIZE"
  let ?w = "(?t + 31) div 32"
  define s0 where "s0 = s\<lparr>bitmap := (\<lambda>i. if i < ?w then 0xFFFFFFFF else bitmap s i),
    total_frames := ?t, free_frames := 0, bitmap_words := ?w\<rparr>"
  have first: "KERNEL_END div PMM_FRAME_SIZE = of_nat 512"
    by (simp add: KERNEL_END_def PMM_FRAME_SIZE_def)
  have s': "s' = free_from (of_nat 512) (unat ?t - 512) s0"
    unfolding s'_def pmm_init_def Let_def s0_def first by simp
  show tot: "total_frames s' = ?t" by (simp add: s' s0_def)
  have t: "unat ?t < 1048576" by (rule mem_total)
  have all: "frame_used s0 f" if f: "f < unat ?t" for f
  proof -
    have "(of_nat (f div 32) :: u32) < ?w"
      using t f mem_words [OF t] by (simp add: word_less_nat_alt)
    then have "bitmap s0 (of_nat (f div 32)) = 0xFFFFFFFF" by (simp add: s0_def)
    then show ?thesis by (rule full_word) auto
  qed
  show fs: "free_set s' = {512..<unat (total_frames s')}"
  proof -
    have "frame_used s' g \<longleftrightarrow> g < 512" if "g < unat ?t" for g
      unfolding s' using free_from_frees [of 512 "unat ?t - 512" g s0] all [OF that] that t by auto
    then show ?thesis unfolding free_set_def tot by auto
  qed
  show "pmm_ok s'"
    using t fs mem_words [OF t] tot by (simp add: pmm_ok_def s' s0_def)
qed

lemma pmm_free_ok:
  assumes "pmm_ok s" "f < unat (total_frames s)" "frame_used s f" "d < 4096"
  shows "free_set (pmm_free (of_nat (f * 4096 + d)) s) = insert f (free_set s) \<and>
    pmm_ok (pmm_free (of_nat (f * 4096 + d)) s)"
proof -
  have lim: "unat (total_frames s) \<le> 1048576" using assms(1) by (simp add: pmm_ok_def)
  have "f * 4096 + d < 4294967296" using lim assms(2,4) by simp
  then have fr: "(of_nat (f * 4096 + d) :: u32) div PMM_FRAME_SIZE = of_nat f"
    using assms(4) by (simp add: PMM_FRAME_SIZE_def word_arith_nat_div del: of_nat_add of_nat_mult)
  have "\<not> total_frames s \<le> of_nat f" using lim assms(2) by (simp add: word_le_nat_alt)
  then have run: "pmm_free (of_nat (f * 4096 + d)) s =
      (bitmap_clear (of_nat f) s)\<lparr>free_frames := free_frames s + 1\<rparr>"
    unfolding pmm_free_def fr by (simp add: Let_def)
  have fs: "free_set (pmm_free (of_nat (f * 4096 + d)) s) = insert f (free_set s)"
    unfolding run using assms(2) lim by (auto simp: free_set_def frame_used_clear)
  have nf: "f \<notin> free_set s" using assms(3) by (simp add: free_set_def)
  have "card (free_set s) \<le> 1048576"
  proof -
    have "free_set s \<subseteq> {..<unat (total_frames s)}" by (auto simp: free_set_def)
    then have "card (free_set s) \<le> unat (total_frames s)"
      using card_mono [of "{..<unat (total_frames s)}"] by fastforce
    with lim show ?thesis by simp
  qed
  then have "unat (free_frames s + 1) = Suc (card (free_set s))"
    using assms(1) by (simp add: pmm_ok_def unat32_add)
  then show ?thesis
    using fs nf assms(1) unfolding pmm_ok_def run by simp
qed

subsection \<open>The interface the paging code relies on\<close>

locale frame_source =
  fixes alloc :: "'s \<Rightarrow> u32 \<times> 's"
    and held :: "'s \<Rightarrow> u32 set"
    and avail :: "'s \<Rightarrow> nat"
    and inv :: "'s \<Rightarrow> bool"
  assumes alloc_none: "inv s \<Longrightarrow> avail s = 0 \<Longrightarrow> alloc s = (0, s)"
    and alloc_fresh: "inv s \<Longrightarrow> 0 < avail s \<Longrightarrow> fst (alloc s) \<noteq> 0 \<and> fst (alloc s) \<notin> held s"
    and alloc_aligned: "inv s \<Longrightarrow> 4096 dvd unat (fst (alloc s))"
    and alloc_held: "inv s \<Longrightarrow> 0 < avail s \<Longrightarrow> held (snd (alloc s)) = insert (fst (alloc s)) (held s)"
    and alloc_avail: "inv s \<Longrightarrow> avail (snd (alloc s)) = avail s - 1"
    and alloc_inv: "inv s \<Longrightarrow> inv (snd (alloc s))"
begin

lemma alloc_nonzero: "inv s \<Longrightarrow> fst (alloc s) \<noteq> 0 \<longleftrightarrow> 0 < avail s"
  using alloc_none [of s] alloc_fresh [of s] by (cases "avail s = 0") auto

lemma held_mono: "inv s \<Longrightarrow> held s \<subseteq> held (snd (alloc s))"
  using alloc_none [of s] alloc_held [of s] by (cases "avail s = 0") auto

end

definition held_frames :: "pmm \<Rightarrow> u32 set" where
  "held_frames s = (\<lambda>f. of_nat (f * 4096)) ` {f. f < unat (total_frames s) \<and> frame_used s f}"

definition pmm_inv :: "pmm \<Rightarrow> bool" where
  "pmm_inv s \<longleftrightarrow> pmm_ok s \<and> frame_used s 0"

lemma take_frame_min:
  assumes "pmm_inv s" "free_set s \<noteq> {}"
  obtains f where "f \<in> free_set s" "pmm_alloc s = take_frame f s" "0 < f" "f < 1048576"
    "unat (of_nat (f * 4096) :: u32) = f * 4096"
proof -
  define m where "m = Min (free_set s)"
  have f: "m \<in> free_set s" using assms(2) by (simp add: m_def)
  moreover have "m \<noteq> 0" using f assms(1) by (cases m) (auto simp: free_set_def pmm_inv_def)
  moreover have "m < 1048576" using f assms(1) by (auto simp: free_set_def pmm_inv_def pmm_ok_def)
  moreover have "pmm_alloc s = take_frame m s"
    using pmm_alloc_cases [of s] assms by (simp add: pmm_inv_def m_def)
  moreover from \<open>m < 1048576\<close> have "unat (of_nat (m * 4096) :: u32) = m * 4096"
    by (simp del: of_nat_mult)
  ultimately show thesis using that by blast
qed

lemma frame_addr_inj: "f < 1048576 \<Longrightarrow> g < 1048576 \<Longrightarrow> (of_nat (f * 4096) :: u32) = of_nat (g * 4096) \<longleftrightarrow> f = g"
proof
  assume a: "f < 1048576" "g < 1048576" "(of_nat (f * 4096) :: u32) = of_nat (g * 4096)"
  have "unat (of_nat (f * 4096) :: u32) = f * 4096" "unat (of_nat (g * 4096) :: u32) = g * 4096"
    by (rule unat32_of_nat_small; use a in simp)+
  with a(3) show "f = g" by simp
qed simp

interpretation frames: frame_source pmm_alloc held_frames "\<lambda>s. card (free_set s)" pmm_inv
proof
  fix s
  assume inv: "pmm_inv s"
  then have ok: "pmm_ok s" and lim: "unat (total_frames s) \<le> 1048576"
    by (auto simp: pmm_inv_def pmm_ok_def)
  show "pmm_alloc s = (0, s)" if "card (free_set s) = 0"
    using that pmm_alloc_cases [OF ok] by simp
  show "4096 dvd unat (fst (pmm_alloc s))"
  proof (cases "free_set s = {}")
    case False
    with take_frame_min [OF inv] free_set_take(3) [OF ok] show ?thesis by (metis dvd_triv_right)
  qed (use pmm_alloc_cases [OF ok] in simp)
  show "card (free_set (snd (pmm_alloc s))) = card (free_set s) - 1"
  proof (cases "free_set s = {}")
    case False
    with take_frame_min [OF inv] free_set_take(1) [OF ok] show ?thesis by (metis card_Diff_singleton)
  qed (use pmm_alloc_cases [OF ok] in simp)
  show "pmm_inv (snd (pmm_alloc s))"
  proof (cases "free_set s = {}")
    case False
    then obtain f where f: "f \<in> free_set s" "pmm_alloc s = take_frame f s" "f < 1048576"
      using take_frame_min [OF inv] by metis
    then have "frame_used (snd (take_frame f s)) 0"
      using inv by (simp add: take_frame_def frame_used_set [of f 0] pmm_inv_def)
    with f free_set_take(2) [OF ok f(1)] show ?thesis by (simp add: pmm_inv_def)
  qed (use pmm_alloc_cases [OF ok] inv in simp)
  assume "0 < card (free_set s)"
  then have "free_set s \<noteq> {}" by auto
  then obtain f where f: "f \<in> free_set s" "pmm_alloc s = take_frame f s" "0 < f" "f < 1048576"
    "unat (of_nat (f * 4096) :: u32) = f * 4096"
    by (rule take_frame_min [OF inv])
  have "(of_nat (f * 4096) :: u32) \<noteq> 0" using f(3,5) by (metis unsigned_0 mult_is_0 not_gr_zero zero_neq_numeral)
  moreover have "(of_nat (f * 4096) :: u32) \<notin> held_frames s"
  proof
    assume "(of_nat (f * 4096) :: u32) \<in> held_frames s"
    then obtain g where g: "g < unat (total_frames s)" "frame_used s g"
      "(of_nat (f * 4096) :: u32) = of_nat (g * 4096)"
      unfolding held_frames_def by blast
    with frame_addr_inj [OF f(4), of g] lim have "f = g" by simp
    with f(1) g(2) show False by (simp add: free_set_def)
  qed
  ultimately show "fst (pmm_alloc s) \<noteq> 0 \<and> fst (pmm_alloc s) \<notin> held_frames s"
    using f free_set_take(3) [OF ok f(1)] by simp
  have "{g. g < unat (total_frames s) \<and> frame_used (snd (take_frame f s)) g} =
      insert f {g. g < unat (total_frames s) \<and> frame_used s g}"
    using f(1,4) lim by (auto simp: take_frame_def frame_used_set free_set_def)
  then show "held_frames (snd (pmm_alloc s)) = insert (fst (pmm_alloc s)) (held_frames s)"
    using f(2) free_set_take(3) [OF ok f(1)] by (simp add: held_frames_def take_frame_def)
qed

subsection \<open>Properties\<close>

text \<open>
  C21: \<^verbatim>\<open>pmm_init\<close> frees exactly the frames from 2 MB up to the end of memory, with a correct
  counter; on any state with a correct counter \<^verbatim>\<open>pmm_alloc\<close> returns 0 and changes nothing when
  no frame is free, and otherwise takes the lowest free frame, returns its address and keeps the
  counter correct.
\<close>

theorem pmm_alloc_lowest:
  "free_set (pmm_init kb s0) = {512..<unat (pmm_total_frames (pmm_init kb s0))} \<and>
   pmm_ok (pmm_init kb s0) \<and>
   (pmm_ok s \<longrightarrow> free_set s = {} \<longrightarrow> pmm_alloc s = (0, s)) \<and>
   (pmm_ok s \<longrightarrow> free_set s \<noteq> {} \<longrightarrow>
      fst (pmm_alloc s) = of_nat (Min (free_set s) * 4096) \<and>
      free_set (snd (pmm_alloc s)) = free_set s - {Min (free_set s)} \<and> pmm_ok (snd (pmm_alloc s)))"
proof -
  have "Min (free_set s) \<in> free_set s" if "free_set s \<noteq> {}" using that by simp
  note m = free_set_take [OF _ this]
  show ?thesis
    using pmm_init_sets [of kb s0] pmm_alloc_cases [of s] m by (auto simp: pmm_total_frames_def)
qed

theorem pmm_alloc_lowest_witness:
  "\<exists>s. pmm_ok s \<and> free_set s \<noteq> {} \<and> fst (pmm_alloc s) = of_nat (Min (free_set s) * 4096)"
proof -
  let ?s = "pmm_init 4096 (pmm_init 0 undefined)"
  have "free_set ?s = {512..<1024}"
    using pmm_init_sets [of 4096] by (simp add: PMM_FRAME_SIZE_def)
  then have "free_set ?s \<noteq> {}" by simp
  with pmm_alloc_lowest [of 4096 "pmm_init 0 undefined" ?s] show ?thesis by blast
qed

text \<open>
  freeing a frame that is in use adds it to the free frames and keeps the counter correct;
  freeing a frame twice still increments the counter, which from then on overstates the
  number of free frames.
\<close>

lemma pmm_free_effect:
  assumes "pmm_ok s" "f < unat (total_frames s)" "d < 4096"
  shows "(if frame_used s f
     then free_set (pmm_free (of_nat (f * 4096 + d)) s) = insert f (free_set s) \<and>
          pmm_ok (pmm_free (of_nat (f * 4096 + d)) s)
     else free_set (pmm_free (of_nat (f * 4096)) s) = free_set s \<and>
          pmm_free_frames (pmm_free (of_nat (f * 4096)) s) = pmm_free_frames s + 1 \<and>
          \<not> pmm_ok (pmm_free (of_nat (f * 4096)) s))"
proof (cases "frame_used s f")
  case False
  have lim: "f < 1048576" using assms(1,2) by (simp add: pmm_ok_def)
  have fr: "(of_nat (f * 4096) :: u32) div PMM_FRAME_SIZE = of_nat f"
    using lim by (simp add: PMM_FRAME_SIZE_def word_arith_nat_div del: of_nat_mult)
  have "\<not> total_frames s \<le> of_nat f" using lim assms(2) by (simp add: word_le_nat_alt)
  then have run: "pmm_free (of_nat (f * 4096)) s =
      (bitmap_clear (of_nat f) s)\<lparr>free_frames := free_frames s + 1\<rparr>"
    unfolding pmm_free_def fr by (simp add: Let_def)
  have "unat (total_frames s) \<le> 1048576" using assms(1) by (simp add: pmm_ok_def)
  then have fs: "free_set (pmm_free (of_nat (f * 4096)) s) = free_set s"
    unfolding run using lim False by (auto simp: free_set_def frame_used_clear)
  have "unat (free_frames s + 1) \<noteq> unat (free_frames s)" by (metis add_cancel_right_right unsigned_word_eqI zero_neq_one)
  with False fs assms(1) show ?thesis
    unfolding run by (auto simp: pmm_ok_def pmm_free_frames_def)
qed (use pmm_free_ok [OF assms(1,2) _ assms(3)] in simp)

lemma pmm_free_effect_witness:
  "\<exists>s. pmm_ok s \<and> \<not> pmm_ok (pmm_free (of_nat (600 * 4096)) s)"
proof -
  let ?s = "pmm_init 4096 (pmm_init 0 undefined)"
  have fs: "free_set ?s = {512..<1024}" "unat (total_frames ?s) = 1024" "pmm_ok ?s"
    using pmm_init_sets [of 4096] by (simp_all add: PMM_FRAME_SIZE_def)
  have "600 \<in> free_set ?s" by (simp add: fs(1))
  then have "\<not> frame_used ?s 600" unfolding free_set_def by blast
  with pmm_free_effect [of ?s 600 0] fs show ?thesis by auto
qed

end
