(* ===== verification/Vmm.thy ===== *)
theory Vmm
  imports Pmm
begin

text \<open>
  \<^verbatim>\<open>mm/vmm.c\<close>: two-level paging.  The page directory and the page tables (by their physical
  base) are functions from entry index to entry; \<open>translate\<close> is what the MMU does with them.
  The operations take the frame allocator as an argument, so their lemmas are proved once from
  the interface \<open>frame_source\<close>; \<open>get_table\<close>, \<open>vmm_map\<close>, \<open>vmm_unmap\<close> and
  \<open>vmm_init\<close> are those operations on \<open>pmm_alloc\<close>.
\<close>

unbundle bit_operations_syntax

subsection \<open>The code\<close>

record 's vmm =
  page_dir :: "u32 \<Rightarrow> u32"
  tables :: "u32 \<Rightarrow> u32 \<Rightarrow> u32" \<comment> \<open>by physical base, then index\<close>
  frames :: 's
  paging :: bool \<comment> \<open>bit 31 of \<^verbatim>\<open>CR0\<close>, with \<^verbatim>\<open>CR3\<close> loaded\<close>

definition PAGE_PRESENT :: u32 where "PAGE_PRESENT = 1"
definition PAGE_WRITE :: u32 where "PAGE_WRITE = 2"

definition page_base :: "u32 \<Rightarrow> u32" where "page_base e = e AND NOT 0xFFF"
definition pdi :: "u32 \<Rightarrow> u32" where "pdi v = drop_bit 22 v"
definition pti :: "u32 \<Rightarrow> u32" where "pti v = drop_bit 12 v AND 0x3FF"

definition get_table_of :: "('s \<Rightarrow> u32 \<times> 's) \<Rightarrow> u32 \<Rightarrow> u32 \<Rightarrow> 's vmm \<Rightarrow> u32 \<times> 's vmm" where
  "get_table_of alloc virt flags s =
     (let entry = page_dir s (pdi virt)
      in if entry AND PAGE_PRESENT \<noteq> 0 then (page_base entry, s)
         else (let (phys, fr) = alloc (frames s); s = s\<lparr>frames := fr\<rparr>
               in if phys = 0 then (0, s)
                  else (phys, s\<lparr>tables := (tables s)(phys := \<lambda>_. 0),
                    page_dir := (page_dir s)(pdi virt := phys OR flags OR PAGE_PRESENT)\<rparr>)))"

definition set_pte :: "u32 \<Rightarrow> u32 \<Rightarrow> u32 \<Rightarrow> 's vmm \<Rightarrow> 's vmm" where
  "set_pte table i e s = s\<lparr>tables := (tables s)(table := (tables s table)(i := e))\<rparr>"

definition vmm_map_of ::
  "('s \<Rightarrow> u32 \<times> 's) \<Rightarrow> u32 \<Rightarrow> u32 \<Rightarrow> u32 \<Rightarrow> 's vmm \<Rightarrow> 's vmm" where
  "vmm_map_of alloc virt phys flags s =
     (let (table, s) = get_table_of alloc virt flags s
      in if table = 0 then s
         else set_pte table (pti virt) (page_base phys OR flags OR PAGE_PRESENT) s)"

definition vmm_unmap_of :: "('s \<Rightarrow> u32 \<times> 's) \<Rightarrow> u32 \<Rightarrow> 's vmm \<Rightarrow> 's vmm" where
  "vmm_unmap_of alloc virt s =
     (let (table, s) = get_table_of alloc virt 0 s
      in if table = 0 then s else set_pte table (pti virt) 0 s)"

fun map_pages_of :: "('s \<Rightarrow> u32 \<times> 's) \<Rightarrow> nat \<Rightarrow> 's vmm \<Rightarrow> 's vmm" where
  "map_pages_of alloc 0 s = s"
| "map_pages_of alloc (Suc n) s =
     (let s = map_pages_of alloc n s; addr = of_nat (n * 4096)
      in vmm_map_of alloc addr addr PAGE_WRITE s)"

definition vmm_init_of :: "('s \<Rightarrow> u32 \<times> 's) \<Rightarrow> 's vmm \<Rightarrow> 's vmm" where
  "vmm_init_of alloc s =
     (map_pages_of alloc (0x800000 div 4096) (s\<lparr>page_dir := \<lambda>_. 0\<rparr>))\<lparr>paging := True\<rparr>"

definition get_table :: "u32 \<Rightarrow> u32 \<Rightarrow> pmm vmm \<Rightarrow> u32 \<times> pmm vmm" where
  "get_table = get_table_of pmm_alloc"
definition vmm_map :: "u32 \<Rightarrow> u32 \<Rightarrow> u32 \<Rightarrow> pmm vmm \<Rightarrow> pmm vmm" where
  "vmm_map = vmm_map_of pmm_alloc"
definition vmm_unmap :: "u32 \<Rightarrow> pmm vmm \<Rightarrow> pmm vmm" where
  "vmm_unmap = vmm_unmap_of pmm_alloc"
definition vmm_init :: "pmm vmm \<Rightarrow> pmm vmm" where
  "vmm_init = vmm_init_of pmm_alloc"

subsection \<open>Address translation\<close>

definition translate :: "'s vmm \<Rightarrow> u32 \<Rightarrow> u32 option" where
  "translate s v =
     (let d = page_dir s (pdi v)
      in if d AND PAGE_PRESENT = 0 then None
         else (let e = tables s (page_base d) (pti v)
               in if e AND PAGE_PRESENT = 0 then None
                  else Some (page_base e OR (v AND 0xFFF))))"

subsection \<open>Bits of entries\<close>

lemma low12: "(0xFFF :: u32) = mask 12"
  by (simp add: mask_eq_exp_minus_1)

lemma bit_page_base: "n < 32 \<Longrightarrow> bit (page_base e) n \<longleftrightarrow> 12 \<le> n \<and> bit e n"
  unfolding page_base_def low12 by (auto simp: bit_simps)

lemma small_flags:
  fixes f :: u32
  assumes "f < 4096" "bit f n"
  shows "n < 12"
proof (rule ccontr)
  assume "\<not> n < 12"
  then have "(2 :: nat) ^ 12 \<le> 2 ^ n" by (intro power_increasing) auto
  moreover have "unat f < 4096" using assms(1) by (simp add: word_less_nat_alt)
  ultimately have "unat f div 2 ^ n = 0" by simp
  moreover have "bit (unat f) n" using assms(2) by (simp add: bit_unsigned_iff)
  ultimately show False by (simp add: bit_iff_odd)
qed

lemma unat_low12: "unat (take_bit 12 p) = unat p mod 4096" for p :: u32
  by (simp add: take_bit_eq_mod unat_mod)

lemma aligned_bits:
  fixes p :: u32
  assumes "4096 dvd unat p" "n < 12"
  shows "\<not> bit p n"
proof -
  have "unat (take_bit 12 p) = 0" unfolding unat_low12 using assms(1) by simp
  then have "take_bit 12 p = 0" using unsigned_eq_0_iff by blast
  then have "\<not> bit (take_bit 12 p) n" by simp
  then show ?thesis using assms(2) by (simp add: bit_take_bit_iff)
qed

lemma page_base_entry:
  assumes "4096 dvd unat p" "f < 4096"
  shows "page_base (p OR f OR PAGE_PRESENT) = p"
proof (rule bit_word_eqI)
  fix n assume "n < LENGTH(32)"
  then show "bit (page_base (p OR f OR PAGE_PRESENT)) n = bit p n"
    using aligned_bits [OF assms(1), of n] small_flags [OF assms(2), of n]
    by (cases "n < 12") (auto simp: bit_page_base bit_or_iff PAGE_PRESENT_def bit_1_iff)
qed

lemma entry_present [simp]: "(p OR f OR PAGE_PRESENT) AND PAGE_PRESENT = PAGE_PRESENT"
  "PAGE_PRESENT \<noteq> 0"
  by (rule bit_word_eqI) (auto simp: bit_simps PAGE_PRESENT_def)

lemma page_base_idem: "f < 4096 \<Longrightarrow> page_base (page_base p OR f OR PAGE_PRESENT) = page_base p"
  by (rule bit_word_eqI) (auto simp: bit_page_base bit_or_iff PAGE_PRESENT_def bit_1_iff dest: small_flags)

lemma page_base_aligned: "4096 dvd unat (page_base e)"
proof -
  have "take_bit 12 (page_base e) = 0"
    by (rule bit_word_eqI) (auto simp: bit_take_bit_iff bit_page_base)
  then have "unat (page_base e) mod 4096 = 0" using unat_low12 by (metis unsigned_0)
  then show ?thesis by (rule mod_0_imp_dvd)
qed

definition same_page :: "u32 \<Rightarrow> u32 \<Rightarrow> bool" where
  "same_page v w \<longleftrightarrow> drop_bit 12 v = drop_bit 12 w"

lemma same_page_index: "same_page v w \<longleftrightarrow> pdi v = pdi w \<and> pti v = pti w"
proof
  assume a: "same_page v w"
  then have "drop_bit 10 (drop_bit 12 v) = drop_bit 10 (drop_bit 12 w)" by (simp add: same_page_def)
  then have "pdi v = pdi w" by (simp only: pdi_def drop_bit_drop_bit) simp
  with a show "pdi v = pdi w \<and> pti v = pti w" by (simp add: same_page_def pti_def)
next
  have m: "(0x3FF :: u32) = mask 10" by (simp add: mask_eq_exp_minus_1)
  assume a: "pdi v = pdi w \<and> pti v = pti w"
  show "same_page v w"
    unfolding same_page_def
  proof (rule bit_word_eqI)
    fix n assume "n < LENGTH(32)"
    show "bit (drop_bit 12 v) n = bit (drop_bit 12 w) n"
    proof (cases "n < 10")
      case True
      have "bit (pti v) n = bit (pti w) n" using a by simp
      with True show ?thesis unfolding pti_def m by (simp add: bit_and_iff bit_mask_iff)
    next
      case False
      have "bit (pdi v) (n - 10) = bit (pdi w) (n - 10)" using a by simp
      with False show ?thesis by (simp add: pdi_def bit_drop_bit_eq)
    qed
  qed
qed

lemma same_page_base: "same_page v w \<Longrightarrow> page_base v = page_base w"
proof (rule bit_word_eqI)
  fix n assume "same_page v w" "n < LENGTH(32)"
  then have "bit (drop_bit 12 v) (n - 12) = bit (drop_bit 12 w) (n - 12)" by (simp add: same_page_def)
  then show "bit (page_base v) n = bit (page_base w) n"
    using \<open>n < LENGTH(32)\<close> by (cases "12 \<le> n") (simp_all add: bit_page_base bit_drop_bit_eq)
qed

lemma same_page_nat: "same_page v w \<longleftrightarrow> unat v div 4096 = unat w div 4096"
proof -
  have u: "unat (drop_bit 12 x) = unat x div 4096" for x :: u32
    unfolding unat_drop_bit_eq by (simp add: drop_bit_eq_div)
  show ?thesis
  proof
    assume "unat v div 4096 = unat w div 4096"
    then have "unat (drop_bit 12 v) = unat (drop_bit 12 w)" by (simp only: u)
    then show "same_page v w" unfolding same_page_def by (rule unsigned_word_eqI)
  next
    assume "same_page v w"
    then have "unat (drop_bit 12 v) = unat (drop_bit 12 w)" by (simp only: same_page_def)
    then show "unat v div 4096 = unat w div 4096" by (simp only: u)
  qed
qed

lemma low_or_page: "page_base v OR (v AND 0xFFF) = v"
  unfolding low12 by (rule bit_word_eqI) (auto simp: bit_page_base bit_simps)

subsection \<open>Page tables that do not overlap\<close>

definition present :: "'s vmm \<Rightarrow> u32 \<Rightarrow> bool" where
  "present s d \<longleftrightarrow> page_dir s d AND PAGE_PRESENT \<noteq> 0"

definition dir_ok :: "('s \<Rightarrow> u32 set) \<Rightarrow> ('s \<Rightarrow> bool) \<Rightarrow> 's vmm \<Rightarrow> bool" where
  "dir_ok held good s \<longleftrightarrow> good (frames s) \<and>
     (\<forall>d. present s d \<longrightarrow> page_base (page_dir s d) \<in> held (frames s) \<and> page_base (page_dir s d) \<noteq> 0) \<and>
     (\<forall>d d'. present s d \<longrightarrow> present s d' \<longrightarrow>
        page_base (page_dir s d) = page_base (page_dir s d') \<longrightarrow> d = d')"

lemma translate_alt:
  "translate s v =
     (if present s (pdi v) \<and> tables s (page_base (page_dir s (pdi v))) (pti v) AND PAGE_PRESENT \<noteq> 0
      then Some (page_base (tables s (page_base (page_dir s (pdi v))) (pti v)) OR (v AND 0xFFF))
      else None)"
  by (simp add: translate_def present_def Let_def)

lemma translate_set_pte:
  assumes "dir_ok held good s" "present s (pdi v)"
  shows "translate (set_pte (page_base (page_dir s (pdi v))) (pti v) e s) w =
    (if same_page w v
     then (if e AND PAGE_PRESENT \<noteq> 0 then Some (page_base e OR (w AND 0xFFF)) else None)
     else translate s w)"
proof -
  have "page_base (page_dir s (pdi w)) = page_base (page_dir s (pdi v)) \<longleftrightarrow> pdi w = pdi v"
    if "present s (pdi w)"
    using assms that unfolding dir_ok_def by metis
  then show ?thesis
    using assms(2) by (auto simp: translate_alt set_pte_def present_def same_page_index)
qed

lemma dir_ok_set_pte [kinv]: "dir_ok held good s \<Longrightarrow> dir_ok held good (set_pte t i e s)"
  by (simp add: dir_ok_def set_pte_def present_def)

lemma pages_round:
  "n mod 1024 = 0 \<Longrightarrow> (n + 1023) div 1024 = (n div 1024 :: nat)"
  "n mod 1024 = 0 \<Longrightarrow> (Suc n + 1023) div 1024 = Suc ((n + 1023) div 1024)"
proof -
  assume "n mod 1024 = 0"
  then obtain q where "n = 1024 * q" by auto
  then show "(n + 1023) div 1024 = n div 1024" "(Suc n + 1023) div 1024 = Suc ((n + 1023) div 1024)"
    by simp_all
qed

lemma pages_floor: "n mod 1024 \<noteq> (0 :: nat) \<Longrightarrow> n div 1024 * 1024 < n"
  using div_mult_mod_eq [of n 1024] by linarith

lemma u32_of_unat_nat: "(of_nat (unat w) :: u32) = w"
  by simp

context frame_source
begin

abbreviation vm_ok :: "'s vmm \<Rightarrow> bool" where "vm_ok \<equiv> dir_ok held inv"

lemma get_table_present:
  "present s (pdi v) \<Longrightarrow> get_table_of alloc v fl s = (page_base (page_dir s (pdi v)), s)"
  by (simp add: get_table_of_def present_def)

lemma get_table_none:
  "vm_ok s \<Longrightarrow> \<not> present s (pdi v) \<Longrightarrow> avail (frames s) = 0 \<Longrightarrow> get_table_of alloc v fl s = (0, s)"
  by (simp add: get_table_of_def present_def dir_ok_def alloc_none)

lemma get_table_new:
  assumes ok: "vm_ok s" and np: "\<not> present s (pdi v)" and av: "0 < avail (frames s)" and fl: "fl < 4096"
  defines "s' \<equiv> snd (get_table_of alloc v fl s)"
  shows "fst (get_table_of alloc v fl s) = page_base (page_dir s' (pdi v))"
    and "present s' (pdi v)" and "vm_ok s'" and "avail (frames s') = avail (frames s) - 1"
    and "\<And>d. d \<noteq> pdi v \<Longrightarrow> present s' d = present s d"
    and "\<And>w. translate s' w = translate s w"
proof -
  obtain p fr where al: "alloc (frames s) = (p, fr)" by (cases "alloc (frames s)")
  have inv: "inv (frames s)" using ok by (simp add: dir_ok_def)
  have p: "p \<noteq> 0" "p \<notin> held (frames s)" "4096 dvd unat p" "held fr = insert p (held (frames s))"
    "inv fr" "avail fr = avail (frames s) - 1"
    using alloc_fresh [OF inv av] alloc_aligned [OF inv] alloc_held [OF inv av] alloc_inv [OF inv]
      alloc_avail [OF inv] by (simp_all add: al)
  have run: "get_table_of alloc v fl s = (p, s\<lparr>frames := fr, tables := (tables s)(p := \<lambda>_. 0),
      page_dir := (page_dir s)(pdi v := p OR fl OR PAGE_PRESENT)\<rparr>)"
    using np p(1) by (simp add: get_table_of_def present_def al)
  have pb: "page_base (p OR fl OR PAGE_PRESENT) = p" by (rule page_base_entry [OF p(3) fl])
  show "fst (get_table_of alloc v fl s) = page_base (page_dir s' (pdi v))"
    "present s' (pdi v)" "avail (frames s') = avail (frames s) - 1"
    by (simp_all add: s'_def run pb present_def p(6))
  show other: "present s' d = present s d" if "d \<noteq> pdi v" for d
    using that by (simp add: s'_def run present_def)
  have held: "page_base (page_dir s d) \<in> held (frames s) \<and> page_base (page_dir s d) \<noteq> 0"
    if "present s d" for d using ok that by (simp add: dir_ok_def)
  have ent: "page_base (page_dir s' d) = (if d = pdi v then p else page_base (page_dir s d))" for d
    by (simp add: s'_def run pb)
  have pr: "present s' d \<longleftrightarrow> d = pdi v \<or> present s d" for d
    using other \<open>present s' (pdi v)\<close> np by (cases "d = pdi v") auto
  have fr': "frames s' = fr" by (simp add: s'_def run)
  show "vm_ok s'"
    unfolding dir_ok_def fr' ent pr
  proof (intro conjI allI impI)
    fix d d'
    assume "d = pdi v \<or> present s d" "d' = pdi v \<or> present s d'"
      "(if d = pdi v then p else page_base (page_dir s d)) =
       (if d' = pdi v then p else page_base (page_dir s d'))"
    then show "d = d'" using held p(2) ok unfolding dir_ok_def by (metis (full_types))
  qed (use held p in \<open>auto split: if_splits\<close>)
  have tab: "tables s' t = (if t = p then (\<lambda>_. 0) else tables s t)" for t
    by (simp add: s'_def run)
  show "translate s' w = translate s w" for w
    using held [of "pdi w"] p(2) np unfolding translate_alt ent pr tab by auto
qed

lemma map_other_pages:
  assumes "vm_ok s" "present s (pdi v) \<or> 0 < avail (frames s)" "fl < 4096"
  shows "translate (vmm_map_of alloc v ph fl s) w =
      (if same_page w v then Some (page_base ph OR (w AND 0xFFF)) else translate s w)" (is ?t)
    and "vm_ok (vmm_map_of alloc v ph fl s)" (is ?i)
    and "present (vmm_map_of alloc v ph fl s) d \<longleftrightarrow> d = pdi v \<or> present s d" (is ?p)
    and "avail (frames (vmm_map_of alloc v ph fl s)) =
      avail (frames s) - (if present s (pdi v) then 0 else 1)" (is ?a)
proof -
  obtain t s1 where g: "get_table_of alloc v fl s = (t, s1)" by (cases "get_table_of alloc v fl s")
  have s1: "t = page_base (page_dir s1 (pdi v))" "present s1 (pdi v)" "vm_ok s1"
    "\<And>w. translate s1 w = translate s w" "\<And>d. present s1 d \<longleftrightarrow> d = pdi v \<or> present s d"
    "avail (frames s1) = avail (frames s) - (if present s (pdi v) then 0 else 1)"
  proof -
    have *: "t = page_base (page_dir s1 (pdi v)) \<and> present s1 (pdi v) \<and> vm_ok s1 \<and>
      (\<forall>w. translate s1 w = translate s w) \<and> (\<forall>d. present s1 d \<longleftrightarrow> d = pdi v \<or> present s d) \<and>
      avail (frames s1) = avail (frames s) - (if present s (pdi v) then 0 else 1)"
    proof (cases "present s (pdi v)")
      case True
      with assms(1) g show ?thesis by (auto simp: get_table_present)
    next
      case False
      with assms have av: "0 < avail (frames s)" by simp
      note n = get_table_new [OF assms(1) False av assms(3), unfolded g fst_conv snd_conv]
      have "present s1 d \<longleftrightarrow> d = pdi v \<or> present s d" for d
        using n(2) n(5) [of d] by (cases "d = pdi v") auto
      with n False show ?thesis by auto
    qed
    show "t = page_base (page_dir s1 (pdi v))" "present s1 (pdi v)" "vm_ok s1"
      "\<And>w. translate s1 w = translate s w" "\<And>d. present s1 d \<longleftrightarrow> d = pdi v \<or> present s d"
      "avail (frames s1) = avail (frames s) - (if present s (pdi v) then 0 else 1)"
      using * by blast+
  qed
  have "t \<noteq> 0" using s1 by (auto simp: dir_ok_def)
  then have run: "vmm_map_of alloc v ph fl s =
      set_pte (page_base (page_dir s1 (pdi v))) (pti v) (page_base ph OR fl OR PAGE_PRESENT) s1"
    using s1(1) by (simp add: vmm_map_of_def g)
  show ?t
    unfolding run translate_set_pte [OF s1(3,2)] using assms(3) by (simp add: page_base_idem s1(4))
  show ?i unfolding run by (rule dir_ok_set_pte [OF s1(3)])
  show ?p ?a using s1(5) [of d] s1(6) by (simp_all add: run present_def set_pte_def)
qed

lemma map_no_memory:
  assumes "vm_ok s" "\<not> present s (pdi v)" "avail (frames s) = 0"
  shows "vmm_map_of alloc v ph fl s = s"
  using get_table_none [OF assms] by (simp add: vmm_map_of_def)

lemma unmap_page:
  assumes "vm_ok s"
  shows "vm_ok (vmm_unmap_of alloc v s) \<and>
    translate (vmm_unmap_of alloc v s) w = (if same_page w v then None else translate s w)"
proof (cases "\<not> present s (pdi v) \<and> avail (frames s) = 0")
  case True
  then have "vmm_unmap_of alloc v s = s"
    using get_table_none [OF assms, of v 0] by (simp add: vmm_unmap_of_def)
  moreover have "translate s w = None" if "same_page w v"
    using True that by (simp add: translate_alt same_page_index)
  ultimately show ?thesis using assms by simp
next
  case False
  obtain t s1 where g: "get_table_of alloc v 0 s = (t, s1)" by (cases "get_table_of alloc v 0 s")
  have s1: "t = page_base (page_dir s1 (pdi v)) \<and> present s1 (pdi v) \<and> vm_ok s1 \<and>
    (\<forall>w. translate s1 w = translate s w)"
  proof (cases "present s (pdi v)")
    case True
    with assms g show ?thesis by (auto simp: get_table_present)
  next
    case np: False
    with False have av: "0 < avail (frames s)" by simp
    have "(0 :: u32) < 4096" by simp
    from get_table_new [OF assms np av this] g show ?thesis by simp
  qed
  then have "t \<noteq> 0" by (auto simp: dir_ok_def)
  then have "vmm_unmap_of alloc v s = set_pte (page_base (page_dir s1 (pdi v))) (pti v) 0 s1"
    using s1 by (simp add: vmm_unmap_of_def g)
  then show ?thesis
    using s1 translate_set_pte [of held inv s1 v 0 w] by (simp add: dir_ok_set_pte)
qed

lemma map_pages_identity:
  assumes "vm_ok s" "\<forall>d. \<not> present s d" "2 \<le> avail (frames s)" "n \<le> 2048"
  defines "s' \<equiv> \<lambda>n. map_pages_of alloc n s"
  shows "vm_ok (s' n) \<and> (\<forall>d. present (s' n) d \<longleftrightarrow> (\<exists>k < n. d = of_nat (k div 1024))) \<and>
    2 \<le> avail (frames (s' n)) + (n + 1023) div 1024 \<and>
    (\<forall>w. translate (s' n) w = (if unat w < n * 4096 then Some w else None))"
  using assms(4)
proof (induction n)
  case 0
  then show ?case using assms by (simp add: translate_alt)
next
  case (Suc n)
  note H = Suc.IH [OF Suc_leD [OF Suc.prems]]
  have IH: "vm_ok (s' n)" "\<And>d. present (s' n) d \<longleftrightarrow> (\<exists>k < n. d = of_nat (k div 1024))"
    "2 \<le> avail (frames (s' n)) + (n + 1023) div 1024"
    "\<And>w. translate (s' n) w = (if unat w < n * 4096 then Some w else None)"
    using H by blast+
  let ?v = "of_nat (n * 4096) :: u32"
  have v: "unat ?v = n * 4096" using Suc.prems by (simp del: of_nat_mult)
  have pv: "pdi ?v = of_nat (n div 1024)"
  proof -
    have "unat (pdi ?v) = n div 1024"
      unfolding pdi_def unat_drop_bit_eq v by (simp add: drop_bit_eq_div)
    then show ?thesis by (metis u32_of_unat_nat)
  qed
  have room: "present (s' n) (pdi ?v) \<or> 0 < avail (frames (s' n))"
  proof (cases "n mod 1024 = 0")
    case True
    then have "(n + 1023) div 1024 = n div 1024" by (rule pages_round)
    moreover have "n div 1024 < 2" using Suc.prems by simp
    ultimately show ?thesis using IH(3) by linarith
  next
    case False
    then have "n div 1024 * 1024 < n" by (rule pages_floor)
    then show ?thesis unfolding IH(2) pv by (intro disjI1 exI [of _ "n div 1024 * 1024"]) simp
  qed
  have fl: "PAGE_WRITE < 4096" by (simp add: PAGE_WRITE_def)
  have step: "s' (Suc n) = vmm_map_of alloc ?v ?v PAGE_WRITE (s' n)"
    by (simp add: s'_def Let_def)
  note M = map_other_pages [OF IH(1) room fl, where ph = "of_nat (n * 4096)", folded step]
  have same: "same_page w ?v \<longleftrightarrow> unat w div 4096 = n" for w
    unfolding same_page_nat v by simp
  have "translate (s' (Suc n)) w = (if unat w < Suc n * 4096 then Some w else None)" for w
  proof (cases "unat w div 4096 = n")
    case True
    then have "same_page w ?v" by (simp only: same)
    then have "page_base ?v = page_base w" using same_page_base by metis
    moreover have "unat w < Suc n * 4096"
      using True div_less_iff_less_mult [of 4096 "unat w" "Suc n"] by simp
    moreover have "translate (s' (Suc n)) w = Some (page_base ?v OR (w AND 0xFFF))"
      using M(1) [of w] \<open>same_page w ?v\<close> by (simp only: if_True)
    ultimately show ?thesis by (simp only: if_True low_or_page)
  next
    case False
    then have "unat w < Suc n * 4096 \<longleftrightarrow> unat w < n * 4096"
      using div_less_iff_less_mult [of 4096 "unat w" "Suc n"] div_less_iff_less_mult [of 4096 "unat w" n]
      by (simp add: less_Suc_eq)
    with False show ?thesis unfolding M(1) same by (simp add: IH(4))
  qed
  moreover have "present (s' (Suc n)) d \<longleftrightarrow> (\<exists>k < Suc n. d = of_nat (k div 1024))" for d
    unfolding M(3) IH(2) pv by (auto simp: less_Suc_eq)
  moreover have "2 \<le> avail (frames (s' (Suc n))) + (Suc n + 1023) div 1024"
  proof (cases "n mod 1024 = 0")
    case True
    then have "(Suc n + 1023) div 1024 = Suc ((n + 1023) div 1024)" by (rule pages_round)
    then show ?thesis using IH(3) room unfolding M(4) by (auto split: if_splits)
  next
    case False
    then have "n div 1024 * 1024 < n" by (rule pages_floor)
    then have "present (s' n) (pdi ?v)"
      unfolding IH(2) pv by (intro exI [of _ "n div 1024 * 1024"]) simp
    moreover have "(n + 1023) div 1024 \<le> (Suc n + 1023) div 1024" by (simp add: div_le_mono)
    ultimately show ?thesis using IH(3) unfolding M(4) by simp
  qed
  ultimately show ?case using M(2) by blast
qed

end

subsection \<open>Properties\<close>

abbreviation vm_ok :: "pmm vmm \<Rightarrow> bool" where "vm_ok \<equiv> dir_ok held_frames pmm_inv"



text \<open>
  with two free frames, \<^verbatim>\<open>vmm_init\<close> turns paging on with exactly the first 8 MB mapped, each
  address to itself.
\<close>

lemma vmm_init_identity:
  assumes "pmm_inv (frames s)" "2 \<le> card (free_set (frames s))"
  shows "vm_ok (vmm_init s) \<and> paging (vmm_init s) \<and>
    (\<forall>w. translate (vmm_init s) w = (if unat w < 0x800000 then Some w else None))"
proof -
  let ?s = "s\<lparr>page_dir := \<lambda>_. 0\<rparr>"
  have ok: "vm_ok ?s" using assms(1) by (simp add: dir_ok_def present_def)
  have np: "\<forall>d. \<not> present ?s d" by (simp add: present_def)
  have av: "2 \<le> card (free_set (frames ?s))" using assms(2) by simp
  note M = frames.map_pages_identity [OF ok np av, of 2048]
  have tr: "translate (s'\<lparr>paging := b\<rparr>) w = translate s' w" for s' :: "pmm vmm" and b w
    by (simp add: translate_def Let_def)
  have dk: "vm_ok (s'\<lparr>paging := b\<rparr>) = vm_ok s'" for s' b
    by (simp add: dir_ok_def present_def)
  show ?thesis
    unfolding vmm_init_def vmm_init_of_def using M by (simp add: tr dk del: map_pages_of.simps)
qed

lemma vmm_init_identity_witness:
  "\<exists>s. translate (vmm_init s) 0x3FFFFF = Some 0x3FFFFF \<and> translate (vmm_init s) 0x800000 = None"
proof -
  let ?s = "\<lparr>page_dir = \<lambda>_. 0, tables = \<lambda>_ _. 0, frames = pmm_init 4096 undefined, paging = True\<rparr>"
  have P: "free_set (pmm_init 4096 undefined) = {512..<1024}" "pmm_ok (pmm_init 4096 undefined)"
    "unat (total_frames (pmm_init 4096 undefined)) = 1024"
    using pmm_init_sets [of 4096] by (simp_all add: PMM_FRAME_SIZE_def)
  then have "0 \<notin> free_set (pmm_init 4096 undefined)" by simp
  then have "pmm_inv (frames ?s)" using P by (simp add: pmm_inv_def free_set_def)
  moreover have "2 \<le> card (free_set (frames ?s))" by (simp add: P(1))
  ultimately show ?thesis using vmm_init_identity [of ?s] by (intro exI [of _ ?s]) auto
qed

end
