(* ===== verification/Pipe.thy ===== *)
theory Pipe
  imports Prelude
begin

text \<open>
  \<^verbatim>\<open>kernel/pipe.c\<close>: the circular buffer of a pipe.  Positions and count stay below or at
  \<^verbatim>\<open>PIPE_BUF_SIZE\<close>, so they are natural numbers; the indices wrap with the code's
  \<^verbatim>\<open>% PIPE_BUF_SIZE\<close>.  \<open>contents\<close> is the byte queue the buffer stands for, and \<open>byte_fifo\<close>
  the contract descriptors and system calls rely on.
\<close>

subsection \<open>The code\<close>

record pipe =
  p_buf :: "u8 list"
  read_pos :: nat
  write_pos :: nat
  p_count :: nat

definition PIPE_BUF_SIZE :: nat where "PIPE_BUF_SIZE = 512"

lemmas pipe_size [simp] = PIPE_BUF_SIZE_def

definition pipe_init :: pipe where
  "pipe_init = \<lparr>p_buf = replicate PIPE_BUF_SIZE 0, read_pos = 0, write_pos = 0, p_count = 0\<rparr>"

text \<open>\<open>pipe_write\<close> takes the bytes at \<^verbatim>\<open>data\<close>, as many as \<^verbatim>\<open>len\<close>; it returns the
  number written.\<close>

fun pipe_write :: "u8 list \<Rightarrow> pipe \<Rightarrow> nat \<times> pipe" where
  "pipe_write [] p = (0, p)"
| "pipe_write (b # bs) p =
     (if p_count p < PIPE_BUF_SIZE then
        (let p = p\<lparr>p_buf := (p_buf p)[write_pos p := b]\<rparr>;
             p = p\<lparr>write_pos := (write_pos p + 1) mod PIPE_BUF_SIZE\<rparr>;
             p = p\<lparr>p_count := p_count p + 1\<rparr>;
             (written, p) = pipe_write bs p
         in (Suc written, p))
      else (0, p))"

text \<open>\<open>pipe_read\<close> returns the bytes stored at \<^verbatim>\<open>out\<close>; their number is the result.\<close>

fun pipe_read :: "nat \<Rightarrow> pipe \<Rightarrow> u8 list \<times> pipe" where
  "pipe_read 0 p = ([], p)"
| "pipe_read (Suc mx) p =
     (if p_count p > 0 then
        (let b = p_buf p ! read_pos p;
             p = p\<lparr>read_pos := (read_pos p + 1) mod PIPE_BUF_SIZE\<rparr>;
             p = p\<lparr>p_count := p_count p - 1\<rparr>;
             (out, p) = pipe_read mx p
         in (b # out, p))
      else ([], p))"

definition pipe_empty :: "pipe \<Rightarrow> bool" where
  "pipe_empty p \<longleftrightarrow> p_count p = 0"

subsection \<open>The contract of a bounded byte queue\<close>

locale byte_fifo =
  fixes wr :: "u8 list \<Rightarrow> 'p \<Rightarrow> nat \<times> 'p"
    and rd :: "nat \<Rightarrow> 'p \<Rightarrow> u8 list \<times> 'p"
    and content :: "'p \<Rightarrow> u8 list"
    and cap :: nat
    and good :: "'p \<Rightarrow> bool"
  assumes wr_count: "good p \<Longrightarrow> fst (wr bs p) = min (length bs) (cap - length (content p))"
    and wr_content: "good p \<Longrightarrow>
      content (snd (wr bs p)) = content p @ take (cap - length (content p)) bs"
    and wr_good: "good p \<Longrightarrow> good (snd (wr bs p))"
    and rd_out: "good p \<Longrightarrow> fst (rd n p) = take n (content p)"
    and rd_content: "good p \<Longrightarrow> content (snd (rd n p)) = drop n (content p)"
    and rd_good: "good p \<Longrightarrow> good (snd (rd n p))"
    and content_cap: "good p \<Longrightarrow> length (content p) \<le> cap"
begin

text \<open>What is read in two steps is what one read of the total would give.\<close>

lemma rd_rd: "good p \<Longrightarrow> fst (rd m p) @ fst (rd n (snd (rd m p))) = fst (rd (m + n) p)"
  by (simp add: rd_out rd_content rd_good take_add)

text \<open>A write that fits, then reads of as many bytes as the queue holds, deliver the old
  contents and then the bytes written.\<close>

lemma wr_rd:
  assumes "good p" "length bs \<le> cap - length (content p)"
  shows "fst (rd (length (content p) + length bs) (snd (wr bs p))) = content p @ bs \<and>
    content (snd (rd (length (content p) + length bs) (snd (wr bs p)))) = []"
  using assms by (simp add: rd_out rd_content wr_content wr_good)

text \<open>Two writes are one write of the concatenation, unless the first was cut short.\<close>

lemma wr_wr:
  assumes "good p" "length (content p) + length xs \<le> cap"
  shows "content (snd (wr ys (snd (wr xs p)))) = content (snd (wr (xs @ ys) p))"
  using assms by (simp add: wr_content wr_good)

end

subsection \<open>The circular buffer is a byte queue\<close>

definition contents :: "pipe \<Rightarrow> u8 list" where
  "contents p = map (\<lambda>i. p_buf p ! ((read_pos p + i) mod 512)) [0..<p_count p]"

definition pipe_ok :: "pipe \<Rightarrow> bool" where
  "pipe_ok p \<longleftrightarrow> length (p_buf p) = 512 \<and> read_pos p < 512 \<and> p_count p \<le> 512 \<and>
     write_pos p = (read_pos p + p_count p) mod 512"

lemma length_contents [simp]: "length (contents p) = p_count p"
  by (simp add: contents_def)

definition push :: "u8 \<Rightarrow> pipe \<Rightarrow> pipe" where
  "push b p = p\<lparr>p_buf := (p_buf p)[write_pos p := b], write_pos := (write_pos p + 1) mod 512,
     p_count := p_count p + 1\<rparr>"

definition pop :: "pipe \<Rightarrow> pipe" where
  "pop p = p\<lparr>read_pos := (read_pos p + 1) mod 512, p_count := p_count p - 1\<rparr>"

lemma pipe_write_Cons:
  "pipe_write (b # bs) p = (if p_count p < 512
     then (Suc (fst (pipe_write bs (push b p))), snd (pipe_write bs (push b p))) else (0, p))"
  by (simp add: push_def Let_def case_prod_beta)

lemma pipe_read_Suc:
  "pipe_read (Suc n) p = (if p_count p > 0
     then (p_buf p ! read_pos p # fst (pipe_read n (pop p)), snd (pipe_read n (pop p))) else ([], p))"
  by (simp add: pop_def Let_def case_prod_beta)

lemma mod_shift_neq: "i < n \<Longrightarrow> n < 512 \<Longrightarrow> (r + i) mod 512 \<noteq> (r + n) mod (512 :: nat)"
proof
  assume a: "i < n" "n < 512" "(r + i) mod 512 = (r + n) mod 512"
  then have "512 dvd (r + n) - (r + i)" by (intro mod_eq_dvd_iff_nat [THEN iffD1]) auto
  then have "512 dvd n - i" by simp
  with a(1,2) show False by (auto dest: dvd_imp_le)
qed

lemma push_ok:
  assumes "pipe_ok p" "p_count p < 512"
  shows "pipe_ok (push b p)" "contents (push b p) = contents p @ [b]"
proof -
  show "pipe_ok (push b p)" using assms by (auto simp: pipe_ok_def push_def mod_simps)
  have w: "write_pos p < length (p_buf p)" using assms by (simp add: pipe_ok_def)
  show "contents (push b p) = contents p @ [b]"
  proof (rule nth_equalityI)
    fix i assume "i < length (contents (push b p))"
    then have "i < Suc (p_count p)" by (simp add: push_def)
    then show "contents (push b p) ! i = (contents p @ [b]) ! i"
      using assms w mod_shift_neq [of i "p_count p" "read_pos p"]
      by (cases "i = p_count p") (auto simp: contents_def push_def nth_append pipe_ok_def
          nth_list_update simp del: upt_Suc)
  qed (simp add: push_def)
qed

lemma pop_ok:
  assumes "pipe_ok p" "0 < p_count p"
  shows "pipe_ok (pop p)" "contents p = p_buf p ! read_pos p # contents (pop p)"
proof -
  obtain c where "p_count p = Suc c" using assms(2) by (cases "p_count p") auto
  moreover have "(Suc r mod 512 + c) mod 512 = Suc (r + c) mod 512" for r
    by (simp add: mod_add_left_eq)
  ultimately show "pipe_ok (pop p)" using assms by (auto simp: pipe_ok_def pop_def)
  show "contents p = p_buf p ! read_pos p # contents (pop p)"
    using assms
    by (intro nth_equalityI)
       (auto simp: contents_def pop_def pipe_ok_def nth_Cons mod_simps split: nat.split)
qed

lemma pipe_write_queue:
  "pipe_ok p \<Longrightarrow> pipe_ok (snd (pipe_write bs p)) \<and>
   fst (pipe_write bs p) = min (length bs) (512 - p_count p) \<and>
   contents (snd (pipe_write bs p)) = contents p @ take (512 - p_count p) bs"
proof (induction bs arbitrary: p)
  case (Cons b bs)
  show ?case
  proof (cases "p_count p < 512")
    case True
    have "p_count (push b p) = Suc (p_count p)" by (simp add: push_def)
    with Cons.IH [OF push_ok(1) [OF Cons.prems True]] push_ok(2) [OF Cons.prems True, of b] True
    show ?thesis by (auto simp: pipe_write_Cons take_Cons' simp del: pipe_write.simps)
  next
    case False
    with Cons.prems show ?thesis by (simp add: pipe_write_Cons del: pipe_write.simps)
  qed
qed simp

lemma pipe_read_queue:
  "pipe_ok p \<Longrightarrow> pipe_ok (snd (pipe_read n p)) \<and> fst (pipe_read n p) = take n (contents p) \<and>
   contents (snd (pipe_read n p)) = drop n (contents p)"
proof (induction n arbitrary: p)
  case (Suc n)
  show ?case
  proof (cases "p_count p > 0")
    case True
    with Suc.IH [OF pop_ok(1) [OF Suc.prems True]] pop_ok(2) [OF Suc.prems True]
    show ?thesis by (simp add: pipe_read_Suc del: pipe_read.simps)
  next
    case False
    then have "contents p = []" by (simp add: contents_def)
    with False Suc.prems show ?thesis by (simp add: pipe_read_Suc del: pipe_read.simps)
  qed
qed simp

lemma pipe_ok_cap: "pipe_ok p \<Longrightarrow> p_count p \<le> 512"
  by (simp add: pipe_ok_def)

lemma pipe_init_ok [kinv]: "pipe_ok pipe_init" "contents pipe_init = []"
  by (simp_all add: pipe_ok_def pipe_init_def contents_def)

interpretation pipe: byte_fifo pipe_write pipe_read contents 512 pipe_ok
  by unfold_locales (simp_all add: pipe_write_queue pipe_read_queue pipe_ok_cap)

subsection \<open>Properties\<close>



end
