(* ===== verification/Ramfs.thy ===== *)
theory Ramfs
  imports Heap
begin

text \<open>
  \<^verbatim>\<open>fs/ramfs.c\<close> and \<^verbatim>\<open>fs/vfs.c\<close>: nodes and their data blocks are objects at the addresses
  \<^verbatim>\<open>kmalloc\<close> returned.  Every node carries the ramfs functions, so the dispatch of the VFS
  goes to them.  A copy that would leave the file buffer is the value \<open>None\<close>.  The
  operations that allocate take the allocator as an argument; the interface \<open>allocator\<close> says
  what they rely on and \<open>heap_alloc\<close> (\<^verbatim>\<open>kmalloc\<close>) provides it.
\<close>

unbundle bit_operations_syntax

subsection \<open>State\<close>

definition VFS_NAME_MAX :: nat where "VFS_NAME_MAX = 64"
definition VFS_FILE :: u32 where "VFS_FILE = 1"
definition VFS_DIR :: u32 where "VFS_DIR = 2"
definition MAX_CHILDREN :: nat where "MAX_CHILDREN = 32"
definition RAMFS_MAX_FILESIZE :: u32 where "RAMFS_MAX_FILESIZE = 4096"

lemmas vfs_limits [simp] = VFS_NAME_MAX_def MAX_CHILDREN_def

record vfs_node =
  n_name :: "u8 list"
  n_flags :: u32
  n_length :: u32
  n_inode :: u32 \<comment> \<open>address of the data block\<close>
  n_parent :: u32

record ramfs_data =
  d_buf :: "u8 list option" \<comment> \<open>\<open>None\<close> is \<^verbatim>\<open>NULL\<close>\<close>
  d_capacity :: u32
  d_children :: "u32 list" \<comment> \<open>the first \<^verbatim>\<open>child_count\<close> entries\<close>

record 'h fs =
  fs_nodes :: "u32 \<Rightarrow> vfs_node option"
  fs_datas :: "u32 \<Rightarrow> ramfs_data option"
  fs_heap :: 'h
  fs_root :: u32
  next_inode :: u32

definition node_data :: "'h fs \<Rightarrow> u32 \<Rightarrow> ramfs_data option" where
  "node_data s node =
     (case fs_nodes s node of Some n \<Rightarrow> (if n_inode n = 0 then None else fs_datas s (n_inode n)) | None \<Rightarrow> None)"

subsection \<open>Reading and writing\<close>

definition ramfs_read :: "'h fs \<Rightarrow> u32 \<Rightarrow> u32 \<Rightarrow> u32 \<Rightarrow> u8 list option" where
  "ramfs_read s node offset sz =
     (case node_data s node of
        None \<Rightarrow> Some []
      | Some d \<Rightarrow>
        (case d_buf d of
           None \<Rightarrow> Some []
         | Some buf \<Rightarrow>
           (let len = n_length (the (fs_nodes s node))
            in if offset \<ge> d_capacity d then Some []
               else if offset \<ge> len then Some []
               else (let sz = (if offset + sz > len then len - offset else sz)
                     in if unat offset + unat sz > length buf then None
                        else Some (take (unat sz) (drop (unat offset) buf))))))"

text \<open>The bytes at \<^verbatim>\<open>buf\<close> are the list \<open>bs\<close>, of length \<^verbatim>\<open>size\<close>.\<close>

definition ramfs_write :: "'h fs \<Rightarrow> u32 \<Rightarrow> u32 \<Rightarrow> u8 list \<Rightarrow> (u32 \<times> 'h fs) option" where
  "ramfs_write s node offset bs =
     (case node_data s node of
        None \<Rightarrow> Some (0, s)
      | Some d \<Rightarrow>
        (case d_buf d of
           None \<Rightarrow> Some (0, s)
         | Some buf \<Rightarrow>
           (let n = the (fs_nodes s node); sz = of_nat (length bs);
                sz = (if offset + sz > d_capacity d then d_capacity d - offset else sz)
            in if unat offset + unat sz > length buf then None
               else (let d = d\<lparr>d_buf := Some (overlay buf (unat offset) (take (unat sz) bs))\<rparr>;
                         s = s\<lparr>fs_datas := (fs_datas s)(n_inode n \<mapsto> d)\<rparr>;
                         s = (if offset + sz > n_length n
                              then s\<lparr>fs_nodes := (fs_nodes s)(node \<mapsto> n\<lparr>n_length := offset + sz\<rparr>)\<rparr>
                              else s)
                     in Some (sz, s)))))"

definition vfs_read :: "'h fs \<Rightarrow> u32 \<Rightarrow> u32 \<Rightarrow> u32 \<Rightarrow> u8 list option" where
  "vfs_read s node offset sz = (if node \<noteq> 0 then ramfs_read s node offset sz else Some [])"

definition vfs_write :: "'h fs \<Rightarrow> u32 \<Rightarrow> u32 \<Rightarrow> u8 list \<Rightarrow> (u32 \<times> 'h fs) option" where
  "vfs_write s node offset bs = (if node \<noteq> 0 then ramfs_write s node offset bs else Some (0, s))"

subsection \<open>Directories and paths\<close>

definition node_name :: "'h fs \<Rightarrow> u32 \<Rightarrow> cstr" where
  "node_name s p = cstr_of (n_name (the (fs_nodes s p)))"

definition ramfs_finddir :: "'h fs \<Rightarrow> u32 \<Rightarrow> cstr \<Rightarrow> u32" where
  "ramfs_finddir s dir name =
     (case node_data s dir of
        None \<Rightarrow> 0
      | Some d \<Rightarrow>
        (case find_slot (\<lambda>c. strcmp_bytes (node_name s c) name = 0) (d_children d) of
           Some i \<Rightarrow> d_children d ! i
         | None \<Rightarrow> 0))"

definition vfs_finddir :: "'h fs \<Rightarrow> u32 \<Rightarrow> cstr \<Rightarrow> u32" where
  "vfs_finddir s dir name = (if dir \<noteq> 0 then ramfs_finddir s dir name else 0)"

abbreviation slash :: u8 where "slash \<equiv> 47"

definition path_part :: "cstr \<Rightarrow> cstr" where
  "path_part path = take (VFS_NAME_MAX - 1) (takeWhile (\<lambda>c. c \<noteq> slash) path)"

definition path_rest :: "cstr \<Rightarrow> cstr" where
  "path_rest path =
     (let rest = drop (length (path_part path)) path
      in if rest \<noteq> [] \<and> hd rest = slash then tl rest else rest)"

lemma path_rest_shorter: "path \<noteq> [] \<Longrightarrow> length (path_rest path) < length path"
  by (cases path) (auto simp: path_rest_def path_part_def Let_def)

function resolve_loop :: "'h fs \<Rightarrow> cstr \<Rightarrow> u32 \<Rightarrow> u32" where
  "resolve_loop s path cur =
     (if path \<noteq> [] \<and> cur \<noteq> 0
      then resolve_loop s (path_rest path) (vfs_finddir s cur (path_part path))
      else cur)"
  by auto
termination by (relation "measure (\<lambda>(s, path, cur). length path)") (auto simp: path_rest_shorter)

declare resolve_loop.simps [simp del]

definition vfs_resolve :: "'h fs \<Rightarrow> cstr \<Rightarrow> u32" where
  "vfs_resolve s path =
     (if path = [] \<or> hd path \<noteq> slash then 0
      else if fs_root s = 0 then 0
      else if tl path = [] then fs_root s
      else resolve_loop s (tl path) (fs_root s))"

definition vfs_set_root :: "u32 \<Rightarrow> 'h fs \<Rightarrow> 'h fs" where
  "vfs_set_root node s = s\<lparr>fs_root := node\<rparr>"

definition vfs_init :: "'h fs \<Rightarrow> 'h fs" where
  "vfs_init s = s\<lparr>fs_root := 0\<rparr>"

definition vfs_root :: "'h fs \<Rightarrow> u32" where
  "vfs_root s = fs_root s"

subsection \<open>Creating nodes\<close>

type_synonym 'h alloc = "u32 \<Rightarrow> 'h \<Rightarrow> u32 \<times> 'h"

definition SIZEOF_NODE :: u32 where "SIZEOF_NODE = 92"
definition SIZEOF_DATA :: u32 where "SIZEOF_DATA = 140"

definition make_node_of :: "'h alloc \<Rightarrow> cstr \<Rightarrow> u32 \<Rightarrow> 'h fs \<Rightarrow> u32 \<times> 'h fs" where
  "make_node_of km name flags s =
     (let (node, h) = km SIZEOF_NODE (fs_heap s);
          (data, h) = km SIZEOF_DATA h;
          s = s\<lparr>fs_heap := h\<rparr>
      in if node = 0 \<or> data = 0 then (0, s)
         else
           (let n = \<lparr>n_name = overlay (replicate VFS_NAME_MAX 0) 0 (strncpy_bytes name (VFS_NAME_MAX - 1)),
                     n_flags = flags, n_length = 0, n_inode = data, n_parent = 0\<rparr>;
                d = \<lparr>d_buf = None, d_capacity = 0, d_children = []\<rparr>;
                (d, s) =
                  (if flags AND VFS_FILE \<noteq> 0 then
                     (let (b, h) = km RAMFS_MAX_FILESIZE (fs_heap s)
                      in (if b = 0 then d
                          else d\<lparr>d_buf := Some (replicate (unat RAMFS_MAX_FILESIZE) 0),
                                 d_capacity := RAMFS_MAX_FILESIZE\<rparr>,
                          s\<lparr>fs_heap := h\<rparr>))
                   else (d, s))
            in (node, s\<lparr>fs_nodes := (fs_nodes s)(node \<mapsto> n), fs_datas := (fs_datas s)(data \<mapsto> d),
                       next_inode := next_inode s + 1\<rparr>)))"

definition add_child :: "u32 \<Rightarrow> u32 \<Rightarrow> 'h fs \<Rightarrow> 'h fs" where
  "add_child parent child s =
     (case node_data s parent of
        None \<Rightarrow> s
      | Some d \<Rightarrow>
        (if length (d_children d) \<ge> MAX_CHILDREN then s
         else s\<lparr>fs_nodes := (fs_nodes s)(child \<mapsto> (the (fs_nodes s child))\<lparr>n_parent := parent\<rparr>),
                fs_datas := (fs_datas s)(n_inode (the (fs_nodes s parent)) \<mapsto>
                  d\<lparr>d_children := d_children d @ [child]\<rparr>)\<rparr>))"

definition ramfs_mkdir_of :: "'h alloc \<Rightarrow> u32 \<Rightarrow> cstr \<Rightarrow> 'h fs \<Rightarrow> u32 \<times> 'h fs" where
  "ramfs_mkdir_of km parent name s =
     (let (node, s) = make_node_of km name VFS_DIR s
      in (node, if node \<noteq> 0 \<and> parent \<noteq> 0 then add_child parent node s else s))"

definition ramfs_mkfile_of :: "'h alloc \<Rightarrow> u32 \<Rightarrow> cstr \<Rightarrow> 'h fs \<Rightarrow> u32 \<times> 'h fs" where
  "ramfs_mkfile_of km parent name s =
     (let (node, s) = make_node_of km name VFS_FILE s
      in (node, if node \<noteq> 0 \<and> parent \<noteq> 0 then add_child parent node s else s))"

definition motd_text :: cstr where
  "motd_text = lit ''welcome to baSic_ v1.0'' @ [10] @ lit ''by Shahriar Dhrubo'' @ [10]"

definition ramfs_init_of :: "'h alloc \<Rightarrow> 'h fs \<Rightarrow> (u32 \<times> 'h fs) option" where
  "ramfs_init_of km s =
     (let (root, s) = make_node_of km [slash] VFS_DIR s
      in if root = 0 then Some (0, s)
         else
           (let (etc, s) = ramfs_mkdir_of km root (lit ''etc'') s;
                (dev, s) = ramfs_mkdir_of km root (lit ''dev'') s;
                (motd, s) = ramfs_mkfile_of km etc (lit ''motd'') s
            in if motd \<noteq> 0
               then map_option (\<lambda>(k, s). (root, s)) (vfs_write s motd 0 motd_text)
               else Some (root, s)))"

subsection \<open>The allocator the file system uses\<close>

definition heap_alloc :: "mem alloc" where
  "heap_alloc n m = the (kmalloc HEAP_START n m)"

definition make_node :: "cstr \<Rightarrow> u32 \<Rightarrow> mem fs \<Rightarrow> u32 \<times> mem fs" where
  "make_node = make_node_of heap_alloc"
definition ramfs_mkdir :: "u32 \<Rightarrow> cstr \<Rightarrow> mem fs \<Rightarrow> u32 \<times> mem fs" where
  "ramfs_mkdir = ramfs_mkdir_of heap_alloc"
definition ramfs_mkfile :: "u32 \<Rightarrow> cstr \<Rightarrow> mem fs \<Rightarrow> u32 \<times> mem fs" where
  "ramfs_mkfile = ramfs_mkfile_of heap_alloc"
definition ramfs_init :: "mem fs \<Rightarrow> (u32 \<times> mem fs) option" where
  "ramfs_init = ramfs_init_of heap_alloc"

subsection \<open>Well-formed file systems\<close>

definition node_ok :: "'h fs \<Rightarrow> u32 \<Rightarrow> bool" where
  "node_ok s p \<longleftrightarrow> p \<noteq> 0 \<and> (\<exists>n. fs_nodes s p = Some n \<and> n_inode n \<noteq> 0 \<and>
     fs_datas s (n_inode n) \<noteq> None \<and> length (n_name n) = 64)"

definition data_ok :: "'h fs \<Rightarrow> ramfs_data \<Rightarrow> bool" where
  "data_ok s d \<longleftrightarrow> (\<forall>c \<in> set (d_children d). fs_nodes s c \<noteq> None) \<and> length (d_children d) \<le> 32 \<and>
     (case d_buf d of None \<Rightarrow> True | Some b \<Rightarrow> length b = unat (d_capacity d))"

definition fs_ok :: "('h \<Rightarrow> u32 set) \<Rightarrow> 'h fs \<Rightarrow> bool" where
  "fs_ok own s \<longleftrightarrow>
     (\<forall>p n. fs_nodes s p = Some n \<longrightarrow> node_ok s p \<and> p \<in> own (fs_heap s)) \<and>
     (\<forall>p n q m. fs_nodes s p = Some n \<longrightarrow> fs_nodes s q = Some m \<longrightarrow> n_inode n = n_inode m \<longrightarrow> p = q) \<and>
     (\<forall>a d. fs_datas s a = Some d \<longrightarrow> data_ok s d \<and> a \<in> own (fs_heap s))"

lemma node_data_Some:
  "node_data s p = Some d \<longleftrightarrow>
     (\<exists>n. fs_nodes s p = Some n \<and> n_inode n \<noteq> 0 \<and> fs_datas s (n_inode n) = Some d)"
  by (auto simp: node_data_def split: option.splits)

lemma node_data_heap [simp]: "node_data (s\<lparr>fs_heap := h\<rparr>) p = node_data s p"
  by (simp add: node_data_def split: option.splits)

lemma fs_okD:
  assumes "fs_ok own s"
  shows "fs_nodes s p = Some n \<Longrightarrow> p \<noteq> 0" "fs_nodes s p = Some n \<Longrightarrow> n_inode n \<noteq> 0"
    "fs_nodes s p = Some n \<Longrightarrow> p \<in> own (fs_heap s)"
    "fs_nodes s p = Some n \<Longrightarrow> \<exists>d. fs_datas s (n_inode n) = Some d"
    "fs_nodes s p = Some n \<Longrightarrow> length (n_name n) = 64"
    "fs_nodes s p = Some n \<Longrightarrow> fs_nodes s q = Some m \<Longrightarrow> n_inode n = n_inode m \<Longrightarrow> p = q"
    "fs_datas s a = Some d \<Longrightarrow> data_ok s d" "fs_datas s a = Some d \<Longrightarrow> a \<in> own (fs_heap s)"
  using assms unfolding fs_ok_def node_ok_def by fastforce+

lemma node_data_ex: "fs_ok own s \<Longrightarrow> fs_nodes s p = Some n \<Longrightarrow> \<exists>d. node_data s p = Some d"
  using fs_okD(2,4) [of own s p n] by (auto simp: node_data_Some)

subsection \<open>Files\<close>

lemma ramfs_write_in_range:
  assumes ok: "fs_ok own s" and nd: "fs_nodes s p = Some n" "fs_datas s (n_inode n) = Some d"
    "d_buf d = Some buf"
    and rg: "unat pos \<le> unat (d_capacity d)" "unat pos + length bs < 4294967296"
  defines "k \<equiv> min (length bs) (unat (d_capacity d) - unat pos)"
  shows "ramfs_write s p pos bs = Some (of_nat k,
    s\<lparr>fs_datas := (fs_datas s)(n_inode n \<mapsto> d\<lparr>d_buf := Some (overlay buf (unat pos) (take k bs))\<rparr>),
      fs_nodes := (fs_nodes s)(p \<mapsto> n\<lparr>n_length := of_nat (max (unat (n_length n)) (unat pos + k))\<rparr>)\<rparr>)"
proof -
  have len: "length buf = unat (d_capacity d)"
    using fs_okD(7) [OF ok nd(2)] nd(3) by (simp add: data_ok_def)
  have nz: "n_inode n \<noteq> 0" by (rule fs_okD(2) [OF ok nd(1)])
  have ndat: "node_data s p = Some d" using nd nz by (simp add: node_data_def)
  have u: "unat (pos + of_nat (length bs)) = unat pos + length bs"
    using rg(2) by (simp add: unat32_add)
  have gt: "d_capacity d < pos + of_nat (length bs) \<longleftrightarrow> unat (d_capacity d) < unat pos + length bs"
    by (simp add: word_less_nat_alt u)
  define sz where "sz = (if d_capacity d < pos + of_nat (length bs) then d_capacity d - pos
    else of_nat (length bs) :: u32)"
  have "unat (d_capacity d - pos) = unat (d_capacity d) - unat pos"
    using rg(1) by (simp add: unat_sub word_le_nat_alt)
  then have sz: "unat sz = k" "sz = of_nat k"
    using rg u gt by (auto simp: sz_def k_def)
  have fit: "unat pos + k \<le> length buf" using rg len by (simp add: k_def)
  have "unat pos + k < 4294967296" using fit len unat32_lt [of "d_capacity d"] by linarith
  then have us: "unat (pos + sz) = unat pos + k" by (simp add: unat32_add sz(1))
  then have gl: "n_length n < pos + sz \<longleftrightarrow> unat (n_length n) < unat pos + k"
    by (simp add: word_less_nat_alt)
  have new: "(if n_length n < pos + sz then n\<lparr>n_length := pos + sz\<rparr> else n) =
      n\<lparr>n_length := of_nat (max (unat (n_length n)) (unat pos + k))\<rparr>"
  proof (cases "unat (n_length n) < unat pos + k")
    case True
    then have "of_nat (max (unat (n_length n)) (unat pos + k)) = pos + sz" by (simp add: sz(2))
    with True show ?thesis unfolding gl by simp
  next
    case False
    then have "of_nat (max (unat (n_length n)) (unat pos + k)) = n_length n" by (simp add: max_def)
    with False show ?thesis unfolding gl by simp
  qed
  show ?thesis
    using fit nd(1,3) new
    by (auto simp: ramfs_write_def ndat Let_def sz_def [symmetric] sz(1) split: if_splits)
       (auto simp: sz(2) map_upd_triv intro!: fs.equality)
qed

lemma ramfs_write_faults:
  assumes ok: "fs_ok own s" and nd: "fs_nodes s p = Some n" "fs_datas s (n_inode n) = Some d"
    "d_buf d = Some buf"
    and rg: "unat (d_capacity d) < unat pos" "unat pos + length bs < 4294967296"
  shows "ramfs_write s p pos bs = None"
proof -
  have len: "length buf = unat (d_capacity d)"
    using fs_okD(7) [OF ok nd(2)] nd(3) by (simp add: data_ok_def)
  have ndat: "node_data s p = Some d" using nd fs_okD(2) [OF ok nd(1)] by (simp add: node_data_def)
  have "unat (pos + of_nat (length bs)) = unat pos + length bs"
    using rg(2) by (simp add: unat32_add)
  then have gt: "d_capacity d < pos + of_nat (length bs)" using rg by (simp add: word_less_nat_alt)
  have "pos \<noteq> d_capacity d" using rg(1) by auto
  then have "unat (d_capacity d - pos) + unat (pos - d_capacity d) = 4294967296"
    by (rule off_sum)
  moreover have "unat (pos - d_capacity d) = unat pos - unat (d_capacity d)"
    using rg(1) by (simp add: unat_sub word_le_nat_alt)
  ultimately have "length buf < unat pos + unat (d_capacity d - pos)" using len rg(1) by linarith
  then show ?thesis using nd(1,3) gt by (simp add: ramfs_write_def ndat Let_def)
qed

lemma ramfs_read_in_range:
  assumes ok: "fs_ok own s" and nd: "fs_nodes s p = Some n" "fs_datas s (n_inode n) = Some d"
    "d_buf d = Some buf"
    and rg: "unat (n_length n) \<le> unat (d_capacity d)" "unat pos + unat sz < 4294967296"
  shows "ramfs_read s p pos sz = Some (take (unat sz) (drop (unat pos) (take (unat (n_length n)) buf)))"
proof -
  have len: "length buf = unat (d_capacity d)"
    using fs_okD(7) [OF ok nd(2)] nd(3) by (simp add: data_ok_def)
  have ndat: "node_data s p = Some d" using nd fs_okD(2) [OF ok nd(1)] by (simp add: node_data_def)
  have u: "unat (pos + sz) = unat pos + unat sz" using rg(2) by (simp add: unat32_add)
  show ?thesis
  proof (cases "unat pos < unat (n_length n)")
    case False
    then show ?thesis using nd(1,3) by (simp add: ramfs_read_def ndat Let_def word_le_nat_alt)
  next
    case True
    then have "unat (n_length n - pos) = unat (n_length n) - unat pos"
      by (simp add: unat_sub word_le_nat_alt)
    with True nd(1,3) rg(1) len show ?thesis
      by (auto simp: ramfs_read_def ndat Let_def word_le_nat_alt word_less_nat_alt u not_less
          drop_take min_def)
  qed
qed

text \<open>The bytes of a file, as \<open>vfs_read\<close> sees them.\<close>

definition file_bytes :: "'h fs \<Rightarrow> u32 \<Rightarrow> u8 list" where
  "file_bytes s p = (case node_data s p of
     Some d \<Rightarrow> (case d_buf d of Some b \<Rightarrow> take (unat (n_length (the (fs_nodes s p)))) b | None \<Rightarrow> [])
   | None \<Rightarrow> [])"

definition is_file :: "'h fs \<Rightarrow> u32 \<Rightarrow> bool" where
  "is_file s p \<longleftrightarrow> (\<exists>n d b. fs_nodes s p = Some n \<and> fs_datas s (n_inode n) = Some d \<and>
     d_buf d = Some b \<and> unat (n_length n) \<le> unat (d_capacity d))"

definition file_cap :: "'h fs \<Rightarrow> u32 \<Rightarrow> nat" where
  "file_cap s p = unat (d_capacity (the (node_data s p)))"

lemma fs_ok_write:
  assumes ok: "fs_ok own s" and nd: "fs_nodes s p = Some n" "fs_datas s (n_inode n) = Some d"
    "d_buf d = Some b" "length b' = length b"
  shows "fs_ok own (s\<lparr>fs_datas := (fs_datas s)(n_inode n \<mapsto> d\<lparr>d_buf := Some b'\<rparr>),
    fs_nodes := (fs_nodes s)(p \<mapsto> n\<lparr>n_length := l\<rparr>)\<rparr>)" (is "fs_ok own ?s")
proof -
  have N: "fs_nodes ?s q = Some m \<longleftrightarrow>
      (if q = p then m = n\<lparr>n_length := l\<rparr> else fs_nodes s q = Some m)" for q m by auto
  have D: "data_ok ?s e" if "data_ok s e" for e
    using that by (auto simp: data_ok_def split: option.splits)
  have "data_ok s d" by (rule fs_okD(7) [OF ok nd(2)])
  then have "data_ok s (d\<lparr>d_buf := Some b'\<rparr>)" using nd(3,4) by (simp add: data_ok_def)
  note D' = D [OF this]
  show ?thesis
    unfolding fs_ok_def
  proof (intro conjI allI impI)
    fix q m assume "fs_nodes ?s q = Some m"
    then show "node_ok ?s q" "q \<in> own (fs_heap ?s)"
      using fs_okD(1-5) [OF ok, of q] nd(1) by (cases "q = p"; force simp: node_ok_def)+
  next
    fix q m r m' assume "fs_nodes ?s q = Some m" "fs_nodes ?s r = Some m'" "n_inode m = n_inode m'"
    then show "q = r"
      unfolding N using fs_okD(6) [OF ok] nd(1) by (auto split: if_splits)
  next
    fix a e assume "fs_datas ?s a = Some e"
    then show "data_ok ?s e" "a \<in> own (fs_heap ?s)"
      using D' D fs_okD(7,8) [OF ok] nd(2) by (auto split: if_splits)
  qed
qed

lemma ramfs_write_result:
  assumes ok: "fs_ok own s" and f: "is_file s p"
    and rg: "unat pos \<le> file_cap s p" "unat pos + length bs < 4294967296"
  defines "k \<equiv> min (length bs) (file_cap s p - unat pos)"
  shows "\<exists>s'. ramfs_write s p pos bs = Some (of_nat k, s') \<and> fs_ok own s' \<and> is_file s' p \<and>
    file_cap s' p = file_cap s p \<and>
    length (file_bytes s' p) = max (length (file_bytes s p)) (unat pos + k) \<and>
    take k (drop (unat pos) (file_bytes s' p)) = take k bs \<and>
    (\<forall>i < length (file_bytes s p). i < unat pos \<or> unat pos + k \<le> i \<longrightarrow>
       file_bytes s' p ! i = file_bytes s p ! i) \<and>
    (\<forall>q. q \<noteq> p \<longrightarrow> file_bytes s' q = file_bytes s q)"
proof -
  obtain n d b where nd: "fs_nodes s p = Some n" "fs_datas s (n_inode n) = Some d" "d_buf d = Some b"
    and le: "unat (n_length n) \<le> unat (d_capacity d)"
    using f unfolding is_file_def by blast
  have nz: "n_inode n \<noteq> 0" by (rule fs_okD(2) [OF ok nd(1)])
  have dat: "node_data s p = Some d" using nd nz by (simp add: node_data_def)
  have cap: "file_cap s p = unat (d_capacity d)" by (simp add: file_cap_def dat)
  have len: "length b = unat (d_capacity d)"
    using fs_okD(7) [OF ok nd(2)] nd(3) by (simp add: data_ok_def)
  let ?b = "overlay b (unat pos) (take k bs)"
  let ?l = "of_nat (max (unat (n_length n)) (unat pos + k)) :: u32"
  define s' where "s' = s\<lparr>fs_datas := (fs_datas s)(n_inode n \<mapsto> d\<lparr>d_buf := Some ?b\<rparr>),
    fs_nodes := (fs_nodes s)(p \<mapsto> n\<lparr>n_length := ?l\<rparr>)\<rparr>"
  have run: "ramfs_write s p pos bs = Some (of_nat k, s')"
    using ramfs_write_in_range [OF ok nd, of pos bs] rg unfolding s'_def k_def cap by simp
  have kk: "unat pos + k \<le> length b" "length (take k bs) = k" using rg(1) cap len by (auto simp: k_def)
  have lb: "length ?b = length b" using kk by (simp add: length_overlay)
  have ok': "fs_ok own s'" unfolding s'_def by (rule fs_ok_write [OF ok nd lb])
  have ul: "unat ?l = max (unat (n_length n)) (unat pos + k)"
    using kk(1) len unat32_lt [of "d_capacity d"] unat32_lt [of "n_length n"]
    by (intro unat32_of_nat_small) linarith
  have dat': "node_data s' p = Some (d\<lparr>d_buf := Some ?b\<rparr>)"
    using nz by (simp add: node_data_def s'_def)
  have fb': "file_bytes s' p = take (max (unat (n_length n)) (unat pos + k)) ?b"
  proof -
    have "fs_nodes s' p = Some (n\<lparr>n_length := ?l\<rparr>)" by (simp add: s'_def)
    then show ?thesis by (simp add: file_bytes_def dat' ul del: of_nat_max)
  qed
  have fb: "file_bytes s p = take (unat (n_length n)) b"
    by (simp add: file_bytes_def dat nd)
  have oth: "file_bytes s' q = file_bytes s q" if "q \<noteq> p" for q
  proof -
    have N: "fs_nodes s' q = fs_nodes s q" using that by (simp add: s'_def)
    have "n_inode m \<noteq> n_inode n" if "fs_nodes s q = Some m" for m
      using fs_okD(6) [OF ok that nd(1)] \<open>q \<noteq> p\<close> by auto
    then have "node_data s' q = node_data s q"
      unfolding node_data_def N by (auto simp: s'_def split: option.splits)
    then show ?thesis by (simp only: file_bytes_def N)
  qed
  have f': "is_file s' p"
    using kk(1) len le by (simp add: is_file_def s'_def ul del: of_nat_max)
  have "take k (drop (unat pos) ?b) = take k bs"
    using overlay_slice [of "unat pos" b "take k bs"] kk by simp
  have "take k (drop (unat pos) (file_bytes s' p)) = take k bs"
  proof -
    have "min k (max (unat (n_length n)) (unat pos + k) - unat pos) = k" by simp
    with \<open>take k (drop (unat pos) ?b) = take k bs\<close> show ?thesis
      unfolding fb' by (simp only: drop_take take_take)
  qed
  moreover have "file_bytes s' p ! i = file_bytes s p ! i"
    if "i < length (file_bytes s p)" "i < unat pos \<or> unat pos + k \<le> i" for i
    using that kk lb len le unfolding fb' fb by (auto simp: nth_overlay)
  moreover have "length (file_bytes s' p) = max (length (file_bytes s p)) (unat pos + k)"
    unfolding fb' fb using kk lb len le by auto
  ultimately show ?thesis
    using run ok' f' oth by (simp add: file_cap_def dat' dat)
qed

lemma ramfs_read_bytes:
  assumes "fs_ok own s" "is_file s p" "unat pos + unat sz < 4294967296"
  shows "ramfs_read s p pos sz = Some (take (unat sz) (drop (unat pos) (file_bytes s p)))"
proof -
  obtain n d b where nd: "fs_nodes s p = Some n" "fs_datas s (n_inode n) = Some d" "d_buf d = Some b"
    and le: "unat (n_length n) \<le> unat (d_capacity d)"
    using assms(2) unfolding is_file_def by blast
  have "node_data s p = Some d" using nd fs_okD(2) [OF assms(1) nd(1)] by (simp add: node_data_def)
  then show ?thesis
    using ramfs_read_in_range [OF assms(1) nd le assms(3)] nd by (simp add: file_bytes_def)
qed

subsection \<open>The interface of the allocator\<close>

locale allocator =
  fixes km :: "'h alloc"
    and owned :: "'h \<Rightarrow> u32 set"
    and good :: "'h \<Rightarrow> bool"
  assumes km_null: "good h \<Longrightarrow> n \<noteq> 0 \<Longrightarrow> unat n \<le> 4294967288 \<Longrightarrow> fst (km n h) = 0 \<Longrightarrow>
      owned (snd (km n h)) = owned h"
    and km_fresh: "good h \<Longrightarrow> n \<noteq> 0 \<Longrightarrow> unat n \<le> 4294967288 \<Longrightarrow> fst (km n h) \<noteq> 0 \<Longrightarrow>
      fst (km n h) \<notin> owned h \<and> owned (snd (km n h)) = insert (fst (km n h)) (owned h)"
    and km_good: "good h \<Longrightarrow> n \<noteq> 0 \<Longrightarrow> unat n \<le> 4294967288 \<Longrightarrow> good (snd (km n h))"
begin

lemma km_mono: "good h \<Longrightarrow> n \<noteq> 0 \<Longrightarrow> unat n \<le> 4294967288 \<Longrightarrow> owned h \<subseteq> owned (snd (km n h))"
  using km_null [of h n] km_fresh [of h n] by (cases "fst (km n h) = 0") auto

lemma fs_ok_heap:
  "fs_ok owned s \<Longrightarrow> owned (fs_heap s) \<subseteq> owned h \<Longrightarrow> fs_ok owned (s\<lparr>fs_heap := h\<rparr>)"
  by (auto simp: fs_ok_def node_ok_def data_ok_def)

lemma fs_ok_insert:
  assumes ok: "fs_ok owned s" and fr: "p \<noteq> 0" "a \<noteq> 0" "p \<in> owned h" "a \<in> owned h"
    "fs_nodes s p = None" "fs_datas s a = None" "owned (fs_heap s) \<subseteq> owned h"
    and nd: "n_inode n = a" "length (n_name n) = 64" "d_children d = []"
      "case d_buf d of None \<Rightarrow> True | Some b \<Rightarrow> length b = unat (d_capacity d)"
  shows "fs_ok owned (s\<lparr>fs_heap := h, fs_nodes := (fs_nodes s)(p \<mapsto> n),
    fs_datas := (fs_datas s)(a \<mapsto> d), next_inode := i\<rparr>)" (is "fs_ok owned ?s")
proof -
  have D: "data_ok ?s e" if "data_ok s e" for e
    using that by (auto simp: data_ok_def split: option.splits)
  have new: "data_ok ?s d" using nd by (simp add: data_ok_def)
  have ino: "n_inode m \<noteq> a" if "fs_nodes s q = Some m" for q m
    using fs_okD(4) [OF ok that] fr(6) by auto
  show ?thesis
    unfolding fs_ok_def
  proof (intro conjI allI impI)
    fix q m assume "fs_nodes ?s q = Some m"
    then show "node_ok ?s q" "q \<in> owned (fs_heap ?s)"
      using fs_okD(1-5) [OF ok, of q] fr nd by (cases "q = p"; force simp: node_ok_def)+
  next
    fix q m r m' assume "fs_nodes ?s q = Some m" "fs_nodes ?s r = Some m'" "n_inode m = n_inode m'"
    then show "q = r"
      using fs_okD(6) [OF ok] ino nd(1) by (auto split: if_splits)
  next
    fix b e assume "fs_datas ?s b = Some e"
    then show "data_ok ?s e" "b \<in> owned (fs_heap ?s)"
      using new D fs_okD(7,8) [OF ok] fr by (auto split: if_splits)
  qed
qed

lemma make_node_result:
  fixes name :: cstr and fl :: u32
  assumes ok: "fs_ok owned s" and g: "good (fs_heap s)"
  defines "r \<equiv> make_node_of km name fl s"
  shows "fs_ok owned (snd r) \<and> good (fs_heap (snd r)) \<and>
    (\<forall>q. q \<noteq> fst r \<longrightarrow> fs_nodes (snd r) q = fs_nodes s q \<and> node_data (snd r) q = node_data s q) \<and>
    (fst r \<noteq> 0 \<longrightarrow> fs_nodes s (fst r) = None \<and>
       (\<exists>n. fs_nodes (snd r) (fst r) = Some n \<and> n_flags n = fl \<and> n_length n = 0 \<and> n_parent n = 0 \<and>
          n_name n = overlay (replicate 64 0) 0 (strncpy_bytes name 63)) \<and>
       (\<exists>d. node_data (snd r) (fst r) = Some d \<and> d_children d = []))"
proof -
  obtain p h1 where k1: "km SIZEOF_NODE (fs_heap s) = (p, h1)" by (cases "km SIZEOF_NODE (fs_heap s)")
  obtain a h2 where k2: "km SIZEOF_DATA h1 = (a, h2)" by (cases "km SIZEOF_DATA h1")
  obtain b h3 where k3: "km RAMFS_MAX_FILESIZE h2 = (b, h3)" by (cases "km RAMFS_MAX_FILESIZE h2")
  have sz: "SIZEOF_NODE \<noteq> 0" "unat SIZEOF_NODE \<le> 4294967288" "SIZEOF_DATA \<noteq> 0"
    "unat SIZEOF_DATA \<le> 4294967288" "RAMFS_MAX_FILESIZE \<noteq> 0" "unat RAMFS_MAX_FILESIZE \<le> 4294967288"
    by (simp_all add: SIZEOF_NODE_def SIZEOF_DATA_def RAMFS_MAX_FILESIZE_def)
  have g1: "good h1" using km_good [OF g sz(1,2)] k1 by simp
  have g2: "good h2" using km_good [OF g1 sz(3,4)] k2 by simp
  have g3: "good h3" using km_good [OF g2 sz(5,6)] k3 by simp
  have m: "owned (fs_heap s) \<subseteq> owned h1" "owned h1 \<subseteq> owned h2" "owned h2 \<subseteq> owned h3"
    using km_mono [OF g sz(1,2)] km_mono [OF g1 sz(3,4)] km_mono [OF g2 sz(5,6)] k1 k2 k3 by simp_all
  show ?thesis
  proof (cases "p = 0 \<or> a = 0")
    case True
    then have "r = (0, s\<lparr>fs_heap := h2\<rparr>)" by (simp add: r_def make_node_of_def k1 k2)
    then show ?thesis using fs_ok_heap [OF ok, of h2] g2 m by auto
  next
    case False
    have pf: "p \<notin> owned (fs_heap s)" "p \<in> owned h1" "a \<notin> owned h1" "a \<in> owned h2"
      using km_fresh [OF g sz(1,2)] km_fresh [OF g1 sz(3,4)] k1 k2 False by auto
    define n where "n = \<lparr>n_name = overlay (replicate 64 0) 0 (strncpy_bytes name 63),
      n_flags = fl, n_length = 0, n_inode = a, n_parent = 0\<rparr>"
    obtain d h where dh: "r = (p, s\<lparr>fs_heap := h, fs_nodes := (fs_nodes s)(p \<mapsto> n),
          fs_datas := (fs_datas s)(a \<mapsto> d), next_inode := next_inode s + 1\<rparr>)"
      "d_children d = []" "case d_buf d of None \<Rightarrow> True | Some b \<Rightarrow> length b = unat (d_capacity d)"
      "good h" "owned h2 \<subseteq> owned h"
    proof (cases "fl AND VFS_FILE \<noteq> 0")
      case isf: True
      show thesis
        by (rule that [where h = h3 and d = "if b = 0 then \<lparr>d_buf = None, d_capacity = 0, d_children = []\<rparr>
            else \<lparr>d_buf = Some (replicate (unat RAMFS_MAX_FILESIZE) 0),
                  d_capacity = RAMFS_MAX_FILESIZE, d_children = []\<rparr>"])
           (use False isf g3 m in \<open>auto simp: r_def make_node_of_def k1 k2 k3 n_def Let_def\<close>)
    next
      case isd: False
      show thesis
        by (rule that [where h = h2 and d = "\<lparr>d_buf = None, d_capacity = 0, d_children = []\<rparr>"])
           (use False isd g2 in \<open>auto simp: r_def make_node_of_def k1 k2 n_def Let_def\<close>)
    qed
    have none: "fs_nodes s p = None" "fs_datas s a = None"
      using fs_okD(3,8) [OF ok] pf m(1) by (metis not_Some_eq subsetD)+
    have nm: "length (n_name n) = 64"
      using length_strncpy_bytes_le [of name 63] by (simp add: n_def length_overlay)
    have "fs_ok owned (snd r)"
      unfolding dh(1) snd_conv
      by (rule fs_ok_insert [OF ok]) (use False pf m dh none nm in \<open>auto simp: n_def\<close>)
    moreover have "node_data (snd r) q = node_data s q" if "q \<noteq> p" for q
      using that none(2) fs_okD(4) [OF ok, of q] by (auto simp: dh(1) node_data_def split: option.splits)
    moreover have "node_data (snd r) p = Some d"
      using False by (simp add: dh(1) node_data_def n_def)
    ultimately show ?thesis
      using dh none by (auto simp: n_def)
  qed
qed

end

subsection \<open>Directories\<close>

definition children :: "'h fs \<Rightarrow> u32 \<Rightarrow> u32 list" where
  "children s p = (case node_data s p of Some d \<Rightarrow> d_children d | None \<Rightarrow> [])"

lemma finddir_children:
  "ramfs_finddir s p name =
     (case find_slot (\<lambda>c. strcmp_bytes (node_name s c) name = 0) (children s p) of
        Some i \<Rightarrow> children s p ! i | None \<Rightarrow> 0)"
  by (auto simp: ramfs_finddir_def children_def split: option.splits)

lemma finddir_child: "ramfs_finddir s p name \<noteq> 0 \<Longrightarrow> ramfs_finddir s p name \<in> set (children s p)"
  by (auto simp: finddir_children dest: find_slot_SomeD(1) split: option.splits)

lemma add_child_result:
  assumes ok: "fs_ok own s" and pa: "node_data s pa = Some d" and ch: "fs_nodes s c = Some n"
  defines "s' \<equiv> add_child pa c s"
  shows "fs_ok own s' \<and> fs_heap s' = fs_heap s \<and> (\<forall>q. node_name s' q = node_name s q) \<and>
    children s' pa = (if length (children s pa) < 32 then children s pa @ [c] else children s pa) \<and>
    (\<forall>q. q \<noteq> pa \<longrightarrow> children s' q = children s q)"
proof (cases "length (d_children d) < 32")
  case False
  then have "s' = s" using pa by (simp add: s'_def add_child_def)
  with False pa ok show ?thesis by (simp add: children_def)
next
  case True
  obtain m where m: "fs_nodes s pa = Some m" "n_inode m \<noteq> 0" "fs_datas s (n_inode m) = Some d"
    using pa by (auto simp: node_data_Some)
  have s': "s' = s\<lparr>fs_nodes := (fs_nodes s)(c \<mapsto> n\<lparr>n_parent := pa\<rparr>),
      fs_datas := (fs_datas s)(n_inode m \<mapsto> d\<lparr>d_children := d_children d @ [c]\<rparr>)\<rparr>"
    using True m pa ch by (simp add: s'_def add_child_def)
  have ino: "\<exists>y. fs_nodes s' q = Some y \<and> n_inode y = n_inode x \<and> n_name y = n_name x"
    if "fs_nodes s q = Some x" for q x
    using that ch by (auto simp: s')
  have none: "fs_nodes s' q = None \<longleftrightarrow> fs_nodes s q = None" for q
    using ch by (auto simp: s')
  have nam: "node_name s' q = node_name s q" for q
    using ch by (auto simp: node_name_def s')
  have inv: "fs_nodes s' q = Some y \<Longrightarrow> \<exists>x. fs_nodes s q = Some x \<and> n_inode y = n_inode x \<and>
      length (n_name y) = length (n_name x)" for q y
    using ch by (auto simp: s' split: if_splits)
  have D: "data_ok s' e" if "data_ok s e" for e
    using that none by (auto simp: data_ok_def)
  have "data_ok s (d\<lparr>d_children := d_children d @ [c]\<rparr>)"
    using fs_okD(7) [OF ok m(3)] True ch by (auto simp: data_ok_def split: option.splits)
  note D' = D [OF this]
  have dom: "fs_datas s' a = Some e \<Longrightarrow> (\<exists>e'. fs_datas s a = Some e')" for a e
    using m(3) by (auto simp: s' split: if_splits)
  have ok': "fs_ok own s'"
    unfolding fs_ok_def
  proof (intro conjI allI impI)
    fix q y assume y: "fs_nodes s' q = Some y"
    from inv [OF y] obtain x where x: "fs_nodes s q = Some x" "n_inode y = n_inode x"
      "length (n_name y) = length (n_name x)" by blast
    show "node_ok s' q" "q \<in> own (fs_heap s')"
      using fs_okD(1-5) [OF ok x(1)] x y by (auto simp: node_ok_def s')
  next
    fix q y r y' assume "fs_nodes s' q = Some y" "fs_nodes s' r = Some y'" "n_inode y = n_inode y'"
    then show "q = r" using inv fs_okD(6) [OF ok] by metis
  next
    fix a e assume a: "fs_datas s' a = Some e"
    then have "e = d\<lparr>d_children := d_children d @ [c]\<rparr> \<or> fs_datas s a = Some e"
      by (auto simp: s' split: if_splits)
    then show "data_ok s' e" using D D' fs_okD(7) [OF ok] by blast
    show "a \<in> own (fs_heap s')" using dom [OF a] fs_okD(8) [OF ok] by (auto simp: s')
  qed
  have nd: "node_data s' q = (if q = pa then Some (d\<lparr>d_children := d_children d @ [c]\<rparr>) else node_data s q)" for q
  proof (cases "fs_nodes s q")
    case None
    then have "fs_nodes s' q = None" using none by blast
    with None m(1) show ?thesis by (auto simp: node_data_def)
  next
    case (Some x)
    from ino [OF Some] obtain y where y: "fs_nodes s' q = Some y" "n_inode y = n_inode x" by blast
    have "n_inode x = n_inode m \<longleftrightarrow> q = pa" using fs_okD(6) [OF ok Some m(1)] m(1) Some by auto
    then show ?thesis using m(2) y Some by (auto simp: node_data_def s')
  qed
  show ?thesis
    using ok' nam True pa by (simp add: children_def nd) (simp add: s')
qed

text \<open>Path components: as the loop of \<open>vfs_resolve\<close> takes them, from a path without
  repeated slashes or long names.\<close>

definition good_part :: "cstr \<Rightarrow> bool" where
  "good_part x \<longleftrightarrow> x \<noteq> [] \<and> slash \<notin> set x \<and> length x < 64"

fun join_path :: "cstr list \<Rightarrow> cstr" where
  "join_path [] = []"
| "join_path [x] = x"
| "join_path (x # y # xs) = x @ slash # join_path (y # xs)"

lemma path_step:
  assumes "good_part x"
  shows "path_part (x @ slash # rest) = x" "path_rest (x @ slash # rest) = rest"
    "path_part x = x" "path_rest x = []"
proof -
  have t: "takeWhile (\<lambda>c. c \<noteq> slash) x = x"
    using assms by (auto simp: good_part_def takeWhile_eq_all_conv)
  have "takeWhile (\<lambda>c. c \<noteq> slash) (x @ slash # rest) = x"
    using assms by (subst takeWhile_append2) (auto simp: good_part_def)
  with t show 1: "path_part (x @ slash # rest) = x" and 2: "path_part x = x"
    unfolding path_part_def using assms by (simp_all only: t) (simp_all add: good_part_def)
  show "path_rest (x @ slash # rest) = rest" "path_rest x = []"
    by (simp_all add: path_rest_def 1 2)
qed

lemma vfs_finddir_null: "vfs_finddir s 0 x = 0"
  by (simp add: vfs_finddir_def)

lemma resolve_loop_join:
  "\<forall>x \<in> set xs. good_part x \<Longrightarrow> xs \<noteq> [] \<Longrightarrow>
   resolve_loop s (join_path xs) cur = fold (\<lambda>x d. vfs_finddir s d x) xs cur"
proof (induction xs arbitrary: cur rule: join_path.induct)
  case (2 x)
  then have g: "good_part x" "x \<noteq> []" by (auto simp: good_part_def)
  show ?case
    using g by (subst resolve_loop.simps) (simp add: path_step resolve_loop.simps vfs_finddir_def)
next
  case (3 x y xs)
  then have g: "good_part x" by simp
  have z: "fold (\<lambda>x d. vfs_finddir s d x) zs 0 = 0" for zs
    by (induction zs) (simp_all add: vfs_finddir_null)
  show ?case
  proof (cases "cur = 0")
    case True
    then show ?thesis by (subst resolve_loop.simps) (simp add: z vfs_finddir_null)
  next
    case False
    then show ?thesis
      using 3 by (subst resolve_loop.simps) (simp add: path_step [OF g])
  qed
qed simp

subsection \<open>\<^verbatim>\<open>kmalloc\<close> is such an allocator\<close>

text \<open>The block list is read back from memory, so that ownership is a function of the heap.\<close>

fun parse :: "nat \<Rightarrow> mem \<Rightarrow> nat \<Rightarrow> block list" where
  "parse 0 m a = []"
| "parse (Suc n) m a =
     (let sz = unat (ld32 m (of_nat (a + 4)))
      in (sz, m (of_nat (a + 8)) \<noteq> 0) #
         (if ld32 m (of_nat (a + 12)) = 0 then [] else parse n m (a + 16 + sz)))"

lemma parse_chain:
  "chain m a bs \<Longrightarrow> a + span bs \<le> heap_hi \<Longrightarrow> 0 < a \<Longrightarrow> bs \<noteq> [] \<Longrightarrow> length bs \<le> n \<Longrightarrow>
   parse n m a = bs"
proof (induction n arbitrary: a bs)
  case (Suc n)
  obtain sz fr cs where bs: "bs = (sz, fr) # cs" using Suc.prems(4) by (cases bs) auto
  note hdr = Suc.prems(1)[unfolded bs chain.simps]
  have lim: "a + 16 + sz + span cs \<le> heap_hi" using Suc.prems(2) bs by simp
  have u: "unat (ld32 m (of_nat (a + 4))) = sz"
    using hdr lim by (simp del: of_nat_add)
  have f: "m (of_nat (a + 8)) \<noteq> 0 \<longleftrightarrow> fr" using hdr by (simp del: of_nat_add)
  have nz: "(of_nat (a + 16 + sz) :: u32) \<noteq> 0" by (rule addr_nonzero) (use lim in auto)
  have nx: "ld32 m (of_nat (a + 12)) = 0 \<longleftrightarrow> cs = []" using hdr nz by (simp del: of_nat_add)
  have "cs = [] \<or> parse n m (a + 16 + sz) = cs"
    using Suc.IH [of "a + 16 + sz" cs] hdr lim Suc.prems(5) bs by auto
  then show ?case unfolding parse.simps Let_def u f nx bs by auto
qed simp

lemma length_span: "16 * length bs \<le> span bs"
  by (induction bs rule: span.induct) auto

definition heap_blocks :: "mem \<Rightarrow> block list" where
  "heap_blocks m = parse 65536 m heap_lo"

lemma heap_blocks_eq: "heap_ok m bs \<Longrightarrow> heap_blocks m = bs"
  unfolding heap_blocks_def
  by (rule parse_chain) (use length_span [of bs] in \<open>auto simp: heap_ok_def\<close>)

definition heap_owned :: "mem \<Rightarrow> u32 set" where
  "heap_owned m = of_nat ` fst ` live heap_lo (heap_blocks m)"

definition heap_good :: "mem \<Rightarrow> bool" where
  "heap_good m \<longleftrightarrow> heap_ok m (heap_blocks m)"

lemma heap_goodI: "heap_ok m bs \<Longrightarrow> heap_good m"
  by (simp add: heap_good_def heap_blocks_eq)

lemma heap_alloc_cases:
  assumes "heap_good m" "n \<noteq> 0" "unat n \<le> 4294967288"
  shows "heap_good (snd (heap_alloc n m)) \<and>
    (fst (heap_alloc n m) = 0 \<longrightarrow> snd (heap_alloc n m) = m) \<and>
    (fst (heap_alloc n m) \<noteq> 0 \<longrightarrow> fst (heap_alloc n m) \<notin> heap_owned m \<and>
       heap_owned (snd (heap_alloc n m)) = insert (fst (heap_alloc n m)) (heap_owned m))"
proof -
  let ?bs = "heap_blocks m"
  have ok: "heap_ok m ?bs" using assms(1) by (simp add: heap_good_def)
  note K = kmalloc_cases [OF ok assms(2)]
  show ?thesis
  proof (cases "a_alloc (unat (align8 n)) heap_lo ?bs")
    case None
    with K have "heap_alloc n m = (0, m)" by (simp add: heap_alloc_def)
    with assms(1) show ?thesis by simp
  next
    case (Some r)
    obtain p bs' where r: "r = (p, bs')" by (cases r)
    then obtain m' where m': "kmalloc HEAP_START n m = Some (of_nat p, m')" "heap_ok m' bs'"
      using K Some by auto
    then have run: "heap_alloc n m = (of_nat p, m')" by (simp add: heap_alloc_def)
    note A = Some [unfolded r]
    obtain k where k: "live heap_lo bs' = insert (p, k) (live heap_lo ?bs)"
      using a_alloc_Some [OF A] by blast
    have pb: "heap_lo + 16 \<le> p \<and> p + k \<le> heap_hi"
      by (rule heap_live_bounds [OF m'(2)]) (simp add: k)
    have nz: "(of_nat p :: u32) \<noteq> 0" by (rule addr_nonzero) (use pb in auto)
    have "of_nat p \<notin> heap_owned m"
    proof
      assume "of_nat p \<in> heap_owned m"
      then obtain q l where q: "(q, l) \<in> live heap_lo ?bs" "(of_nat p :: u32) = of_nat q"
        by (auto simp: heap_owned_def)
      then have "p = q"
        using of_nat_u32_inj [of p q] heap_live_bounds [OF ok q(1)] pb by auto
      with a_alloc_fresh [OF A] q(1) show False by blast
    qed
    moreover have "heap_owned m' = insert (of_nat p) (heap_owned m)"
      by (simp add: heap_owned_def heap_blocks_eq [OF m'(2)] k)
    ultimately show ?thesis using run nz heap_goodI [OF m'(2)] by simp
  qed
qed

interpretation ram: allocator heap_alloc heap_owned heap_good
  by unfold_locales (simp_all add: heap_alloc_cases)

subsection \<open>Properties\<close>

abbreviation ram_ok :: "mem fs \<Rightarrow> bool" where
  "ram_ok s \<equiv> fs_ok heap_owned s"

text \<open>
  C3: a write to a file that starts inside its buffer stores as many bytes as the buffer has room
  for and reports that number; reading the range back gives exactly the bytes written; the rest of
  this file and all other files keep their bytes and the file system stays well formed.  A write
  that starts behind the end of the buffer copies outside it.
\<close>

theorem ramfs_write_read:
  assumes "ram_ok s" "is_file s p" "unat pos + length bs < 4294967296"
  shows "(if unat pos \<le> file_cap s p
     then (let k = min (length bs) (file_cap s p - unat pos)
           in \<exists>s'. vfs_write s p pos bs = Some (of_nat k, s') \<and>
             vfs_read s' p pos (of_nat k) = Some (take k bs) \<and> ram_ok s' \<and> is_file s' p \<and>
             length (file_bytes s' p) = max (length (file_bytes s p)) (unat pos + k) \<and>
             (\<forall>i < length (file_bytes s p). i < unat pos \<or> unat pos + k \<le> i \<longrightarrow>
                file_bytes s' p ! i = file_bytes s p ! i) \<and>
             (\<forall>q. q \<noteq> p \<longrightarrow> file_bytes s' q = file_bytes s q))
     else vfs_write s p pos bs = None)"
proof -
  obtain n d b where nd: "fs_nodes s p = Some n" "fs_datas s (n_inode n) = Some d" "d_buf d = Some b"
    using assms(2) unfolding is_file_def by blast
  have pz: "p \<noteq> 0" by (rule fs_okD(1) [OF assms(1) nd(1)])
  have "node_data s p = Some d" using nd fs_okD(2) [OF assms(1) nd(1)] by (simp add: node_data_def)
  then have cap: "file_cap s p = unat (d_capacity d)" by (simp add: file_cap_def)
  show ?thesis
  proof (cases "unat pos \<le> file_cap s p")
    case False
    then show ?thesis
      using ramfs_write_faults [OF assms(1) nd, of pos bs] assms(3) pz by (simp add: cap vfs_write_def)
  next
    case True
    define k where "k = min (length bs) (file_cap s p - unat pos)"
    obtain s' where s': "ramfs_write s p pos bs = Some (of_nat k, s')" "ram_ok s'" "is_file s' p"
      "length (file_bytes s' p) = max (length (file_bytes s p)) (unat pos + k)"
      "take k (drop (unat pos) (file_bytes s' p)) = take k bs"
      "\<forall>i < length (file_bytes s p). i < unat pos \<or> unat pos + k \<le> i \<longrightarrow>
         file_bytes s' p ! i = file_bytes s p ! i" "\<forall>q. q \<noteq> p \<longrightarrow> file_bytes s' q = file_bytes s q"
      using ramfs_write_result [OF assms(1,2) True assms(3)] unfolding k_def [symmetric] by blast
    have "k \<le> length bs" by (simp add: k_def)
    then have "unat pos + unat (of_nat k :: u32) < 4294967296" using assms(3) by simp
    from ramfs_read_bytes [OF s'(2,3) this] have "vfs_read s' p pos (of_nat k) = Some (take k bs)"
      using s'(5) pz assms(3) \<open>k \<le> length bs\<close> by (simp add: vfs_read_def)
    with True s' pz show ?thesis unfolding Let_def k_def [symmetric] by (auto simp: vfs_write_def)
  qed
qed

lemma cstr_of_fresh_name:
  assumes "is_cstr name"
  shows "cstr_of (overlay (replicate 64 0) 0 (strncpy_bytes name 63)) = take 63 name"
proof -
  let ?o = "overlay (replicate 64 0) 0 (strncpy_bytes name 63) :: u8 list"
  have "?o ! 63 = 0"
    by (auto simp: overlay_def strncpy_bytes_def nth_append)
  then have "?o[63 := 0] = ?o" by (metis list_update_id)
  then have "?o = copy_field (replicate 64 0) name 63" by (simp add: copy_field_def)
  then show ?thesis using assms by simp
qed

lemma create_result:
  assumes ok: "ram_ok s" and g: "heap_good (fs_heap s)" and pa: "node_data s pa = Some d"
    and nm: "is_cstr name" and run: "make_node name fl s = (node, s1)" "s' = add_child pa node s1"
    and nz: "node \<noteq> 0"
  shows "ram_ok s' \<and> heap_good (fs_heap s') \<and> fs_nodes s node = None \<and>
    (length (children s pa) < 32 \<longrightarrow> ramfs_finddir s pa (take 63 name) = 0 \<longrightarrow>
       ramfs_finddir s' pa (take 63 name) = node) \<and>
    (32 \<le> length (children s pa) \<longrightarrow> (\<forall>x. ramfs_finddir s' pa x \<noteq> node))"
proof -
  note M = ram.make_node_result [OF ok g, of name fl, folded make_node_def, unfolded run(1) fst_conv snd_conv]
  have fresh: "fs_nodes s node = None" using M nz by blast
  obtain n where n: "fs_nodes s1 node = Some n"
    "n_name n = overlay (replicate 64 0) 0 (strncpy_bytes name 63)" using M nz by blast
  obtain m where m: "fs_nodes s pa = Some m" "n_inode m \<noteq> 0" "fs_datas s (n_inode m) = Some d"
    using pa by (auto simp: node_data_Some)
  have ne: "pa \<noteq> node" using fresh m(1) by auto
  have pa1: "node_data s1 pa = Some d" using M ne pa by auto
  have ch1: "children s1 pa = children s pa" by (simp add: children_def pa pa1)
  have ok1: "ram_ok s1" using M by blast
  note A = add_child_result [OF ok1 pa1 n(1), folded run(2)]
  have kids: "fs_nodes s c \<noteq> None" if "c \<in> set (children s pa)" for c
    using fs_okD(7) [OF ok m(3)] that pa by (auto simp: data_ok_def children_def)
  have kn: "c \<noteq> node \<and> c \<noteq> 0 \<and> node_name s' c = node_name s c" if "c \<in> set (children s pa)" for c
  proof -
    have "c \<noteq> node" using kids [OF that] fresh by auto
    moreover from this have "fs_nodes s1 c = fs_nodes s c" using M by blast
    moreover have "c \<noteq> 0" using kids [OF that] fs_okD(1) [OF ok, of c] by auto
    ultimately show ?thesis using A by (simp add: node_name_def)
  qed
  have own_name: "node_name s' node = take 63 name"
    using A n cstr_of_fresh_name [OF nm] by (simp add: node_name_def)
  have same: "find_slot (\<lambda>c. strcmp_bytes (node_name s' c) x = 0) (children s pa) =
      find_slot (\<lambda>c. strcmp_bytes (node_name s c) x = 0) (children s pa)" for x
    by (rule find_slot_cong) (use kn in auto)
  have "ramfs_finddir s' pa (take 63 name) = node"
    if "length (children s pa) < 32" "ramfs_finddir s pa (take 63 name) = 0"
  proof -
    have "find_slot (\<lambda>c. strcmp_bytes (node_name s c) (take 63 name) = 0) (children s pa) = None"
      using that(2) kn nth_mem unfolding finddir_children
      by (auto dest!: find_slot_SomeD(1) split: option.splits)
    moreover have "children s' pa = children s pa @ [node]" using A that(1) by (simp add: ch1)
    ultimately show ?thesis
      by (simp only: finddir_children find_slot_append same option.case) (simp add: own_name)
  qed
  moreover have "ramfs_finddir s' pa x \<noteq> node" if "32 \<le> length (children s pa)" for x
  proof
    assume "ramfs_finddir s' pa x = node"
    moreover have "children s' pa = children s pa" using A that by (simp add: ch1)
    ultimately have "node \<in> set (children s pa)" using finddir_child [of s' pa x] nz by simp
    then show False using kn by blast
  qed
  moreover have "heap_good (fs_heap s')" using A M by simp
  ultimately show ?thesis using A fresh by blast
qed

text \<open>
  \<^verbatim>\<open>ramfs_mkfile\<close> (and \<^verbatim>\<open>ramfs_mkdir\<close>) in a directory keep the file system well formed; a new node is
  a fresh, empty object, and it is found under its name (cut to 63 bytes) when the directory had
  fewer than 32 entries and none of that name; in a full directory the call still succeeds
  but no lookup in the directory can find the node.
\<close>

lemma ramfs_create_find:
  assumes "ram_ok s" "heap_good (fs_heap s)" "node_data s pa = Some d" "is_cstr name"
    "(node, s') = ramfs_mkfile pa name s \<or> (node, s') = ramfs_mkdir pa name s" "node \<noteq> 0"
  shows "ram_ok s' \<and> heap_good (fs_heap s') \<and> fs_nodes s node = None \<and>
    (length (children s pa) < 32 \<longrightarrow> ramfs_finddir s pa (take 63 name) = 0 \<longrightarrow>
       ramfs_finddir s' pa (take 63 name) = node) \<and>
    (32 \<le> length (children s pa) \<longrightarrow> (\<forall>x. ramfs_finddir s' pa x \<noteq> node))"
proof -
  have pz: "pa \<noteq> 0" using assms(1,3) fs_okD(1) by (auto simp: node_data_Some)
  obtain fl s1 where "make_node name fl s = (node, s1)" "s' = add_child pa node s1"
    using assms(5,6) pz
    by (auto simp: ramfs_mkfile_def ramfs_mkdir_def ramfs_mkfile_of_def ramfs_mkdir_of_def
        make_node_def split: prod.splits)
  with create_result [OF assms(1-4)] assms(6) show ?thesis by blast
qed

text \<open>
  C19: resolving an absolute path whose components are non-empty, slash-free and shorter than 64
  bytes is looking up the components one after the other from the root.
\<close>

theorem vfs_resolve_path:
  assumes "xs \<noteq> []" "\<forall>x \<in> set xs. good_part x"
  shows "vfs_resolve s (slash # join_path xs) = fold (\<lambda>x d. vfs_finddir s d x) xs (vfs_root s)"
proof -
  have z: "fold (\<lambda>x d. vfs_finddir s d x) zs 0 = 0" for zs
    by (induction zs) (simp_all add: vfs_finddir_null)
  have "join_path xs \<noteq> []"
    using assms by (cases xs rule: join_path.cases) (auto simp: good_part_def)
  then show ?thesis
    using assms z by (simp add: vfs_resolve_def vfs_root_def resolve_loop_join)
qed

subsection \<open>Witnesses\<close>

lemma heap_alloc_at:
  assumes "heap_ok m bs" "n \<noteq> 0" "a_alloc (unat (align8 n)) heap_lo bs = Some (p, bs')"
  shows "\<exists>m'. heap_alloc n m = (of_nat p, m') \<and> heap_ok m' bs'"
  using kmalloc_cases [OF assms(1,2)] assms(3) by (auto simp: heap_alloc_def)

lemma sample_heap: "\<exists>m. heap_ok m [(96, False), (144, False), (1048288, True)]"
proof -
  let ?m = "fst (heap_init (\<lambda>_. 0))"
  have ok: "heap_ok ?m [(0xFFFF0, True)]" using heap_init_chain by blast
  have u: "unat (align8 92) = 96" "unat (align8 140) = 144" by (simp_all add: align8_nat)
  obtain m1 where m1: "heap_ok m1 [(96, False), (1048448, True)]"
    using heap_alloc_at [OF ok, of 92] by (auto simp: u)
  show ?thesis using heap_alloc_at [OF m1, of 140] by (auto simp: u)
qed

lemma six_blocks: "\<exists>m. heap_owned m = {0x300010, 0x300080, 0x300120, 0x300190, 0x300230, 0x3002A0}"
proof -
  have u: "unat (align8 92) = 96" "unat (align8 140) = 144" by (simp_all add: align8_nat)
  obtain m where m: "heap_ok m [(96, False), (144, False), (1048288, True)]" using sample_heap by blast
  obtain m1 where m1: "heap_ok m1 [(96, False), (144, False), (96, False), (1048176, True)]"
    using heap_alloc_at [OF m, of 92] by (auto simp: u)
  obtain m2 where m2: "heap_ok m2 [(96, False), (144, False), (96, False), (144, False), (1048016, True)]"
    using heap_alloc_at [OF m1, of 140] by (auto simp: u)
  obtain m3 where m3: "heap_ok m3 [(96, False), (144, False), (96, False), (144, False), (96, False), (1047904, True)]"
    using heap_alloc_at [OF m2, of 92] by (auto simp: u)
  obtain m4 where "heap_ok m4 [(96, False), (144, False), (96, False), (144, False), (96, False), (144, False), (1047744, True)]"
    using heap_alloc_at [OF m3, of 140] by (auto simp: u)
  then show ?thesis by (intro exI [of _ m4]) (auto simp: heap_owned_def heap_blocks_eq)
qed

text \<open>A file system with one object at \<open>0x300010\<close>, a directory that also has a buffer.\<close>

definition sample_fs :: "mem \<Rightarrow> mem fs" where
  "sample_fs m = \<lparr>fs_nodes = [0x300010 \<mapsto> \<lparr>n_name = replicate 64 0, n_flags = VFS_DIR,
       n_length = 0, n_inode = 0x300080, n_parent = 0\<rparr>],
     fs_datas = [0x300080 \<mapsto> \<lparr>d_buf = Some (replicate 4096 0), d_capacity = 4096, d_children = []\<rparr>],
     fs_heap = m, fs_root = 0x300010, next_inode = 1\<rparr>"

lemma sample_fs_ok:
  assumes "heap_ok m [(96, False), (144, False), (1048288, True)]"
  shows "ram_ok (sample_fs m)" "heap_good (fs_heap (sample_fs m))" "is_file (sample_fs m) 0x300010"
    "node_data (sample_fs m) 0x300010 = Some \<lparr>d_buf = Some (replicate 4096 0), d_capacity = 4096, d_children = []\<rparr>"
proof -
  have "heap_owned m = {0x300010, 0x300080}"
    by (auto simp: heap_owned_def heap_blocks_eq [OF assms])
  then show "ram_ok (sample_fs m)"
    by (auto simp: sample_fs_def fs_ok_def node_ok_def data_ok_def split: if_splits)
  show "heap_good (fs_heap (sample_fs m))" using heap_goodI [OF assms] by (simp add: sample_fs_def)
  show "is_file (sample_fs m) 0x300010" by (simp add: is_file_def sample_fs_def)
  show "node_data (sample_fs m) 0x300010 =
      Some \<lparr>d_buf = Some (replicate 4096 0), d_capacity = 4096, d_children = []\<rparr>"
    by (simp add: node_data_def sample_fs_def)
qed

theorem ramfs_write_read_witness:
  "\<exists>(s :: mem fs) s'. vfs_write s 0x300010 0 (lit ''hi'') = Some (2, s') \<and> vfs_read s' 0x300010 0 2 = Some (lit ''hi'')"
proof -
  obtain m where m: "heap_ok m [(96, False), (144, False), (1048288, True)]" using sample_heap by blast
  note S = sample_fs_ok [OF m]
  have "file_cap (sample_fs m) 0x300010 = 4096" by (simp add: file_cap_def S(4))
  then have "\<exists>s'. vfs_write (sample_fs m) 0x300010 0 (lit ''hi'') = Some (2, s') \<and>
      vfs_read s' 0x300010 0 2 = Some (lit ''hi'')"
    using ramfs_write_read [OF S(1,3), of 0 "lit ''hi''"] by (auto simp: Let_def)
  then show ?thesis by blast
qed

lemma ramfs_create_find_witness:
  "\<exists>s node s'. (node, s') = ramfs_mkfile 0x300010 (lit ''a'') s \<and> node \<noteq> 0 \<and>
     ramfs_finddir s' 0x300010 (lit ''a'') = node"
proof -
  obtain m where m: "heap_ok m [(96, False), (144, False), (1048288, True)]" using sample_heap by blast
  note S = sample_fs_ok [OF m]
  have u: "unat (align8 92) = 96" "unat (align8 140) = 144" "unat (align8 4096) = 4096"
    by (simp_all add: align8_nat)
  obtain m1 where m1: "heap_alloc 92 m = (0x300120, m1)"
    "heap_ok m1 [(96, False), (144, False), (96, False), (1048176, True)]"
    using heap_alloc_at [OF m, of 92] by (auto simp: u)
  obtain m2 where m2: "heap_alloc 140 m1 = (0x300190, m2)"
    "heap_ok m2 [(96, False), (144, False), (96, False), (144, False), (1048016, True)]"
    using heap_alloc_at [OF m1(2), of 140] by (auto simp: u)
  obtain node s' where r: "(node, s') = ramfs_mkfile 0x300010 (lit ''a'') (sample_fs m)"
    by (metis surj_pair)
  have "fs_heap (sample_fs m) = m" by (simp add: sample_fs_def)
  then have node: "node = 0x300120"
    using r m1(1) m2(1)
    by (simp add: ramfs_mkfile_def ramfs_mkfile_of_def make_node_of_def SIZEOF_NODE_def
        SIZEOF_DATA_def Let_def split: prod.splits if_splits)
  have "children (sample_fs m) 0x300010 = []" by (simp add: children_def S(4))
  then have "ramfs_finddir (sample_fs m) 0x300010 (lit ''a'') = 0" by (simp add: finddir_children)
  moreover have "is_cstr (lit ''a'')" by (simp add: is_cstr_def)
  ultimately have "ramfs_finddir s' 0x300010 (lit ''a'') = node"
    using ramfs_create_find [OF S(1,2,4), of "lit ''a''" node s'] r node
    by (simp add: \<open>children (sample_fs m) 0x300010 = []\<close>)
  with r node show ?thesis by (intro exI [of _ "sample_fs m"] exI [of _ node] exI [of _ s']) simp
qed

theorem vfs_resolve_path_witness:
  "vfs_resolve (sample_fs (\<lambda>_. 0)) (slash # join_path [lit ''etc'', lit ''motd'']) =
     vfs_finddir (sample_fs (\<lambda>_. 0)) (vfs_finddir (sample_fs (\<lambda>_. 0)) (vfs_root (sample_fs (\<lambda>_. 0))) (lit ''etc'')) (lit ''motd'')"
  by (subst vfs_resolve_path) (auto simp: good_part_def)

end
