(* ===== verification/Fd.thy ===== *)
theory Fd
  imports Ramfs Pipe
begin

text \<open>
  \<^verbatim>\<open>fs/fd.c\<close>: the table of 16 descriptors over nodes and pipes, and the pool of 8 pipes.  A pipe
  pointer is an index into the pool.  A read or write that would leave a file buffer is
  \<open>None\<close>, as in \<^verbatim>\<open>fs/ramfs.c\<close>; descriptors and results are C ints.
\<close>

subsection \<open>The code\<close>

record fd_entry =
  fe_node :: u32
  fe_offset :: u32
  fe_open :: bool
  fe_is_pipe :: bool
  fe_pipe :: "nat option"
  fe_write_end :: bool

record fdt =
  fd_table :: "fd_entry list"
  pipe_pool :: "pipe list"
  pipe_used :: "bool list"

definition FD_MAX :: nat where "FD_MAX = 16"
definition PIPE_MAX :: nat where "PIPE_MAX = 8"

lemmas fd_limits [simp] = FD_MAX_def PIPE_MAX_def

definition fd_blank :: fd_entry where
  "fd_blank = \<lparr>fe_node = 0, fe_offset = 0, fe_open = False, fe_is_pipe = False, fe_pipe = None,
     fe_write_end = False\<rparr>"

definition fd_init :: "fdt \<Rightarrow> fdt" where
  "fd_init t = t\<lparr>fd_table := replicate FD_MAX fd_blank\<rparr>"

definition fd_open_pipe :: "nat \<Rightarrow> bool \<Rightarrow> fdt \<Rightarrow> int \<times> fdt" where
  "fd_open_pipe p write_end t =
     (case find_slot (\<lambda>e. \<not> fe_open e) (fd_table t) of
        Some i \<Rightarrow> (int i, t\<lparr>fd_table := (fd_table t)[i :=
          \<lparr>fe_node = 0, fe_offset = 0, fe_open = True, fe_is_pipe = True, fe_pipe = Some p,
           fe_write_end = write_end\<rparr>]\<rparr>)
      | None \<Rightarrow> (- 1, t))"

definition pipe_alloc :: "fdt \<Rightarrow> nat option \<times> fdt" where
  "pipe_alloc t =
     (case find_slot (\<lambda>u. \<not> u) (pipe_used t) of
        Some i \<Rightarrow> (Some i, t\<lparr>pipe_used := (pipe_used t)[i := True],
                            pipe_pool := (pipe_pool t)[i := pipe_init]\<rparr>)
      | None \<Rightarrow> (None, t))"

definition fd_valid :: "fdt \<Rightarrow> int \<Rightarrow> bool" where
  "fd_valid t fd \<longleftrightarrow> \<not> (fd < 0 \<or> fd \<ge> int FD_MAX \<or> \<not> fe_open (fd_table t ! nat fd))"

definition fd_close :: "int \<Rightarrow> fdt \<Rightarrow> fdt" where
  "fd_close fd t =
     (if fd < 0 \<or> fd \<ge> int FD_MAX then t
      else t\<lparr>fd_table := (fd_table t)[nat fd :=
        (fd_table t ! nat fd)\<lparr>fe_open := False, fe_node := 0, fe_offset := 0\<rparr>]\<rparr>)"

definition fd_dup2 :: "int \<Rightarrow> int \<Rightarrow> fdt \<Rightarrow> int \<times> fdt" where
  "fd_dup2 oldfd newfd t =
     (if \<not> fd_valid t oldfd then (- 1, t)
      else if newfd < 0 \<or> newfd \<ge> int FD_MAX then (- 1, t)
      else (let t = (if fe_open (fd_table t ! nat newfd) then fd_close newfd t else t)
            in (newfd, t\<lparr>fd_table := (fd_table t)[nat newfd := fd_table t ! nat oldfd]\<rparr>)))"

definition fd_open :: "u32 \<Rightarrow> fdt \<Rightarrow> int \<times> fdt" where
  "fd_open node t =
     (case find_slot (\<lambda>e. \<not> fe_open e) (fd_table t) of
        Some i \<Rightarrow> (int i, t\<lparr>fd_table := (fd_table t)[i :=
          (fd_table t ! i)\<lparr>fe_node := node, fe_offset := 0, fe_open := True\<rparr>]\<rparr>)
      | None \<Rightarrow> (- 1, t))"

definition fd_advance :: "int \<Rightarrow> u32 \<Rightarrow> fdt \<Rightarrow> fdt" where
  "fd_advance fd n t = t\<lparr>fd_table := (fd_table t)[nat fd :=
     (fd_table t ! nat fd)\<lparr>fe_offset := fe_offset (fd_table t ! nat fd) + n\<rparr>]\<rparr>"

definition fd_read :: "'h fs \<Rightarrow> int \<Rightarrow> u32 \<Rightarrow> fdt \<Rightarrow> (int \<times> u8 list \<times> fdt) option" where
  "fd_read s fd sz t =
     (if \<not> fd_valid t fd then Some (- 1, [], t)
      else (let e = fd_table t ! nat fd
            in if fe_is_pipe e then
                 (let (out, p) = pipe_read (unat sz) (pipe_pool t ! the (fe_pipe e))
                  in Some (int (length out), out, t\<lparr>pipe_pool := (pipe_pool t)[the (fe_pipe e) := p]\<rparr>))
               else
                 (case vfs_read s (fe_node e) (fe_offset e) sz of
                    None \<Rightarrow> None
                  | Some out \<Rightarrow> Some (int (length out), out, fd_advance fd (of_nat (length out)) t))))"

definition fd_write :: "int \<Rightarrow> u8 list \<Rightarrow> 'h fs \<Rightarrow> fdt \<Rightarrow> (int \<times> 'h fs \<times> fdt) option" where
  "fd_write fd bs s t =
     (if \<not> fd_valid t fd then Some (- 1, s, t)
      else (let e = fd_table t ! nat fd
            in if fe_is_pipe e then
                 (let (n, p) = pipe_write bs (pipe_pool t ! the (fe_pipe e))
                  in Some (int n, s, t\<lparr>pipe_pool := (pipe_pool t)[the (fe_pipe e) := p]\<rparr>))
               else
                 (case vfs_write s (fe_node e) (fe_offset e) bs of
                    None \<Rightarrow> None
                  | Some (n, s) \<Rightarrow> Some (sint n, s, fd_advance fd n t))))"

subsection \<open>The invariant\<close>

definition fd_ok :: "fdt \<Rightarrow> bool" where
  "fd_ok t \<longleftrightarrow> length (fd_table t) = 16 \<and> length (pipe_pool t) = 8 \<and> length (pipe_used t) = 8 \<and>
     (\<forall>p \<in> set (pipe_pool t). pipe_ok p) \<and>
     (\<forall>e \<in> set (fd_table t). fe_is_pipe e \<longrightarrow> (\<exists>i < 8. fe_pipe e = Some i))"

lemma fd_ok_entry:
  "fd_ok t \<Longrightarrow> (fe_is_pipe e \<Longrightarrow> \<exists>i < 8. fe_pipe e = Some i) \<Longrightarrow>
   fd_ok (t\<lparr>fd_table := (fd_table t)[i := e]\<rparr>)"
  by (auto simp: fd_ok_def dest!: set_update_cases)

lemma fd_ok_pool: "fd_ok t \<Longrightarrow> pipe_ok p \<Longrightarrow> fd_ok (t\<lparr>pipe_pool := (pipe_pool t)[i := p]\<rparr>)"
  by (auto simp: fd_ok_def dest!: set_update_cases)

lemma fd_ok_nth: "fd_ok t \<Longrightarrow> i < 16 \<Longrightarrow> fe_is_pipe (fd_table t ! i) \<Longrightarrow>
   \<exists>k < 8. fe_pipe (fd_table t ! i) = Some k"
  by (auto simp: fd_ok_def)

lemma fd_ok_free: "fd_ok t \<Longrightarrow> find_slot P (fd_table t) = Some i \<Longrightarrow> i < 16"
  by (auto simp: fd_ok_def dest: find_slot_SomeD(1))

lemma fd_init_ok [kinv]:
  "length (pipe_pool t) = 8 \<Longrightarrow> length (pipe_used t) = 8 \<Longrightarrow> \<forall>p \<in> set (pipe_pool t). pipe_ok p \<Longrightarrow>
   fd_ok (fd_init t)"
  by (simp add: fd_ok_def fd_init_def fd_blank_def)

lemma fd_open_ok [kinv]: "fd_ok t \<Longrightarrow> fd_ok (snd (fd_open node t))"
  by (auto simp: fd_open_def intro!: fd_ok_entry fd_ok_nth dest: fd_ok_free split: option.splits)

lemma fd_open_pipe_ok [kinv]: "fd_ok t \<Longrightarrow> p < 8 \<Longrightarrow> fd_ok (snd (fd_open_pipe p w t))"
  by (auto simp: fd_open_pipe_def intro!: fd_ok_entry split: option.splits)

lemma pipe_alloc_ok [kinv]: "fd_ok t \<Longrightarrow> fd_ok (snd (pipe_alloc t))"
  by (auto simp: fd_ok_def pipe_alloc_def pipe_init_ok dest!: set_update_cases split: option.splits)

lemma fd_close_ok [kinv]: "fd_ok t \<Longrightarrow> fd_ok (fd_close fd t)"
  by (auto simp: fd_close_def intro!: fd_ok_entry fd_ok_nth)

lemma fd_dup2_ok [kinv]: "fd_ok t \<Longrightarrow> fd_ok (snd (fd_dup2 a b t))"
  using fd_ok_nth [of t "nat a"] fd_ok_nth [of "fd_close b t" "nat a"] fd_close_ok [of t b]
  by (auto simp: fd_dup2_def fd_valid_def Let_def intro!: fd_ok_entry)

lemma fd_advance_ok [kinv]: "fd_ok t \<Longrightarrow> nat fd < 16 \<Longrightarrow> fd_ok (fd_advance fd n t)"
  by (auto simp: fd_advance_def intro!: fd_ok_entry fd_ok_nth)

lemma fd_pipe_nth:
  assumes "fd_ok t" "fd_valid t fd" "fe_is_pipe (fd_table t ! nat fd)"
  obtains k where "k < 8" "fe_pipe (fd_table t ! nat fd) = Some k" "pipe_ok (pipe_pool t ! k)"
proof -
  have "nat fd < 16" using assms(2) by (auto simp: fd_valid_def)
  then obtain k where "k < 8" "fe_pipe (fd_table t ! nat fd) = Some k"
    using fd_ok_nth [OF assms(1) _ assms(3)] by blast
  with assms(1) that show thesis by (auto simp: fd_ok_def)
qed

lemma fd_read_ok [kinv]:
  assumes ok: "fd_ok t" and run: "fd_read s fd sz t = Some (r, out, t')"
  shows "fd_ok t'"
proof (cases "fd_valid t fd \<and> fe_is_pipe (fd_table t ! nat fd)")
  case True
  then obtain k where "k < 8" "fe_pipe (fd_table t ! nat fd) = Some k" "pipe_ok (pipe_pool t ! k)"
    using fd_pipe_nth [OF ok] by metis
  with True run ok show ?thesis
    using pipe_read_queue [of "pipe_pool t ! k" "unat sz"]
    by (auto simp: fd_read_def Let_def case_prod_beta intro!: fd_ok_pool)
next
  case False
  with run ok show ?thesis
    by (auto simp: fd_read_def fd_valid_def Let_def split: option.splits if_splits intro!: fd_advance_ok)
qed

lemma fd_write_ok [kinv]:
  assumes ok: "fd_ok t" and run: "fd_write fd bs s t = Some (r, s', t')"
  shows "fd_ok t'"
proof (cases "fd_valid t fd \<and> fe_is_pipe (fd_table t ! nat fd)")
  case True
  then obtain k where "k < 8" "fe_pipe (fd_table t ! nat fd) = Some k" "pipe_ok (pipe_pool t ! k)"
    using fd_pipe_nth [OF ok] by metis
  with True run ok show ?thesis
    using pipe_write_queue [of "pipe_pool t ! k" bs]
    by (auto simp: fd_write_def Let_def case_prod_beta intro!: fd_ok_pool)
next
  case False
  with run ok show ?thesis
    by (auto simp: fd_write_def fd_valid_def Let_def split: option.splits if_splits intro!: fd_advance_ok)
qed

subsection \<open>Properties\<close>

text \<open>
  every descriptor operation keeps the table and pool well formed, and \<^verbatim>\<open>fd_open\<close> hands out
  the lowest free descriptor, bound to the node at offset 0, or -1 exactly when all 16 are open;
  no other descriptor changes.
\<close>

lemma fd_open_lowest:
  assumes "fd_ok t"
  shows "fd_ok (snd (fd_open node t)) \<and> fd_ok (fd_close fd t) \<and> fd_ok (snd (fd_dup2 fd fd' t)) \<and>
    (case fd_open node t of (r, t') \<Rightarrow>
       (r = - 1 \<and> t' = t \<and> (\<forall>i < 16. fe_open (fd_table t ! i))) \<or>
       (\<exists>i < 16. r = int i \<and> \<not> fe_open (fd_table t ! i) \<and> (\<forall>j < i. fe_open (fd_table t ! j)) \<and>
          fd_valid t' r \<and> fe_node (fd_table t' ! i) = node \<and> fe_offset (fd_table t' ! i) = 0 \<and>
          (\<forall>j < 16. j \<noteq> i \<longrightarrow> fd_table t' ! j = fd_table t ! j)))"
proof (cases "find_slot (\<lambda>e. \<not> fe_open e) (fd_table t)")
  case None
  have "length (fd_table t) = 16" using assms by (simp add: fd_ok_def)
  with None have "\<forall>i < 16. fe_open (fd_table t ! i)" by (auto simp: find_slot_None)
  with None assms show ?thesis by (simp add: fd_open_ok fd_close_ok fd_dup2_ok fd_open_def)
next
  case (Some i)
  have "length (fd_table t) = 16" using assms by (simp add: fd_ok_def)
  with Some have "i < 16" "\<not> fe_open (fd_table t ! i)" "\<forall>j < i. fe_open (fd_table t ! j)"
    by (auto simp: find_slot_Some)
  then show ?thesis
    using Some assms \<open>length (fd_table t) = 16\<close> fd_open_ok [OF assms, of node]
    by (auto simp: fd_close_ok fd_dup2_ok fd_open_def fd_valid_def)
qed

lemma fd_open_lowest_witness:
  "fst (fd_open 0x300010 (fd_init \<lparr>fd_table = [], pipe_pool = replicate 8 pipe_init,
     pipe_used = replicate 8 False\<rparr>)) = 0"
proof -
  let ?t = "fd_init \<lparr>fd_table = [], pipe_pool = replicate 8 pipe_init, pipe_used = replicate 8 False\<rparr>"
  have ok: "fd_ok ?t" by (rule fd_init_ok) (auto simp: pipe_init_ok)
  have free: "\<not> fe_open (fd_table ?t ! 0)" by (simp add: fd_init_def fd_blank_def)
  have "\<not> (\<forall>i < 16. fe_open (fd_table ?t ! i))" using free by (metis zero_less_numeral)
  with fd_open_lowest [OF ok, of "0x300010"] obtain i where
    "fst (fd_open 0x300010 ?t) = int i" "\<forall>j < i. fe_open (fd_table ?t ! j)"
    unfolding case_prod_beta by blast
  with free show ?thesis by (cases i) auto
qed

text \<open>
  C7: a descriptor reads a file as a stream: a read delivers the bytes from the current offset on,
  and a second read continues exactly where the first stopped.
\<close>

theorem fd_read_stream:
  assumes "ram_ok s" "is_file s p" "fd_valid t fd" "length (fd_table t) = 16"
    "\<not> fe_is_pipe (fd_table t ! nat fd)" "fe_node (fd_table t ! nat fd) = p"
    "unat (fe_offset (fd_table t ! nat fd)) + unat m + unat n < 4294967296"
  shows "\<exists>t1 t2 a b. fd_read s fd m t = Some (int (length a), a, t1) \<and>
    fd_read s fd n t1 = Some (int (length b), b, t2) \<and>
    a @ b = take (unat m + unat n) (drop (unat (fe_offset (fd_table t ! nat fd))) (file_bytes s p))"
proof -
  let ?o = "fe_offset (fd_table t ! nat fd)"
  let ?B = "drop (unat ?o) (file_bytes s p)"
  have pz: "p \<noteq> 0" using assms(1,2) fs_okD(1) by (auto simp: is_file_def)
  have i: "nat fd < 16" using assms(3) by (auto simp: fd_valid_def)
  define a where "a = take (unat m) ?B"
  define t1 where "t1 = fd_advance fd (of_nat (length a)) t"
  have la: "length a \<le> unat m" by (simp add: a_def)
  have r1: "vfs_read s p ?o m = Some a"
    using ramfs_read_bytes [OF assms(1,2), of ?o m] assms(7) pz by (simp add: vfs_read_def a_def)
  then have run1: "fd_read s fd m t = Some (int (length a), a, t1)"
    using assms(3,5,6) by (simp add: fd_read_def t1_def)
  have e1: "fd_table t1 ! nat fd = (fd_table t ! nat fd)\<lparr>fe_offset := ?o + of_nat (length a)\<rparr>"
    using i assms(4) by (simp add: t1_def fd_advance_def)
  have "length a < 4294967296" using la assms(7) by linarith
  then have uo: "unat (?o + of_nat (length a)) = unat ?o + length a"
    using la assms(7) by (simp add: unat32_add)
  define b where "b = take (unat n) (drop (unat ?o + length a) (file_bytes s p))"
  have "vfs_read s p (?o + of_nat (length a)) n = Some b"
    using ramfs_read_bytes [OF assms(1,2), of "?o + of_nat (length a)" n] la assms(7) pz
    by (simp add: vfs_read_def uo b_def)
  then have run2: "fd_read s fd n t1 = Some (int (length b), b, fd_advance fd (of_nat (length b)) t1)"
    using assms(3,5,6) by (simp add: fd_read_def e1 fd_valid_def)
  have "a @ b = take (unat m + unat n) ?B"
  proof (cases "length a = unat m")
    case True
    then show ?thesis by (simp add: b_def a_def take_add add.commute)
  next
    case False
    then have "length ?B < unat m" using la by (simp add: a_def min_def split: if_splits)
    then show ?thesis by (simp add: a_def b_def)
  qed
  with run1 run2 show ?thesis by blast
qed

text \<open>
  a descriptor that was once a pipe end stays one: when it is closed and reused for a
  file, \<^verbatim>\<open>fd_read\<close> still takes its bytes from the pipe and not from the file.
\<close>

lemma fd_reuse_reads_pipe:
  assumes "fd_ok t" "\<forall>j < i. fe_open (fd_table t ! j)" "i < 16" "fe_is_pipe (fd_table t ! i)"
    "fe_pipe (fd_table t ! i) = Some k"
  shows "case fd_open node (fd_close (int i) t) of (r, t') \<Rightarrow>
    r = int i \<and> fe_node (fd_table t' ! i) = node \<and>
    map_option (\<lambda>(r, out, t). out) (fd_read s r sz t') =
      Some (take (unat sz) (contents (pipe_pool t ! k)))"
proof -
  let ?t = "fd_close (int i) t"
  have len: "length (fd_table t) = 16" using assms(1) by (simp add: fd_ok_def)
  have e: "fd_table ?t ! j = (if j = i then (fd_table t ! i)\<lparr>fe_open := False, fe_node := 0, fe_offset := 0\<rparr>
      else fd_table t ! j)" if "j < 16" for j
    using that assms(3) len by (simp add: fd_close_def)
  have "find_slot (\<lambda>e. \<not> fe_open e) (fd_table ?t) = Some i"
    using e assms(2,3) len by (auto simp: find_slot_Some fd_close_def)
  then have run: "fd_open node ?t = (int i, ?t\<lparr>fd_table := (fd_table ?t)[i :=
      (fd_table ?t ! i)\<lparr>fe_node := node, fe_offset := 0, fe_open := True\<rparr>]\<rparr>)"
    by (simp add: fd_open_def)
  have "k < 8" using assms(1,3,4,5) fd_ok_nth by fastforce
  then have "pipe_ok (pipe_pool t ! k)" using assms(1) by (simp add: fd_ok_def)
  then have out: "fst (pipe_read (unat sz) (pipe_pool t ! k)) = take (unat sz) (contents (pipe_pool t ! k))"
    by (simp add: pipe.rd_out)
  have pool: "pipe_pool ?t = pipe_pool t" by (simp add: fd_close_def)
  have l': "length (fd_table ?t) = 16" using len by (simp add: fd_close_def)
  show ?thesis
    unfolding run using assms(3,4,5) e [of i] out pool l'
    by (simp add: fd_read_def fd_valid_def Let_def case_prod_beta)
qed

subsection \<open>Witnesses\<close>

definition sample_fdt :: fdt where
  "sample_fdt = \<lparr>fd_table = (fd_blank\<lparr>fe_open := True, fe_node := 0x300010\<rparr>) # replicate 15 fd_blank,
     pipe_pool = replicate 8 pipe_init, pipe_used = replicate 8 False\<rparr>"

theorem fd_read_stream_witness:
  "\<exists>(s :: mem fs) t1 t2 a b. fd_read s 0 1 sample_fdt = Some (int (length a), a, t1) \<and>
     fd_read s 0 1 t1 = Some (int (length b), b, t2) \<and> a @ b = take 2 (file_bytes s 0x300010)"
proof -
  obtain m where m: "heap_ok m [(96, False), (144, False), (1048288, True)]" using sample_heap by blast
  note S = sample_fs_ok [OF m]
  have "fd_valid sample_fdt 0" "length (fd_table sample_fdt) = 16"
    "\<not> fe_is_pipe (fd_table sample_fdt ! nat 0)" "fe_node (fd_table sample_fdt ! nat 0) = 0x300010"
    "fe_offset (fd_table sample_fdt ! nat 0) = 0"
    by (simp_all add: sample_fdt_def fd_valid_def fd_blank_def)
  with fd_read_stream [OF S(1,3), of sample_fdt 0 1 1]
  have "\<exists>t1 t2 a b. fd_read (sample_fs m) 0 1 sample_fdt = Some (int (length a), a, t1) \<and>
     fd_read (sample_fs m) 0 1 t1 = Some (int (length b), b, t2) \<and>
     a @ b = take 2 (file_bytes (sample_fs m) 0x300010)" by (simp add: numeral_2_eq_2)
  then show ?thesis by blast
qed

lemma fd_reuse_reads_pipe_witness:
  "\<exists>t. fe_is_pipe (fd_table t ! 0) \<and>
     (case fd_open 0x300010 (fd_close 0 t) of (r, t') \<Rightarrow>
        r = 0 \<and> map_option (\<lambda>(r, out, t). out) (fd_read (sample_fs (\<lambda>_. 0)) r 5 t') = Some [7])"
proof -
  let ?t = "\<lparr>fd_table = (fd_blank\<lparr>fe_open := True, fe_is_pipe := True, fe_pipe := Some 0\<rparr>) # replicate 15 fd_blank,
     pipe_pool = snd (pipe_write [7] pipe_init) # replicate 7 pipe_init, pipe_used = replicate 8 False\<rparr>"
  have p: "pipe_ok (snd (pipe_write [7] pipe_init))" "contents (snd (pipe_write [7] pipe_init)) = [7]"
    using pipe_write_queue [OF pipe_init_ok(1), of "[7]"] pipe_init_ok(2)
    by (simp_all add: pipe_init_def del: pipe_write.simps)
  then have "fd_ok ?t" by (auto simp: fd_ok_def pipe_init_ok fd_blank_def simp del: pipe_write.simps)
  from fd_reuse_reads_pipe [OF this, of 0 0 "0x300010" "sample_fs (\<lambda>_. 0)" 5] p
  show ?thesis
    by (intro exI [of _ ?t]) (auto simp: fd_blank_def split: prod.splits simp del: pipe_write.simps)
qed

end
