(* ===== verification/Process.thy ===== *)
theory Process
  imports KString
begin

text \<open>
  \<^verbatim>\<open>kernel/process.c\<close>: the table of 16 processes.  A process pointer is a table index; the
  address of a stack array is computed from \<open>pt_base\<close>, the address the linker gave
  \<^verbatim>\<open>proc_table\<close>.  The polling loop of \<^verbatim>\<open>proc_wait\<close> is given the effect of the interrupts
  taken at each \<^verbatim>\<open>hlt\<close>, so that interleavings with the other processes are explicit.
\<close>

unbundle bit_operations_syntax

subsection \<open>State\<close>

datatype proc_state = PROC_UNUSED | PROC_READY | PROC_RUNNING | PROC_SLEEPING | PROC_DEAD | PROC_ZOMBIE

record cpu_context =
  c_eax :: u32
  c_ecx :: u32
  c_edx :: u32
  c_ebx :: u32
  c_esp :: u32
  c_ebp :: u32
  c_esi :: u32
  c_edi :: u32
  c_eip :: u32
  c_eflags :: u32

record process =
  pid :: u32
  parent_pid :: u32
  exit_code :: i32
  p_state :: proc_state
  ctx :: cpu_context
  stack_top :: u32
  stack :: "u8 list"
  p_name :: "u8 list"

record ptable =
  proc_table :: "process list"
  next_pid :: u32
  current_pid :: u32
  pt_base :: u32

definition PROC_MAX :: nat where "PROC_MAX = 16"
definition PROC_STACK_SIZE :: u32 where "PROC_STACK_SIZE = 4096"

lemmas proc_limits [simp] = PROC_MAX_def

definition ctx_zero :: cpu_context where
  "ctx_zero = \<lparr>c_eax = 0, c_ecx = 0, c_edx = 0, c_ebx = 0, c_esp = 0, c_ebp = 0, c_esi = 0,
     c_edi = 0, c_eip = 0, c_eflags = 0\<rparr>"

definition proc_zero :: process where
  "proc_zero = \<lparr>pid = 0, parent_pid = 0, exit_code = 0, p_state = PROC_UNUSED, ctx = ctx_zero,
     stack_top = 0, stack = replicate 4096 0, p_name = replicate 32 0\<rparr>"

text \<open>\<^verbatim>\<open>sizeof(process_t)\<close> is 4188 and \<^verbatim>\<open>stack\<close> is at offset 60.\<close>

definition stack_addr :: "ptable \<Rightarrow> nat \<Rightarrow> u32" where
  "stack_addr s i = pt_base s + of_nat (i * 4188 + 60)"

definition upd_proc :: "nat \<Rightarrow> (process \<Rightarrow> process) \<Rightarrow> ptable \<Rightarrow> ptable" where
  "upd_proc i f s = s\<lparr>proc_table := (proc_table s)[i := f (proc_table s ! i)]\<rparr>"

subsection \<open>Operations\<close>

definition proc_init :: "ptable \<Rightarrow> ptable" where
  "proc_init s = s\<lparr>proc_table := replicate PROC_MAX proc_zero\<rparr>"

definition proc_create :: "cstr \<Rightarrow> u32 \<Rightarrow> ptable \<Rightarrow> nat option \<times> ptable" where
  "proc_create name entry s =
     (case find_slot (\<lambda>p. p_state p = PROC_UNUSED) (proc_table s) of
        None \<Rightarrow> (None, s)
      | Some i \<Rightarrow>
        (let top = stack_addr s i + PROC_STACK_SIZE;
             p = proc_zero\<lparr>pid := next_pid s, p_state := PROC_READY,
               p_name := overlay (replicate 32 0) 0 (strncpy_bytes name 31),
               stack_top := top,
               ctx := ctx_zero\<lparr>c_esp := top, c_eip := entry, c_eflags := 0x202\<rparr>\<rparr>
         in (Some i, s\<lparr>next_pid := next_pid s + 1, proc_table := (proc_table s)[i := p]\<rparr>)))"

definition proc_cleanup :: "nat \<Rightarrow> ptable \<Rightarrow> ptable" where
  "proc_cleanup i s = s\<lparr>proc_table := (proc_table s)[i := proc_zero]\<rparr>"

definition proc_current :: "ptable \<Rightarrow> nat option" where
  "proc_current s = find_slot (\<lambda>p. pid p = current_pid s) (proc_table s)"

text \<open>\<open>proc_fork\<close>: the parent is read again after the child's fields were set, as the code does;
  the two may be the same slot.\<close>

definition proc_fork :: "u32 \<Rightarrow> ptable \<Rightarrow> nat option \<times> ptable" where
  "proc_fork parent_esp s =
     (case proc_current s of
        None \<Rightarrow> (None, s)
      | Some pa \<Rightarrow>
        (case find_slot (\<lambda>p. p_state p = PROC_UNUSED) (proc_table s) of
           None \<Rightarrow> (None, s)
         | Some ch \<Rightarrow>
           (let s = upd_proc ch (\<lambda>_. proc_table s ! pa) s;
                s = (upd_proc ch (\<lambda>p. p\<lparr>pid := next_pid s\<rparr>) s)\<lparr>next_pid := next_pid s + 1\<rparr>;
                s = upd_proc ch (\<lambda>p. p\<lparr>parent_pid := pid (proc_table s ! pa)\<rparr>) s;
                s = upd_proc ch (\<lambda>p. p\<lparr>p_state := PROC_READY\<rparr>) s;
                offset = parent_esp - stack_addr s pa;
                s = upd_proc ch (\<lambda>p. p\<lparr>stack := stack (proc_table s ! pa)\<rparr>) s;
                s = upd_proc ch (\<lambda>p. p\<lparr>stack_top := stack_addr s ch + PROC_STACK_SIZE\<rparr>) s;
                s = upd_proc ch (\<lambda>p. p\<lparr>ctx := (ctx p)\<lparr>c_esp := stack_addr s ch + offset\<rparr>\<rparr>) s;
                s = upd_proc ch (\<lambda>p. p\<lparr>ctx := (ctx p)\<lparr>c_eax := 0\<rparr>\<rparr>) s
            in (Some ch, s))))"

text \<open>One pass of the loop of \<open>proc_wait\<close>: the pid and exit code of the child it reaps.\<close>

definition wait_match :: "u32 \<Rightarrow> ptable \<Rightarrow> process \<Rightarrow> bool" where
  "wait_match child_pid s p \<longleftrightarrow> p_state p = PROC_ZOMBIE \<and>
     (if child_pid = - 1
      then (case proc_current s of None \<Rightarrow> False | Some c \<Rightarrow> parent_pid p = pid (proc_table s ! c))
      else pid p = child_pid)"

definition proc_wait_poll :: "u32 \<Rightarrow> ptable \<Rightarrow> (u32 \<times> i32 \<times> ptable) option" where
  "proc_wait_poll child_pid s =
     map_option (\<lambda>i. (pid (proc_table s ! i), exit_code (proc_table s ! i), proc_cleanup i s))
       (find_slot (wait_match child_pid s) (proc_table s))"

text \<open>The loop: \<open>irqs\<close> lists what happens to the table during each \<^verbatim>\<open>hlt\<close>; with no more of
  them the caller is still waiting (\<open>None\<close>).\<close>

fun proc_wait :: "(ptable \<Rightarrow> ptable) list \<Rightarrow> u32 \<Rightarrow> ptable \<Rightarrow> (u32 \<times> i32 \<times> ptable) option" where
  "proc_wait [] c s = proc_wait_poll c s"
| "proc_wait (irq # irqs) c s =
     (case proc_wait_poll c s of Some r \<Rightarrow> Some r | None \<Rightarrow> proc_wait irqs c (irq s))"

definition proc_getppid :: "ptable \<Rightarrow> u32" where
  "proc_getppid s = (case proc_current s of Some i \<Rightarrow> parent_pid (proc_table s ! i) | None \<Rightarrow> 0)"

definition proc_getpid :: "ptable \<Rightarrow> u32" where
  "proc_getpid s = current_pid s"

definition proc_set_current :: "u32 \<Rightarrow> ptable \<Rightarrow> ptable" where
  "proc_set_current p s = s\<lparr>current_pid := p\<rparr>"

definition proc_table_get :: "int \<Rightarrow> nat option" where
  "proc_table_get i = (if i < 0 \<or> i \<ge> int PROC_MAX then None else Some (nat i))"

subsection \<open>The invariant\<close>

definition used :: "process \<Rightarrow> bool" where
  "used p \<longleftrightarrow> p_state p \<noteq> PROC_UNUSED"

definition proc_ok :: "ptable \<Rightarrow> bool" where
  "proc_ok s \<longleftrightarrow> length (proc_table s) = 16 \<and> 0 < unat (next_pid s) \<and>
     (\<forall>i < 16. used (proc_table s ! i) \<longrightarrow>
        0 < unat (pid (proc_table s ! i)) \<and> unat (pid (proc_table s ! i)) < unat (next_pid s)) \<and>
     (\<forall>i < 16. \<not> used (proc_table s ! i) \<longrightarrow> pid (proc_table s ! i) = 0) \<and>
     (\<forall>i < 16. \<forall>j < 16. used (proc_table s ! i) \<longrightarrow> pid (proc_table s ! i) = pid (proc_table s ! j) \<longrightarrow> i = j)"

lemma proc_okD:
  assumes "proc_ok s"
  shows "length (proc_table s) = 16" "0 < unat (next_pid s)"
    "i < 16 \<Longrightarrow> used (proc_table s ! i) \<Longrightarrow> 0 < unat (pid (proc_table s ! i))"
    "i < 16 \<Longrightarrow> used (proc_table s ! i) \<Longrightarrow> unat (pid (proc_table s ! i)) < unat (next_pid s)"
    "i < 16 \<Longrightarrow> \<not> used (proc_table s ! i) \<Longrightarrow> pid (proc_table s ! i) = 0"
    "i < 16 \<Longrightarrow> j < 16 \<Longrightarrow> used (proc_table s ! i) \<Longrightarrow>
       pid (proc_table s ! i) = pid (proc_table s ! j) \<Longrightarrow> i = j"
  using assms unfolding proc_ok_def by blast+

lemma pid_fresh: "proc_ok s \<Longrightarrow> j < 16 \<Longrightarrow> pid (proc_table s ! j) \<noteq> next_pid s"
  using proc_okD(2,4,5) [of s] by (cases "used (proc_table s ! j)") (metis less_irrefl unsigned_0)+

lemma proc_init_ok [kinv]: "0 < unat (next_pid s) \<Longrightarrow> proc_ok (proc_init s)"
  by (simp add: proc_ok_def proc_init_def proc_zero_def used_def)

lemma proc_ok_fill:
  assumes ok: "proc_ok s" and i: "i < 16" "\<not> used (proc_table s ! i)"
    and p: "pid p = next_pid s" "used p" and n: "unat (next_pid s) < 4294967295"
  shows "proc_ok (s\<lparr>next_pid := next_pid s + 1, proc_table := (proc_table s)[i := p]\<rparr>)"
proof -
  have u: "unat (next_pid s + 1) = Suc (unat (next_pid s))" using n by (simp add: unat32_add)
  note ne = pid_fresh [OF ok]
  show ?thesis
    using proc_okD [OF ok] i p u ne
    unfolding proc_ok_def by (auto simp: nth_list_update less_Suc_eq) metis+
qed

lemma proc_ok_cleanup [kinv]: "proc_ok s \<Longrightarrow> i < 16 \<Longrightarrow> proc_ok (proc_cleanup i s)"
  unfolding proc_ok_def proc_cleanup_def
  by (auto simp: nth_list_update proc_zero_def used_def)

lemma proc_ok_upd [kinv]:
  "proc_ok s \<Longrightarrow> i < 16 \<Longrightarrow> pid (f (proc_table s ! i)) = pid (proc_table s ! i) \<Longrightarrow>
   used (f (proc_table s ! i)) = used (proc_table s ! i) \<Longrightarrow> proc_ok (upd_proc i f s)"
  unfolding proc_ok_def upd_proc_def by (auto simp: nth_list_update)

lemma proc_ok_current [kinv]: "proc_ok s \<Longrightarrow> proc_ok (proc_set_current c s)"
  by (simp add: proc_ok_def proc_set_current_def)

lemma find_unused:
  "proc_ok s \<Longrightarrow> find_slot (\<lambda>p. p_state p = PROC_UNUSED) (proc_table s) = Some i \<Longrightarrow>
   i < 16 \<and> \<not> used (proc_table s ! i)"
  by (auto simp: find_slot_Some used_def proc_okD(1))

lemma find_unused_None:
  "proc_ok s \<Longrightarrow> find_slot (\<lambda>p. p_state p = PROC_UNUSED) (proc_table s) = None \<longleftrightarrow>
     (\<forall>i < 16. used (proc_table s ! i))"
  by (simp add: find_slot_None used_def all_set_conv_all_nth proc_okD(1))

text \<open>The effect of \<open>proc_fork\<close> on a child slot other than the parent's.\<close>

lemma proc_fork_result:
  assumes "proc_ok s" "proc_current s = Some pa"
    "find_slot (\<lambda>p. p_state p = PROC_UNUSED) (proc_table s) = Some ch" "ch \<noteq> pa"
  shows "proc_fork e s = (Some ch, s\<lparr>next_pid := next_pid s + 1, proc_table := (proc_table s)[ch :=
    (proc_table s ! pa)\<lparr>pid := next_pid s, parent_pid := pid (proc_table s ! pa),
      p_state := PROC_READY, stack_top := stack_addr s ch + PROC_STACK_SIZE,
      ctx := (ctx (proc_table s ! pa))\<lparr>c_esp := stack_addr s ch + (e - stack_addr s pa), c_eax := 0\<rparr>\<rparr>]\<rparr>)"
proof -
  have "ch < length (proc_table s)" using assms(3) by (simp add: find_slot_Some)
  then show ?thesis
    using assms(2-4) by (simp add: proc_fork_def upd_proc_def Let_def stack_addr_def)
qed

subsection \<open>Properties\<close>

text \<open>
  \<^verbatim>\<open>proc_create\<close> fills the lowest unused slot with a ready process of a pid no other
  process has, whose stack pointer is the top of its own stack and whose instruction pointer is the
  entry; it fails only when all 16 slots are in use.  The table invariant (pids of processes are
  distinct, non-zero and below the next pid) is kept as long as the pid counter does not wrap.
\<close>

lemma proc_create_fresh:
  assumes "proc_ok s" "unat (next_pid s) < 4294967295"
  shows "case proc_create name entry s of
      (None, s') \<Rightarrow> s' = s \<and> (\<forall>i < 16. used (proc_table s ! i))
    | (Some i, s') \<Rightarrow> i < 16 \<and> \<not> used (proc_table s ! i) \<and> proc_ok s' \<and>
        p_state (proc_table s' ! i) = PROC_READY \<and>
        (\<forall>j < 16. j \<noteq> i \<longrightarrow> proc_table s' ! j = proc_table s ! j \<and>
           pid (proc_table s' ! i) \<noteq> pid (proc_table s ! j)) \<and>
        c_eip (ctx (proc_table s' ! i)) = entry \<and>
        c_esp (ctx (proc_table s' ! i)) = stack_addr s' i + PROC_STACK_SIZE"
proof (cases "find_slot (\<lambda>p. p_state p = PROC_UNUSED) (proc_table s)")
  case None
  then show ?thesis using find_unused_None [OF assms(1)] by (simp add: proc_create_def)
next
  case (Some i)
  note i = find_unused [OF assms(1) Some]
  obtain p where run: "proc_create name entry s = (Some i,
      s\<lparr>next_pid := next_pid s + 1, proc_table := (proc_table s)[i := p]\<rparr>)"
    and p: "pid p = next_pid s" "p_state p = PROC_READY" "c_eip (ctx p) = entry"
      "c_esp (ctx p) = stack_addr s i + PROC_STACK_SIZE"
    using Some by (simp add: proc_create_def Let_def)
  have "used p" using p(2) by (simp add: used_def)
  show ?thesis
    using run i p proc_okD(1) [OF assms(1)] proc_ok_fill [OF assms(1) _ _ p(1) \<open>used p\<close> assms(2), of i]
    by (auto simp: stack_addr_def pid_fresh [OF assms(1), THEN not_sym])
qed

text \<open>
  C9: \<^verbatim>\<open>proc_fork\<close> of a running parent makes a ready copy of it in an unused slot: fresh pid,
  the parent's pid as parent, the parent's registers except that the child sees 0 as the result and
  its stack pointer has the same offset in the child's own stack; the parent does not change.
\<close>

theorem proc_fork_child:
  assumes "proc_ok s" "unat (next_pid s) < 4294967295" "proc_current s = Some pa"
    "used (proc_table s ! pa)"
  shows "case proc_fork e s of
      (None, s') \<Rightarrow> s' = s \<and> (\<forall>i < 16. used (proc_table s ! i))
    | (Some ch, s') \<Rightarrow> ch < 16 \<and> ch \<noteq> pa \<and> proc_ok s' \<and>
        (\<forall>j < 16. j \<noteq> ch \<longrightarrow> proc_table s' ! j = proc_table s ! j) \<and>
        pid (proc_table s' ! ch) = next_pid s \<and>
        parent_pid (proc_table s' ! ch) = pid (proc_table s ! pa) \<and>
        p_state (proc_table s' ! ch) = PROC_READY \<and>
        stack (proc_table s' ! ch) = stack (proc_table s ! pa) \<and>
        ctx (proc_table s' ! ch) = (ctx (proc_table s ! pa))\<lparr>c_eax := 0,
          c_esp := stack_addr s ch + (e - stack_addr s pa)\<rparr>"
proof (cases "find_slot (\<lambda>p. p_state p = PROC_UNUSED) (proc_table s)")
  case None
  then show ?thesis using find_unused_None [OF assms(1)] assms(3) by (simp add: proc_fork_def)
next
  case (Some ch)
  note c = find_unused [OF assms(1) Some]
  have ne: "ch \<noteq> pa" using c assms(4) by auto
  let ?p = "(proc_table s ! pa)\<lparr>pid := next_pid s, parent_pid := pid (proc_table s ! pa),
      p_state := PROC_READY, stack_top := stack_addr s ch + PROC_STACK_SIZE,
      ctx := (ctx (proc_table s ! pa))\<lparr>c_esp := stack_addr s ch + (e - stack_addr s pa), c_eax := 0\<rparr>\<rparr>"
  have "proc_ok (s\<lparr>next_pid := next_pid s + 1, proc_table := (proc_table s)[ch := ?p]\<rparr>)"
    by (rule proc_ok_fill [OF assms(1)]) (use c assms(2) in \<open>auto simp: used_def\<close>)
  then show ?thesis
    unfolding proc_fork_result [OF assms(1,3) Some ne]
    using c ne proc_okD(1) [OF assms(1)] by simp
qed

text \<open>
  \<^verbatim>\<open>proc_wait\<close> for a pid returns as soon as that child is a zombie, whatever the interrupts
  did before: it yields the child's pid and exit code, frees exactly its slot, and never returns
  while the child is not a zombie.
\<close>

lemma proc_wait_reaps:
  assumes "proc_ok s" "c \<noteq> 0" "c \<noteq> - 1"
  shows "case proc_wait_poll c s of
      None \<Rightarrow> (\<forall>i < 16. pid (proc_table s ! i) = c \<longrightarrow> p_state (proc_table s ! i) \<noteq> PROC_ZOMBIE) \<and>
        (\<forall>irq irqs. proc_wait (irq # irqs) c s = proc_wait irqs c (irq s))
    | Some (r, code, s') \<Rightarrow> r = c \<and> proc_ok s' \<and> (\<forall>irqs. proc_wait irqs c s = Some (r, code, s')) \<and>
        (\<exists>i < 16. pid (proc_table s ! i) = c \<and> p_state (proc_table s ! i) = PROC_ZOMBIE \<and>
           code = exit_code (proc_table s ! i) \<and> \<not> used (proc_table s' ! i) \<and>
           (\<forall>j < 16. j \<noteq> i \<longrightarrow> proc_table s' ! j = proc_table s ! j))"
proof (cases "find_slot (wait_match c s) (proc_table s)")
  case None
  then have "\<forall>i < 16. \<not> wait_match c s (proc_table s ! i)"
    using proc_okD(1) [OF assms(1)] by (auto simp: find_slot_None)
  with None assms(3) show ?thesis by (auto simp: proc_wait_poll_def wait_match_def)
next
  case (Some i)
  then have i: "i < 16" "pid (proc_table s ! i) = c" "p_state (proc_table s ! i) = PROC_ZOMBIE"
    using proc_okD(1) [OF assms(1)] assms(3) by (auto simp: find_slot_Some wait_match_def)
  have poll: "proc_wait_poll c s = Some (c, exit_code (proc_table s ! i), proc_cleanup i s)"
    using Some i(2) by (simp add: proc_wait_poll_def)
  then have all: "proc_wait irqs c s = Some (c, exit_code (proc_table s ! i), proc_cleanup i s)" for irqs
    by (cases irqs) simp_all
  show ?thesis
    unfolding poll option.case prod.case
    using i all proc_ok_cleanup [OF assms(1) i(1)] proc_okD(1) [OF assms(1)]
    by (auto simp: proc_cleanup_def used_def proc_zero_def)
qed

subsection \<open>Witnesses\<close>

definition sample_procs :: ptable where
  "sample_procs = \<lparr>proc_table = proc_zero\<lparr>pid := 1, p_state := PROC_RUNNING\<rparr> #
      proc_zero\<lparr>pid := 2, parent_pid := 1, exit_code := 7, p_state := PROC_ZOMBIE\<rparr> # proc_zero # replicate 13 proc_zero,
    next_pid = 3, current_pid = 1, pt_base = 0x10000\<rparr>"

lemma sample_procs_ok: "proc_ok sample_procs" "unat (next_pid sample_procs) < 4294967295"
    "proc_current sample_procs = Some 0"
  by (auto simp: proc_ok_def sample_procs_def used_def proc_zero_def proc_current_def nth_Cons
      split: nat.splits)

lemma proc_create_fresh_witness:
  "\<exists>s'. proc_create (lit ''init'') 0x1000 sample_procs = (Some 2, s') \<and> proc_ok s'"
proof -
  have "fst (proc_create (lit ''init'') 0x1000 sample_procs) = Some 2"
    by (simp add: proc_create_def sample_procs_def proc_zero_def Let_def)
  then obtain s' where s': "proc_create (lit ''init'') 0x1000 sample_procs = (Some 2, s')"
    by (metis prod.collapse)
  with proc_create_fresh [OF sample_procs_ok(1,2), where name = "lit ''init''" and entry = "0x1000"] show ?thesis by simp
qed

theorem proc_fork_child_witness:
  "\<exists>s'. proc_fork 0x20000 sample_procs = (Some 2, s') \<and> parent_pid (proc_table s' ! 2) = 1"
proof -
  have "fst (proc_fork 0x20000 sample_procs) = Some 2"
    by (simp add: proc_fork_def sample_procs_def proc_zero_def proc_current_def Let_def)
  then obtain s' where s': "proc_fork 0x20000 sample_procs = (Some 2, s')"
    by (metis prod.collapse)
  have u: "used (proc_table sample_procs ! 0)" "pid (proc_table sample_procs ! 0) = 1"
    by (simp_all add: sample_procs_def used_def)
  show ?thesis
    using proc_fork_child [OF sample_procs_ok u(1), of "0x20000"] u s' by simp
qed

lemma proc_wait_reaps_witness:
  "\<exists>s'. proc_wait [] 2 sample_procs = Some (2, 7, s') \<and> proc_ok s'"
proof -
  obtain s' where "proc_wait_poll 2 sample_procs = Some (2, 7, s')"
    by (simp add: proc_wait_poll_def wait_match_def sample_procs_def proc_zero_def)
  with proc_wait_reaps [OF sample_procs_ok(1), of 2] show ?thesis by auto
qed

end
