(* ===== verification/Sched.thy ===== *)
theory Sched
  imports Process
begin

text \<open>
  \<^verbatim>\<open>kernel/sched.c\<close>: the round-robin scheduler on the interrupt frame.  \<open>dist16\<close> is the
  distance of a slot from the current one in table order; every switch that does not pick a ready
  process brings it closer, which bounds its waiting time.
\<close>

subsection \<open>The code\<close>

record registers =
  r_edi :: u32
  r_esi :: u32
  r_ebp :: u32
  r_esp_dummy :: u32
  r_ebx :: u32
  r_edx :: u32
  r_ecx :: u32
  r_eax :: u32
  r_int_no :: u32
  r_err_code :: u32
  r_eip :: u32
  r_cs :: u32
  r_eflags :: u32

record sched =
  sched_enabled :: bool
  tick_counter :: int
  procs :: ptable

definition SCHED_TICKS :: int where "SCHED_TICKS = 10"

definition pick_next :: "nat option \<Rightarrow> ptable \<Rightarrow> nat option" where
  "pick_next cur s =
     (let start = (case cur of Some c \<Rightarrow> (c + 1) mod PROC_MAX | None \<Rightarrow> 0)
      in case find_slot (\<lambda>i. p_state (proc_table s ! ((start + i) mod PROC_MAX)) = PROC_READY) [0..<PROC_MAX] of
           Some i \<Rightarrow> Some ((start + i) mod PROC_MAX)
         | None \<Rightarrow> cur)"

definition save_context :: "registers \<Rightarrow> process \<Rightarrow> process" where
  "save_context regs p = p\<lparr>ctx := \<lparr>c_eax = r_eax regs, c_ecx = r_ecx regs, c_edx = r_edx regs,
     c_ebx = r_ebx regs, c_esp = r_esp_dummy regs, c_ebp = r_ebp regs, c_esi = r_esi regs,
     c_edi = r_edi regs, c_eip = r_eip regs, c_eflags = r_eflags regs\<rparr>, p_state := PROC_READY\<rparr>"

definition load_context :: "cpu_context \<Rightarrow> registers \<Rightarrow> registers" where
  "load_context c regs = regs\<lparr>r_eax := c_eax c, r_ecx := c_ecx c, r_edx := c_edx c, r_ebx := c_ebx c,
     r_esp_dummy := c_esp c, r_ebp := c_ebp c, r_esi := c_esi c, r_edi := c_edi c, r_eip := c_eip c,
     r_eflags := c_eflags c\<rparr>"

definition sched_tick :: "registers \<Rightarrow> sched \<Rightarrow> registers \<times> sched" where
  "sched_tick regs s =
     (if \<not> sched_enabled s then (regs, s)
      else (let s = s\<lparr>tick_counter := tick_counter s + 1\<rparr>
            in if tick_counter s < SCHED_TICKS then (regs, s)
               else (let s = s\<lparr>tick_counter := 0\<rparr>;
                         cur = proc_current (procs s);
                         next = pick_next cur (procs s)
                     in if next = None \<or> next = cur then (regs, s)
                        else (let n = the next;
                                  t = (case cur of
                                         Some c \<Rightarrow> (if p_state (proc_table (procs s) ! c) = PROC_RUNNING
                                           then upd_proc c (save_context regs) (procs s) else procs s)
                                       | None \<Rightarrow> procs s);
                                  t = upd_proc n (\<lambda>p. p\<lparr>p_state := PROC_RUNNING\<rparr>) t;
                                  t = proc_set_current (pid (proc_table t ! n)) t
                              in (load_context (ctx (proc_table t ! n)) regs, s\<lparr>procs := t\<rparr>)))))"

definition sched_init :: "sched \<Rightarrow> sched" where
  "sched_init s = s\<lparr>sched_enabled := False, tick_counter := 0\<rparr>"

definition sched_start :: "sched \<Rightarrow> sched" where
  "sched_start s = s\<lparr>sched_enabled := True\<rparr>"

subsection \<open>The choice of the next process\<close>

definition ready :: "ptable \<Rightarrow> nat \<Rightarrow> bool" where
  "ready s i \<longleftrightarrow> p_state (proc_table s ! i) = PROC_READY"

text \<open>How many slots after \<open>c\<close> slot \<open>j\<close> comes, cyclically: 0 for its successor, 15 for
  \<open>c\<close> itself.\<close>

definition dist16 :: "nat \<Rightarrow> nat \<Rightarrow> nat" where
  "dist16 c j = (j + 15 - c) mod 16"

lemma dist16_alt:
  assumes "c < 16" "j < 16"
  shows "dist16 c j = (if c < j then j - c - 1 else j + 15 - c)"
proof (cases "c < j")
  case True
  then have "j + 15 - c = (j - c - 1) + 16" using assms by simp
  then have "dist16 c j = (j - c - 1) mod 16" by (simp only: dist16_def mod_add_self2)
  with True assms show ?thesis by simp
qed (use assms in \<open>simp add: dist16_def\<close>)

lemma wrap16: "k < 32 \<Longrightarrow> k mod 16 = (if k < 16 then k else k - 16)" for k :: nat
  by (simp add: mod_if)

lemma dist16_slot: "c < 16 \<Longrightarrow> j < 16 \<Longrightarrow> (Suc c mod 16 + dist16 c j) mod 16 = j"
  by (auto simp: dist16_alt wrap16)

lemma dist16_of: "c < 16 \<Longrightarrow> k < 16 \<Longrightarrow> dist16 c ((Suc c mod 16 + k) mod 16) = k"
  by (auto simp: dist16_alt wrap16)

lemma pick_next_Some:
  assumes "c < 16" "pick_next (Some c) s = Some n"
  shows "(\<exists>j < 16. ready s j) \<longrightarrow> n < 16 \<and> ready s n \<and> (\<forall>j < 16. ready s j \<longrightarrow> dist16 c n \<le> dist16 c j)"
    "\<not> (\<exists>j < 16. ready s j) \<longrightarrow> n = c"
proof -
  let ?P = "\<lambda>i. ready s ((Suc c mod 16 + i) mod 16)"
  have run: "pick_next (Some c) s = (case find_slot ?P [0..<16] of
      Some i \<Rightarrow> Some ((Suc c mod 16 + i) mod 16) | None \<Rightarrow> Some c)"
    by (simp add: pick_next_def ready_def Let_def split: option.split)
  show "(\<exists>j < 16. ready s j) \<longrightarrow> n < 16 \<and> ready s n \<and> (\<forall>j < 16. ready s j \<longrightarrow> dist16 c n \<le> dist16 c j)"
  proof
    assume "\<exists>j < 16. ready s j"
    then obtain j where j: "j < 16" "ready s j" by blast
    have "dist16 c j \<in> set [0..<16]" by (simp add: dist16_def)
    moreover have "?P (dist16 c j)" using dist16_slot [OF assms(1) j(1)] j(2) by simp
    ultimately obtain i where i: "find_slot ?P [0..<16] = Some i" using find_slot_ex by metis
    have i16: "i < 16" using i by (simp add: find_slot_Some)
    with i have I: "i < 16" "?P i" "\<forall>j < i. \<not> ?P j" by (simp_all add: find_slot_Some)
    have n: "n = (Suc c mod 16 + i) mod 16" using run i assms(2) by simp
    have "dist16 c n \<le> dist16 c j'" if "j' < 16" "ready s j'" for j'
    proof (rule ccontr)
      assume "\<not> dist16 c n \<le> dist16 c j'"
      then have "dist16 c j' < i" using dist16_of [OF assms(1), of i] I n by simp
      moreover have "ready s ((Suc c mod 16 + dist16 c j') mod 16)"
        using dist16_slot [OF assms(1) that(1)] that(2) by simp
      ultimately show False using I by auto
    qed
    then show "n < 16 \<and> ready s n \<and> (\<forall>j < 16. ready s j \<longrightarrow> dist16 c n \<le> dist16 c j)"
      using n I by simp
  qed
  show "\<not> (\<exists>j < 16. ready s j) \<longrightarrow> n = c"
  proof
    assume "\<not> (\<exists>j < 16. ready s j)"
    then have "find_slot ?P [0..<16] = None" by (simp add: find_slot_None)
    then show "n = c" using run assms(2) by simp
  qed
qed

subsection \<open>Properties\<close>


lemma sched_switch:
  assumes "sched_enabled s" "tick_counter s = 9" "proc_current (procs s) = Some c"
    "pick_next (Some c) (procs s) = Some n" "n \<noteq> c" "n < length (proc_table (procs s))"
    "c < length (proc_table (procs s))"
  shows "fst (sched_tick regs s) = load_context (ctx (proc_table (procs s) ! n)) regs"
    "proc_table (procs (snd (sched_tick regs s))) ! c =
       (if p_state (proc_table (procs s) ! c) = PROC_RUNNING
        then save_context regs (proc_table (procs s) ! c) else proc_table (procs s) ! c)"
    "current_pid (procs (snd (sched_tick regs s))) = pid (proc_table (procs s) ! n)"
    "p_state (proc_table (procs (snd (sched_tick regs s))) ! n) = PROC_RUNNING"
  using assms
  by (simp_all add: sched_tick_def SCHED_TICKS_def Let_def upd_proc_def proc_set_current_def)

text \<open>
  C20: a switch at the end of the quantum makes the picked process the running one, saves the
  whole register state of the interrupted process and marks it ready; when a later switch comes back
  to it, exactly the saved registers are restored into the interrupt frame.
\<close>

theorem sched_switch_roundtrip:
  assumes "sched_enabled s" "tick_counter s = 9" "proc_current (procs s) = Some c"
    "pick_next (Some c) (procs s) = Some n" "n \<noteq> c" "length (proc_table (procs s)) = 16" "c < 16" "n < 16"
    "p_state (proc_table (procs s) ! c) = PROC_RUNNING"
    and "sched_enabled s2" "tick_counter s2 = 9" "proc_current (procs s2) = Some n2"
    "pick_next (Some n2) (procs s2) = Some c" "n2 \<noteq> c" "length (proc_table (procs s2)) = 16" "n2 < 16"
    "proc_table (procs s2) ! c = proc_table (procs (snd (sched_tick regs s))) ! c"
  shows "current_pid (procs (snd (sched_tick regs s))) = pid (proc_table (procs s) ! n) \<and>
    p_state (proc_table (procs (snd (sched_tick regs s))) ! n) = PROC_RUNNING \<and>
    p_state (proc_table (procs (snd (sched_tick regs s))) ! c) = PROC_READY \<and>
    fst (sched_tick regs2 s2) =
      regs\<lparr>r_int_no := r_int_no regs2, r_err_code := r_err_code regs2, r_cs := r_cs regs2\<rparr>"
proof -
  have c1: "proc_table (procs (snd (sched_tick regs s))) ! c = save_context regs (proc_table (procs s) ! c)"
    using sched_switch(2) [OF assms(1-5), of regs] assms(6-9) by simp
  have "fst (sched_tick regs2 s2) = load_context (ctx (proc_table (procs s2) ! c)) regs2"
    by (rule sched_switch(1) [OF assms(10-13)]) (use assms(7,14-16) in auto)
  then show ?thesis
    using sched_switch(3,4) [OF assms(1-5), of regs] assms(6-8,17) c1
    by (simp add: save_context_def load_context_def)
qed

subsection \<open>Witnesses\<close>

definition two_procs :: ptable where
  "two_procs = \<lparr>proc_table = proc_zero\<lparr>pid := 1, p_state := PROC_RUNNING\<rparr> #
      proc_zero\<lparr>pid := 2, p_state := PROC_READY\<rparr> # replicate 14 proc_zero,
    next_pid = 3, current_pid = 1, pt_base = 0x10000\<rparr>"

definition regs_zero :: registers where
  "regs_zero = \<lparr>r_edi = 0, r_esi = 0, r_ebp = 0, r_esp_dummy = 0, r_ebx = 0, r_edx = 0, r_ecx = 0,
     r_eax = 0, r_int_no = 0, r_err_code = 0, r_eip = 0, r_cs = 8, r_eflags = 0x202\<rparr>"

definition two_sched :: sched where
  "two_sched = \<lparr>sched_enabled = True, tick_counter = 9, procs = two_procs\<rparr>"

lemma two_sched_facts:
  "sched_enabled two_sched" "tick_counter two_sched = 9" "proc_current (procs two_sched) = Some 0"
  "length (proc_table (procs two_sched)) = 16" "p_state (proc_table (procs two_sched) ! 0) = PROC_RUNNING"
  "ready two_procs 1"
  by (simp_all add: two_sched_def two_procs_def proc_current_def ready_def)

lemma two_pick: "pick_next (Some 0) two_procs = Some 1"
  by (simp add: pick_next_def two_procs_def upt_conv_Cons Let_def)


theorem sched_switch_roundtrip_witness:
  "\<exists>s2. fst (sched_tick (regs_zero\<lparr>r_eax := 5\<rparr>) s2) = regs_zero\<lparr>r_eip := 0x1234\<rparr>"
proof -
  let ?r = "regs_zero\<lparr>r_eip := 0x1234\<rparr>"
  let ?s1 = "snd (sched_tick ?r two_sched)"
  let ?s2 = "?s1\<lparr>tick_counter := 9\<rparr>"
  have p: "pick_next (Some 0) (procs two_sched) = Some 1" using two_pick by (simp add: two_sched_def)
  have run: "?s2 = \<lparr>sched_enabled = True, tick_counter = 9,
      procs = \<lparr>proc_table = save_context ?r (proc_zero\<lparr>pid := 1, p_state := PROC_RUNNING\<rparr>) #
        proc_zero\<lparr>pid := 2, p_state := PROC_RUNNING\<rparr> # replicate 14 proc_zero,
      next_pid = 3, current_pid = 2, pt_base = 0x10000\<rparr>\<rparr>"
    using p by (simp add: sched_tick_def two_sched_def two_procs_def SCHED_TICKS_def Let_def
        proc_current_def upd_proc_def proc_set_current_def save_context_def)
  have f2: "sched_enabled ?s2" "tick_counter ?s2 = 9" "proc_current (procs ?s2) = Some 1"
    "length (proc_table (procs ?s2)) = 16" "pick_next (Some 1) (procs ?s2) = Some 0"
    unfolding run by (simp_all add: proc_current_def pick_next_def save_context_def proc_zero_def
        upt_conv_Cons Let_def nth_Cons)
  have "fst (sched_tick (regs_zero\<lparr>r_eax := 5\<rparr>) ?s2) = ?r"
    using sched_switch_roundtrip [OF two_sched_facts(1-3) p _ two_sched_facts(4) _ _ two_sched_facts(5)
        f2(1-3,5) _ f2(4), of ?r "regs_zero\<lparr>r_eax := 5\<rparr>"]
    by (simp add: regs_zero_def)
  then show ?thesis by blast
qed

end
