(* ===== verification/Signal.thy ===== *)
theory Signal
  imports Process
begin

text \<open>
  \<^verbatim>\<open>kernel/signal.c\<close>: pending and mask bits per pid and the default actions.  A user handler is
  code outside the kernel: \<open>call\<close> is its effect on the signal and process tables.
\<close>

unbundle bit_operations_syntax

subsection \<open>The code\<close>

record sig_entry =
  sg_pid :: u32
  sg_pending :: u8
  sg_mask :: u8
  sg_used :: bool
  sg_handlers :: "u32 list"

definition SIG_MAX :: int where "SIG_MAX = 7"
definition SIGTERM :: int where "SIGTERM = 1"
definition SIGKILL :: int where "SIGKILL = 2"
definition SIGSTOP :: int where "SIGSTOP = 3"
definition SIGCONT :: int where "SIGCONT = 4"
definition SIGCHLD :: int where "SIGCHLD = 8"
definition SIG_TABLE_SIZE :: nat where "SIG_TABLE_SIZE = 16"

lemmas sig_numbers = SIG_MAX_def SIGTERM_def SIGKILL_def SIGSTOP_def SIGCONT_def SIGCHLD_def

definition sig_blank :: sig_entry where
  "sig_blank = \<lparr>sg_pid = 0, sg_pending = 0, sg_mask = 0, sg_used = False, sg_handlers = replicate 7 0\<rparr>"

definition signal_init :: "sig_entry list" where
  "signal_init = replicate SIG_TABLE_SIZE sig_blank"

definition sig_bit :: "int \<Rightarrow> u8" where
  "sig_bit signo = push_bit (nat (signo - 1)) 1"

definition sig_hit :: "u32 \<Rightarrow> sig_entry \<Rightarrow> bool" where
  "sig_hit p e \<longleftrightarrow> sg_used e \<and> sg_pid e = p"

definition find_or_alloc :: "u32 \<Rightarrow> sig_entry list \<Rightarrow> nat option \<times> sig_entry list" where
  "find_or_alloc p t =
     (case find_slot (sig_hit p) t of
        Some i \<Rightarrow> (Some i, t)
      | None \<Rightarrow>
        (case find_slot (\<lambda>e. \<not> sg_used e) t of
           Some i \<Rightarrow> (Some i, t[i := (t ! i)\<lparr>sg_pid := p, sg_pending := 0, sg_used := True\<rparr>])
         | None \<Rightarrow> (None, t)))"

definition signal_send :: "u32 \<Rightarrow> int \<Rightarrow> sig_entry list \<Rightarrow> sig_entry list" where
  "signal_send p signo t =
     (if signo < 1 \<or> signo \<ge> SIG_MAX then t
      else (case find_or_alloc p t of
              (Some i, t) \<Rightarrow> t[i := (t ! i)\<lparr>sg_pending := sg_pending (t ! i) OR sig_bit signo\<rparr>]
            | (None, t) \<Rightarrow> t))"

definition signal_set_handler :: "u32 \<Rightarrow> int \<Rightarrow> u32 \<Rightarrow> sig_entry list \<Rightarrow> sig_entry list" where
  "signal_set_handler p signo handler t =
     (if signo < 1 \<or> signo \<ge> SIG_MAX then t
      else (case find_or_alloc p t of
              (Some i, t) \<Rightarrow> t[i := (t ! i)\<lparr>sg_handlers := (sg_handlers (t ! i))[nat (signo - 1) := handler]\<rparr>]
            | (None, t) \<Rightarrow> t))"

definition signal_get_handler :: "u32 \<Rightarrow> int \<Rightarrow> sig_entry list \<Rightarrow> u32" where
  "signal_get_handler p signo t =
     (if signo < 1 \<or> signo \<ge> SIG_MAX then 0
      else (case find_slot (sig_hit p) t of
              Some i \<Rightarrow> sg_handlers (t ! i) ! nat (signo - 1)
            | None \<Rightarrow> 0))"

definition signal_set_mask :: "u32 \<Rightarrow> int \<Rightarrow> u8 \<Rightarrow> sig_entry list \<Rightarrow> sig_entry list" where
  "signal_set_mask p how msk t =
     (case find_or_alloc p t of
        (None, t) \<Rightarrow> t
      | (Some i, t) \<Rightarrow>
        (if how = 0 then t[i := (t ! i)\<lparr>sg_mask := sg_mask (t ! i) OR msk\<rparr>]
         else if how = 1 then t[i := (t ! i)\<lparr>sg_mask := sg_mask (t ! i) AND NOT msk\<rparr>]
         else if how = 2 then t[i := (t ! i)\<lparr>sg_mask := msk\<rparr>]
         else t))"

text \<open>The default action of a signal on the process table.\<close>

definition default_action :: "int \<Rightarrow> ptable \<Rightarrow> ptable" where
  "default_action s pt =
     (case proc_current pt of
        None \<Rightarrow> pt
      | Some i \<Rightarrow>
        (if s = SIGKILL \<or> s = SIGTERM
         then upd_proc i (\<lambda>p. p\<lparr>exit_code := - of_int s, p_state := PROC_ZOMBIE\<rparr>) pt
         else if s = SIGSTOP then upd_proc i (\<lambda>p. p\<lparr>p_state := PROC_SLEEPING\<rparr>) pt
         else if s = SIGCONT then upd_proc i (\<lambda>p. p\<lparr>p_state := PROC_READY\<rparr>) pt
         else pt))"

type_synonym sig_world = "sig_entry list \<times> ptable"

definition dispatch_one ::
  "(u32 \<Rightarrow> int \<Rightarrow> sig_world \<Rightarrow> sig_world) \<Rightarrow> nat \<Rightarrow> int \<Rightarrow> sig_world \<Rightarrow> sig_world" where
  "dispatch_one call e s w =
     (let (t, pt) = w
      in if sg_pending (t ! e) AND sig_bit s = 0 then w
         else if sg_mask (t ! e) AND sig_bit s \<noteq> 0 then w
         else (let t = t[e := (t ! e)\<lparr>sg_pending := sg_pending (t ! e) AND NOT (sig_bit s)\<rparr>];
                   h = sg_handlers (t ! e) ! nat (s - 1)
               in if h \<noteq> 0 \<and> h > 1 then call h s (t, pt) else (t, default_action s pt)))"

text \<open>The scan has no \<^verbatim>\<open>break\<close>: the last matching entry is taken.\<close>

definition sig_last :: "u32 \<Rightarrow> sig_entry list \<Rightarrow> nat option" where
  "sig_last p t = foldl (\<lambda>e i. if sig_hit p (t ! i) then Some i else e) None [0..<length t]"

definition signal_dispatch ::
  "(u32 \<Rightarrow> int \<Rightarrow> sig_world \<Rightarrow> sig_world) \<Rightarrow> u32 \<Rightarrow> sig_world \<Rightarrow> sig_world" where
  "signal_dispatch call p w =
     (case sig_last p (fst w) of
        None \<Rightarrow> w
      | Some e \<Rightarrow> (if sg_pending (fst w ! e) = 0 then w
                  else foldl (\<lambda>w s. dispatch_one call e s w) w [1, 2, 3, 4, 5, 6]))"

subsection \<open>The invariant\<close>

definition sig_ok :: "sig_entry list \<Rightarrow> bool" where
  "sig_ok t \<longleftrightarrow> length t = 16 \<and> (\<forall>e \<in> set t. length (sg_handlers e) = 7) \<and>
     (\<forall>i < 16. \<forall>j < 16. sg_used (t ! i) \<longrightarrow> sg_used (t ! j) \<longrightarrow> sg_pid (t ! i) = sg_pid (t ! j) \<longrightarrow> i = j)"

lemma sig_ok_upd [kinv]:
  "sig_ok t \<Longrightarrow> i < 16 \<Longrightarrow> length (sg_handlers e) = 7 \<Longrightarrow> sg_used e = sg_used (t ! i) \<Longrightarrow>
   sg_pid e = sg_pid (t ! i) \<Longrightarrow> sig_ok (t[i := e])"
  unfolding sig_ok_def
  by (auto simp: nth_list_update dest!: set_update_cases)

lemma sig_ok_nth: "sig_ok t \<Longrightarrow> i < 16 \<Longrightarrow> length (sg_handlers (t ! i)) = 7"
  by (auto simp: sig_ok_def)

lemma find_or_alloc_result:
  assumes "sig_ok t" "find_or_alloc p t = (r, t')"
  shows "sig_ok t' \<and> (case r of
      Some i \<Rightarrow> i < 16 \<and> sig_hit p (t' ! i) \<and> (\<forall>j < 16. j \<noteq> i \<longrightarrow> t' ! j = t ! j) \<and>
        (if find_slot (sig_hit p) t \<noteq> None then t' = t else sg_pending (t' ! i) = 0)
    | None \<Rightarrow> t' = t)"
proof (cases "find_slot (sig_hit p) t")
  case (Some i)
  then have "r = Some i" "t' = t" using assms(2) by (auto simp: find_or_alloc_def)
  with Some assms(1) show ?thesis by (auto simp: find_slot_Some sig_ok_def)
next
  case None
  then have np: "\<not> sig_hit p (t ! j)" if "j < 16" for j
    using assms(1) that by (auto simp: find_slot_None sig_ok_def)
  show ?thesis
  proof (cases "find_slot (\<lambda>e. \<not> sg_used e) t")
    case n: None
    then show ?thesis using assms None by (auto simp: find_or_alloc_def)
  next
    case (Some i)
    then have i: "i < 16" "\<not> sg_used (t ! i)" using assms(1) by (auto simp: find_slot_Some sig_ok_def)
    have t': "r = Some i" "t' = t[i := (t ! i)\<lparr>sg_pid := p, sg_pending := 0, sg_used := True\<rparr>]"
      using assms(2) None Some by (auto simp: find_or_alloc_def)
    have len: "length t = 16" using assms(1) by (simp add: sig_ok_def)
    have nth: "t' ! a = (if a = i then (t ! i)\<lparr>sg_pid := p, sg_pending := 0, sg_used := True\<rparr> else t ! a)"
      if "a < 16" for a
      using i(1) len that by (simp add: t'(2) nth_list_update)
    have "sig_ok t'"
      unfolding sig_ok_def
    proof (intro conjI allI impI ballI)
      show "length t' = 16" by (simp add: t'(2) len)
      fix e assume "e \<in> set t'"
      then show "length (sg_handlers e) = 7"
        using assms(1) sig_ok_nth [OF assms(1) i(1)] unfolding t'(2)
        by (auto simp: sig_ok_def dest!: set_update_cases)
    next
      fix a b assume "a < 16" "b < 16" "sg_used (t' ! a)" "sg_used (t' ! b)" "sg_pid (t' ! a) = sg_pid (t' ! b)"
      then show "a = b"
        using np [of a] np [of b] assms(1) by (auto simp: nth sig_hit_def sig_ok_def split: if_splits)
    qed
    then show ?thesis
      using i None nth by (auto simp: t'(1) sig_hit_def)
  qed
qed

lemma signal_send_ok [kinv]: "sig_ok t \<Longrightarrow> sig_ok (signal_send p s t)"
  using find_or_alloc_result [of t p]
  by (auto simp: signal_send_def sig_ok_nth intro!: sig_ok_upd split: prod.splits option.splits)

lemma signal_set_handler_ok [kinv]: "sig_ok t \<Longrightarrow> sig_ok (signal_set_handler p s h t)"
  using find_or_alloc_result [of t p]
  by (auto simp: signal_set_handler_def sig_ok_nth intro!: sig_ok_upd split: prod.splits option.splits)

lemma signal_set_mask_ok [kinv]: "sig_ok t \<Longrightarrow> sig_ok (signal_set_mask p how m t)"
  using find_or_alloc_result [of t p]
  by (auto simp: signal_set_mask_def sig_ok_nth intro!: sig_ok_upd split: prod.splits option.splits)

lemma signal_init_ok [kinv]: "sig_ok signal_init"
  by (auto simp: sig_ok_def signal_init_def SIG_TABLE_SIZE_def sig_blank_def)

subsection \<open>Delivery with default handlers\<close>

definition deliverable :: "sig_entry \<Rightarrow> int \<Rightarrow> bool" where
  "deliverable e s \<longleftrightarrow> bit (sg_pending e) (nat (s - 1)) \<and> \<not> bit (sg_mask e) (nat (s - 1))"

lemma sig_bit_test: "x AND sig_bit s = 0 \<longleftrightarrow> \<not> bit x (nat (s - 1))"
  by (simp add: sig_bit_def and_exp_eq_0_iff_not_bit)

text \<open>The state of a process after the signals it has pending were delivered in order.\<close>

definition after_signals :: "(int \<Rightarrow> bool) \<Rightarrow> proc_state \<Rightarrow> proc_state" where
  "after_signals dl st =
     (if dl SIGCONT then PROC_READY
      else if dl SIGSTOP then PROC_SLEEPING
      else if dl SIGKILL \<or> dl SIGTERM then PROC_ZOMBIE
      else st)"

lemma sig_bit_not: "bit (x AND NOT (sig_bit s)) n \<longleftrightarrow> bit x n \<and> n \<noteq> nat (s - 1)" if "n < 8" for x :: u8
  using that by (auto simp: sig_bit_def bit_simps)

lemma dispatch_one_default:
  assumes "e < length t" "1 \<le> s" "s \<le> 6" "\<forall>h \<in> set (sg_handlers (t ! e)). h \<le> 1"
    "length (sg_handlers (t ! e)) = 7"
  shows "dispatch_one call e s (t, pt) =
    (if deliverable (t ! e) s
     then (t[e := (t ! e)\<lparr>sg_pending := sg_pending (t ! e) AND NOT (sig_bit s)\<rparr>], default_action s pt)
     else (t, pt))"
proof -
  have "nat (s - 1) < 7" using assms(2,3) by simp
  then have "sg_handlers (t ! e) ! nat (s - 1) \<le> 1" using assms(4,5) by simp
  moreover have "sg_handlers (t ! e) ! nat (s - 1) = 0 \<or> \<not> 1 < sg_handlers (t ! e) ! nat (s - 1)"
    using calculation by auto
  ultimately show ?thesis
    using assms(1) by (auto simp: dispatch_one_def deliverable_def Let_def sig_bit_test)
qed

definition deliver :: "nat \<Rightarrow> int \<Rightarrow> sig_world \<Rightarrow> sig_world" where
  "deliver e s w = (if deliverable (fst w ! e) s
     then ((fst w)[e := (fst w ! e)\<lparr>sg_pending := sg_pending (fst w ! e) AND NOT (sig_bit s)\<rparr>],
       default_action s (snd w)) else w)"

definition world_ok :: "nat \<Rightarrow> sig_world \<Rightarrow> bool" where
  "world_ok e w \<longleftrightarrow> e < length (fst w) \<and> length (sg_handlers (fst w ! e)) = 7 \<and>
     (\<forall>h \<in> set (sg_handlers (fst w ! e)). h \<le> 1)"

lemma deliver_ok: "world_ok e w \<Longrightarrow> world_ok e (deliver e s w)"
  by (auto simp: world_ok_def deliver_def)

lemma dispatch_deliver: "world_ok e w \<Longrightarrow> 1 \<le> s \<Longrightarrow> s \<le> 6 \<Longrightarrow> dispatch_one call e s w = deliver e s w"
  using dispatch_one_default [of e "fst w" s call "snd w"] by (simp add: world_ok_def deliver_def)

lemma deliver_fields:
  assumes "e < length (fst w)"
  shows "sg_mask (fst (deliver e s w) ! e) = sg_mask (fst w ! e)"
    "n < 8 \<Longrightarrow> bit (sg_pending (fst (deliver e s w) ! e)) n \<longleftrightarrow>
       bit (sg_pending (fst w ! e)) n \<and> (n = nat (s - 1) \<longrightarrow> bit (sg_mask (fst w ! e)) n)"
    "length (fst (deliver e s w)) = length (fst w)"
  using assms by (auto simp: deliver_def deliverable_def sig_bit_not)

lemma deliverable_after:
  assumes "e < length (fst w)" "1 \<le> s" "s \<le> 6" "1 \<le> r" "r \<le> 6"
  shows "deliverable (fst (deliver e s w) ! e) r \<longleftrightarrow> deliverable (fst w ! e) r \<and> r \<noteq> s"
proof -
  have "nat (r - 1) < 8" "nat (r - 1) = nat (s - 1) \<longleftrightarrow> r = s" using assms by auto
  then show ?thesis
    using deliver_fields(2) [OF assms(1), where n = "nat (r - 1)" and s = s] deliver_fields(1) [OF assms(1), of s]
    by (auto simp: deliverable_def)
qed

lemma default_action_current:
  assumes "proc_current pt = Some i" "i < length (proc_table pt)"
  shows "proc_current (default_action s pt) = Some i" "length (proc_table (default_action s pt)) = length (proc_table pt)"
    "p_state (proc_table (default_action s pt) ! i) =
       (if s = SIGKILL \<or> s = SIGTERM then PROC_ZOMBIE else if s = SIGSTOP then PROC_SLEEPING
        else if s = SIGCONT then PROC_READY else p_state (proc_table pt ! i))"
    "j \<noteq> i \<Longrightarrow> proc_table (default_action s pt) ! j = proc_table pt ! j"
proof -
  have "proc_current (upd_proc i f pt) = Some i"
    if "pid (f (proc_table pt ! i)) = pid (proc_table pt ! i)" for f
  proof -
    have "find_slot (\<lambda>p. pid p = current_pid pt) ((proc_table pt)[i := f (proc_table pt ! i)]) =
        find_slot (\<lambda>p. pid p = current_pid pt) (proc_table pt)"
      by (rule find_slot_cong) (use that assms(2) in \<open>auto simp: nth_list_update\<close>)
    then show ?thesis using assms(1) by (simp add: proc_current_def upd_proc_def)
  qed
  then show "proc_current (default_action s pt) = Some i" using assms(1) by (simp add: default_action_def)
qed (use assms in \<open>auto simp: default_action_def upd_proc_def\<close>)

definition act :: "int \<Rightarrow> proc_state \<Rightarrow> proc_state" where
  "act s st = (if s = SIGKILL \<or> s = SIGTERM then PROC_ZOMBIE else if s = SIGSTOP then PROC_SLEEPING
     else if s = SIGCONT then PROC_READY else st)"

lemma deliver_proc:
  assumes "proc_current (snd w) = Some i" "i < length (proc_table (snd w))"
  shows "proc_current (snd (deliver e s w)) = Some i"
    "length (proc_table (snd (deliver e s w))) = length (proc_table (snd w))"
    "p_state (proc_table (snd (deliver e s w)) ! i) =
       (if deliverable (fst w ! e) s then act s (p_state (proc_table (snd w) ! i))
        else p_state (proc_table (snd w) ! i))"
    "j \<noteq> i \<Longrightarrow> proc_table (snd (deliver e s w)) ! j = proc_table (snd w) ! j"
  using assms default_action_current [OF assms] by (simp_all add: deliver_def act_def)

definition delivered :: "nat \<Rightarrow> nat \<Rightarrow> int list \<Rightarrow> sig_world \<Rightarrow> sig_world \<Rightarrow> bool" where
  "delivered e i ss w w' \<longleftrightarrow> world_ok e w' \<and> sg_mask (fst w' ! e) = sg_mask (fst w ! e) \<and>
     (\<forall>n < 6. bit (sg_pending (fst w' ! e)) n \<longleftrightarrow>
        bit (sg_pending (fst w ! e)) n \<and> (int n + 1 \<in> set ss \<longrightarrow> bit (sg_mask (fst w ! e)) n)) \<and>
     proc_current (snd w') = Some i \<and> i < length (proc_table (snd w')) \<and>
     p_state (proc_table (snd w') ! i) =
       foldl (\<lambda>st s. if deliverable (fst w ! e) s then act s st else st) (p_state (proc_table (snd w) ! i)) ss \<and>
     (\<forall>j. j \<noteq> i \<longrightarrow> proc_table (snd w') ! j = proc_table (snd w) ! j)"

lemma foldl_dispatch:
  "world_ok e w \<Longrightarrow> proc_current (snd w) = Some i \<Longrightarrow> i < length (proc_table (snd w)) \<Longrightarrow>
   \<forall>s \<in> set ss. 1 \<le> s \<and> s \<le> 6 \<Longrightarrow> distinct ss \<Longrightarrow>
   delivered e i ss w (foldl (\<lambda>w s. dispatch_one call e s w) w ss)"
proof (induction ss rule: rev_induct)
  case Nil
  then show ?case by (simp add: delivered_def)
next
  case (snoc s ss)
  define w1 where "w1 = foldl (\<lambda>w s. dispatch_one call e s w) w ss"
  have IH: "delivered e i ss w w1" unfolding w1_def by (rule snoc.IH) (use snoc.prems in auto)
  then have ok: "world_ok e w1" and pc: "proc_current (snd w1) = Some i" "i < length (proc_table (snd w1))"
    by (auto simp: delivered_def)
  have s: "1 \<le> s" "s \<le> 6" "s \<notin> set ss" using snoc.prems by auto
  have el: "e < length (fst w1)" using ok by (simp add: world_ok_def)
  have run: "foldl (\<lambda>w s. dispatch_one call e s w) w (ss @ [s]) = deliver e s w1"
    using dispatch_deliver [OF ok s(1,2)] by (simp add: w1_def)
  have sn: "nat (s - 1) < 6" "int (nat (s - 1)) + 1 = s" using s by auto
  have same: "deliverable (fst w1 ! e) s = deliverable (fst w ! e) s"
    using IH sn s(3) by (simp add: delivered_def deliverable_def)
  have bits: "bit (sg_pending (fst (deliver e s w1) ! e)) n \<longleftrightarrow>
      bit (sg_pending (fst w1 ! e)) n \<and> (n = nat (s - 1) \<longrightarrow> bit (sg_mask (fst w1 ! e)) n)" if "n < 6" for n
    using deliver_fields(2) [OF el, where n = n and s = s] that by simp
  have ns: "n = nat (s - 1) \<longleftrightarrow> int n + 1 = s" for n using s(1) by auto
  show ?case
    unfolding run delivered_def
    using IH deliver_ok [OF ok] deliver_fields(1) [OF el] bits deliver_proc [OF pc, where e = e and s = s] same pc(2) ns
    by (auto simp: delivered_def)
qed

subsection \<open>Properties\<close>

text \<open>
  dispatching the signals of a pid that has no user handlers clears exactly the pending
  signals that are not masked, and applies the default actions, in increasing order of number, to
  the current process, whichever pid the signals were sent to: a pending SIGCONT makes the process
  ready even when SIGKILL was delivered in the same dispatch.
\<close>

lemma signal_dispatch_default:
  assumes "sig_last p t = Some e" "e < length t" "length (sg_handlers (t ! e)) = 7"
    "\<forall>h \<in> set (sg_handlers (t ! e)). h \<le> 1" "sg_pending (t ! e) \<noteq> 0"
    "proc_current pt = Some i" "i < length (proc_table pt)"
  shows "\<exists>t' pt'. signal_dispatch call p (t, pt) = (t', pt') \<and>
    (\<forall>n < 6. bit (sg_pending (t' ! e)) n \<longleftrightarrow> bit (sg_pending (t ! e)) n \<and> bit (sg_mask (t ! e)) n) \<and>
    p_state (proc_table pt' ! i) = after_signals (deliverable (t ! e)) (p_state (proc_table pt ! i)) \<and>
    (\<forall>j. j \<noteq> i \<longrightarrow> proc_table pt' ! j = proc_table pt ! j)"
proof -
  define ss :: "int list" where "ss = [1, 2, 3, 4, 5, 6]"
  define w where "w = foldl (\<lambda>w s. dispatch_one call e s w) (t, pt) ss"
  have "delivered e i ss (t, pt) w"
    unfolding w_def by (rule foldl_dispatch) (use assms in \<open>auto simp: world_ok_def ss_def\<close>)
  then have D: "\<forall>n < 6. bit (sg_pending (fst w ! e)) n \<longleftrightarrow>
        bit (sg_pending (t ! e)) n \<and> (int n + 1 \<in> set ss \<longrightarrow> bit (sg_mask (t ! e)) n)"
      "p_state (proc_table (snd w) ! i) = foldl (\<lambda>st s. if deliverable (t ! e) s then act s st else st)
        (p_state (proc_table pt ! i)) ss"
      "\<forall>j. j \<noteq> i \<longrightarrow> proc_table (snd w) ! j = proc_table pt ! j"
    by (simp_all add: delivered_def)
  have "int n + 1 \<in> set ss" if "n < 6" for n using that by (auto simp: ss_def)
  with D(1) have "\<forall>n < 6. bit (sg_pending (fst w ! e)) n \<longleftrightarrow>
      bit (sg_pending (t ! e)) n \<and> bit (sg_mask (t ! e)) n" by blast
  moreover have "foldl (\<lambda>st s. if deliverable (t ! e) s then act s st else st) st ss =
      after_signals (deliverable (t ! e)) st" for st
    by (simp add: act_def after_signals_def sig_numbers ss_def)
  moreover have "signal_dispatch call p (t, pt) = (fst w, snd w)"
    using assms(1,5) by (simp add: signal_dispatch_def w_def ss_def)
  ultimately show ?thesis using D(2,3) by (intro exI [of _ "fst w"] exI [of _ "snd w"]) simp
qed

lemma signal_dispatch_default_witness:
  "\<exists>t' pt'. signal_dispatch (\<lambda>_ _ w. w) 1
      (sig_blank\<lparr>sg_pid := 1, sg_used := True, sg_pending := 10\<rparr> # replicate 15 sig_blank, sample_procs) = (t', pt') \<and>
    p_state (proc_table pt' ! 0) = PROC_READY"
proof -
  let ?e = "sig_blank\<lparr>sg_pid := 1, sg_used := True, sg_pending := 10\<rparr>"
  let ?t = "?e # replicate 15 sig_blank"
  have last: "sig_last 1 ?t = Some 0"
    by (simp add: sig_last_def sig_hit_def sig_blank_def upt_conv_Cons)
  have "deliverable ?e SIGCONT" "deliverable ?e SIGKILL"
    by (simp_all add: deliverable_def sig_numbers sig_blank_def)
  then have "after_signals (deliverable (?t ! 0)) (p_state (proc_table sample_procs ! 0)) = PROC_READY"
    by (simp add: after_signals_def)
  then show ?thesis
    using signal_dispatch_default [OF last, of sample_procs 0 "\<lambda>_ _ w. w"] sample_procs_ok(3)
    by (auto simp: sig_blank_def sample_procs_def)
qed

text \<open>
  The child-death signal SIGCHLD has number 8, above the limit of 7 that \<^verbatim>\<open>signal_send\<close>
  accepts, so sending it never changes anything.
\<close>

lemma sigchld_never_sent: "signal_send p SIGCHLD t = t"
  by (simp add: signal_send_def sig_numbers)

end
