(* ===== verification/Vga.thy ===== *)
theory Vga
  imports Prelude
begin

text \<open>
  \<^verbatim>\<open>kernel/vga.c\<close>: the text screen of 25 rows of 80 cells.  The cursor is a pair of natural
  numbers (it never gets negative).  Port accesses of \<^verbatim>\<open>vga_init\<close> are the list of writes it makes.
\<close>

unbundle bit_operations_syntax

subsection \<open>The code\<close>

record vga =
  fb :: "u16 list" \<comment> \<open>the 2000 cells at \<^verbatim>\<open>VGA_BASE\<close>\<close>
  cursor_x :: nat
  cursor_y :: nat
  cur_attr :: u8

definition VGA_WIDTH :: nat where "VGA_WIDTH = 80"
definition VGA_HEIGHT :: nat where "VGA_HEIGHT = 25"

lemmas vga_size [simp] = VGA_WIDTH_def VGA_HEIGHT_def

definition make_attr :: "u8 \<Rightarrow> u8 \<Rightarrow> u8" where
  "make_attr fg bg = push_bit 4 bg OR (fg AND 0x0F)"

definition vga_cell :: "u8 \<Rightarrow> u8 \<Rightarrow> u16" where
  "vga_cell attr c = push_bit 8 (ucast attr) OR ucast c"

definition fb_write :: "nat \<Rightarrow> nat \<Rightarrow> u8 \<Rightarrow> u8 \<Rightarrow> vga \<Rightarrow> vga" where
  "fb_write col row c attr v = v\<lparr>fb := (fb v)[row * VGA_WIDTH + col := vga_cell attr c]\<rparr>"

definition vga_clear :: "vga \<Rightarrow> vga" where
  "vga_clear v = v\<lparr>fb := replicate (VGA_WIDTH * VGA_HEIGHT) (vga_cell (cur_attr v) 32),
     cursor_x := 0, cursor_y := 0\<rparr>"

definition vga_set_color :: "u8 \<Rightarrow> u8 \<Rightarrow> vga \<Rightarrow> vga" where
  "vga_set_color fg bg v = v\<lparr>cur_attr := make_attr fg bg\<rparr>"

text \<open>\<open>vga_init\<close>: \<open>md\<close> is what port \<^verbatim>\<open>0x3C1\<close> reads.\<close>

definition vga_init :: "u8 \<Rightarrow> vga \<Rightarrow> (u16 \<times> u8) list \<times> vga" where
  "vga_init md v =
     ([(0x3C0, 0x10), (0x3C0, md AND NOT 0x08), (0x3C0, 0x20),
       (0x3D4, 0x0F), (0x3D5, 0xFF), (0x3D4, 0x0E), (0x3D5, 0xFF)],
      vga_clear (v\<lparr>cur_attr := make_attr 7 0\<rparr>))"

fun blank_row :: "nat \<Rightarrow> vga \<Rightarrow> vga" where
  "blank_row 0 v = v"
| "blank_row (Suc n) v = fb_write n (VGA_HEIGHT - 1) 32 (cur_attr v) (blank_row n v)"

text \<open>Copying every row up, cell by cell in increasing order, is dropping the first row.\<close>

definition scroll :: "vga \<Rightarrow> vga" where
  "scroll v =
     (let v = v\<lparr>fb := map (\<lambda>i. if i < (VGA_HEIGHT - 1) * VGA_WIDTH then fb v ! (i + VGA_WIDTH) else fb v ! i)
                [0..<length (fb v)]\<rparr>
      in (blank_row VGA_WIDTH v)\<lparr>cursor_y := VGA_HEIGHT - 1\<rparr>)"

definition vga_putchar :: "u8 \<Rightarrow> vga \<Rightarrow> vga" where
  "vga_putchar c v =
     (let v = (if c = 10 then v\<lparr>cursor_x := 0, cursor_y := cursor_y v + 1\<rparr>
               else if c = 13 then v\<lparr>cursor_x := 0\<rparr>
               else if c = 9 then v\<lparr>cursor_x := (cursor_x v + 8) div 8 * 8\<rparr>
               else if c = 8 then
                 (if cursor_x v > 0 then
                    (let v = v\<lparr>cursor_x := cursor_x v - 1\<rparr>
                     in fb_write (cursor_x v) (cursor_y v) 32 (cur_attr v) v)
                  else v)
               else (fb_write (cursor_x v) (cursor_y v) c (cur_attr v) v)\<lparr>cursor_x := cursor_x v + 1\<rparr>);
          v = (if cursor_x v \<ge> VGA_WIDTH then v\<lparr>cursor_x := 0, cursor_y := cursor_y v + 1\<rparr> else v)
      in if cursor_y v \<ge> VGA_HEIGHT then scroll v else v)"

fun vga_print :: "cstr \<Rightarrow> vga \<Rightarrow> vga" where
  "vga_print [] v = v"
| "vga_print (c # s) v = vga_print s (vga_putchar c v)"

fun hex_digits :: "nat \<Rightarrow> u32 \<Rightarrow> cstr" where
  "hex_digits 0 x = []"
| "hex_digits (Suc n) x =
     (if x > 0 then hex_digits n (drop_bit 4 x) @ [lit ''0123456789ABCDEF'' ! unat (x AND 0xF)]
      else replicate (Suc n) 48)"

definition vga_print_hex :: "u32 \<Rightarrow> vga \<Rightarrow> vga" where
  "vga_print_hex x v =
     (if x = 0 then vga_print (lit ''0x00000000'') v else vga_print (48 # 120 # hex_digits 8 x) v)"

function dec_digits :: "u32 \<Rightarrow> cstr" where
  "dec_digits x = (if x > 0 then dec_digits (x div 10) @ [48 + ucast (x mod 10)] else [])"
  by auto
termination
proof (relation "measure unat")
  fix x :: u32 assume "x > 0"
  then have "0 < unat x" by (simp add: word_less_nat_alt)
  then show "(x div 10, x) \<in> measure unat" by (simp add: unat_div)
qed simp

declare dec_digits.simps [simp del]

definition vga_print_dec :: "u32 \<Rightarrow> vga \<Rightarrow> vga" where
  "vga_print_dec x v = (if x = 0 then vga_putchar 48 v else vga_print (dec_digits x) v)"

subsection \<open>The cursor stays on the screen\<close>

definition vga_ok :: "vga \<Rightarrow> bool" where
  "vga_ok v \<longleftrightarrow> length (fb v) = 2000 \<and> cursor_x v < 80 \<and> cursor_y v < 25"

lemma fb_write_fields [simp]:
  "length (fb (fb_write c r x a v)) = length (fb v)" "cursor_x (fb_write c r x a v) = cursor_x v"
  "cursor_y (fb_write c r x a v) = cursor_y v" "cur_attr (fb_write c r x a v) = cur_attr v"
  by (simp_all add: fb_write_def)

lemma blank_row_fields [simp]:
  "length (fb (blank_row n v)) = length (fb v)" "cursor_x (blank_row n v) = cursor_x v"
  "cur_attr (blank_row n v) = cur_attr v"
  by (induction n) simp_all

lemma scroll_fields [simp]:
  "length (fb (scroll v)) = length (fb v)" "cursor_x (scroll v) = cursor_x v"
  "cursor_y (scroll v) = 24" "cur_attr (scroll v) = cur_attr v"
  by (simp_all add: scroll_def)

lemma vga_putchar_ok [kinv]: "vga_ok v \<Longrightarrow> vga_ok (vga_putchar c v)"
  by (auto simp: vga_ok_def vga_putchar_def Let_def)

lemma vga_print_ok [kinv]: "vga_ok v \<Longrightarrow> vga_ok (vga_print s v)"
  by (induction s arbitrary: v) (auto simp: vga_putchar_ok)

lemma vga_clear_ok [kinv]: "vga_ok (vga_clear v)"
  by (simp add: vga_ok_def vga_clear_def)

lemma vga_print_append: "vga_print (a @ b) v = vga_print b (vga_print a v)"
  by (induction a arbitrary: v) simp_all

subsection \<open>Printing text\<close>

definition plain :: "u8 \<Rightarrow> bool" where
  "plain c \<longleftrightarrow> c \<notin> {8, 9, 10, 13}"

lemma vga_putchar_plain:
  assumes "vga_ok v" "plain c" "Suc (cursor_x v) < 80"
  shows "vga_putchar c v = v\<lparr>fb := (fb v)[cursor_y v * 80 + cursor_x v := vga_cell (cur_attr v) c],
    cursor_x := Suc (cursor_x v)\<rparr>"
  using assms by (simp add: vga_putchar_def plain_def vga_ok_def fb_write_def Let_def)

lemma vga_print_plain:
  "vga_ok v \<Longrightarrow> \<forall>c \<in> set s. plain c \<Longrightarrow> cursor_x v + length s < 80 \<Longrightarrow>
   vga_print s v = v\<lparr>fb := overlay (fb v) (cursor_y v * 80 + cursor_x v) (map (vga_cell (cur_attr v)) s),
     cursor_x := cursor_x v + length s\<rparr>"
proof (induction s arbitrary: v)
  case Nil
  then show ?case by (simp add: overlay_def)
next
  case (Cons c s)
  have ok: "vga_ok (vga_putchar c v)" using Cons.prems(1) by (rule vga_putchar_ok)
  have x: "Suc (cursor_x v) < 80" using Cons.prems(3) by simp
  have p: "cursor_y v * 80 + cursor_x v + length (c # s) \<le> length (fb v)"
    using Cons.prems(1,3) by (simp add: vga_ok_def)
  note one = vga_putchar_plain [OF Cons.prems(1) _ x, of c]
  have ov: "overlay ((fb v)[cursor_y v * 80 + cursor_x v := y]) (Suc (cursor_y v * 80 + cursor_x v)) ys =
      overlay (fb v) (cursor_y v * 80 + cursor_x v) (y # ys)" if "length ys = length s" for y ys
    using p that by (simp add: overlay_def take_update_swap upd_conv_take_nth_drop take_Suc_conv_app_nth drop_update_cancel ac_simps)
  show ?case
    using Cons.IH [OF ok] Cons.prems one by (simp add: ov add.assoc)
qed

lemma blank_row_nth:
  "n \<le> 80 \<Longrightarrow> length (fb v) = 2000 \<Longrightarrow> i < 2000 \<Longrightarrow>
   fb (blank_row n v) ! i = (if 1920 \<le> i \<and> i < 1920 + n then vga_cell (cur_attr v) 32 else fb v ! i)"
  by (induction n) (auto simp: fb_write_def nth_list_update)

subsection \<open>Properties\<close>

text \<open>
  whatever is printed, the cursor stays on the screen, so every cell write stays inside the
  2000 cells of the frame buffer; printable text that fits on the line appears at the cursor in the
  current colour, moves the cursor by its length and changes no other cell; a newline on the last
  row moves every row up by one and blanks the last.
\<close>

lemma vga_print_text:
  assumes "vga_ok v"
  shows "vga_ok (vga_print s v) \<and>
    ((\<forall>c \<in> set s. plain c) \<longrightarrow> cursor_x v + length s < 80 \<longrightarrow>
       (\<forall>i < 2000. fb (vga_print s v) ! i =
          (if cursor_y v * 80 + cursor_x v \<le> i \<and> i < cursor_y v * 80 + cursor_x v + length s
           then vga_cell (cur_attr v) (s ! (i - (cursor_y v * 80 + cursor_x v))) else fb v ! i)) \<and>
       cursor_x (vga_print s v) = cursor_x v + length s \<and> cursor_y (vga_print s v) = cursor_y v) \<and>
    (cursor_y v = 24 \<longrightarrow>
       (\<forall>i < 2000. fb (vga_putchar 10 v) ! i =
          (if i < 1920 then fb v ! (i + 80) else vga_cell (cur_attr v) 32)) \<and>
       cursor_x (vga_putchar 10 v) = 0 \<and> cursor_y (vga_putchar 10 v) = 24)"
proof -
  have len: "length (fb v) = 2000" using assms by (simp add: vga_ok_def)
  have "fb (vga_print s v) ! i =
      (if cursor_y v * 80 + cursor_x v \<le> i \<and> i < cursor_y v * 80 + cursor_x v + length s
       then vga_cell (cur_attr v) (s ! (i - (cursor_y v * 80 + cursor_x v))) else fb v ! i)"
    if "\<forall>c \<in> set s. plain c" "cursor_x v + length s < 80" "i < 2000" for i
  proof -
    have "cursor_y v * 80 + cursor_x v + length s \<le> 2000" using assms that(2) by (simp add: vga_ok_def)
    then show ?thesis
      using vga_print_plain [OF assms that(1,2)] that(3) len by (auto simp: nth_overlay)
  qed
  moreover have "cursor_x (vga_print s v) = cursor_x v + length s \<and> cursor_y (vga_print s v) = cursor_y v"
    if "\<forall>c \<in> set s. plain c" "cursor_x v + length s < 80"
    using vga_print_plain [OF assms that] by simp
  moreover have "fb (vga_putchar 10 v) ! i = (if i < 1920 then fb v ! (i + 80) else vga_cell (cur_attr v) 32)"
    if "cursor_y v = 24" "i < 2000" for i
    using that len by (auto simp: vga_putchar_def scroll_def blank_row_nth Let_def)
  moreover have "cursor_x (vga_putchar 10 v) = 0 \<and> cursor_y (vga_putchar 10 v) = 24" if "cursor_y v = 24"
    using that by (simp add: vga_putchar_def)
  ultimately show ?thesis using vga_print_ok [OF assms] by blast
qed

lemma vga_print_text_witness:
  "fb (vga_print (lit ''ok'') (vga_clear \<lparr>fb = [], cursor_x = 0, cursor_y = 0, cur_attr = 7\<rparr>)) ! 1 =
     vga_cell 7 107"
proof -
  let ?v = "vga_clear \<lparr>fb = [], cursor_x = 0, cursor_y = 0, cur_attr = 7\<rparr>"
  have p: "cursor_x ?v = 0" "cursor_y ?v = 0" "cur_attr ?v = 7" by (simp_all add: vga_clear_def)
  have "\<forall>c \<in> set (lit ''ok''). plain c" by (simp add: plain_def)
  with vga_print_text [OF vga_clear_ok, of "lit ''ok''"] p show ?thesis by simp
qed

end
