(* ===== verification/Console.thy ===== *)
theory Console
  imports Vga KString
begin

text \<open>
  \<^verbatim>\<open>lib/kprintf.c\<close> and \<^verbatim>\<open>kernel/klog.c\<close>: formatted output through the line buffer \<open>kbuf\<close> to the
  screen and the ring of the last 64 log lines.  The variable arguments are a list; reading an
  argument that is missing or of the other kind, or running past the end of the format string, is
  \<open>None\<close>.
\<close>

subsection \<open>State\<close>

record console =
  c_vga :: vga
  log_buf :: "u8 list list"
  log_head :: nat
  log_count :: nat
  kbuf :: "u8 list" \<comment> \<open>\<^verbatim>\<open>kbuf[0 .. kbuf_pos)\<close>\<close>

definition KLOG_LINES :: nat where "KLOG_LINES = 64"
definition KLOG_WIDTH :: nat where "KLOG_WIDTH = 80"

lemmas klog_limits [simp] = KLOG_LINES_def KLOG_WIDTH_def

subsection \<open>The log ring\<close>

definition klog_init :: "console \<Rightarrow> console" where
  "klog_init c = c\<lparr>log_buf := replicate KLOG_LINES (replicate KLOG_WIDTH 0), log_head := 0, log_count := 0\<rparr>"

definition klog_write :: "cstr \<Rightarrow> console \<Rightarrow> console" where
  "klog_write line c =
     (let c = c\<lparr>log_buf := (log_buf c)[log_head c := copy_field (log_buf c ! log_head c) line (KLOG_WIDTH - 1)]\<rparr>;
          c = c\<lparr>log_head := (log_head c + 1) mod KLOG_LINES\<rparr>
      in if log_count c < KLOG_LINES then c\<lparr>log_count := log_count c + 1\<rparr> else c)"

subsection \<open>Formatted output\<close>

definition kbuf_flush :: "console \<Rightarrow> console" where
  "kbuf_flush c =
     (if kbuf c = [] then c
      else (let s = cstr_of (kbuf c)
            in (klog_write s (c\<lparr>c_vga := vga_print s (c_vga c)\<rparr>))\<lparr>kbuf := []\<rparr>))"

definition kbuf_putc :: "u8 \<Rightarrow> console \<Rightarrow> console" where
  "kbuf_putc ch c =
     (let c = (if length (kbuf c) \<ge> 255 then kbuf_flush c else c);
          c = c\<lparr>kbuf := kbuf c @ [ch]\<rparr>
      in if ch = 10 then kbuf_flush c else c)"

fun kbuf_puts :: "cstr \<Rightarrow> console \<Rightarrow> console" where
  "kbuf_puts [] c = c"
| "kbuf_puts (x # s) c = kbuf_puts s (kbuf_putc x c)"

text \<open>The digits the loop of \<open>kbuf_uint\<close> puts into its local buffer.  The code divides by the
  base; it is only called with 10 and 16, and the guard on it makes the function total.\<close>

function udigits :: "u32 \<Rightarrow> u32 \<Rightarrow> cstr" where
  "udigits base v =
     (if v > 0 \<and> base > 1 then udigits base (v div base) @ [lit ''0123456789abcdef'' ! unat (v mod base)]
      else [])"
  by auto
termination
proof (relation "measure (\<lambda>(b, v). unat v)")
  fix base v :: u32 assume "v > 0 \<and> base > 1"
  then have "0 < unat v" "1 < unat base" by (simp_all add: word_less_nat_alt)
  then show "((base, v div base), (base, v)) \<in> measure (\<lambda>(b, v). unat v)" by (simp add: unat_div)
qed simp

declare udigits.simps [simp del]

definition kbuf_uint :: "u32 \<Rightarrow> u32 \<Rightarrow> console \<Rightarrow> console" where
  "kbuf_uint v base c = (if v = 0 then kbuf_putc 48 c else kbuf_puts (udigits base v) c)"

definition kbuf_int :: "i32 \<Rightarrow> console \<Rightarrow> console" where
  "kbuf_int v c =
     (if sint v < 0 then kbuf_uint (- (v + 1) + 1) 10 (kbuf_putc 45 c) else kbuf_uint v 10 c)"

datatype karg = KStr "cstr option" | KNum u32

fun kprintf_loop :: "cstr \<Rightarrow> karg list \<Rightarrow> console \<Rightarrow> console option" where
  "kprintf_loop [] as c = Some c"
| "kprintf_loop [ch] as c = (if ch \<noteq> 37 then Some (kbuf_putc ch c) else None)"
| "kprintf_loop (ch # f # fmt) as c =
     (if ch \<noteq> 37 then kprintf_loop (f # fmt) as (kbuf_putc ch c)
      else if f = 115 then
        (case as of KStr s # as \<Rightarrow> kprintf_loop fmt as
           (kbuf_puts (case s of Some s \<Rightarrow> s | None \<Rightarrow> lit ''(null)'') c) | _ \<Rightarrow> None)
      else if f = 100 then (case as of KNum v # as \<Rightarrow> kprintf_loop fmt as (kbuf_int v c) | _ \<Rightarrow> None)
      else if f = 117 then (case as of KNum v # as \<Rightarrow> kprintf_loop fmt as (kbuf_uint v 10 c) | _ \<Rightarrow> None)
      else if f = 120 then
        (case as of KNum v # as \<Rightarrow> kprintf_loop fmt as (kbuf_uint v 16 (kbuf_puts (lit ''0x'') c)) | _ \<Rightarrow> None)
      else if f = 99 then (case as of KNum v # as \<Rightarrow> kprintf_loop fmt as (kbuf_putc (ucast v) c) | _ \<Rightarrow> None)
      else if f = 37 then kprintf_loop fmt as (kbuf_putc 37 c)
      else kprintf_loop fmt as (kbuf_putc f (kbuf_putc 37 c)))"

definition kprintf :: "cstr \<Rightarrow> karg list \<Rightarrow> console \<Rightarrow> console option" where
  "kprintf fmt as c = map_option kbuf_flush (kprintf_loop fmt as c)"

text \<open>The loop of \<open>klog_dump\<close>: the bound \<open>log_count\<close> is read again in every iteration, and
  \<open>kprintf\<close> writes to the log that is being printed.  The result is the final \<^verbatim>\<open>i\<close> and state.\<close>

partial_function (option) klog_dump_loop :: "nat \<Rightarrow> nat \<Rightarrow> console \<Rightarrow> (nat \<times> console) option" where
  "klog_dump_loop start i c =
     (if i < log_count c
      then Option.bind (kprintf (lit ''%s'' @ [10]) [KStr (Some (cstr_of (log_buf c ! ((start + i) mod KLOG_LINES))))] c)
             (\<lambda>c. klog_dump_loop start (i + 1) c)
      else Some (i, c))"

definition klog_dump :: "console \<Rightarrow> console option" where
  "klog_dump c =
     map_option snd (klog_dump_loop (if log_count c < KLOG_LINES then 0 else log_head c) 0 c)"

subsection \<open>The ring invariant\<close>

definition console_ok :: "console \<Rightarrow> bool" where
  "console_ok c \<longleftrightarrow> vga_ok (c_vga c) \<and> length (log_buf c) = 64 \<and>
     (\<forall>l \<in> set (log_buf c). length l = 80 \<and> 0 \<in> set l) \<and> log_head c < 64 \<and> log_count c \<le> 64 \<and>
     length (kbuf c) \<le> 255"

lemma klog_write_ok [kinv]: "console_ok c \<Longrightarrow> console_ok (klog_write l c)"
  by (auto simp: console_ok_def klog_write_def Let_def copy_field_has_nul
      dest!: set_update_cases)

lemma kbuf_flush_ok [kinv]: "console_ok c \<Longrightarrow> console_ok (kbuf_flush c)"
proof -
  assume ok: "console_ok c"
  let ?d = "c\<lparr>c_vga := vga_print (cstr_of (kbuf c)) (c_vga c)\<rparr>"
  have "console_ok ?d" using ok by (simp add: console_ok_def vga_print_ok)
  then have "console_ok (klog_write (cstr_of (kbuf c)) ?d)" by (rule klog_write_ok)
  then show ?thesis using ok by (simp add: kbuf_flush_def Let_def console_ok_def)
qed

text \<open>The buffer \<open>kbuf_putc\<close> appends to has room.\<close>

definition kbuf_room :: "console \<Rightarrow> console" where
  "kbuf_room c = (if length (kbuf c) \<ge> 255 then kbuf_flush c else c)"

lemma kbuf_putc_room:
  "kbuf_putc ch c = (if ch = 10 then kbuf_flush ((kbuf_room c)\<lparr>kbuf := kbuf (kbuf_room c) @ [ch]\<rparr>)
     else (kbuf_room c)\<lparr>kbuf := kbuf (kbuf_room c) @ [ch]\<rparr>)"
  by (simp only: kbuf_putc_def kbuf_room_def Let_def)

lemma kbuf_flush_empties [simp]: "kbuf (kbuf_flush c) = []"
  by (simp add: kbuf_flush_def Let_def)

lemma kbuf_room_length: "length (kbuf (kbuf_room c)) < 255"
  by (simp add: kbuf_room_def)

lemma kbuf_room_ok: "console_ok c \<Longrightarrow> console_ok (kbuf_room c)"
  by (simp add: kbuf_room_def kbuf_flush_ok)

lemma kbuf_append_ok: "console_ok d \<Longrightarrow> length (kbuf d) < 255 \<Longrightarrow> console_ok (d\<lparr>kbuf := kbuf d @ [ch]\<rparr>)"
  by (simp add: console_ok_def)

lemma kbuf_putc_ok [kinv]:
  assumes "console_ok c"
  shows "console_ok (kbuf_putc ch c)"
proof -
  have e: "console_ok ((kbuf_room c)\<lparr>kbuf := kbuf (kbuf_room c) @ [ch]\<rparr>)"
    by (rule kbuf_append_ok [OF kbuf_room_ok [OF assms] kbuf_room_length])
  show ?thesis unfolding kbuf_putc_room using e kbuf_flush_ok [OF e] by (cases "ch = 10") simp_all
qed

lemma kbuf_puts_ok [kinv]: "console_ok c \<Longrightarrow> console_ok (kbuf_puts s c)"
  by (induction s arbitrary: c) (auto simp: kbuf_putc_ok)

text \<open>The number of log lines only grows, up to 64, and every newline adds one.\<close>

lemma klog_write_count: "log_count (klog_write l c) = (if log_count c < 64 then Suc (log_count c) else log_count c)"
  by (simp add: klog_write_def Let_def)

lemma kbuf_flush_count:
  "log_count (kbuf_flush c) = (if kbuf c = [] then log_count c
     else if log_count c < 64 then Suc (log_count c) else log_count c)"
  by (simp add: kbuf_flush_def Let_def klog_write_count)

lemma kbuf_flush_count_le: "log_count c \<le> log_count (kbuf_flush c)"
  by (simp add: kbuf_flush_count)

lemma kbuf_room_count: "log_count c \<le> log_count (kbuf_room c)"
  by (simp add: kbuf_room_def kbuf_flush_count_le)

lemma kbuf_putc_count: "log_count c \<le> log_count (kbuf_putc ch c)"
  unfolding kbuf_putc_room using kbuf_room_count [of c]
  by (simp add: kbuf_flush_count)

lemma kbuf_puts_count: "log_count c \<le> log_count (kbuf_puts s c)"
  by (induction s arbitrary: c) (auto intro: order_trans [OF kbuf_putc_count])

lemma kbuf_newline_count: "min 64 (Suc (log_count c)) \<le> log_count (kbuf_putc 10 c)"
  unfolding kbuf_putc_room using kbuf_room_count [of c]
  by (auto simp: kbuf_flush_count)

lemma kprintf_line:
  "kprintf (lit ''%s'' @ [10]) [KStr (Some s)] c = Some (kbuf_flush (kbuf_putc 10 (kbuf_puts s c)))"
  by (simp add: kprintf_def)

lemma kprintf_line_count:
  "min 64 (Suc (log_count c)) \<le> log_count (kbuf_flush (kbuf_putc 10 (kbuf_puts s c)))"
proof -
  have "min 64 (Suc (log_count c)) \<le> log_count (kbuf_putc 10 (kbuf_puts s c))"
    using kbuf_newline_count [of "kbuf_puts s c"] kbuf_puts_count [of c s] by simp
  then show ?thesis
    by (rule order_trans) (rule kbuf_flush_count_le)
qed

lemma klog_dump_runs:
  "console_ok c \<Longrightarrow> i \<le> 64 \<Longrightarrow> min 64 (Suc i) \<le> log_count c \<Longrightarrow>
   \<exists>c'. klog_dump_loop start i c = Some (64, c') \<and> console_ok c' \<and> log_count c' = 64"
proof (induction "64 - i" arbitrary: i c)
  case 0
  then have "i = 64" "log_count c = 64" by (auto simp: console_ok_def)
  with 0 show ?case by (subst klog_dump_loop.simps) simp
next
  case (Suc n)
  let ?s = "cstr_of (log_buf c ! ((start + i) mod 64))"
  let ?c = "kbuf_flush (kbuf_putc 10 (kbuf_puts ?s c))"
  have ok: "console_ok ?c" using Suc.prems(1) by (simp add: kinv)
  have more: "min 64 (Suc (Suc i)) \<le> log_count ?c"
    using kprintf_line_count [of c ?s] Suc.prems(3) by simp
  have n: "n = 64 - Suc i" and i: "Suc i \<le> 64" using Suc.hyps(2) by linarith+
  obtain c' where c': "klog_dump_loop start (Suc i) ?c = Some (64, c')" "console_ok c'" "log_count c' = 64"
    using Suc.hyps(1) [OF n ok i more] by blast
  have "i < log_count c" using Suc.prems(3) i by (simp add: min_def split: if_splits)
  then have "klog_dump_loop start i c = klog_dump_loop start (Suc i) ?c"
    by (subst klog_dump_loop.simps)
      (simp only: kprintf_line Option.bind.bind_lunit klog_limits if_True Suc_eq_plus1)
  with c' show ?case by simp
qed

lemma klog_dump_empty: "log_count c = 0 \<Longrightarrow> klog_dump c = Some c"
  by (simp add: klog_dump_def klog_dump_loop.simps)

lemma udigits_step:
  "0 < v \<Longrightarrow> 1 < base \<Longrightarrow>
   udigits base v = udigits base (v div base) @ [lit ''0123456789abcdef'' ! unat (v mod base)]"
  by (subst udigits.simps) simp

lemma udigits_0 [simp]: "udigits base 0 = []"
  by (subst udigits.simps) simp

subsection \<open>Properties\<close>

text \<open>
  every output operation keeps the line buffer below its 256 bytes, the log ring and the
  cursor in bounds; and printing a non-empty log with \<^verbatim>\<open>klog_dump\<close> always prints 64 lines and
  leaves a full log, however few lines were stored, since it logs what it prints.
\<close>

lemma klog_dump_feeds_itself:
  assumes "console_ok c"
  shows "console_ok (kbuf_puts s c) \<and> console_ok (kbuf_flush c) \<and>
    (log_count c = 0 \<longrightarrow> klog_dump c = Some c) \<and>
    (0 < log_count c \<longrightarrow> (\<exists>c'. klog_dump_loop (if log_count c < 64 then 0 else log_head c) 0 c = Some (64, c') \<and>
       klog_dump c = Some c' \<and> console_ok c' \<and> log_count c' = 64))"
proof -
  have "\<exists>c'. klog_dump_loop st 0 c = Some (64, c') \<and> console_ok c' \<and> log_count c' = 64"
    if "0 < log_count c" for st
    by (rule klog_dump_runs) (use assms that in \<open>simp_all add: min_def\<close>)
  from this [of "if log_count c < 64 then 0 else log_head c"]
  have "\<exists>c'. klog_dump_loop (if log_count c < 64 then 0 else log_head c) 0 c = Some (64, c') \<and>
       klog_dump c = Some c' \<and> console_ok c' \<and> log_count c' = 64" if "0 < log_count c"
    using that by (auto simp: klog_dump_def)
  then show ?thesis
    using assms klog_dump_empty [of c] by (simp add: kinv)
qed

definition sample_console :: console where
  "sample_console = klog_init \<lparr>c_vga = vga_clear \<lparr>fb = [], cursor_x = 0, cursor_y = 0, cur_attr = 7\<rparr>, log_buf = [], log_head = 0, log_count = 0, kbuf = []\<rparr>"


lemma sample_console_ok: "console_ok sample_console"
  by (simp add: sample_console_def console_ok_def klog_init_def vga_clear_ok)

lemma klog_dump_feeds_itself_witness:
  "\<exists>c'. klog_dump (kbuf_putc 10 (kbuf_puts (lit ''boot'') sample_console)) = Some c' \<and> log_count c' = 64"
proof -
  let ?c = "kbuf_putc 10 (kbuf_puts (lit ''boot'') sample_console)"
  have "console_ok ?c" by (intro kbuf_putc_ok kbuf_puts_ok sample_console_ok)
  moreover have "0 < log_count ?c"
    using kbuf_newline_count [of "kbuf_puts (lit ''boot'') sample_console"] by (simp add: min_def split: if_splits)
  ultimately show ?thesis using klog_dump_feeds_itself [of ?c "[]"] by auto
qed

text \<open>What a digit stands for.\<close>

definition digit_value :: "u8 \<Rightarrow> nat" where
  "digit_value c = (if 97 \<le> c then unat c - 87 else unat c - 48)"

definition digits_value :: "nat \<Rightarrow> cstr \<Rightarrow> nat" where
  "digits_value base s = foldl (\<lambda>n c. n * base + digit_value c) 0 s"

lemma digits_value_snoc: "digits_value b (s @ [c]) = digits_value b s * b + digit_value c"
  by (simp add: digits_value_def)

lemma digit_value_hex: "i < 16 \<Longrightarrow> digit_value (lit ''0123456789abcdef'' ! i) = i"
proof -
  have "\<forall>i \<in> set [0..<16]. digit_value (lit ''0123456789abcdef'' ! i) = i" by code_simp
  then show "i < 16 \<Longrightarrow> ?thesis" by simp
qed

lemma udigits_digits_value:
  assumes "1 < base" "base \<le> 16"
  shows "digits_value (unat base) (udigits base v) = unat v"
proof (induction "unat v" arbitrary: v rule: less_induct)
  case less
  have b: "1 < unat base" "unat base \<le> 16"
    using assms by (simp_all add: word_less_nat_alt word_le_nat_alt)
  show ?case
  proof (cases "v = 0")
    case True
    then show ?thesis by (simp add: digits_value_def)
  next
    case False
    then have v: "0 < v" "0 < unat v" by (simp_all add: word_neq_0_conv unat_gt_0)
    have "unat (v div base) < unat v" unfolding unat_div by (rule div_less_dividend [OF b(1) v(2)])
    then have ih: "digits_value (unat base) (udigits base (v div base)) = unat v div unat base"
      using less [of "v div base"] by (simp only: unat_div)
    have "unat v mod unat base < unat base" by (rule mod_less_divisor) (use b in linarith)
    then have "unat (v mod base) < 16" using b by (simp only: unat_mod)
    then have "digit_value (lit ''0123456789abcdef'' ! unat (v mod base)) = unat v mod unat base"
      by (subst digit_value_hex) (simp_all add: unat_mod)
    then show ?thesis
      using udigits_step [OF v(1) assms(1)] ih by (simp only: digits_value_snoc div_mult_mod_eq)
  qed
qed

lemma length_udigits:
  assumes "1 < base"
  shows "unat v < unat base ^ k \<Longrightarrow> length (udigits base v) \<le> k"
proof (induction k arbitrary: v)
  case 0
  then have "v = 0" by (simp add: unat_eq_zero)
  then show ?case by simp
next
  case (Suc k)
  have b: "1 < unat base" using assms by (simp add: word_less_nat_alt)
  show ?case
  proof (cases "v = 0")
    case False
    then have v: "0 < v" by (simp add: word_neq_0_conv)
    have "unat (v div base) < unat base ^ k"
      using Suc.prems b by (simp add: unat_div div_less_iff_less_mult mult.commute)
    then show ?thesis using Suc.IH [of "v div base"] udigits_step [OF v assms] by simp
  qed simp
qed

text \<open>
  the digits \<^verbatim>\<open>kprintf\<close> prints for a number in base 10 or 16 denote that number, and there
  are never more than ten of them, so the 32-byte local buffer of \<^verbatim>\<open>kbuf_uint\<close> suffices.
\<close>

lemma udigits_value:
  assumes "base = 10 \<or> base = 16"
  shows "digits_value (unat base) (udigits base v) = unat v \<and> length (udigits base v) \<le> 10"
proof -
  have b: "1 < base" "base \<le> 16" using assms by auto
  have "unat v < unat base ^ 10" using assms unat32_lt [of v] by (elim disjE) (simp_all del: unat32_lt)
  then show ?thesis using udigits_digits_value [OF b] length_udigits [OF b(1)] by blast
qed

lemma udigits_value_witness:
  "digits_value 10 (udigits 10 4294967295) = 4294967295 \<and> length (udigits 10 4294967295) \<le> 10"
  using udigits_value [of 10 4294967295] by simp

end
