(* ===== verification/Clock.thy ===== *)
theory Clock
  imports Sched Console
begin

text \<open>
  \<^verbatim>\<open>kernel/timer.c\<close>, \<^verbatim>\<open>kernel/watchdog.c\<close> and \<^verbatim>\<open>kernel/profiler.c\<close>: the tick counter of the PIT, the
  watchdog that compares ticks, and the event counters.  The ports written are the list of
  writes; the interrupt handler of IRQ 0 also drives the scheduler.
\<close>

unbundle bit_operations_syntax

subsection \<open>The timer\<close>

record timer =
  tick_count :: u32
  ticks_per_ms :: u32

definition PIT_CHANNEL0 :: u16 where "PIT_CHANNEL0 = 0x40"
definition PIT_CMD :: u16 where "PIT_CMD = 0x43"
definition PIT_CMD_BYTE :: u8 where "PIT_CMD_BYTE = 0x36"
definition PIT_BASE_HZ :: u32 where "PIT_BASE_HZ = 1193182"

text \<open>A frequency of 0 divides by zero: \<open>None\<close>.\<close>

definition timer_init :: "u32 \<Rightarrow> timer \<Rightarrow> ((u16 \<times> u8) list \<times> timer) option" where
  "timer_init freq t =
     (let tpm = freq div 1000;
          t = t\<lparr>ticks_per_ms := (if tpm = 0 then 1 else tpm)\<rparr>
      in if freq = 0 then None
         else (let divisor = PIT_BASE_HZ div freq
               in Some ([(PIT_CMD, PIT_CMD_BYTE), (PIT_CHANNEL0, ucast (divisor AND 0xFF)),
                         (PIT_CHANNEL0, ucast (drop_bit 8 divisor AND 0xFF))], t)))"

definition timer_ticks :: "timer \<Rightarrow> u32" where
  "timer_ticks t = tick_count t"

definition timer_tick_increment :: "timer \<Rightarrow> timer" where
  "timer_tick_increment t = t\<lparr>tick_count := tick_count t + 1\<rparr>"

definition timer_irq_handler :: "registers \<Rightarrow> timer \<times> sched \<Rightarrow> registers \<times> timer \<times> sched" where
  "timer_irq_handler regs w =
     (let t = (fst w)\<lparr>tick_count := tick_count (fst w) + 1\<rparr>;
          (regs, s) = sched_tick regs (snd w)
      in (regs, t, s))"

text \<open>The loop of \<open>timer_sleep\<close>: \<open>irqs\<close> lists what happens to the timer during each
  \<^verbatim>\<open>hlt\<close>; with no more of them the caller is still asleep (\<open>None\<close>).\<close>

fun sleep_until :: "(timer \<Rightarrow> timer) list \<Rightarrow> u32 \<Rightarrow> timer \<Rightarrow> timer option" where
  "sleep_until [] target t = (if tick_count t < target then None else Some t)"
| "sleep_until (irq # irqs) target t =
     (if tick_count t < target then sleep_until irqs target (irq t) else Some t)"

definition timer_sleep :: "(timer \<Rightarrow> timer) list \<Rightarrow> u32 \<Rightarrow> timer \<Rightarrow> timer option" where
  "timer_sleep irqs ms t = sleep_until irqs (tick_count t + ms * ticks_per_ms t) t"

subsection \<open>The watchdog\<close>

record watchdog =
  timeout_ticks :: u32
  last_kick :: u32
  wd_enabled :: bool

definition watchdog_init :: "u32 \<Rightarrow> timer \<Rightarrow> watchdog" where
  "watchdog_init timeout_ms t = \<lparr>timeout_ticks = timeout_ms, last_kick = timer_ticks t, wd_enabled = True\<rparr>"

definition watchdog_kick :: "timer \<Rightarrow> watchdog \<Rightarrow> watchdog" where
  "watchdog_kick t w = w\<lparr>last_kick := timer_ticks t\<rparr>"

definition watchdog_tick :: "watchdog \<Rightarrow> watchdog" where
  "watchdog_tick w = w"

definition watchdog_fired :: "timer \<Rightarrow> watchdog \<Rightarrow> bool" where
  "watchdog_fired t w = (if \<not> wd_enabled w then False else timer_ticks t - last_kick w > timeout_ticks w)"

subsection \<open>The profiler\<close>

definition PROF_SYSCALL :: nat where "PROF_SYSCALL = 2"
definition PROF_DISK :: nat where "PROF_DISK = 3"
definition PROF_VFS :: nat where "PROF_VFS = 4"
definition PROF_COUNT :: nat where "PROF_COUNT = 5"

definition prof_init :: "u32 list" where
  "prof_init = replicate PROF_COUNT 0"

definition prof_inc :: "nat \<Rightarrow> u32 list \<Rightarrow> u32 list" where
  "prof_inc c p = (if c < PROF_COUNT then p[c := p ! c + 1] else p)"

definition prof_get :: "nat \<Rightarrow> u32 list \<Rightarrow> u32" where
  "prof_get c p = (if c < PROF_COUNT then p ! c else 0)"

text \<open>\<open>prof_dump\<close>: \<open>names\<close> are the addresses of the counters' names, words on the stack like
  every argument of \<^verbatim>\<open>kprintf\<close>.\<close>

fun prof_lines :: "nat list \<Rightarrow> u32 list \<Rightarrow> u32 list \<Rightarrow> console \<Rightarrow> console option" where
  "prof_lines [] names p c = Some c"
| "prof_lines (i # is) names p c =
     Option.bind (kprintf (lit ''  %-12s %d'' @ [10]) [KNum (names ! i), KNum (p ! i)] c) (prof_lines is names p)"

definition prof_dump :: "u32 list \<Rightarrow> u32 list \<Rightarrow> console \<Rightarrow> console option" where
  "prof_dump names p c =
     Option.bind (kprintf (lit ''  kernel profiler counters:'' @ [10]) [] c) (prof_lines [0..<PROF_COUNT] names p)"

subsection \<open>Sleeping\<close>

lemma ticks_count [simp]: "tick_count ((timer_tick_increment ^^ n) t) = tick_count t + of_nat n"
  by (induction n) (simp_all add: timer_tick_increment_def)

lemma ticks_rate [simp]: "ticks_per_ms ((timer_tick_increment ^^ n) t) = ticks_per_ms t"
  by (induction n) (simp_all add: timer_tick_increment_def)

lemma sleep_until_ticks:
  "unat (tick_count t) + n = unat target \<Longrightarrow>
   sleep_until (replicate m timer_tick_increment) target t =
     (if n \<le> m then Some ((timer_tick_increment ^^ n) t) else None)"
proof (induction m arbitrary: t n)
  case 0
  then show ?case by (simp add: word_less_nat_alt)
next
  case (Suc m)
  show ?case
  proof (cases n)
    case 0
    then show ?thesis using Suc.prems by (simp add: word_less_nat_alt)
  next
    case (Suc k)
    have lt: "tick_count t < target" using Suc.prems Suc by (simp add: word_less_nat_alt)
    have "unat (tick_count t) + 1 < 4294967296" using Suc.prems Suc unat32_lt [of target] by linarith
    then have "unat (tick_count t + 1) = unat (tick_count t) + 1" by (simp add: unat32_add_small)
    then have "unat (tick_count (timer_tick_increment t)) + k = unat target"
      using Suc.prems Suc by (simp add: timer_tick_increment_def)
    from Suc.IH [OF this] show ?thesis using lt Suc by (simp add: funpow_swap1)
  qed
qed

text \<open>
  as long as the tick counter does not wrap, \<^verbatim>\<open>timer_sleep(ms)\<close> returns exactly after
  \<open>ms * ticks_per_ms\<close> timer interrupts and not before; when the target wraps past 0 it returns at
  once, whatever the time asked for.  The watchdog, which compares a difference of ticks, is not
  affected by wrap-around: it fires exactly when more than its timeout has passed since the kick.
\<close>

lemma timer_sleep_exact:
  "(unat (tick_count t) + unat ms * unat (ticks_per_ms t) < 4294967296 \<longrightarrow>
      timer_sleep (replicate m timer_tick_increment) ms t =
        (if unat ms * unat (ticks_per_ms t) \<le> m
         then Some ((timer_tick_increment ^^ (unat ms * unat (ticks_per_ms t))) t) else None)) \<and>
   (unat (tick_count t) + unat ms * unat (ticks_per_ms t) \<in> {4294967296..<4294967296 + unat (tick_count t) + 1} \<longrightarrow>
      timer_sleep irqs ms t = Some t) \<and>
   (n < 4294967296 \<longrightarrow> watchdog_fired ((timer_tick_increment ^^ n) t) (watchdog_kick t (watchdog_init limit t0)) =
      (unat limit < n))"
proof -
  let ?n = "unat ms * unat (ticks_per_ms t)"
  have tgt: "unat (tick_count t + ms * ticks_per_ms t) = (unat (tick_count t) + ?n) mod 4294967296"
    by (simp add: unat_word_ariths mod_add_right_eq)
  have "timer_sleep (replicate m timer_tick_increment) ms t =
      (if ?n \<le> m then Some ((timer_tick_increment ^^ ?n) t) else None)"
    if "unat (tick_count t) + ?n < 4294967296"
    unfolding timer_sleep_def by (rule sleep_until_ticks) (simp add: tgt that)
  moreover have "timer_sleep irqs ms t = Some t"
    if "unat (tick_count t) + ?n \<in> {4294967296..<4294967296 + unat (tick_count t) + 1}"
  proof -
    have r: "4294967296 \<le> unat (tick_count t) + ?n" "unat (tick_count t) + ?n - 4294967296 \<le> unat (tick_count t)"
      using that by auto
    then have s: "unat (tick_count t) + ?n - 4294967296 < 4294967296"
      using unat32_lt [of "tick_count t"] by linarith
    have "(unat (tick_count t) + ?n) mod 4294967296 = (unat (tick_count t) + ?n - 4294967296) mod 4294967296"
      by (rule le_mod_geq [OF r(1)])
    then have "unat (tick_count t + ms * ticks_per_ms t) = unat (tick_count t) + ?n - 4294967296"
      using tgt s by simp
    then have "\<not> tick_count t < tick_count t + ms * ticks_per_ms t"
      using r(2) by (simp only: word_less_nat_alt not_less)
    then show ?thesis unfolding timer_sleep_def by (cases irqs) simp_all
  qed
  moreover have "watchdog_fired ((timer_tick_increment ^^ n) t) (watchdog_kick t (watchdog_init limit t0)) =
      (unat limit < n)" if "n < 4294967296"
    using that by (simp add: watchdog_fired_def watchdog_kick_def watchdog_init_def timer_ticks_def
        word_less_nat_alt)
  ultimately show ?thesis by blast
qed

lemma timer_sleep_exact_witness:
  "timer_sleep (replicate 5 timer_tick_increment) 3 \<lparr>tick_count = 7, ticks_per_ms = 1\<rparr> =
     Some \<lparr>tick_count = 10, ticks_per_ms = 1\<rparr> \<and>
   timer_sleep [] 1000 \<lparr>tick_count = 0xFFFFFFFF, ticks_per_ms = 1\<rparr> =
     Some \<lparr>tick_count = 0xFFFFFFFF, ticks_per_ms = 1\<rparr>"
proof -
  let ?a = "\<lparr>tick_count = 7, ticks_per_ms = 1\<rparr>" and ?b = "\<lparr>tick_count = 0xFFFFFFFF, ticks_per_ms = 1\<rparr>"
  have "timer_sleep (replicate 5 timer_tick_increment) 3 ?a = Some ((timer_tick_increment ^^ 3) ?a)"
    using timer_sleep_exact [THEN conjunct1, of ?a 3 5] by simp
  moreover have "(timer_tick_increment ^^ 3) ?a = \<lparr>tick_count = 10, ticks_per_ms = 1\<rparr>"
    by (simp add: timer_tick_increment_def eval_nat_numeral)
  moreover have "timer_sleep [] 1000 ?b = Some ?b"
    using timer_sleep_exact [THEN conjunct2, THEN conjunct1, of ?b 1000 "[]"] by simp
  ultimately show ?thesis by simp
qed

subsection \<open>What the profiler prints\<close>

text \<open>The format interpreter does not know \<^verbatim>\<open>%-12s\<close>: it prints it, and the name's address becomes
  the argument of \<^verbatim>\<open>%d\<close>.\<close>

lemma prof_line:
  "kprintf (lit ''  %-12s %d'' @ [10]) [KNum a, KNum n] c =
     Some (kbuf_flush (kbuf_putc 10 (kbuf_int a (kbuf_puts (lit ''  %-12s '') c))))"
  by (simp add: kprintf_def)

lemma prof_lines_names:
  "prof_lines is names p = (\<lambda>c. Some (fold (\<lambda>i c. kbuf_flush (kbuf_putc 10 (kbuf_int (names ! i)
     (kbuf_puts (lit ''  %-12s '') c)))) is c))"
proof
  show "prof_lines is names p c = Some (fold (\<lambda>i c. kbuf_flush (kbuf_putc 10 (kbuf_int (names ! i)
     (kbuf_puts (lit ''  %-12s '') c)))) is c)" for c
    by (induction "is" arbitrary: c) (simp_all add: prof_line del: lit_Cons)
qed

text \<open>
  \<^verbatim>\<open>prof_dump\<close> prints the addresses of the counters' names where it means to print the
  counters: its output is the same for all values of the counters.
\<close>

lemma prof_dump_ignores_counters: "prof_dump names p c = prof_dump names q c"
  by (simp only: prof_dump_def prof_lines_names)

lemma prof_get_inc:
  "length p = 5 \<Longrightarrow> prof_get d (prof_inc c p) = (if c = d \<and> c < 5 then prof_get d p + 1 else prof_get d p)"
  by (simp add: prof_get_def prof_inc_def PROF_COUNT_def)

end
