(* ===== verification/Filemeta.thy ===== *)
theory Filemeta
  imports KString
begin

text \<open>
  \<^verbatim>\<open>kernel/filemeta.c\<close>: the table of file permissions by path, a second instance of the
  slot tables of the prelude.  A missing path has the default permissions.
\<close>

unbundle bit_operations_syntax

subsection \<open>The code\<close>

record filemeta =
  fm_path :: "u8 list"
  fm_perms :: u8
  fm_used :: bool

definition META_MAX :: nat where "META_MAX = 64"
definition PERM_READ :: u8 where "PERM_READ = 0x01"
definition PERM_WRITE :: u8 where "PERM_WRITE = 0x02"
definition PERM_EXEC :: u8 where "PERM_EXEC = 0x04"
definition PERM_DEFAULT :: u8 where "PERM_DEFAULT = PERM_READ OR PERM_WRITE"

definition fm_hit :: "cstr \<Rightarrow> filemeta \<Rightarrow> bool" where
  "fm_hit path e \<longleftrightarrow> fm_used e \<and> strcmp_bytes (cstr_of (fm_path e)) path = 0"

definition filemeta_set :: "cstr \<Rightarrow> u8 \<Rightarrow> filemeta list \<Rightarrow> filemeta list" where
  "filemeta_set path perms t =
     (case find_slot (fm_hit path) t of
        Some i \<Rightarrow> t[i := (t ! i)\<lparr>fm_perms := perms\<rparr>]
      | None \<Rightarrow>
        (case find_slot (\<lambda>e. \<not> fm_used e) t of
           Some i \<Rightarrow> t[i := \<lparr>fm_path = copy_field (fm_path (t ! i)) path 63, fm_perms = perms, fm_used = True\<rparr>]
         | None \<Rightarrow> t))"

definition filemeta_get :: "cstr \<Rightarrow> filemeta list \<Rightarrow> u8" where
  "filemeta_get path t =
     (case find_slot (fm_hit path) t of Some i \<Rightarrow> fm_perms (t ! i) | None \<Rightarrow> PERM_DEFAULT)"

definition filemeta_check :: "cstr \<Rightarrow> u8 \<Rightarrow> filemeta list \<Rightarrow> bool" where
  "filemeta_check path perm t \<longleftrightarrow> filemeta_get path t AND perm \<noteq> 0"

definition filemeta_init :: "filemeta list" where
  "filemeta_init =
     filemeta_set (lit ''/etc/init'') (PERM_READ OR PERM_EXEC)
       (filemeta_set (lit ''/etc/motd'') PERM_READ
         (replicate META_MAX \<lparr>fm_path = replicate 64 0, fm_perms = 0, fm_used = False\<rparr>))"

subsection \<open>A slot table\<close>

definition fm_entry_ok :: "filemeta \<Rightarrow> bool" where
  "fm_entry_ok e \<longleftrightarrow> length (fm_path e) = 64 \<and> (fm_used e \<longrightarrow> 0 \<in> set (fm_path e))"

definition fm_key_of :: "filemeta \<Rightarrow> cstr option" where
  "fm_key_of e = (if fm_used e then Some (cstr_of (fm_path e)) else None)"

definition fm_okk :: "cstr \<Rightarrow> bool" where
  "fm_okk k \<longleftrightarrow> is_cstr k \<and> length k < 64"

definition fm_upd :: "u8 \<Rightarrow> filemeta \<Rightarrow> filemeta" where
  "fm_upd v e = e\<lparr>fm_perms := v\<rparr>"

definition fm_ins :: "cstr \<Rightarrow> u8 \<Rightarrow> filemeta \<Rightarrow> filemeta" where
  "fm_ins k v e = \<lparr>fm_path = copy_field (fm_path e) k 63, fm_perms = v, fm_used = True\<rparr>"

interpretation meta: slot_table fm_key_of fm_perms fm_upd fm_ins fm_entry_ok fm_okk "\<lambda>_. True" id 64
  by unfold_locales
     (auto simp: fm_key_of_def fm_okk_def fm_upd_def fm_ins_def fm_entry_ok_def copy_field_has_nul
       split: if_splits)

lemma fm_hit_key: "is_cstr k \<Longrightarrow> fm_hit k = (\<lambda>e. fm_key_of e = Some k)"
  by (rule ext) (auto simp: fm_hit_def fm_key_of_def)

lemma fm_free_key: "(\<lambda>e. \<not> fm_used e) = (\<lambda>e. fm_key_of e = None)"
  by (rule ext) (simp add: fm_key_of_def)

lemma filemeta_set_put: "is_cstr k \<Longrightarrow> filemeta_set k v t = meta.put k v t"
  by (simp add: filemeta_set_def meta.put_def slot_put_def slot_find_def slot_free_def fm_hit_key
      fm_free_key fm_upd_def fm_ins_def split: option.splits)

lemma filemeta_get_slot:
  "is_cstr k \<Longrightarrow> filemeta_get k t =
     (case slot_lookup fm_key_of fm_perms k t of Some p \<Rightarrow> p | None \<Rightarrow> PERM_DEFAULT)"
  by (simp add: filemeta_get_def slot_lookup_def slot_find_def fm_hit_key split: option.splits)

definition meta_room :: "filemeta list \<Rightarrow> cstr \<Rightarrow> bool" where
  "meta_room t k \<longleftrightarrow> (\<exists>e \<in> set t. \<not> fm_used e \<or> fm_hit k e)"

lemma meta_room_slot: "is_cstr k \<Longrightarrow> meta_room t k \<longleftrightarrow> slot_room fm_key_of t k"
  using find_slot_None [of "fm_hit k" t] find_slot_None [of "\<lambda>e. \<not> fm_used e" t]
  by (simp add: meta_room_def slot_room_def slot_find_def slot_free_def fm_hit_key fm_free_key) blast

lemma filemeta_blank_ok:
  "meta.table_ok (replicate META_MAX \<lparr>fm_path = replicate 64 0, fm_perms = 0, fm_used = False\<rparr>)"
  by (simp add: meta.table_ok_def META_MAX_def fm_entry_ok_def)

lemma filemeta_init_ok: "meta.table_ok filemeta_init"
  unfolding filemeta_init_def
  by (subst filemeta_set_put, simp add: is_cstr_def)+ (intro meta.table_ok_put filemeta_blank_ok)

definition filemeta_ok :: "filemeta list \<Rightarrow> bool" where
  "filemeta_ok t \<longleftrightarrow> length t = 64 \<and> (\<forall>e \<in> set t. fm_entry_ok e)"

lemma filemeta_ok_table: "filemeta_ok t = meta.table_ok t"
  by (simp add: filemeta_ok_def meta.table_ok_def)

text \<open>
  permissions set for a path that fits the table are the ones checked afterwards, and the
  ones of every other path are not changed; setting permissions in a full table changes nothing,
  so that a file whose permissions could not be restricted stays readable and writable.
\<close>

lemma filemeta_set_check:
  assumes "filemeta_ok t" "fm_okk path"
  shows "(meta_room t path \<longrightarrow>
      (\<forall>perm. filemeta_check path perm (filemeta_set path p t) = (p AND perm \<noteq> 0))) \<and>
    (\<not> meta_room t path \<longrightarrow> filemeta_set path p t = t \<and> filemeta_check path PERM_WRITE t) \<and>
    (\<forall>q perm. is_cstr q \<longrightarrow> q \<noteq> path \<longrightarrow> filemeta_check q perm (filemeta_set path p t) = filemeta_check q perm t) \<and>
    filemeta_ok (filemeta_set path p t)"
proof -
  have ok: "meta.table_ok t" using assms by (simp add: filemeta_ok_table)
  have c: "is_cstr path" using assms(2) by (simp add: fm_okk_def)
  have "find_slot (fm_hit path) t = None" if "\<not> meta_room t path"
    using that by (auto simp: meta_room_def find_slot_None)
  then have "filemeta_check path PERM_WRITE t" if "\<not> meta_room t path"
    using that by (simp add: filemeta_check_def filemeta_get_def PERM_DEFAULT_def PERM_WRITE_def PERM_READ_def)
  moreover have "meta.put path p t = t" if "\<not> meta_room t path"
    using that c by (simp add: meta_room_slot meta.put_full)
  moreover have "slot_lookup fm_key_of fm_perms path (meta.put path p t) = Some p" if "meta_room t path"
    using meta.kv.store_same [OF ok assms(2) TrueI, of p] that c by (simp add: meta_room_slot)
  moreover have "slot_lookup fm_key_of fm_perms q (meta.put path p t) = slot_lookup fm_key_of fm_perms q t"
    if "q \<noteq> path" for q
    by (rule meta.kv.store_other [OF ok assms(2) that])
  ultimately show ?thesis
    using c ok meta.table_ok_put [OF ok, of path p]
    by (simp add: filemeta_set_put filemeta_check_def filemeta_get_slot filemeta_ok_table)
qed

lemma filemeta_set_check_witness:
  "filemeta_check (lit ''/tmp/x'') PERM_WRITE (filemeta_set (lit ''/tmp/x'') PERM_READ filemeta_init) = False \<and>
   filemeta_check (lit ''/etc/init'') PERM_EXEC (filemeta_set (lit ''/tmp/x'') PERM_READ filemeta_init)"
proof -
  have ok: "fm_okk (lit ''/tmp/x'')" by (simp add: fm_okk_def is_cstr_def)
  have a: "meta_room filemeta_init (lit ''/tmp/x'')" by code_simp
  have b: "filemeta_check (lit ''/etc/init'') PERM_EXEC filemeta_init" by code_simp
  have c: "PERM_READ AND PERM_WRITE = (0 :: u8)" by (simp add: PERM_READ_def PERM_WRITE_def)
  have d: "is_cstr (lit ''/etc/init'')" "lit ''/etc/init'' \<noteq> lit ''/tmp/x''" by (simp_all add: is_cstr_def)
  note t = filemeta_set_check [OF filemeta_init_ok [folded filemeta_ok_table] ok, of PERM_READ]
  have "filemeta_check (lit ''/tmp/x'') PERM_WRITE (filemeta_set (lit ''/tmp/x'') PERM_READ filemeta_init) =
      (PERM_READ AND PERM_WRITE \<noteq> 0)"
    using t a by blast
  moreover have "filemeta_check (lit ''/etc/init'') PERM_EXEC (filemeta_set (lit ''/tmp/x'') PERM_READ filemeta_init)"
    using t b d by blast
  ultimately show ?thesis using c by simp
qed

end
