(* ===== verification/Elf.thy ===== *)
theory Elf
  imports Bytes
begin

text \<open>
  \<^verbatim>\<open>kernel/elf.c\<close>: the loader works on the flat address space, in which the file image lies at
  \<open>data\<close>.  Header fields are read from memory each time the code reads them, so that a segment
  loaded over the image changes what follows.
\<close>

subsection \<open>The code\<close>

definition ELF_MAGIC :: u32 where "ELF_MAGIC = 0x464C457F"
definition ET_EXEC :: u16 where "ET_EXEC = 2"
definition EM_386 :: u16 where "EM_386 = 3"
definition PT_LOAD :: u32 where "PT_LOAD = 1"

text \<open>The fields of \<^verbatim>\<open>elf32_ehdr_t\<close> at \<open>d\<close> and of \<^verbatim>\<open>elf32_phdr_t\<close> at \<open>p\<close>.\<close>

definition e_type :: "mem \<Rightarrow> u32 \<Rightarrow> u16" where "e_type m d = ld16 m (d + 16)"
definition e_machine :: "mem \<Rightarrow> u32 \<Rightarrow> u16" where "e_machine m d = ld16 m (d + 18)"
definition e_entry :: "mem \<Rightarrow> u32 \<Rightarrow> u32" where "e_entry m d = ld32 m (d + 24)"
definition e_phoff :: "mem \<Rightarrow> u32 \<Rightarrow> u32" where "e_phoff m d = ld32 m (d + 28)"
definition e_phentsize :: "mem \<Rightarrow> u32 \<Rightarrow> u16" where "e_phentsize m d = ld16 m (d + 42)"
definition e_phnum :: "mem \<Rightarrow> u32 \<Rightarrow> u16" where "e_phnum m d = ld16 m (d + 44)"
definition p_type :: "mem \<Rightarrow> u32 \<Rightarrow> u32" where "p_type m p = ld32 m p"
definition p_offset :: "mem \<Rightarrow> u32 \<Rightarrow> u32" where "p_offset m p = ld32 m (p + 4)"
definition p_vaddr :: "mem \<Rightarrow> u32 \<Rightarrow> u32" where "p_vaddr m p = ld32 m (p + 8)"
definition p_filesz :: "mem \<Rightarrow> u32 \<Rightarrow> u32" where "p_filesz m p = ld32 m (p + 16)"
definition p_memsz :: "mem \<Rightarrow> u32 \<Rightarrow> u32" where "p_memsz m p = ld32 m (p + 20)"

definition phdr_at :: "mem \<Rightarrow> u32 \<Rightarrow> u16 \<Rightarrow> u32" where
  "phdr_at m data i = data + e_phoff m data + ucast i * ucast (e_phentsize m data)"

text \<open>The body of the loop: whether it goes on, and the memory.\<close>

definition load_segment :: "u32 \<Rightarrow> u32 \<Rightarrow> u32 \<Rightarrow> mem \<Rightarrow> bool \<times> mem" where
  "load_segment data sz p m =
     (if p_type m p \<noteq> PT_LOAD then (True, m)
      else if p_offset m p + p_filesz m p > sz then (False, m)
      else (let m = memcpy m (p_vaddr m p) (data + p_offset m p) (p_filesz m p)
            in (True, if p_memsz m p > p_filesz m p
                then memset m (p_vaddr m p + p_filesz m p) 0 (p_memsz m p - p_filesz m p) else m)))"

function load_loop :: "u32 \<Rightarrow> u32 \<Rightarrow> u16 \<Rightarrow> mem \<Rightarrow> bool \<times> mem" where
  "load_loop data sz i m =
     (if i < e_phnum m data
      then (case load_segment data sz (phdr_at m data i) m of
              (True, m) \<Rightarrow> load_loop data sz (i + 1) m
            | (False, m) \<Rightarrow> (False, m))
      else (True, m))"
  by auto
termination
proof (relation "measure (\<lambda>(d, s, i, m). 65536 - unat i)")
  fix data sz :: u32 and i :: u16 and m :: mem
  assume "i < e_phnum m data"
  then have "unat i < unat (e_phnum m data)" by (simp add: word_less_nat_alt)
  then have "unat i + 1 < 65536" using unat16_lt [of "e_phnum m data"] by linarith
  then have "unat (i + 1) = unat i + 1" by (simp add: unat_word_ariths)
  then show "((data, sz, i + 1, m'), (data, sz, i, m)) \<in> measure (\<lambda>(d, s, i, m). 65536 - unat i)" for m'
    using \<open>unat i + 1 < 65536\<close> by simp
qed simp

declare load_loop.simps [simp del]

definition elf_load :: "u32 \<Rightarrow> u32 \<Rightarrow> mem \<Rightarrow> u32 \<times> mem" where
  "elf_load data sz m =
     (if sz < 52 then (0, m)
      else if ld32 m data \<noteq> ELF_MAGIC then (0, m)
      else if e_type m data \<noteq> ET_EXEC \<or> e_machine m data \<noteq> EM_386 then (0, m)
      else (case load_loop data sz 0 m of
              (True, m) \<Rightarrow> (e_entry m data, m)
            | (False, m) \<Rightarrow> (0, m)))"

subsection \<open>What a loaded program looks like\<close>

text \<open>The bytes of a segment: its part of the file and zeros up to its size in memory.\<close>

definition segment_bytes :: "mem \<Rightarrow> u32 \<Rightarrow> u32 \<Rightarrow> u8 list" where
  "segment_bytes m data p = load_bytes m (data + p_offset m p) (unat (p_filesz m p)) @
     replicate (unat (p_memsz m p) - unat (p_filesz m p)) 0"

definition place_segment :: "mem \<Rightarrow> u32 \<Rightarrow> u32 \<Rightarrow> mem \<Rightarrow> mem" where
  "place_segment m0 data p m = store_bytes m (p_vaddr m0 p) (segment_bytes m0 data p)"

definition phdrs_from :: "mem \<Rightarrow> u32 \<Rightarrow> nat \<Rightarrow> u32 list" where
  "phdrs_from m data k =
     filter (\<lambda>p. p_type m p = PT_LOAD) (map (\<lambda>i. phdr_at m data (of_nat i)) [k..<unat (e_phnum m data)])"

text \<open>An image the loader is meant for: the program headers and the segments' bytes lie in the
  file, and no segment is loaded over the image.\<close>

definition in_image :: "u32 \<Rightarrow> u32 \<Rightarrow> u32 \<Rightarrow> nat \<Rightarrow> bool" where
  "in_image data sz a n \<longleftrightarrow> off data a + n \<le> unat sz"

definition good_segment :: "mem \<Rightarrow> u32 \<Rightarrow> u32 \<Rightarrow> u32 \<Rightarrow> bool" where
  "good_segment m data sz p \<longleftrightarrow> in_image data sz p 32 \<and>
     (p_type m p = PT_LOAD \<longrightarrow>
        unat (p_offset m p) + unat (p_filesz m p) \<le> unat sz \<and>
        apart (p_vaddr m p) (max (unat (p_filesz m p)) (unat (p_memsz m p))) data (unat sz))"

definition good_image :: "mem \<Rightarrow> u32 \<Rightarrow> u32 \<Rightarrow> bool" where
  "good_image m data sz \<longleftrightarrow> 52 \<le> unat sz \<and> ld32 m data = ELF_MAGIC \<and> e_type m data = ET_EXEC \<and>
     e_machine m data = EM_386 \<and>
     (\<forall>i < unat (e_phnum m data). good_segment m data sz (phdr_at m data (of_nat i)))"

lemma image_byte:
  assumes "load_bytes m' data n = load_bytes m data n" "off data a < n"
  shows "m' a = m a"
proof -
  have "load_bytes m' data n ! off data a = load_bytes m data n ! off data a" using assms(1) by simp
  then show ?thesis using assms(2) by simp
qed

lemma in_image_plus:
  assumes "in_image data sz a n" "k < n"
  shows "off data (a + of_nat k) < unat sz"
proof -
  have s: "off data a + k < 4294967296" using assms unat32_lt [of sz] unfolding in_image_def by linarith
  have k: "k < 4294967296" using s by simp
  have "a + of_nat k - data = (a - data) + of_nat k" by simp
  then have "off data (a + of_nat k) = off data a + k" using s k by (simp only: unat32_add_small unat32_of_nat_small)
  then show ?thesis using assms unfolding in_image_def by linarith
qed

lemma image_ld32:
  assumes "load_bytes m' data (unat sz) = load_bytes m data (unat sz)" "in_image data sz a 4"
  shows "ld32 m' a = ld32 m a"
  using in_image_plus [OF assms(2), of 0] in_image_plus [OF assms(2), of 1]
    in_image_plus [OF assms(2), of 2] in_image_plus [OF assms(2), of 3]
  by (simp add: ld32_def image_byte [OF assms(1)])

lemma image_ld16:
  assumes "load_bytes m' data (unat sz) = load_bytes m data (unat sz)" "in_image data sz a 2"
  shows "ld16 m' a = ld16 m a"
  using in_image_plus [OF assms(2), of 0] in_image_plus [OF assms(2), of 1]
  by (simp add: ld16_def image_byte [OF assms(1)])

lemma in_image_sub:
  assumes "in_image data sz a n" "k + j \<le> n"
  shows "in_image data sz (a + of_nat k) j"
proof -
  have s: "off data a + k < 4294967296 \<or> j = 0 \<and> k = n"
    using assms unat32_lt [of sz] unfolding in_image_def by linarith
  have le: "off data a + k \<le> unat sz" using assms unfolding in_image_def by linarith
  then have l: "off data a + k < 4294967296" using unat32_lt [of sz] by linarith
  then have "k < 4294967296" by simp
  moreover have "a + of_nat k - data = (a - data) + of_nat k" by simp
  ultimately have "off data (a + of_nat k) = off data a + k" using l
    by (simp only: unat32_add_small unat32_of_nat_small)
  then show ?thesis using assms unfolding in_image_def by linarith
qed

lemma in_image_hdr: "52 \<le> unat sz \<Longrightarrow> k + j \<le> 52 \<Longrightarrow> in_image data sz (data + of_nat k) j"
  using in_image_sub [of data sz data 52 k j] by (simp add: in_image_def)

lemma hdr_stable:
  assumes "load_bytes m' data (unat (sz :: u32)) = load_bytes m data (unat sz)" "52 \<le> unat sz"
  shows "e_phoff m' data = e_phoff m data" "e_phentsize m' data = e_phentsize m data"
    "e_phnum m' data = e_phnum m data" "e_entry m' data = e_entry m data"
  using image_ld32 [OF assms(1) in_image_hdr [OF assms(2), where k = 28 and j = 4]]
    image_ld32 [OF assms(1) in_image_hdr [OF assms(2), where k = 24 and j = 4]]
    image_ld16 [OF assms(1) in_image_hdr [OF assms(2), where k = 42 and j = 2]]
    image_ld16 [OF assms(1) in_image_hdr [OF assms(2), where k = 44 and j = 2]]
  by (simp_all add: e_phoff_def e_phentsize_def e_phnum_def e_entry_def)

lemma phdr_stable:
  assumes "load_bytes m' data (unat sz) = load_bytes m data (unat sz)" "in_image data sz p 32"
  shows "p_type m' p = p_type m p" "p_offset m' p = p_offset m p" "p_vaddr m' p = p_vaddr m p"
    "p_filesz m' p = p_filesz m p" "p_memsz m' p = p_memsz m p"
  using image_ld32 [OF assms(1) in_image_sub [OF assms(2), where k = 0 and j = 4]]
    image_ld32 [OF assms(1) in_image_sub [OF assms(2), where k = 4 and j = 4]]
    image_ld32 [OF assms(1) in_image_sub [OF assms(2), where k = 8 and j = 4]]
    image_ld32 [OF assms(1) in_image_sub [OF assms(2), where k = 16 and j = 4]]
    image_ld32 [OF assms(1) in_image_sub [OF assms(2), where k = 20 and j = 4]]
  by (simp_all add: p_type_def p_offset_def p_vaddr_def p_filesz_def p_memsz_def)

lemma apart_part:
  assumes "apart v n data (unat sz)" "n' \<le> n" "in_image data sz a k"
  shows "apart v n' a k"
proof (cases "n' = 0 \<or> k = 0")
  case True
  then show ?thesis by (auto simp: apart_def)
next
  case False
  then have n: "n \<le> off v data" "unat sz \<le> off data v" and nz: "0 < n" "0 < k"
    using assms by (auto simp: apart_def in_image_def)
  have ne: "v \<noteq> data" using n nz by auto
  have le: "off data a + k \<le> unat sz" using assms(3) by (simp add: in_image_def)
  have lt: "off data a < off data v" using le n nz by linarith
  have "off v data + off data a < 4294967296" using off_sum [OF ne] lt by linarith
  moreover have "a - v = (data - v) + (a - data)" by simp
  ultimately have 1: "off v a = off v data + off data a" by (simp only: unat32_add_small)
  have "a - data \<le> v - data" using lt by (simp add: word_le_nat_alt)
  moreover have "v - a = (v - data) - (a - data)" by simp
  ultimately have 2: "off a v = off data v - off data a" by (simp only: unat32_sub)
  have "k \<le> off a v" using 2 n(2) le by linarith
  then show ?thesis using 1 n(1) assms(2) by (simp add: apart_def)
qed

lemma image_load:
  assumes "load_bytes m' data (unat sz) = load_bytes m data (unat sz)" "in_image data sz a k"
  shows "load_bytes m' a k = load_bytes m a k"
  by (rule nth_equalityI) (simp_all add: image_byte [OF assms(1) in_image_plus [OF assms(2)]])

lemma length_segment_bytes:
  "length (segment_bytes m data p) = max (unat (p_filesz m p)) (unat (p_memsz m p))"
  by (simp add: segment_bytes_def max_def)

lemma load_segment_good:
  assumes img: "load_bytes m data (unat sz) = load_bytes m0 data (unat sz)"
    and good: "good_segment m0 data sz p"
  shows "load_segment data sz p m =
      (True, if p_type m0 p = PT_LOAD then place_segment m0 data p m else m) \<and>
    (p_type m0 p = PT_LOAD \<longrightarrow>
      load_bytes (place_segment m0 data p m) data (unat sz) = load_bytes m0 data (unat sz))"
proof (cases "p_type m0 p = PT_LOAD")
  case False
  then show ?thesis
    using phdr_stable [OF img] good by (simp add: load_segment_def good_segment_def)
next
  case True
  let ?v = "p_vaddr m0 p" and ?n = "unat (p_filesz m0 p)" and ?o = "data + p_offset m0 p"
  let ?k = "unat (p_memsz m0 p)"
  have ph: "in_image data sz p 32" and le: "unat (p_offset m0 p) + ?n \<le> unat sz"
    and ap: "apart ?v (max ?n ?k) data (unat sz)"
    using good True by (auto simp: good_segment_def)
  note st = phdr_stable [OF img ph]
  have src: "in_image data sz ?o ?n" using le by (simp add: in_image_def)
  have "unat (p_offset m0 p + p_filesz m0 p) = unat (p_offset m0 p) + ?n"
    using le unat32_lt [of sz] by (intro unat32_add_small) linarith
  then have fits: "\<not> p_offset m0 p + p_filesz m0 p > sz" using le by (simp add: word_less_nat_alt)
  define m1 where "m1 = store_bytes m ?v (load_bytes m0 ?o ?n)"
  have "apart ?v ?n ?o ?n" by (rule apart_part [OF ap _ src]) simp
  then have cp: "memcpy m ?v ?o (p_filesz m0 p) = m1"
    by (simp add: memcpy_store m1_def image_load [OF img src])
  have ap1: "apart ?v ?n data (unat sz)" by (rule apart_part [OF ap]) (simp_all add: in_image_def)
  have img1: "load_bytes m1 data (unat sz) = load_bytes m0 data (unat sz)"
    unfolding m1_def using load_store_apart [of ?v "load_bytes m0 ?o ?n" data "unat sz" m] ap1 img by simp
  note st1 = phdr_stable [OF img1 ph]
  have zeros: "memset m1 (?v + p_filesz m0 p) 0 (p_memsz m0 p - p_filesz m0 p) = place_segment m0 data p m"
    if "p_memsz m0 p > p_filesz m0 p"
  proof -
    have "unat (p_memsz m0 p - p_filesz m0 p) = ?k - ?n"
      using that by (intro unat32_sub) simp
    then show ?thesis
      by (simp add: memset_def memset_loop_store place_segment_def segment_bytes_def store_bytes_append m1_def)
  qed
  have plain: "m1 = place_segment m0 data p m" if "\<not> p_memsz m0 p > p_filesz m0 p"
    using that by (simp add: place_segment_def segment_bytes_def m1_def word_less_nat_alt)
  have "load_segment data sz p m = (True, place_segment m0 data p m)"
    using True fits st st1 cp zeros plain by (simp add: load_segment_def Let_def)
  moreover have "load_bytes (place_segment m0 data p m) data (unat sz) = load_bytes m0 data (unat sz)"
    unfolding place_segment_def
    using load_store_apart [of ?v "segment_bytes m0 data p" data "unat sz" m] ap img
    by (simp add: length_segment_bytes)
  ultimately show ?thesis using True by simp
qed

lemma phdrs_from_step:
  "k < unat (e_phnum m data) \<Longrightarrow> phdrs_from m data k =
     (if p_type m (phdr_at m data (of_nat k)) = PT_LOAD then [phdr_at m data (of_nat k)] else []) @
     phdrs_from m data (Suc k)"
  by (simp add: phdrs_from_def upt_conv_Cons)

lemma load_loop_good:
  assumes "good_image m0 data sz"
  shows "load_bytes m data (unat sz) = load_bytes m0 data (unat sz) \<Longrightarrow> unat i \<le> unat (e_phnum m0 data) \<Longrightarrow>
    load_loop data sz i m = (True, fold (place_segment m0 data) (phdrs_from m0 data (unat i)) m) \<and>
    load_bytes (fold (place_segment m0 data) (phdrs_from m0 data (unat i)) m) data (unat sz) =
      load_bytes m0 data (unat sz)"
proof (induction "unat (e_phnum m0 data) - unat i" arbitrary: i m)
  case 0
  have sz: "52 \<le> unat sz" using assms by (simp add: good_image_def)
  have "\<not> i < e_phnum m0 data" using 0 by (simp add: word_less_nat_alt)
  then show ?case using 0 hdr_stable [OF 0(2) sz]
    by (subst load_loop.simps) (simp add: phdrs_from_def)
next
  case (Suc n)
  have sz: "52 \<le> unat sz" using assms by (simp add: good_image_def)
  have i: "unat i < unat (e_phnum m0 data)" using Suc.hyps(2) by linarith
  then have lt: "i < e_phnum m0 data" by (simp add: word_less_nat_alt)
  note st = hdr_stable [OF Suc.prems(1) sz]
  let ?p = "phdr_at m0 data i"
  have "unat i + 1 < 65536" using i unat16_lt [of "e_phnum m0 data"] by linarith
  then have i1: "unat (i + 1) = Suc (unat i)" by (simp add: unat_word_ariths)
  have good: "good_segment m0 data sz ?p" using assms i by (force simp: good_image_def)
  define m' where "m' = (if p_type m0 ?p = PT_LOAD then place_segment m0 data ?p m else m)"
  have seg: "load_segment data sz ?p m = (True, m')"
    and img: "load_bytes m' data (unat sz) = load_bytes m0 data (unat sz)"
    using load_segment_good [OF Suc.prems(1) good] Suc.prems(1) by (auto simp: m'_def)
  have "phdr_at m data i = ?p" using st by (simp add: phdr_at_def)
  then have "load_loop data sz i m = load_loop data sz (i + 1) m'"
    using lt st seg by (subst load_loop.simps) simp
  moreover have "fold (place_segment m0 data) (phdrs_from m0 data (unat i)) m =
      fold (place_segment m0 data) (phdrs_from m0 data (Suc (unat i))) m'"
    using phdrs_from_step [OF i] by (simp add: m'_def)
  ultimately show ?case using Suc.hyps(1) [of "i + 1" m'] Suc.hyps(2) img i i1 by simp
qed

text \<open>
  C10: for an image whose program headers and segments lie in the file and whose segments are
  not loaded over it, the loader returns the entry point and memory is exactly the old one with
  every loadable segment placed, in order, at its virtual address: its bytes of the file followed by
  zeros up to its memory size.  Anything that is not an x86 executable is refused without
  touching memory.
\<close>

theorem elf_load_places_segments:
  "(good_image m data sz \<longrightarrow>
      elf_load data sz m = (e_entry m data, fold (place_segment m data) (phdrs_from m data 0) m)) \<and>
   (unat sz < 52 \<or> ld32 m data \<noteq> ELF_MAGIC \<or> e_type m data \<noteq> ET_EXEC \<or> e_machine m data \<noteq> EM_386 \<longrightarrow>
      elf_load data sz m = (0, m))"
proof -
  have "elf_load data sz m = (e_entry m data, fold (place_segment m data) (phdrs_from m data 0) m)"
    if good: "good_image m data sz"
  proof -
    have sz: "52 \<le> unat sz" using good by (simp add: good_image_def)
    note l = load_loop_good [OF good refl, of 0, simplified]
    have "e_entry (fold (place_segment m data) (phdrs_from m data 0) m) data = e_entry m data"
      by (rule hdr_stable(4) [OF conjunct2 [OF l] sz])
    then show ?thesis
      using good l by (simp add: elf_load_def good_image_def word_less_nat_alt)
  qed
  then show ?thesis by (auto simp: elf_load_def word_less_nat_alt)
qed

text \<open>A small program: one segment of 4 bytes at 0x1000, 8 bytes in memory.\<close>

definition sample_elf :: "u8 list" where
  "sample_elf = [0x7F, 0x45, 0x4C, 0x46, 0, 0, 0, 0, 0, 0, 0, 0, 0, 0, 0, 0, 2, 0, 3, 0, 1, 0, 0, 0,
     0x00, 0x10, 0, 0, 52, 0, 0, 0, 0, 0, 0, 0, 0, 0, 0, 0, 52, 0, 32, 0, 1, 0, 0, 0, 0, 0, 0, 0,
     1, 0, 0, 0, 84, 0, 0, 0, 0x00, 0x10, 0, 0, 0, 0, 0, 0, 4, 0, 0, 0, 8, 0, 0, 0, 0, 0, 0, 0, 0, 0, 0, 0,
     0xB8, 1, 2, 0xC3]"

definition sample_mem :: mem where
  "sample_mem a = (if unat a < 88 then sample_elf ! unat a else 0xFF)"

lemma sample_image: "good_image sample_mem 0 88"
proof -
  have n: "e_phnum sample_mem 0 = 1" by code_simp
  have p: "phdr_at sample_mem 0 0 = 52" by code_simp
  have q: "p_vaddr sample_mem 52 = 0x1000" "p_offset sample_mem 52 = 84" "p_filesz sample_mem 52 = 4"
    "p_memsz sample_mem 52 = 8"
    by code_simp+
  have "good_segment sample_mem 0 88 52"
    using q by (simp add: good_segment_def in_image_def apart_def)
  then have "\<forall>i < unat (e_phnum sample_mem 0). good_segment sample_mem 0 88 (phdr_at sample_mem 0 (of_nat i))"
    using n p by simp
  moreover have "ld32 sample_mem 0 = ELF_MAGIC" "e_type sample_mem 0 = ET_EXEC" "e_machine sample_mem 0 = EM_386"
    by code_simp+
  ultimately show ?thesis by (simp add: good_image_def)
qed

theorem elf_load_places_segments_witness:
  "fst (elf_load 0 88 sample_mem) = 0x1000 \<and>
   snd (elf_load 0 88 sample_mem) 0x1003 = 0xC3 \<and> snd (elf_load 0 88 sample_mem) 0x1007 = 0 \<and>
   snd (elf_load 0 88 sample_mem) 0x1008 = 0xFF"
proof -
  have l: "elf_load 0 88 sample_mem =
      (e_entry sample_mem 0, fold (place_segment sample_mem 0) (phdrs_from sample_mem 0 0) sample_mem)"
    using elf_load_places_segments sample_image by blast
  have "phdrs_from sample_mem 0 0 = [52]" by code_simp
  moreover have "e_entry sample_mem 0 = 0x1000" by code_simp
  moreover have "place_segment sample_mem 0 52 sample_mem 0x1003 = 0xC3"
    "place_segment sample_mem 0 52 sample_mem 0x1007 = 0" "place_segment sample_mem 0 52 sample_mem 0x1008 = 0xFF"
    by code_simp+
  ultimately show ?thesis using l by simp
qed

text \<open>The bounds check adds in 32 bits: an offset near the top of the address space passes it.\<close>

lemma load_segment_wraps:
  "p_type m p = PT_LOAD \<Longrightarrow> p_offset m p = 0xFFFFFFF0 \<Longrightarrow> p_filesz m p = 0x20 \<Longrightarrow> sz \<ge> 0x10 \<Longrightarrow>
   fst (load_segment data sz p m)"
proof -
  have "(0xFFFFFFF0 + 0x20 :: u32) = 0x10" by (simp add: word_eq_iff_unsigned)
  then show "p_type m p = PT_LOAD \<Longrightarrow> p_offset m p = 0xFFFFFFF0 \<Longrightarrow> p_filesz m p = 0x20 \<Longrightarrow> sz \<ge> 0x10 \<Longrightarrow> ?thesis"
    by (simp only: load_segment_def Let_def not_less if_False fst_conv) (simp add: not_less)
qed

end
