(* ===== verification/Syscall.thy ===== *)
theory Syscall
  imports Fd Signal Clock Elf Env
begin

text \<open>
  \<^verbatim>\<open>kernel/syscall.c\<close>: the system calls over the state of the kernel.  User pointers are addresses of
  \<open>k_mem\<close>, the memory outside the kernel's own objects.  A result \<open>None\<close> is a call that does not
  return: an access outside a kernel buffer, a string without end, or a wait for which no
  interrupt comes.  The interrupts during a wait or a sleep are given as lists, as in the theories of
  processes and the timer; \<open>esp\<close> is the kernel stack pointer \<^verbatim>\<open>sys_fork\<close> reads.
\<close>

subsection \<open>State\<close>

record kstate =
  k_mem :: mem
  k_fs :: "mem fs"
  k_fdt :: fdt
  k_procs :: ptable
  k_sigs :: "sig_entry list"
  k_env :: "env_entry list"
  k_timer :: timer
  k_prof :: "u32 list"
  k_vga :: vga
  usr_brk :: u32

definition USR_HEAP_BASE :: u32 where "USR_HEAP_BASE = 0x700000"
definition USR_HEAP_MAX :: u32 where "USR_HEAP_MAX = 0x800000"

text \<open>The string a user pointer points to.\<close>

definition user_str :: "mem \<Rightarrow> u32 \<Rightarrow> cstr option" where
  "user_str m a = map_option (\<lambda>n. load_bytes m a (unat n)) (strlen m a)"

text \<open>The node of a path given by a user pointer; \<^verbatim>\<open>NULL\<close> resolves to no node.\<close>

definition resolve_user :: "u32 \<Rightarrow> kstate \<Rightarrow> u32 option" where
  "resolve_user path k =
     (if path = 0 then Some 0 else map_option (vfs_resolve (k_fs k)) (user_str (k_mem k) path))"

subsection \<open>The system calls\<close>

definition sys_sbrk :: "i32 \<Rightarrow> kstate \<Rightarrow> i32 \<times> kstate" where
  "sys_sbrk increment k =
     (let old_brk = usr_brk k
      in if increment = 0 then (old_brk, k)
         else (let new_brk = usr_brk k + increment
               in if new_brk > USR_HEAP_MAX then (- 1, k)
                  else (old_brk, k\<lparr>usr_brk := new_brk\<rparr>)))"

definition sys_exit :: "i32 \<Rightarrow> kstate \<Rightarrow> i32 \<times> kstate" where
  "sys_exit code k =
     (let k = (case proc_current (k_procs k) of
                 None \<Rightarrow> k
               | Some i \<Rightarrow>
                 (let k = k\<lparr>k_procs := upd_proc i (\<lambda>p. p\<lparr>exit_code := code, p_state := PROC_ZOMBIE\<rparr>) (k_procs k)\<rparr>;
                      pp = parent_pid (proc_table (k_procs k) ! i)
                  in if pp \<noteq> 0 then k\<lparr>k_sigs := signal_send pp SIGCHLD (k_sigs k)\<rparr> else k))
      in (0, k\<lparr>k_procs := proc_set_current 1 (k_procs k)\<rparr>))"

definition sys_fork :: "u32 \<Rightarrow> kstate \<Rightarrow> i32 \<times> kstate" where
  "sys_fork esp k =
     (case proc_fork esp (k_procs k) of
        (None, pt) \<Rightarrow> (- 1, k\<lparr>k_procs := pt\<rparr>)
      | (Some c, pt) \<Rightarrow> (pid (proc_table pt ! c), k\<lparr>k_procs := pt\<rparr>))"

definition sys_write :: "i32 \<Rightarrow> u32 \<Rightarrow> u32 \<Rightarrow> kstate \<Rightarrow> (i32 \<times> kstate) option" where
  "sys_write fd buf n k =
     (let k = k\<lparr>k_prof := prof_inc PROF_SYSCALL (k_prof k)\<rparr>; bs = load_bytes (k_mem k) buf (unat n)
      in if fd = 1 \<or> fd = 2 then Some (n, k\<lparr>k_vga := vga_print bs (k_vga k)\<rparr>)
         else map_option (\<lambda>(r, f, t). (of_int r, k\<lparr>k_fs := f, k_fdt := t\<rparr>))
                (fd_write (sint fd) bs (k_fs k) (k_fdt k)))"

definition sys_read :: "i32 \<Rightarrow> u32 \<Rightarrow> u32 \<Rightarrow> kstate \<Rightarrow> (i32 \<times> kstate) option" where
  "sys_read fd buf n k =
     (let k = k\<lparr>k_prof := prof_inc PROF_SYSCALL (k_prof k)\<rparr>
      in map_option (\<lambda>(r, out, t). (of_int r, k\<lparr>k_mem := store_bytes (k_mem k) buf out, k_fdt := t\<rparr>))
           (fd_read (k_fs k) (sint fd) n (k_fdt k)))"

definition sys_open :: "u32 \<Rightarrow> i32 \<Rightarrow> kstate \<Rightarrow> (i32 \<times> kstate) option" where
  "sys_open path flags k =
     (let k = k\<lparr>k_prof := prof_inc PROF_VFS (k_prof k)\<rparr>
      in map_option (\<lambda>node. if node = 0 then (- 1, k)
             else (let (r, t) = fd_open node (k_fdt k) in (of_int r, k\<lparr>k_fdt := t\<rparr>)))
           (resolve_user path k))"

definition sys_close :: "i32 \<Rightarrow> kstate \<Rightarrow> i32 \<times> kstate" where
  "sys_close fd k = (0, k\<lparr>k_fdt := fd_close (sint fd) (k_fdt k)\<rparr>)"

definition sys_getpid :: "kstate \<Rightarrow> i32" where
  "sys_getpid k =
     (case proc_current (k_procs k) of Some i \<Rightarrow> pid (proc_table (k_procs k) ! i) | None \<Rightarrow> 1)"

definition sys_getenv :: "u32 \<Rightarrow> u32 \<Rightarrow> u32 \<Rightarrow> kstate \<Rightarrow> (i32 \<times> kstate) option" where
  "sys_getenv key buf buflen k =
     map_option (\<lambda>s.
       (case env_get s (k_env k) of
          None \<Rightarrow> (- 1, k)
        | Some v \<Rightarrow>
          (let m = store_bytes (k_mem k) buf (strncpy_bytes v (unat (buflen - 1)));
               m = m(buf + (buflen - 1) := 0)
           in (of_nat (length v), k\<lparr>k_mem := m\<rparr>))))
       (user_str (k_mem k) key)"

definition sys_sleep :: "(timer \<Rightarrow> timer) list \<Rightarrow> u32 \<Rightarrow> kstate \<Rightarrow> (i32 \<times> kstate) option" where
  "sys_sleep irqs ms k = map_option (\<lambda>t. (0, k\<lparr>k_timer := t\<rparr>)) (timer_sleep irqs ms (k_timer k))"

definition sys_kill :: "u32 \<Rightarrow> i32 \<Rightarrow> kstate \<Rightarrow> i32 \<times> kstate" where
  "sys_kill p signo k = (0, k\<lparr>k_sigs := signal_send p (sint signo) (k_sigs k)\<rparr>)"

definition sys_uptime :: "kstate \<Rightarrow> i32" where
  "sys_uptime k = timer_ticks (k_timer k) div 1000"

text \<open>The exit code is stored at the pointer unless it is \<^verbatim>\<open>NULL\<close>.\<close>

definition sys_wait :: "(ptable \<Rightarrow> ptable) list \<Rightarrow> i32 \<Rightarrow> u32 \<Rightarrow> kstate \<Rightarrow> (i32 \<times> kstate) option" where
  "sys_wait irqs child out k =
     map_option (\<lambda>(p, code, pt). (p, k\<lparr>k_procs := pt,
          k_mem := (if out \<noteq> 0 then st32 (k_mem k) out code else k_mem k)\<rparr>))
       (proc_wait irqs child (k_procs k))"

definition sys_getppid :: "kstate \<Rightarrow> i32" where
  "sys_getppid k = proc_getppid (k_procs k)"

definition sys_exec :: "u32 \<Rightarrow> kstate \<Rightarrow> (i32 \<times> kstate) option" where
  "sys_exec path k =
     (case resolve_user path k of
        None \<Rightarrow> None
      | Some node \<Rightarrow>
        (if node = 0 then Some (- 1, k)
         else case fs_nodes (k_fs k) node of
           None \<Rightarrow> None
         | Some nd \<Rightarrow>
           (if n_flags nd AND VFS_FILE = 0 then Some (- 1, k)
            else case vfs_read (k_fs k) node 0 0x100000 of
              None \<Rightarrow> None
            | Some bs \<Rightarrow>
              (let n = of_nat (length bs); k = k\<lparr>k_mem := store_bytes (k_mem k) 0x400000 bs\<rparr>
               in if n = 0 then Some (- 1, k)
                  else (let (entry, m) = elf_load 0x400000 n (k_mem k); k = k\<lparr>k_mem := m\<rparr>
                        in if entry = 0 then Some (- 1, k)
                           else case user_str (k_mem k) path of
                             None \<Rightarrow> None
                           | Some name \<Rightarrow>
                             (case proc_create name entry (k_procs k) of
                                (None, pt) \<Rightarrow> Some (- 1, k\<lparr>k_procs := pt\<rparr>)
                              | (Some i, pt) \<Rightarrow>
                                (let pt = upd_proc i (\<lambda>p. p\<lparr>parent_pid := proc_getpid pt, p_state := PROC_READY\<rparr>) pt
                                 in Some (pid (proc_table pt ! i), k\<lparr>k_procs := pt\<rparr>))))))))"

definition sys_sigaction :: "i32 \<Rightarrow> u32 \<Rightarrow> kstate \<Rightarrow> i32 \<times> kstate" where
  "sys_sigaction signo handler k =
     (case proc_current (k_procs k) of
        None \<Rightarrow> (- 1, k)
      | Some i \<Rightarrow> (0, k\<lparr>k_sigs := signal_set_handler (pid (proc_table (k_procs k) ! i)) (sint signo) handler (k_sigs k)\<rparr>))"

definition sys_sigreturn :: "kstate \<Rightarrow> i32 \<times> kstate" where
  "sys_sigreturn k = (0, k)"

definition sys_pipe :: "u32 \<Rightarrow> kstate \<Rightarrow> i32 \<times> kstate" where
  "sys_pipe fds k =
     (case pipe_alloc (k_fdt k) of
        (None, t) \<Rightarrow> (- 1, k\<lparr>k_fdt := t\<rparr>)
      | (Some p, t) \<Rightarrow>
        (let (rfd, t) = fd_open_pipe p False t;
             (wfd, t) = fd_open_pipe p True t;
             k = k\<lparr>k_fdt := t\<rparr>
         in if rfd < 0 \<or> wfd < 0 then (- 1, k)
            else (0, k\<lparr>k_mem := st32 (st32 (k_mem k) fds (of_int rfd)) (fds + 4) (of_int wfd)\<rparr>)))"

definition sys_dup2 :: "i32 \<Rightarrow> i32 \<Rightarrow> kstate \<Rightarrow> i32 \<times> kstate" where
  "sys_dup2 oldfd newfd k =
     (let (r, t) = fd_dup2 (sint oldfd) (sint newfd) (k_fdt k) in (of_int r, k\<lparr>k_fdt := t\<rparr>))"

definition sys_sigmask :: "i32 \<Rightarrow> u8 \<Rightarrow> kstate \<Rightarrow> i32 \<times> kstate" where
  "sys_sigmask how msk k =
     (case proc_current (k_procs k) of
        None \<Rightarrow> (- 1, k)
      | Some i \<Rightarrow> (0, k\<lparr>k_sigs := signal_set_mask (pid (proc_table (k_procs k) ! i)) (sint how) msk (k_sigs k)\<rparr>))"

subsection \<open>Dispatch\<close>

text \<open>The interrupts that come while a call waits.\<close>

record waits =
  w_procs :: "(ptable \<Rightarrow> ptable) list"
  w_timer :: "(timer \<Rightarrow> timer) list"
  w_esp :: u32

text \<open>\<^verbatim>\<open>sys_yield\<close> raises the interrupt again with the number \<open>0xFF\<close>, which no case handles.\<close>

definition yield_number :: u32 where "yield_number = 0xFF"

definition unknown_syscall :: "kstate \<Rightarrow> i32 \<times> kstate" where
  "unknown_syscall k = (- 1, k)"

definition sys_yield :: "kstate \<Rightarrow> i32 \<times> kstate" where
  "sys_yield k = (0, snd (unknown_syscall k))"

definition syscall_ret :: "waits \<Rightarrow> registers \<Rightarrow> kstate \<Rightarrow> (i32 \<times> kstate) option" where
  "syscall_ret w regs k =
     (let n = r_eax regs; a = r_ebx regs; b = r_ecx regs; c = r_edx regs
      in if n = 0 then Some (sys_exit a k)
         else if n = 1 then sys_write a b c k
         else if n = 2 then sys_read a b c k
         else if n = 3 then sys_open a b k
         else if n = 4 then Some (sys_close a k)
         else if n = 5 then Some (sys_getpid k, k)
         else if n = 6 then sys_getenv a b c k
         else if n = 7 then sys_sleep (w_timer w) a k
         else if n = 8 then Some (sys_yield k)
         else if n = 9 then Some (sys_kill a b k)
         else if n = 10 then Some (sys_uptime k, k)
         else if n = 11 then Some (sys_fork (w_esp w) k)
         else if n = 12 then sys_wait (w_procs w) a b k
         else if n = 13 then sys_exec a k
         else if n = 14 then Some (sys_getppid k, k)
         else if n = 15 then Some (sys_sbrk a k)
         else if n = 16 then Some (sys_sigaction a b k)
         else if n = 17 then Some (sys_sigreturn k)
         else if n = 18 then Some (sys_pipe a k)
         else if n = 19 then Some (sys_dup2 a b k)
         else if n = 20 then Some (sys_sigmask a (ucast b) k)
         else Some (unknown_syscall k))"

definition syscall_handler :: "waits \<Rightarrow> registers \<Rightarrow> kstate \<Rightarrow> (registers \<times> kstate) option" where
  "syscall_handler w regs k = map_option (\<lambda>(r, k). (regs\<lparr>r_eax := r\<rparr>, k)) (syscall_ret w regs k)"

subsection \<open>The invariant of the kernel state\<close>

definition kstate_ok :: "kstate \<Rightarrow> bool" where
  "kstate_ok k \<longleftrightarrow> ram_ok (k_fs k) \<and> fd_ok (k_fdt k) \<and> sig_ok (k_sigs k) \<and> vga_ok (k_vga k) \<and>
     length (k_prof k) = 5 \<and> length (proc_table (k_procs k)) = 16 \<and> usr_brk k \<le> USR_HEAP_MAX"

lemma kstate_okD:
  assumes "kstate_ok k"
  shows "ram_ok (k_fs k)" "fd_ok (k_fdt k)" "sig_ok (k_sigs k)" "vga_ok (k_vga k)"
    "length (k_prof k) = 5" "length (proc_table (k_procs k)) = 16" "usr_brk k \<le> USR_HEAP_MAX"
  using assms by (simp_all add: kstate_ok_def)

lemma vfs_write_ram_ok:
  assumes ok: "ram_ok s" and run: "vfs_write s p pos bs = Some (n, s')"
  shows "ram_ok s'"
proof (cases "p = 0 \<or> node_data s p = None \<or> (\<exists>d. node_data s p = Some d \<and> d_buf d = None)")
  case True
  then have "s' = s" using run by (auto simp: vfs_write_def ramfs_write_def split: if_splits)
  then show ?thesis using ok by simp
next
  case False
  then obtain d buf nd where d: "node_data s p = Some d" "d_buf d = Some buf" "p \<noteq> 0"
    and nd: "fs_nodes s p = Some nd" "fs_datas s (n_inode nd) = Some d"
    by (auto simp: node_data_Some)
  let ?sz = "if pos + of_nat (length bs) > d_capacity d then d_capacity d - pos else of_nat (length bs)"
  let ?buf = "overlay buf (unat pos) (take (unat ?sz) bs)"
  have fit: "unat pos + unat ?sz \<le> length buf"
    using run d nd by (auto simp: vfs_write_def ramfs_write_def Let_def split: if_splits)
  have "length (take (unat ?sz) bs) \<le> unat ?sz" by simp
  then have "unat pos + length (take (unat ?sz) bs) \<le> length buf" using fit by linarith
  then have len: "length ?buf = length buf" by (rule length_overlay)
  note W = fs_ok_write [OF ok nd d(2) len]
  have "(fs_nodes s)(p \<mapsto> nd\<lparr>n_length := n_length nd\<rparr>) = fs_nodes s" using nd by auto
  then have W': "ram_ok (s\<lparr>fs_datas := (fs_datas s)(n_inode nd \<mapsto> d\<lparr>d_buf := Some ?buf\<rparr>)\<rparr>)"
    using W [of "n_length nd"] by (simp del: fun_upd_apply)
  show ?thesis
    using run d nd W [of "pos + ?sz"] W' fit
    by (auto simp: vfs_write_def ramfs_write_def Let_def split: if_splits)
qed

lemma fd_write_ram_ok:
  "ram_ok s \<Longrightarrow> fd_write fd bs s t = Some (r, s', t') \<Longrightarrow> ram_ok s'"
  by (auto simp: fd_write_def Let_def case_prod_beta split: if_splits option.splits intro: vfs_write_ram_ok)

lemma length_upd_proc [simp]: "length (proc_table (upd_proc i f s)) = length (proc_table s)"
  by (simp add: upd_proc_def)

lemma length_proc_fork: "length (proc_table (snd (proc_fork e s))) = length (proc_table s)"
  by (simp add: proc_fork_def Let_def split: option.splits)

lemma length_proc_create: "length (proc_table (snd (proc_create name e s))) = length (proc_table s)"
  by (simp add: proc_create_def Let_def split: option.splits)

lemma length_proc_wait:
  "\<forall>f \<in> set irqs. \<forall>pt. length (proc_table (f pt)) = length (proc_table pt) \<Longrightarrow>
   proc_wait irqs c s = Some (p, code, s') \<Longrightarrow> length (proc_table s') = length (proc_table s)"
proof (induction irqs arbitrary: s)
  case Nil
  then show ?case by (auto simp: proc_wait_poll_def proc_cleanup_def)
next
  case (Cons f irqs)
  then show ?case by (auto simp: proc_wait_poll_def proc_cleanup_def split: option.splits)
qed

lemma length_prof_inc [simp]: "length (prof_inc c p) = length p"
  by (simp add: prof_inc_def)

named_theorems calls \<comment> \<open>system calls that always return keep the invariant\<close>
named_theorems returns \<comment> \<open>and so do the others when they return\<close>

lemma sys_sbrk_ok [calls]: "kstate_ok k \<Longrightarrow> kstate_ok (snd (sys_sbrk a k))"
  by (simp add: sys_sbrk_def Let_def kstate_ok_def not_less)

lemma sys_exit_ok [calls]: "kstate_ok k \<Longrightarrow> kstate_ok (snd (sys_exit a k))"
  by (simp add: sys_exit_def Let_def kstate_ok_def proc_set_current_def signal_send_ok split: option.splits)

lemma sys_fork_ok [calls]: "kstate_ok k \<Longrightarrow> kstate_ok (snd (sys_fork e k))"
  using length_proc_fork [of e "k_procs k"]
  by (auto simp: sys_fork_def kstate_ok_def split: prod.splits option.splits)

lemma sys_write_ok [returns]: "kstate_ok k \<Longrightarrow> sys_write a b c k = Some (r, k') \<Longrightarrow> kstate_ok k'"
  by (auto simp: sys_write_def Let_def kstate_ok_def vga_print_ok split: if_splits
      intro: fd_write_ok fd_write_ram_ok)

lemma sys_read_ok [returns]: "kstate_ok k \<Longrightarrow> sys_read a b c k = Some (r, k') \<Longrightarrow> kstate_ok k'"
  by (auto simp: sys_read_def Let_def kstate_ok_def intro: fd_read_ok)

lemma sys_open_ok [returns]: "kstate_ok k \<Longrightarrow> sys_open a b k = Some (r, k') \<Longrightarrow> kstate_ok k'"
  using fd_open_ok [of "k_fdt k"]
  by (auto simp: sys_open_def Let_def kstate_ok_def split: if_splits prod.splits) (metis snd_conv)

lemma sys_close_ok [calls]: "kstate_ok k \<Longrightarrow> kstate_ok (snd (sys_close a k))"
  by (simp add: sys_close_def kstate_ok_def fd_close_ok)

lemma sys_getenv_ok [returns]: "kstate_ok k \<Longrightarrow> sys_getenv a b c k = Some (r, k') \<Longrightarrow> kstate_ok k'"
  by (auto simp: sys_getenv_def Let_def kstate_ok_def split: option.splits)

lemma sys_sleep_ok [returns]: "kstate_ok k \<Longrightarrow> sys_sleep irqs a k = Some (r, k') \<Longrightarrow> kstate_ok k'"
  by (auto simp: sys_sleep_def kstate_ok_def)

lemma sys_kill_ok [calls]: "kstate_ok k \<Longrightarrow> kstate_ok (snd (sys_kill a b k))"
  by (simp add: sys_kill_def kstate_ok_def signal_send_ok)

lemma sys_wait_ok [returns]:
  "kstate_ok k \<Longrightarrow> \<forall>f \<in> set irqs. \<forall>pt. length (proc_table (f pt)) = length (proc_table pt) \<Longrightarrow>
   sys_wait irqs a b k = Some (r, k') \<Longrightarrow> kstate_ok k'"
  by (auto simp: sys_wait_def kstate_ok_def dest!: length_proc_wait)

lemma sys_exec_ok [returns]:
  assumes "kstate_ok k" "sys_exec a k = Some (r, k')"
  shows "kstate_ok k'"
proof -
  have l: "length (proc_table (snd (proc_create n e (k_procs k)))) = length (proc_table (k_procs k))" for n e
    by (rule length_proc_create)
  have "length (proc_table pt) = length (proc_table (k_procs k))"
    if "proc_create n e (k_procs k) = (i, pt)" for n e i pt
    using l [of n e] that by simp
  then show ?thesis
    using assms by (auto simp: sys_exec_def Let_def kstate_ok_def split: option.splits if_splits prod.splits)
qed

lemma sys_sigaction_ok [calls]: "kstate_ok k \<Longrightarrow> kstate_ok (snd (sys_sigaction a b k))"
  by (simp add: sys_sigaction_def kstate_ok_def signal_set_handler_ok split: option.splits)

lemma sys_pipe_ok [calls]: "kstate_ok k \<Longrightarrow> kstate_ok (snd (sys_pipe a k))"
proof -
  assume k: "kstate_ok k"
  show ?thesis
  proof (cases "find_slot (\<lambda>u. \<not> u) (pipe_used (k_fdt k))")
    case None
    then show ?thesis using k by (simp add: sys_pipe_def pipe_alloc_def kstate_ok_def)
  next
    case (Some p)
    obtain t where t: "pipe_alloc (k_fdt k) = (Some p, t)" using Some by (simp add: pipe_alloc_def)
    have "p < 8" using Some k by (auto simp: kstate_ok_def fd_ok_def dest: find_slot_SomeD(1))
    moreover have "fd_ok t" using pipe_alloc_ok [of "k_fdt k"] k t by (simp add: kstate_ok_def)
    ultimately have "fd_ok (snd (fd_open_pipe p True (snd (fd_open_pipe p False t))))"
      by (intro fd_open_pipe_ok)
    then show ?thesis using k t by (simp add: sys_pipe_def case_prod_beta Let_def kstate_ok_def)
  qed
qed

lemma sys_dup2_ok [calls]: "kstate_ok k \<Longrightarrow> kstate_ok (snd (sys_dup2 a b k))"
  by (simp add: sys_dup2_def case_prod_beta Let_def kstate_ok_def fd_dup2_ok)

lemma sys_sigmask_ok [calls]: "kstate_ok k \<Longrightarrow> kstate_ok (snd (sys_sigmask a b k))"
  by (simp add: sys_sigmask_def kstate_ok_def signal_set_mask_ok split: option.splits)

lemma unknown_ok [calls]: "kstate_ok k \<Longrightarrow> kstate_ok (snd (unknown_syscall k))"
  by (simp add: unknown_syscall_def)

lemma sys_yield_ok [calls]: "kstate_ok k \<Longrightarrow> kstate_ok (snd (sys_yield k))"
  by (simp add: sys_yield_def unknown_ok)

text \<open>A call that returns, returns with the invariant.\<close>

definition safe_call :: "(i32 \<times> kstate) option \<Rightarrow> bool" where
  "safe_call x \<longleftrightarrow> (\<forall>r k'. x = Some (r, k') \<longrightarrow> kstate_ok k')"

lemma safe_if: "safe_call x \<Longrightarrow> safe_call y \<Longrightarrow> safe_call (if P then x else y)"
  by simp

lemma safe_Some: "kstate_ok (snd p) \<Longrightarrow> safe_call (Some p)"
  by (auto simp: safe_call_def)

lemma safe_calls:
  assumes "kstate_ok k"
  shows "safe_call (sys_write a b c k)" "safe_call (sys_read a b c k)" "safe_call (sys_open a b k)"
    "safe_call (sys_getenv a b c k)" "safe_call (sys_sleep ts a k)" "safe_call (sys_exec a k)"
  using assms by (auto simp: safe_call_def dest: returns)

lemma syscall_ret_ok:
  assumes ok: "kstate_ok k"
    and irqs: "\<forall>f \<in> set (w_procs w). \<forall>pt. length (proc_table (f pt)) = length (proc_table pt)"
  shows "safe_call (syscall_ret w regs k)"
proof -
  have wt: "safe_call (sys_wait (w_procs w) a b k)" for a b
    unfolding safe_call_def using sys_wait_ok [OF ok irqs] by blast
  have sr: "kstate_ok (snd (sys_sigreturn k))" using ok by (simp add: sys_sigreturn_def)
  have pure: "kstate_ok (snd (r, k))" for r :: i32 using ok by simp
  show ?thesis
    unfolding syscall_ret_def Let_def
    by (intro safe_if safe_calls wt safe_Some sr pure calls ok)
qed

subsection \<open>Pipes through descriptors\<close>

lemma sint_small: "j < 16 \<Longrightarrow> sint (of_int (int j) :: i32) = int j"
  by (simp add: signed_of_nat signed_take_bit_int_eq_self)

lemma of_int_small_eq: "j < 16 \<Longrightarrow> (of_int (int j) :: i32) = 1 \<longleftrightarrow> j = 1"
  "j < 16 \<Longrightarrow> (of_int (int j) :: i32) = 2 \<longleftrightarrow> j = 2"
  using sint_small [of j] by auto

lemma ld32_st32_next:
  "ld32 (st32 (st32 m a x) (a + 4) y) a = x" "ld32 (st32 (st32 m a x) (a + 4) y) (a + 4) = y"
  by (simp_all add: ld32_def st32_upd add.assoc)

text \<open>What \<^verbatim>\<open>sys_pipe\<close> leaves behind when it succeeds.\<close>

lemma sys_pipe_success:
  assumes ok: "fd_ok (k_fdt k)" and run: "sys_pipe fds k = (0, k1)"
  obtains i j p where "i < 16" "j < 16" "i \<noteq> j" "p < 8"
    "ld32 (k_mem k1) fds = of_int (int i)" "ld32 (k_mem k1) (fds + 4) = of_int (int j)"
    "fd_valid (k_fdt k1) (int i)" "fd_valid (k_fdt k1) (int j)"
    "fe_is_pipe (fd_table (k_fdt k1) ! i)" "fe_pipe (fd_table (k_fdt k1) ! i) = Some p"
    "fe_is_pipe (fd_table (k_fdt k1) ! j)" "fe_pipe (fd_table (k_fdt k1) ! j) = Some p"
    "pipe_pool (k_fdt k1) ! p = pipe_init" "length (pipe_pool (k_fdt k1)) = 8"
proof -
  let ?free = "find_slot (\<lambda>e. \<not> fe_open e)"
  obtain p t where a: "find_slot (\<lambda>u. \<not> u) (pipe_used (k_fdt k)) = Some p"
      "pipe_alloc (k_fdt k) = (Some p, t)"
    using run by (cases "find_slot (\<lambda>u. \<not> u) (pipe_used (k_fdt k))") (auto simp: sys_pipe_def pipe_alloc_def)
  have p8: "p < 8" using a ok by (auto simp: fd_ok_def dest: find_slot_SomeD(1))
  have t: "fd_table t = fd_table (k_fdt k)" "pipe_pool t = (pipe_pool (k_fdt k))[p := pipe_init]"
    using a by (auto simp: pipe_alloc_def)
  have len: "length (fd_table t) = 16" "length (pipe_pool t) = 8" using t ok by (simp_all add: fd_ok_def)
  obtain i where i: "?free (fd_table t) = Some i"
    using run a by (cases "?free (fd_table t)") (auto simp: sys_pipe_def fd_open_pipe_def Let_def split: option.splits)
  define e where "e w = \<lparr>fe_node = 0, fe_offset = 0, fe_open = True, fe_is_pipe = True, fe_pipe = Some p,
      fe_write_end = w\<rparr>" for w
  define t1 where "t1 = t\<lparr>fd_table := (fd_table t)[i := e False]\<rparr>"
  have o1: "fd_open_pipe p False t = (int i, t1)" using i by (simp add: fd_open_pipe_def t1_def e_def)
  obtain j where j: "?free (fd_table t1) = Some j"
    using run a o1 by (cases "?free (fd_table t1)") (auto simp: sys_pipe_def fd_open_pipe_def Let_def)
  define t2 where "t2 = t1\<lparr>fd_table := (fd_table t1)[j := e True]\<rparr>"
  have o2: "fd_open_pipe p True t1 = (int j, t2)" using j by (simp add: fd_open_pipe_def t2_def e_def)
  have k1: "k1 = k\<lparr>k_fdt := t2, k_mem := st32 (st32 (k_mem k) fds (of_int (int i))) (fds + 4) (of_int (int j))\<rparr>"
    using run a o1 o2 by (simp add: sys_pipe_def Let_def)
  have i16: "i < 16" using find_slot_SomeD(1) [OF i] len by simp
  have j16: "j < 16" using find_slot_SomeD(1) [OF j] len by (simp add: t1_def)
  have ne: "i \<noteq> j" using find_slot_SomeD(2) [OF j] i16 len by (auto simp: t1_def e_def)
  show thesis
  proof (rule that [of i j p])
    show "ld32 (k_mem k1) fds = of_int (int i)" "ld32 (k_mem k1) (fds + 4) = of_int (int j)"
      unfolding k1 by (simp_all add: ld32_st32_next del: of_int_of_nat_eq)
    show "fd_valid (k_fdt k1) (int i)" "fd_valid (k_fdt k1) (int j)"
      "fe_is_pipe (fd_table (k_fdt k1) ! i)" "fe_pipe (fd_table (k_fdt k1) ! i) = Some p"
      "fe_is_pipe (fd_table (k_fdt k1) ! j)" "fe_pipe (fd_table (k_fdt k1) ! j) = Some p"
      using i16 j16 ne len by (simp_all add: k1 fd_valid_def t2_def t1_def e_def nth_list_update)
    show "pipe_pool (k_fdt k1) ! p = pipe_init" "length (pipe_pool (k_fdt k1)) = 8"
      using p8 ok t len by (simp_all add: k1 t2_def t1_def fd_ok_def)
  qed (use i16 j16 ne p8 in simp_all)
qed

subsection \<open>Properties\<close>


text \<open>
  \<^verbatim>\<open>sbrk\<close> returns the old break and moves it by the increment, or returns -1 and changes nothing when
  that would pass the limit; there is no lower bound: from the initial break a negative
  increment moves it anywhere below the user heap, down to the kernel heap at \<open>0x300000\<close> and to 0.
\<close>

lemma sys_sbrk_break:
  assumes "usr_brk k \<le> USR_HEAP_MAX"
  shows "(case sys_sbrk inc k of (r, k') \<Rightarrow>
      (if inc \<noteq> 0 \<and> usr_brk k + inc > USR_HEAP_MAX then r = - 1 \<and> k' = k
       else r = usr_brk k \<and> k' = k\<lparr>usr_brk := usr_brk k + inc\<rparr>) \<and> usr_brk k' \<le> USR_HEAP_MAX) \<and>
    (a \<le> usr_brk k \<longrightarrow> usr_brk (snd (sys_sbrk (a - usr_brk k) k)) = a)"
  using assms by (auto simp: sys_sbrk_def Let_def not_less)

text \<open>
  what is written to the write end of a pipe made by \<^verbatim>\<open>SYS_PIPE\<close> is what its read end delivers, in
  order, if the write end is not descriptor 1 or 2; in a process without open descriptors the pipe
  gets descriptors 0 and 1, and then a write to the pipe goes to the screen and the read
  end stays empty.
\<close>

lemma syscall_pipe_stream:
  assumes ok: "fd_ok (k_fdt k)" and run: "sys_pipe fds k = (0, k1)" and n: "unat n \<le> 512"
  defines "r \<equiv> ld32 (k_mem k1) fds" and "w \<equiv> ld32 (k_mem k1) (fds + 4)"
  shows "if w = 1 \<or> w = 2
    then \<exists>k2 k3. sys_write w buf n k1 = Some (n, k2) \<and> sys_read r buf' n k2 = Some (0, k3) \<and>
      k_vga k3 = vga_print (load_bytes (k_mem k1) buf (unat n)) (k_vga k1)
    else \<exists>k2 k3. sys_write w buf n k1 = Some (n, k2) \<and> sys_read r buf' n k2 = Some (n, k3) \<and>
      load_bytes (k_mem k3) buf' (unat n) = load_bytes (k_mem k1) buf (unat n)"
proof -
  obtain i j p where S: "i < 16" "j < 16" "i \<noteq> j" "p < 8" "r = of_int (int i)" "w = of_int (int j)"
    "fd_valid (k_fdt k1) (int i)" "fd_valid (k_fdt k1) (int j)"
    "fe_is_pipe (fd_table (k_fdt k1) ! i)" "fe_pipe (fd_table (k_fdt k1) ! i) = Some p"
    "fe_is_pipe (fd_table (k_fdt k1) ! j)" "fe_pipe (fd_table (k_fdt k1) ! j) = Some p"
    "pipe_pool (k_fdt k1) ! p = pipe_init" "length (pipe_pool (k_fdt k1)) = 8"
    unfolding r_def w_def by (rule sys_pipe_success [OF ok run])
  have si: "sint r = int i" "sint w = int j" using S(1,2,5,6) sint_small by simp_all
  let ?bs = "load_bytes (k_mem k1) buf (unat n)"
  show ?thesis
  proof (cases "w = 1 \<or> w = 2")
    case True
    have "fst (pipe_read (unat n) pipe_init) = []"
      using pipe_read_queue [of pipe_init "unat n"] pipe_init_ok by simp
    then show ?thesis using True S si
      by (auto simp: sys_write_def sys_read_def fd_read_def Let_def case_prod_beta)
  next
    case False
    define q where "q = snd (pipe_write ?bs pipe_init)"
    have q: "pipe_write ?bs pipe_init = (unat n, q)" "pipe_ok q" "contents q = ?bs"
      using pipe_write_queue [OF pipe_init_ok(1), of ?bs] pipe_init_ok(2) n
      by (simp_all add: q_def prod_eq_iff pipe_init_def)
    have rd: "fst (pipe_read (unat n) q) = ?bs"
      using pipe_read_queue [OF q(2), of "unat n"] q(3) by simp
    have rb: "load_bytes (store_bytes m buf' ?bs) buf' (unat n) = ?bs" for m
      using load_store_same [of ?bs m buf'] n by simp
    show ?thesis using False S si q rd rb
      by (auto simp: sys_write_def sys_read_def fd_read_def fd_write_def Let_def case_prod_beta fd_valid_def)
  qed
qed

subsection \<open>Witnesses\<close>

definition boot_fdt :: fdt where
  "boot_fdt = \<lparr>fd_table = fd_blank # fd_blank # replicate 14 fd_blank, pipe_pool = pipe_init # replicate 7 pipe_init,
     pipe_used = False # replicate 7 False\<rparr>"

definition sample_kstate :: "mem \<Rightarrow> kstate" where
  "sample_kstate m = \<lparr>k_mem = (\<lambda>_. 65), k_fs = sample_fs m, k_fdt = boot_fdt, k_procs = sample_procs,
     k_sigs = signal_init, k_env = env_init, k_timer = \<lparr>tick_count = 0, ticks_per_ms = 1\<rparr>, k_prof = prof_init,
     k_vga = vga_clear \<lparr>fb = [], cursor_x = 0, cursor_y = 0, cur_attr = 7\<rparr>, usr_brk = USR_HEAP_BASE\<rparr>"

lemma boot_fdt_ok: "fd_ok boot_fdt"
  by (simp add: fd_ok_def boot_fdt_def pipe_init_ok fd_blank_def)

lemma sample_kstate_ok:
  assumes "heap_ok m [(96, False), (144, False), (1048288, True)]"
  shows "kstate_ok (sample_kstate m)"
  using sample_fs_ok(1) [OF assms] sample_procs_ok(1)
  by (simp add: kstate_ok_def sample_kstate_def boot_fdt_ok signal_init_ok vga_clear_ok prof_init_def
      PROF_COUNT_def proc_okD(1) USR_HEAP_BASE_def USR_HEAP_MAX_def)


lemma sys_sbrk_break_witness:
  "usr_brk (snd (sys_sbrk (0x300000 - 0x700000) (sample_kstate (\<lambda>_. 0)))) = 0x300000"
proof -
  have b: "usr_brk (sample_kstate (\<lambda>_. 0)) = 0x700000" by (simp add: sample_kstate_def USR_HEAP_BASE_def)
  have "usr_brk (sample_kstate (\<lambda>_. 0)) \<le> USR_HEAP_MAX" by (simp add: b USR_HEAP_MAX_def)
  from conjunct2 [OF sys_sbrk_break [OF this, where a = "0x300000"]] show ?thesis unfolding b by simp
qed

lemma syscall_pipe_stream_witness:
  "\<exists>k k1 k2 k3. sys_pipe 0x600000 k = (0, k1) \<and> ld32 (k_mem k1) 0x600000 = 0 \<and> ld32 (k_mem k1) 0x600004 = 1 \<and>
     sys_write 1 0x500000 4 k1 = Some (4, k2) \<and> sys_read 0 0x500000 4 k2 = Some (0, k3)"
proof -
  let ?k = "sample_kstate (\<lambda>_. 0)"
  define k1 where "k1 = snd (sys_pipe 0x600000 ?k)"
  have run: "sys_pipe 0x600000 ?k = (0, k1)"
    by (simp add: k1_def sys_pipe_def pipe_alloc_def fd_open_pipe_def sample_kstate_def boot_fdt_def fd_blank_def
        Let_def)
  have l: "ld32 (k_mem k1) 0x600000 = 0" "ld32 (k_mem k1) (0x600000 + 4) = 1"
    using ld32_st32_next [of "k_mem ?k" "0x600000" 0 1]
    by (simp_all add: k1_def sys_pipe_def pipe_alloc_def fd_open_pipe_def sample_kstate_def boot_fdt_def
        fd_blank_def Let_def)
  have ok: "fd_ok (k_fdt ?k)" by (simp add: sample_kstate_def boot_fdt_ok)
  have "unat (4 :: u32) \<le> 512" by simp
  from syscall_pipe_stream [OF ok run this, where buf = "0x500000" and buf' = "0x500000"] l
  obtain k2 k3 where "sys_write 1 0x500000 4 k1 = Some (4, k2)" "sys_read 0 0x500000 4 k2 = Some (0, k3)"
    by auto
  with run l show ?thesis by auto
qed

end
