(* ===== verification/Ata.thy ===== *)
theory Ata
  imports Bytes
begin

text \<open>
  \<^verbatim>\<open>kernel/ata.c\<close>: the polling driver of the primary master drive.  The drive is hardware: what a port
  read returns and how a port access changes it is the parameter \<open>P\<close> of every operation.  A buffer is
  a list of bytes that is returned updated.
\<close>

unbundle bit_operations_syntax

subsection \<open>The code\<close>

record 'd ports =
  p_inb :: "u16 \<Rightarrow> 'd \<Rightarrow> u8 \<times> 'd"
  p_outb :: "u16 \<Rightarrow> u8 \<Rightarrow> 'd \<Rightarrow> 'd"
  p_inw :: "u16 \<Rightarrow> 'd \<Rightarrow> u16 \<times> 'd"
  p_outw :: "u16 \<Rightarrow> u16 \<Rightarrow> 'd \<Rightarrow> 'd"

definition ATA_DATA :: u16 where "ATA_DATA = 0x1F0"
definition ATA_ERR :: u16 where "ATA_ERR = 0x1F1"
definition ATA_SECCOUNT :: u16 where "ATA_SECCOUNT = 0x1F2"
definition ATA_LBA_LO :: u16 where "ATA_LBA_LO = 0x1F3"
definition ATA_LBA_MID :: u16 where "ATA_LBA_MID = 0x1F4"
definition ATA_LBA_HI :: u16 where "ATA_LBA_HI = 0x1F5"
definition ATA_DRIVE :: u16 where "ATA_DRIVE = 0x1F6"
definition ATA_CMD :: u16 where "ATA_CMD = 0x1F7"
definition ATA_STATUS :: u16 where "ATA_STATUS = 0x1F7"
definition ATA_ALT_STATUS :: u16 where "ATA_ALT_STATUS = 0x3F6"
definition ATA_CMD_READ_SECTORS :: u8 where "ATA_CMD_READ_SECTORS = 0x20"
definition ATA_CMD_WRITE_SECTORS :: u8 where "ATA_CMD_WRITE_SECTORS = 0x30"
definition ATA_CMD_CACHE_FLUSH :: u8 where "ATA_CMD_CACHE_FLUSH = 0xE7"
definition SR_BSY :: u8 where "SR_BSY = 0x80"
definition SR_DRQ :: u8 where "SR_DRQ = 0x08"
definition SR_ERR :: u8 where "SR_ERR = 0x01"
definition SR_DF :: u8 where "SR_DF = 0x20"

lemmas ata_ports = ATA_DATA_def ATA_ERR_def ATA_SECCOUNT_def ATA_LBA_LO_def ATA_LBA_MID_def
  ATA_LBA_HI_def ATA_DRIVE_def ATA_CMD_def ATA_STATUS_def ATA_ALT_STATUS_def
lemmas ata_commands = ATA_CMD_READ_SECTORS_def ATA_CMD_WRITE_SECTORS_def ATA_CMD_CACHE_FLUSH_def
lemmas ata_status = SR_BSY_def SR_DRQ_def SR_ERR_def SR_DF_def

definition ata_delay :: "'d ports \<Rightarrow> 'd \<Rightarrow> 'd" where
  "ata_delay P d =
     (let rd = \<lambda>d. snd (p_inb P ATA_ALT_STATUS d) in rd (rd (rd (rd d))))"

text \<open>The polling loops; the count is the number of polls left, \<^verbatim>\<open>while (--timeout)\<close> from 100000.\<close>

fun wait_ready_loop :: "'d ports \<Rightarrow> nat \<Rightarrow> 'd \<Rightarrow> bool \<times> 'd" where
  "wait_ready_loop P 0 d = (False, d)"
| "wait_ready_loop P (Suc n) d =
     (let (s, d) = p_inb P ATA_STATUS d
      in if s AND SR_BSY = 0 then (s AND (SR_ERR OR SR_DF) = 0, d) else wait_ready_loop P n d)"

definition ata_wait_ready :: "'d ports \<Rightarrow> 'd \<Rightarrow> bool \<times> 'd" where
  "ata_wait_ready P d = wait_ready_loop P 99999 d"

fun wait_drq_loop :: "'d ports \<Rightarrow> nat \<Rightarrow> 'd \<Rightarrow> bool \<times> 'd" where
  "wait_drq_loop P 0 d = (False, d)"
| "wait_drq_loop P (Suc n) d =
     (let (s, d) = p_inb P ATA_STATUS d
      in if s AND SR_ERR \<noteq> 0 then (False, d)
         else if s AND SR_DRQ \<noteq> 0 then (True, d) else wait_drq_loop P n d)"

definition ata_wait_drq :: "'d ports \<Rightarrow> 'd \<Rightarrow> bool \<times> 'd" where
  "ata_wait_drq P d = wait_drq_loop P 99999 d"

fun discard_words :: "'d ports \<Rightarrow> nat \<Rightarrow> 'd \<Rightarrow> 'd" where
  "discard_words P 0 d = d"
| "discard_words P (Suc n) d = discard_words P n (snd (p_inw P ATA_DATA d))"

definition ata_init :: "'d ports \<Rightarrow> 'd \<Rightarrow> bool \<times> 'd" where
  "ata_init P d =
     (let d = p_outb P ATA_ALT_STATUS 0x04 d;
          d = ata_delay P d;
          d = p_outb P ATA_ALT_STATUS 0x00 d;
          d = ata_delay P d;
          d = p_outb P ATA_DRIVE 0xA0 d;
          d = ata_delay P d;
          (status, d) = p_inb P ATA_STATUS d
      in if status = 0 then (False, d)
         else (let (ready, d) = ata_wait_ready P d
               in if \<not> ready then (False, d) else (True, discard_words P 256 d)))"

definition ata_setup_lba :: "'d ports \<Rightarrow> u32 \<Rightarrow> u8 \<Rightarrow> 'd \<Rightarrow> 'd" where
  "ata_setup_lba P lba count d =
     (let d = p_outb P ATA_DRIVE (0xE0 OR ucast (drop_bit 24 lba AND 0x0F)) d;
          d = p_outb P ATA_ERR 0x00 d;
          d = p_outb P ATA_SECCOUNT count d;
          d = p_outb P ATA_LBA_LO (ucast (lba AND 0xFF)) d;
          d = p_outb P ATA_LBA_MID (ucast (drop_bit 8 lba AND 0xFF)) d
      in p_outb P ATA_LBA_HI (ucast (drop_bit 16 lba AND 0xFF)) d)"

text \<open>The inner loops: \<open>pos\<close> is \<^verbatim>\<open>s * 512 + i * 2\<close>.\<close>

fun read_words :: "'d ports \<Rightarrow> nat \<Rightarrow> nat \<Rightarrow> u8 list \<Rightarrow> 'd \<Rightarrow> u8 list \<times> 'd" where
  "read_words P pos 0 buf d = (buf, d)"
| "read_words P pos (Suc n) buf d =
     (let (w, d) = p_inw P ATA_DATA d
      in read_words P (pos + 2) n (buf[pos := ucast (w AND 0xFF), pos + 1 := ucast (drop_bit 8 w)]) d)"

fun read_sectors :: "'d ports \<Rightarrow> nat \<Rightarrow> nat \<Rightarrow> u8 list \<Rightarrow> 'd \<Rightarrow> bool \<times> u8 list \<times> 'd" where
  "read_sectors P s 0 buf d = (True, buf, d)"
| "read_sectors P s (Suc n) buf d =
     (let (drq, d) = ata_wait_drq P d
      in if \<not> drq then (False, buf, d)
         else (let (buf, d) = read_words P (s * 512) 256 buf d in read_sectors P (s + 1) n buf d))"

definition ata_read :: "'d ports \<Rightarrow> u32 \<Rightarrow> u8 \<Rightarrow> u8 list \<Rightarrow> 'd \<Rightarrow> bool \<times> u8 list \<times> 'd" where
  "ata_read P lba count buf d =
     (let d = ata_setup_lba P lba count d;
          d = p_outb P ATA_CMD ATA_CMD_READ_SECTORS d;
          d = ata_delay P d
      in read_sectors P 0 (unat count) buf d)"

fun write_words :: "'d ports \<Rightarrow> nat \<Rightarrow> nat \<Rightarrow> u8 list \<Rightarrow> 'd \<Rightarrow> 'd" where
  "write_words P pos 0 buf d = d"
| "write_words P pos (Suc n) buf d =
     write_words P (pos + 2) n buf
       (p_outw P ATA_DATA (ucast (buf ! pos) OR push_bit 8 (ucast (buf ! (pos + 1)))) d)"

fun write_sectors :: "'d ports \<Rightarrow> nat \<Rightarrow> nat \<Rightarrow> u8 list \<Rightarrow> 'd \<Rightarrow> bool \<times> 'd" where
  "write_sectors P s 0 buf d = (True, d)"
| "write_sectors P s (Suc n) buf d =
     (let (drq, d) = ata_wait_drq P d
      in if \<not> drq then (False, d)
         else write_sectors P (s + 1) n buf (write_words P (s * 512) 256 buf d))"

definition ata_write :: "'d ports \<Rightarrow> u32 \<Rightarrow> u8 \<Rightarrow> u8 list \<Rightarrow> 'd \<Rightarrow> bool \<times> 'd" where
  "ata_write P lba count buf d =
     (let d = ata_setup_lba P lba count d;
          d = p_outb P ATA_CMD ATA_CMD_WRITE_SECTORS d;
          d = ata_delay P d;
          (ok, d) = write_sectors P 0 (unat count) buf d
      in if \<not> ok then (False, d)
         else ata_wait_ready P (p_outb P ATA_CMD ATA_CMD_CACHE_FLUSH d))"

subsection \<open>A drive\<close>

text \<open>
  The part of the documented PIO protocol the driver relies on, as a concrete device: the task file
  registers, the command register that starts a one-sector transfer, DRQ while it lasts, and the data
  port.  It serves as the instance of the parameter on which the driver's promises are shown.
\<close>

record drive =
  dv_drive :: u8
  dv_lo :: u8
  dv_mid :: u8
  dv_hi :: u8
  dv_in :: "u16 list" \<comment> \<open>words the host has still to read\<close>
  dv_out :: "u16 list" \<comment> \<open>words the host has written\<close>
  dv_writing :: bool
  dv_store :: "u32 \<Rightarrow> u8 list"

definition dv_lba :: "drive \<Rightarrow> u32" where
  "dv_lba d = ucast (dv_lo d) OR push_bit 8 (ucast (dv_mid d)) OR push_bit 16 (ucast (dv_hi d)) OR
     push_bit 24 (ucast (dv_drive d AND 0x0F))"

fun words_of :: "u8 list \<Rightarrow> u16 list" where
  "words_of (a # b # bs) = le16 a b # words_of bs"
| "words_of _ = []"

fun bytes_of :: "u16 list \<Rightarrow> u8 list" where
  "bytes_of [] = []"
| "bytes_of (w # ws) = le16_bytes w @ bytes_of ws"

definition dv_inb :: "u16 \<Rightarrow> drive \<Rightarrow> u8 \<times> drive" where
  "dv_inb port d =
     ((if port = 0x1F7 \<or> port = 0x3F6 then (if dv_writing d \<or> dv_in d \<noteq> [] then 0x48 else 0x40) else 0), d)"

definition dv_outb :: "u16 \<Rightarrow> u8 \<Rightarrow> drive \<Rightarrow> drive" where
  "dv_outb port v d =
     (if port = 0x1F6 then d\<lparr>dv_drive := v\<rparr>
      else if port = 0x1F3 then d\<lparr>dv_lo := v\<rparr>
      else if port = 0x1F4 then d\<lparr>dv_mid := v\<rparr>
      else if port = 0x1F5 then d\<lparr>dv_hi := v\<rparr>
      else if port = 0x1F7 \<and> v = 0x20 then d\<lparr>dv_in := words_of (dv_store d (dv_lba d)), dv_writing := False\<rparr>
      else if port = 0x1F7 \<and> v = 0x30 then d\<lparr>dv_out := [], dv_in := [], dv_writing := True\<rparr>
      else d)"

definition dv_inw :: "u16 \<Rightarrow> drive \<Rightarrow> u16 \<times> drive" where
  "dv_inw port d = (case dv_in d of [] \<Rightarrow> (0, d) | w # ws \<Rightarrow> (w, d\<lparr>dv_in := ws\<rparr>))"

definition dv_outw :: "u16 \<Rightarrow> u16 \<Rightarrow> drive \<Rightarrow> drive" where
  "dv_outw port w d =
     (if \<not> dv_writing d then d
      else if length (dv_out d) = 255
      then d\<lparr>dv_out := [], dv_writing := False, dv_store := (dv_store d)(dv_lba d := bytes_of (dv_out d @ [w]))\<rparr>
      else d\<lparr>dv_out := dv_out d @ [w]\<rparr>)"

definition drive_ports :: "drive ports" where
  "drive_ports = \<lparr>p_inb = dv_inb, p_outb = dv_outb, p_inw = dv_inw, p_outw = dv_outw\<rparr>"

lemma drive_ports_sel [simp]:
  "p_inb drive_ports = dv_inb" "p_outb drive_ports = dv_outb" "p_inw drive_ports = dv_inw"
  "p_outw drive_ports = dv_outw"
  by (simp_all add: drive_ports_def)

subsection \<open>Words and bytes\<close>

lemma le16_bytes_le16 [simp]: "le16_bytes (le16 a b) = [a, b]"
proof -
  have "ucast (le16 a b) = a"
    unfolding le16_def by (rule bit_word_eqI) (auto simp: bit_simps)
  moreover have "ucast (drop_bit 8 (le16 a b)) = b"
    unfolding le16_def by (rule bit_word_eqI) (auto simp: bit_simps dest: bit_imp_le_length)
  ultimately show ?thesis by (simp add: le16_bytes_def)
qed

lemma bytes_of_words_of: "even (length bs) \<Longrightarrow> bytes_of (words_of bs) = bs"
  by (induction bs rule: words_of.induct) simp_all

lemma length_words_of: "length (words_of bs) = length bs div 2"
  by (induction bs rule: words_of.induct) simp_all

lemma length_bytes_of [simp]: "length (bytes_of ws) = 2 * length ws"
  by (induction ws) simp_all

lemma bytes_of_append: "bytes_of (xs @ ys) = bytes_of xs @ bytes_of ys"
  by (induction xs) simp_all

lemma mask_byte: "ucast (w AND 0xFF :: u16) = (ucast w :: u8)"
proof -
  have "w AND 0xFF = take_bit 8 w" by (simp add: take_bit_eq_mask mask_eq_exp_minus_1)
  then show ?thesis by (simp only:) (rule bit_word_eqI, auto simp: bit_simps)
qed

lemma overlay_two:
  "pos + 1 < length buf \<Longrightarrow> buf[pos := a, pos + 1 := b] = overlay buf pos [a, b]"
  by (rule nth_equalityI) (auto simp: nth_overlay length_overlay nth_list_update nth_Cons split: nat.splits)

subsection \<open>The driver on the drive\<close>

text \<open>The low 28 bits are all of an address the task file holds.\<close>

lemma setup_lba_28:
  "ata_setup_lba P (lba AND 0x0FFFFFFF) count d = ata_setup_lba P lba count d"
proof -
  have m: "(0x0FFFFFFF :: u32) = mask 28" by (simp add: mask_eq_exp_minus_1)
  have b: "drop_bit 24 (lba AND mask 28) AND 0x0F = drop_bit 24 lba AND 0x0F"
    "(lba AND mask 28) AND 0xFF = lba AND 0xFF"
    "drop_bit 8 (lba AND mask 28) AND 0xFF = drop_bit 8 lba AND 0xFF"
    "drop_bit 16 (lba AND mask 28) AND 0xFF = drop_bit 16 lba AND 0xFF"
  proof -
    have f: "(0x0F :: u32) = mask 4" "(0xFF :: u32) = mask 8" by (simp_all add: mask_eq_exp_minus_1)
    show "drop_bit 24 (lba AND mask 28) AND 0x0F = drop_bit 24 lba AND 0x0F"
      unfolding f by (rule bit_word_eqI) (auto simp: bit_simps)
    show "(lba AND mask 28) AND 0xFF = lba AND 0xFF"
      unfolding f by (rule bit_word_eqI) (auto simp: bit_simps)
    show "drop_bit 8 (lba AND mask 28) AND 0xFF = drop_bit 8 lba AND 0xFF"
      unfolding f by (rule bit_word_eqI) (auto simp: bit_simps)
    show "drop_bit 16 (lba AND mask 28) AND 0xFF = drop_bit 16 lba AND 0xFF"
      unfolding f by (rule bit_word_eqI) (auto simp: bit_simps)
  qed
  show ?thesis unfolding ata_setup_lba_def m b ..
qed

lemma dv_delay [simp]: "ata_delay drive_ports d = d"
  by (simp add: ata_delay_def dv_inb_def)

lemma dv_setup:
  "ata_setup_lba drive_ports lba count d = d\<lparr>dv_drive := 0xE0 OR ucast (drop_bit 24 lba AND 0x0F),
     dv_lo := ucast (lba AND 0xFF), dv_mid := ucast (drop_bit 8 lba AND 0xFF),
     dv_hi := ucast (drop_bit 16 lba AND 0xFF)\<rparr>"
  by (simp add: ata_setup_lba_def dv_outb_def ata_ports)

lemma lba_parts:
  assumes "lba < 0x10000000"
  shows "(ucast (ucast (lba AND 0xFF) :: u8) OR push_bit 8 (ucast (ucast (drop_bit 8 lba AND 0xFF) :: u8)) OR
     push_bit 16 (ucast (ucast (drop_bit 16 lba AND 0xFF) :: u8)) OR
     push_bit 24 (ucast ((0xE0 OR ucast (drop_bit 24 lba AND 0x0F)) AND 0x0F :: u8)) :: u32) = lba"
proof -
  have f: "(0x0F :: u32) = mask 4" "(0xFF :: u32) = mask 8" "(0x0F :: u8) = mask 4"
    "(0xE0 :: u8) = push_bit 5 (mask 3)"
    by (simp_all add: mask_eq_exp_minus_1)
  have "unat lba < 2 ^ 28" using assms by (simp add: word_less_nat_alt)
  then have "take_bit 28 lba = lba"
    by (simp add: word_unat_eq_iff unsigned_take_bit_eq take_bit_nat_eq_self)
  then have hi: "bit lba n \<Longrightarrow> n < 28" for n by (metis bit_take_bit_iff)
  show ?thesis
    unfolding f
    apply (rule bit_word_eqI)
    subgoal for n
      by (cases "n < 8"; cases "n < 16"; cases "n < 24"; cases "n < 28") (auto simp: bit_simps dest: hi)
    done
qed

lemma dv_lba_setup:
  "lba < 0x10000000 \<Longrightarrow> dv_lba (ata_setup_lba drive_ports lba count d) = lba"
proof -
  assume "lba < 0x10000000"
  moreover have "dv_lo (ata_setup_lba drive_ports lba count d) = ucast (lba AND 0xFF)"
    "dv_mid (ata_setup_lba drive_ports lba count d) = ucast (drop_bit 8 lba AND 0xFF)"
    "dv_hi (ata_setup_lba drive_ports lba count d) = ucast (drop_bit 16 lba AND 0xFF)"
    "dv_drive (ata_setup_lba drive_ports lba count d) = 0xE0 OR ucast (drop_bit 24 lba AND 0x0F)"
    by (simp_all add: dv_setup)
  ultimately show ?thesis by (simp only: dv_lba_def lba_parts)
qed

text \<open>One sector in each direction.\<close>

lemma wait_drq_ready:
  "dv_writing d \<or> dv_in d \<noteq> [] \<Longrightarrow> ata_wait_drq drive_ports d = (True, d)"
proof -
  assume d: "dv_writing d \<or> dv_in d \<noteq> []"
  have n: "(99999 :: nat) = Suc 99998" by simp
  have "wait_drq_loop drive_ports (Suc k) d = (True, d)" for k
    using d by (simp add: dv_inb_def ata_ports ata_status)
  then show ?thesis unfolding ata_wait_drq_def n .
qed

lemma wait_ready_idle: "\<not> dv_writing d \<Longrightarrow> dv_in d = [] \<Longrightarrow> ata_wait_ready drive_ports d = (True, d)"
proof -
  assume d: "\<not> dv_writing d" "dv_in d = []"
  have n: "(99999 :: nat) = Suc 99998" by simp
  have "wait_ready_loop drive_ports (Suc k) d = (True, d)" for k
    using d by (simp add: dv_inb_def ata_ports ata_status)
  then show ?thesis unfolding ata_wait_ready_def n .
qed

lemma read_words_drive:
  "dv_in d = ws @ rest \<Longrightarrow> pos + 2 * length ws \<le> length buf \<Longrightarrow>
   read_words drive_ports pos (length ws) buf d = (overlay buf pos (bytes_of ws), d\<lparr>dv_in := rest\<rparr>)"
proof (induction ws arbitrary: pos buf d)
  case Nil
  then show ?case by (simp add: overlay_def)
next
  case (Cons w ws)
  have inw: "dv_inw ATA_DATA d = (w, d\<lparr>dv_in := ws @ rest\<rparr>)" using Cons.prems by (simp add: dv_inw_def)
  let ?buf = "buf[pos := ucast (w AND 0xFF), pos + 1 := ucast (drop_bit 8 w)]"
  have b: "?buf = overlay buf pos (le16_bytes w)"
    using Cons.prems(2) by (simp only: le16_bytes_def mask_byte) (rule overlay_two, simp)
  have "read_words drive_ports (pos + 2) (length ws) ?buf (d\<lparr>dv_in := ws @ rest\<rparr>) =
      (overlay ?buf (pos + 2) (bytes_of ws), d\<lparr>dv_in := rest\<rparr>)"
    using Cons.prems(2) Cons.IH [of "d\<lparr>dv_in := ws @ rest\<rparr>" "pos + 2" ?buf] by simp
  moreover have "overlay ?buf (pos + 2) (bytes_of ws) = overlay buf pos (bytes_of (w # ws))"
    unfolding b using Cons.prems(2)
    by (simp add: overlay_def le16_bytes_def min_def) (simp add: add.commute)
  ultimately show ?case by (simp add: inw)
qed

lemma write_words_drive:
  "dv_writing d \<Longrightarrow> length (dv_out d) + n = 256 \<Longrightarrow> 0 < n \<Longrightarrow> pos + 2 * n \<le> length buf \<Longrightarrow>
   write_words drive_ports pos n buf d = d\<lparr>dv_out := [], dv_writing := False,
     dv_store := (dv_store d)(dv_lba d := bytes_of (dv_out d) @ take (2 * n) (drop pos buf))\<rparr>"
proof (induction n arbitrary: pos d)
  case 0
  then show ?case by simp
next
  case (Suc n)
  let ?w = "ucast (buf ! pos) OR push_bit 8 (ucast (buf ! (pos + 1))) :: u16"
  have w: "?w = le16 (buf ! pos) (buf ! (pos + 1))" by (simp add: le16_def)
  have two: "take (2 * Suc n) (drop pos buf) = buf ! pos # buf ! (pos + 1) # take (2 * n) (drop (pos + 2) buf)"
    using Suc.prems(4) by (simp add: Cons_nth_drop_Suc [symmetric])
  show ?case
  proof (cases n)
    case 0
    then have "length (dv_out d) = 255" using Suc.prems(2) by simp
    then show ?thesis using Suc.prems(1) 0 two w
      by (simp add: dv_outw_def bytes_of_append fun_upd_def)
  next
    case (Suc k)
    let ?d = "d\<lparr>dv_out := dv_out d @ [?w]\<rparr>"
    have step: "dv_outw ATA_DATA ?w d = ?d" using Suc Suc.prems by (simp add: dv_outw_def)
    have "write_words drive_ports pos (Suc n) buf d = write_words drive_ports (pos + 2) n buf ?d"
      by (simp only: write_words.simps drive_ports_sel step)
    also have "\<dots> = ?d\<lparr>dv_out := [], dv_writing := False,
       dv_store := (dv_store ?d)(dv_lba ?d := bytes_of (dv_out ?d) @ take (2 * n) (drop (pos + 2) buf))\<rparr>"
      using Suc Suc.prems by (intro Suc.IH) simp_all
    also have "\<dots> = d\<lparr>dv_out := [], dv_writing := False,
       dv_store := (dv_store d)(dv_lba d := bytes_of (dv_out d) @ take (2 * Suc n) (drop pos buf))\<rparr>"
      unfolding two w by (simp add: bytes_of_append dv_lba_def fun_upd_def)
    finally show ?thesis .
  qed
qed

text \<open>A drive between commands, whose sectors have 512 bytes.\<close>

definition drive_idle :: "drive \<Rightarrow> bool" where
  "drive_idle d \<longleftrightarrow> \<not> dv_writing d \<and> dv_in d = [] \<and> (\<forall>a. length (dv_store d a) = 512)"

lemma ata_read_drive:
  assumes "drive_idle d" "lba < 0x10000000" "length buf = 512"
  shows "\<exists>d'. ata_read drive_ports lba 1 buf d = (True, dv_store d lba, d') \<and> drive_idle d' \<and>
    dv_store d' = dv_store d"
proof -
  define d1 where "d1 = ata_setup_lba drive_ports lba 1 d"
  have d1: "dv_lba d1 = lba" "dv_store d1 = dv_store d" "dv_writing d1 = dv_writing d"
    using assms(2) by (simp_all add: d1_def dv_lba_setup) (simp_all add: dv_setup)
  define ws where "ws = words_of (dv_store d lba)"
  have len: "length (dv_store d lba) = 512" using assms(1) by (simp add: drive_idle_def)
  have ws: "length ws = 256" "bytes_of ws = dv_store d lba"
    using len by (simp_all add: ws_def length_words_of bytes_of_words_of)
  define d2 where "d2 = d1\<lparr>dv_in := ws, dv_writing := False\<rparr>"
  have cmd: "dv_outb ATA_CMD ATA_CMD_READ_SECTORS d1 = d2"
    using d1 by (simp add: dv_outb_def ata_ports ata_commands d2_def ws_def)
  have ne: "dv_in d2 \<noteq> []" using ws(1) by (auto simp: d2_def)
  have rw: "read_words drive_ports 0 256 buf d2 = (overlay buf 0 (dv_store d lba), d2\<lparr>dv_in := []\<rparr>)"
    using read_words_drive [of d2 ws "[]" 0 buf] ws assms(3) by (simp add: d2_def)
  have "overlay buf 0 (dv_store d lba) = dv_store d lba"
    using len assms(3) by (simp add: overlay_0)
  then have "ata_read drive_ports lba 1 buf d = (True, dv_store d lba, d2\<lparr>dv_in := []\<rparr>)"
    using rw wait_drq_ready [of d2] ne cmd by (simp add: ata_read_def d1_def [symmetric] Let_def)
  moreover have "drive_idle (d2\<lparr>dv_in := []\<rparr>)" "dv_store (d2\<lparr>dv_in := []\<rparr>) = dv_store d"
    using assms(1) d1 by (simp_all add: drive_idle_def d2_def)
  ultimately show ?thesis by blast
qed

lemma ata_write_drive:
  assumes "drive_idle d" "lba < 0x10000000" "length buf = 512"
  shows "\<exists>d'. ata_write drive_ports lba 1 buf d = (True, d') \<and> drive_idle d' \<and>
    dv_store d' = (dv_store d)(lba := buf)"
proof -
  define d1 where "d1 = ata_setup_lba drive_ports lba 1 d"
  have d1: "dv_lba d1 = lba" "dv_store d1 = dv_store d"
    using assms(2) by (simp_all add: d1_def dv_lba_setup) (simp_all add: dv_setup)
  define d2 where "d2 = d1\<lparr>dv_out := [], dv_in := [], dv_writing := True\<rparr>"
  have cmd: "dv_outb ATA_CMD ATA_CMD_WRITE_SECTORS d1 = d2"
    by (simp add: dv_outb_def ata_ports ata_commands d2_def)
  define d3 where "d3 = d2\<lparr>dv_writing := False, dv_store := (dv_store d)(lba := buf)\<rparr>"
  have "dv_lba d2 = lba" using d1 by (simp add: d2_def dv_lba_def)
  then have ww: "write_words drive_ports 0 256 buf d2 = d3"
    using write_words_drive [of d2 256 0 buf] assms(3) d1 by (simp add: d2_def d3_def)
  have idle: "drive_idle d3" using assms(1,3) by (simp add: drive_idle_def d3_def d2_def)
  have fl: "dv_outb ATA_CMD ATA_CMD_CACHE_FLUSH d3 = d3"
    by (simp add: dv_outb_def ata_ports ata_commands)
  have "ata_wait_drq drive_ports d2 = (True, d2)" by (rule wait_drq_ready) (simp add: d2_def)
  moreover have "ata_wait_ready drive_ports d3 = (True, d3)"
    using idle by (intro wait_ready_idle) (simp_all add: drive_idle_def)
  ultimately have "ata_write drive_ports lba 1 buf d = (True, d3)"
    using ww cmd fl by (simp add: ata_write_def d1_def [symmetric] Let_def)
  then show ?thesis using idle by (intro exI [of _ d3]) (simp add: d3_def)
qed

subsection \<open>Properties\<close>

text \<open>
  C22: on a drive that follows the protocol, for a sector number below \<open>2^28\<close>, writing a sector and
  reading it back yields the bytes written, and every other sector is unchanged; a number from
  \<open>2^28\<close> on addresses the sector of its low 28 bits.
\<close>

theorem ata_write_read:
  assumes "drive_idle d" "lba < 0x10000000" "length buf = 512" "length buf' = 512"
  shows "(\<exists>d1 d2. ata_write drive_ports lba 1 buf d = (True, d1) \<and>
      ata_read drive_ports lba 1 buf' d1 = (True, buf, d2) \<and> drive_idle d2 \<and>
      dv_store d2 = (dv_store d)(lba := buf)) \<and>
    ata_read P (big AND 0x0FFFFFFF) n b dev = ata_read P big n b dev \<and>
    ata_write P (big AND 0x0FFFFFFF) n b dev = ata_write P big n b dev"
proof -
  obtain d1 where d1: "ata_write drive_ports lba 1 buf d = (True, d1)" "drive_idle d1"
    "dv_store d1 = (dv_store d)(lba := buf)"
    using ata_write_drive [OF assms(1-3)] by blast
  obtain d2 where "ata_read drive_ports lba 1 buf' d1 = (True, dv_store d1 lba, d2)" "drive_idle d2"
    "dv_store d2 = dv_store d1"
    using ata_read_drive [OF d1(2) assms(2,4)] by blast
  with d1 show ?thesis by (simp add: ata_read_def ata_write_def setup_lba_28)
qed

definition blank_drive :: drive where
  "blank_drive = \<lparr>dv_drive = 0, dv_lo = 0, dv_mid = 0, dv_hi = 0, dv_in = [], dv_out = [],
     dv_writing = False, dv_store = (\<lambda>_. replicate 512 0)\<rparr>"

lemma blank_drive_idle: "drive_idle blank_drive"
  by (simp add: drive_idle_def blank_drive_def)

theorem ata_write_read_witness:
  "\<exists>d1 d2. ata_write drive_ports 7 1 (replicate 512 42) blank_drive = (True, d1) \<and>
     ata_read drive_ports 7 1 (replicate 512 0) d1 = (True, replicate 512 42, d2)"
  using conjunct1 [OF ata_write_read [OF blank_drive_idle, of 7 "replicate 512 42" "replicate 512 0"]] by auto

end
