(* ===== verification/Disk.thy ===== *)
theory Disk
  imports Ata
begin

text \<open>
  \<^verbatim>\<open>kernel/disk.c\<close>: the write-through cache of 16 sectors over the drive.  \<open>rd\<close> and \<open>wr\<close> are
  \<^verbatim>\<open>ata_read\<close> and \<^verbatim>\<open>ata_write\<close> of one sector; the operations are composed with the driver of
  \<^verbatim>\<open>kernel/ata.c\<close> below.  The locale \<open>sector_drive\<close> states what the cache relies on.
\<close>

subsection \<open>The code\<close>

definition DISK_CACHE_SLOTS :: nat where "DISK_CACHE_SLOTS = 16"
definition DISK_SECTOR_SIZE :: nat where "DISK_SECTOR_SIZE = 512"

lemmas disk_limits [simp] = DISK_CACHE_SLOTS_def DISK_SECTOR_SIZE_def

record cache_slot =
  cs_lba :: u32
  cs_data :: "u8 list"
  cs_valid :: bool
  cs_dirty :: bool

record 'd disk =
  cache :: "cache_slot list"
  disk_present :: bool
  dk_drive :: 'd

type_synonym 'd reader = "u32 \<Rightarrow> u8 list \<Rightarrow> 'd \<Rightarrow> bool \<times> u8 list \<times> 'd"
type_synonym 'd writer = "u32 \<Rightarrow> u8 list \<Rightarrow> 'd \<Rightarrow> bool \<times> 'd"

definition set_slot :: "nat \<Rightarrow> cache_slot \<Rightarrow> 'd disk \<Rightarrow> 'd disk" where
  "set_slot i c s = s\<lparr>cache := (cache s)[i := c]\<rparr>"

definition disk_init_of :: "('d \<Rightarrow> bool \<times> 'd) \<Rightarrow> 'd disk \<Rightarrow> 'd disk" where
  "disk_init_of init s =
     (let (present, d) = init (dk_drive s)
      in s\<lparr>cache := replicate DISK_CACHE_SLOTS
             \<lparr>cs_lba = 0, cs_data = replicate DISK_SECTOR_SIZE 0, cs_valid = False, cs_dirty = False\<rparr>,
           disk_present := present, dk_drive := d\<rparr>)"

definition cache_find :: "u32 \<Rightarrow> 'd disk \<Rightarrow> nat option" where
  "cache_find lba s = find_slot (\<lambda>c. cs_valid c \<and> cs_lba c = lba) (cache s)"

definition cache_evict_of :: "'d writer \<Rightarrow> u32 \<Rightarrow> 'd disk \<Rightarrow> nat \<times> 'd disk" where
  "cache_evict_of wr lba s =
     (case find_slot (\<lambda>c. \<not> cs_valid c) (cache s) of
        Some i \<Rightarrow> (i, set_slot i ((cache s ! i)\<lparr>cs_lba := lba, cs_valid := True, cs_dirty := False\<rparr>) s)
      | None \<Rightarrow>
        (let c = cache s ! 0;
             s = (if cs_dirty c \<and> disk_present s
                  then s\<lparr>dk_drive := snd (wr (cs_lba c) (cs_data c) (dk_drive s))\<rparr> else s)
         in (0, set_slot 0 (c\<lparr>cs_lba := lba, cs_valid := True, cs_dirty := False\<rparr>) s)))"

text \<open>The sector read, or \<open>None\<close> when the caller's buffer is left alone and the result is 0.\<close>

definition disk_read_sector_of :: "'d reader \<Rightarrow> 'd writer \<Rightarrow> u32 \<Rightarrow> 'd disk \<Rightarrow> u8 list option \<times> 'd disk" where
  "disk_read_sector_of rd wr lba s =
     (case cache_find lba s of
        Some i \<Rightarrow> (Some (cs_data (cache s ! i)), s)
      | None \<Rightarrow>
        (if \<not> disk_present s then (None, s)
         else (let (i, s) = cache_evict_of wr lba s;
                   (ok, data, d) = rd lba (cs_data (cache s ! i)) (dk_drive s);
                   s = set_slot i ((cache s ! i)\<lparr>cs_data := data\<rparr>) (s\<lparr>dk_drive := d\<rparr>)
               in if \<not> ok then (None, set_slot i ((cache s ! i)\<lparr>cs_valid := False\<rparr>) s)
                  else (Some (cs_data (cache s ! i)), s))))"

definition disk_write_sector_of :: "'d writer \<Rightarrow> u32 \<Rightarrow> u8 list \<Rightarrow> 'd disk \<Rightarrow> bool \<times> 'd disk" where
  "disk_write_sector_of wr lba buf s =
     (let (i, s) = (case cache_find lba s of Some i \<Rightarrow> (i, s) | None \<Rightarrow> cache_evict_of wr lba s);
          s = set_slot i ((cache s ! i)\<lparr>cs_data := take DISK_SECTOR_SIZE buf, cs_dirty := True\<rparr>) s
      in if \<not> disk_present s then (False, s)
         else (let (ok, d) = wr lba (cs_data (cache s ! i)) (dk_drive s); s = s\<lparr>dk_drive := d\<rparr>
               in if \<not> ok then (False, s)
                  else (True, set_slot i ((cache s ! i)\<lparr>cs_dirty := False\<rparr>) s)))"

definition flush_slot :: "'d writer \<Rightarrow> nat \<Rightarrow> 'd disk \<Rightarrow> 'd disk" where
  "flush_slot wr i s =
     (let c = cache s ! i
      in if cs_valid c \<and> cs_dirty c
         then set_slot i (c\<lparr>cs_dirty := False\<rparr>)
                (s\<lparr>dk_drive := snd (wr (cs_lba c) (cs_data c) (dk_drive s))\<rparr>)
         else s)"

definition disk_cache_flush_of :: "'d writer \<Rightarrow> 'd disk \<Rightarrow> 'd disk" where
  "disk_cache_flush_of wr s =
     (if \<not> disk_present s then s else fold (flush_slot wr) [0..<DISK_CACHE_SLOTS] s)"

text \<open>Composed with the driver; \<open>P\<close> are the ports.\<close>

definition disk_init :: "'d ports \<Rightarrow> 'd disk \<Rightarrow> 'd disk" where
  "disk_init P = disk_init_of (ata_init P)"
definition disk_read_sector :: "'d ports \<Rightarrow> u32 \<Rightarrow> 'd disk \<Rightarrow> u8 list option \<times> 'd disk" where
  "disk_read_sector P = disk_read_sector_of (\<lambda>lba. ata_read P lba 1) (\<lambda>lba. ata_write P lba 1)"
definition disk_write_sector :: "'d ports \<Rightarrow> u32 \<Rightarrow> u8 list \<Rightarrow> 'd disk \<Rightarrow> bool \<times> 'd disk" where
  "disk_write_sector P = disk_write_sector_of (\<lambda>lba. ata_write P lba 1)"
definition disk_cache_flush :: "'d ports \<Rightarrow> 'd disk \<Rightarrow> 'd disk" where
  "disk_cache_flush P = disk_cache_flush_of (\<lambda>lba. ata_write P lba 1)"

subsection \<open>What the cache relies on and promises\<close>

text \<open>The sector \<open>a\<close> as a client of the cache sees it; \<open>content\<close> is what the drive holds.\<close>

definition disk_view :: "('d \<Rightarrow> u32 \<Rightarrow> u8 list) \<Rightarrow> 'd disk \<Rightarrow> u32 \<Rightarrow> u8 list" where
  "disk_view content s a =
     (case cache_find a s of Some i \<Rightarrow> cs_data (cache s ! i) | None \<Rightarrow> content (dk_drive s) a)"

definition disk_ok :: "('d \<Rightarrow> u32 \<Rightarrow> u8 list) \<Rightarrow> ('d \<Rightarrow> bool) \<Rightarrow> (u32 \<Rightarrow> bool) \<Rightarrow> 'd disk \<Rightarrow> bool" where
  "disk_ok content good okl s \<longleftrightarrow>
     disk_present s \<and> good (dk_drive s) \<and> length (cache s) = 16 \<and>
     (\<forall>i < 16. length (cs_data (cache s ! i)) = 512) \<and>
     (\<forall>i < 16. \<forall>j < 16. cs_valid (cache s ! i) \<longrightarrow> cs_valid (cache s ! j) \<longrightarrow>
        cs_lba (cache s ! i) = cs_lba (cache s ! j) \<longrightarrow> i = j) \<and>
     (\<forall>i < 16. cs_valid (cache s ! i) \<longrightarrow> okl (cs_lba (cache s ! i)) \<and>
        (\<not> cs_dirty (cache s ! i) \<longrightarrow> cs_data (cache s ! i) = content (dk_drive s) (cs_lba (cache s ! i))))"

locale sector_drive =
  fixes rd :: "'d reader"
    and wr :: "'d writer"
    and content :: "'d \<Rightarrow> u32 \<Rightarrow> u8 list"
    and good :: "'d \<Rightarrow> bool"
    and okl :: "u32 \<Rightarrow> bool"
  assumes read_sector: "good d \<Longrightarrow> okl a \<Longrightarrow> length buf = 512 \<Longrightarrow>
      \<exists>d'. rd a buf d = (True, content d a, d') \<and> good d' \<and> content d' = content d"
    and write_sector: "good d \<Longrightarrow> okl a \<Longrightarrow> length buf = 512 \<Longrightarrow>
      \<exists>d'. wr a buf d = (True, d') \<and> good d' \<and> content d' = (content d)(a := buf)"
    and sector_length: "good d \<Longrightarrow> length (content d a) = 512"
begin

abbreviation view :: "'d disk \<Rightarrow> u32 \<Rightarrow> u8 list" where "view \<equiv> disk_view content"
abbreviation ok :: "'d disk \<Rightarrow> bool" where "ok \<equiv> disk_ok content good okl"

lemma okD:
  assumes "ok s"
  shows "disk_present s" "good (dk_drive s)" "length (cache s) = 16"
    "i < 16 \<Longrightarrow> length (cs_data (cache s ! i)) = 512"
    "i < 16 \<Longrightarrow> j < 16 \<Longrightarrow> cs_valid (cache s ! i) \<Longrightarrow> cs_valid (cache s ! j) \<Longrightarrow>
       cs_lba (cache s ! i) = cs_lba (cache s ! j) \<Longrightarrow> i = j"
    "i < 16 \<Longrightarrow> cs_valid (cache s ! i) \<Longrightarrow> okl (cs_lba (cache s ! i))"
    "i < 16 \<Longrightarrow> cs_valid (cache s ! i) \<Longrightarrow> \<not> cs_dirty (cache s ! i) \<Longrightarrow>
       cs_data (cache s ! i) = content (dk_drive s) (cs_lba (cache s ! i))"
  using assms unfolding disk_ok_def by blast+

lemma find_hit:
  "ok s \<Longrightarrow> i < 16 \<Longrightarrow> cs_valid (cache s ! i) \<Longrightarrow> cache_find (cs_lba (cache s ! i)) s = Some i"
  unfolding cache_find_def find_slot_Some using okD(3,5) [of s]
  by (metis (no_types, lifting) less_trans nat_neq_iff)

lemma find_SomeD:
  "ok s \<Longrightarrow> cache_find a s = Some i \<Longrightarrow> i < 16 \<and> cs_valid (cache s ! i) \<and> cs_lba (cache s ! i) = a"
  by (auto simp: cache_find_def okD(3) dest: find_slot_SomeD(1,2))

lemma find_NoneD:
  "ok s \<Longrightarrow> cache_find a s = None \<Longrightarrow> i < 16 \<Longrightarrow> cs_valid (cache s ! i) \<Longrightarrow> cs_lba (cache s ! i) \<noteq> a"
  using okD(3) [of s] by (auto simp: cache_find_def find_slot_None)

lemma find_NoneI:
  "ok s \<Longrightarrow> (\<And>i. i < 16 \<Longrightarrow> cs_valid (cache s ! i) \<Longrightarrow> cs_lba (cache s ! i) \<noteq> a) \<Longrightarrow> cache_find a s = None"
  using okD(3) [of s] by (fastforce simp: cache_find_def find_slot_None in_set_conv_nth)

lemma view_eq:
  assumes "ok s"
  shows "i < 16 \<Longrightarrow> cs_valid (cache s ! i) \<Longrightarrow> view s (cs_lba (cache s ! i)) = cs_data (cache s ! i)"
    "(\<And>i. i < 16 \<Longrightarrow> cs_valid (cache s ! i) \<Longrightarrow> cs_lba (cache s ! i) \<noteq> a) \<Longrightarrow>
       view s a = content (dk_drive s) a"
  using find_hit [OF assms] find_NoneI [OF assms] by (simp_all add: disk_view_def)

text \<open>Filling slot \<open>i\<close> for the sector \<open>a\<close>, on a drive that may have taken the old sector back.\<close>

lemma fill_slot:
  assumes s: "ok s" and i: "i < 16" and a: "okl a"
    and miss: "\<And>j. j < 16 \<Longrightarrow> j \<noteq> i \<Longrightarrow> cs_valid (cache s ! j) \<Longrightarrow> cs_lba (cache s ! j) \<noteq> a"
    and d: "good d" "\<And>b. b \<noteq> a \<Longrightarrow> (\<And>j. j < 16 \<Longrightarrow> cs_valid (cache s ! j) \<Longrightarrow> cs_lba (cache s ! j) \<noteq> b) \<Longrightarrow>
        content d b = content (dk_drive s) b"
    and clean: "\<And>j. j < 16 \<Longrightarrow> j \<noteq> i \<Longrightarrow> cs_valid (cache s ! j) \<Longrightarrow>
        content d (cs_lba (cache s ! j)) = content (dk_drive s) (cs_lba (cache s ! j))"
    and old: "cs_valid (cache s ! i) \<Longrightarrow> cs_lba (cache s ! i) \<noteq> a \<Longrightarrow>
        content d (cs_lba (cache s ! i)) = cs_data (cache s ! i)"
    and x: "length x = 512" "\<not> dirt \<Longrightarrow> content d a = x"
  defines "t \<equiv> set_slot i \<lparr>cs_lba = a, cs_data = x, cs_valid = True, cs_dirty = dirt\<rparr> (s\<lparr>dk_drive := d\<rparr>)"
  shows "ok t \<and> view t = (view s)(a := x)"
proof -
  have len: "length (cache s) = 16" by (rule okD(3) [OF s])
  have c: "cache t ! j = (if j = i then \<lparr>cs_lba = a, cs_data = x, cs_valid = True, cs_dirty = dirt\<rparr> else cache s ! j)"
    if "j < 16" for j
    using that i len by (simp add: t_def set_slot_def)
  have dr: "dk_drive t = d" by (simp add: t_def set_slot_def)
  have t: "ok t"
    unfolding disk_ok_def
  proof (intro conjI allI impI)
    show "disk_present t" using okD(1) [OF s] by (simp add: t_def set_slot_def)
    show "good (dk_drive t)" using d by (simp add: dr)
    show "length (cache t) = 16" using len by (simp add: t_def set_slot_def)
  next
    fix j :: nat assume j: "j < 16"
    show "length (cs_data (cache t ! j)) = 512" using c [OF j] x(1) okD(4) [OF s j] by simp
    assume v: "cs_valid (cache t ! j)"
    then show "okl (cs_lba (cache t ! j))" using c [OF j] a okD(6) [OF s j] by (simp split: if_splits)
    assume "\<not> cs_dirty (cache t ! j)"
    then show "cs_data (cache t ! j) = content (dk_drive t) (cs_lba (cache t ! j))"
      using c [OF j] v x(2) clean [OF j] okD(7) [OF s j] dr by (simp split: if_splits)
  next
    fix j k :: nat
    assume "j < 16" "k < 16" "cs_valid (cache t ! j)" "cs_valid (cache t ! k)"
      "cs_lba (cache t ! j) = cs_lba (cache t ! k)"
    then show "j = k" using c miss okD(5) [OF s] by (auto split: if_splits)
  qed
  moreover have "view t b = ((view s)(a := x)) b" for b
  proof (cases "b = a")
    case True
    then show ?thesis using view_eq(1) [OF t i] c [OF i] by simp
  next
    case False
    show ?thesis
    proof (cases "\<exists>j < 16. j \<noteq> i \<and> cs_valid (cache s ! j) \<and> cs_lba (cache s ! j) = b")
      case True
      then obtain j where j: "j < 16" "j \<noteq> i" "cs_valid (cache s ! j)" "cs_lba (cache s ! j) = b" by blast
      then show ?thesis using False view_eq(1) [OF t j(1)] view_eq(1) [OF s j(1)] c [OF j(1)] by simp
    next
      case none: False
      have tb: "view t b = content d b"
        unfolding dr [symmetric] by (rule view_eq(2) [OF t]) (use none False c in \<open>auto split: if_splits\<close>)
      show ?thesis
      proof (cases "cs_valid (cache s ! i) \<and> cs_lba (cache s ! i) = b")
        case True
        then show ?thesis using tb False old view_eq(1) [OF s i] by simp
      next
        case i': False
        then have "view s b = content (dk_drive s) b"
          by (intro view_eq(2) [OF s]) (use none in auto)
        moreover have "content d b = content (dk_drive s) b"
          by (rule d(2) [OF False]) (use none i' in auto)
        ultimately show ?thesis using tb False by simp
      qed
    qed
  qed
  ultimately show ?thesis by blast
qed

lemma evict:
  assumes s: "ok s" and miss: "cache_find a s = None"
  obtains i d where "i < 16"
    "cache_evict_of wr a s = (i, set_slot i ((cache s ! i)\<lparr>cs_lba := a, cs_valid := True, cs_dirty := False\<rparr>)
       (s\<lparr>dk_drive := d\<rparr>))"
    "good d" "\<And>b. \<not> cs_valid (cache s ! i) \<or> b \<noteq> cs_lba (cache s ! i) \<Longrightarrow> content d b = content (dk_drive s) b"
    "cs_valid (cache s ! i) \<Longrightarrow> content d (cs_lba (cache s ! i)) = cs_data (cache s ! i)"
proof (cases "find_slot (\<lambda>c. \<not> cs_valid c) (cache s)")
  case (Some i)
  then have "i < 16" "\<not> cs_valid (cache s ! i)" using okD(3) [OF s] by (auto dest: find_slot_SomeD(1,2))
  then show ?thesis
    using that [of i "dk_drive s"] Some okD(2) [OF s] by (simp add: cache_evict_of_def)
next
  case None
  then have v: "cs_valid (cache s ! 0)" using okD(3) [OF s] by (auto simp: find_slot_None)
  let ?c = "cache s ! 0"
  show ?thesis
  proof (cases "cs_dirty ?c")
    case True
    obtain d where d: "wr (cs_lba ?c) (cs_data ?c) (dk_drive s) = (True, d)" "good d"
      "content d = (content (dk_drive s))(cs_lba ?c := cs_data ?c)"
      using write_sector [OF okD(2) [OF s] okD(6) [OF s zero_less_numeral v] okD(4) [OF s zero_less_numeral]] by blast
    show ?thesis
      using that [of 0 d] None True d okD(1) [OF s] v by (simp add: cache_evict_of_def Let_def)
  next
    case False
    then show ?thesis
      using that [of 0 "dk_drive s"] None okD(2) [OF s] okD(7) [OF s, of 0] v
      by (simp add: cache_evict_of_def Let_def)
  qed
qed

text \<open>The slot of an evicted sector, filled and on a drive \<open>d'\<close> that differs at most in sector \<open>a\<close>.\<close>

lemma refill:
  assumes s: "ok s" and miss: "cache_find a s = None" and a: "okl a" and i: "i < 16"
    and d: "\<And>b. \<not> cs_valid (cache s ! i) \<or> b \<noteq> cs_lba (cache s ! i) \<Longrightarrow> content d b = content (dk_drive s) b"
      "cs_valid (cache s ! i) \<Longrightarrow> content d (cs_lba (cache s ! i)) = cs_data (cache s ! i)"
    and d': "good d'" "\<And>b. b \<noteq> a \<Longrightarrow> content d' b = content d b" "content d' a = x" and x: "length x = 512"
  shows "ok (set_slot i \<lparr>cs_lba = a, cs_data = x, cs_valid = True, cs_dirty = False\<rparr> (s\<lparr>dk_drive := d'\<rparr>)) \<and>
    view (set_slot i \<lparr>cs_lba = a, cs_data = x, cs_valid = True, cs_dirty = False\<rparr> (s\<lparr>dk_drive := d'\<rparr>)) =
      (view s)(a := x)"
proof (rule fill_slot [OF s i a])
  show "cs_lba (cache s ! j) \<noteq> a" if "j < 16" "j \<noteq> i" "cs_valid (cache s ! j)" for j
    using find_NoneD [OF s miss] that by blast
  show "content d' b = content (dk_drive s) b"
    if "b \<noteq> a" "\<And>j. j < 16 \<Longrightarrow> cs_valid (cache s ! j) \<Longrightarrow> cs_lba (cache s ! j) \<noteq> b" for b
    using d(1) [of b] d'(2) [of b] that i by metis
  show "content d' (cs_lba (cache s ! j)) = content (dk_drive s) (cs_lba (cache s ! j))"
    if j: "j < 16" "j \<noteq> i" "cs_valid (cache s ! j)" for j
    using d(1) [of "cs_lba (cache s ! j)"] d'(2) [of "cs_lba (cache s ! j)"] find_NoneD [OF s miss j(1,3)]
      okD(5) [OF s j(1) i j(3)] j(2) by metis
  show "content d' (cs_lba (cache s ! i)) = cs_data (cache s ! i)"
    if "cs_valid (cache s ! i)" "cs_lba (cache s ! i) \<noteq> a"
    using d(2) d'(2) that by simp
qed (use d' x in simp_all)

lemma read_view:
  assumes s: "ok s" and a: "okl a"
  shows "\<exists>t. disk_read_sector_of rd wr a s = (Some (view s a), t) \<and> ok t \<and> view t = view s"
proof (cases "cache_find a s")
  case (Some i)
  then show ?thesis using s by (simp add: disk_read_sector_of_def disk_view_def)
next
  case None
  obtain i d where E: "i < 16"
    "cache_evict_of wr a s = (i, set_slot i ((cache s ! i)\<lparr>cs_lba := a, cs_valid := True, cs_dirty := False\<rparr>)
       (s\<lparr>dk_drive := d\<rparr>))"
    "good d" "\<And>b. \<not> cs_valid (cache s ! i) \<or> b \<noteq> cs_lba (cache s ! i) \<Longrightarrow> content d b = content (dk_drive s) b"
    "cs_valid (cache s ! i) \<Longrightarrow> content d (cs_lba (cache s ! i)) = cs_data (cache s ! i)"
    using evict [OF s None] by blast
  obtain d' where d': "rd a (cs_data (cache s ! i)) d = (True, content d a, d')" "good d'" "content d' = content d"
    using read_sector [OF E(3) a okD(4) [OF s E(1)]] by blast
  let ?t = "set_slot i \<lparr>cs_lba = a, cs_data = content d a, cs_valid = True, cs_dirty = False\<rparr> (s\<lparr>dk_drive := d'\<rparr>)"
  have T: "ok ?t \<and> view ?t = (view s)(a := content d a)"
    by (rule refill [OF s None a E(1,4,5) d'(2)]) (use d' sector_length [OF E(3)] in auto)
  have va: "view s a = content d a"
    using E(4) [of a] find_NoneD [OF s None E(1)] None by (simp add: disk_view_def) metis
  have len: "length (cache s) = 16" by (rule okD(3) [OF s])
  have "disk_read_sector_of rd wr a s = (Some (content d a), ?t)"
    using None E(1,2) d'(1) okD(1) [OF s] len
    by (cases "cache s ! i") (simp add: disk_read_sector_of_def Let_def set_slot_def)
  moreover have "(view s)(a := content d a) = view s" using va by auto
  ultimately show ?thesis using T va by auto
qed

lemma write_view:
  assumes s: "ok s" and a: "okl a" and buf: "length buf = 512"
  shows "\<exists>t. disk_write_sector_of wr a buf s = (True, t) \<and> ok t \<and> view t = (view s)(a := buf) \<and>
    content (dk_drive t) a = buf"
proof (cases "cache_find a s")
  case (Some i)
  then have i: "i < 16" "cs_valid (cache s ! i)" "cs_lba (cache s ! i) = a" using find_SomeD [OF s] by auto
  obtain d where d: "wr a buf (dk_drive s) = (True, d)" "good d" "content d = (content (dk_drive s))(a := buf)"
    using write_sector [OF okD(2) [OF s] a buf] by blast
  let ?t = "set_slot i \<lparr>cs_lba = a, cs_data = buf, cs_valid = True, cs_dirty = False\<rparr> (s\<lparr>dk_drive := d\<rparr>)"
  have T: "ok ?t \<and> view ?t = (view s)(a := buf)"
  proof (rule fill_slot [OF s i(1) a])
    show "cs_lba (cache s ! j) \<noteq> a" if "j < 16" "j \<noteq> i" "cs_valid (cache s ! j)" for j
      using okD(5) [OF s that(1) i(1) that(3) i(2)] that(2) i(3) by auto
    then show "content d (cs_lba (cache s ! j)) = content (dk_drive s) (cs_lba (cache s ! j))"
      if "j < 16" "j \<noteq> i" "cs_valid (cache s ! j)" for j using that d(3) by simp
  qed (use d i buf in simp_all)
  have len: "length (cache s) = 16" by (rule okD(3) [OF s])
  have "cache s ! i = \<lparr>cs_lba = a, cs_data = cs_data (cache s ! i), cs_valid = True, cs_dirty = cs_dirty (cache s ! i)\<rparr>"
    using i by simp
  then have "disk_write_sector_of wr a buf s = (True, ?t)"
    using Some i d(1) okD(1) [OF s] len buf
    by (cases "cache s ! i") (simp add: disk_write_sector_of_def Let_def set_slot_def)
  then show ?thesis using T d(3) by (auto simp: set_slot_def)
next
  case None
  obtain i d where E: "i < 16"
    "cache_evict_of wr a s = (i, set_slot i ((cache s ! i)\<lparr>cs_lba := a, cs_valid := True, cs_dirty := False\<rparr>)
       (s\<lparr>dk_drive := d\<rparr>))"
    "good d" "\<And>b. \<not> cs_valid (cache s ! i) \<or> b \<noteq> cs_lba (cache s ! i) \<Longrightarrow> content d b = content (dk_drive s) b"
    "cs_valid (cache s ! i) \<Longrightarrow> content d (cs_lba (cache s ! i)) = cs_data (cache s ! i)"
    using evict [OF s None] by blast
  obtain d' where d': "wr a buf d = (True, d')" "good d'" "content d' = (content d)(a := buf)"
    using write_sector [OF E(3) a buf] by blast
  let ?t = "set_slot i \<lparr>cs_lba = a, cs_data = buf, cs_valid = True, cs_dirty = False\<rparr> (s\<lparr>dk_drive := d'\<rparr>)"
  have T: "ok ?t \<and> view ?t = (view s)(a := buf)"
    by (rule refill [OF s None a E(1,4,5) d'(2)]) (use d' buf in auto)
  have len: "length (cache s) = 16" by (rule okD(3) [OF s])
  have "disk_write_sector_of wr a buf s = (True, ?t)"
    using None E(1,2) d'(1) okD(1) [OF s] len buf
    by (cases "cache s ! i") (simp add: disk_write_sector_of_def Let_def set_slot_def)
  then show ?thesis using T d'(3) by (auto simp: set_slot_def)
qed

lemma flush_slot_view:
  assumes s: "ok s" and i: "i < 16"
  shows "ok (flush_slot wr i s) \<and> view (flush_slot wr i s) = view s \<and>
    (\<forall>j < 16. cs_dirty (cache (flush_slot wr i s) ! j) \<and> cs_valid (cache (flush_slot wr i s) ! j) \<longrightarrow>
       j \<noteq> i \<and> cs_dirty (cache s ! j) \<and> cs_valid (cache s ! j))"
proof (cases "cs_valid (cache s ! i) \<and> cs_dirty (cache s ! i)")
  case False
  then show ?thesis using s by (auto simp: flush_slot_def Let_def)
next
  case True
  let ?c = "cache s ! i"
  have a: "okl (cs_lba ?c)" using okD(6) [OF s i] True by blast
  have len: "length (cache s) = 16" "length (cs_data ?c) = 512" using okD(3,4) [OF s] i by auto
  obtain d where d: "wr (cs_lba ?c) (cs_data ?c) (dk_drive s) = (True, d)" "good d"
    "content d = (content (dk_drive s))(cs_lba ?c := cs_data ?c)"
    using write_sector [OF okD(2) [OF s] a len(2)] by blast
  let ?t = "set_slot i \<lparr>cs_lba = cs_lba ?c, cs_data = cs_data ?c, cs_valid = True, cs_dirty = False\<rparr> (s\<lparr>dk_drive := d\<rparr>)"
  have T: "ok ?t \<and> view ?t = (view s)(cs_lba ?c := cs_data ?c)"
  proof (rule fill_slot [OF s i a])
    show "cs_lba (cache s ! j) \<noteq> cs_lba ?c" if "j < 16" "j \<noteq> i" "cs_valid (cache s ! j)" for j
      using okD(5) [OF s that(1) i that(3)] that(2) True by auto
    then show "content d (cs_lba (cache s ! j)) = content (dk_drive s) (cs_lba (cache s ! j))"
      if "j < 16" "j \<noteq> i" "cs_valid (cache s ! j)" for j using that d(3) by simp
  qed (use d len in simp_all)
  have "(view s)(cs_lba ?c := cs_data ?c) = view s" using view_eq(1) [OF s i] True by auto
  moreover have "flush_slot wr i s = ?t"
    using True d(1) by (cases ?c) (simp add: flush_slot_def Let_def)
  ultimately show ?thesis using T i len by (auto simp: set_slot_def nth_list_update)
qed

lemma flush_view:
  assumes s: "ok s"
  shows "ok (disk_cache_flush_of wr s) \<and> view (disk_cache_flush_of wr s) = view s \<and>
    content (dk_drive (disk_cache_flush_of wr s)) = view s"
proof -
  have F: "ok (fold (flush_slot wr) [0..<n] s) \<and> view (fold (flush_slot wr) [0..<n] s) = view s \<and>
      (\<forall>j < 16. cs_dirty (cache (fold (flush_slot wr) [0..<n] s) ! j) \<longrightarrow>
         cs_valid (cache (fold (flush_slot wr) [0..<n] s) ! j) \<longrightarrow> n \<le> j)" if "n \<le> 16" for n
    using that
  proof (induction n)
    case (Suc n)
    let ?t = "fold (flush_slot wr) [0..<n] s"
    have t: "ok ?t" "n < 16" using Suc by auto
    have "fold (flush_slot wr) [0..<Suc n] s = flush_slot wr n ?t" by simp
    then show ?case using flush_slot_view [OF t] Suc by (simp only:) (metis Suc_leD Suc_leI le_neq_implies_less)
  qed (use s in simp)
  let ?t = "disk_cache_flush_of wr s"
  have t: "ok ?t" "view ?t = view s" "\<forall>j < 16. cs_valid (cache ?t ! j) \<longrightarrow> \<not> cs_dirty (cache ?t ! j)"
    using F [of 16] okD(1) [OF s] by (auto simp: disk_cache_flush_of_def)
  have "content (dk_drive ?t) a = view ?t a" for a
  proof (cases "\<exists>j < 16. cs_valid (cache ?t ! j) \<and> cs_lba (cache ?t ! j) = a")
    case True
    then obtain j where j: "j < 16" "cs_valid (cache ?t ! j)" "cs_lba (cache ?t ! j) = a" by blast
    then have "\<not> cs_dirty (cache ?t ! j)" using t(3) by blast
    then show ?thesis using view_eq(1) [OF t(1) j(1,2)] okD(7) [OF t(1) j(1,2)] j(3) by simp
  next
    case False
    then show ?thesis using view_eq(2) [OF t(1), of a] by auto
  qed
  with t show ?thesis by auto
qed

end

interpretation ata: sector_drive "\<lambda>lba. ata_read drive_ports lba 1" "\<lambda>lba. ata_write drive_ports lba 1"
    dv_store drive_idle "\<lambda>lba. lba < 0x10000000"
proof unfold_locales
  show "\<exists>d'. ata_read drive_ports a 1 buf d = (True, dv_store d a, d') \<and> drive_idle d' \<and> dv_store d' = dv_store d"
    if "drive_idle d" "a < 0x10000000" "length buf = 512" for d a buf
    by (rule ata_read_drive [OF that])
  show "\<exists>d'. ata_write drive_ports a 1 buf d = (True, d') \<and> drive_idle d' \<and> dv_store d' = (dv_store d)(a := buf)"
    if "drive_idle d" "a < 0x10000000" "length buf = 512" for d a buf
    by (rule ata_write_drive [OF that])
  show "length (dv_store d a) = 512" if "drive_idle d" for d a using that by (simp add: drive_idle_def)
qed

abbreviation cached_ok :: "drive disk \<Rightarrow> bool" where
  "cached_ok \<equiv> disk_ok dv_store drive_idle (\<lambda>lba. lba < 0x10000000)"

subsection \<open>Properties\<close>

text \<open>
  C15: with a drive that follows the protocol the cache is transparent: a read returns the sector as
  last written through it and changes no sector, a write changes that sector only and is on
  the drive when it returns, and a flush leaves the drive with exactly the sectors the clients
  see; the cache never holds a sector twice.
\<close>

theorem disk_cache_transparent:
  assumes "cached_ok s" "lba < 0x10000000" "length buf = 512"
  shows "(\<exists>t. disk_read_sector drive_ports lba s = (Some (disk_view dv_store s lba), t) \<and> cached_ok t \<and>
      disk_view dv_store t = disk_view dv_store s) \<and>
    (\<exists>t. disk_write_sector drive_ports lba buf s = (True, t) \<and> cached_ok t \<and>
      disk_view dv_store t = (disk_view dv_store s)(lba := buf) \<and> dv_store (dk_drive t) lba = buf) \<and>
    dv_store (dk_drive (disk_cache_flush drive_ports s)) = disk_view dv_store s \<and>
    disk_view dv_store (disk_cache_flush drive_ports s) = disk_view dv_store s"
  using ata.read_view [OF assms(1,2)] ata.write_view [OF assms] ata.flush_view [OF assms(1)]
  by (simp add: disk_read_sector_def disk_write_sector_def disk_cache_flush_def)

definition fresh_disk :: "drive disk" where
  "fresh_disk = \<lparr>cache = replicate 16 \<lparr>cs_lba = 0, cs_data = replicate 512 0, cs_valid = False, cs_dirty = False\<rparr>,
     disk_present = True, dk_drive = blank_drive\<rparr>"

lemma fresh_disk_ok: "cached_ok fresh_disk"
  by (simp add: disk_ok_def fresh_disk_def blank_drive_idle)

theorem disk_cache_transparent_witness:
  "\<exists>t. disk_write_sector drive_ports 5 (replicate 512 7) fresh_disk = (True, t) \<and>
     dv_store (dk_drive t) 5 = replicate 512 7"
proof -
  have "(5 :: u32) < 0x10000000" "length (replicate 512 (7 :: u8)) = 512" by simp_all
  from disk_cache_transparent [OF fresh_disk_ok this] show ?thesis by blast
qed

text \<open>Without a drive a sector written is kept in the cache but reported as failed.\<close>

lemma disk_write_absent:
  "\<not> disk_present s \<Longrightarrow> fst (disk_write_sector P lba buf s) = False"
  by (simp add: disk_write_sector_def disk_write_sector_of_def case_prod_beta Let_def cache_evict_of_def set_slot_def
      split: option.splits)

end
