(* ===== verification/Fat12.thy ===== *)
theory Fat12
  imports Disk "HOL-Library.Monad_Syntax"
begin

text \<open>
  \<^verbatim>\<open>kernel/fat12.c\<close>: the FAT12 driver over the sector cache.  \<open>D\<close> are the operations of
  \<^verbatim>\<open>kernel/disk.c\<close> it calls and \<open>store\<close> is their state; \<open>disk_sectors\<close> below is the composition
  with the cache.  A result \<open>None\<close> is an operation that does not return or has no defined
  result: a loop around a cyclic cluster chain, a division by zero sectors per cluster, an access outside
  \<open>fat_data\<close>, or the use of a sector buffer that a failed read left uninitialised.
\<close>

unbundle bit_operations_syntax

subsection \<open>State\<close>

record 's sectors =
  sec_read :: "u32 \<Rightarrow> 's \<Rightarrow> u8 list option \<times> 's"
  sec_write :: "u32 \<Rightarrow> u8 list \<Rightarrow> 's \<Rightarrow> bool \<times> 's"
  sec_flush :: "'s \<Rightarrow> 's"

record 's fat =
  bytes_per_sector :: u16
  sectors_per_cluster :: u8
  reserved_sectors :: u16
  num_fats :: u8
  root_entry_count :: u16
  sectors_per_fat :: u16
  total_sectors :: u32
  fat_start_lba :: u32
  root_start_lba :: u32
  data_start_lba :: u32
  total_clusters :: u32
  fat12_ready :: bool
  fat_data :: "u8 list"
  fat_dirty :: bool
  store :: 's

definition read_u16 :: "u8 list \<Rightarrow> nat \<Rightarrow> u16" where
  "read_u16 p i = ucast (p ! i) OR push_bit 8 (ucast (p ! (i + 1)))"

definition read_u32 :: "u8 list \<Rightarrow> nat \<Rightarrow> u32" where
  "read_u32 p i = ucast (p ! i) OR push_bit 8 (ucast (p ! (i + 1))) OR
     push_bit 16 (ucast (p ! (i + 2))) OR push_bit 24 (ucast (p ! (i + 3)))"

definition write_u16 :: "u8 list \<Rightarrow> nat \<Rightarrow> u16 \<Rightarrow> u8 list" where
  "write_u16 p i v = p[i := ucast v, i + 1 := ucast (drop_bit 8 v)]"

definition write_u32 :: "u8 list \<Rightarrow> nat \<Rightarrow> u32 \<Rightarrow> u8 list" where
  "write_u32 p i v = p[i := ucast v, i + 1 := ucast (drop_bit 8 v), i + 2 := ucast (drop_bit 16 v),
     i + 3 := ucast (drop_bit 24 v)]"

text \<open>Reading a sector into a fresh buffer, and writing one with the result ignored.\<close>

definition get_sector :: "'s sectors \<Rightarrow> u32 \<Rightarrow> 's fat \<Rightarrow> (u8 list \<times> 's fat) option" where
  "get_sector D lba s =
     (case sec_read D lba (store s) of (Some b, t) \<Rightarrow> Some (b, s\<lparr>store := t\<rparr>) | (None, t) \<Rightarrow> None)"

definition put_sector :: "'s sectors \<Rightarrow> u32 \<Rightarrow> u8 list \<Rightarrow> 's fat \<Rightarrow> 's fat" where
  "put_sector D lba b s = s\<lparr>store := snd (sec_write D lba b (store s))\<rparr>"

subsection \<open>Mounting\<close>

text \<open>Part of the table read into \<open>fat_data\<close>; it is kept when the read fails.\<close>

definition load_fat :: "'s sectors \<Rightarrow> u32 \<Rightarrow> nat \<Rightarrow> 's fat \<Rightarrow> 's fat" where
  "load_fat D lba pos s =
     (case sec_read D lba (store s) of
        (Some b, t) \<Rightarrow> s\<lparr>fat_data := overlay (fat_data s) pos b, store := t\<rparr>
      | (None, t) \<Rightarrow> s\<lparr>store := t\<rparr>)"

definition fat12_init :: "'s sectors \<Rightarrow> 's fat \<Rightarrow> (bool \<times> 's fat) option" where
  "fat12_init D s =
     (case sec_read D 0 (store s) of
        (None, t) \<Rightarrow> Some (False, s\<lparr>store := t\<rparr>)
      | (Some sector, t) \<Rightarrow>
        (let s = s\<lparr>store := t\<rparr>
         in if sector ! 510 \<noteq> 0x55 \<or> sector ! 511 \<noteq> 0xAA then Some (False, s)
            else
              (let s = s\<lparr>bytes_per_sector := read_u16 sector 11, sectors_per_cluster := sector ! 13,
                     reserved_sectors := read_u16 sector 14, num_fats := sector ! 16,
                     root_entry_count := read_u16 sector 17, total_sectors := ucast (read_u16 sector 19)\<rparr>;
                   s = (if total_sectors s = 0 then s\<lparr>total_sectors := read_u32 sector 32\<rparr> else s);
                   s = s\<lparr>sectors_per_fat := read_u16 sector 22\<rparr>;
                   s = s\<lparr>fat_start_lba := ucast (reserved_sectors s)\<rparr>;
                   s = s\<lparr>root_start_lba := fat_start_lba s + ucast (num_fats s) * ucast (sectors_per_fat s)\<rparr>;
                   s = s\<lparr>data_start_lba := root_start_lba s + (ucast (root_entry_count s) * 32 + 511) div 512\<rparr>
               in if sectors_per_cluster s = 0 then None
                  else
                    (let s = s\<lparr>total_clusters := (total_sectors s - data_start_lba s) div ucast (sectors_per_cluster s)\<rparr>;
                         s = load_fat D (fat_start_lba s) 0 s;
                         s = (if sectors_per_fat s > 1 then load_fat D (fat_start_lba s + 1) 512 s else s)
                     in Some (True, s\<lparr>fat_dirty := False, fat12_ready := True\<rparr>)))))"

subsection \<open>The table\<close>

definition fat_offset :: "u16 \<Rightarrow> nat" where
  "fat_offset cluster = unat cluster + unat cluster div 2"

definition fat12_get :: "u16 \<Rightarrow> 's fat \<Rightarrow> u16 option" where
  "fat12_get cluster s =
     (let i = fat_offset cluster; f = fat_data s
      in if i + 1 \<ge> length f then None
         else if cluster AND 1 \<noteq> 0
         then Some ((drop_bit 4 (ucast (f ! i)) OR push_bit 4 (ucast (f ! (i + 1)))) AND 0x0FFF)
         else Some ((ucast (f ! i) OR push_bit 8 (ucast (f ! (i + 1) AND 0x0F))) AND 0x0FFF))"

definition fat12_set :: "u16 \<Rightarrow> u16 \<Rightarrow> 's fat \<Rightarrow> 's fat option" where
  "fat12_set cluster v s =
     (let i = fat_offset cluster; f = fat_data s
      in if i + 1 \<ge> length f then None
         else
           (let f = (if cluster AND 1 \<noteq> 0
                     then f[i := (f ! i AND 0x0F) OR ucast (push_bit 4 v), i + 1 := ucast (drop_bit 4 v)]
                     else f[i := ucast (v AND 0xFF), i + 1 := (f ! (i + 1) AND 0xF0) OR (ucast (drop_bit 8 v) AND 0x0F)])
            in Some (s\<lparr>fat_data := f, fat_dirty := True\<rparr>)))"

definition fat_flush :: "'s sectors \<Rightarrow> 's fat \<Rightarrow> 's fat" where
  "fat_flush D s =
     (if \<not> fat_dirty s then s
      else
        (let lo = take 512 (fat_data s); hi = drop 512 (fat_data s);
             start = fat_start_lba s; per = ucast (sectors_per_fat s);
             s = put_sector D start lo s;
             s = (if sectors_per_fat s > 1 then put_sector D (start + 1) hi s else s);
             s = (if num_fats s > 1
                  then (let s = put_sector D (start + per) lo s
                        in if sectors_per_fat s > 1 then put_sector D (start + per + 1) hi s else s)
                  else s)
         in s\<lparr>fat_dirty := False\<rparr>))"

fun alloc_scan :: "nat list \<Rightarrow> 's fat \<Rightarrow> u16 option" where
  "alloc_scan [] s = Some 0"
| "alloc_scan (c # cs) s =
     do { v \<leftarrow> fat12_get (of_nat c) s; if v = 0 then Some (of_nat c) else alloc_scan cs s }"

definition fat12_alloc_cluster :: "'s fat \<Rightarrow> u16 option" where
  "fat12_alloc_cluster s = alloc_scan [2..<unat (ucast (total_clusters s + 2) :: u16)] s"

definition in_chain :: "u16 \<Rightarrow> bool" where
  "in_chain cluster \<longleftrightarrow> cluster \<ge> 0x002 \<and> cluster \<le> 0xFEF"

partial_function (option) free_chain :: "u16 \<Rightarrow> 's fat \<Rightarrow> 's fat option" where
  "free_chain cluster s =
     (if in_chain cluster
      then do { nxt \<leftarrow> fat12_get cluster s; s \<leftarrow> fat12_set cluster 0 s; free_chain nxt s }
      else Some s)"

subsection \<open>Names\<close>

definition fat83_to_str :: "u8 list \<Rightarrow> cstr" where
  "fat83_to_str raw =
     takeWhile (\<lambda>c. c \<noteq> 32) (take 8 raw) @
     (if raw ! 8 \<noteq> 32 then [46] @ takeWhile (\<lambda>c. c \<noteq> 32) (take 3 (drop 8 raw)) else [])"

definition upper :: "u8 \<Rightarrow> u8" where
  "upper c = (if 97 \<le> c \<and> c \<le> 122 then c - 32 else c)"

text \<open>\<open>str_to_fat83\<close>: the bytes it stores over the 11 blanks.\<close>

definition pad_field :: "nat \<Rightarrow> cstr \<Rightarrow> u8 list" where
  "pad_field n s = overlay (replicate n 32) 0 (map upper (take n s))"

definition str_to_fat83 :: "cstr \<Rightarrow> u8 list" where
  "str_to_fat83 name =
     (let base = takeWhile (\<lambda>c. c \<noteq> 46) name
      in pad_field 8 base @
         (if 46 \<in> set name then pad_field 3 (drop (length base + 1) name) else replicate 3 32))"

definition names_match :: "cstr \<Rightarrow> cstr \<Rightarrow> bool" where
  "names_match a b \<longleftrightarrow> length a = length b \<and> (\<forall>i < length a. upper (a ! i) = upper (b ! i))"

subsection \<open>The root directory\<close>

definition dir_entry :: "u8 list \<Rightarrow> nat \<Rightarrow> u8 list" where
  "dir_entry sector i = take 32 (drop (i * 32) sector)"

datatype scan = Next | Stop | Found nat

fun scan_dir :: "cstr \<Rightarrow> u8 list \<Rightarrow> nat list \<Rightarrow> scan" where
  "scan_dir name sector [] = Next"
| "scan_dir name sector (i # is) =
     (let e = dir_entry sector i
      in if e ! 0 = 0 then Stop
         else if e ! 0 = 0xE5 \<or> e ! 11 AND 0x08 \<noteq> 0 then scan_dir name sector is
         else if names_match (cstr_of (fat83_to_str e)) name then Found i
         else scan_dir name sector is)"

text \<open>\<open>find_entry\<close>: the entry, its sector and its index.  \<open>left\<close> entries are still to be looked at.\<close>

function find_loop :: "'s sectors \<Rightarrow> cstr \<Rightarrow> nat \<Rightarrow> u32 \<Rightarrow> 's fat \<Rightarrow>
    ((u8 list \<times> u32 \<times> nat) option \<times> 's fat) option" where
  "find_loop D name left lba s =
     (if left = 0 then Some (None, s)
      else case get_sector D lba s of
        None \<Rightarrow> None
      | Some (sector, s) \<Rightarrow>
        (case scan_dir name sector [0..<min 16 left] of
           Found i \<Rightarrow> Some (Some (dir_entry sector i, lba, i), s)
         | Stop \<Rightarrow> Some (None, s)
         | Next \<Rightarrow> find_loop D name (left - min 16 left) (lba + 1) s))"
  by auto
termination by (relation "measure (\<lambda>(D, name, left, lba, s). left)") auto

declare find_loop.simps [simp del]

definition find_entry :: "'s sectors \<Rightarrow> cstr \<Rightarrow> 's fat \<Rightarrow> ((u8 list \<times> u32 \<times> nat) option \<times> 's fat) option" where
  "find_entry D name s = find_loop D name (unat (root_entry_count s)) (root_start_lba s) s"

function free_slot_loop :: "'s sectors \<Rightarrow> nat \<Rightarrow> u32 \<Rightarrow> 's fat \<Rightarrow> ((u32 \<times> nat) option \<times> 's fat) option" where
  "free_slot_loop D left lba s =
     (if left = 0 then Some (None, s)
      else case get_sector D lba s of
        None \<Rightarrow> None
      | Some (sector, s) \<Rightarrow>
        (case find_slot (\<lambda>i. sector ! (i * 32) = 0 \<or> sector ! (i * 32) = 0xE5) [0..<min 16 left] of
           Some i \<Rightarrow> Some (Some (lba, i), s)
         | None \<Rightarrow> free_slot_loop D (left - min 16 left) (lba + 1) s))"
  by auto
termination by (relation "measure (\<lambda>(D, left, lba, s). left)") auto

declare free_slot_loop.simps [simp del]

definition alloc_root_entry :: "'s sectors \<Rightarrow> 's fat \<Rightarrow> ((u32 \<times> nat) option \<times> 's fat) option" where
  "alloc_root_entry D s = free_slot_loop D (unat (root_entry_count s)) (root_start_lba s) s"

record fat12_dirent =
  de_name :: cstr
  de_is_dir :: bool
  de_size :: u32
  de_first_cluster :: u16

text \<open>The entries listed from a sector until \<open>room\<close> are found, and whether the directory ended.\<close>

fun list_dir :: "u8 list \<Rightarrow> nat list \<Rightarrow> nat \<Rightarrow> fat12_dirent list \<times> bool" where
  "list_dir sector [] room = ([], False)"
| "list_dir sector (i # is) room =
     (let e = dir_entry sector i
      in if room = 0 then ([], False)
         else if e ! 0 = 0 then ([], True)
         else if e ! 0 = 0xE5 \<or> e ! 11 AND 0x08 \<noteq> 0 then list_dir sector is room
         else (let (ds, fin) = list_dir sector is (room - 1)
               in (\<lparr>de_name = cstr_of (fat83_to_str e), de_is_dir = e ! 11 AND 0x10 \<noteq> 0, de_size = read_u32 e 28,
                    de_first_cluster = read_u16 e 26\<rparr> # ds, fin)))"

function list_loop :: "'s sectors \<Rightarrow> nat \<Rightarrow> u32 \<Rightarrow> nat \<Rightarrow> 's fat \<Rightarrow> (fat12_dirent list \<times> 's fat) option" where
  "list_loop D left lba room s =
     (if left = 0 \<or> room = 0 then Some ([], s)
      else case get_sector D lba s of
        None \<Rightarrow> None
      | Some (sector, s) \<Rightarrow>
        (let (ds, fin) = list_dir sector [0..<min 16 left] room
         in if fin then Some (ds, s)
            else map_option (\<lambda>(ds', s). (ds @ ds', s))
                   (list_loop D (left - min 16 left) (lba + 1) (room - length ds) s)))"
  by auto
termination by (relation "measure (\<lambda>(D, left, lba, room, s). left)") auto

declare list_loop.simps [simp del]

definition fat12_list :: "'s sectors \<Rightarrow> int \<Rightarrow> 's fat \<Rightarrow> (fat12_dirent list \<times> 's fat) option" where
  "fat12_list D max_entries s =
     (if \<not> fat12_ready s then Some ([], s)
      else list_loop D (unat (root_entry_count s)) (root_start_lba s) (nat max_entries) s)"

subsection \<open>Files\<close>

definition strip_slash :: "cstr \<Rightarrow> cstr" where
  "strip_slash path = (if path \<noteq> [] \<and> hd path = 47 then tl path else path)"

definition fat12_exists :: "'s sectors \<Rightarrow> cstr \<Rightarrow> 's fat \<Rightarrow> (bool \<times> 's fat) option" where
  "fat12_exists D path s =
     (if \<not> fat12_ready s then Some (False, s)
      else map_option (\<lambda>(e, s). (e \<noteq> None, s)) (find_entry D (strip_slash path) s))"

definition cluster_lba :: "'s fat \<Rightarrow> u16 \<Rightarrow> u32" where
  "cluster_lba s cluster = data_start_lba s + (ucast cluster - 2) * ucast (sectors_per_cluster s)"

text \<open>The sectors of one cluster: \<open>out\<close> are the bytes copied so far, \<open>n\<close> sectors are left.\<close>

fun read_cluster :: "'s sectors \<Rightarrow> u32 \<Rightarrow> nat \<Rightarrow> u32 \<Rightarrow> u32 \<Rightarrow> u8 list \<Rightarrow> 's fat \<Rightarrow> (u8 list \<times> 's fat) option" where
  "read_cluster D lba 0 sz buf_size out s = Some (out, s)"
| "read_cluster D lba (Suc n) sz buf_size out s =
     (let written = of_nat (length out)
      in if written \<ge> buf_size then Some (out, s)
         else do {
           (sec, s) \<leftarrow> get_sector D lba s;
           let to_copy = 512;
           let to_copy = (if written + to_copy > buf_size then buf_size - written else to_copy);
           let to_copy = (if written + to_copy > sz then sz - written else to_copy);
           read_cluster D (lba + 1) n sz buf_size (out @ take (unat to_copy) sec) s })"

partial_function (option) read_chain ::
  "'s sectors \<Rightarrow> u16 \<Rightarrow> u32 \<Rightarrow> u32 \<Rightarrow> u8 list \<Rightarrow> 's fat \<Rightarrow> (u8 list \<times> 's fat) option" where
  "read_chain D cluster sz buf_size out s =
     (if in_chain cluster \<and> of_nat (length out) < buf_size
      then do {
        (out, s) \<leftarrow> read_cluster D (cluster_lba s cluster) (unat (sectors_per_cluster s)) sz buf_size out s;
        nxt \<leftarrow> fat12_get cluster s;
        read_chain D nxt sz buf_size out s }
      else Some (out, s))"

text \<open>\<open>fat12_read\<close>: the bytes stored at \<^verbatim>\<open>buf\<close>; the result of the C function is their number.\<close>

definition fat12_read :: "'s sectors \<Rightarrow> cstr \<Rightarrow> u32 \<Rightarrow> 's fat \<Rightarrow> (u8 list \<times> 's fat) option" where
  "fat12_read D path buf_size s =
     (if \<not> fat12_ready s then Some ([], s)
      else do {
        (e, s) \<leftarrow> find_entry D (strip_slash path) s;
        case e of
          None \<Rightarrow> Some ([], s)
        | Some (entry, lba, idx) \<Rightarrow> read_chain D (read_u16 entry 26) (read_u32 entry 28) buf_size [] s })"

text \<open>Marking a directory entry as deleted.\<close>

definition erase_entry :: "'s sectors \<Rightarrow> u32 \<Rightarrow> nat \<Rightarrow> 's fat \<Rightarrow> 's fat option" where
  "erase_entry D lba idx s =
     do { (sector, s) \<leftarrow> get_sector D lba s; Some (put_sector D lba (sector[idx * 32 := 0xE5]) s) }"

definition delete_old :: "'s sectors \<Rightarrow> cstr \<Rightarrow> 's fat \<Rightarrow> 's fat option" where
  "delete_old D path s =
     do {
       (e, s) \<leftarrow> find_entry D path s;
       case e of
         None \<Rightarrow> Some s
       | Some (entry, lba, idx) \<Rightarrow> do { s \<leftarrow> free_chain (read_u16 entry 26) s; erase_entry D lba idx s } }"

text \<open>The allocation loop: whether there were enough clusters, and the first of them.\<close>

fun alloc_chain :: "nat \<Rightarrow> u16 \<Rightarrow> u16 \<Rightarrow> 's fat \<Rightarrow> (bool \<times> u16 \<times> 's fat) option" where
  "alloc_chain 0 first_cluster prev s = Some (True, first_cluster, s)"
| "alloc_chain (Suc n) first_cluster prev s =
     do {
       nc \<leftarrow> fat12_alloc_cluster s;
       if nc = 0
       then (if first_cluster \<noteq> 0 then map_option (\<lambda>s. (False, first_cluster, s)) (free_chain first_cluster s)
             else Some (False, first_cluster, s))
       else do {
         s \<leftarrow> fat12_set nc 0xFFF s;
         s \<leftarrow> (if prev \<noteq> 0 then fat12_set prev nc s else Some s);
         alloc_chain n (if prev \<noteq> 0 then first_cluster else nc) nc s } }"

fun write_cluster :: "'s sectors \<Rightarrow> u32 \<Rightarrow> nat \<Rightarrow> u8 list \<Rightarrow> u32 \<Rightarrow> u32 \<Rightarrow> 's fat \<Rightarrow> u32 \<times> 's fat" where
  "write_cluster D lba 0 buf sz written s = (written, s)"
| "write_cluster D lba (Suc n) buf sz written s =
     (if written \<ge> sz then (written, s)
      else (let to_write = 512;
                to_write = (if written + to_write > sz then sz - written else to_write);
                sec = overlay (replicate 512 0) 0 (take (unat to_write) (drop (unat written) buf))
            in write_cluster D (lba + 1) n buf sz (written + to_write) (put_sector D lba sec s)))"

partial_function (option) write_chain ::
  "'s sectors \<Rightarrow> u16 \<Rightarrow> u8 list \<Rightarrow> u32 \<Rightarrow> u32 \<Rightarrow> 's fat \<Rightarrow> (u32 \<times> 's fat) option" where
  "write_chain D cluster buf sz written s =
     (if in_chain cluster \<and> written < sz
      then (let (written, s) = write_cluster D (cluster_lba s cluster) (unat (sectors_per_cluster s)) buf sz written s
            in do { nxt \<leftarrow> fat12_get cluster s; write_chain D nxt buf sz written s })
      else Some (written, s))"

definition new_entry :: "cstr \<Rightarrow> u16 \<Rightarrow> u32 \<Rightarrow> u8 list" where
  "new_entry name first_cluster sz =
     write_u32 (write_u16 ((overlay (replicate 32 0) 0 (str_to_fat83 name))[11 := 0x20]) 26 first_cluster) 28 sz"

text \<open>\<open>fat12_write\<close>: \<open>buf\<close> are the \<open>sz\<close> bytes to write.\<close>

definition clusters_needed :: "u32 \<Rightarrow> u8 \<Rightarrow> nat" where
  "clusters_needed sz spc =
     (let n = (sz + 511) div 512 div ucast spc in if n = 0 then 1 else unat n)"

definition fat12_write :: "'s sectors \<Rightarrow> cstr \<Rightarrow> u8 list \<Rightarrow> 's fat \<Rightarrow> (u32 \<times> 's fat) option" where
  "fat12_write D path buf s =
     (if \<not> fat12_ready s then Some (0, s)
      else do {
        let path = strip_slash path;
        let sz = of_nat (length buf);
        s \<leftarrow> delete_old D path s;
        if sectors_per_cluster s = 0 then None
        else do {
          (ok, first_cluster, s) \<leftarrow> alloc_chain (clusters_needed sz (sectors_per_cluster s)) 0 0 s;
          if \<not> ok then Some (0, s)
          else do {
            (written, s) \<leftarrow> write_chain D first_cluster buf sz 0 s;
            (slot, s) \<leftarrow> alloc_root_entry D s;
            case slot of
              None \<Rightarrow> do { s \<leftarrow> free_chain first_cluster s; Some (0, s) }
            | Some (lba, idx) \<Rightarrow> do {
                (sector, s) \<leftarrow> get_sector D lba s;
                let s = put_sector D lba (overlay sector (idx * 32) (new_entry path first_cluster sz)) s;
                let s = fat_flush D s;
                Some (written, s\<lparr>store := sec_flush D (store s)\<rparr>) } } } })"

definition fat12_delete :: "'s sectors \<Rightarrow> cstr \<Rightarrow> 's fat \<Rightarrow> (bool \<times> 's fat) option" where
  "fat12_delete D path s =
     (if \<not> fat12_ready s then Some (False, s)
      else do {
        (e, s) \<leftarrow> find_entry D (strip_slash path) s;
        case e of
          None \<Rightarrow> Some (False, s)
        | Some (entry, lba, idx) \<Rightarrow> do {
            s \<leftarrow> free_chain (read_u16 entry 26) s;
            s \<leftarrow> erase_entry D lba idx s;
            let s = fat_flush D s;
            Some (True, s\<lparr>store := sec_flush D (store s)\<rparr>) } })"

text \<open>Composed with the sector cache over the ports \<open>P\<close>.\<close>

definition disk_sectors :: "'d ports \<Rightarrow> 'd disk sectors" where
  "disk_sectors P = \<lparr>sec_read = disk_read_sector P, sec_write = disk_write_sector P,
     sec_flush = disk_cache_flush P\<rparr>"

subsection \<open>The table as an array of 12-bit numbers\<close>

text \<open>Bit \<open>n\<close> of the table.\<close>

definition fat_bit :: "u8 list \<Rightarrow> nat \<Rightarrow> bool" where
  "fat_bit f n = bit (f ! (n div 8)) (n mod 8)"

lemma odd_cluster: "(c :: u16) AND 1 \<noteq> 0 \<longleftrightarrow> odd (unat c)"
proof -
  have "odd (unat c) \<longleftrightarrow> bit c 0" by (simp add: bit_unsigned_iff flip: bit_0)
  moreover have "c AND 1 \<noteq> 0 \<longleftrightarrow> odd c" by (simp add: and_one_eq odd_iff_mod_2_eq_one)
  ultimately show ?thesis by (simp add: bit_0)
qed

lemma beyond_byte: "8 \<le> n \<Longrightarrow> bit (w :: u8) n = False"
  using bit_imp_le_length [of w n] by auto

lemma beyond_u16: "16 \<le> n \<Longrightarrow> bit (w :: u16) n = False"
  using bit_imp_le_length [of w n] by auto

lemma nibble_masks:
  "(0x0F :: u8) = mask 4" "(0xF0 :: u8) = push_bit 4 (mask 4)" "(0x0FFF :: u16) = mask 12" "(0x0F :: u16) = mask 4"
  "(0xFF :: u16) = mask 8"
  by (simp_all add: mask_eq_exp_minus_1)

lemma offset_even: "unat c = 2 * k \<Longrightarrow> fat_offset c = 3 * k"
  and offset_odd: "unat c = 2 * k + 1 \<Longrightarrow> fat_offset c = 3 * k + 1"
  by (simp_all add: fat_offset_def)

lemma fat_bit_even:
  "i < 12 \<Longrightarrow> fat_bit f (24 * k + i) = (if i < 8 then bit (f ! (3 * k)) i else bit (f ! (3 * k + 1)) (i - 8))"
proof -
  assume i: "i < 12"
  show ?thesis
  proof (cases "i < 8")
    case True
    then have "(24 * k + i) div 8 = 3 * k" "(24 * k + i) mod 8 = i" by presburger+
    then show ?thesis using True by (simp add: fat_bit_def)
  next
    case False
    then have "(24 * k + i) div 8 = 3 * k + 1" "(24 * k + i) mod 8 = i - 8" using i by presburger+
    then show ?thesis using False by (simp add: fat_bit_def)
  qed
qed

lemma fat_bit_odd:
  "i < 12 \<Longrightarrow> fat_bit f (24 * k + 12 + i) =
     (if i < 4 then bit (f ! (3 * k + 1)) (i + 4) else bit (f ! (3 * k + 2)) (i - 4))"
proof -
  assume i: "i < 12"
  show ?thesis
  proof (cases "i < 4")
    case True
    then have "(24 * k + 12 + i) div 8 = 3 * k + 1" "(24 * k + 12 + i) mod 8 = i + 4" by presburger+
    then show ?thesis using True by (simp add: fat_bit_def)
  next
    case False
    then have "(24 * k + 12 + i) div 8 = 3 * k + 2" "(24 * k + 12 + i) mod 8 = i - 4" using i by presburger+
    then show ?thesis using False by (simp add: fat_bit_def)
  qed
qed

lemma fat12_get_bits:
  "fat12_get c s = Some v \<Longrightarrow> bit v i \<longleftrightarrow> i < 12 \<and> fat_bit (fat_data s) (12 * unat c + i)"
proof -
  assume g: "fat12_get c s = Some v"
  let ?f = "fat_data s"
  show ?thesis
  proof (cases "odd (unat c)")
    case True
    then obtain k where k: "unat c = 2 * k + 1" by (rule oddE)
    have "12 * unat c + i = 24 * k + 12 + i" using k by simp
    moreover have "bit v i \<longleftrightarrow> i < 12 \<and> (if i < 4 then bit (?f ! (3 * k + 1)) (i + 4) else bit (?f ! (3 * k + 2)) (i - 4))"
      using g True odd_cluster [of c]
      by (auto simp: fat12_get_def offset_odd [OF k] Let_def nibble_masks bit_simps
          beyond_byte add.commute split: if_splits)
    ultimately show ?thesis using fat_bit_odd [of i ?f k] by auto
  next
    case False
    then obtain k where k: "unat c = 2 * k" by (auto elim: evenE)
    have "12 * unat c + i = 24 * k + i" using k by simp
    moreover have "bit v i \<longleftrightarrow> i < 12 \<and> (if i < 8 then bit (?f ! (3 * k)) i else bit (?f ! (3 * k + 1)) (i - 8))"
      using g False odd_cluster [of c]
      by (auto simp: fat12_get_def offset_even [OF k] Let_def nibble_masks bit_simps
          beyond_byte add.commute split: if_splits)
    ultimately show ?thesis using fat_bit_even [of i ?f k] by auto
  qed
qed

lemma fat12_set_bits:
  assumes st: "fat12_set c v s = Some s'"
  shows "fat_bit (fat_data s') n =
    (if 12 * unat c \<le> n \<and> n < 12 * unat c + 12 then bit v (n - 12 * unat c) else fat_bit (fat_data s) n)"
proof -
  let ?f = "fat_data s"
  obtain j b where n: "n = 8 * j + b" "b < 8" and jb: "n div 8 = j" "n mod 8 = b"
    by (rule that [of "n div 8" "n mod 8"]) simp_all
  have len: "fat_offset c + 1 < length ?f" using st by (auto simp: fat12_set_def Let_def split: if_splits)
  show ?thesis
  proof (cases "odd (unat c)")
    case True
    then obtain k where k: "unat c = 2 * k + 1" by (rule oddE)
    have f: "fat_data s' = ?f[3 * k + 1 := (?f ! (3 * k + 1) AND 0x0F) OR ucast (push_bit 4 v),
        3 * k + 2 := ucast (drop_bit 4 v)]"
      using st True odd_cluster [of c] by (auto simp: fat12_set_def Let_def offset_odd [OF k] split: if_splits)
    have l: "3 * k + 2 < length ?f" using len offset_odd [OF k] by simp
    consider "j = 3 * k + 1" "b < 4" | "j = 3 * k + 1" "4 \<le> b" | "j = 3 * k + 2" | "j \<noteq> 3 * k + 1" "j \<noteq> 3 * k + 2"
      by linarith
    then show ?thesis
    proof cases
      case 1
      then have "\<not> 12 * unat c \<le> n" using k n(1) by linarith
      then show ?thesis using 1 l by (simp add: fat_bit_def jb f nibble_masks bit_simps beyond_u16)
    next
      case 2
      then have "12 * unat c \<le> n \<and> n < 12 * unat c + 12" "n - 12 * unat c = b - 4" using k n by linarith+
      then show ?thesis using 2 l n(2) by (auto simp: fat_bit_def jb f nibble_masks bit_simps)
    next
      case 3
      then have "12 * unat c \<le> n \<and> n < 12 * unat c + 12" "n - 12 * unat c = b + 4" using k n by linarith+
      then show ?thesis using 3 l n(2) by (auto simp: fat_bit_def jb f bit_simps add.commute)
    next
      case 4
      then have "\<not> (12 * unat c \<le> n \<and> n < 12 * unat c + 12)" using k n by linarith
      then show ?thesis using 4 by (auto simp: fat_bit_def jb f)
    qed
  next
    case False
    then obtain k where k: "unat c = 2 * k" by (auto elim: evenE)
    have f: "fat_data s' = ?f[3 * k := ucast (v AND 0xFF),
        3 * k + 1 := (?f ! (3 * k + 1) AND 0xF0) OR (ucast (drop_bit 8 v) AND 0x0F)]"
      using st False odd_cluster [of c] by (auto simp: fat12_set_def Let_def offset_even [OF k] split: if_splits)
    have l: "3 * k + 1 < length ?f" using len offset_even [OF k] by simp
    consider "j = 3 * k + 1" "b < 4" | "j = 3 * k + 1" "4 \<le> b" | "j = 3 * k" | "j \<noteq> 3 * k + 1" "j \<noteq> 3 * k"
      by linarith
    then show ?thesis
    proof cases
      case 1
      then have "12 * unat c \<le> n \<and> n < 12 * unat c + 12" "n - 12 * unat c = b + 8" using k n by linarith+
      then show ?thesis using 1 l n(2) by (auto simp: fat_bit_def jb f nibble_masks bit_simps add.commute)
    next
      case 2
      then have "\<not> n < 12 * unat c + 12" using k n by linarith
      then show ?thesis using 2 l n(2) by (auto simp: fat_bit_def jb f nibble_masks bit_simps beyond_u16)
    next
      case 3
      then have "12 * unat c \<le> n \<and> n < 12 * unat c + 12" "n - 12 * unat c = b" using k n by linarith+
      then show ?thesis using 3 l n(2) by (auto simp: fat_bit_def jb f nibble_masks bit_simps beyond_u16)
    next
      case 4
      then have "\<not> (12 * unat c \<le> n \<and> n < 12 * unat c + 12)" using k n by linarith
      then show ?thesis using 4 by (auto simp: fat_bit_def jb f)
    qed
  qed
qed

lemma fat12_get_defined: "fat12_get c s \<noteq> None \<longleftrightarrow> fat_offset c + 1 < length (fat_data s)"
  by (auto simp: fat12_get_def Let_def)

lemma fat12_set_defined: "fat12_set c v s \<noteq> None \<longleftrightarrow> fat_offset c + 1 < length (fat_data s)"
  by (auto simp: fat12_set_def Let_def)

lemma fat12_set_same:
  assumes "fat12_set c v s = Some s'"
  shows "fat12_get c s' = Some (v AND 0x0FFF)"
proof -
  have "length (fat_data s') = length (fat_data s)"
    using assms by (auto simp: fat12_set_def Let_def split: if_splits)
  then obtain w where w: "fat12_get c s' = Some w"
    using assms fat12_get_defined [of c s'] fat12_set_defined [of c v s] by auto
  have "w = v AND 0x0FFF"
    unfolding nibble_masks
    by (rule bit_word_eqI)
       (auto simp: fat12_get_bits [OF w] fat12_set_bits [OF assms] bit_simps)
  then show ?thesis using w by simp
qed

lemma fat12_set_other:
  assumes "fat12_set c v s = Some s'" "x \<noteq> c"
  shows "fat12_get x s' = fat12_get x s"
proof -
  have l: "length (fat_data s') = length (fat_data s)"
    using assms by (auto simp: fat12_set_def Let_def split: if_splits)
  show ?thesis
  proof (cases "fat12_get x s")
    case None
    then show ?thesis using fat12_get_defined [of x s] fat12_get_defined [of x s'] l by auto
  next
    case (Some w)
    then obtain w' where w': "fat12_get x s' = Some w'"
      using fat12_get_defined [of x s] fat12_get_defined [of x s'] l by auto
    have ne: "unat x \<noteq> unat c" using assms(2) by (simp add: word_unat_eq_iff)
    have "w' = w"
    proof (rule bit_word_eqI)
      fix n
      have "i < 12 \<Longrightarrow> \<not> (12 * unat c \<le> 12 * unat x + i \<and> 12 * unat x + i < 12 * unat c + 12)" for i
        using ne by linarith
      then show "bit w' n = bit w n"
        by (auto simp: fat12_get_bits [OF w'] fat12_get_bits [OF Some] fat12_set_bits [OF assms(1)])
    qed
    then show ?thesis using Some w' by simp
  qed
qed

lemma fat12_set_fields:
  "fat12_set c v s = Some s' \<Longrightarrow> s' = s\<lparr>fat_data := fat_data s', fat_dirty := True\<rparr> \<and>
     length (fat_data s') = length (fat_data s)"
  by (auto simp: fat12_set_def Let_def split: if_splits)

lemma fat12_set_keeps:
  "fat12_set c v s = Some s' \<Longrightarrow> store s' = store s \<and> fat12_ready s' = fat12_ready s \<and>
     root_entry_count s' = root_entry_count s \<and> root_start_lba s' = root_start_lba s \<and>
     data_start_lba s' = data_start_lba s \<and> sectors_per_cluster s' = sectors_per_cluster s"
  by (auto simp: fat12_set_def Let_def split: if_splits)

subsection \<open>Freeing a chain\<close>

text \<open>The clusters the loop of \<open>free_chain\<close> visits from \<open>c\<close>.\<close>

inductive_set on_chain :: "'s fat \<Rightarrow> u16 \<Rightarrow> u16 set" for s :: "'s fat" and c :: u16 where
  start: "in_chain c \<Longrightarrow> c \<in> on_chain s c"
| step: "x \<in> on_chain s c \<Longrightarrow> fat12_get x s = Some y \<Longrightarrow> in_chain y \<Longrightarrow> y \<in> on_chain s c"

lemma on_chain_in: "x \<in> on_chain s c \<Longrightarrow> in_chain x"
  by (induction rule: on_chain.induct)

lemma on_chain_empty: "\<not> in_chain c \<Longrightarrow> on_chain s c = {}"
proof -
  assume n: "\<not> in_chain c"
  have "x \<in> on_chain s c \<Longrightarrow> False" for x by (induction rule: on_chain.induct) (use n in auto)
  then show ?thesis by auto
qed

text \<open>Cutting the first link.\<close>

lemma on_chain_unfold:
  assumes c: "in_chain c" and g: "fat12_get c s = Some y"
    and st: "fat12_get c s' = Some 0" and other: "\<And>x. x \<noteq> c \<Longrightarrow> fat12_get x s' = fat12_get x s"
  shows "on_chain s c = insert c (on_chain s' y)"
proof (intro equalityI subsetI)
  fix x assume "x \<in> on_chain s c"
  then show "x \<in> insert c (on_chain s' y)"
  proof (induction rule: on_chain.induct)
    case (step x z)
    show ?case
    proof (cases "x = c")
      case True
      then have "z = y" using step.hyps(2) g by simp
      then show ?thesis using step.hyps(3) by (auto intro: on_chain.start)
    next
      case False
      then have "x \<in> on_chain s' y" using step.IH by simp
      then show ?thesis using step.hyps other [OF False] by (auto intro: on_chain.step)
    qed
  qed simp
next
  have cc: "c \<in> on_chain s c" by (rule on_chain.start [OF c])
  fix x assume "x \<in> insert c (on_chain s' y)"
  then show "x \<in> on_chain s c"
  proof
    assume "x \<in> on_chain s' y"
    then show ?thesis
    proof (induction rule: on_chain.induct)
      case start
      then show ?case using on_chain.step [OF cc g] by simp
    next
      case (step x z)
      have "x \<noteq> c"
      proof
        assume "x = c"
        then have "z = 0" using step.hyps(2) st by simp
        then show False using step.hyps(3) by (simp add: in_chain_def)
      qed
      then show ?case using step other by (auto intro: on_chain.step)
    qed
  qed (use cc in simp)
qed

text \<open>A table whose links stay in the part of it that is in memory.\<close>

definition fat_closed :: "'s fat \<Rightarrow> bool" where
  "fat_closed s \<longleftrightarrow> length (fat_data s) = 1024 \<and>
     (\<forall>x y. in_chain x \<longrightarrow> fat12_get x s = Some y \<longrightarrow> in_chain y \<longrightarrow> unat y \<le> 681)"

lemma get_in_memory: "length (fat_data s) = 1024 \<Longrightarrow> fat12_get x s \<noteq> None \<longleftrightarrow> unat x \<le> 681"
  unfolding fat12_get_defined fat_offset_def by presburger

definition linked :: "'s fat \<Rightarrow> u16 set" where
  "linked s = {x. fat12_get x s \<noteq> None \<and> fat12_get x s \<noteq> Some 0}"

lemma free_chain_result:
  "fat_closed s \<Longrightarrow> in_chain c \<longrightarrow> unat c \<le> 681 \<Longrightarrow>
   \<exists>s'. free_chain c s = Some s' \<and> s' = s\<lparr>fat_data := fat_data s', fat_dirty := fat_dirty s'\<rparr> \<and>
     length (fat_data s') = 1024 \<and>
     (\<forall>x. fat12_get x s' = (if x \<in> on_chain s c then Some 0 else fat12_get x s))"
proof (induction "card (linked s)" arbitrary: s c rule: less_induct)
  case less
  show ?case
  proof (cases "in_chain c")
    case False
    then show ?thesis using less.prems(1) by (subst free_chain.simps) (simp add: on_chain_empty fat_closed_def)
  next
    case True
    have len: "length (fat_data s) = 1024" using less.prems(1) by (simp add: fat_closed_def)
    have c: "unat c \<le> 681" using less.prems(2) True by blast
    then obtain y where y: "fat12_get c s = Some y" using get_in_memory [OF len] by blast
    obtain s1 where s1: "fat12_set c 0 s = Some s1"
      using fat12_set_defined [of c 0 s] fat12_get_defined [of c s] y by auto
    note same = fat12_set_same [OF s1, simplified] and other = fat12_set_other [OF s1]
    note fields = fat12_set_fields [OF s1]
    have unf: "on_chain s c = insert c (on_chain s1 y)"
      by (rule on_chain_unfold [OF True y same other])
    have closed1: "fat_closed s1"
      unfolding fat_closed_def
    proof (intro conjI allI impI)
      show "length (fat_data s1) = 1024" using fields len by simp
      show "unat z \<le> 681" if "in_chain x" "fat12_get x s1 = Some z" "in_chain z" for x z
        using that less.prems(1) same other [of x]
        by (cases "x = c") (auto simp: fat_closed_def in_chain_def)
    qed
    have ym: "in_chain y \<longrightarrow> unat y \<le> 681" using less.prems(1) True y by (auto simp: fat_closed_def)
    have run: "free_chain c s = free_chain y s1"
      using True y s1 by (subst free_chain.simps) simp
    have "\<exists>s'. free_chain y s1 = Some s' \<and> s' = s1\<lparr>fat_data := fat_data s', fat_dirty := fat_dirty s'\<rparr> \<and>
        length (fat_data s') = 1024 \<and> (\<forall>x. fat12_get x s' = (if x \<in> on_chain s1 y then Some 0 else fat12_get x s1))"
    proof (cases "y = 0")
      case True
      then have "\<not> in_chain y" by (simp add: in_chain_def)
      then show ?thesis using fields len by (subst free_chain.simps) (simp add: on_chain_empty)
    next
      case False
      have "linked s1 = linked s - {c}" using same other by (force simp: linked_def)
      moreover have "c \<in> linked s" using False y by (simp add: linked_def)
      ultimately have "card (linked s1) < card (linked s)"
        by (simp only:) (rule card_Diff1_less, simp_all)
      from less.hyps [OF this closed1 ym] show ?thesis .
    qed
    then obtain s' where s': "free_chain y s1 = Some s'" "s' = s1\<lparr>fat_data := fat_data s', fat_dirty := fat_dirty s'\<rparr>"
      "length (fat_data s') = 1024" "\<forall>x. fat12_get x s' = (if x \<in> on_chain s1 y then Some 0 else fat12_get x s1)"
      by blast
    have "s' = s\<lparr>fat_data := fat_data s', fat_dirty := fat_dirty s'\<rparr>"
      using s'(2) fields by (cases s; cases s1; cases s') simp
    moreover have "fat12_get x s' = (if x \<in> on_chain s c then Some 0 else fat12_get x s)" for x
      using s'(4) unf same other [of x] by (cases "x = c") auto
    ultimately show ?thesis using s' run by auto
  qed
qed

subsection \<open>Directory names\<close>

definition good_char :: "u8 \<Rightarrow> bool" where
  "good_char c \<longleftrightarrow> c \<noteq> 0 \<and> c \<noteq> 32 \<and> c \<noteq> 46"

lemma upper_good: "good_char c \<Longrightarrow> good_char (upper c)"
proof -
  assume g: "good_char c"
  have "c - 32 \<notin> {0, 32, 46}" if "97 \<le> c"
  proof -
    have c: "97 \<le> unat c" using that by (simp add: word_le_nat_alt)
    then have "unat (c - 32) = unat c - 32" by (simp add: unat_sub word_le_nat_alt)
    then have "65 \<le> unat (c - 32)" using c by linarith
    then show ?thesis by auto
  qed
  then show ?thesis using g by (auto simp: upper_def good_char_def)
qed

lemma upper_upper [simp]: "upper (upper c) = upper c"
proof (cases "97 \<le> c \<and> c \<le> 122")
  case True
  then have c: "97 \<le> unat c" "unat c \<le> 122" by (simp_all add: word_le_nat_alt)
  then have "unat (c - 32) = unat c - 32" by (simp add: unat_sub word_le_nat_alt)
  then have "\<not> 97 \<le> c - 32" using c by (simp add: word_le_nat_alt)
  then show ?thesis using True by (simp add: upper_def)
qed (simp add: upper_def)

lemma takeWhile_prefix: "(\<forall>c \<in> set xs. P c) \<Longrightarrow> \<forall>c \<in> set ys. \<not> P c \<Longrightarrow> takeWhile P (xs @ ys) = xs"
  by (cases ys) (simp_all add: takeWhile_append)

lemma length_pad_field [simp]: "length (pad_field n s) = n"
  by (simp add: pad_field_def length_overlay)

lemma upper_not_blank: "good_char c \<Longrightarrow> upper c \<noteq> 32"
  using upper_good [of c] by (simp add: good_char_def)

lemma pad_field_text: "\<forall>c \<in> set s. good_char c \<Longrightarrow> takeWhile (\<lambda>c. c \<noteq> 32) (pad_field n s) = map upper (take n s)"
  unfolding pad_field_def overlay_0
  by (rule takeWhile_prefix)
     (auto dest!: in_set_takeD in_set_dropD simp: upper_not_blank)

lemma pad_field_first: "s \<noteq> [] \<Longrightarrow> 0 < n \<Longrightarrow> pad_field n s ! 0 = upper (s ! 0)"
  by (cases s; cases n) (simp_all add: pad_field_def overlay_0)

text \<open>The base of a name and its extension, which may be empty.\<close>

definition dotted :: "cstr \<Rightarrow> cstr \<Rightarrow> cstr" where
  "dotted base ext = base @ (if ext = [] then [] else 46 # ext)"

lemma str_to_fat83_dotted:
  assumes "\<forall>c \<in> set base. good_char c" "\<forall>c \<in> set ext. good_char c"
  shows "fat83_to_str (str_to_fat83 (dotted base ext)) = map upper (dotted (take 8 base) (take 3 ext))"
proof -
  have nb: "takeWhile (\<lambda>c. c \<noteq> 46) (dotted base ext) = base"
    unfolding dotted_def using assms(1)
    by (cases "ext = []") (auto simp: good_char_def takeWhile_eq_all_conv intro!: takeWhile_append2 [THEN trans])
  have e: "46 \<in> set (dotted base ext) \<longleftrightarrow> ext \<noteq> []"
    using assms by (auto simp: dotted_def good_char_def)
  have raw: "str_to_fat83 (dotted base ext) = pad_field 8 base @ (if ext \<noteq> [] then pad_field 3 ext else replicate 3 32)"
    by (simp add: str_to_fat83_def nb e) (simp add: dotted_def)
  show ?thesis
  proof (cases "ext = []")
    case True
    then show ?thesis unfolding raw using assms
      by (simp add: fat83_to_str_def pad_field_text dotted_def nth_append)
  next
    case False
    then have "good_char (upper (ext ! 0))" using assms(2) by (intro upper_good) simp
    then have "pad_field 3 ext ! 0 \<noteq> 32" using False by (simp add: pad_field_first good_char_def)
    moreover have "upper 46 = 46" by (simp add: upper_def)
    ultimately show ?thesis unfolding raw using assms False
      by (simp add: fat83_to_str_def pad_field_text dotted_def nth_append)
  qed
qed

lemma names_match_upper: "names_match (map upper s) s"
  by (simp add: names_match_def)

subsection \<open>Reading a chain of sectors\<close>

text \<open>A finite chain from \<open>c\<close> through the clusters \<open>cs\<close>.\<close>

fun chain :: "'s fat \<Rightarrow> u16 \<Rightarrow> u16 list \<Rightarrow> bool" where
  "chain s c [] \<longleftrightarrow> \<not> in_chain c"
| "chain s c (x # xs) \<longleftrightarrow> c = x \<and> in_chain c \<and> (\<exists>y. fat12_get c s = Some y \<and> chain s y xs)"

lemma fat12_get_store [simp]: "fat12_get c (s\<lparr>store := t\<rparr>) = fat12_get c s"
  by (simp add: fat12_get_def)

lemma chain_store [simp]: "chain (s\<lparr>store := t\<rparr>) c cs = chain s c cs"
  by (induction cs arbitrary: c) simp_all

text \<open>What the driver relies on in the sector layer below it.\<close>

locale sector_store =
  fixes D :: "'s sectors"
    and view :: "'s \<Rightarrow> u32 \<Rightarrow> u8 list"
    and good :: "'s \<Rightarrow> bool"
    and okl :: "u32 \<Rightarrow> bool"
  assumes rd: "good t \<Longrightarrow> okl a \<Longrightarrow> \<exists>t'. sec_read D a t = (Some (view t a), t') \<and> good t' \<and> view t' = view t"
    and wr: "good t \<Longrightarrow> okl a \<Longrightarrow> length b = 512 \<Longrightarrow>
      \<exists>t'. sec_write D a b t = (True, t') \<and> good t' \<and> view t' = (view t)(a := b)"
    and fl: "good t \<Longrightarrow> good (sec_flush D t) \<and> view (sec_flush D t) = view t"
    and len: "good t \<Longrightarrow> okl a \<Longrightarrow> length (view t a) = 512"
begin

text \<open>The bytes of \<open>n\<close> sectors, of a cluster, and of a chain of clusters.\<close>

definition sectors_at :: "'s \<Rightarrow> u32 \<Rightarrow> nat \<Rightarrow> u8 list" where
  "sectors_at t a n = concat (map (\<lambda>i. view t (a + of_nat i)) [0..<n])"

lemma sectors_at_0 [simp]: "sectors_at t a 0 = []"
  by (simp add: sectors_at_def)

lemma sectors_at_Suc: "sectors_at t a (Suc n) = view t a @ sectors_at t (a + 1) n"
proof -
  have "map (\<lambda>i. view t (a + of_nat i)) [0..<Suc n] = view t a # map (\<lambda>i. view t (a + 1 + of_nat i)) [0..<n]"
    by (simp add: upt_conv_Cons map_Suc_upt [symmetric] add.assoc del: upt_Suc)
  then show ?thesis by (simp add: sectors_at_def)
qed

lemma get_sector_view:
  assumes "good (store s)" "okl a"
  obtains t where "get_sector D a s = Some (view (store s) a, s\<lparr>store := t\<rparr>)" "good t" "view t = view (store s)"
  using rd [OF assms] that by (auto simp: get_sector_def)

lemma put_sector_view:
  assumes "good (store s)" "okl a" "length b = 512"
  obtains t where "put_sector D a b s = s\<lparr>store := t\<rparr>" "good t" "view t = (view (store s))(a := b)"
proof -
  obtain t where t: "sec_write D a b (store s) = (True, t)" "good t" "view t = (view (store s))(a := b)"
    using wr [OF assms] by blast
  show thesis by (rule that [of t]) (use t in \<open>simp_all add: put_sector_def\<close>)
qed

text \<open>Appending the next sector to what is already read, cut to \<open>N\<close> bytes in all.\<close>

lemma take_next: "take N (xs @ ys) = take N xs @ take (N - length (take N xs)) ys"
  by (simp only: take_append length_take) (simp add: min_def)

lemma copy_step:
  assumes w: "unat (w :: u32) = min N (length xs)" and N: "N = min (unat sz) (unat bs)"
    and lt: "w < bs" and bs: "unat bs \<le> 4294966784" and sec: "length sec = 512"
  defines "k \<equiv> (let k = 512; k = (if w + k > bs then bs - w else k) in if w + k > sz then sz - w else k)"
  shows "take N xs @ take (unat k) sec = take N (xs @ sec)"
proof -
  have le: "unat w \<le> unat sz" using w N by simp
  have lt': "unat w < unat bs" using lt by (simp add: word_less_nat_alt)
  define k1 where "k1 = (if w + 512 > bs then bs - w else 512)"
  have u512: "unat (512 :: u32) = 512" by simp
  have s1: "unat (w + 512) = unat w + 512" using lt' bs by (subst unat32_add_small) simp_all
  have k1: "unat k1 = min 512 (unat bs - unat w)"
  proof (cases "w + 512 > bs")
    case True
    then have "unat k1 = unat bs - unat w" using lt by (simp add: k1_def unat32_sub)
    then show ?thesis using True s1 by (simp add: word_less_nat_alt)
  next
    case False
    then show ?thesis using s1 u512 by (simp add: k1_def word_less_nat_alt)
  qed
  have s2: "unat (w + k1) = unat w + unat k1" using k1 lt' bs by (intro unat32_add_small) linarith
  have "unat k = min (unat k1) (unat sz - unat w)"
  proof (cases "w + k1 > sz")
    case True
    have "w \<le> sz" using le by (simp add: word_le_nat_alt)
    then have "unat k = unat sz - unat w" using True by (simp add: k_def k1_def [symmetric] unat32_sub Let_def)
    then show ?thesis using True s2 by (simp add: word_less_nat_alt)
  next
    case False
    then have "k = k1" by (simp add: k_def k1_def [symmetric] Let_def)
    then show ?thesis using False s2 by (simp add: word_less_nat_alt)
  qed
  then have k: "unat k = min 512 (N - unat w)" unfolding k1 N by (auto simp: min_def)
  have "take (unat k) sec = take (N - unat w) sec" using sec k by (simp add: min_def)
  then show ?thesis using take_next [of N xs sec] w by (simp add: min.commute)
qed

lemma read_cluster_bytes:
  assumes N: "N = min (unat sz) (unat bs)" and bs: "unat bs \<le> 4294966784"
  shows "good (store s) \<Longrightarrow> (\<And>i. i < n \<Longrightarrow> okl (a + of_nat i)) \<Longrightarrow>
    \<exists>t. read_cluster D a n sz bs (take N xs) s = Some (take N (xs @ sectors_at (store s) a n), s\<lparr>store := t\<rparr>) \<and>
      good t \<and> view t = view (store s)"
proof (induction n arbitrary: a xs s)
  case 0
  then show ?case by (intro exI [of _ "store s"]) simp
next
  case (Suc n)
  let ?w = "of_nat (length (take N xs)) :: u32"
  have "length (take N xs) < 4294967296" using N bs by simp
  then have w: "unat ?w = min N (length xs)" by (simp add: min.commute)
  show ?case
  proof (cases "?w \<ge> bs")
    case True
    then have "N \<le> length xs" using w N by (simp add: word_le_nat_alt)
    then show ?thesis using True Suc.prems(1) by (intro exI [of _ "store s"]) simp
  next
    case False
    have a: "okl a" using Suc.prems(2) [of 0] by simp
    obtain t where t: "get_sector D a s = Some (view (store s) a, s\<lparr>store := t\<rparr>)" "good t"
      "view t = view (store s)"
      by (rule get_sector_view [OF Suc.prems(1) a])
    let ?s = "s\<lparr>store := t\<rparr>" and ?sec = "view (store s) a"
    have "length ?sec = 512" by (rule len [OF Suc.prems(1) a])
    note step = copy_step [OF w N _ bs this]
    have ih: "\<exists>t'. read_cluster D (a + 1) n sz bs (take N (xs @ ?sec)) ?s =
        Some (take N ((xs @ ?sec) @ sectors_at (store ?s) (a + 1) n), ?s\<lparr>store := t'\<rparr>) \<and>
        good t' \<and> view t' = view (store ?s)"
    proof (rule Suc.IH)
      show "good (store ?s)" using t(2) by simp
      show "okl (a + 1 + of_nat i)" if "i < n" for i using Suc.prems(2) [of "Suc i"] that by (simp add: add.assoc)
    qed
    have "sectors_at (store ?s) (a + 1) n = sectors_at (store s) (a + 1) n"
      using t(3) by (simp add: sectors_at_def)
    then obtain t' where t': "read_cluster D (a + 1) n sz bs (take N (xs @ ?sec)) ?s =
        Some (take N (xs @ ?sec @ sectors_at (store s) (a + 1) n), s\<lparr>store := t'\<rparr>)" "good t'" "view t' = view t"
      using ih by (simp only: append_assoc) auto
    have lt: "?w < bs" using False by simp
    have "read_cluster D a (Suc n) sz bs (take N xs) s = read_cluster D (a + 1) n sz bs (take N (xs @ ?sec)) ?s"
      unfolding step [OF lt, symmetric] using False t(1) by (simp only: read_cluster.simps Let_def if_False) simp
    then show ?thesis using t' t(3) by (simp only: sectors_at_Suc) auto
  qed
qed

definition cluster_bytes :: "'s fat \<Rightarrow> u16 \<Rightarrow> u8 list" where
  "cluster_bytes s c = sectors_at (store s) (cluster_lba s c) (unat (sectors_per_cluster s))"

lemma cluster_lba_store [simp]: "cluster_lba (s\<lparr>store := t\<rparr>) c = cluster_lba s c"
  by (simp add: cluster_lba_def)

lemma cluster_bytes_store: "view t = view (store s) \<Longrightarrow> cluster_bytes (s\<lparr>store := t\<rparr>) c = cluster_bytes s c"
  by (simp add: cluster_bytes_def sectors_at_def)

definition clusters_ok :: "'s fat \<Rightarrow> u16 list \<Rightarrow> bool" where
  "clusters_ok s cs \<longleftrightarrow>
     (\<forall>c \<in> set cs. \<forall>i < unat (sectors_per_cluster s). okl (cluster_lba s c + of_nat i))"

lemma read_chain_bytes:
  assumes N: "N = min (unat sz) (unat bs)" and bs: "unat bs \<le> 4294966784"
  shows "good (store s) \<Longrightarrow> chain s c cs \<Longrightarrow> clusters_ok s cs \<Longrightarrow>
    \<exists>t. read_chain D c sz bs (take N xs) s =
      Some (take N (xs @ concat (map (cluster_bytes s) cs)), s\<lparr>store := t\<rparr>) \<and> good t \<and> view t = view (store s)"
proof (induction cs arbitrary: c xs s)
  case Nil
  then show ?case by (subst read_chain.simps) (auto intro!: exI [of _ "store s"])
next
  case (Cons x cs)
  let ?w = "of_nat (length (take N xs)) :: u32"
  have "length (take N xs) < 4294967296" using N bs by simp
  then have w: "unat ?w = min N (length xs)" by (simp add: min.commute)
  show ?case
  proof (cases "?w < bs")
    case False
    then have "N \<le> length xs" using w N by (simp add: word_less_nat_alt)
    then show ?thesis using False Cons.prems(1) by (subst read_chain.simps) (auto intro!: exI [of _ "store s"])
  next
    case True
    obtain y where y: "c = x" "in_chain c" "fat12_get c s = Some y" "chain s y cs" using Cons.prems(2) by auto
    have "\<exists>t. read_cluster D (cluster_lba s c) (unat (sectors_per_cluster s)) sz bs (take N xs) s =
        Some (take N (xs @ cluster_bytes s c), s\<lparr>store := t\<rparr>) \<and> good t \<and> view t = view (store s)"
      unfolding cluster_bytes_def
      by (rule read_cluster_bytes [OF N bs Cons.prems(1)]) (use Cons.prems(3) y in \<open>auto simp: clusters_ok_def\<close>)
    then obtain t where t: "read_cluster D (cluster_lba s c) (unat (sectors_per_cluster s)) sz bs (take N xs) s =
        Some (take N (xs @ cluster_bytes s c), s\<lparr>store := t\<rparr>)" "good t" "view t = view (store s)" by blast
    let ?s = "s\<lparr>store := t\<rparr>"
    have ih: "\<exists>t'. read_chain D y sz bs (take N (xs @ cluster_bytes s c)) ?s =
        Some (take N ((xs @ cluster_bytes s c) @ concat (map (cluster_bytes ?s) cs)), ?s\<lparr>store := t'\<rparr>) \<and>
        good t' \<and> view t' = view (store ?s)"
      by (rule Cons.IH) (use t y Cons.prems(3) in \<open>auto simp: clusters_ok_def\<close>)
    have same: "cluster_bytes ?s = cluster_bytes s"
      by (rule ext) (rule cluster_bytes_store [OF t(3)])
    have "read_chain D c sz bs (take N xs) s = read_chain D y sz bs (take N (xs @ cluster_bytes s c)) ?s"
      using True y t(1) by (subst read_chain.simps) (simp add: fat12_get_def)
    then show ?thesis using ih t(3) unfolding same by (simp only: y(1) list.map concat.simps append_assoc) auto
  qed
qed

text \<open>A cluster that is its own successor: the read makes no progress once the file's bytes are copied.\<close>

definition stuck :: "u16 \<Rightarrow> u32 \<Rightarrow> u32 \<Rightarrow> u8 list \<Rightarrow> 's fat \<Rightarrow> bool" where
  "stuck c sz bs out s \<longleftrightarrow> in_chain c \<and> fat12_get c s = Some c \<and> clusters_ok s [c] \<and> good (store s) \<and>
     sz < bs \<and> unat bs \<le> 4294966784 \<and> length out \<le> unat sz"

lemma stuck_step:
  assumes st: "stuck c sz bs out s"
  shows "\<exists>out' t. read_cluster D (cluster_lba s c) (unat (sectors_per_cluster s)) sz bs out s =
    Some (out', s\<lparr>store := t\<rparr>) \<and> stuck c sz bs out' (s\<lparr>store := t\<rparr>) \<and> of_nat (length out) < bs"
proof -
  have N: "unat sz = min (unat sz) (unat bs)" using st by (simp add: stuck_def word_less_nat_alt)
  have bs: "unat bs \<le> 4294966784" using st by (simp add: stuck_def)
  have out: "out = take (unat sz) out" using st by (simp add: stuck_def)
  have "\<exists>t. read_cluster D (cluster_lba s c) (unat (sectors_per_cluster s)) sz bs (take (unat sz) out) s =
      Some (take (unat sz) (out @ sectors_at (store s) (cluster_lba s c) (unat (sectors_per_cluster s))), s\<lparr>store := t\<rparr>) \<and>
      good t \<and> view t = view (store s)"
    by (rule read_cluster_bytes [OF N bs]) (use st in \<open>auto simp: stuck_def clusters_ok_def\<close>)
  then obtain t where t: "read_cluster D (cluster_lba s c) (unat (sectors_per_cluster s)) sz bs out s =
      Some (take (unat sz) (out @ sectors_at (store s) (cluster_lba s c) (unat (sectors_per_cluster s))), s\<lparr>store := t\<rparr>)"
    "good t" using out by auto
  have "length out < unat bs" using st by (simp add: stuck_def word_less_nat_alt)
  then have "(of_nat (length out) :: u32) < bs" using bs by (simp add: word_less_nat_alt)
  then show ?thesis using t st by (intro exI conjI) (auto simp: stuck_def clusters_ok_def fat12_get_def)
qed

lemma read_chain_hangs: "stuck c sz bs out s \<Longrightarrow> read_chain D c sz bs out s = None"
proof -
  let ?P = "\<lambda>E c sz bs out s (r :: u8 list \<times> 's fat). E = D \<longrightarrow> \<not> stuck c sz bs out s"
  have "read_chain D c sz bs out s = Some r \<Longrightarrow> ?P D c sz bs out s r" for r
  proof (rule read_chain.raw_induct [where P = ?P], goal_cases)
    case (1 f E c sz bs out s r)
    show ?case
    proof (intro impI notI)
      assume E: "E = D" and st: "stuck c sz bs out s"
      obtain out' t where t: "read_cluster D (cluster_lba s c) (unat (sectors_per_cluster s)) sz bs out s =
          Some (out', s\<lparr>store := t\<rparr>)" "stuck c sz bs out' (s\<lparr>store := t\<rparr>)" "of_nat (length out) < bs"
        using stuck_step [OF st] by blast
      have g: "in_chain c" "fat12_get c (s\<lparr>store := t\<rparr>) = Some c" using st t(2) by (simp_all add: stuck_def)
      have "f D c sz bs out' (s\<lparr>store := t\<rparr>) = Some r"
        using 1(3) E t g by simp
      from 1(2) [OF this] t(2) show False by simp
    qed
  qed
  then show "stuck c sz bs out s \<Longrightarrow> ?thesis" by (cases "read_chain D c sz bs out s") blast+
qed

end

text \<open>The sector cache over the drive is such a layer.\<close>

interpretation fat: sector_store "disk_sectors drive_ports" "disk_view dv_store" cached_ok "\<lambda>a. a < 0x10000000"
proof unfold_locales
  show "\<exists>t'. sec_read (disk_sectors drive_ports) a t = (Some (disk_view dv_store t a), t') \<and> cached_ok t' \<and>
      disk_view dv_store t' = disk_view dv_store t" if "cached_ok t" "a < 0x10000000" for t a
    using ata.read_view [OF that] by (simp add: disk_sectors_def disk_read_sector_def)
  show "\<exists>t'. sec_write (disk_sectors drive_ports) a b t = (True, t') \<and> cached_ok t' \<and>
      disk_view dv_store t' = (disk_view dv_store t)(a := b)"
    if "cached_ok t" "a < 0x10000000" "length b = 512" for t a b
    using ata.write_view [OF that] by (auto simp: disk_sectors_def disk_write_sector_def)
  show "cached_ok (sec_flush (disk_sectors drive_ports) t) \<and>
      disk_view dv_store (sec_flush (disk_sectors drive_ports) t) = disk_view dv_store t" if "cached_ok t" for t
    using ata.flush_view [OF that] by (simp add: disk_sectors_def disk_cache_flush_def)
  show "length (disk_view dv_store t a) = 512" if "cached_ok t" for t a
  proof (cases "cache_find a t")
    case None
    then show ?thesis using ata.okD(2) [OF that] by (simp add: disk_view_def drive_idle_def)
  next
    case (Some i)
    then show ?thesis using ata.find_SomeD [OF that Some] ata.okD(4) [OF that] by (simp add: disk_view_def)
  qed
qed

subsection \<open>Properties\<close>

text \<open>
  an entry of the packed table reads back as the low 12 bits of what was stored, and no other
  entry changes, neighbours that share a byte included; of a table of which the driver keeps 1024
  bytes exactly the entries up to 681 can be accessed.
\<close>

lemma fat_get_set:
  assumes "length (fat_data s) = 1024"
  shows "(fat12_get c s \<noteq> None \<longleftrightarrow> unat c \<le> 681) \<and> (fat12_set c v s \<noteq> None \<longleftrightarrow> unat c \<le> 681) \<and>
    (\<forall>s'. fat12_set c v s = Some s' \<longrightarrow> fat12_get c s' = Some (v AND 0x0FFF) \<and>
       (\<forall>x. x \<noteq> c \<longrightarrow> fat12_get x s' = fat12_get x s))"
  using get_in_memory [OF assms, of c] fat12_set_same [of c v s] fat12_set_other [of c v s]
    fat12_set_defined [of c v s] fat12_get_defined [of c s] by auto

text \<open>
  freeing a cluster chain returns for every table, one with a cyclic chain included, and
  then the clusters on the chain are free and every other entry is as before.
\<close>

lemma free_chain_returns:
  assumes "fat_closed s" "in_chain c \<longrightarrow> unat c \<le> 681"
  shows "\<exists>s'. free_chain c s = Some s' \<and>
    (\<forall>x. fat12_get x s' = (if x \<in> on_chain s c then Some 0 else fat12_get x s))"
  using free_chain_result [OF assms] by blast

text \<open>
  C14: reading a file whose clusters form a finite chain delivers the bytes of its clusters in
  chain order, cut to the file's size and the room of the buffer, and changes no sector; a
  file whose first cluster links to itself is never returned when the buffer is larger than it.
\<close>

theorem fat12_read_file:
  assumes "fat12_ready s"
    "find_entry (disk_sectors drive_ports) (strip_slash path) s = Some (Some (entry, l, i), s1)"
    "cached_ok (store s1)" "unat bs \<le> 4294966784"
  shows "(chain s1 (read_u16 entry 26) cs \<and> fat.clusters_ok s1 cs \<longrightarrow>
      (\<exists>t. fat12_read (disk_sectors drive_ports) path bs s =
         Some (take (min (unat (read_u32 entry 28)) (unat bs)) (concat (map (fat.cluster_bytes s1) cs)), s1\<lparr>store := t\<rparr>) \<and>
         disk_view dv_store t = disk_view dv_store (store s1))) \<and>
    (in_chain (read_u16 entry 26) \<and> fat12_get (read_u16 entry 26) s1 = Some (read_u16 entry 26) \<and>
      fat.clusters_ok s1 [read_u16 entry 26] \<and> read_u32 entry 28 < bs \<longrightarrow>
      fat12_read (disk_sectors drive_ports) path bs s = None)"
proof -
  have run: "fat12_read (disk_sectors drive_ports) path bs s =
      read_chain (disk_sectors drive_ports) (read_u16 entry 26) (read_u32 entry 28) bs [] s1"
    using assms(1,2) by (simp add: fat12_read_def)
  have "\<exists>t. fat12_read (disk_sectors drive_ports) path bs s =
         Some (take (min (unat (read_u32 entry 28)) (unat bs)) (concat (map (fat.cluster_bytes s1) cs)), s1\<lparr>store := t\<rparr>) \<and>
         disk_view dv_store t = disk_view dv_store (store s1)"
    if "chain s1 (read_u16 entry 26) cs" "fat.clusters_ok s1 cs"
    using fat.read_chain_bytes [OF refl assms(4,3) that, where xs = "[]"] run by auto
  moreover have "fat12_read (disk_sectors drive_ports) path bs s = None"
    if "in_chain (read_u16 entry 26)" "fat12_get (read_u16 entry 26) s1 = Some (read_u16 entry 26)"
      "fat.clusters_ok s1 [read_u16 entry 26]" "read_u32 entry 28 < bs"
    unfolding run using that assms(3,4) by (intro fat.read_chain_hangs) (simp add: fat.stuck_def)
  ultimately show ?thesis by blast
qed

text \<open>
  a name of at most eight characters with an extension of at most three is stored in the
  directory in upper case and found again by that name; a file with a longer name can be written
  but is stored under a shortened name and never found by the name it was written with.
\<close>

lemma fat83_name_found:
  assumes "\<forall>c \<in> set base. good_char c" "\<forall>c \<in> set ext. good_char c"
  shows "names_match (fat83_to_str (str_to_fat83 (dotted base ext))) (dotted base ext) \<longleftrightarrow>
    length base \<le> 8 \<and> length ext \<le> 3"
proof (cases "length base \<le> 8 \<and> length ext \<le> 3")
  case True
  then show ?thesis using names_match_upper [of "dotted base ext"] by (simp add: str_to_fat83_dotted [OF assms])
next
  case False
  then have "length (dotted (take 8 base) (take 3 ext)) \<noteq> length (dotted base ext)"
    by (auto simp: dotted_def)
  then show ?thesis using False by (simp add: str_to_fat83_dotted [OF assms] names_match_def)
qed

subsection \<open>Witnesses\<close>

text \<open>A table with the cyclic chain 2, 3, 2.\<close>

definition blank_fat_on :: "'s \<Rightarrow> 's fat" where
  "blank_fat_on t = \<lparr>bytes_per_sector = 512, sectors_per_cluster = 1, reserved_sectors = 1, num_fats = 2,
     root_entry_count = 16, sectors_per_fat = 2, total_sectors = 64, fat_start_lba = 1, root_start_lba = 5,
     data_start_lba = 6, total_clusters = 58, fat12_ready = True, fat_data = replicate 1024 0,
     fat_dirty = False, store = t\<rparr>"

abbreviation blank_fat :: "unit fat" where "blank_fat \<equiv> blank_fat_on ()"

lemma blank_fat_get: "fat12_get x (blank_fat_on t) = (if unat x \<le> 681 then Some 0 else None)"
proof (cases "unat x \<le> 681")
  case True
  then have "fat_offset x + 1 < 1024" by (simp add: fat_offset_def)
  then show ?thesis using True by (simp add: fat12_get_def Let_def blank_fat_on_def)
next
  case False
  moreover have "length (fat_data (blank_fat_on t)) = 1024" by (simp add: blank_fat_on_def)
  ultimately show ?thesis using get_in_memory [of "blank_fat_on t" x] by simp
qed

definition cyclic_fat :: "unit fat" where
  "cyclic_fat = the (fat12_set 3 2 (the (fat12_set 2 3 blank_fat)))"

lemma cyclic_fat_get:
  "length (fat_data cyclic_fat) = 1024"
  "fat12_get x cyclic_fat = (if x = 2 then Some 3 else if x = 3 then Some 2 else if unat x \<le> 681 then Some 0 else None)"
proof -
  have l0: "length (fat_data blank_fat) = 1024" by (simp add: blank_fat_on_def)
  have u: "unat (2 :: u16) \<le> 681" "unat (3 :: u16) \<le> 681" by simp_all
  obtain s1 where s1: "fat12_set 2 3 blank_fat = Some s1" using fat_get_set [OF l0, of 2 3] u by blast
  have l1: "length (fat_data s1) = 1024" using fat12_set_fields [OF s1] l0 by simp
  obtain s2 where s2: "fat12_set 3 2 s1 = Some s2"
    using fat12_set_defined [of 3 2 s1] fat12_get_defined [of 3 s1] get_in_memory [OF l1, of 3] u by blast
  have c: "cyclic_fat = s2" by (simp add: cyclic_fat_def s1 s2)
  show "length (fat_data cyclic_fat) = 1024" using fat12_set_fields [OF s2] l1 c by simp
  show "fat12_get x cyclic_fat = (if x = 2 then Some 3 else if x = 3 then Some 2 else if unat x \<le> 681 then Some 0 else None)"
    using fat12_set_same [OF s1] fat12_set_other [OF s1, of x] fat12_set_same [OF s2] fat12_set_other [OF s2, of x]
      fat12_set_other [OF s2, of 2] blank_fat_get [of x "()"] c by (cases "x = 2"; cases "x = 3") simp_all
qed

lemma fat_get_set_witness:
  "\<exists>s'. fat12_set 5 0xFFF blank_fat = Some s' \<and> fat12_get 5 s' = Some 0xFFF \<and> fat12_get 4 s' = Some 0"
proof -
  have l: "length (fat_data blank_fat) = 1024" by (simp add: blank_fat_on_def)
  have "unat (5 :: u16) \<le> 681" by simp
  with fat_get_set [OF l, of 5 "0xFFF"] obtain s' where s': "fat12_set 5 0xFFF blank_fat = Some s'"
    "fat12_get 5 s' = Some (0xFFF AND 0x0FFF)" "\<forall>x. x \<noteq> 5 \<longrightarrow> fat12_get x s' = fat12_get x blank_fat" by blast
  then have "fat12_get 4 s' = Some 0" by (simp add: blank_fat_get)
  with s' show ?thesis by simp
qed

lemma free_chain_returns_witness:
  "\<exists>s'. free_chain 2 cyclic_fat = Some s' \<and> fat12_get 2 s' = Some 0 \<and> fat12_get 3 s' = Some 0"
proof -
  have cl: "fat_closed cyclic_fat"
    using cyclic_fat_get(1) by (auto simp: fat_closed_def cyclic_fat_get(2) in_chain_def split: if_splits)
  have "in_chain 2 \<longrightarrow> unat (2 :: u16) \<le> 681" by simp
  from free_chain_returns [OF cl this] obtain s' where s': "free_chain 2 cyclic_fat = Some s'"
    "\<forall>x. fat12_get x s' = (if x \<in> on_chain cyclic_fat 2 then Some 0 else fat12_get x cyclic_fat)" by blast
  have "2 \<in> on_chain cyclic_fat 2" by (rule on_chain.start) (simp add: in_chain_def)
  moreover from this have "3 \<in> on_chain cyclic_fat 2"
    by (rule on_chain.step) (simp_all add: cyclic_fat_get(2) in_chain_def)
  ultimately show ?thesis using s' by auto
qed

lemma fat83_name_found_witness:
  "\<not> names_match (fat83_to_str (str_to_fat83 (lit ''longname1.txt''))) (lit ''longname1.txt'') \<and>
   names_match (fat83_to_str (str_to_fat83 (lit ''motd.txt''))) (lit ''motd.txt'')"
proof -
  have "dotted (lit ''longname1'') (lit ''txt'') = lit ''longname1.txt''"
    "dotted (lit ''motd'') (lit ''txt'') = lit ''motd.txt''"
    by (simp_all add: dotted_def)
  moreover have "\<forall>c \<in> set (lit ''longname1''). good_char c" "\<forall>c \<in> set (lit ''motd''). good_char c"
    "\<forall>c \<in> set (lit ''txt''). good_char c"
    by (simp_all add: good_char_def)
  ultimately show ?thesis
    using fat83_name_found [of "lit ''longname1''" "lit ''txt''"] fat83_name_found [of "lit ''motd''" "lit ''txt''"]
    by simp
qed

text \<open>A disk with the file \<open>A\<close> of five bytes in cluster 2.\<close>

definition file_a :: "u8 list" where
  "file_a = new_entry (lit ''A'') 2 5"

definition file_disk :: "drive disk" where
  "file_disk = fresh_disk\<lparr>dk_drive := blank_drive\<lparr>dv_store := (\<lambda>_. replicate 512 0)
     (5 := file_a @ replicate 480 0, 6 := replicate 512 65)\<rparr>\<rparr>"

definition file_fat :: "drive disk fat" where
  "file_fat = the (fat12_set 2 0xFFF (blank_fat_on file_disk))"

lemma file_entry:
  "length (file_a) = 32" "read_u16 (file_a) 26 = 2"
  "read_u32 (file_a) 28 = 5" "file_a ! 0 = 65"
  "file_a ! 11 = 0x20" "cstr_of (fat83_to_str (file_a)) = lit ''A''"
  by code_simp+

lemma file_fat_props:
  "fat12_get 2 file_fat = Some 0xFFF" "store file_fat = file_disk" "fat12_ready file_fat"
  "root_entry_count file_fat = 16" "root_start_lba file_fat = 5" "data_start_lba file_fat = 6"
  "sectors_per_cluster file_fat = 1"
proof -
  have l: "length (fat_data (blank_fat_on file_disk)) = 1024" by (simp add: blank_fat_on_def)
  have "unat (2 :: u16) \<le> 681" by simp
  with fat_get_set [OF l, of 2 "0xFFF"] obtain s' where s': "fat12_set 2 0xFFF (blank_fat_on file_disk) = Some s'"
    "fat12_get 2 s' = Some (0xFFF AND 0x0FFF)" by blast
  have "file_fat = s'" by (simp add: file_fat_def s'(1))
  then show "fat12_get 2 file_fat = Some 0xFFF" "store file_fat = file_disk" "fat12_ready file_fat"
    "root_entry_count file_fat = 16" "root_start_lba file_fat = 5" "data_start_lba file_fat = 6"
    "sectors_per_cluster file_fat = 1"
    using s'(2) fat12_set_keeps [OF s'(1)] by (simp_all add: blank_fat_on_def)
qed

lemma file_disk_ok: "cached_ok file_disk"
  using file_entry(1) blank_drive_idle by (simp add: disk_ok_def file_disk_def fresh_disk_def drive_idle_def)

lemma file_disk_view:
  "disk_view dv_store file_disk 5 = file_a @ replicate 480 0"
  "disk_view dv_store file_disk 6 = replicate 512 65"
proof -
  have "cache_find a file_disk = None" for a
    by (simp add: cache_find_def file_disk_def fresh_disk_def find_slot_None)
  then show "disk_view dv_store file_disk 5 = file_a @ replicate 480 0"
    "disk_view dv_store file_disk 6 = replicate 512 65"
    by (simp_all add: disk_view_def) (simp_all add: file_disk_def)
qed

lemma file_found:
  obtains t where "find_entry (disk_sectors drive_ports) (lit ''A'') file_fat =
      Some (Some (file_a, 5, 0), file_fat\<lparr>store := t\<rparr>)"
    "cached_ok t" "disk_view dv_store t = disk_view dv_store file_disk"
proof -
  have g: "cached_ok (store file_fat)" "(5 :: u32) < 0x10000000" by (simp_all add: file_fat_props file_disk_ok)
  obtain t where t: "get_sector (disk_sectors drive_ports) 5 file_fat =
      Some (disk_view dv_store (store file_fat) 5, file_fat\<lparr>store := t\<rparr>)" "cached_ok t"
    "disk_view dv_store t = disk_view dv_store (store file_fat)"
    by (rule fat.get_sector_view [OF g])
  let ?sec = "file_a @ replicate 480 0"
  have e: "dir_entry ?sec 0 = file_a" by (simp add: dir_entry_def file_entry)
  have "[0..<16] = 0 # [Suc 0..<16]" by (rule upt_conv_Cons) simp
  then have "scan_dir (lit ''A'') ?sec [0..<16] = Found 0"
    by (simp only: scan_dir.simps Let_def e file_entry) (simp add: names_match_def)
  then have "find_entry (disk_sectors drive_ports) (lit ''A'') file_fat =
      Some (Some (file_a, 5, 0), file_fat\<lparr>store := t\<rparr>)"
    using t(1) e by (simp add: find_entry_def file_fat_props find_loop.simps file_disk_view)
  then show thesis using that t by (simp add: file_fat_props)
qed

theorem fat12_read_file_witness:
  "\<exists>s'. fat12_read (disk_sectors drive_ports) (lit ''/A'') 100 file_fat = Some (replicate 5 65, s')"
proof -
  obtain t where t: "find_entry (disk_sectors drive_ports) (lit ''A'') file_fat =
      Some (Some (file_a, 5, 0), file_fat\<lparr>store := t\<rparr>)"
    "cached_ok t" "disk_view dv_store t = disk_view dv_store file_disk"
    by (rule file_found)
  let ?s = "file_fat\<lparr>store := t\<rparr>"
  have sl: "strip_slash (lit ''/A'') = lit ''A''" by (simp add: strip_slash_def)
  have ch: "chain ?s (read_u16 (file_a) 26) [2]"
    using file_fat_props(1) by (simp add: file_entry in_chain_def)
  have lba: "cluster_lba ?s 2 = 6" by (simp add: cluster_lba_def file_fat_props)
  have ok: "fat.clusters_ok ?s [2]" using lba by (simp add: fat.clusters_ok_def file_fat_props)
  have bytes: "fat.cluster_bytes ?s 2 = replicate 512 65"
    using lba t(3) by (simp add: fat.cluster_bytes_def file_fat_props fat.sectors_at_Suc file_disk_view)
  have s1: "cached_ok (store ?s)" using t(2) by simp
  have small: "unat (100 :: u32) \<le> 4294966784" by simp
  have "find_entry (disk_sectors drive_ports) (strip_slash (lit ''/A'')) file_fat =
      Some (Some (file_a, 5, 0), ?s)" using t(1) sl by simp
  from fat12_read_file [OF file_fat_props(3) this s1 small, of "[2]"] ch ok bytes
  show ?thesis by (auto simp: file_entry min_def)
qed

end
