(* ===== verification/Calc.thy ===== *)
theory Calc
  imports Prelude "HOL-Library.Signed_Division"
begin

text \<open>
  The integer calculator, \<^verbatim>\<open>kernel/calc.c\<close>: a recursive descent parser that evaluates
  while it reads.  The cursor \<^verbatim>\<open>pos\<close> is the list of bytes still to be read and the
  global \<^verbatim>\<open>error\<close> a flag carried beside it.  Values are 32-bit words and wrap.
  A parse function returns \<open>None\<close> when the processor raises the divide fault, which
  the \<^verbatim>\<open>idiv\<close> instruction does for the quotient \<open>2 ^ 31\<close>; a zero divisor is caught by the
  code before.
\<close>

subsection \<open>The parser\<close>

type_synonym cursor = "cstr \<times> bool" \<comment> \<open>\<^verbatim>\<open>pos\<close> and \<^verbatim>\<open>error\<close>\<close>

fun skip_ws :: "cstr \<Rightarrow> cstr" where
  "skip_ws [] = []"
| "skip_ws (c # cs) = (if c = 32 \<or> c = 9 then skip_ws cs else c # cs)"

definition peek :: "cstr \<Rightarrow> u8" where
  "peek p = (case p of [] \<Rightarrow> 0 | c # cs \<Rightarrow> c)"

definition is_digit :: "u8 \<Rightarrow> bool" where
  "is_digit c \<longleftrightarrow> 48 \<le> c \<and> c \<le> 57"

fun read_number :: "i32 \<Rightarrow> cstr \<Rightarrow> i32 \<times> cstr" where
  "read_number val [] = (val, [])"
| "read_number val (c # cs) =
     (if is_digit c then read_number (val * 10 + (ucast c - 48)) cs else (val, c # cs))"

definition divide_faults :: "i32 \<Rightarrow> i32 \<Rightarrow> bool" where
  "divide_faults a b \<longleftrightarrow> sint a = - 2147483648 \<and> sint b = - 1"

definition idiv :: "i32 \<Rightarrow> i32 \<Rightarrow> i32" where
  "idiv a b = word_of_int (sint a sdiv sint b)"

definition irem :: "i32 \<Rightarrow> i32 \<Rightarrow> i32" where
  "irem a b = word_of_int (sint a smod sint b)"

lemma length_skip_ws: "length (skip_ws p) \<le> length p"
  by (induction p) auto

lemma length_read_number: "length (snd (read_number v p)) \<le> length p"
  by (induction v p rule: read_number.induct) auto

text \<open>
  The four parse functions call each other as in the source; \<open>term_loop\<close> and
  \<open>expr_loop\<close> are the \<^verbatim>\<open>for (;;)\<close> bodies with the value read so far.
\<close>

function (domintros) parse_factor :: "cursor \<Rightarrow> (i32 \<times> cursor) option"
and term_loop :: "i32 \<Rightarrow> cursor \<Rightarrow> (i32 \<times> cursor) option"
and parse_term :: "cursor \<Rightarrow> (i32 \<times> cursor) option"
and expr_loop :: "i32 \<Rightarrow> cursor \<Rightarrow> (i32 \<times> cursor) option"
and parse_expr :: "cursor \<Rightarrow> (i32 \<times> cursor) option" where
  "parse_factor (p0, e) =
     (let p = skip_ws p0 in
      if peek p = 40 then
        (case parse_expr (tl p, e) of None \<Rightarrow> None
         | Some (val, q, e') \<Rightarrow>
             (let q' = skip_ws q
              in if peek q' = 41 then Some (val, tl q', e') else Some (val, q', True)))
      else
        (let neg = (peek p = 45);
             p' = (if neg then skip_ws (tl p) else p)
         in if \<not> is_digit (peek p') then Some (0, p', True)
            else (let (val, q) = read_number 0 p'
                  in Some (if neg then - val else val, q, e))))"
| "term_loop val (p0, e) =
     (let p = skip_ws p0; opr = peek p in
      if opr \<noteq> 42 \<and> opr \<noteq> 47 \<and> opr \<noteq> 37 then Some (val, p, e)
      else (case parse_factor (tl p, e) of None \<Rightarrow> None
            | Some (rhs, q, e') \<Rightarrow>
                if opr = 42 then term_loop (val * rhs) (q, e')
                else if rhs = 0 then Some (0, q, True)
                else if divide_faults val rhs then None
                else if opr = 47 then term_loop (idiv val rhs) (q, e')
                else term_loop (irem val rhs) (q, e')))"
| "parse_term (p, e) =
     (case parse_factor (p, e) of None \<Rightarrow> None | Some (val, c) \<Rightarrow> term_loop val c)"
| "expr_loop val (p0, e) =
     (let p = skip_ws p0; opr = peek p in
      if opr \<noteq> 43 \<and> opr \<noteq> 45 then Some (val, p, e)
      else (case parse_term (tl p, e) of None \<Rightarrow> None
            | Some (rhs, c) \<Rightarrow> expr_loop (if opr = 43 then val + rhs else val - rhs) c))"
| "parse_expr (p, e) =
     (case parse_term (p, e) of None \<Rightarrow> None | Some (val, c) \<Rightarrow> expr_loop val c)"
  by pat_completeness auto

lemma peek_length: "peek p \<noteq> 0 \<Longrightarrow> length (tl p) < length p"
  by (cases p) (auto simp: peek_def)

lemma length_tl_skip: "length (tl (skip_ws p)) \<le> length p"
  using length_skip_ws [of p] by (simp add: diff_le_self [THEN order_trans])

lemma tl_skip_less: "peek (skip_ws p) \<noteq> 0 \<Longrightarrow> length (tl (skip_ws p)) < length p"
  using peek_length [of "skip_ws p"] length_skip_ws [of p] by linarith

lemma skip_op: "peek (skip_ws p) = c \<Longrightarrow> c \<noteq> 0 \<Longrightarrow> length (skip_ws p) - Suc 0 < length p"
  using tl_skip_less [of p] by simp

text \<open>No parse function moves the cursor backwards: the fact its termination needs.\<close>

lemma parse_length:
  "parse_factor_term_loop_parse_term_expr_loop_parse_expr_dom (Inl (Inl c)) \<Longrightarrow>
     parse_factor c = Some (v, q, e') \<Longrightarrow> length q \<le> length (fst c)"
  "parse_factor_term_loop_parse_term_expr_loop_parse_expr_dom (Inl (Inr (a, c))) \<Longrightarrow>
     term_loop a c = Some (v, q, e') \<Longrightarrow> length q \<le> length (fst c)"
  "parse_factor_term_loop_parse_term_expr_loop_parse_expr_dom (Inr (Inl c)) \<Longrightarrow>
     parse_term c = Some (v, q, e') \<Longrightarrow> length q \<le> length (fst c)"
  "parse_factor_term_loop_parse_term_expr_loop_parse_expr_dom (Inr (Inr (Inl (a, c)))) \<Longrightarrow>
     expr_loop a c = Some (v, q, e') \<Longrightarrow> length q \<le> length (fst c)"
  "parse_factor_term_loop_parse_term_expr_loop_parse_expr_dom (Inr (Inr (Inr c))) \<Longrightarrow>
     parse_expr c = Some (v, q, e') \<Longrightarrow> length q \<le> length (fst c)"
proof (induction c and a c and c and a c and c arbitrary: v q e' and v q e' and v q e' and v q e' and v q e'
    rule: parse_factor_term_loop_parse_term_expr_loop_parse_expr.pinduct, goal_cases)
  case (1 p0 e v q e')
  define p where "p = skip_ws p0"
  define p' where "p' = (if peek p = 45 then skip_ws (tl p) else p)"
  have p: "length p \<le> length p0" by (simp add: p_def length_skip_ws)
  have p': "length p' \<le> length p0"
    using p length_skip_ws [of "tl p"] by (auto simp: p'_def)
  show ?case
  proof (cases "peek p = 40")
    case True
    obtain v1 q1 e1 where r: "parse_expr (tl p, e) = Some (v1, q1, e1)"
      and q: "q = skip_ws q1 \<or> q = tl (skip_ws q1)"
      using 1(3) True parse_factor.psimps [OF 1(1)]
      by (auto simp: Let_def p_def [symmetric] split: option.splits if_splits)
    have "length q1 \<le> length (tl p)"
      using 1(2) [OF p_def True r] by simp
    moreover have "length q \<le> length q1"
      using q length_skip_ws [of q1] length_tl_skip [of q1] by blast
    ultimately show ?thesis using p by simp
  next
    case False
    then have "q = p' \<or> (\<exists>w. read_number 0 p' = (w, q))"
      using 1(3) parse_factor.psimps [OF 1(1)]
      by (auto simp: Let_def p_def [symmetric] p'_def split: option.splits if_splits prod.splits)
    then have "length q \<le> length p'"
      using length_read_number [of 0 p'] by auto
    then show ?thesis using p' by simp
  qed
next
  case (2 val p0 e v q e')
  define p where "p = skip_ws p0"
  have p: "length p \<le> length p0" by (simp add: p_def length_skip_ws)
  show ?case
  proof (cases "peek p \<noteq> 42 \<and> peek p \<noteq> 47 \<and> peek p \<noteq> 37")
    case True
    then show ?thesis
      using 2(6) p term_loop.psimps [OF 2(1)] by (simp add: Let_def p_def [symmetric])
  next
    case op: False
    then obtain r q1 e1 where f: "parse_factor (tl p, e) = Some (r, q1, e1)"
      using 2(6) term_loop.psimps [OF 2(1)]
      by (auto simp: Let_def p_def [symmetric] split: option.splits)
    have q1: "length q1 \<le> length p0"
      using 2(2) [OF p_def refl op f] p by simp
    note loops = 2(3) [OF p_def refl op f refl refl] 2(4) [OF p_def refl op f refl refl]
      2(5) [OF p_def refl op f refl refl]
    have step: "term_loop val (p0, e) =
       (if peek p = 42 then term_loop (val * r) (q1, e1)
        else if r = 0 then Some (0, q1, True)
        else if divide_faults val r then None
        else if peek p = 47 then term_loop (idiv val r) (q1, e1)
        else term_loop (irem val r) (q1, e1))"
      using op f by (auto simp: term_loop.psimps [OF 2(1)] Let_def p_def [symmetric])
    have "length q \<le> length q1"
      using 2(6) [unfolded step] loops by (auto split: if_splits)
    then show ?thesis using q1 by simp
  qed
next
  case (3 p e)
  then show ?case 
    by (fastforce simp: parse_term.psimps split: option.splits prod.splits)
next
  case (4 val p0 e v q e')
  define p where "p = skip_ws p0"
  have p: "length p \<le> length p0" by (simp add: p_def length_skip_ws)
  show ?case
  proof (cases "peek p \<noteq> 43 \<and> peek p \<noteq> 45")
    case True
    then show ?thesis
      using 4(4) p expr_loop.psimps [OF 4(1)] by (simp add: Let_def p_def [symmetric])
  next
    case op: False
    then obtain r q1 e1 where f: "parse_term (tl p, e) = Some (r, q1, e1)"
      using 4(4) expr_loop.psimps [OF 4(1)]
      by (auto simp: Let_def p_def [symmetric] split: option.splits)
    have q1: "length q1 \<le> length p0"
      using 4(2) [OF p_def refl op f] p by simp
    have "expr_loop (if peek p = 43 then val + r else val - r) (q1, e1) = Some (v, q, e')"
      using 4(4) op f by (simp add: expr_loop.psimps [OF 4(1)] Let_def p_def [symmetric])
    then have "length q \<le> length q1"
      using 4(3) [OF p_def refl op f refl] by simp
    then show ?thesis using q1 by simp
  qed
next
  case (5 p e)
  then show ?case 
    by (fastforce simp: parse_expr.psimps split: option.splits prod.splits)
qed

termination parse_factor
  by (relation "measure (\<lambda>x. case x of
      Inl (Inl c) \<Rightarrow> 3 * length (fst c) | Inl (Inr (v, c)) \<Rightarrow> 3 * length (fst c)
    | Inr (Inl c) \<Rightarrow> 3 * length (fst c) + 1 | Inr (Inr (Inl (v, c))) \<Rightarrow> 3 * length (fst c)
    | Inr (Inr (Inr c)) \<Rightarrow> 3 * length (fst c) + 2)")
    (auto dest!: parse_length(1) parse_length(3) skip_op)

declare parse_factor.simps [simp del] term_loop.simps [simp del] parse_term.simps [simp del]
  expr_loop.simps [simp del] parse_expr.simps [simp del]

datatype calc_outcome = Divide_fault | Calc_refused | Calc_value i32

definition calc_eval :: "cstr \<Rightarrow> calc_outcome" where
  "calc_eval expr =
     (case parse_expr (expr, False) of None \<Rightarrow> Divide_fault
      | Some (result, p, e) \<Rightarrow>
          if e \<or> peek (skip_ws p) \<noteq> 0 then Calc_refused else Calc_value result)"

subsection \<open>The language of the calculator\<close>

text \<open>
  The trees of the grammar in the source's comment.  The plain \<open>u8 list\<close> arguments
  are white space: before a factor, before a closing parenthesis, between a minus sign
  and its number and before an operator.
\<close>

datatype mul_op = Mul | Div | Rem
datatype add_op = Add | Sub

datatype fac = Num cstr cstr | Neg cstr cstr cstr | Paren cstr expr cstr
  and trm = Fac fac | MulOp trm cstr mul_op fac
  and expr = Trm trm | AddOp expr cstr add_op trm

definition white :: "cstr \<Rightarrow> bool" where
  "white ws \<longleftrightarrow> (\<forall>c \<in> set ws. c = 32 \<or> c = 9)"

fun mul_char :: "mul_op \<Rightarrow> u8" where
  "mul_char Mul = 42" | "mul_char Div = 47" | "mul_char Rem = 37"

fun add_char :: "add_op \<Rightarrow> u8" where
  "add_char Add = 43" | "add_char Sub = 45"

primrec show_fac :: "fac \<Rightarrow> cstr" and show_trm :: "trm \<Rightarrow> cstr" and show_expr :: "expr \<Rightarrow> cstr"
where
  "show_fac (Num n ds) = n @ ds"
| "show_fac (Neg n k ds) = n @ 45 # k @ ds"
| "show_fac (Paren n x k) = n @ 40 # show_expr x @ k @ [41]"
| "show_trm (Fac f) = show_fac f"
| "show_trm (MulOp t n m f) = show_trm t @ n @ mul_char m # show_fac f"
| "show_expr (Trm t) = show_trm t"
| "show_expr (AddOp x n a t) = show_expr x @ n @ add_char a # show_trm t"

text \<open>The numbers of a tree are nonempty runs of digits.\<close>

definition number_ok :: "cstr \<Rightarrow> bool" where
  "number_ok ds \<longleftrightarrow> ds \<noteq> [] \<and> list_all is_digit ds"

primrec fac_ok :: "fac \<Rightarrow> bool" and trm_ok :: "trm \<Rightarrow> bool" and expr_ok :: "expr \<Rightarrow> bool" where
  "fac_ok (Num n ds) = (white n \<and> number_ok ds)"
| "fac_ok (Neg n k ds) = (white n \<and> white k \<and> number_ok ds)"
| "fac_ok (Paren n x k) = (white n \<and> expr_ok x \<and> white k)"
| "trm_ok (Fac f) = fac_ok f"
| "trm_ok (MulOp t n m f) = (trm_ok t \<and> white n \<and> fac_ok f)"
| "expr_ok (Trm t) = trm_ok t"
| "expr_ok (AddOp x n a t) = (expr_ok x \<and> white n \<and> trm_ok t)"

text \<open>
  The value of a tree, left to right; \<open>None\<close> when some division has the divisor 0 or a
  quotient out of range.
\<close>

definition digits_value :: "u8 list \<Rightarrow> i32" where
  "digits_value ds = foldl (\<lambda>v d. v * 10 + (ucast d - 48)) 0 ds"

fun mul_value :: "mul_op \<Rightarrow> i32 \<Rightarrow> i32 \<Rightarrow> i32 option" where
  "mul_value Mul a b = Some (a * b)"
| "mul_value Div a b = (if b = 0 \<or> divide_faults a b then None else Some (idiv a b))"
| "mul_value Rem a b = (if b = 0 \<or> divide_faults a b then None else Some (irem a b))"

fun add_value :: "add_op \<Rightarrow> i32 \<Rightarrow> i32 \<Rightarrow> i32" where
  "add_value Add a b = a + b"
| "add_value Sub a b = a - b"

primrec fac_value :: "fac \<Rightarrow> i32 option" and trm_value :: "trm \<Rightarrow> i32 option"
  and expr_value :: "expr \<Rightarrow> i32 option" where
  "fac_value (Num n ds) = Some (digits_value ds)"
| "fac_value (Neg n k ds) = Some (- digits_value ds)"
| "fac_value (Paren n x k) = expr_value x"
| "trm_value (Fac f) = fac_value f"
| "trm_value (MulOp t n m f) =
     (case trm_value t of None \<Rightarrow> None | Some a \<Rightarrow>
        (case fac_value f of None \<Rightarrow> None | Some b \<Rightarrow> mul_value m a b))"
| "expr_value (Trm t) = trm_value t"
| "expr_value (AddOp x n a t) =
     (case expr_value x of None \<Rightarrow> None | Some v \<Rightarrow>
        (case trm_value t of None \<Rightarrow> None | Some w \<Rightarrow> Some (add_value a v w)))"

subsection \<open>The parser against the language\<close>

lemma skip_white [simp]: "white n \<Longrightarrow> skip_ws (n @ p) = skip_ws p"
  by (induction n) (auto simp: white_def)

lemma skip_ws_solid: "peek p \<noteq> 32 \<Longrightarrow> peek p \<noteq> 9 \<Longrightarrow> skip_ws p = p"
  by (cases p) (auto simp: peek_def)

lemma peek_Cons [simp]: "peek (c # cs) = c"
  by (simp add: peek_def)

lemma read_number_digits:
  "list_all is_digit ds \<Longrightarrow> \<not> is_digit (peek rest) \<Longrightarrow>
   read_number v (ds @ rest) = (foldl (\<lambda>v d. v * 10 + (ucast d - 48)) v ds, rest)"
proof (induction ds arbitrary: v)
  case Nil
  then show ?case by (cases rest) auto
next
  case (Cons d ds)
  then show ?case by simp
qed

lemma digit_start:
  assumes "number_ok ds"
  shows "is_digit (peek (ds @ r))" "skip_ws (ds @ r) = ds @ r"
    "peek (ds @ r) \<noteq> 40" "peek (ds @ r) \<noteq> 45"
proof -
  obtain d ds' where ds: "ds = d # ds'" and d: "is_digit d"
    using assms by (cases ds) (auto simp: number_ok_def)
  then show "is_digit (peek (ds @ r))" by simp
  from d have "d \<noteq> 32" "d \<noteq> 9" "d \<noteq> 40" "d \<noteq> 45" by (auto simp: is_digit_def)
  then show "skip_ws (ds @ r) = ds @ r" "peek (ds @ r) \<noteq> 40" "peek (ds @ r) \<noteq> 45"
    using ds by auto
qed

lemma not_digits [simp]: "\<not> is_digit 0" "\<not> is_digit 32" "\<not> is_digit 40" "\<not> is_digit 41" "\<not> is_digit (mul_char m)"
  "\<not> is_digit (add_char a)"
  by (cases m; simp add: is_digit_def; fail | cases a; simp add: is_digit_def | simp add: is_digit_def)+

lemma skip_ws_idem [simp]: "skip_ws (skip_ws p) = skip_ws p"
  by (induction p) auto

lemma term_loop_skip: "term_loop v (skip_ws p, e) = term_loop v (p, e)"
  by (simp add: term_loop.simps)

lemma expr_loop_skip: "expr_loop v (skip_ws p, e) = expr_loop v (p, e)"
  by (simp add: expr_loop.simps)

lemma term_loop_stop:
  "peek (skip_ws p) \<notin> {42, 47, 37} \<Longrightarrow> term_loop v (p, e) = Some (v, skip_ws p, e)"
  by (simp add: term_loop.simps Let_def)

lemma expr_loop_stop:
  "peek (skip_ws p) \<notin> {43, 45} \<Longrightarrow> expr_loop v (p, e) = Some (v, skip_ws p, e)"
  by (simp add: expr_loop.simps Let_def)

lemma term_loop_step:
  assumes "parse_factor (p, e) = Some (b, rest, e)" "mul_value m a b = Some v" "white n"
  shows "term_loop a (n @ mul_char m # p, e) = term_loop v (rest, e)"
  using assms by (cases m) (auto simp: term_loop.simps [of a "n @ _"] split: if_splits)

lemma expr_loop_step:
  assumes "parse_term (p, e) = Some (b, rest, e)" "white n"
  shows "expr_loop a (n @ add_char op # p, e) = expr_loop (add_value op a b) (rest, e)"
  using assms by (cases op) (auto simp: expr_loop.simps [of a "n @ _"])

lemma not_digit_white: "white n \<Longrightarrow> \<not> is_digit c \<Longrightarrow> \<not> is_digit (peek (n @ c # p))"
  by (cases n) (auto simp: white_def is_digit_def)

lemma op_chars [simp]: "mul_char m \<noteq> 32" "mul_char m \<noteq> 9" "add_char a \<noteq> 32" "add_char a \<noteq> 9"
  "add_char a \<noteq> 42" "add_char a \<noteq> 47" "add_char a \<noteq> 37"
  by (cases m; simp)+ (cases a; simp)+

text \<open>
  What follows a factor must not be a digit, what follows an expression must not be an
  operator of the term level either.
\<close>

lemma parse_show:
  "fac_ok f \<Longrightarrow> fac_value f = Some v \<Longrightarrow> \<not> is_digit (peek rest) \<Longrightarrow>
     parse_factor (show_fac f @ rest, e) = Some (v, rest, e)"
  "trm_ok t \<Longrightarrow> trm_value t = Some v \<Longrightarrow> \<not> is_digit (peek rest) \<Longrightarrow>
     parse_term (show_trm t @ rest, e) = term_loop v (rest, e)"
  "expr_ok x \<Longrightarrow> expr_value x = Some v \<Longrightarrow> \<not> is_digit (peek rest) \<Longrightarrow>
     peek (skip_ws rest) \<notin> {42, 47, 37} \<Longrightarrow>
     parse_expr (show_expr x @ rest, e) = expr_loop v (rest, e)"
proof (induction f and t and x arbitrary: v rest e and v rest e and v rest e)
  case (Num n ds)
  note d = digit_start [OF Num(1) [unfolded fac_ok.simps, THEN conjunct2], of rest]
  have "read_number 0 (ds @ rest) = (digits_value ds, rest)"
    using Num by (simp add: read_number_digits number_ok_def digits_value_def)
  then show ?case
    using Num d by (simp add: parse_factor.simps Let_def)
next
  case (Neg n k ds)
  note d = digit_start [OF Neg(1) [unfolded fac_ok.simps, THEN conjunct2, THEN conjunct2], of rest]
  have "read_number 0 (ds @ rest) = (digits_value ds, rest)"
    using Neg by (simp add: read_number_digits number_ok_def digits_value_def)
  then show ?case
    using Neg d by (simp add: parse_factor.simps Let_def)
next
  case (Paren n x k)
  have "parse_expr (show_expr x @ k @ 41 # rest, e) = expr_loop v (k @ 41 # rest, e)"
    by (rule Paren.IH) (use Paren.prems in \<open>auto simp: not_digit_white\<close>)
  then have "parse_expr (show_expr x @ k @ 41 # rest, e) = Some (v, 41 # rest, e)"
    using Paren.prems by (simp add: expr_loop_stop)
  then show ?case
    using Paren.prems by (simp add: parse_factor.simps Let_def)
next
  case (Fac f)
  then show ?case by (simp add: parse_term.simps)
next
  case (MulOp t n m f)
  obtain a b where ab: "trm_value t = Some a" "fac_value f = Some b" "mul_value m a b = Some v"
    using MulOp.prems by (auto split: option.splits)
  have "parse_term (show_trm t @ n @ mul_char m # show_fac f @ rest, e)
      = term_loop a (n @ mul_char m # show_fac f @ rest, e)"
    by (rule MulOp.IH(1)) (use MulOp.prems ab in \<open>auto simp: not_digit_white\<close>)
  also have "\<dots> = term_loop v (rest, e)"
    by (rule term_loop_step [OF MulOp.IH(2) ab(3)]) (use MulOp.prems ab in auto)
  finally show ?case by simp
next
  case (Trm t)
  then show ?case by (simp add: parse_expr.simps term_loop_stop expr_loop_skip)
next
  case (AddOp x n a t)
  obtain b c where bc: "expr_value x = Some b" "trm_value t = Some c" "v = add_value a b c"
    using AddOp.prems by (auto split: option.splits)
  have "parse_term (show_trm t @ rest, e) = Some (c, skip_ws rest, e)"
    using AddOp.IH(2) [of c rest e] AddOp.prems bc by (simp add: term_loop_stop)
  then have "expr_loop b (n @ add_char a # show_trm t @ rest, e) = expr_loop v (rest, e)"
    using AddOp.prems by (simp add: expr_loop_step bc expr_loop_skip)
  moreover have "parse_expr (show_expr x @ n @ add_char a # show_trm t @ rest, e)
      = expr_loop b (n @ add_char a # show_trm t @ rest, e)"
    by (rule AddOp.IH(1)) (use AddOp.prems bc in \<open>auto simp: not_digit_white\<close>)
  ultimately show ?case by simp
qed

text \<open>
  The error flag is sticky: no parse function clears it, so whatever follows the first
  error the expression is refused (or faults, which the code does not prevent).
\<close>

lemma parse_sticky:
  "parse_factor c = Some (v, q, e') \<Longrightarrow> snd c \<Longrightarrow> e'"
  "term_loop a c = Some (v, q, e') \<Longrightarrow> snd c \<Longrightarrow> e'"
  "parse_term c = Some (v, q, e') \<Longrightarrow> snd c \<Longrightarrow> e'"
  "expr_loop a c = Some (v, q, e') \<Longrightarrow> snd c \<Longrightarrow> e'"
  "parse_expr c = Some (v, q, e') \<Longrightarrow> snd c \<Longrightarrow> e'"
proof (induction c and a c and c and a c and c arbitrary: v q e' and v q e' and v q e' and v q e' and v q e'
    rule: parse_factor_term_loop_parse_term_expr_loop_parse_expr.induct, goal_cases)
  case prems: (1 p0 e v q e')
  then show ?case
    by (fastforce simp: parse_factor.simps [of p0] Let_def split: option.splits if_splits prod.splits)
next
  case prems: (2 val p0 e v q e')
  then show ?case
    by (fastforce simp: term_loop.simps [of val p0] Let_def split: option.splits if_splits prod.splits)
next
  case prems: (3 p e v q e')
  then show ?case
    by (fastforce simp: parse_term.simps [of p] split: option.splits prod.splits)
next
  case prems: (4 val p0 e v q e')
  then show ?case
    by (fastforce simp: expr_loop.simps [of val p0] Let_def split: option.splits if_splits prod.splits)
next
  case prems: (5 p e v q e')
  then show ?case
    by (fastforce simp: parse_expr.simps [of p] split: option.splits prod.splits)
qed

text \<open>Conversely, a cursor moved without an error moved over a tree.\<close>

lemma skip_ws_split: "\<exists>ws. white ws \<and> p = ws @ skip_ws p"
proof (induction p)
  case Nil
  then show ?case by (auto simp: white_def)
next
  case (Cons c p)
  then obtain ws where ws: "white ws" "p = ws @ skip_ws p" by blast
  show ?case
  proof (cases "c = 32 \<or> c = 9")
    case True
    then have "white (c # ws)" "c # p = (c # ws) @ skip_ws (c # p)"
      using ws by (auto simp: white_def)
    then show ?thesis by blast
  next
    case False
    then show ?thesis by (intro exI [of _ "[]"]) (auto simp: white_def)
  qed
qed

lemma white_append [simp]: "white (a @ b) \<longleftrightarrow> white a \<and> white b"
  by (auto simp: white_def)

lemma white_Nil [simp]: "white []"
  by (simp add: white_def)

lemma read_number_split:
  "read_number v p = (w, q) \<Longrightarrow>
   \<exists>ds. list_all is_digit ds \<and> w = foldl (\<lambda>v d. v * 10 + (ucast d - 48)) v ds \<and> p = ds @ q"
proof (induction v p rule: read_number.induct)
  case (1 val)
  then show ?case by (intro exI [of _ "[]"]) auto
next
  case (2 val c cs)
  show ?case
  proof (cases "is_digit c")
    case True
    with 2 obtain ds where "list_all is_digit ds" "cs = ds @ q"
      "w = foldl (\<lambda>v d. v * 10 + (ucast d - 48)) (val * 10 + (ucast c - 48)) ds"
      by auto
    with True show ?thesis by (intro exI [of _ "c # ds"]) auto
  next
    case False
    with 2 show ?thesis by (intro exI [of _ "[]"]) auto
  qed
qed

lemma read_number_number:
  assumes "read_number 0 p = (w, q)" "is_digit (peek p)"
  shows "\<exists>ds. number_ok ds \<and> w = digits_value ds \<and> p = ds @ q"
proof -
  obtain ds where ds: "list_all is_digit ds" "w = foldl (\<lambda>v d. v * 10 + (ucast d - 48)) 0 ds"
    "p = ds @ q"
    using read_number_split [OF assms(1)] by blast
  have "ds \<noteq> []"
  proof
    assume "ds = []"
    then have pq: "p = q" using ds by simp
    obtain c cs where c: "p = c # cs" "is_digit c"
      using assms(2) by (cases p) (auto simp: peek_def)
    have "length (snd (read_number 0 p)) \<le> length cs"
      using c by (simp add: length_read_number)
    then have "length q \<le> length cs" unfolding assms(1) by simp
    moreover have "length q = Suc (length cs)" unfolding pq [symmetric] c(1) by simp
    ultimately show False by simp
  qed
  then show ?thesis using ds by (auto simp: number_ok_def digits_value_def)
qed

lemma peek_hd: "peek p = c \<Longrightarrow> c \<noteq> 0 \<Longrightarrow> p = c # tl p"
  by (cases p) (auto simp: peek_def)

lemma tl_skip_shorter: "skip_ws p = c # tl (skip_ws p) \<Longrightarrow> length (tl (skip_ws p)) < length p"
  using length_skip_ws [of p] by (metis Suc_le_lessD length_Cons)

lemma parse_factor_shape:
  assumes "parse_factor (p0, False) = Some (v, q, False)" "p = skip_ws p0"
  obtains (paren) q1 where "p = 40 # tl p" "parse_expr (tl p, False) = Some (v, q1, False)"
      "skip_ws q1 = 41 # q"
  | (neg) w where "p = 45 # tl p" "is_digit (peek (skip_ws (tl p)))"
      "read_number 0 (skip_ws (tl p)) = (w, q)" "v = - w"
  | (num) "is_digit (peek p)" "read_number 0 p = (v, q)"
proof (cases "peek p = 40")
  case True
  obtain q1 e1 where q1: "parse_expr (tl p, False) = Some (v, q1, e1)" "peek (skip_ws q1) = 41"
    "q = tl (skip_ws q1)" "\<not> e1"
    using assms True by (auto simp: parse_factor.simps [of p0] Let_def split: option.splits if_splits)
  then show thesis
    using paren [of q1] True peek_hd [of p 40] peek_hd [of "skip_ws q1" 41] by simp
next
  case False
  show thesis
  proof (cases "peek p = 45")
    case True
    then show thesis
      using assms neg peek_hd [of p 45]
      by (auto simp: parse_factor.simps [of p0] Let_def split: if_splits prod.splits)
  next
    case F: False
    then show thesis
      using assms num False
      by (auto simp: parse_factor.simps [of p0] Let_def split: if_splits prod.splits)
  qed
qed

lemma term_loop_shape:
  assumes "term_loop a (p0, False) = Some (v, q, False)" "p = skip_ws p0"
  obtains (stop) "v = a" "q = p"
  | (step) m b r c where "p = mul_char m # tl p" "parse_factor (tl p, False) = Some (b, r, False)"
      "mul_value m a b = Some c" "term_loop c (r, False) = Some (v, q, False)"
proof (cases "peek p \<noteq> 42 \<and> peek p \<noteq> 47 \<and> peek p \<noteq> 37")
  case True
  then show thesis using assms stop by (auto simp: term_loop.simps [of a p0] Let_def)
next
  case op: False
  then obtain b r e1 where f: "parse_factor (tl p, False) = Some (b, r, e1)"
    using assms by (auto simp: term_loop.simps [of a p0] Let_def split: option.splits)
  have e: "e1 \<Longrightarrow> term_loop c (r, e1) \<noteq> Some (v, q, False)" for c
    using parse_sticky(2) [of c "(r, e1)" v q False] by auto
  consider "peek p = 42" | "peek p = 47" | "peek p = 37" using op by blast
  then show thesis
  proof cases
    case 1
    then have "term_loop (a * b) (r, e1) = Some (v, q, False)"
      using assms f by (auto simp: term_loop.simps [of a p0] Let_def)
    then show thesis
      using step [of Mul b r "a * b"] f e 1 peek_hd [of p 42] by (cases e1) auto
  next
    case 2
    then have "term_loop (idiv a b) (r, e1) = Some (v, q, False)" "b \<noteq> 0" "\<not> divide_faults a b"
      using assms f by (auto simp: term_loop.simps [of a p0] Let_def split: if_splits)
    then show thesis
      using step [of Div b r "idiv a b"] f e 2 peek_hd [of p 47] by (cases e1) auto
  next
    case 3
    then have "term_loop (irem a b) (r, e1) = Some (v, q, False)" "b \<noteq> 0" "\<not> divide_faults a b"
      using assms f by (auto simp: term_loop.simps [of a p0] Let_def split: if_splits)
    then show thesis
      using step [of Rem b r "irem a b"] f e 3 peek_hd [of p 37] by (cases e1) auto
  qed
qed

lemma expr_loop_shape:
  assumes "expr_loop a (p0, False) = Some (v, q, False)" "p = skip_ws p0"
  obtains (stop) "v = a" "q = p"
  | (step) m b r where "p = add_char m # tl p" "parse_term (tl p, False) = Some (b, r, False)"
      "expr_loop (add_value m a b) (r, False) = Some (v, q, False)"
proof (cases "peek p \<noteq> 43 \<and> peek p \<noteq> 45")
  case True
  then show thesis using assms stop by (auto simp: expr_loop.simps [of a p0] Let_def)
next
  case op: False
  then obtain b r e1 where f: "parse_term (tl p, False) = Some (b, r, e1)"
    using assms by (auto simp: expr_loop.simps [of a p0] Let_def split: option.splits)
  have e: "e1 \<Longrightarrow> expr_loop c (r, e1) \<noteq> Some (v, q, False)" for c
    using parse_sticky(4) [of c "(r, e1)" v q False] by auto
  consider "peek p = 43" | "peek p = 45" using op by blast
  then show thesis
  proof cases
    case 1
    then have "expr_loop (a + b) (r, e1) = Some (v, q, False)"
      using assms f by (auto simp: expr_loop.simps [of a p0] Let_def)
    then show thesis
      using step [of Add b r] f e 1 peek_hd [of p 43] by (cases e1) auto
  next
    case 2
    then have "expr_loop (a - b) (r, e1) = Some (v, q, False)"
      using assms f by (auto simp: expr_loop.simps [of a p0] Let_def split: if_splits)
    then show thesis
      using step [of Sub b r] f e 2 peek_hd [of p 45] by (cases e1) auto
  qed
qed

lemma parse_dom:
  "parse_factor_term_loop_parse_term_expr_loop_parse_expr_dom (Inl (Inl c))"
  "parse_factor_term_loop_parse_term_expr_loop_parse_expr_dom (Inl (Inr (a, c)))"
  "parse_factor_term_loop_parse_term_expr_loop_parse_expr_dom (Inr (Inl c))"
  "parse_factor_term_loop_parse_term_expr_loop_parse_expr_dom (Inr (Inr (Inl (a, c))))"
  "parse_factor_term_loop_parse_term_expr_loop_parse_expr_dom (Inr (Inr (Inr c)))"
proof (induction c and a c and c and a c and c
    rule: parse_factor_term_loop_parse_term_expr_loop_parse_expr.induct, goal_cases)
  case (1 p0 e)
  show ?case 
    by (rule parse_factor_term_loop_parse_term_expr_loop_parse_expr.domintros) (use 1 in auto)
next
  case (2 val p0 e)
  show ?case 
    by (rule parse_factor_term_loop_parse_term_expr_loop_parse_expr.domintros) (use 2 in auto)
next
  case (3 p e)
  show ?case 
    by (rule parse_factor_term_loop_parse_term_expr_loop_parse_expr.domintros) (use 3 in auto)
next
  case (4 val p0 e)
  show ?case 
    by (rule parse_factor_term_loop_parse_term_expr_loop_parse_expr.domintros) (use 4 in auto)
next
  case (5 p e)
  show ?case 
    by (rule parse_factor_term_loop_parse_term_expr_loop_parse_expr.domintros) (use 5 in auto)
qed


lemmas parse_shorter = parse_length(1) [OF parse_dom(1)] parse_length(2) [OF parse_dom(2)]
  parse_length(3) [OF parse_dom(3)] parse_length(4) [OF parse_dom(4)]
  parse_length(5) [OF parse_dom(5)]

text \<open>What the five functions read, on texts shorter than \<open>n\<close>; the loops continue a tree already read.\<close>

definition reads_fac :: "nat \<Rightarrow> bool" where
  "reads_fac n \<longleftrightarrow> (\<forall>p v q. length p < n \<longrightarrow> parse_factor (p, False) = Some (v, q, False) \<longrightarrow>
      (\<exists>f. fac_ok f \<and> fac_value f = Some v \<and> p = show_fac f @ q))"

definition reads_mul :: "nat \<Rightarrow> bool" where
  "reads_mul n \<longleftrightarrow> (\<forall>p t a v q. length p < n \<longrightarrow> term_loop a (p, False) = Some (v, q, False) \<longrightarrow>
      trm_ok t \<longrightarrow> trm_value t = Some a \<longrightarrow>
      (\<exists>t' ws. trm_ok t' \<and> trm_value t' = Some v \<and> white ws \<and> show_trm t @ p = show_trm t' @ ws @ q))"

definition reads_trm :: "nat \<Rightarrow> bool" where
  "reads_trm n \<longleftrightarrow> (\<forall>p v q. length p < n \<longrightarrow> parse_term (p, False) = Some (v, q, False) \<longrightarrow>
      (\<exists>t ws. trm_ok t \<and> trm_value t = Some v \<and> white ws \<and> p = show_trm t @ ws @ q))"

definition reads_add :: "nat \<Rightarrow> bool" where
  "reads_add n \<longleftrightarrow> (\<forall>p x us a v q. length p < n \<longrightarrow> expr_loop a (p, False) = Some (v, q, False) \<longrightarrow>
      expr_ok x \<longrightarrow> expr_value x = Some a \<longrightarrow> white us \<longrightarrow>
      (\<exists>x' ws. expr_ok x' \<and> expr_value x' = Some v \<and> white ws \<and>
         show_expr x @ us @ p = show_expr x' @ ws @ q))"

definition reads_expr :: "nat \<Rightarrow> bool" where
  "reads_expr n \<longleftrightarrow> (\<forall>p v q. length p < n \<longrightarrow> parse_expr (p, False) = Some (v, q, False) \<longrightarrow>
      (\<exists>x ws. expr_ok x \<and> expr_value x = Some v \<and> white ws \<and> p = show_expr x @ ws @ q))"

lemmas reads_defs = reads_fac_def reads_mul_def reads_trm_def reads_add_def reads_expr_def

lemma fac_reads:
  assumes "reads_expr n"
  shows "reads_fac (Suc n)"
  unfolding reads_fac_def
proof (intro allI impI)
  note IHx = assms [unfolded reads_expr_def, rule_format]
  fix p v q
  assume len: "length p < Suc n" and r: "parse_factor (p, False) = Some (v, q, False)"
  show "\<exists>f. fac_ok f \<and> fac_value f = Some v \<and> p = show_fac f @ q"
  proof -
    obtain n0 where n0: "white n0" "p = n0 @ skip_ws p" using skip_ws_split by blast
    from r refl show ?thesis
    proof (cases rule: parse_factor_shape)
      case (paren q1)
      have "length (tl (skip_ws p)) < n"
        using len tl_skip_shorter [OF paren(1)] by simp
      then obtain x ws where x: "expr_ok x" "expr_value x = Some v" "white ws"
        "tl (skip_ws p) = show_expr x @ ws @ q1"
        using IHx paren(2) by blast
      obtain k where k: "white k" "q1 = k @ skip_ws q1" using skip_ws_split by blast
      have "p = show_fac (Paren n0 x (ws @ k)) @ q"
        using n0 paren x k by (metis append.assoc append_Cons append_Nil show_fac.simps(3))
      then show ?thesis using n0 x k by (intro exI [of _ "Paren n0 x (ws @ k)"]) simp
    next
      case (neg w)
      obtain k where k: "white k" "tl (skip_ws p) = k @ skip_ws (tl (skip_ws p))"
        using skip_ws_split by blast
      obtain ds where ds: "number_ok ds" "w = digits_value ds" "skip_ws (tl (skip_ws p)) = ds @ q"
        using read_number_number [OF neg(3,2)] by blast
      have "p = show_fac (Neg n0 k ds) @ q"
        using n0 neg k ds by (metis append.assoc append_Cons show_fac.simps(2))
      then show ?thesis using n0 k ds neg by (intro exI [of _ "Neg n0 k ds"]) simp
    next
      case num
      then obtain ds where ds: "number_ok ds" "v = digits_value ds" "skip_ws p = ds @ q"
        using read_number_number [OF num(2,1)] by blast
      have "p = show_fac (Num n0 ds) @ q"
        using n0 ds by simp
      then show ?thesis using n0 ds by (intro exI [of _ "Num n0 ds"]) simp
    qed
  qed
qed

lemma mul_reads:
  assumes "reads_fac n" "reads_mul n"
  shows "reads_mul (Suc n)"
  unfolding reads_mul_def
proof (intro allI impI)
  note IHf = assms(1) [unfolded reads_fac_def, rule_format] and IHt = assms(2) [unfolded reads_mul_def, rule_format]
  fix p t a v q
  assume len: "length p < Suc n" and r: "term_loop a (p, False) = Some (v, q, False)" and t: "trm_ok t" "trm_value t = Some a"
  show "\<exists>t' ws. trm_ok t' \<and> trm_value t' = Some v \<and> white ws \<and> show_trm t @ p = show_trm t' @ ws @ q"
  proof -
    obtain n0 where n0: "white n0" "p = n0 @ skip_ws p" using skip_ws_split by blast
    from r refl show ?thesis
    proof (cases rule: term_loop_shape)
      case stop
      then show ?thesis using n0 t by metis
    next
      case (step m b r c)
      have l: "length (tl (skip_ws p)) < n"
        using len tl_skip_shorter [OF step(1)] by simp
      then obtain f where f: "fac_ok f" "fac_value f = Some b" "tl (skip_ws p) = show_fac f @ r"
        using IHf step(2) by blast
      let ?t = "MulOp t n0 m f"
      have "trm_ok ?t" "trm_value ?t = Some c" "length r < n"
        using t n0 f step l by auto
      then obtain t' ws where "trm_ok t'" "trm_value t' = Some v" "white ws"
        "show_trm ?t @ r = show_trm t' @ ws @ q"
        using IHt step(4) by blast
      moreover have "show_trm t @ p = show_trm ?t @ r"
        using n0 step(1) f(3) by (metis append.assoc append_Cons show_trm.simps(2))
      ultimately show ?thesis by metis
    qed
  qed
qed

lemma trm_reads:
  assumes "reads_fac n" "reads_mul n"
  shows "reads_trm n"
  unfolding reads_trm_def
proof (intro allI impI)
  note f = assms(1) [unfolded reads_fac_def, rule_format] and t = assms(2) [unfolded reads_mul_def, rule_format]
  fix p v q
  assume len: "length p < n" and r: "parse_term (p, False) = Some (v, q, False)"
  show "\<exists>t ws. trm_ok t \<and> trm_value t = Some v \<and> white ws \<and> p = show_trm t @ ws @ q"
  proof -
    obtain a r e where fr: "parse_factor (p, False) = Some (a, r, e)" "term_loop a (r, e) = Some (v, q, False)"
      using r by (auto simp: parse_term.simps split: option.splits)
    have e: "\<not> e" using parse_sticky(2) [OF fr(2)] by auto
    then obtain g where g: "fac_ok g" "fac_value g = Some a" "p = show_fac g @ r"
      using f [OF len] fr(1) by auto
    have "length r < n" using len g by simp
    from t [OF this, of a v q "Fac g"] show ?thesis using fr(2) e g by auto
  qed
qed

lemma add_reads:
  assumes "reads_trm n" "reads_add n"
  shows "reads_add (Suc n)"
  unfolding reads_add_def
proof (intro allI impI)
  note IHp = assms(1) [unfolded reads_trm_def, rule_format] and IHe = assms(2) [unfolded reads_add_def, rule_format]
  fix p x us a v q
  assume len: "length p < Suc n" and r: "expr_loop a (p, False) = Some (v, q, False)"
    and x: "expr_ok x" "expr_value x = Some a" "white us"
  show "\<exists>x' ws. expr_ok x' \<and> expr_value x' = Some v \<and> white ws \<and> show_expr x @ us @ p = show_expr x' @ ws @ q"
  proof -
    obtain n0 where n0: "white n0" "p = n0 @ skip_ws p" using skip_ws_split by blast
    from r refl show ?thesis
    proof (cases rule: expr_loop_shape)
      case stop
      have "white (us @ n0)" "show_expr x @ us @ p = show_expr x @ (us @ n0) @ q"
        using n0 x stop by auto
      then show ?thesis using x stop by metis
    next
      case (step m b r)
      have l: "length (tl (skip_ws p)) < n"
        using len tl_skip_shorter [OF step(1)] by simp
      then obtain t ws where t: "trm_ok t" "trm_value t = Some b" "white ws"
        "tl (skip_ws p) = show_trm t @ ws @ r"
        using IHp step(2) by blast
      let ?x = "AddOp x (us @ n0) m t"
      have "expr_ok ?x" "expr_value ?x = Some (add_value m a b)" "length r < n"
        using x n0 t step l by auto
      then obtain x' ws' where "expr_ok x'" "expr_value x' = Some v" "white ws'"
        "show_expr ?x @ ws @ r = show_expr x' @ ws' @ q"
        using IHe [OF _ step(3)] t(3) by metis
      moreover have "show_expr x @ us @ p = show_expr ?x @ ws @ r"
        using n0 step(1) t(4) by (metis append.assoc append_Cons show_expr.simps(2))
      ultimately show ?thesis by metis
    qed
  qed
qed

lemma expr_reads:
  assumes "reads_trm n" "reads_add n"
  shows "reads_expr n"
  unfolding reads_expr_def
proof (intro allI impI)
  note p = assms(1) [unfolded reads_trm_def, rule_format] and e = assms(2) [unfolded reads_add_def, rule_format]
  fix p v q
  assume len: "length p < n" and r: "parse_expr (p, False) = Some (v, q, False)"
  show "\<exists>x ws. expr_ok x \<and> expr_value x = Some v \<and> white ws \<and> p = show_expr x @ ws @ q"
  proof -
    obtain a r ee where fr: "parse_term (p, False) = Some (a, r, ee)" "expr_loop a (r, ee) = Some (v, q, False)"
      using r by (auto simp: parse_expr.simps split: option.splits)
    have ee: "\<not> ee" using parse_sticky(4) [OF fr(2)] by auto
    then obtain g ws where g: "trm_ok g" "trm_value g = Some a" "white ws" "p = show_trm g @ ws @ r"
      using p [OF len] fr(1) by auto
    have "length r < n" using len g by simp
    from e [OF this, of a v q "Trm g" ws] show ?thesis using fr(2) ee g by auto
  qed
qed

lemma parse_reads_tree: "reads_fac n \<and> reads_mul n \<and> reads_trm n \<and> reads_add n \<and> reads_expr n"
proof (induction n)
  case (Suc n)
  then show ?case using fac_reads mul_reads trm_reads add_reads expr_reads by metis
qed (simp add: reads_defs)

lemma calc_eval_reads_tree:
  assumes "calc_eval s = Calc_value v" "is_cstr s"
  shows "\<exists>x ws. expr_ok x \<and> expr_value x = Some v \<and> white ws \<and> s = show_expr x @ ws"
proof -
  obtain q where q: "parse_expr (s, False) = Some (v, q, False)" "peek (skip_ws q) = 0"
    using assms by (auto simp: calc_eval_def split: option.splits prod.splits if_splits)
  obtain x ws where x: "expr_ok x" "expr_value x = Some v" "white ws" "s = show_expr x @ ws @ q"
    using parse_reads_tree [of "Suc (length s)", unfolded reads_defs, THEN conjunct2, THEN conjunct2, THEN conjunct2,
      THEN conjunct2, rule_format, OF lessI q(1)] by blast
  obtain k where k: "white k" "q = k @ skip_ws q" using skip_ws_split by blast
  have "set (skip_ws q) \<subseteq> set s"
    using x(4) k(2) by (metis Un_iff set_append subsetI)
  then have "skip_ws q = []"
    using q(2) assms(2) by (cases "skip_ws q") (auto simp: peek_def is_cstr_def)
  then show ?thesis
    using x k by (intro exI [of _ x] exI [of _ "ws @ k"]) auto
qed

lemma calc_eval_show:
  assumes "expr_ok x" "expr_value x = Some v" "white ws"
  shows "calc_eval (show_expr x @ ws) = Calc_value v"
proof -
  have "skip_ws ws = []"
    using skip_white [OF assms(3), of "[]"] by simp
  moreover have "\<not> is_digit (peek ws)"
    using assms(3) by (cases ws) (auto simp: white_def peek_def is_digit_def)
  ultimately have "parse_expr (show_expr x @ ws, False) = Some (v, [], False)"
    using parse_show(3) [of x v ws False] assms by (simp add: expr_loop_stop peek_def)
  then show ?thesis by (simp add: calc_eval_def peek_def)
qed

text \<open>
  The quotient the code does not guard: the most negative number over minus one.
\<close>

lemma calc_eval_faults: "calc_eval (lit ''(0-2147483647-1)/-1'') = Divide_fault"
  by code_simp

subsection \<open>Properties\<close>

text \<open>
  C16: the calculator is an evaluator for its grammar, no more and no less: for every
  string of bytes without a NUL it returns a value exactly when the string is
  an expression of the grammar (with white space anywhere between its tokens and at
  its end) that divides by zero nowhere, and the value is that of the tree, computed
  left to right with multiplication binding tighter, in 32-bit arithmetic that wraps.
  The parser terminates on every input.
\<close>

theorem calc_eval_exact:
  assumes "is_cstr s"
  shows "calc_eval s = Calc_value v \<longleftrightarrow>
    (\<exists>x ws. s = show_expr x @ ws \<and> expr_ok x \<and> white ws \<and> expr_value x = Some v)"
  using calc_eval_reads_tree [OF _ assms] calc_eval_show by blast

theorem calc_eval_exact_witness:
  "calc_eval (lit ''7 - (2+3)*2 '') = Calc_value (- 3)"
proof -
  let ?n = "\<lambda>d. Fac (Num [] [d])"
  let ?x = "AddOp (Trm (?n 55)) [32] Sub
     (MulOp (Fac (Paren [32] (AddOp (Trm (?n 50)) [] Add (?n 51)) [])) [] Mul (Num [] [50]))"
  have c: "is_cstr (lit ''7 - (2+3)*2 '')"
    by (simp add: is_cstr_def of_char_def)
  have "lit ''7 - (2+3)*2 '' = show_expr ?x @ [32]" "expr_ok ?x" "white [32]"
    "expr_value ?x = Some (- 3)"
    by (simp_all add: of_char_def number_ok_def is_digit_def white_def digits_value_def)
  then show ?thesis
    using calc_eval_exact [OF c, of "- 3"] by blast
qed

end
