(* ===== verification/Keyboard.thy ===== *)
theory Keyboard
  imports Prelude
begin

text \<open>
  The keyboard driver (\<^verbatim>\<open>kernel/keyboard.c\<close>) and the terminal decoder over it
  (\<^verbatim>\<open>kernel/terminal.c\<close>).  The interrupt handler is given the byte that port 0x60
  returns; the rest of its state is the file's five static variables.
\<close>

unbundle bit_operations_syntax

subsection \<open>Scancode tables\<close>

definition sc_ascii :: "u8 list" where
  "sc_ascii = [
    0, 0, 49, 50, 51, 52, 53, 54,
    55, 56, 57, 48, 45, 61, 8, 9,
    113, 119, 101, 114, 116, 121, 117, 105,
    111, 112, 91, 93, 10, 0, 97, 115,
    100, 102, 103, 104, 106, 107, 108, 59,
    39, 96, 0, 92, 122, 120, 99, 118,
    98, 110, 109, 44, 46, 47, 0, 42,
    0, 32]"

definition sc_ascii_shift :: "u8 list" where
  "sc_ascii_shift = [
    0, 0, 33, 64, 35, 36, 37, 94,
    38, 42, 40, 41, 95, 43, 8, 9,
    81, 87, 69, 82, 84, 89, 85, 73,
    79, 80, 123, 125, 10, 0, 65, 83,
    68, 70, 71, 72, 74, 75, 76, 58,
    34, 126, 0, 124, 90, 88, 67, 86,
    66, 78, 77, 60, 62, 63, 0, 42,
    0, 32]"

definition SC_TABLE_SIZE :: nat where "SC_TABLE_SIZE = length sc_ascii"

subsection \<open>The driver\<close>

record keyboard =
  last_char :: u8
  shift_held :: bool
  ctrl_held :: bool
  ext_pending :: bool
  last_ext_sc :: u8

definition with_ctrl :: "bool \<Rightarrow> u8 \<Rightarrow> u8" where
  "with_ctrl ctrl c =
     (if ctrl \<and> 97 \<le> c \<and> c \<le> 122 then c - 96
      else if ctrl \<and> 65 \<le> c \<and> c \<le> 90 then c - 64 else c)"

definition keyboard_irq_handler :: "u8 \<Rightarrow> keyboard \<Rightarrow> keyboard" where
  "keyboard_irq_handler sc k =
     (if sc = 0x00 \<or> sc = 0xFF then k
      else if sc = 0xE0 then k\<lparr>ext_pending := True\<rparr>
      else if ext_pending k then
        (let k = k\<lparr>ext_pending := False\<rparr>
         in if sc AND 0x80 = 0 then k\<lparr>last_ext_sc := sc\<rparr> else k)
      else if sc AND 0x80 \<noteq> 0 then
        (let released = sc AND 0x7F;
             k = (if released = 0x2A \<or> released = 0x36 then k\<lparr>shift_held := False\<rparr> else k)
         in if released = 0x1D then k\<lparr>ctrl_held := False\<rparr> else k)
      else if sc = 0x2A \<or> sc = 0x36 then k\<lparr>shift_held := True\<rparr>
      else if sc = 0x1D then k\<lparr>ctrl_held := True\<rparr>
      else if SC_TABLE_SIZE \<le> unat sc then k
      else (let c = (if shift_held k then sc_ascii_shift else sc_ascii) ! unat sc
            in if c \<noteq> 0 then k\<lparr>last_char := with_ctrl (ctrl_held k) c\<rparr> else k))"

text \<open>
  \<^verbatim>\<open>keyboard_init\<close> drains the controller: \<open>status\<close> and \<open>data\<close> are the reads of ports 0x64
  and 0x60 on the controller's state.
\<close>

partial_function (option) flush_controller ::
    "('c \<Rightarrow> u8 \<times> 'c) \<Rightarrow> ('c \<Rightarrow> u8 \<times> 'c) \<Rightarrow> 'c \<Rightarrow> 'c option" where
  "flush_controller status data c =
     (if fst (status c) AND 1 \<noteq> 0 then flush_controller status data (snd (data (snd (status c))))
      else Some (snd (status c)))"

definition keyboard_init ::
    "('c \<Rightarrow> u8 \<times> 'c) \<Rightarrow> ('c \<Rightarrow> u8 \<times> 'c) \<Rightarrow> 'c \<Rightarrow> (keyboard \<times> 'c) option" where
  "keyboard_init status data c =
     map_option (Pair \<lparr>last_char = 0, shift_held = False, ctrl_held = False, ext_pending = False,
       last_ext_sc = 0\<rparr>) (flush_controller status data c)"

definition keyboard_getchar :: "keyboard \<Rightarrow> u8 \<times> keyboard" where
  "keyboard_getchar k = (last_char k, k\<lparr>last_char := 0\<rparr>)"

definition keyboard_get_ext :: "keyboard \<Rightarrow> u8 \<times> keyboard" where
  "keyboard_get_ext k = (last_ext_sc k, k\<lparr>last_ext_sc := 0\<rparr>)"

subsection \<open>Terminal events\<close>

datatype term_key_type = TERM_CHAR | TERM_UP | TERM_DOWN | TERM_LEFT | TERM_RIGHT | TERM_HOME
  | TERM_END | TERM_DEL | TERM_PGUP | TERM_PGDN | TERM_NONE

record term_event =
  ev_type :: term_key_type
  ev_ch :: u8

definition decode_ext :: "u8 \<Rightarrow> term_key_type" where
  "decode_ext sc =
     (if sc = 0x48 then TERM_UP else if sc = 0x50 then TERM_DOWN
      else if sc = 0x4B then TERM_LEFT else if sc = 0x4D then TERM_RIGHT
      else if sc = 0x47 then TERM_HOME else if sc = 0x4F then TERM_END
      else if sc = 0x53 then TERM_DEL else if sc = 0x49 then TERM_PGUP
      else if sc = 0x51 then TERM_PGDN else TERM_NONE)"

definition term_poll :: "keyboard \<Rightarrow> term_event \<times> keyboard" where
  "term_poll k =
     (let (ext, k) = keyboard_get_ext k
      in if ext \<noteq> 0 then (\<lparr>ev_type = decode_ext ext, ev_ch = 0\<rparr>, k)
         else (let (c, k) = keyboard_getchar k
               in if c \<noteq> 0 then (\<lparr>ev_type = TERM_CHAR, ev_ch = c\<rparr>, k)
                  else (\<lparr>ev_type = TERM_NONE, ev_ch = 0\<rparr>, k)))"

subsection \<open>Runs\<close>

text \<open>
  The interrupt and the reader interleave freely: a run is a sequence of scancodes and
  polls, and \<open>kbd_run\<close> relates the state to the events the polls have returned.
\<close>

definition boot_keyboard :: keyboard where
  "boot_keyboard = \<lparr>last_char = 0, shift_held = False, ctrl_held = False, ext_pending = False,
     last_ext_sc = 0\<rparr>"

datatype kbd_step = Scan u8 | Poll

inductive kbd_run :: "kbd_step list \<Rightarrow> keyboard \<Rightarrow> term_event list \<Rightarrow> bool" where
  kbd_boot: "kbd_run [] boot_keyboard []"
| kbd_scan: "kbd_run ss k evs \<Longrightarrow> kbd_run (ss @ [Scan sc]) (keyboard_irq_handler sc k) evs"
| kbd_poll: "kbd_run ss k evs \<Longrightarrow> term_poll k = (ev, k') \<Longrightarrow> kbd_run (ss @ [Poll]) k' (evs @ [ev])"

inductive_simps kbd_run_Nil: "kbd_run [] k evs"
inductive_cases kbd_run_cases: "kbd_run ss k evs"

text \<open>The run as a function of the steps.\<close>

fun kbd_steps :: "kbd_step list \<Rightarrow> keyboard \<Rightarrow> keyboard \<times> term_event list" where
  "kbd_steps [] k = (k, [])"
| "kbd_steps (Scan sc # ss) k = kbd_steps ss (keyboard_irq_handler sc k)"
| "kbd_steps (Poll # ss) k =
     (let (ev, k) = term_poll k; (k, evs) = kbd_steps ss k in (k, ev # evs))"

lemma kbd_steps_append:
  "kbd_steps (ss @ ts) k =
     (let (k, evs) = kbd_steps ss k; (k, evs') = kbd_steps ts k in (k, evs @ evs'))"
  by (induction ss k rule: kbd_steps.induct) (auto simp: Let_def split: prod.splits)

lemma kbd_run_steps: "kbd_run ss k evs \<longleftrightarrow> kbd_steps ss boot_keyboard = (k, evs)"
proof
  show "kbd_run ss k evs \<Longrightarrow> kbd_steps ss boot_keyboard = (k, evs)"
    by (induction rule: kbd_run.induct) (auto simp: kbd_steps_append)
  show "kbd_steps ss boot_keyboard = (k, evs) \<Longrightarrow> kbd_run ss k evs"
  proof (induction ss arbitrary: k evs rule: rev_induct)
    case Nil
    then show ?case by (auto intro: kbd_boot)
  next
    case (snoc s ss)
    obtain k1 evs1 where k1: "kbd_steps ss boot_keyboard = (k1, evs1)" by (cases "kbd_steps ss boot_keyboard")
    with snoc.prems snoc.IH show ?case
      by (cases s) (auto simp: kbd_steps_append split: prod.splits intro: kbd_scan kbd_poll)
  qed
qed

subsection \<open>The tables\<close>

lemma tables_ascii: "list_all (\<lambda>c. c < 128) sc_ascii" "list_all (\<lambda>c. c < 128) sc_ascii_shift"
  by (simp_all add: sc_ascii_def sc_ascii_shift_def)

lemma length_tables [simp]: "length sc_ascii = 58" "length sc_ascii_shift = 58"
  by (simp_all add: sc_ascii_def sc_ascii_shift_def)

lemma with_ctrl_ascii: "c < 128 \<Longrightarrow> c \<noteq> 0 \<Longrightarrow> with_ctrl ctrl c < 128 \<and> with_ctrl ctrl c \<noteq> 0"
proof -
  assume c: "c < 128" "c \<noteq> 0"
  have "97 \<le> c \<Longrightarrow> unat (c - 96) = unat c - 96" "65 \<le> c \<Longrightarrow> unat (c - 64) = unat c - 64"
    by (auto simp: unat_sub word_le_nat_alt)
  then show ?thesis
    using c by (auto simp: with_ctrl_def word_less_nat_alt word_le_nat_alt)
qed

lemma high_bit: "(sc :: u8) AND 0x80 = 0 \<longleftrightarrow> sc < 128"
proof -
  have "(0x80 :: u8) = push_bit 7 1" by simp
  then have "(sc AND 0x80 = 0) = (\<not> bit sc 7)"
    by (metis (no_types, lifting) and_exp_eq_0_iff_not_bit push_bit_of_1)
  moreover have "bit sc 7 \<longleftrightarrow> 128 \<le> unat sc"
  proof -
    have "bit sc 7 = bit (unat sc) 7" by (simp add: bit_unsigned_iff)
    then have "bit sc 7 = odd (unat sc div 128)" by (simp add: bit_iff_odd)
    moreover have "unat sc div 128 < 2" using unat8_lt [of sc] by linarith
    moreover have "unat sc div 128 = 0 \<longleftrightarrow> unat sc < 128" by (simp add: div_eq_0_iff)
    moreover have "odd x \<longleftrightarrow> x \<noteq> 0" if "x < 2" for x :: nat
      using that by (auto simp: less_2_cases_iff)
    ultimately show ?thesis by (simp add: not_less)
  qed
  ultimately show ?thesis by (auto simp: word_less_nat_alt)
qed

definition kbd_ok :: "keyboard \<Rightarrow> bool" where
  "kbd_ok k \<longleftrightarrow> last_char k < 128 \<and> last_ext_sc k < 128"

lemma kbd_ok_boot: "kbd_ok boot_keyboard"
  by (simp add: kbd_ok_def boot_keyboard_def)

lemma kbd_ok_irq [kinv]: "kbd_ok k \<Longrightarrow> kbd_ok (keyboard_irq_handler sc k)"
proof -
  assume k: "kbd_ok k"
  have t: "unat sc < 58 \<Longrightarrow> sc_ascii ! unat sc < 128 \<and> sc_ascii_shift ! unat sc < 128"
    using tables_ascii by (auto simp: list_all_length)
  show ?thesis
    using k t with_ctrl_ascii
    by (auto simp: kbd_ok_def keyboard_irq_handler_def high_bit SC_TABLE_SIZE_def Let_def not_le)
qed

lemma kbd_ok_poll [kinv]: "kbd_ok k \<Longrightarrow> kbd_ok (snd (term_poll k))"
  by (auto simp: kbd_ok_def term_poll_def keyboard_get_ext_def keyboard_getchar_def)

definition event_ok :: "term_event \<Rightarrow> bool" where
  "event_ok ev \<longleftrightarrow> ev_ch ev < 128 \<and> (ev_type ev = TERM_CHAR \<longleftrightarrow> ev_ch ev \<noteq> 0)"

lemma decode_ext_not_char: "decode_ext sc \<noteq> TERM_CHAR"
  by (simp add: decode_ext_def)

lemma event_ok_poll: "kbd_ok k \<Longrightarrow> event_ok (fst (term_poll k))"
  by (auto simp: event_ok_def kbd_ok_def term_poll_def keyboard_get_ext_def keyboard_getchar_def
      decode_ext_not_char)


subsection \<open>Strokes\<close>

text \<open>
  What a user does: a key with the modifiers held around it, or a key of the extended
  block, each read by one poll before the key is released.
\<close>

datatype stroke = Key bool bool u8 | Ext u8

definition held :: "bool \<Rightarrow> u8 \<Rightarrow> kbd_step list \<Rightarrow> kbd_step list" where
  "held h sc ss = (if h then Scan sc # ss @ [Scan (sc + 0x80)] else ss)"

fun stroke_steps :: "stroke \<Rightarrow> kbd_step list" where
  "stroke_steps (Key shift ctrl sc) =
     held shift 0x2A (held ctrl 0x1D [Scan sc, Poll, Scan (sc + 0x80)])"
| "stroke_steps (Ext sc) = [Scan 0xE0, Scan sc, Poll, Scan 0xE0, Scan (sc + 0x80)]"

definition key_char :: "bool \<Rightarrow> u8 \<Rightarrow> u8" where
  "key_char shift sc = (if shift then sc_ascii_shift else sc_ascii) ! unat sc"

fun stroke_ok :: "stroke \<Rightarrow> bool" where
  "stroke_ok (Key shift ctrl sc) \<longleftrightarrow> sc < 58 \<and> key_char shift sc \<noteq> 0"
| "stroke_ok (Ext sc) \<longleftrightarrow> 0 < sc \<and> sc < 127 \<and> sc \<noteq> 0x60"

fun stroke_event :: "stroke \<Rightarrow> term_event" where
  "stroke_event (Key shift ctrl sc) = \<lparr>ev_type = TERM_CHAR, ev_ch = with_ctrl ctrl (key_char shift sc)\<rparr>"
| "stroke_event (Ext sc) = \<lparr>ev_type = decode_ext sc, ev_ch = 0\<rparr>"

lemma key_char_modifiers:
  "key_char shift sc \<noteq> 0 \<Longrightarrow> sc \<noteq> 0 \<and> sc \<noteq> 0x1D \<and> sc \<noteq> 0x2A \<and> sc \<noteq> 0x36"
  by (auto simp: key_char_def sc_ascii_def sc_ascii_shift_def split: if_splits)

lemma release_code:
  assumes "(sc :: u8) < 128"
  shows "(sc + 0x80) AND 0x80 \<noteq> 0" "(sc + 0x80) AND 0x7F = sc" "sc + 0x80 \<noteq> 0"
    "sc + 0x80 = 0xFF \<longleftrightarrow> sc = 0x7F" "sc + 0x80 = 0xE0 \<longleftrightarrow> sc = 0x60"
proof -
  have u: "unat (sc + 0x80) = unat sc + 128"
    using assms by (simp add: unat_word_ariths word_less_nat_alt)
  then show "(sc + 0x80) AND 0x80 \<noteq> 0"
    by (simp add: high_bit word_less_nat_alt)
  have m: "(0x7F :: u8) = mask 7" by (simp add: mask_eq_exp_minus_1)
  have "unat (take_bit 7 (sc + 0x80)) = unat sc"
    using assms by (simp add: unsigned_take_bit_eq u word_less_nat_alt) (simp add: take_bit_eq_mod)
  then show "(sc + 0x80) AND 0x7F = sc"
    by (simp add: m take_bit_eq_mask [symmetric] word_unat_eq_iff)
  show "sc + 0x80 \<noteq> 0" using u by (metis add_is_0 unsigned_0 zero_neq_numeral)
  show "sc + 0x80 = 0xFF \<longleftrightarrow> sc = 0x7F" "sc + 0x80 = 0xE0 \<longleftrightarrow> sc = 0x60"
    using u by (auto simp: word_unat_eq_iff)
qed

lemma stroke_run: "stroke_ok s \<Longrightarrow> kbd_steps (stroke_steps s) boot_keyboard = (boot_keyboard, [stroke_event s])"
proof (induction s)
  case (Key shift ctrl sc)
  note c = key_char_modifiers [of shift sc]
  have lt: "sc < 128" "unat sc < 58" "sc \<noteq> 0xFF" "sc \<noteq> 0xE0" "sc \<noteq> 0x60" "sc \<noteq> 0x7F"
    using Key by (auto simp: word_less_nat_alt)
  have a: "with_ctrl ctrl (key_char shift sc) \<noteq> 0"
    using Key lt tables_ascii with_ctrl_ascii [of "key_char shift sc"]
    by (auto simp: key_char_def list_all_length)
  have press: "keyboard_irq_handler sc (boot_keyboard\<lparr>shift_held := shift, ctrl_held := ctrl\<rparr>) =
      boot_keyboard\<lparr>shift_held := shift, ctrl_held := ctrl, last_char := with_ctrl ctrl (key_char shift sc)\<rparr>"
    using Key lt c
    by (simp add: keyboard_irq_handler_def boot_keyboard_def high_bit SC_TABLE_SIZE_def key_char_def Let_def)
  have release: "keyboard_irq_handler (sc + 0x80) (boot_keyboard\<lparr>shift_held := shift, ctrl_held := ctrl\<rparr>) =
      boot_keyboard\<lparr>shift_held := shift, ctrl_held := ctrl\<rparr>"
    using Key lt c release_code [OF lt(1)]
    by (simp add: keyboard_irq_handler_def boot_keyboard_def Let_def)
  have poll: "term_poll (boot_keyboard\<lparr>shift_held := shift, ctrl_held := ctrl,
        last_char := with_ctrl ctrl (key_char shift sc)\<rparr>) =
      (stroke_event (Key shift ctrl sc), boot_keyboard\<lparr>shift_held := shift, ctrl_held := ctrl\<rparr>)"
    using a by (simp add: term_poll_def keyboard_get_ext_def keyboard_getchar_def boot_keyboard_def)
  have mods: "keyboard_irq_handler 0x2A boot_keyboard = boot_keyboard\<lparr>shift_held := True\<rparr>"
    "keyboard_irq_handler 0x1D (boot_keyboard\<lparr>shift_held := b\<rparr>) = boot_keyboard\<lparr>shift_held := b, ctrl_held := True\<rparr>"
    "keyboard_irq_handler 0x9D (boot_keyboard\<lparr>shift_held := b, ctrl_held := True\<rparr>) = boot_keyboard\<lparr>shift_held := b, ctrl_held := False\<rparr>"
    "keyboard_irq_handler 0xAA (boot_keyboard\<lparr>shift_held := b, ctrl_held := False\<rparr>) = boot_keyboard" for b
    by (simp_all add: keyboard_irq_handler_def boot_keyboard_def)
  have id: "boot_keyboard\<lparr>shift_held := False\<rparr> = boot_keyboard" "boot_keyboard\<lparr>ctrl_held := False\<rparr> = boot_keyboard"
    by (simp_all add: boot_keyboard_def)
  show ?case
  proof (cases shift; cases ctrl)
  qed (use press release poll mods in \<open>simp_all add: held_def boot_keyboard_def keyboard_irq_handler_def\<close>)
next
  case (Ext sc)
  then have lt: "sc < 128" "sc \<noteq> 0xFF" "sc \<noteq> 0xE0" "sc \<noteq> 0" "sc \<noteq> 0x7F" "sc \<noteq> 0x60"
    by (auto simp: word_less_nat_alt)
  show ?case
    using lt release_code [OF lt(1)]
    by (auto simp: keyboard_irq_handler_def boot_keyboard_def high_bit term_poll_def keyboard_get_ext_def)
qed

lemma strokes_run:
  "\<forall>s \<in> set strokes. stroke_ok s \<Longrightarrow>
   kbd_steps (concat (map stroke_steps strokes)) boot_keyboard = (boot_keyboard, map stroke_event strokes)"
  by (induction strokes) (auto simp: kbd_steps_append stroke_run)

text \<open>
  \<^verbatim>\<open>keyboard_getchar\<close> reads the slot and clears it in two statements with interrupts
  enabled: a key whose interrupt falls between the two is lost.
\<close>

lemma getchar_race_loses_key:
  assumes "stroke_ok (Key False False sc)"
  shows "last_char (keyboard_irq_handler sc boot_keyboard) \<noteq> 0"
    "fst (term_poll (keyboard_irq_handler sc boot_keyboard\<lparr>last_char := 0\<rparr>)) =
       \<lparr>ev_type = TERM_NONE, ev_ch = 0\<rparr>"
proof -
  have "sc < 128" "unat sc < 58" "sc \<noteq> 0xFF" "sc \<noteq> 0xE0"
    using assms by (auto simp: word_less_nat_alt)
  then have k: "keyboard_irq_handler sc boot_keyboard = boot_keyboard\<lparr>last_char := key_char False sc\<rparr>"
    using assms key_char_modifiers [of False sc]
    by (simp add: keyboard_irq_handler_def boot_keyboard_def high_bit SC_TABLE_SIZE_def key_char_def
        with_ctrl_def Let_def)
  show "last_char (keyboard_irq_handler sc boot_keyboard) \<noteq> 0"
    "fst (term_poll (keyboard_irq_handler sc boot_keyboard\<lparr>last_char := 0\<rparr>)) =
       \<lparr>ev_type = TERM_NONE, ev_ch = 0\<rparr>"
    unfolding k using assms
    by (simp_all add: term_poll_def keyboard_get_ext_def keyboard_getchar_def boot_keyboard_def)
qed

lemma kbd_run_typed: "kbd_run ss k evs \<Longrightarrow> kbd_ok k \<and> (\<forall>ev \<in> set evs. event_ok ev)"
proof (induction rule: kbd_run.induct)
  case kbd_boot
  then show ?case by (simp add: kbd_ok_boot)
next
  case (kbd_scan ss k evs sc)
  then show ?case by (simp add: kinv)
next
  case (kbd_poll ss k evs ev k')
  then show ?case using kbd_ok_poll [of k] event_ok_poll [of k] by auto
qed

subsection \<open>Properties\<close>

text \<open>
  C31: whatever bytes the keyboard sends and however its interrupts interleave with the
  readers, every event a reader gets is well typed: its character is 7-bit, and it is
  nonzero exactly in the events of type TERM_CHAR.
\<close>

theorem keyboard_events_typed:
  assumes "kbd_run ss k evs" "ev \<in> set evs"
  shows "ev_ch ev < 128 \<and> (ev_type ev = TERM_CHAR \<longleftrightarrow> ev_ch ev \<noteq> 0)"
  using kbd_run_typed [OF assms(1)] assms(2) by (auto simp: event_ok_def)

theorem keyboard_events_typed_witness:
  "ev_type \<lparr>ev_type = TERM_CHAR, ev_ch = 97\<rparr> = TERM_CHAR \<longleftrightarrow> (97 :: u8) \<noteq> 0"
proof -
  have "kbd_run [Scan 0x1E, Poll] boot_keyboard [\<lparr>ev_type = TERM_CHAR, ev_ch = 97\<rparr>]"
    unfolding kbd_run_steps by code_simp
  from keyboard_events_typed [OF this, of "\<lparr>ev_type = TERM_CHAR, ev_ch = 97\<rparr>"] show ?thesis by simp
qed

text \<open>
  C17: typing is decoded exactly.  For every sequence of strokes (keys of the two
  tables with any of shift and control held around them, and keys of the extended
  block), read once while each key is down, the reader gets the sequence of events the
  strokes mean, none lost, merged or invented, and the driver is back in its initial
  state: no modifier and no prefix stays behind.
\<close>

theorem keyboard_decodes_typing:
  assumes "\<forall>s \<in> set strokes. stroke_ok s"
  shows "kbd_run (concat (map stroke_steps strokes)) k evs \<longleftrightarrow>
    k = boot_keyboard \<and> evs = map stroke_event strokes"
  using strokes_run [OF assms] by (auto simp: kbd_run_steps)

theorem keyboard_decodes_typing_witness:
  "kbd_run (concat (map stroke_steps [Key True False 0x23, Ext 0x48, Key False True 0x2E])) boot_keyboard
     [\<lparr>ev_type = TERM_CHAR, ev_ch = 72\<rparr>, \<lparr>ev_type = TERM_UP, ev_ch = 0\<rparr>, \<lparr>ev_type = TERM_CHAR, ev_ch = 3\<rparr>]"
proof -
  let ?ss = "[Key True False 0x23, Ext 0x48, Key False True 0x2E]"
  have ok: "\<forall>s \<in> set ?ss. stroke_ok s"
    by (simp add: key_char_def sc_ascii_def sc_ascii_shift_def)
  have ev: "map stroke_event ?ss =
      [\<lparr>ev_type = TERM_CHAR, ev_ch = 72\<rparr>, \<lparr>ev_type = TERM_UP, ev_ch = 0\<rparr>, \<lparr>ev_type = TERM_CHAR, ev_ch = 3\<rparr>]"
    by code_simp
  show ?thesis
    using keyboard_decodes_typing [OF ok] unfolding ev by blast
qed

end
