(* ===== verification/Rtc.thy ===== *)
theory Rtc
  imports Ata
begin

text \<open>
  The real-time clock, \<^verbatim>\<open>kernel/rtc.c\<close>, over the port accesses of its chip (a parameter,
  as for the disk driver).  Waiting for an update to end may not return, so the reads
  are options.
\<close>

unbundle bit_operations_syntax

subsection \<open>The code\<close>

definition CMOS_INDEX :: u16 where "CMOS_INDEX = 0x70"
definition CMOS_DATA :: u16 where "CMOS_DATA = 0x71"
definition RTC_REG_SECOND :: u8 where "RTC_REG_SECOND = 0x00"
definition RTC_REG_MINUTE :: u8 where "RTC_REG_MINUTE = 0x02"
definition RTC_REG_HOUR :: u8 where "RTC_REG_HOUR = 0x04"
definition RTC_REG_DAY :: u8 where "RTC_REG_DAY = 0x07"
definition RTC_REG_MONTH :: u8 where "RTC_REG_MONTH = 0x08"
definition RTC_REG_YEAR :: u8 where "RTC_REG_YEAR = 0x09"
definition RTC_REG_STATUS_B :: u8 where "RTC_REG_STATUS_B = 0x0B"

lemmas rtc_regs = RTC_REG_SECOND_def RTC_REG_MINUTE_def RTC_REG_HOUR_def RTC_REG_DAY_def
  RTC_REG_MONTH_def RTC_REG_YEAR_def RTC_REG_STATUS_B_def

record rtc_time =
  second :: u8
  minute :: u8
  hour :: u8
  day :: u8
  month :: u8
  year :: u8

definition cmos_read :: "'d ports \<Rightarrow> u8 \<Rightarrow> 'd \<Rightarrow> u8 \<times> 'd" where
  "cmos_read P reg d = p_inb P CMOS_DATA (p_outb P CMOS_INDEX reg d)"

definition rtc_updating :: "'d ports \<Rightarrow> 'd \<Rightarrow> bool \<times> 'd" where
  "rtc_updating P d =
     (let (v, d) = p_inb P CMOS_DATA (p_outb P CMOS_INDEX 0x0A d) in (v AND 0x80 \<noteq> 0, d))"

definition bcd2bin :: "u8 \<Rightarrow> u8" where
  "bcd2bin bcd = drop_bit 4 bcd * 10 + (bcd AND 0x0F)"

partial_function (option) wait_update :: "'d ports \<Rightarrow> 'd \<Rightarrow> 'd option" where
  "wait_update P d =
     (if fst (rtc_updating P d) then wait_update P (snd (rtc_updating P d))
      else Some (snd (rtc_updating P d)))"

text \<open>One pass over the six registers, in the order of the source.\<close>

definition read_fields :: "'d ports \<Rightarrow> 'd \<Rightarrow> rtc_time \<times> 'd" where
  "read_fields P d =
     (let (sec, d) = cmos_read P RTC_REG_SECOND d;
          (mn, d) = cmos_read P RTC_REG_MINUTE d;
          (hr, d) = cmos_read P RTC_REG_HOUR d;
          (dy, d) = cmos_read P RTC_REG_DAY d;
          (mon, d) = cmos_read P RTC_REG_MONTH d;
          (yr, d) = cmos_read P RTC_REG_YEAR d
      in (\<lparr>second = sec, minute = mn, hour = hr, day = dy, month = mon, year = yr\<rparr>, d))"

definition bcd_fields :: "rtc_time \<Rightarrow> rtc_time" where
  "bcd_fields t = \<lparr>second = bcd2bin (second t), minute = bcd2bin (minute t), hour = bcd2bin (hour t),
     day = bcd2bin (day t), month = bcd2bin (month t), year = bcd2bin (year t)\<rparr>"

definition rtc_read :: "'d ports \<Rightarrow> 'd \<Rightarrow> (rtc_time \<times> 'd) option" where
  "rtc_read P d =
     (case wait_update P d of None \<Rightarrow> None | Some d \<Rightarrow>
        (let (t, d) = read_fields P d in
         (case wait_update P d of None \<Rightarrow> None | Some d \<Rightarrow>
            (let (sec2, d) = cmos_read P RTC_REG_SECOND d;
                 (t, d) = (if sec2 \<noteq> second t then read_fields P d else (t, d));
                 (status_b, d) = cmos_read P RTC_REG_STATUS_B d
             in Some (if status_b AND 0x04 = 0 then bcd_fields t else t, d)))))"

subsection \<open>A clock chip\<close>

text \<open>
  The chip behind the two ports: an index latch, and for each register its successive
  contents: \<open>cm_now\<close> is the time the registers hold, \<open>cm_next\<close> the update that is applied
  after \<open>cm_left\<close> more data reads, if any is due.
\<close>

record cmos =
  cm_index :: u8
  cm_now :: "u8 \<Rightarrow> u8"
  cm_left :: nat
  cm_next :: "(u8 \<Rightarrow> u8) option"

definition cm_inb :: "u16 \<Rightarrow> cmos \<Rightarrow> u8 \<times> cmos" where
  "cm_inb p c =
     (if p = 0x71 then
        (cm_now c (cm_index c),
         (case (cm_left c, cm_next c) of
            (0, Some r) \<Rightarrow> c\<lparr>cm_now := r, cm_next := None\<rparr>
          | (Suc n, Some r) \<Rightarrow> c\<lparr>cm_left := n\<rparr>
          | (_, None) \<Rightarrow> c))
      else (0, c))"

definition cmos_ports :: "cmos ports" where
  "cmos_ports = \<lparr>p_inb = cm_inb,
     p_outb = (\<lambda>p v c. if p = 0x70 then c\<lparr>cm_index := v\<rparr> else c),
     p_inw = (\<lambda>p c. (0, c)), p_outw = (\<lambda>p v c. c)\<rparr>"

text \<open>The time the registers of a chip hold, as the operating system wants it.\<close>

definition reg_time :: "(u8 \<Rightarrow> u8) \<Rightarrow> rtc_time" where
  "reg_time r =
     (let t = \<lparr>second = r 0, minute = r 2, hour = r 4, day = r 7, month = r 8, year = r 9\<rparr>
      in if r 0x0B AND 4 = 0 then bcd_fields t else t)"

definition idle_regs :: "(u8 \<Rightarrow> u8) \<Rightarrow> bool" where
  "idle_regs r \<longleftrightarrow> r 0x0A AND 0x80 = 0"

lemma cmos_read_cmos:
  "cmos_read cmos_ports reg c = (cm_now c reg, snd (cm_inb 0x71 (c\<lparr>cm_index := reg\<rparr>)))"
  by (simp add: cmos_read_def cmos_ports_def CMOS_INDEX_def CMOS_DATA_def cm_inb_def)

lemma wait_update_idle:
  "idle_regs (cm_now c) \<Longrightarrow> wait_update cmos_ports c = Some (snd (cm_inb 0x71 (c\<lparr>cm_index := 0x0A\<rparr>)))"
  by (subst wait_update.simps)
    (simp add: rtc_updating_def idle_regs_def cmos_ports_def CMOS_INDEX_def CMOS_DATA_def cm_inb_def)

text \<open>One data read in each phase of the chip: before, at and after its update.\<close>

abbreviation chip :: "u8 \<Rightarrow> (u8 \<Rightarrow> u8) \<Rightarrow> nat \<Rightarrow> (u8 \<Rightarrow> u8) option \<Rightarrow> cmos" where
  "chip i r n nxt \<equiv> \<lparr>cm_index = i, cm_now = r, cm_left = n, cm_next = nxt\<rparr>"

lemma chip_read:
  "cmos_read cmos_ports reg (chip i r n None) = (r reg, chip reg r n None)"
  "cmos_read cmos_ports reg (chip i r 0 (Some r')) = (r reg, chip reg r' 0 None)"
  "cmos_read cmos_ports reg (chip i r (Suc n) (Some r')) = (r reg, chip reg r n (Some r'))"
  by (simp_all add: cmos_read_cmos cm_inb_def split: nat.split)

lemma chip_wait:
  "idle_regs r \<Longrightarrow> wait_update cmos_ports (chip i r n None) = Some (chip 0x0A r n None)"
  "idle_regs r \<Longrightarrow> wait_update cmos_ports (chip i r 0 (Some r')) = Some (chip 0x0A r' 0 None)"
  "idle_regs r \<Longrightarrow> wait_update cmos_ports (chip i r (Suc n) (Some r')) = Some (chip 0x0A r n (Some r'))"
  by (simp_all add: wait_update_idle cm_inb_def split: nat.split)

text \<open>The six registers as one snapshot.\<close>

definition snapshot :: "(u8 \<Rightarrow> u8) \<Rightarrow> rtc_time" where
  "snapshot r = \<lparr>second = r 0, minute = r 2, hour = r 4, day = r 7, month = r 8, year = r 9\<rparr>"

lemma second_snapshot [simp]: "second (snapshot r) = r 0"
  by (simp add: snapshot_def)

lemma chip_fields_still:
  "read_fields cmos_ports (chip i r n None) = (snapshot r, chip 9 r n None)"
  by (simp add: read_fields_def chip_read rtc_regs snapshot_def)

lemma chip_fields_before:
  "read_fields cmos_ports (chip i r (n + 6) (Some r')) = (snapshot r, chip 9 r n (Some r'))"
  by (simp add: read_fields_def chip_read rtc_regs snapshot_def numeral_eq_Suc)

lemma chip_fields_during:
  "n < 6 \<Longrightarrow> \<exists>t. read_fields cmos_ports (chip i r n (Some r')) = (t, chip 9 r' 0 None) \<and> second t = r 0 \<and>
     (n = 5 \<longrightarrow> t = snapshot r)"
proof -
  assume "n < 6"
  then consider "n = 0" | "n = 1" | "n = 2" | "n = 3" | "n = 4" | "n = 5" by linarith
  then show ?thesis
    by cases (simp_all add: read_fields_def chip_read rtc_regs snapshot_def numeral_eq_Suc)
qed

lemma reg_time_snapshot: "reg_time r = (if r 0x0B AND 4 = 0 then bcd_fields (snapshot r) else snapshot r)"
  by (simp add: reg_time_def snapshot_def)

lemma rtc_read_still:
  assumes "idle_regs r"
  shows "rtc_read cmos_ports (chip i r n None) = Some (reg_time r, chip 0x0B r n None)"
  using assms
  by (simp add: rtc_read_def chip_wait chip_fields_still chip_read reg_time_snapshot rtc_regs)

lemma rtc_read_update:
  assumes "idle_regs r" "idle_regs r'" "r 0 \<noteq> r' 0" "r 0x0B = r' 0x0B"
  shows "\<exists>t c. rtc_read cmos_ports (chip i r n (Some r')) = Some (t, c) \<and> t \<in> {reg_time r, reg_time r'}"
proof -
  note sim = rtc_read_def chip_wait [OF assms(1)] chip_wait [OF assms(2)] chip_fields_still
  show ?thesis
  proof (cases n)
    case 0
    then show ?thesis
      by (simp add: sim chip_read reg_time_snapshot rtc_regs)
  next
    case n: (Suc m)
    show ?thesis
    proof (cases "m < 6")
      case True
      then obtain t where t: "read_fields cmos_ports (chip 0x0A r m (Some r')) = (t, chip 9 r' 0 None)"
        "second t = r 0"
        using chip_fields_during by blast
      then show ?thesis
        using n assms(3) by (simp add: sim chip_read reg_time_snapshot rtc_regs)
    next
      case False
      then obtain k where k: "m = k + 6" by (metis le_add_diff_inverse2 not_less)
      have f: "read_fields cmos_ports (chip 0x0A r m (Some r')) = (snapshot r, chip 9 r k (Some r'))"
        unfolding k by (rule chip_fields_before)
      show ?thesis
      proof (cases k)
        case 0
        then show ?thesis
          using n f assms(3) by (simp add: sim chip_read reg_time_snapshot rtc_regs)
      next
        case kk: (Suc l)
        have "\<exists>c. cmos_read cmos_ports 0 (chip 0x0A r l (Some r')) = (r 0, c) \<and>
            (\<exists>d. cmos_read cmos_ports 0x0B c = (r 0x0B, d))"
        proof (cases l)
          case 0
          then show ?thesis using assms(4) by (simp add: chip_read)
        next
          case (Suc j)
          then show ?thesis using assms(4) by (cases j) (simp_all add: chip_read)
        qed
        then show ?thesis
          using n f kk by (auto simp: sim reg_time_snapshot rtc_regs)
      qed
    qed
  qed
qed

text \<open>Every two-digit field: BCD is undone exactly.\<close>

definition bin2bcd :: "nat \<Rightarrow> u8" where
  "bin2bcd n = of_nat (16 * (n div 10) + n mod 10)"

lemma bcd2bin_all: "list_all (\<lambda>n. bcd2bin (bin2bcd n) = of_nat n) [0..<100]"
  by code_simp

lemma bcd2bin_bin2bcd: "n < 100 \<Longrightarrow> bcd2bin (bin2bcd n) = of_nat n"
  using bcd2bin_all by (simp add: list_all_iff)

text \<open>
  A chip in 12-hour mode sets the top bit of the hour register for the afternoon; the
  driver does not look at the mode and reads 2 pm as hour 82.
\<close>

lemma rtc_twelve_hour_mode: "bcd2bin (0x80 OR 0x02) = 82"
  by code_simp

subsection \<open>Properties\<close>

text \<open>
  a time is never torn.  Whenever the chip's one update falls between the register
  reads of \<^verbatim>\<open>rtc_read\<close> (at any of them, before or after), the call returns and gives
  exactly the time before or exactly the time after the update, decoded from BCD when the
  chip says so: re-reading the seconds is enough, because an update changes them.
\<close>

lemma rtc_read_not_torn:
  assumes "idle_regs r" "idle_regs r'" "r 0 \<noteq> r' 0" "r 0x0B = r' 0x0B"
  shows "\<exists>t c. rtc_read cmos_ports
      \<lparr>cm_index = i, cm_now = r, cm_left = n, cm_next = Some r'\<rparr> = Some (t, c) \<and>
    t \<in> {reg_time r, reg_time r'}"
  using rtc_read_update [OF assms] .

definition clock_regs :: "u8 \<Rightarrow> u8 \<Rightarrow> u8 \<Rightarrow> u8 \<Rightarrow> u8" where
  "clock_regs s m h a = (if a = 0 then s else if a = 2 then m else if a = 4 then h else 0)"

lemma rtc_read_not_torn_witness:
  "\<exists>t c. rtc_read cmos_ports \<lparr>cm_index = 0, cm_now = clock_regs 0x59 0x59 0x09, cm_left = 2,
      cm_next = Some (clock_regs 0 0 0x10)\<rparr> = Some (t, c) \<and>
    t \<in> {\<lparr>second = 59, minute = 59, hour = 9, day = 0, month = 0, year = 0\<rparr>,
         \<lparr>second = 0, minute = 0, hour = 10, day = 0, month = 0, year = 0\<rparr>}"
proof -
  have t: "reg_time (clock_regs 0x59 0x59 0x09) = \<lparr>second = 59, minute = 59, hour = 9, day = 0, month = 0, year = 0\<rparr>"
    "reg_time (clock_regs 0 0 0x10) = \<lparr>second = 0, minute = 0, hour = 10, day = 0, month = 0, year = 0\<rparr>"
    by (code_simp, code_simp)
  show ?thesis
    unfolding t [symmetric]
    by (rule rtc_read_not_torn) (simp_all add: idle_regs_def clock_regs_def)
qed

end
