(* ===== verification/Net.thy ===== *)
theory Net
  imports Bytes
begin

text \<open>
  The network stack, \<^verbatim>\<open>kernel/net.c\<close>: Ethernet, ARP, IP, ICMP echo and UDP.  A packet is a list
  of bytes and a header field the slice at its offset.  The driver below is the parameter
  \<open>D\<close> of the operations and its state \<open>nic\<close> a field of the stack's state; what the
  stack relies on is the locale \<open>nic_driver\<close>, which the model of \<^verbatim>\<open>kernel/e1000.c\<close> meets.  \<open>None\<close>
  is the result of an operation that does not return: a frame stream that never ends,
  or a checksum over bytes outside the packet buffer.
\<close>

unbundle bit_operations_syntax

subsection \<open>Constants and headers\<close>

definition ETH_TYPE_ARP :: u16 where "ETH_TYPE_ARP = 0x0806"
definition ETH_TYPE_IP :: u16 where "ETH_TYPE_IP = 0x0800"
definition ARP_REQUEST :: u16 where "ARP_REQUEST = 1"
definition ARP_REPLY :: u16 where "ARP_REPLY = 2"
definition IP_PROTO_ICMP :: u8 where "IP_PROTO_ICMP = 1"
definition IP_PROTO_UDP :: u8 where "IP_PROTO_UDP = 17"
definition ICMP_ECHO_REQ :: u8 where "ICMP_ECHO_REQ = 8"
definition ICMP_ECHO_REP :: u8 where "ICMP_ECHO_REP = 0"
definition UDP_MAX_PAYLOAD :: nat where "UDP_MAX_PAYLOAD = 512"
definition ARP_CACHE_SIZE :: nat where "ARP_CACHE_SIZE = 8"
definition UDP_HANDLERS_MAX :: nat where "UDP_HANDLERS_MAX = 8"

lemmas net_consts = ETH_TYPE_ARP_def ETH_TYPE_IP_def ARP_REQUEST_def ARP_REPLY_def IP_PROTO_ICMP_def
  IP_PROTO_UDP_def ICMP_ECHO_REQ_def ICMP_ECHO_REP_def

definition my_ip :: "u8 list" where "my_ip = [10, 0, 2, 15]"
definition bcast :: "u8 list" where "bcast = replicate 6 0xFF"

definition htons :: "u16 \<Rightarrow> u16" where
  "htons v = drop_bit 8 v OR push_bit 8 v"

text \<open>\<open>len\<close> bytes of a packet at an offset, and a 16-bit field as the code reads it.\<close>

definition slice :: "nat \<Rightarrow> nat \<Rightarrow> u8 list \<Rightarrow> u8 list" where
  "slice pos len p = take len (drop pos p)"

definition field16 :: "nat \<Rightarrow> u8 list \<Rightarrow> u16" where
  "field16 pos p = le16 (p ! pos) (p ! (pos + 1))"

text \<open>
  The packed structures, by the offsets of their fields from the start of a frame:
  \<^verbatim>\<open>eth_hdr_t\<close> at 0, \<^verbatim>\<open>arp_pkt_t\<close> and \<^verbatim>\<open>ip_hdr_t\<close> at 14, \<^verbatim>\<open>icmp_hdr_t\<close> and \<^verbatim>\<open>udp_hdr_t\<close> at 34.
\<close>

definition eth_src :: "u8 list \<Rightarrow> u8 list" where "eth_src = slice 6 6"
definition eth_type :: "u8 list \<Rightarrow> u16" where "eth_type = field16 12"
definition arp_op :: "u8 list \<Rightarrow> u16" where "arp_op = field16 20"
definition arp_sha :: "u8 list \<Rightarrow> u8 list" where "arp_sha = slice 22 6"
definition arp_spa :: "u8 list \<Rightarrow> u8 list" where "arp_spa = slice 28 4"
definition arp_tpa :: "u8 list \<Rightarrow> u8 list" where "arp_tpa = slice 38 4"
definition ip_proto :: "u8 list \<Rightarrow> u8" where "ip_proto p = p ! 23"
definition ip_src :: "u8 list \<Rightarrow> u8 list" where "ip_src = slice 26 4"
definition ip_dst :: "u8 list \<Rightarrow> u8 list" where "ip_dst = slice 30 4"
definition icmp_type :: "u8 list \<Rightarrow> u8" where "icmp_type p = p ! 34"
definition udp_src_port :: "u8 list \<Rightarrow> u16" where "udp_src_port = field16 34"
definition udp_dst_port :: "u8 list \<Rightarrow> u16" where "udp_dst_port = field16 36"
definition udp_length :: "u8 list \<Rightarrow> u16" where "udp_length = field16 38"

lemmas header_fields = eth_src_def eth_type_def arp_op_def arp_sha_def arp_spa_def arp_tpa_def
  ip_proto_def ip_src_def ip_dst_def icmp_type_def udp_src_port_def udp_dst_port_def udp_length_def

subsection \<open>State\<close>

record arp_entry =
  ae_ip :: "u8 list"
  ae_mac :: "u8 list"
  ae_valid :: bool

record udp_entry =
  ue_port :: u16
  ue_handler :: u32
  ue_used :: bool

text \<open>
  A call of a registered handler: its address and arguments.  The payload argument is a
  pointer into the packet buffer, so it stands for the rest of that buffer.
\<close>

record udp_call =
  uc_handler :: u32
  uc_data :: "u8 list"
  uc_len :: u16
  uc_src_ip :: "u8 list"
  uc_src_port :: u16

record 'n net =
  my_mac :: "u8 list"
  arp_cache :: "arp_entry list"
  udp_handlers :: "udp_entry list"
  udp_calls :: "udp_call list"
  nic :: 'n

record 'n driver =
  d_recv :: "nat \<Rightarrow> 'n \<Rightarrow> u8 list option \<times> 'n" \<comment> \<open>\<open>None\<close>: a result below 0\<close>
  d_send :: "u8 list \<Rightarrow> 'n \<Rightarrow> int \<times> 'n"
  d_mac :: "'n \<Rightarrow> u8 list"
  d_sleep :: "nat \<Rightarrow> 'n \<Rightarrow> 'n" \<comment> \<open>\<^verbatim>\<open>timer_sleep\<close>, during which frames may arrive\<close>

definition net_udp_register :: "u16 \<Rightarrow> u32 \<Rightarrow> 'n net \<Rightarrow> 'n net" where
  "net_udp_register port handler s =
     (case find_slot (\<lambda>e. \<not> ue_used e) (udp_handlers s) of
        Some i \<Rightarrow> s\<lparr>udp_handlers := (udp_handlers s)[i :=
          \<lparr>ue_port = port, ue_handler = handler, ue_used = True\<rparr>]\<rparr>
      | None \<Rightarrow> s)"

subsection \<open>The Internet checksum\<close>

function fold_carry :: "u32 \<Rightarrow> u32" where
  "fold_carry acc =
     (if drop_bit 16 acc \<noteq> 0 then fold_carry ((acc AND 0xFFFF) + drop_bit 16 acc) else acc)"
  by pat_completeness auto

fun sum_words :: "u8 list \<Rightarrow> u32 \<Rightarrow> u32" where
  "sum_words (a # b # p) acc = sum_words p (acc + ucast (le16 a b))"
| "sum_words [a] acc = acc + ucast a"
| "sum_words [] acc = acc"

lemma low_half: "unat (acc AND 0xFFFF :: u32) = unat acc mod 65536"
proof -
  have f: "(0xFFFF :: u32) = mask 16" by (simp add: mask_eq_exp_minus_1)
  show ?thesis
    unfolding f take_bit_eq_mask [symmetric]
    by (subst unsigned_take_bit_eq) (simp add: take_bit_eq_mod)
qed

lemma high_half: "unat (drop_bit 16 acc :: u32) = unat acc div 65536"
  by (subst unat_drop_bit_eq) (simp add: drop_bit_eq_div)

lemma unat_fold_step:
  "unat ((acc AND 0xFFFF) + drop_bit 16 acc :: u32) = unat acc mod 65536 + unat acc div 65536"
proof -
  have "unat acc div 65536 < 65536" using unat32_lt [of acc] by (simp add: less_mult_imp_div_less)
  moreover have "unat acc mod 65536 < 65536" by simp
  ultimately have "unat acc mod 65536 + unat acc div 65536 < 4294967296" by linarith
  then show ?thesis
    by (subst unat32_add_small) (simp_all only: low_half high_half)
qed

termination fold_carry
proof (relation "measure unat", goal_cases)
  case 1
  show ?case by simp
next
  case (2 acc)
  then have d: "unat acc div 65536 \<noteq> 0"
    by (metis high_half unat_eq_zero)
  have "unat acc = 65536 * (unat acc div 65536) + unat acc mod 65536" by simp
  with d have "unat acc mod 65536 + unat acc div 65536 < unat acc" by linarith
  then show ?case by (simp only: in_measure unat_fold_step)
qed

declare fold_carry.simps [simp del]

definition ip_checksum :: "u8 list \<Rightarrow> u16" where
  "ip_checksum p = NOT (ucast (fold_carry (sum_words p 0)))"

subsection \<open>The ARP cache\<close>

definition arp_hit :: "u8 list \<Rightarrow> arp_entry \<Rightarrow> bool" where
  "arp_hit ip e \<longleftrightarrow> ae_valid e \<and> ae_ip e = ip"

definition arp_cache_set :: "u8 list \<Rightarrow> u8 list \<Rightarrow> arp_entry list \<Rightarrow> arp_entry list" where
  "arp_cache_set ip mac t =
     (case find_slot (arp_hit ip) t of
        Some i \<Rightarrow> t[i := (t ! i)\<lparr>ae_mac := mac\<rparr>]
      | None \<Rightarrow>
        (case find_slot (\<lambda>e. \<not> ae_valid e) t of
           Some i \<Rightarrow> t[i := \<lparr>ae_ip = ip, ae_mac = mac, ae_valid = True\<rparr>]
         | None \<Rightarrow> t))"

definition arp_cache_get :: "u8 list \<Rightarrow> arp_entry list \<Rightarrow> u8 list option" where
  "arp_cache_get ip t =
     (case find_slot (arp_hit ip) t of Some i \<Rightarrow> Some (ae_mac (t ! i)) | None \<Rightarrow> None)"

subsection \<open>Incoming packets\<close>

definition send_frame :: "'n driver \<Rightarrow> u8 list \<Rightarrow> 'n net \<Rightarrow> 'n net" where
  "send_frame D p s = s\<lparr>nic := snd (d_send D p (nic s))\<rparr>"

text \<open>Stores of a field into a packet under construction.\<close>

definition put16 :: "nat \<Rightarrow> u16 \<Rightarrow> u8 list \<Rightarrow> u8 list" where
  "put16 pos v p = overlay p pos (le16_bytes v)"

definition eth_fill :: "u8 list \<Rightarrow> u8 list \<Rightarrow> u16 \<Rightarrow> u8 list \<Rightarrow> u8 list" where
  "eth_fill dst src type p = put16 12 (htons type) (overlay (overlay p 0 dst) 6 src)"

definition arp_fill ::
    "u16 \<Rightarrow> u8 list \<Rightarrow> u8 list \<Rightarrow> u8 list \<Rightarrow> u8 list \<Rightarrow> u8 list \<Rightarrow> u8 list" where
  "arp_fill opr sha spa tha tpa p =
     (let p = put16 14 (htons 1) p;
          p = put16 16 (htons ETH_TYPE_IP) p;
          p = p[18 := 6];
          p = p[19 := 4];
          p = put16 20 (htons opr) p;
          p = overlay p 22 sha;
          p = overlay p 28 spa;
          p = overlay p 32 tha
      in overlay p 38 tpa)"

definition handle_arp :: "'n driver \<Rightarrow> u8 list \<Rightarrow> 'n net \<Rightarrow> 'n net" where
  "handle_arp D pkt s =
     (let s = s\<lparr>arp_cache := arp_cache_set (arp_spa pkt) (arp_sha pkt) (arp_cache s)\<rparr> in
      if htons (arp_op pkt) \<noteq> ARP_REQUEST then s
      else if arp_tpa pkt \<noteq> my_ip then s
      else send_frame D
        (arp_fill ARP_REPLY (my_mac s) my_ip (arp_sha pkt) (arp_spa pkt)
          (eth_fill (eth_src pkt) (my_mac s) ETH_TYPE_ARP (replicate 42 0))) s)"

definition handle_icmp :: "'n driver \<Rightarrow> u8 list \<Rightarrow> u16 \<Rightarrow> 'n net \<Rightarrow> 'n net option" where
  "handle_icmp D pkt len s =
     (if icmp_type pkt \<noteq> ICMP_ECHO_REQ then Some s
      else
        (let len = (if 1500 < len then 1500 else len);
             reply = take (unat len) pkt @ replicate (1500 - unat len) 0;
             reply = overlay reply 0 (eth_src pkt);
             reply = overlay reply 6 (my_mac s);
             reply = overlay reply 30 (ip_src pkt);
             reply = overlay reply 26 my_ip;
             reply = put16 24 0 reply;
             reply = put16 24 (ip_checksum (slice 14 20 reply)) reply;
             reply = reply[34 := ICMP_ECHO_REP];
             reply = put16 36 0 reply;
             icmp_len = (ucast len :: u32) - 14 - 20
         in if 1500 - 34 < unat icmp_len then None
            else
              (let reply = put16 36 (ip_checksum (slice 34 (unat icmp_len) reply)) reply
               in Some (send_frame D (take (unat len) reply) s))))"

definition handle_udp :: "u8 list \<Rightarrow> u16 \<Rightarrow> 'n net \<Rightarrow> 'n net" where
  "handle_udp pkt len s =
     (let dst_port = htons (udp_dst_port pkt);
          src_port = htons (udp_src_port pkt);
          pay_len = htons (udp_length pkt) - 8
      in if len < pay_len then s
         else (case find_slot (\<lambda>e. ue_used e \<and> ue_port e = dst_port) (udp_handlers s) of
                 Some i \<Rightarrow> s\<lparr>udp_calls := udp_calls s @ [\<lparr>uc_handler = ue_handler (udp_handlers s ! i),
                     uc_data = drop 42 pkt, uc_len = pay_len, uc_src_ip = ip_src pkt,
                     uc_src_port = src_port\<rparr>]\<rparr>
               | None \<Rightarrow> s))"

definition handle_ip :: "'n driver \<Rightarrow> u8 list \<Rightarrow> u16 \<Rightarrow> 'n net \<Rightarrow> 'n net option" where
  "handle_ip D pkt len s =
     (if ip_dst pkt \<noteq> my_ip then Some s
      else (case (if ip_proto pkt = IP_PROTO_ICMP then handle_icmp D pkt len s else Some s) of
              None \<Rightarrow> None
            | Some s \<Rightarrow> Some (if ip_proto pkt = IP_PROTO_UDP then handle_udp pkt len s else s)))"

definition handle_frame :: "'n driver \<Rightarrow> u8 list \<Rightarrow> u16 \<Rightarrow> 'n net \<Rightarrow> 'n net option" where
  "handle_frame D buf n s =
     (let type = htons (eth_type buf) in
      if type = ETH_TYPE_ARP then Some (handle_arp D buf s)
      else if type = ETH_TYPE_IP then handle_ip D buf n s else Some s)"

text \<open>
  \<^verbatim>\<open>net_poll\<close>: the frame is copied to the start of a buffer of 1500 bytes whose other bytes are
  what the stack frame held before (\<open>buf\<close>).
\<close>

partial_function (option) poll_loop ::
    "'n driver \<Rightarrow> u8 list \<Rightarrow> 'n net \<Rightarrow> 'n net option" where
  "poll_loop D buf s =
     (let (r, n') = d_recv D 1500 (nic s); s = s\<lparr>nic := n'\<rparr> in
      case r of None \<Rightarrow> Some s
      | Some f \<Rightarrow>
          if f = [] then Some s
          else (let buf = overlay buf 0 f in
                case handle_frame D buf (of_nat (length f)) s of None \<Rightarrow> None
                | Some s \<Rightarrow> poll_loop D buf s))"

definition net_poll :: "'n driver \<Rightarrow> u8 list \<Rightarrow> 'n net \<Rightarrow> 'n net option" where
  "net_poll = poll_loop"

subsection \<open>Outgoing packets\<close>

definition timer_wait :: "'n driver \<Rightarrow> nat \<Rightarrow> 'n net \<Rightarrow> 'n net" where
  "timer_wait D ticks s = s\<lparr>nic := d_sleep D ticks (nic s)\<rparr>"

fun await_arp :: "'n driver \<Rightarrow> u8 list \<Rightarrow> u8 list \<Rightarrow> nat \<Rightarrow> 'n net \<Rightarrow> (bool \<times> 'n net) option" where
  "await_arp D buf ip 0 s = Some (False, s)"
| "await_arp D buf ip (Suc n) s =
     (case net_poll D buf s of None \<Rightarrow> None
      | Some s \<Rightarrow> if arp_cache_get ip (arp_cache s) \<noteq> None then Some (True, s)
                  else await_arp D buf ip n (timer_wait D 10 s))"

definition net_arp_request ::
    "'n driver \<Rightarrow> u8 list \<Rightarrow> u8 list \<Rightarrow> 'n net \<Rightarrow> (bool \<times> 'n net) option" where
  "net_arp_request D buf ip s =
     (let pkt = eth_fill bcast (my_mac s) ETH_TYPE_ARP (replicate 42 0);
          pkt = arp_fill ARP_REQUEST (my_mac s) my_ip (replicate 6 0) ip pkt
      in await_arp D buf ip 50 (send_frame D pkt s))"

text \<open>The address of a host: from the cache, or by a request.\<close>

definition resolve_mac ::
    "'n driver \<Rightarrow> u8 list \<Rightarrow> u8 list \<Rightarrow> 'n net \<Rightarrow> (u8 list option \<times> 'n net) option" where
  "resolve_mac D buf ip s =
     (case arp_cache_get ip (arp_cache s) of
        Some mac \<Rightarrow> Some (Some mac, s)
      | None \<Rightarrow>
        (case net_arp_request D buf ip s of None \<Rightarrow> None
         | Some (ok, s) \<Rightarrow> Some (if ok then arp_cache_get ip (arp_cache s) else None, s)))"

definition ip_fill :: "u8 \<Rightarrow> u16 \<Rightarrow> u8 list \<Rightarrow> u8 list \<Rightarrow> u8 list" where
  "ip_fill proto total_len dst p =
     (let p = p[14 := 0x45];
          p = p[22 := 64];
          p = p[23 := proto];
          p = put16 16 (htons total_len) p;
          p = overlay p 26 my_ip;
          p = overlay p 30 dst
      in put16 24 (ip_checksum (slice 14 20 p)) p)"

definition udp_packet ::
    "u8 list \<Rightarrow> u8 list \<Rightarrow> u8 list \<Rightarrow> u16 \<Rightarrow> u16 \<Rightarrow> u8 list \<Rightarrow> u8 list" where
  "udp_packet dst_mac mac dst_ip dst_port src_port data =
     (let len = of_nat (length data) :: u16;
          udp_len = 8 + len;
          ip_len = 20 + udp_len;
          pkt = eth_fill dst_mac mac ETH_TYPE_IP (replicate (14 + 20 + 8 + UDP_MAX_PAYLOAD) 0);
          pkt = ip_fill IP_PROTO_UDP ip_len dst_ip pkt;
          pkt = put16 34 (htons src_port) pkt;
          pkt = put16 36 (htons dst_port) pkt;
          pkt = put16 38 (htons udp_len) pkt;
          pkt = put16 40 0 pkt
      in overlay pkt 42 data)"

definition net_udp_send ::
    "'n driver \<Rightarrow> u8 list \<Rightarrow> u8 list \<Rightarrow> u16 \<Rightarrow> u16 \<Rightarrow> u8 list \<Rightarrow> 'n net \<Rightarrow> (int \<times> 'n net) option" where
  "net_udp_send D buf dst_ip dst_port src_port data s =
     (if UDP_MAX_PAYLOAD < length data then Some (- 1, s)
      else
        (case resolve_mac D buf dst_ip s of None \<Rightarrow> None
         | Some (None, s) \<Rightarrow> Some (- 1, s)
         | Some (Some dst_mac, s) \<Rightarrow>
             (let total = 14 + (20 + (8 + of_nat (length data) :: u16));
                  pkt = udp_packet dst_mac (my_mac s) dst_ip dst_port src_port data
              in Some (int (length data), send_frame D (take (unat total) pkt) s))))"

definition ping_packet :: "u8 list \<Rightarrow> u8 list \<Rightarrow> u8 list \<Rightarrow> u8 list" where
  "ping_packet dst_mac mac ip =
     (let pkt = eth_fill dst_mac mac ETH_TYPE_IP (replicate (14 + 20 + 8 + 32) 0);
          pkt = ip_fill IP_PROTO_ICMP (20 + 8 + 32) ip pkt;
          pkt = pkt[34 := ICMP_ECHO_REQ];
          pkt = put16 38 (htons 0x1337) pkt;
          pkt = put16 40 (htons 1) pkt
      in put16 36 (ip_checksum (slice 34 40 pkt)) pkt)"

fun poll_replies :: "'n driver \<Rightarrow> u8 list \<Rightarrow> nat \<Rightarrow> 'n net \<Rightarrow> 'n net option" where
  "poll_replies D buf 0 s = Some s"
| "poll_replies D buf (Suc n) s =
     (case net_poll D buf s of None \<Rightarrow> None
      | Some s \<Rightarrow> poll_replies D buf n (timer_wait D 10 s))"

definition net_ping :: "'n driver \<Rightarrow> u8 list \<Rightarrow> u8 list \<Rightarrow> 'n net \<Rightarrow> (int \<times> 'n net) option" where
  "net_ping D buf ip s =
     (case resolve_mac D buf ip s of None \<Rightarrow> None
      | Some (None, s) \<Rightarrow> Some (- 1, s)
      | Some (Some dst_mac, s) \<Rightarrow>
          (case poll_replies D buf 100 (send_frame D (ping_packet dst_mac (my_mac s) ip) s) of
             None \<Rightarrow> None
           | Some s \<Rightarrow> Some (0, s)))"

definition net_init :: "'n driver \<Rightarrow> 'n net \<Rightarrow> 'n net" where
  "net_init D s =
     s\<lparr>arp_cache := arp_cache_set [10, 0, 2, 2] [0x52, 0x55, 0x0a, 0x00, 0x02, 0x02]
         (replicate ARP_CACHE_SIZE \<lparr>ae_ip = replicate 4 0, ae_mac = replicate 6 0, ae_valid = False\<rparr>),
       udp_handlers := replicate UDP_HANDLERS_MAX \<lparr>ue_port = 0, ue_handler = 0, ue_used = False\<rparr>,
       my_mac := d_mac D (nic s)\<rparr>"


subsection \<open>Fields of packets\<close>

lemma htons_htons [simp]: "htons (htons v) = v"
  unfolding htons_def
proof (rule bit_word_eqI)
  fix n assume "n < LENGTH(16)"
  then show "bit (drop_bit 8 (drop_bit 8 v OR push_bit 8 v) OR push_bit 8 (drop_bit 8 v OR push_bit 8 v)) n = bit v n"
    by (cases "n < 8") (auto simp: bit_simps)
qed

lemma htons_inject [simp]: "htons v = htons w \<longleftrightarrow> v = w"
  by (metis htons_htons)

lemma length_overlay_in [simp]: "pos + length bs \<le> length p \<Longrightarrow> length (overlay p pos bs) = length p"
  by (rule length_overlay)

lemma length_put16 [simp]: "pos + 2 \<le> length p \<Longrightarrow> length (put16 pos v p) = length p"
  by (simp add: put16_def)

lemma length_slice: "pos + n \<le> length p \<Longrightarrow> length (slice pos n p) = n"
  by (simp add: slice_def)

lemma slice_overlay_same:
  "pos + length bs \<le> length p \<Longrightarrow> n = length bs \<Longrightarrow> slice pos n (overlay p pos bs) = bs"
  by (simp add: slice_def overlay_slice)

lemma slice_overlay_other:
  assumes "a + n \<le> pos \<or> pos + length bs \<le> a" "pos + length bs \<le> length p"
  shows "slice a n (overlay p pos bs) = slice a n p"
proof (rule nth_equalityI)
  show len: "length (slice a n (overlay p pos bs)) = length (slice a n p)"
    using assms(2) by (simp add: slice_def)
  fix i assume "i < length (slice a n (overlay p pos bs))"
  then have "i < n" "a + i < length p" using assms(2) by (auto simp: slice_def)
  then show "slice a n (overlay p pos bs) ! i = slice a n p ! i"
    using assms by (auto simp: slice_def nth_overlay)
qed

lemma slice_put16_other:
  "a + n \<le> pos \<or> pos + 2 \<le> a \<Longrightarrow> pos + 2 \<le> length p \<Longrightarrow> slice a n (put16 pos v p) = slice a n p"
  by (simp add: put16_def slice_overlay_other)

lemma slice_update_other:
  "a + n \<le> i \<or> i < a \<Longrightarrow> slice a n (p[i := v]) = slice a n p"
  by (rule nth_equalityI) (auto simp: slice_def nth_list_update)

lemma slice_put16_in:
  "a \<le> pos \<Longrightarrow> pos + 2 \<le> a + n \<Longrightarrow> a + n \<le> length p \<Longrightarrow>
   slice a n (put16 pos v p) = put16 (pos - a) v (slice a n p)"
  by (rule nth_equalityI) (auto simp: slice_def put16_def nth_overlay add.commute)

lemma field16_put16 [simp]: "pos + 2 \<le> length p \<Longrightarrow> field16 pos (put16 pos v p) = v"
  by (simp add: field16_def put16_def nth_overlay le16_bytes_def)

lemma field16_put16_other:
  "pos + 2 \<le> a \<or> a + 2 \<le> pos \<Longrightarrow> pos + 2 \<le> length p \<Longrightarrow> a + 2 \<le> length p \<Longrightarrow>
   field16 a (put16 pos v p) = field16 a p"
  by (auto simp: field16_def put16_def nth_overlay)

lemma field16_overlay_other:
  "pos + length bs \<le> a \<or> a + 2 \<le> pos \<Longrightarrow> pos + length bs \<le> length p \<Longrightarrow> a + 2 \<le> length p \<Longrightarrow>
   field16 a (overlay p pos bs) = field16 a p"
  by (auto simp: field16_def nth_overlay)

lemma field16_update_other: "i \<noteq> a \<Longrightarrow> i \<noteq> a + 1 \<Longrightarrow> field16 a (p[i := v]) = field16 a p"
  by (simp add: field16_def)

lemma nth_put16_other:
  "i < pos \<or> pos + 2 \<le> i \<Longrightarrow> pos + 2 \<le> length p \<Longrightarrow> i < length p \<Longrightarrow> put16 pos v p ! i = p ! i"
  by (auto simp: put16_def nth_overlay)

lemma nth_overlay_other:
  "i < pos \<or> pos + length bs \<le> i \<Longrightarrow> pos + length bs \<le> length p \<Longrightarrow> i < length p \<Longrightarrow>
   overlay p pos bs ! i = p ! i"
  by (auto simp: nth_overlay)

lemmas packet_simps = slice_overlay_same slice_overlay_other slice_put16_other slice_update_other
  field16_put16_other field16_overlay_other field16_update_other nth_put16_other nth_overlay_other
  length_slice

subsection \<open>The checksum\<close>

fun word_sum :: "u8 list \<Rightarrow> nat" where
  "word_sum (a # b # p) = unat (le16 a b) + word_sum p"
| "word_sum [a] = unat a"
| "word_sum [] = 0"

lemma word_sum_bound: "word_sum p \<le> 65535 * ((length p + 1) div 2)"
proof (induction p rule: word_sum.induct)
  case (1 a b p)
  have "unat (le16 a b) \<le> 65535" using unat16_lt [of "le16 a b"] by linarith
  with 1 show ?case by simp
next
  case (2 a)
  have "unat a \<le> 255" using unat8_lt [of a] by linarith
  then show ?case by simp
qed simp

lemma sum_words_nat: "sum_words p acc = acc + of_nat (word_sum p)"
proof (induction p acc rule: sum_words.induct)
  case (1 a b p acc)
  show ?case
    by (simp only: sum_words.simps word_sum.simps 1 of_nat_add of_nat_unat add.assoc)
next
  case (2 a acc)
  show ?case
    by (simp only: sum_words.simps word_sum.simps of_nat_unat)
qed simp

lemma fold_carry_mod:
  "unat (fold_carry s) < 65536 \<and> unat (fold_carry s) mod 65535 = unat s mod 65535 \<and>
   (fold_carry s = 0 \<longleftrightarrow> s = 0)"
proof (induction s rule: fold_carry.induct)
  case (1 s)
  show ?case
  proof (cases "drop_bit 16 s = 0")
    case True
    then have "unat s div 65536 = 0" by (metis high_half unsigned_0)
    then have "unat s < 65536" by (simp add: div_eq_0_iff)
    with True show ?thesis by (simp add: fold_carry.simps [of s])
  next
    case False
    define t where "t = (s AND 0xFFFF) + drop_bit 16 s"
    have t: "unat t = unat s mod 65536 + unat s div 65536"
      by (simp only: t_def unat_fold_step)
    have s: "unat s = 65536 * (unat s div 65536) + unat s mod 65536" by simp
    have "unat s = 65535 * (unat s div 65536) + unat t" using s t by linarith
    then have m: "unat s mod 65535 = unat t mod 65535"
      by (metis mod_mult_self4)
    have nz: "t \<noteq> 0" "s \<noteq> 0"
    proof -
      have "unat s div 65536 \<noteq> 0" using False by (metis high_half unat_eq_zero)
      then have "unat t \<noteq> 0" using t by linarith
      then show "t \<noteq> 0" by (metis unsigned_0)
      show "s \<noteq> 0" using False by auto
    qed
    have "fold_carry s = fold_carry t"
      using False by (simp add: fold_carry.simps [of s] t_def)
    then show ?thesis
      using 1 [OF False] m nz by (simp add: t_def)
  qed
qed

text \<open>
  The defining property: a block whose checksum field was zero and then received the
  checksum of the block has the checksum zero, which is what the receiver tests.
\<close>

lemma word_sum_overlay:
  "even pos \<Longrightarrow> pos + 2 \<le> length p \<Longrightarrow> field16 pos p = 0 \<Longrightarrow>
   word_sum (put16 pos v p) = word_sum p + unat v"
proof (induction p arbitrary: pos rule: word_sum.induct)
  case (1 a b p)
  show ?case
  proof (cases "pos = 0")
    case True
    then show ?thesis
      using 1(4) by (simp add: put16_def overlay_def le16_bytes_def field16_def)
  next
    case False
    then obtain k where k: "pos = Suc (Suc k)" using 1(2) by (metis even_Suc_Suc_iff not0_implies_Suc odd_one One_nat_def even_Suc)
    have "word_sum (put16 k v p) = word_sum p + unat v"
      by (rule 1(1)) (use 1 k in \<open>auto simp: field16_def\<close>)
    moreover have "put16 pos v (a # b # p) = a # b # put16 k v p"
      by (simp add: k put16_def overlay_def)
    ultimately show ?thesis by simp
  qed
qed simp_all

lemma ip_checksum_nat:
  "ip_checksum p = of_nat (65535 - unat (fold_carry (sum_words p 0)))"
proof -
  define f where "f = unat (fold_carry (sum_words p 0))"
  have f: "f < 65536" using fold_carry_mod by (simp add: f_def)
  have u: "(ucast (fold_carry (sum_words p 0)) :: u16) = of_nat f"
    by (simp add: f_def)
  have m1: "(- 1 :: u16) = of_nat 65535" by simp
  have "f \<le> 65535" using f by simp
  then have "(- 1 :: u16) - of_nat f = of_nat (65535 - f)"
    unfolding m1 by (rule of_nat_diff [symmetric])
  then have "NOT (of_nat f :: u16) = of_nat (65535 - f)"
    unfolding not_eq_complement by (metis diff_diff_eq add.commute minus_diff_commute uminus_add_conv_diff diff_conv_add_uminus)
  then show ?thesis by (simp only: ip_checksum_def u f_def)
qed

lemma ip_checksum_fill:
  assumes "even pos" "pos + 2 \<le> length p" "length p \<le> 2000" "field16 pos p = 0"
  shows "ip_checksum (put16 pos (ip_checksum p) p) = 0"
proof -
  define f where "f = unat (fold_carry (sum_words p 0))"
  have b: "word_sum p \<le> 65535 * 1000"
    by (rule order_trans [OF word_sum_bound]) (use assms(3) in simp)
  have ws: "unat (sum_words p 0) = word_sum p"
    using b by (simp add: sum_words_nat)
  have f: "f < 65536" "f mod 65535 = word_sum p mod 65535" "f = 0 \<longleftrightarrow> word_sum p = 0"
    using fold_carry_mod [of "sum_words p 0"] ws by (auto simp: f_def unat_eq_zero)
  have c: "unat (ip_checksum p) = 65535 - f"
    unfolding ip_checksum_nat f_def [symmetric] by (rule unat16_of_nat_small) simp
  let ?q = "put16 pos (ip_checksum p) p"
  have wq: "word_sum ?q = word_sum p + (65535 - f)"
    using word_sum_overlay [OF assms(1,2,4)] c by simp
  have uq: "unat (sum_words ?q 0) = word_sum p + (65535 - f)"
    unfolding sum_words_nat wq add_0 by (rule unat32_of_nat_small) (use b in linarith)
  have pos: "0 < word_sum p + (65535 - f)"
    using f by linarith
  have "(word_sum p + (65535 - f)) mod 65535 = (f + (65535 - f)) mod 65535"
    by (metis f(2) mod_add_left_eq)
  also have "\<dots> = 0" using f(1) by simp
  finally have m: "(word_sum p + (65535 - f)) mod 65535 = 0" .
  define g where "g = unat (fold_carry (sum_words ?q 0))"
  have g: "g < 65536" "g mod 65535 = 0" "g \<noteq> 0"
    using fold_carry_mod [of "sum_words ?q 0"] uq m pos
    by (auto simp: g_def unat_eq_zero)
  then obtain k where k: "g = 65535 * k" using g(2) by (metis dvdE mod_eq_0_iff_dvd)
  have "k = 1"
  proof (rule ccontr)
    assume "k \<noteq> 1"
    with k g(3) have "2 \<le> k" by (cases k) auto
    with k g(1) show False by simp
  qed
  with k have "g = 65535" by simp
  moreover have "ip_checksum ?q = of_nat (65535 - g)"
    unfolding g_def by (rule ip_checksum_nat)
  ultimately show ?thesis by simp
qed

lemma slice_take: "pos + n \<le> m \<Longrightarrow> slice pos n (take m p) = slice pos n p"
  by (simp add: slice_def drop_take min_def)

lemma slice_append: "pos + n \<le> length p \<Longrightarrow> slice pos n (p @ q) = slice pos n p"
  by (simp add: slice_def)

lemma field16_append: "pos + 2 \<le> length p \<Longrightarrow> field16 pos (p @ q) = field16 pos p"
  by (simp add: field16_def nth_append)

lemma field16_slice: "a \<le> pos \<Longrightarrow> pos + 2 \<le> a + n \<Longrightarrow> a + n \<le> length p \<Longrightarrow>
   field16 (pos - a) (slice a n p) = field16 pos p"
  by (simp add: field16_def slice_def)

lemma ip_checksum_fill_in:
  assumes "a \<le> pos" "pos + 2 \<le> a + n" "a + n \<le> length p" "even (pos - a)" "n \<le> 2000" "field16 pos p = 0"
  shows "ip_checksum (slice a n (put16 pos (ip_checksum (slice a n p)) p)) = 0"
  unfolding slice_put16_in [OF assms(1-3)]
  by (rule ip_checksum_fill) (use assms in \<open>simp_all add: length_slice field16_slice\<close>)

lemma length_eth_fill [simp]:
  "length dst = 6 \<Longrightarrow> length src = 6 \<Longrightarrow> 14 \<le> length p \<Longrightarrow> length (eth_fill dst src t p) = length p"
  by (simp add: eth_fill_def)

lemma eth_fill_fields:
  assumes "length dst = 6" "length src = 6" "14 \<le> length p"
  shows "slice 0 6 (eth_fill dst src t p) = dst" "slice 6 6 (eth_fill dst src t p) = src"
    "field16 12 (eth_fill dst src t p) = htons t"
    "14 \<le> a \<Longrightarrow> slice a n (eth_fill dst src t p) = slice a n p"
  using assms by (simp_all add: eth_fill_def packet_simps)

lemma length_arp_fill [simp]:
  "length sha = 6 \<Longrightarrow> length spa = 4 \<Longrightarrow> length tha = 6 \<Longrightarrow> length tpa = 4 \<Longrightarrow> length p = 42 \<Longrightarrow>
   length (arp_fill opr sha spa tha tpa p) = 42"
  by (simp add: arp_fill_def)

lemma arp_fill_fields:
  assumes "length sha = 6" "length spa = 4" "length tha = 6" "length tpa = 4" "length p = 42"
  shows "slice 0 6 (arp_fill opr sha spa tha tpa p) = slice 0 6 p"
    "slice 6 6 (arp_fill opr sha spa tha tpa p) = slice 6 6 p"
    "field16 12 (arp_fill opr sha spa tha tpa p) = field16 12 p"
    "field16 20 (arp_fill opr sha spa tha tpa p) = htons opr"
    "slice 22 6 (arp_fill opr sha spa tha tpa p) = sha"
    "slice 28 4 (arp_fill opr sha spa tha tpa p) = spa"
    "slice 32 6 (arp_fill opr sha spa tha tpa p) = tha"
    "slice 38 4 (arp_fill opr sha spa tha tpa p) = tpa"
  using assms by (simp_all add: arp_fill_def packet_simps Let_def)

text \<open>The reply to an echo request, field by field.\<close>

definition echo_reply :: "u8 list \<Rightarrow> nat \<Rightarrow> u8 list \<Rightarrow> u8 list \<Rightarrow> bool" where
  "echo_reply req n mac r \<longleftrightarrow>
     length r = n \<and>
     slice 0 6 r = eth_src req \<and> eth_src r = mac \<and> eth_type r = eth_type req \<and>
     ip_src r = my_ip \<and> ip_dst r = ip_src req \<and> slice 14 10 r = slice 14 10 req \<and>
     icmp_type r = ICMP_ECHO_REP \<and> drop 38 r = drop 38 (take n req) \<and>
     ip_checksum (slice 14 20 r) = 0 \<and> ip_checksum (drop 34 r) = 0"

lemma drop_overlay_before: "pos + length bs \<le> a \<Longrightarrow> pos + length bs \<le> length p \<Longrightarrow> drop a (overlay p pos bs) = drop a p"
  by (rule nth_equalityI) (auto simp: nth_overlay)

lemma take_overlay_before:
  "pos + length bs \<le> n \<Longrightarrow> n \<le> length p \<Longrightarrow> take n (overlay p pos bs) = overlay (take n p) pos bs"
  by (rule nth_equalityI) (auto simp: nth_overlay)

lemma field16_take: "pos + 2 \<le> n \<Longrightarrow> field16 pos (take n p) = field16 pos p"
  by (simp add: field16_def)

lemma slice_to_end: "slice a (length p - a) p = drop a p"
  by (simp add: slice_def)

lemma handle_icmp_echo:
  assumes "icmp_type pkt = ICMP_ECHO_REQ" "38 \<le> unat len" "len \<le> 1500" "length pkt = 1500"
    "length (my_mac s) = 6"
  shows "\<exists>r. handle_icmp D pkt len s = Some (send_frame D r s) \<and> echo_reply pkt (unat len) (my_mac s) r"
proof -
  define n where "n = unat len"
  have n: "38 \<le> n" "n \<le> 1500" using assms(2,3) by (simp_all add: n_def word_le_nat_alt)
  define r0 where "r0 = take n pkt @ replicate (1500 - n) 0"
  define r1 where "r1 = overlay (overlay r0 0 (eth_src pkt)) 6 (my_mac s)"
  define r2 where "r2 = put16 24 0 (overlay (overlay r1 30 (ip_src pkt)) 26 my_ip)"
  define r3 where "r3 = put16 24 (ip_checksum (slice 14 20 r2)) r2"
  define r4 where "r4 = put16 36 0 (r3[34 := ICMP_ECHO_REP])"
  define r5 where "r5 = put16 36 (ip_checksum (slice 34 (n - 34) r4)) r4"
  have f: "length (eth_src pkt) = 6" "length (ip_src pkt) = 4" "length my_ip = 4"
    using assms(4) by (simp_all add: header_fields my_ip_def length_slice)
  have l0: "length r0 = 1500" using n assms(4) by (simp add: r0_def)
  have l1: "length r1 = 1500" using l0 f assms(5) by (simp add: r1_def)
  have l2: "length r2 = 1500" using l1 f by (simp add: r2_def)
  have l3: "length r3 = 1500" using l2 by (simp add: r3_def)
  have l4: "length r4 = 1500" using l3 by (simp add: r4_def)
  have il: "unat ((ucast len :: u32) - 14 - 20) = n - 34"
  proof -
    have "(ucast len :: u32) - 14 - 20 = of_nat n - of_nat 34" by (simp add: n_def)
    also have "\<dots> = of_nat (n - 34)" using n by (simp only: of_nat_diff)
    finally show ?thesis by (simp only:) (rule unat32_of_nat_small, use n in simp)
  qed
  have le: "(1500 < len) = False" "(1500 - 34 < n - 34) = False" using assms(3) n by auto
  have call: "handle_icmp D pkt len s = Some (send_frame D (take n r5) s)"
    using assms(1)
    by (simp only: handle_icmp_def il le if_False n_def [symmetric] r0_def [symmetric] r1_def [symmetric]
        r2_def [symmetric] r3_def [symmetric] r4_def [symmetric] r5_def [symmetric] Let_def)
      simp
  have s0: "slice a k r0 = slice a k pkt" if "a + k \<le> n" for a k
    using that n assms(4) by (simp add: r0_def slice_append slice_take)
  have f0: "field16 12 r0 = field16 12 pkt" using n assms(4) by (simp add: r0_def field16_def nth_append)
  have h: "ip_checksum (slice 14 20 r3) = 0"
    unfolding r3_def by (rule ip_checksum_fill_in) (use l1 f in \<open>simp_all add: l2, simp add: r2_def\<close>)
  have p: "ip_checksum (slice 34 (n - 34) r5) = 0"
    unfolding r5_def
    by (rule ip_checksum_fill_in) (use n l4 l3 in \<open>simp_all, simp add: r4_def\<close>)
  have lens: "length r0 = 1500" "length r1 = 1500" "length r2 = 1500" "length r3 = 1500" "length r4 = 1500"
    using l0 l1 l2 l3 l4 by simp_all
  have e: "echo_reply pkt n (my_mac s) (take n r5)"
    unfolding echo_reply_def header_fields
  proof (intro conjI)
    have lr5: "length r5 = 1500" using l4 by (simp add: r5_def)
    show "length (take n r5) = n" using lr5 n by simp
    show "slice 0 6 (take n r5) = slice 6 6 pkt"
      using lens f assms(5) n
      by (simp add: slice_take r5_def r4_def r3_def r2_def r1_def packet_simps) (simp add: header_fields)
    show "slice 6 6 (take n r5) = my_mac s"
      using lens f assms(5) n
      by (simp add: slice_take r5_def r4_def r3_def r2_def r1_def packet_simps)
    show "field16 12 (take n r5) = field16 12 pkt"
      using lens f assms(5) n f0
      by (simp add: field16_take r5_def r4_def r3_def r2_def r1_def packet_simps)
    show "slice 26 4 (take n r5) = my_ip"
      using lens f assms(5) n
      by (simp add: slice_take r5_def r4_def r3_def r2_def r1_def packet_simps)
    show "slice 30 4 (take n r5) = slice 26 4 pkt"
      using lens f assms(5) n
      by (simp add: slice_take r5_def r4_def r3_def r2_def r1_def packet_simps) (simp add: header_fields)
    show "slice 14 10 (take n r5) = slice 14 10 pkt"
      using lens f assms(5) n s0
      by (simp add: slice_take r5_def r4_def r3_def r2_def r1_def packet_simps)
    show "take n r5 ! 34 = ICMP_ECHO_REP"
      using lens n by (simp add: r5_def r4_def packet_simps)
    show "drop 38 (take n r5) = drop 38 (take n pkt)"
    proof -
      have "drop 38 (take n r5) = slice 38 (n - 38) r5" by (simp add: slice_def drop_take)
      also have "\<dots> = slice 38 (n - 38) r0"
        using lens f assms(5) by (simp add: r5_def r4_def r3_def r2_def r1_def packet_simps)
      also have "\<dots> = drop 38 (take n pkt)" using s0 [of 38 "n - 38"] n by (simp add: slice_def drop_take)
      finally show ?thesis .
    qed
    show "ip_checksum (slice 14 20 (take n r5)) = 0"
      using h n lens by (simp add: slice_take r5_def r4_def packet_simps)
    show "ip_checksum (drop 34 (take n r5)) = 0"
      using p n lr5 by (simp add: slice_def drop_take)
  qed
  then show ?thesis using call by (auto simp: n_def)
qed

subsection \<open>The ARP cache as a slot table\<close>

definition arp_entry_ok :: "arp_entry \<Rightarrow> bool" where
  "arp_entry_ok e \<longleftrightarrow> length (ae_ip e) = 4 \<and> length (ae_mac e) = 6"

definition arp_key_of :: "arp_entry \<Rightarrow> u8 list option" where
  "arp_key_of e = (if ae_valid e then Some (ae_ip e) else None)"

text \<open>Addresses of the wrong length cannot be stored: the code copies 4 and 6 bytes.\<close>

definition pad_to :: "nat \<Rightarrow> u8 list \<Rightarrow> u8 list" where
  "pad_to n bs = take n (bs @ replicate n 0)"

lemma length_pad_to [simp]: "length (pad_to n bs) = n"
  by (simp add: pad_to_def)

lemma pad_to_id [simp]: "length bs = n \<Longrightarrow> pad_to n bs = bs"
  by (simp add: pad_to_def)

interpretation arp: slot_table arp_key_of ae_mac "\<lambda>mac e. e\<lparr>ae_mac := pad_to 6 mac\<rparr>"
    "\<lambda>ip mac e. \<lparr>ae_ip = pad_to 4 ip, ae_mac = pad_to 6 mac, ae_valid = True\<rparr>" arp_entry_ok
    "\<lambda>ip. length ip = 4" "\<lambda>mac. length mac = 6" id 8
  by unfold_locales (auto simp: arp_key_of_def arp_entry_ok_def split: if_splits)

lemma arp_hit_key: "arp_hit ip = (\<lambda>e. arp_key_of e = Some ip)"
  by (rule ext) (auto simp: arp_hit_def arp_key_of_def)

lemma arp_free_key: "(\<lambda>e. \<not> ae_valid e) = (\<lambda>e. arp_key_of e = None)"
  by (rule ext) (simp add: arp_key_of_def)

lemma arp_cache_set_put: "length ip = 4 \<Longrightarrow> length mac = 6 \<Longrightarrow> arp_cache_set ip mac t = arp.put ip mac t"
  by (simp add: arp_cache_set_def arp.put_def slot_put_def slot_find_def slot_free_def arp_hit_key
      arp_free_key split: option.splits)

lemma arp_cache_get_slot: "arp_cache_get ip t = slot_lookup arp_key_of ae_mac ip t"
  by (simp add: arp_cache_get_def slot_lookup_def slot_find_def arp_hit_key split: option.splits)

definition arp_cache_ok :: "arp_entry list \<Rightarrow> bool" where
  "arp_cache_ok t \<longleftrightarrow> length t = ARP_CACHE_SIZE \<and> (\<forall>e \<in> set t. arp_entry_ok e)"

lemma arp_cache_ok_table: "arp_cache_ok t = arp.table_ok t"
  by (simp add: arp_cache_ok_def arp.table_ok_def ARP_CACHE_SIZE_def)

definition arp_room :: "arp_entry list \<Rightarrow> u8 list \<Rightarrow> bool" where
  "arp_room t ip \<longleftrightarrow> (\<exists>e \<in> set t. \<not> ae_valid e \<or> arp_hit ip e)"

lemma arp_room_slot: "arp_room t ip \<longleftrightarrow> slot_room arp_key_of t ip"
  using find_slot_None [of "arp_hit ip" t] find_slot_None [of "\<lambda>e. \<not> ae_valid e" t]
  by (simp add: arp_room_def slot_room_def slot_find_def slot_free_def arp_hit_key arp_free_key) blast

lemma arp_cache_set_ok [kinv]:
  "arp_cache_ok t \<Longrightarrow> length ip = 4 \<Longrightarrow> length mac = 6 \<Longrightarrow> arp_cache_ok (arp_cache_set ip mac t)"
  by (simp add: arp_cache_ok_table arp_cache_set_put arp.table_ok_put)

lemma arp_cache_get_length: "arp_cache_ok t \<Longrightarrow> arp_cache_get ip t = Some mac \<Longrightarrow> length mac = 6"
  by (auto simp: arp_cache_ok_def arp_cache_get_def arp_entry_ok_def find_slot_Some split: option.splits)

definition net_ok :: "'n net \<Rightarrow> bool" where
  "net_ok s \<longleftrightarrow> length (my_mac s) = 6 \<and> arp_cache_ok (arp_cache s) \<and>
     length (udp_handlers s) = UDP_HANDLERS_MAX"

lemma arp_cache_blank_ok:
  "arp_cache_ok (replicate ARP_CACHE_SIZE \<lparr>ae_ip = replicate 4 0, ae_mac = replicate 6 0, ae_valid = False\<rparr>)"
  by (simp add: arp_cache_ok_def arp_entry_ok_def)

lemma net_ok_init [kinv]: "length (d_mac D (nic s)) = 6 \<Longrightarrow> net_ok (net_init D s)"
  by (simp add: net_ok_def net_init_def arp_cache_set_ok arp_cache_blank_ok)

lemma net_ok_register [kinv]: "net_ok s \<Longrightarrow> net_ok (net_udp_register port h s)"
  by (auto simp: net_ok_def net_udp_register_def split: option.splits)

lemma send_frame_sel [simp]:
  "my_mac (send_frame D p s) = my_mac s" "arp_cache (send_frame D p s) = arp_cache s"
  "udp_handlers (send_frame D p s) = udp_handlers s" "udp_calls (send_frame D p s) = udp_calls s"
  "nic (send_frame D p s) = snd (d_send D p (nic s))"
  by (simp_all add: send_frame_def)

lemma packet_field_lengths:
  assumes "length p = 1500"
  shows "length (eth_src p) = 6" "length (arp_sha p) = 6" "length (arp_spa p) = 4"
    "length (arp_tpa p) = 4" "length (ip_src p) = 4" "length (ip_dst p) = 4"
  using assms by (simp_all add: header_fields length_slice)

lemma net_ok_arp [kinv]: "net_ok s \<Longrightarrow> length pkt = 1500 \<Longrightarrow> net_ok (handle_arp D pkt s)"
  by (simp add: net_ok_def handle_arp_def Let_def arp_cache_set_ok packet_field_lengths)

lemma net_ok_icmp [kinv]: "net_ok s \<Longrightarrow> handle_icmp D pkt len s = Some s' \<Longrightarrow> net_ok s'"
  by (auto simp: net_ok_def handle_icmp_def Let_def split: if_splits)

lemma net_ok_udp [kinv]: "net_ok s \<Longrightarrow> net_ok (handle_udp pkt len s)"
  by (auto simp: net_ok_def handle_udp_def Let_def split: option.splits)

lemma net_ok_ip [kinv]: "net_ok s \<Longrightarrow> handle_ip D pkt len s = Some s' \<Longrightarrow> net_ok s'"
  by (auto simp: handle_ip_def split: option.splits if_splits intro: net_ok_icmp net_ok_udp)

lemma net_ok_frame [kinv]:
  "net_ok s \<Longrightarrow> length buf = 1500 \<Longrightarrow> handle_frame D buf n s = Some s' \<Longrightarrow> net_ok s'"
  by (auto simp: handle_frame_def Let_def split: if_splits intro: net_ok_arp net_ok_ip)

text \<open>No frame of at least 34 bytes is handled outside the buffer.\<close>

lemma handle_icmp_returns:
  assumes "34 \<le> unat len"
  shows "\<exists>s'. handle_icmp D pkt len s = Some s'"
proof -
  define l where "l = (if 1500 < len then 1500 else len)"
  have l: "34 \<le> unat l" "unat l \<le> 1500"
    using assms by (auto simp: l_def word_less_nat_alt)
  have "(ucast l :: u32) - 14 - 20 = of_nat (unat l) - of_nat 34" by simp
  also have "\<dots> = of_nat (unat l - 34)" using l by (simp only: of_nat_diff)
  finally have "unat ((ucast l :: u32) - 14 - 20) = unat l - 34"
    by (simp only:) (rule unat32_of_nat_small, use l in simp)
  then have "\<not> 1500 - 34 < unat ((ucast l :: u32) - 14 - 20)" using l by simp
  then show ?thesis
    by (simp only: handle_icmp_def l_def [symmetric] Let_def if_False) auto
qed

lemma handle_frame_returns: "34 \<le> unat len \<Longrightarrow> \<exists>s'. handle_frame D buf len s = Some s'"
  using handle_icmp_returns [of len D buf s]
  by (auto simp: handle_frame_def handle_ip_def Let_def)

text \<open>
  A shorter echo request is not checked for: the length of its ICMP part wraps to almost
  \<open>2 ^ 32\<close> and the checksum runs through all memory.
\<close>

lemma handle_icmp_short_overruns:
  assumes "icmp_type pkt = ICMP_ECHO_REQ" "unat len < 34"
  shows "handle_icmp D pkt len s = None"
proof -
  have le: "(1500 < len) = False" using assms(2) by (simp add: word_less_nat_alt)
  have "(ucast len :: u32) - 14 - 20 = of_nat (unat len) + of_nat 4294967262" by simp
  also have "\<dots> = of_nat (unat len + 4294967262)" by simp
  finally have "unat ((ucast len :: u32) - 14 - 20) = unat len + 4294967262"
    by (simp only:) (rule unat32_of_nat_small, use assms(2) in simp)
  then have "1500 - 34 < unat ((ucast len :: u32) - 14 - 20)" by simp
  then show ?thesis
    using assms(1) by (simp only: handle_icmp_def le if_False Let_def) simp
qed


subsection \<open>Datagrams\<close>

lemma slice_received: "a + n \<le> length f \<Longrightarrow> length f \<le> length buf \<Longrightarrow> slice a n (overlay buf 0 f) = slice a n f"
  by (simp add: slice_def overlay_0)

lemma field16_received: "a + 2 \<le> length f \<Longrightarrow> length f \<le> length buf \<Longrightarrow> field16 a (overlay buf 0 f) = field16 a f"
  by (simp add: field16_def overlay_0 nth_append)

lemma nth_received: "i < length f \<Longrightarrow> overlay buf 0 f ! i = f ! i"
  by (simp add: overlay_0 nth_append)

lemma ip_fill_fields:
  assumes "length dst = 4" "34 \<le> length p"
  shows "length (ip_fill proto n dst p) = length p" "slice 0 6 (ip_fill proto n dst p) = slice 0 6 p"
    "slice 6 6 (ip_fill proto n dst p) = slice 6 6 p"
    "field16 12 (ip_fill proto n dst p) = field16 12 p" "ip_fill proto n dst p ! 23 = proto"
    "slice 26 4 (ip_fill proto n dst p) = my_ip" "slice 30 4 (ip_fill proto n dst p) = dst"
    "34 \<le> a \<Longrightarrow> slice a k (ip_fill proto n dst p) = slice a k p"
  using assms by (simp_all add: ip_fill_def packet_simps Let_def my_ip_def)

lemma ip_fill_checksum:
  assumes "length dst = 4" "34 \<le> length p" "field16 24 p = 0"
  shows "ip_checksum (slice 14 20 (ip_fill proto n dst p)) = 0"
  unfolding ip_fill_def Let_def
  by (rule ip_checksum_fill_in) (use assms in \<open>simp_all add: my_ip_def packet_simps\<close>)

lemma field16_replicate: "a + 2 \<le> n \<Longrightarrow> field16 a (replicate n 0) = 0"
  by (simp add: field16_def le16_def)

lemma udp_packet_fields:
  fixes dport sport :: u16
  assumes "length data \<le> UDP_MAX_PAYLOAD" "length dst_mac = 6" "length mac = 6" "length ip = 4"
  defines "p \<equiv> udp_packet dst_mac mac ip dport sport data"
  shows "length p = 554" "slice 0 6 p = dst_mac" "slice 6 6 p = mac" "field16 12 p = htons ETH_TYPE_IP"
    "p ! 23 = IP_PROTO_UDP" "slice 26 4 p = my_ip" "slice 30 4 p = ip"
    "field16 34 p = htons sport" "field16 36 p = htons dport"
    "field16 38 p = htons (8 + of_nat (length data))" "slice 42 (length data) p = data"
    "ip_checksum (slice 14 20 p) = 0"
proof -
  have d: "length data \<le> 512" using assms(1) by (simp add: UDP_MAX_PAYLOAD_def)
  note fields = p_def udp_packet_def Let_def UDP_MAX_PAYLOAD_def packet_simps eth_fill_fields ip_fill_fields
  show "length p = 554" "slice 0 6 p = dst_mac" "slice 6 6 p = mac" "field16 12 p = htons ETH_TYPE_IP"
    "p ! 23 = IP_PROTO_UDP" "slice 26 4 p = my_ip" "slice 30 4 p = ip"
    "field16 34 p = htons sport" "field16 36 p = htons dport"
    "field16 38 p = htons (8 + of_nat (length data))" "slice 42 (length data) p = data"
    using assms(2-4) d by (simp_all add: fields)
  have "field16 24 (eth_fill dst_mac mac ETH_TYPE_IP (replicate 554 0)) = 0"
    using assms(2,3) by (simp add: eth_fill_def packet_simps field16_replicate)
  then have "ip_checksum (slice 14 20 (ip_fill IP_PROTO_UDP n ip
      (eth_fill dst_mac mac ETH_TYPE_IP (replicate 554 0)))) = 0" for n
    using assms(2-4) by (simp add: ip_fill_checksum)
  then show "ip_checksum (slice 14 20 p) = 0"
    using assms(2-4) d by (simp add: fields)
qed

lemma udp_delivery:
  fixes dport sport :: u16
  assumes "length data \<le> UDP_MAX_PAYLOAD" "length dst_mac = 6" "length mac = 6" "length buf = 1500"
    "find_slot (\<lambda>e. ue_used e \<and> ue_port e = dport) (udp_handlers s) = Some i"
  defines "frame \<equiv> take (42 + length data) (udp_packet dst_mac mac my_ip dport sport data)"
  shows "handle_frame D (overlay buf 0 frame) (of_nat (length frame)) s = Some (s\<lparr>udp_calls := udp_calls s @
     [\<lparr>uc_handler = ue_handler (udp_handlers s ! i), uc_data = data @ drop (42 + length data) buf,
       uc_len = of_nat (length data), uc_src_ip = my_ip, uc_src_port = sport\<rparr>]\<rparr>)"
proof -
  have d: "length data \<le> 512" using assms(1) by (simp add: UDP_MAX_PAYLOAD_def)
  have ip: "length my_ip = 4" by (simp add: my_ip_def)
  note p = udp_packet_fields [OF assms(1-3) ip, of dport sport]
  have fl: "length frame = 42 + length data" using d by (simp add: frame_def p)
  let ?b = "overlay buf 0 frame"
  have f: "length frame \<le> length buf" using fl d assms(4) by simp
  have b: "htons (eth_type ?b) = ETH_TYPE_IP" "ip_dst ?b = my_ip" "ip_proto ?b = IP_PROTO_UDP"
    "htons (udp_dst_port ?b) = dport" "htons (udp_src_port ?b) = sport"
    "htons (udp_length ?b) - 8 = of_nat (length data)" "ip_src ?b = my_ip"
    using f fl d
    by (simp_all add: header_fields slice_received field16_received nth_received,
        simp_all add: frame_def field16_take slice_take p)
  have payload: "drop 42 ?b = data @ drop (42 + length data) buf"
  proof -
    have "drop 42 frame = slice 42 (length data) (udp_packet dst_mac mac my_ip dport sport data)"
      by (simp add: frame_def slice_def drop_take)
    then have "drop 42 frame = data" by (simp add: p)
    then show ?thesis using fl by (simp add: overlay_0)
  qed
  have len: "\<not> (of_nat (length frame) :: u16) < of_nat (length data)"
    using d by (simp add: fl word_less_nat_alt del: of_nat_add)
  show ?thesis
    using b payload len assms(5)
    by (simp add: handle_frame_def handle_ip_def handle_udp_def net_consts Let_def)
qed

subsection \<open>The interface of the driver\<close>

text \<open>
  What the stack relies on: received frames come in the order they arrived, each cut to the
  size asked for, an empty result says there is none, a frame sent goes out once and
  whole, and neither sending nor sleeping loses what has arrived.
\<close>

locale nic_driver =
  fixes D :: "'n driver"
    and pending :: "'n \<Rightarrow> u8 list list"
    and sent :: "'n \<Rightarrow> u8 list list"
    and nok :: "'n \<Rightarrow> bool"
  assumes recv_none: "nok n \<Longrightarrow> pending n = [] \<Longrightarrow>
      \<exists>n'. d_recv D m n = (Some [], n') \<and> nok n' \<and> pending n' = [] \<and> sent n' = sent n"
    and recv_frame: "nok n \<Longrightarrow> pending n = f # fs \<Longrightarrow>
      \<exists>n'. d_recv D m n = (Some (take m f), n') \<and> nok n' \<and> pending n' = fs \<and> sent n' = sent n"
    and send: "nok n \<Longrightarrow> length p \<le> 1514 \<Longrightarrow>
      \<exists>n'. d_send D p n = (int (length p), n') \<and> nok n' \<and> pending n' = pending n \<and> sent n' = sent n @ [p]"
    and sleep: "nok n \<Longrightarrow> nok (d_sleep D k n)"
    and frame_length: "nok n \<Longrightarrow> f \<in> set (pending n) \<Longrightarrow> 34 \<le> length f"
begin

definition stack_ok :: "'n net \<Rightarrow> bool" where
  "stack_ok s \<longleftrightarrow> net_ok s \<and> nok (nic s)"

lemma send_ok:
  assumes "stack_ok s" "length p \<le> 1514"
  shows "stack_ok (send_frame D p s)" "pending (nic (send_frame D p s)) = pending (nic s)"
    "sent (nic (send_frame D p s)) = sent (nic s) @ [p]"
  using send [of "nic s" p] assms by (auto simp: stack_ok_def net_ok_def)

lemma frame_keeps:
  assumes "stack_ok s" "length buf = 1500" "34 \<le> unat len"
  shows "\<exists>s'. handle_frame D buf len s = Some s' \<and> stack_ok s' \<and> pending (nic s') = pending (nic s)"
proof -
  obtain s' where s': "handle_frame D buf len s = Some s'"
    using handle_frame_returns [OF assms(3)] by blast
  have ok: "net_ok s'"
    using net_ok_frame [OF _ assms(2) s'] assms(1) by (simp add: stack_ok_def)
  have "nok (nic s') \<and> pending (nic s') = pending (nic s)"
  proof -
    have len6: "length (my_mac s) = 6" using assms(1) by (simp add: stack_ok_def net_ok_def)
    have arp: "nok (nic (handle_arp D buf s)) \<and> pending (nic (handle_arp D buf s)) = pending (nic s)"
    proof -
      define t where "t = s\<lparr>arp_cache := arp_cache_set (arp_spa buf) (arp_sha buf) (arp_cache s)\<rparr>"
      have t: "nok (nic t)" "nic t = nic s" using assms(1) by (simp_all add: t_def stack_ok_def)
      have "length (arp_fill ARP_REPLY (my_mac t) my_ip (arp_sha buf) (arp_spa buf)
          (eth_fill (eth_src buf) (my_mac t) ETH_TYPE_ARP (replicate 42 0))) \<le> 1514"
        using assms(2) len6 by (simp add: t_def packet_field_lengths my_ip_def)
      from send [OF t(1) this] show ?thesis
        using t by (auto simp: handle_arp_def t_def [symmetric] Let_def simp del: t_def)
    qed
    have icmp: "nok (nic s1) \<and> pending (nic s1) = pending (nic s)"
      if h: "handle_icmp D buf len s = Some s1" for s1
    proof (cases "icmp_type buf = ICMP_ECHO_REQ")
      case True
      define l where "l = (if 1500 < len then 1500 else len)"
      have "unat l \<le> 1500" by (auto simp: l_def word_less_nat_alt)
      moreover obtain r where "s1 = send_frame D (take (unat l) r) s"
        using h True by (auto simp: handle_icmp_def Let_def l_def split: if_splits)
      moreover have "length (take (unat l) r) \<le> 1514"
        using \<open>unat l \<le> 1500\<close> by simp
      ultimately show ?thesis
        using send_ok [OF assms(1), of "take (unat l) r"] by (simp add: stack_ok_def)
    next
      case False
      then show ?thesis using h assms(1) by (auto simp: handle_icmp_def stack_ok_def)
    qed
    have udp: "nic (handle_udp buf len t) = nic t" for t :: "'n net"
      by (auto simp: handle_udp_def Let_def split: option.splits)
    show ?thesis
      using s' arp icmp udp assms(1)
      by (auto simp: handle_frame_def handle_ip_def Let_def stack_ok_def split: if_splits option.splits)
  qed
  then show ?thesis using s' ok by (auto simp: stack_ok_def)
qed

lemma poll_empties:
  "stack_ok s \<Longrightarrow> length buf = 1500 \<Longrightarrow>
   \<exists>s'. poll_loop D buf s = Some s' \<and> stack_ok s' \<and> pending (nic s') = []"
proof (induction "pending (nic s)" arbitrary: s buf)
  case Nil
  then obtain n' where "d_recv D 1500 (nic s) = (Some [], n')" "nok n'" "pending n' = []"
    using recv_none [of "nic s" 1500] by (auto simp: stack_ok_def)
  then show ?case
    using Nil.prems by (subst poll_loop.simps) (simp add: stack_ok_def net_ok_def Let_def)
next
  case (Cons f fs)
  obtain n' where n': "d_recv D 1500 (nic s) = (Some (take 1500 f), n')" "nok n'" "pending n' = fs"
    using recv_frame [of "nic s" f fs 1500] Cons by (auto simp: stack_ok_def)
  have "f \<in> set (pending (nic s))" by (simp add: Cons.hyps(2) [symmetric])
  then have f: "34 \<le> length f" using frame_length Cons.prems(1) by (auto simp: stack_ok_def)
  let ?f = "take 1500 f" and ?s = "s\<lparr>nic := n'\<rparr>"
  let ?buf = "overlay buf 0 ?f"
  have s: "stack_ok ?s" using Cons.prems n' by (simp add: stack_ok_def net_ok_def)
  have b: "length ?buf = 1500" using Cons.prems by simp
  have l: "34 \<le> unat (of_nat (length ?f) :: u16)" using f by simp
  obtain s1 where s1: "handle_frame D ?buf (of_nat (length ?f)) ?s = Some s1" "stack_ok s1"
    "pending (nic s1) = fs"
    using frame_keeps [OF s b l] n' by auto
  obtain s2 where s2: "poll_loop D ?buf s1 = Some s2" "stack_ok s2" "pending (nic s2) = []"
    using Cons.hyps(1) [OF _ s1(2) b] s1(3) by auto
  have ne: "?f \<noteq> []" using f by auto
  have "poll_loop D buf s = poll_loop D ?buf s1"
    using n' ne s1(1) by (subst poll_loop.simps) (simp add: Let_def)
  then show ?case using s2 by auto
qed

lemma poll_returns:
  assumes "stack_ok s" "length buf = 1500"
  shows "\<exists>s'. net_poll D buf s = Some s' \<and> stack_ok s' \<and> pending (nic s') = []"
  unfolding net_poll_def by (rule poll_empties [OF assms])

lemma wait_ok: "stack_ok s \<Longrightarrow> stack_ok (timer_wait D k s)"
  by (simp add: stack_ok_def timer_wait_def net_ok_def sleep)

lemma await_arp_returns:
  "stack_ok s \<Longrightarrow> length buf = 1500 \<Longrightarrow>
   \<exists>b s'. await_arp D buf ip k s = Some (b, s') \<and> stack_ok s' \<and>
     (b \<longrightarrow> arp_cache_get ip (arp_cache s') \<noteq> None)"
proof (induction k arbitrary: s)
  case 0
  then show ?case by (intro exI [of _ False]) simp
next
  case (Suc k)
  obtain s1 where s1: "net_poll D buf s = Some s1" "stack_ok s1"
    using poll_returns [OF Suc.prems] by blast
  show ?case
    using s1 Suc.IH [OF wait_ok [OF s1(2)] Suc.prems(2), of 10] by (auto simp del: not_None_eq)
qed

lemma arp_request_returns:
  assumes "stack_ok s" "length buf = 1500" "length ip = 4"
  shows "\<exists>b s'. net_arp_request D buf ip s = Some (b, s') \<and> stack_ok s' \<and>
    (b \<longrightarrow> arp_cache_get ip (arp_cache s') \<noteq> None)"
proof -
  have m: "length (my_mac s) = 6" using assms(1) by (simp add: stack_ok_def net_ok_def)
  show ?thesis
    unfolding net_arp_request_def Let_def
    by (rule await_arp_returns [OF send_ok(1) [OF assms(1)] assms(2)])
      (use m assms(3) in \<open>simp add: bcast_def my_ip_def\<close>)
qed

lemma resolve_returns:
  assumes "stack_ok s" "length buf = 1500" "length ip = 4"
  shows "\<exists>r s'. resolve_mac D buf ip s = Some (r, s') \<and> stack_ok s' \<and> (\<forall>m. r = Some m \<longrightarrow> length m = 6)"
proof (cases "arp_cache_get ip (arp_cache s)")
  case (Some m)
  then show ?thesis
    using assms(1) by (auto simp: resolve_mac_def stack_ok_def net_ok_def intro: arp_cache_get_length)
next
  case None
  obtain b s' where r: "net_arp_request D buf ip s = Some (b, s')" "stack_ok s'"
    using arp_request_returns [OF assms] by blast
  then show ?thesis
    using None by (auto simp: resolve_mac_def stack_ok_def net_ok_def intro: arp_cache_get_length)
qed

lemma poll_replies_returns:
  "stack_ok s \<Longrightarrow> length buf = 1500 \<Longrightarrow> \<exists>s'. poll_replies D buf k s = Some s' \<and> stack_ok s'"
proof (induction k arbitrary: s)
  case 0
  then show ?case by simp
next
  case (Suc k)
  obtain s1 where s1: "net_poll D buf s = Some s1" "stack_ok s1"
    using poll_returns [OF Suc.prems] by blast
  show ?case
    using s1 Suc.IH [OF wait_ok [OF s1(2)] Suc.prems(2), of 10] by auto
qed

lemma ping_packet_length: "length m = 6 \<Longrightarrow> length mac = 6 \<Longrightarrow> length ip = 4 \<Longrightarrow> length (ping_packet m mac ip) = 74"
  by (simp add: ping_packet_def Let_def ip_fill_fields)

lemma ping_returns:
  assumes "stack_ok s" "length buf = 1500" "length ip = 4"
  shows "\<exists>r s'. net_ping D buf ip s = Some (r, s') \<and> r \<in> {0, - 1} \<and> stack_ok s'"
proof -
  obtain r s1 where r: "resolve_mac D buf ip s = Some (r, s1)" "stack_ok s1" "\<forall>m. r = Some m \<longrightarrow> length m = 6"
    using resolve_returns [OF assms] by blast
  show ?thesis
  proof (cases r)
    case None
    then show ?thesis using r by (simp add: net_ping_def)
  next
    case (Some m)
    have mm: "length (my_mac s1) = 6" using r(2) by (simp add: stack_ok_def net_ok_def)
    have "stack_ok (send_frame D (ping_packet m (my_mac s1) ip) s1)"
      by (rule send_ok(1) [OF r(2)]) (use Some r(3) mm assms(3) in \<open>simp add: ping_packet_length\<close>)
    then obtain s2 where "poll_replies D buf 100 (send_frame D (ping_packet m (my_mac s1) ip) s1) = Some s2"
      "stack_ok s2"
      using poll_replies_returns [OF _ assms(2)] by blast
    then show ?thesis
      using r Some by (auto simp: net_ping_def)
  qed
qed

lemma udp_send_known:
  assumes "stack_ok s" "arp_cache_get ip (arp_cache s) = Some m" "length ip = 4"
    "length data \<le> UDP_MAX_PAYLOAD"
  shows "\<exists>s'. net_udp_send D buf ip dport sport data s = Some (int (length data), s') \<and> stack_ok s' \<and>
    sent (nic s') = sent (nic s) @ [take (42 + length data) (udp_packet m (my_mac s) ip dport sport data)]"
proof -
  have d: "length data \<le> 512" using assms(4) by (simp add: UDP_MAX_PAYLOAD_def)
  have "(14 + (20 + (8 + of_nat (length data))) :: u16) = of_nat (42 + length data)" by simp
  then have t: "unat (14 + (20 + (8 + of_nat (length data))) :: u16) = 42 + length data"
    by (simp only:) (rule unat16_of_nat_small, use d in simp)
  let ?p = "take (42 + length data) (udp_packet m (my_mac s) ip dport sport data)"
  have "length ?p \<le> 1514" using d by simp
  note ok = send_ok [OF assms(1) this]
  have "net_udp_send D buf ip dport sport data s = Some (int (length data), send_frame D ?p s)"
    unfolding net_udp_send_def resolve_mac_def Let_def t using assms(2,4) by simp
  then show ?thesis using ok by auto
qed

end


context nic_driver
begin

text \<open>One pending frame: it is handled and the poll ends.\<close>

lemma poll_one:
  assumes "stack_ok s" "length buf = 1500" "pending (nic s) = [f]" "length f \<le> 1500"
    and step: "\<And>n'. nok n' \<Longrightarrow> pending n' = [] \<Longrightarrow>
      handle_frame D (overlay buf 0 f) (of_nat (length f)) (s\<lparr>nic := n'\<rparr>) = Some (g (s\<lparr>nic := n'\<rparr>))"
    and keeps: "\<And>t. nic (g t) = nic t"
  shows "\<exists>n1 n2. net_poll D buf s = Some ((g (s\<lparr>nic := n1\<rparr>))\<lparr>nic := n2\<rparr>)"
proof -
  obtain n1 where n1: "d_recv D 1500 (nic s) = (Some f, n1)" "nok n1" "pending n1 = []"
    using recv_frame [of "nic s" f "[]" 1500] assms(1,3,4) by (auto simp: stack_ok_def)
  obtain n2 where n2: "d_recv D 1500 n1 = (Some [], n2)"
    using recv_none [OF n1(2,3), of 1500] by blast
  have "34 \<le> length f" using frame_length [of "nic s" f] assms(1,3) by (simp add: stack_ok_def)
  then have ne: "f \<noteq> []" by auto
  let ?s = "g (s\<lparr>nic := n1\<rparr>)"
  have last: "poll_loop D b ?s = Some (?s\<lparr>nic := n2\<rparr>)" for b
    using n2 keeps by (subst poll_loop.simps) simp
  have "poll_loop D buf s = poll_loop D (overlay buf 0 f) ?s"
    using n1 ne step [OF n1(2,3)] by (subst poll_loop.simps) (simp add: Let_def)
  then show ?thesis using last by (auto simp: net_poll_def)
qed

end

subsection \<open>Properties\<close>

text \<open>
  the Internet checksum does what the protocol needs.  Whatever the bytes of a block
  (of at most 2000) with a 16-bit checksum field at an even offset, computing the
  checksum with the field zero and storing it makes the whole block check to zero, so a
  receiver that runs the same sum accepts it; the folding loop always ends.
\<close>

lemma ip_checksum_verifies:
  assumes "even pos" "pos + 2 \<le> length p" "length p \<le> 2000" "field16 pos p = 0"
  shows "ip_checksum (put16 pos (ip_checksum p) p) = 0"
  by (rule ip_checksum_fill [OF assms])

lemma ip_checksum_verifies_witness:
  "ip_checksum (put16 2 (ip_checksum [0x45, 0, 0, 0, 10, 0, 2]) [0x45, 0, 0, 0, 10, 0, 2]) = 0"
  by (rule ip_checksum_verifies) (simp_all add: field16_def le16_def)

text \<open>
  ARP.  Handling any ARP packet binds the sender's protocol address to its hardware address
  when the cache has room and keeps every other binding; a request for this host's
  address is answered with one frame, to the asker, that names this host's hardware address,
  and nothing else is ever sent.
\<close>

lemma arp_learns_and_answers:
  assumes "net_ok s" "length pkt = 1500"
  shows "(arp_room (arp_cache s) (arp_spa pkt) \<longrightarrow>
      arp_cache_get (arp_spa pkt) (arp_cache (handle_arp D pkt s)) = Some (arp_sha pkt)) \<and>
    (\<forall>ip. ip \<noteq> arp_spa pkt \<longrightarrow>
      arp_cache_get ip (arp_cache (handle_arp D pkt s)) = arp_cache_get ip (arp_cache s)) \<and>
    (if htons (arp_op pkt) = ARP_REQUEST \<and> arp_tpa pkt = my_ip
     then \<exists>r. nic (handle_arp D pkt s) = snd (d_send D r (nic s)) \<and> length r = 42 \<and>
       slice 0 6 r = eth_src pkt \<and> eth_src r = my_mac s \<and> htons (eth_type r) = ETH_TYPE_ARP \<and>
       htons (arp_op r) = ARP_REPLY \<and> arp_sha r = my_mac s \<and> arp_spa r = my_ip \<and>
       slice 32 6 r = arp_sha pkt \<and> arp_tpa r = arp_spa pkt
     else nic (handle_arp D pkt s) = nic s)"
proof -
  note len = packet_field_lengths [OF assms(2)]
  have mac: "length (my_mac s) = 6" using assms(1) by (simp add: net_ok_def)
  have ip4: "length my_ip = 4" by (simp add: my_ip_def)
  have t: "arp.table_ok (arp_cache s)" using assms(1) by (simp add: net_ok_def arp_cache_ok_table)
  have cache: "arp_cache (handle_arp D pkt s) = arp.put (arp_spa pkt) (arp_sha pkt) (arp_cache s)"
    by (simp add: handle_arp_def Let_def arp_cache_set_put len)
  define r where "r = arp_fill ARP_REPLY (my_mac s) my_ip (arp_sha pkt) (arp_spa pkt)
    (eth_fill (eth_src pkt) (my_mac s) ETH_TYPE_ARP (replicate 42 0))"
  have r: "length r = 42 \<and> slice 0 6 r = eth_src pkt \<and> eth_src r = my_mac s \<and>
      htons (eth_type r) = ETH_TYPE_ARP \<and> htons (arp_op r) = ARP_REPLY \<and> arp_sha r = my_mac s \<and>
      arp_spa r = my_ip \<and> slice 32 6 r = arp_sha pkt \<and> arp_tpa r = arp_spa pkt"
    using mac len ip4 unfolding header_fields
    by (simp add: r_def header_fields arp_fill_fields eth_fill_fields)
  have "nic (handle_arp D pkt s) =
      (if htons (arp_op pkt) = ARP_REQUEST \<and> arp_tpa pkt = my_ip then snd (d_send D r (nic s)) else nic s)"
    by (simp add: handle_arp_def Let_def r_def)
  then show ?thesis
    using r t len
    by (auto simp: cache arp_cache_get_slot arp_room_slot arp.kv.store_same arp.kv.store_other)
qed

definition demo_driver :: "u8 list list driver" where
  "demo_driver = \<lparr>d_recv = (\<lambda>m n. (Some [], n)), d_send = (\<lambda>p n. (int (length p), n @ [p])),
     d_mac = (\<lambda>_. [1, 2, 3, 4, 5, 6]), d_sleep = (\<lambda>k n. n)\<rparr>"

definition demo_net :: "u8 list list net" where
  "demo_net = net_init demo_driver \<lparr>my_mac = [], arp_cache = [], udp_handlers = [], udp_calls = [], nic = []\<rparr>"

definition demo_request :: "u8 list" where
  "demo_request = arp_fill ARP_REQUEST [9, 9, 9, 9, 9, 9] [10, 0, 2, 7] (replicate 6 0) my_ip
     (eth_fill bcast [9, 9, 9, 9, 9, 9] ETH_TYPE_ARP (replicate 42 0)) @ replicate 1458 0"

lemma arp_learns_and_answers_witness:
  "\<exists>r. nic (handle_arp demo_driver demo_request demo_net) = [r] \<and> arp_sha r = [1, 2, 3, 4, 5, 6] \<and>
     arp_tpa r = [10, 0, 2, 7]"
proof -
  have ok: "net_ok demo_net"
    unfolding demo_net_def by (rule net_ok_init) (simp add: demo_driver_def)
  have mac: "my_mac demo_net = [1, 2, 3, 4, 5, 6]" "nic demo_net = []"
    by (simp_all add: demo_net_def net_init_def demo_driver_def)
  have q: "htons (arp_op demo_request) = ARP_REQUEST" "arp_tpa demo_request = my_ip"
    "arp_spa demo_request = [10, 0, 2, 7]"
    by (simp_all add: demo_request_def header_fields slice_append field16_append arp_fill_fields
        bcast_def my_ip_def)
  have "length demo_request = 1500" by (simp add: demo_request_def bcast_def my_ip_def)
  from arp_learns_and_answers [OF ok this, of demo_driver, THEN conjunct2, THEN conjunct2]
  obtain r where "nic (handle_arp demo_driver demo_request demo_net) = snd (d_send demo_driver r [])"
    "arp_sha r = my_mac demo_net" "arp_tpa r = arp_spa demo_request"
    using q mac(2) by auto
  then show ?thesis using mac(1) q(3) by (simp add: demo_driver_def)
qed

text \<open>
  the echo reply.  An echo request of 38 to 1500 bytes is answered with one frame of the
  same length that goes back to the sender: addresses swapped, type set to reply,
  identifier, sequence number and payload unchanged, and both checksums valid.  A shorter
  frame is not rejected: its checksum is taken over almost \<open>2 ^ 32\<close> bytes.
\<close>

lemma icmp_echo_answered:
  assumes "icmp_type pkt = ICMP_ECHO_REQ" "length pkt = 1500" "length (my_mac s) = 6" "len \<le> 1500"
  shows "(38 \<le> unat len \<longrightarrow> (\<exists>r. handle_icmp D pkt len s = Some (send_frame D r s) \<and>
      length r = unat len \<and> slice 0 6 r = eth_src pkt \<and> eth_src r = my_mac s \<and>
      ip_src r = my_ip \<and> ip_dst r = ip_src pkt \<and> icmp_type r = ICMP_ECHO_REP \<and>
      drop 38 r = drop 38 (take (unat len) pkt) \<and>
      ip_checksum (slice 14 20 r) = 0 \<and> ip_checksum (drop 34 r) = 0)) \<and>
    (unat len < 34 \<longrightarrow> handle_icmp D pkt len s = None)"
  using handle_icmp_echo [OF assms(1) _ assms(4,2,3), of D] handle_icmp_short_overruns [OF assms(1), of len D s]
  by (auto simp: echo_reply_def)

lemma icmp_echo_answered_witness:
  "\<exists>r. handle_icmp demo_driver (replicate 34 0 @ [8] @ replicate 1465 7) 60 demo_net =
      Some (send_frame demo_driver r demo_net) \<and> length r = 60 \<and> ip_checksum (drop 34 r) = 0"
proof -
  let ?pkt = "replicate 34 0 @ [8] @ replicate 1465 7 :: u8 list"
  have p: "icmp_type ?pkt = ICMP_ECHO_REQ" "length ?pkt = 1500"
    by (simp_all add: icmp_type_def ICMP_ECHO_REQ_def nth_append)
  have m: "length (my_mac demo_net) = 6" by (simp add: demo_net_def net_init_def demo_driver_def)
  have "(60 :: u16) \<le> 1500" by simp
  from icmp_echo_answered [OF p m this, of demo_driver] show ?thesis by auto
qed

end
