(* ===== verification/Pci.thy ===== *)
theory Pci
  imports Bytes
begin

text \<open>
  \<^verbatim>\<open>kernel/pci.c\<close>: the scan of bus 0 through the configuration ports.  The 32-bit port
  accesses are a parameter; \<open>config_ports\<close> is the address/data mechanism of the PCI
  specification over a configuration space.
\<close>

unbundle bit_operations_syntax

subsection \<open>The code\<close>

record 'd pci_ports =
  p_outl :: "u16 \<Rightarrow> u32 \<Rightarrow> 'd \<Rightarrow> 'd"
  p_inl :: "u16 \<Rightarrow> 'd \<Rightarrow> u32 \<times> 'd"

definition PCI_ADDR :: u16 where "PCI_ADDR = 0xCF8"
definition PCI_DATA :: u16 where "PCI_DATA = 0xCFC"
definition PCI_MAX_DEVICES :: nat where "PCI_MAX_DEVICES = 32"

record pci_device =
  pd_bus :: u8
  pd_slot :: u8
  pd_func :: u8
  pd_vendor :: u16
  pd_device :: u16
  pd_class :: u8
  pd_subclass :: u8

record pci =
  pci_devs :: "pci_device list"
  pci_count :: nat

definition pci_address :: "u8 \<Rightarrow> u8 \<Rightarrow> u8 \<Rightarrow> u8 \<Rightarrow> u32" where
  "pci_address bus slot func offset =
     push_bit 31 1 OR push_bit 16 (ucast bus) OR push_bit 11 (ucast slot) OR
     push_bit 8 (ucast func) OR (ucast offset AND 0xFC)"

definition pci_read :: "'d pci_ports \<Rightarrow> u8 \<Rightarrow> u8 \<Rightarrow> u8 \<Rightarrow> u8 \<Rightarrow> 'd \<Rightarrow> u32 \<times> 'd" where
  "pci_read P bus slot func offset d =
     p_inl P PCI_DATA (p_outl P PCI_ADDR (pci_address bus slot func offset) d)"

definition pci_write :: "'d pci_ports \<Rightarrow> u8 \<Rightarrow> u8 \<Rightarrow> u8 \<Rightarrow> u8 \<Rightarrow> u32 \<Rightarrow> 'd \<Rightarrow> 'd" where
  "pci_write P bus slot func offset val d =
     p_outl P PCI_DATA val (p_outl P PCI_ADDR (pci_address bus slot func offset) d)"

text \<open>The loop over the slots from \<open>slot\<close> on, \<open>n\<close> of them left.\<close>

fun scan_slots :: "'d pci_ports \<Rightarrow> nat \<Rightarrow> u8 \<Rightarrow> pci \<Rightarrow> 'd \<Rightarrow> pci \<times> 'd" where
  "scan_slots P 0 slot s d = (s, d)"
| "scan_slots P (Suc n) slot s d =
     (let (id, d) = pci_read P 0 slot 0 0 d;
          vendor = ucast (id AND 0xFFFF) :: u16;
          device = ucast (drop_bit 16 id) :: u16
      in if vendor = 0xFFFF then scan_slots P n (slot + 1) s d
         else if PCI_MAX_DEVICES \<le> pci_count s then (s, d)
         else (let (cls, d) = pci_read P 0 slot 0 8 d;
                   dev = \<lparr>pd_bus = 0, pd_slot = slot, pd_func = 0, pd_vendor = vendor,
                     pd_device = device, pd_class = ucast (drop_bit 24 cls AND 0xFF),
                     pd_subclass = ucast (drop_bit 16 cls AND 0xFF)\<rparr>
               in scan_slots P n (slot + 1)
                    \<lparr>pci_devs = (pci_devs s)[pci_count s := dev], pci_count = pci_count s + 1\<rparr> d))"

definition pci_init :: "'d pci_ports \<Rightarrow> 'd \<Rightarrow> nat \<times> pci \<times> 'd" where
  "pci_init P d =
     (let (s, d) = scan_slots P 32 0 \<lparr>pci_devs = replicate PCI_MAX_DEVICES
            \<lparr>pd_bus = 0, pd_slot = 0, pd_func = 0, pd_vendor = 0, pd_device = 0, pd_class = 0,
              pd_subclass = 0\<rparr>, pci_count = 0\<rparr> d
      in (pci_count s, s, d))"

definition pci_find :: "u16 \<Rightarrow> u16 \<Rightarrow> pci \<Rightarrow> pci_device option" where
  "pci_find vendor device s =
     (case find_slot (\<lambda>e. pd_vendor e = vendor \<and> pd_device e = device)
         (take (pci_count s) (pci_devs s)) of
        Some i \<Rightarrow> Some (pci_devs s ! i)
      | None \<Rightarrow> None)"

subsection \<open>The configuration mechanism\<close>

text \<open>A configuration space by bus, slot, function and register, and the address latch.\<close>

record config =
  cf_addr :: u32
  cf_space :: "u32 \<Rightarrow> u32 \<Rightarrow> u32 \<Rightarrow> u32 \<Rightarrow> u32"

definition config_read :: "config \<Rightarrow> u32" where
  "config_read c =
     cf_space c (drop_bit 16 (cf_addr c) AND 0xFF) (drop_bit 11 (cf_addr c) AND 0x1F)
       (drop_bit 8 (cf_addr c) AND 7) (cf_addr c AND 0xFC)"

definition config_ports :: "config pci_ports" where
  "config_ports = \<lparr>p_outl = (\<lambda>p v c. if p = 0xCF8 then c\<lparr>cf_addr := v\<rparr> else c),
     p_inl = (\<lambda>p c. (if p = 0xCFC then config_read c else 0, c))\<rparr>"

lemma byte_bit: "bit (b :: u8) n \<Longrightarrow> n < 8"
  using bit_imp_le_length [of b n] by simp

lemma small_bits: "unat (b :: u8) < 2 ^ k \<Longrightarrow> bit b n \<Longrightarrow> n < k"
proof -
  assume "unat b < 2 ^ k" "bit b n"
  then have "take_bit k b = b"
    by (simp add: word_unat_eq_iff unsigned_take_bit_eq take_bit_nat_eq_self)
  with \<open>bit b n\<close> show "n < k" by (metis bit_take_bit_iff)
qed

lemma pci_address_fields:
  assumes "unat slot < 32" "unat func < 8"
  shows "drop_bit 16 (pci_address bus slot func offset) AND 0xFF = ucast bus"
    "drop_bit 11 (pci_address bus slot func offset) AND 0x1F = ucast slot"
    "drop_bit 8 (pci_address bus slot func offset) AND 7 = ucast func"
    "pci_address bus slot func offset AND 0xFC = ucast (offset AND 0xFC)"
proof -
  have m: "(0xFF :: u32) = mask 8" "(0x1F :: u32) = mask 5" "(7 :: u32) = mask 3"
    "(0xFC :: u32) = push_bit 2 (mask 6)" "(0xFC :: u8) = push_bit 2 (mask 6)"
    by (simp_all add: mask_eq_exp_minus_1)
  have s: "bit slot n \<Longrightarrow> n < 5" and f: "bit func n \<Longrightarrow> n < 3" for n
    using assms small_bits [of slot 5] small_bits [of func 3] by simp_all
  define top :: u32 where "top = push_bit 31 1"
  have top: "bit top n \<longleftrightarrow> n = 31" for n
    by (simp only: top_def push_bit_of_1 bit_exp_iff possible_bit_word) auto
  have a: "pci_address bus slot func offset = top OR push_bit 16 (ucast bus) OR push_bit 11 (ucast slot) OR
     push_bit 8 (ucast func) OR (ucast offset AND 0xFC)"
    by (simp only: pci_address_def top_def)
  note bits = bit_simps m a top
  show "drop_bit 16 (pci_address bus slot func offset) AND 0xFF = ucast bus"
    by (rule bit_word_eqI) (auto simp: bits dest: s f byte_bit)
  show "drop_bit 11 (pci_address bus slot func offset) AND 0x1F = ucast slot"
    by (rule bit_word_eqI) (auto simp: bits dest: s f byte_bit)
  show "drop_bit 8 (pci_address bus slot func offset) AND 7 = ucast func"
    by (rule bit_word_eqI) (auto simp: bits dest: s f byte_bit)
  show "pci_address bus slot func offset AND 0xFC = ucast (offset AND 0xFC)"
    by (rule bit_word_eqI) (auto simp: bits dest: s f byte_bit)
qed

lemma pci_read_config:
  assumes "unat slot < 32" "unat func < 8"
  shows "pci_read config_ports bus slot func offset c =
    (cf_space c (ucast bus) (ucast slot) (ucast func) (ucast (offset AND 0xFC)),
     c\<lparr>cf_addr := pci_address bus slot func offset\<rparr>)"
  by (simp add: pci_read_def config_ports_def PCI_ADDR_def PCI_DATA_def config_read_def
      pci_address_fields [OF assms])


subsection \<open>The scan\<close>

text \<open>What the configuration space says about a slot of bus 0.\<close>

definition slot_vendor :: "config \<Rightarrow> nat \<Rightarrow> u16" where
  "slot_vendor c k = ucast (cf_space c 0 (of_nat k) 0 0 AND 0xFFFF)"

definition slot_device :: "config \<Rightarrow> nat \<Rightarrow> u16" where
  "slot_device c k = ucast (drop_bit 16 (cf_space c 0 (of_nat k) 0 0))"

definition device_at :: "config \<Rightarrow> nat \<Rightarrow> pci_device" where
  "device_at c k = \<lparr>pd_bus = 0, pd_slot = of_nat k, pd_func = 0, pd_vendor = slot_vendor c k,
     pd_device = slot_device c k,
     pd_class = ucast (drop_bit 24 (cf_space c 0 (of_nat k) 0 8) AND 0xFF),
     pd_subclass = ucast (drop_bit 16 (cf_space c 0 (of_nat k) 0 8) AND 0xFF)\<rparr>"

definition found_devices :: "config \<Rightarrow> nat \<Rightarrow> pci_device list" where
  "found_devices c k = map (device_at c) (filter (\<lambda>k. slot_vendor c k \<noteq> 0xFFFF) [k..<32])"

lemma config_read_slot:
  "k < 32 \<Longrightarrow> pci_read config_ports 0 (of_nat k) 0 r c =
     (cf_space c 0 (of_nat k) 0 (ucast (r AND 0xFC)), c\<lparr>cf_addr := pci_address 0 (of_nat k) 0 r\<rparr>)"
  by (subst pci_read_config) (simp_all add: unsigned_of_nat take_bit_nat_eq_self)

lemma slot_of_latch [simp]:
  "slot_vendor (c\<lparr>cf_addr := a\<rparr>) = slot_vendor c" "slot_device (c\<lparr>cf_addr := a\<rparr>) = slot_device c"
  "device_at (c\<lparr>cf_addr := a\<rparr>) = device_at c" "found_devices (c\<lparr>cf_addr := a\<rparr>) = found_devices c"
  by (rule ext, simp add: slot_vendor_def slot_device_def device_at_def found_devices_def)+

lemma found_devices_step:
  "k < 32 \<Longrightarrow> found_devices c k =
     (if slot_vendor c k \<noteq> 0xFFFF then [device_at c k] else []) @ found_devices c (Suc k)"
  by (simp add: found_devices_def upt_conv_Cons)

lemma take_append_update:
  "n < length xs \<Longrightarrow> take (Suc n) (xs[n := x]) = take n xs @ [x]"
  by (simp add: take_Suc_conv_app_nth)

lemma scan_slots_config:
  "k + n = 32 \<Longrightarrow> pci_count s \<le> k \<Longrightarrow> length (pci_devs s) = PCI_MAX_DEVICES \<Longrightarrow>
   \<exists>s' c'. scan_slots config_ports n (of_nat k) s c = (s', c') \<and> cf_space c' = cf_space c \<and>
     pci_count s' = pci_count s + length (found_devices c k) \<and>
     take (pci_count s') (pci_devs s') = take (pci_count s) (pci_devs s) @ found_devices c k"
proof (induction n arbitrary: k s c)
  case 0
  then show ?case by (simp add: found_devices_def)
next
  case (Suc n)
  have k: "k < 32" using Suc.prems(1) by simp
  note rd = config_read_slot [OF k]
  have nx: "of_nat k + 1 = (of_nat (Suc k) :: u8)" by simp
  have full: "\<not> PCI_MAX_DEVICES \<le> pci_count s" using Suc.prems k by (simp add: PCI_MAX_DEVICES_def)
  let ?c = "c\<lparr>cf_addr := pci_address 0 (of_nat k) 0 0\<rparr>"
  show ?case
  proof (cases "slot_vendor c k = 0xFFFF")
    case True
    have "scan_slots config_ports (Suc n) (of_nat k) s c = scan_slots config_ports n (of_nat (Suc k)) s ?c"
      using True by (simp only: scan_slots.simps rd Let_def prod.case nx slot_vendor_def) simp
    then show ?thesis
      using Suc.IH [of "Suc k" s ?c] Suc.prems True by (simp add: found_devices_step [OF k])
  next
    case False
    let ?s = "\<lparr>pci_devs = (pci_devs s)[pci_count s := device_at c k], pci_count = pci_count s + 1\<rparr>"
    let ?c' = "?c\<lparr>cf_addr := pci_address 0 (of_nat k) 0 8\<rparr>"
    have "scan_slots config_ports (Suc n) (of_nat k) s c = scan_slots config_ports n (of_nat (Suc k)) ?s ?c'"
      using False full
      by (simp only: scan_slots.simps rd Let_def prod.case nx slot_vendor_def) 
        (simp add: device_at_def slot_vendor_def slot_device_def)
    moreover have "take (pci_count ?s) (pci_devs ?s) = take (pci_count s) (pci_devs s) @ [device_at c k]"
      using full Suc.prems by (simp add: take_append_update)
    ultimately show ?thesis
      using Suc.IH [of "Suc k" ?s ?c'] Suc.prems False by (simp add: found_devices_step [OF k])
  qed
qed

lemma pci_init_config:
  assumes "pci_init config_ports c = (n, s, c')"
  shows "take (pci_count s) (pci_devs s) = found_devices c 0" "n = length (found_devices c 0)"
    "pci_count s = n"
  using scan_slots_config [of 0 32 "\<lparr>pci_devs = replicate PCI_MAX_DEVICES
      \<lparr>pd_bus = 0, pd_slot = 0, pd_func = 0, pd_vendor = 0, pd_device = 0, pd_class = 0,
        pd_subclass = 0\<rparr>, pci_count = 0\<rparr>" c] assms
  by (auto simp: pci_init_def)

lemma find_slot_map_filter:
  "(case find_slot P (map f (filter Q ks)) of None \<Rightarrow> None | Some i \<Rightarrow> Some (map f (filter Q ks) ! i)) =
   map_option f (find (\<lambda>k. Q k \<and> P (f k)) ks)"
  by (induction ks) (auto split: option.splits)

lemma pci_find_config:
  assumes "pci_init config_ports c = (n, s, c')" "vendor \<noteq> 0xFFFF"
  shows "pci_find vendor device s =
    map_option (device_at c) (find (\<lambda>k. slot_vendor c k = vendor \<and> slot_device c k = device) [0..<32])"
proof -
  note t = pci_init_config [OF assms(1)]
  have "pci_find vendor device s =
    (case find_slot (\<lambda>e. pd_vendor e = vendor \<and> pd_device e = device) (found_devices c 0) of
       Some i \<Rightarrow> Some (found_devices c 0 ! i) | None \<Rightarrow> None)"
    unfolding pci_find_def t(1) [symmetric]
    by (cases "find_slot (\<lambda>e. pd_vendor e = vendor \<and> pd_device e = device)
        (take (pci_count s) (pci_devs s))") (auto dest: find_slot_SomeD(1))
  also have "\<dots> = map_option (device_at c) (find (\<lambda>k. slot_vendor c k \<noteq> 0xFFFF \<and>
      pd_vendor (device_at c k) = vendor \<and> pd_device (device_at c k) = device) [0..<32])"
    unfolding found_devices_def by (rule find_slot_map_filter)
  also have "(\<lambda>k. slot_vendor c k \<noteq> 0xFFFF \<and>
      pd_vendor (device_at c k) = vendor \<and> pd_device (device_at c k) = device) =
      (\<lambda>k. slot_vendor c k = vendor \<and> slot_device c k = device)"
    using assms(2) by (auto simp: device_at_def)
  finally show ?thesis .
qed

subsection \<open>Properties\<close>

text \<open>
  the scan finds what is there.  Through the configuration mechanism of the bus,
  \<^verbatim>\<open>pci_init\<close> counts exactly the occupied slots of bus 0, and \<^verbatim>\<open>pci_find\<close> then returns the
  device in the first slot with the vendor and device number asked for, with its
  slot and class as configured, or nothing when no slot holds one.
\<close>

lemma pci_find_first:
  assumes "pci_init config_ports c = (n, s, c')" "vendor \<noteq> 0xFFFF"
  shows "n = length (filter (\<lambda>k. slot_vendor c k \<noteq> 0xFFFF) [0..<32]) \<and>
    (case pci_find vendor device s of
       None \<Rightarrow> \<forall>k < 32. \<not> (slot_vendor c k = vendor \<and> slot_device c k = device)
     | Some d \<Rightarrow> \<exists>k < 32. d = device_at c k \<and> slot_vendor c k = vendor \<and> slot_device c k = device \<and>
         (\<forall>j < k. \<not> (slot_vendor c j = vendor \<and> slot_device c j = device)))"
  unfolding pci_find_config [OF assms] pci_init_config(2) [OF assms(1)]
  by (auto simp: found_devices_def find_None_iff find_Some_iff split: option.splits)

definition qemu_config :: config where
  "qemu_config = \<lparr>cf_addr = 0, cf_space = (\<lambda>bus slot func reg.
     if bus = 0 \<and> slot = 3 \<and> func = 0 then (if reg = 0 then 0x100E8086 else if reg = 8 then 0x02000003 else 0)
     else 0xFFFFFFFF)\<rparr>"

lemma pci_find_first_witness:
  "\<exists>d. pci_find 0x8086 0x100E (fst (snd (pci_init config_ports qemu_config))) = Some d \<and>
     pd_slot d = 3 \<and> pd_class d = 2"
proof -
  obtain n s c' where i: "pci_init config_ports qemu_config = (n, s, c')"
    using prod_cases3 by blast
  have k: "k = 3" if "k < 32" "slot_vendor qemu_config k = 0x8086" for k
  proof (rule ccontr)
    assume "k \<noteq> 3"
    then have "(of_nat k :: u32) \<noteq> of_nat 3" using that(1) by (subst of_nat_u32_inj) auto
    then show False using that(2) by (simp add: slot_vendor_def qemu_config_def)
  qed
  have three: "slot_vendor qemu_config 3 = 0x8086" "slot_device qemu_config 3 = 0x100E"
    by (simp_all add: slot_vendor_def slot_device_def qemu_config_def)
  have "(0x8086 :: u16) \<noteq> 0xFFFF" by simp
  note first = pci_find_first [OF i this, of "0x100E", THEN conjunct2]
  have "pci_find 0x8086 0x100E s \<noteq> None"
  proof
    assume "pci_find 0x8086 0x100E s = None"
    with first have "\<not> (slot_vendor qemu_config 3 = 0x8086 \<and> slot_device qemu_config 3 = 0x100E)"
      by simp
    with three show False by simp
  qed
  then obtain d where d: "pci_find 0x8086 0x100E s = Some d" by blast
  with first k have "d = device_at qemu_config 3" by auto
  moreover have "pd_slot (device_at qemu_config 3) = 3" "pd_class (device_at qemu_config 3) = 2"
    by (simp_all add: device_at_def qemu_config_def)
  ultimately show ?thesis using d by (simp add: i)
qed

end
