(* ===== verification/E1000.thy ===== *)
theory E1000
  imports Net Pci Vmm
begin

text \<open>
  \<^verbatim>\<open>kernel/e1000.c\<close>: the driver of the network card, two rings of descriptors shared with the
  card and its memory-mapped registers.  What a register access does is the parameter \<open>H\<close>:
  it may change the rings, because the card writes them by DMA.  \<open>card\<close> is a card that follows
  the ring protocol, \<open>deliver\<close> the arrival of a frame; with them the driver meets the
  interface the network stack is written against.
\<close>

unbundle bit_operations_syntax

subsection \<open>The code\<close>

definition E1000_VENDOR :: u16 where "E1000_VENDOR = 0x8086"
definition E1000_DEVICE :: u16 where "E1000_DEVICE = 0x100E"
definition E1000_NUM_TX :: nat where "E1000_NUM_TX = 8"
definition E1000_NUM_RX :: nat where "E1000_NUM_RX = 8"
definition E1000_BUF_SIZE :: nat where "E1000_BUF_SIZE = 2048"
definition E1000_CTRL :: u32 where "E1000_CTRL = 0x0000"
definition E1000_EERD :: u32 where "E1000_EERD = 0x0014"
definition E1000_RCTL :: u32 where "E1000_RCTL = 0x0100"
definition E1000_TCTL :: u32 where "E1000_TCTL = 0x0400"
definition E1000_RDBAL :: u32 where "E1000_RDBAL = 0x2800"
definition E1000_RDBAH :: u32 where "E1000_RDBAH = 0x2804"
definition E1000_RDLEN :: u32 where "E1000_RDLEN = 0x2808"
definition E1000_RDH :: u32 where "E1000_RDH = 0x2810"
definition E1000_RDT :: u32 where "E1000_RDT = 0x2818"
definition E1000_TDBAL :: u32 where "E1000_TDBAL = 0x3800"
definition E1000_TDBAH :: u32 where "E1000_TDBAH = 0x3804"
definition E1000_TDLEN :: u32 where "E1000_TDLEN = 0x3808"
definition E1000_TDH :: u32 where "E1000_TDH = 0x3810"
definition E1000_TDT :: u32 where "E1000_TDT = 0x3818"

lemmas e1000_regs = E1000_CTRL_def E1000_EERD_def E1000_RCTL_def E1000_TCTL_def E1000_RDBAL_def
  E1000_RDBAH_def E1000_RDLEN_def E1000_RDH_def E1000_RDT_def E1000_TDBAL_def E1000_TDBAH_def
  E1000_TDLEN_def E1000_TDH_def E1000_TDT_def
lemmas e1000_sizes = E1000_NUM_TX_def E1000_NUM_RX_def E1000_BUF_SIZE_def

record tx_desc =
  td_addr :: u64
  td_length :: u16
  td_cmd :: u8
  td_status :: u8

record rx_desc =
  rd_addr :: u64
  rd_length :: u16
  rd_status :: u8

record 'h e1000 =
  mmio_base :: u32
  nic_mac :: "u8 list"
  tx_ring :: "tx_desc list"
  rx_ring :: "rx_desc list"
  tx_buf :: "u8 list list"
  rx_buf :: "u8 list list"
  tx_tail :: u32
  rx_tail :: u32
  adapter :: 'h

record 'h nic_hw =
  h_read :: "u32 \<Rightarrow> 'h e1000 \<Rightarrow> u32 \<times> 'h e1000"
  h_write :: "u32 \<Rightarrow> u32 \<Rightarrow> 'h e1000 \<Rightarrow> 'h e1000"
  h_nop :: "'h e1000 \<Rightarrow> 'h e1000" \<comment> \<open>one turn of a waiting loop\<close>

text \<open>Where the linker put the rings and buffers.\<close>

record nic_layout =
  at_tx_ring :: u32
  at_rx_ring :: u32
  at_tx_buf :: u32
  at_rx_buf :: u32

fun eeprom_wait :: "'h nic_hw \<Rightarrow> nat \<Rightarrow> u32 \<Rightarrow> 'h e1000 \<Rightarrow> u32 \<times> 'h e1000" where
  "eeprom_wait H 0 val e = (val, e)"
| "eeprom_wait H (Suc n) val e =
     (let (val, e) = h_read H E1000_EERD e
      in if val AND push_bit 4 1 \<noteq> 0 then (val, e) else eeprom_wait H n val e)"

definition eeprom_read :: "'h nic_hw \<Rightarrow> u8 \<Rightarrow> 'h e1000 \<Rightarrow> u16 \<times> 'h e1000" where
  "eeprom_read H addr e =
     (let e = h_write H E1000_EERD (push_bit 8 (ucast addr) OR 1) e;
          (val, e) = eeprom_wait H 9999 0 e
      in (ucast (drop_bit 16 val), e))"

fun map_mmio :: "u32 \<Rightarrow> nat \<Rightarrow> pmm vmm \<Rightarrow> pmm vmm" where
  "map_mmio base 0 v = v"
| "map_mmio base (Suc n) v =
     (let v = map_mmio base n v; a = base + of_nat (n * 0x1000) in vmm_map a a 3 v)"

definition read_mac :: "'h nic_hw \<Rightarrow> 'h e1000 \<Rightarrow> 'h e1000" where
  "read_mac H e =
     (let (w0, e) = eeprom_read H 0 e;
          (w1, e) = eeprom_read H 1 e;
          (w2, e) = eeprom_read H 2 e
      in e\<lparr>nic_mac := [ucast (w0 AND 0xFF), ucast (drop_bit 8 w0), ucast (w1 AND 0xFF),
           ucast (drop_bit 8 w1), ucast (w2 AND 0xFF), ucast (drop_bit 8 w2)]\<rparr>)"

definition setup_tx :: "'h nic_hw \<Rightarrow> nic_layout \<Rightarrow> 'h e1000 \<Rightarrow> 'h e1000" where
  "setup_tx H L e =
     (let e = e\<lparr>tx_ring := map (\<lambda>i. \<lparr>td_addr = ucast (at_tx_buf L + of_nat (i * E1000_BUF_SIZE)),
            td_length = 0, td_cmd = 0, td_status = 0\<rparr>) [0..<E1000_NUM_TX]\<rparr>;
          e = h_write H E1000_TDBAL (at_tx_ring L) e;
          e = h_write H E1000_TDBAH 0 e;
          e = h_write H E1000_TDLEN (of_nat (E1000_NUM_TX * 16)) e;
          e = h_write H E1000_TDH 0 e;
          e = h_write H E1000_TDT 0 e
      in h_write H E1000_TCTL (push_bit 1 1 OR push_bit 3 1 OR push_bit 4 0x10 OR push_bit 12 0x40) e)"

definition setup_rx :: "'h nic_hw \<Rightarrow> nic_layout \<Rightarrow> 'h e1000 \<Rightarrow> 'h e1000" where
  "setup_rx H L e =
     (let e = e\<lparr>rx_ring := map (\<lambda>i. \<lparr>rd_addr = ucast (at_rx_buf L + of_nat (i * E1000_BUF_SIZE)),
            rd_length = 0, rd_status = 0\<rparr>) [0..<E1000_NUM_RX]\<rparr>;
          e = h_write H E1000_RDBAL (at_rx_ring L) e;
          e = h_write H E1000_RDBAH 0 e;
          e = h_write H E1000_RDLEN (of_nat (E1000_NUM_RX * 16)) e;
          e = h_write H E1000_RDH 0 e;
          e = h_write H E1000_RDT (of_nat (E1000_NUM_RX - 1)) e
      in h_write H E1000_RCTL (push_bit 1 1 OR push_bit 15 1 OR push_bit 26 1) e)"

definition set_ctrl :: "'h nic_hw \<Rightarrow> u32 \<Rightarrow> 'h e1000 \<Rightarrow> 'h e1000" where
  "set_ctrl H b e = (let (v, e) = h_read H E1000_CTRL e in h_write H E1000_CTRL (v OR b) e)"

definition e1000_start :: "'h nic_hw \<Rightarrow> nic_layout \<Rightarrow> 'h e1000 \<Rightarrow> 'h e1000" where
  "e1000_start H L e =
     (let e = set_ctrl H (push_bit 26 1) e;
          e = (h_nop H ^^ 100000) e;
          e = set_ctrl H (push_bit 6 1) e;
          e = read_mac H e;
          e = setup_tx H L e;
          e = setup_rx H L e
      in e\<lparr>rx_tail := 0, tx_tail := 0\<rparr>)"

definition e1000_init ::
    "'d pci_ports \<Rightarrow> 'h nic_hw \<Rightarrow> nic_layout \<Rightarrow> pci \<Rightarrow> 'd \<Rightarrow> 'h e1000 \<Rightarrow> pmm vmm \<Rightarrow>
     bool \<times> 'd \<times> 'h e1000 \<times> pmm vmm" where
  "e1000_init P H L pci d e v =
     (case pci_find E1000_VENDOR E1000_DEVICE pci of
        None \<Rightarrow> (False, d, e, v)
      | Some dev \<Rightarrow>
          (let (bar0, d) = pci_read P (pd_bus dev) (pd_slot dev) (pd_func dev) 0x10 d;
               base = bar0 AND NOT 0xF;
               e = e\<lparr>mmio_base := base\<rparr>;
               v = map_mmio base 32 v
           in (True, d, e1000_start H L e, v)))"

fun send_wait :: "'h nic_hw \<Rightarrow> nat \<Rightarrow> nat \<Rightarrow> 'h e1000 \<Rightarrow> 'h e1000" where
  "send_wait H i 0 e = e"
| "send_wait H i (Suc n) e =
     (if td_status (tx_ring e ! i) = 0 then send_wait H i n (h_nop H e) else e)"

definition e1000_send :: "'h nic_hw \<Rightarrow> u8 list \<Rightarrow> 'h e1000 \<Rightarrow> int \<times> 'h e1000" where
  "e1000_send H data e =
     (if mmio_base e = 0 \<or> E1000_BUF_SIZE < length data then (- 1, e)
      else
        (let i = unat (tx_tail e);
             e = e\<lparr>tx_buf := (tx_buf e)[i := overlay (tx_buf e ! i) 0 data],
                   tx_ring := (tx_ring e)[i := (tx_ring e ! i)\<lparr>td_length := of_nat (length data),
                     td_cmd := 0x0B, td_status := 0\<rparr>]\<rparr>;
             e = e\<lparr>tx_tail := (tx_tail e + 1) mod of_nat E1000_NUM_TX\<rparr>;
             e = h_write H E1000_TDT (tx_tail e) e;
             e = send_wait H i 99999 e
         in (if td_status (tx_ring e ! i) \<noteq> 0 then int (length data) else - 1, e)))"

definition e1000_recv :: "'h nic_hw \<Rightarrow> nat \<Rightarrow> 'h e1000 \<Rightarrow> u8 list option \<times> 'h e1000" where
  "e1000_recv H max_len e =
     (if mmio_base e = 0 then (None, e)
      else
        (let i = unat (rx_tail e); desc = rx_ring e ! i in
         if rd_status desc AND 1 = 0 then (Some [], e)
         else
           (let len = unat (rd_length desc);
                len = (if max_len < len then max_len else len);
                data = take len (rx_buf e ! i);
                e = e\<lparr>rx_ring := (rx_ring e)[i := desc\<lparr>rd_status := 0\<rparr>]\<rparr>;
                e = h_write H E1000_RDT (rx_tail e) e
            in (Some data, e\<lparr>rx_tail := (rx_tail e + 1) mod of_nat E1000_NUM_RX\<rparr>))))"

definition e1000_get_mac :: "'h e1000 \<Rightarrow> u8 list" where
  "e1000_get_mac = nic_mac"

subsection \<open>A card\<close>

text \<open>
  The card owns the receive descriptors from its head up to the tail the driver last wrote
  and sends what lies between its transmit head and the tail.  \<open>c_arrivals\<close> is
  what comes in during each sleep of the kernel.
\<close>

record ring_card =
  c_rdh :: nat
  c_rdt :: nat
  c_tdh :: nat
  c_eerd :: u32
  c_rom :: "u32 \<Rightarrow> u16"
  c_wire :: "u8 list list"
  c_arrivals :: "u8 list list list"

fun transmit :: "nat \<Rightarrow> nat \<Rightarrow> ring_card e1000 \<Rightarrow> ring_card e1000" where
  "transmit tdt 0 e = e"
| "transmit tdt (Suc n) e =
     (let h = c_tdh (adapter e) in
      if h = tdt then e
      else transmit tdt n (e\<lparr>tx_ring := (tx_ring e)[h := (tx_ring e ! h)\<lparr>td_status := 1\<rparr>],
        adapter := (adapter e)\<lparr>c_tdh := (h + 1) mod 8,
          c_wire := c_wire (adapter e) @ [take (unat (td_length (tx_ring e ! h))) (tx_buf e ! h)]\<rparr>\<rparr>))"

definition card_write :: "u32 \<Rightarrow> u32 \<Rightarrow> ring_card e1000 \<Rightarrow> ring_card e1000" where
  "card_write reg v e =
     (if reg = 0x3818 then transmit (unat v) 8 e
      else if reg = 0x3810 then e\<lparr>adapter := (adapter e)\<lparr>c_tdh := unat v\<rparr>\<rparr>
      else if reg = 0x2818 then e\<lparr>adapter := (adapter e)\<lparr>c_rdt := unat v\<rparr>\<rparr>
      else if reg = 0x2810 then e\<lparr>adapter := (adapter e)\<lparr>c_rdh := unat v\<rparr>\<rparr>
      else if reg = 0x14 then e\<lparr>adapter := (adapter e)\<lparr>c_eerd := v\<rparr>\<rparr>
      else e)"

definition card_hw :: "ring_card nic_hw" where
  "card_hw = \<lparr>h_read = (\<lambda>reg e. (if reg = 0x14 then push_bit 16 (ucast (c_rom (adapter e) (drop_bit 8 (c_eerd (adapter e))))) OR 0x10 else 0, e)),
     h_write = card_write, h_nop = id\<rparr>"

definition deliver :: "u8 list \<Rightarrow> ring_card e1000 \<Rightarrow> ring_card e1000" where
  "deliver f e =
     (let h = c_rdh (adapter e) in
      if h = c_rdt (adapter e) then e
      else e\<lparr>rx_buf := (rx_buf e)[h := overlay (rx_buf e ! h) 0 f],
        rx_ring := (rx_ring e)[h := (rx_ring e ! h)\<lparr>rd_length := of_nat (length f), rd_status := 1\<rparr>],
        adapter := (adapter e)\<lparr>c_rdh := (h + 1) mod 8\<rparr>\<rparr>)"

text \<open>A frame the hardware accepts.\<close>

definition frame_fits :: "u8 list \<Rightarrow> bool" where
  "frame_fits f \<longleftrightarrow> 34 \<le> length f \<and> length f \<le> 2048"

definition card_sleep :: "nat \<Rightarrow> ring_card e1000 \<Rightarrow> ring_card e1000" where
  "card_sleep k e =
     (case c_arrivals (adapter e) of [] \<Rightarrow> e
      | fs # rest \<Rightarrow> fold deliver (filter frame_fits fs) (e\<lparr>adapter := (adapter e)\<lparr>c_arrivals := rest\<rparr>\<rparr>))"

subsection \<open>The receive ring is a bounded queue\<close>

definition in_ring :: "nat \<Rightarrow> nat \<Rightarrow> nat" where
  "in_ring t i = (t + i) mod 8"

definition rx_count :: "ring_card e1000 \<Rightarrow> nat" where
  "rx_count e = (c_rdh (adapter e) + 8 - unat (rx_tail e)) mod 8"

definition rx_slot :: "ring_card e1000 \<Rightarrow> nat \<Rightarrow> rx_desc" where
  "rx_slot e i = rx_ring e ! in_ring (unat (rx_tail e)) i"

definition rx_frame :: "ring_card e1000 \<Rightarrow> nat \<Rightarrow> u8 list" where
  "rx_frame e i = take (unat (rd_length (rx_slot e i))) (rx_buf e ! in_ring (unat (rx_tail e)) i)"

definition rx_pending :: "ring_card e1000 \<Rightarrow> u8 list list" where
  "rx_pending e = map (rx_frame e) [0..<rx_count e]"

text \<open>The shape of the rings and buffers, and what the descriptors say.\<close>

definition nic_shape :: "ring_card e1000 \<Rightarrow> bool" where
  "nic_shape e \<longleftrightarrow>
     mmio_base e \<noteq> 0 \<and> length (nic_mac e) = 6 \<and>
     length (tx_ring e) = 8 \<and> length (rx_ring e) = 8 \<and> length (tx_buf e) = 8 \<and> length (rx_buf e) = 8 \<and>
     (\<forall>b \<in> set (tx_buf e). length b = 2048) \<and> (\<forall>b \<in> set (rx_buf e). length b = 2048) \<and>
     unat (tx_tail e) < 8 \<and> c_tdh (adapter e) = unat (tx_tail e) \<and>
     unat (rx_tail e) < 8 \<and> c_rdh (adapter e) < 8 \<and> c_rdt (adapter e) = in_ring (unat (rx_tail e)) 7"

definition rx_slots_ok :: "ring_card e1000 \<Rightarrow> bool" where
  "rx_slots_ok e \<longleftrightarrow>
     (\<forall>i < rx_count e. rd_status (rx_slot e i) = 1 \<and> frame_fits (rx_frame e i)) \<and>
     (\<forall>i. rx_count e \<le> i \<and> i < 8 \<longrightarrow> rd_status (rx_slot e i) = 0)"

definition nic_ok :: "ring_card e1000 \<Rightarrow> bool" where
  "nic_ok e \<longleftrightarrow> nic_shape e \<and> rx_slots_ok e"

lemma nic_okD:
  assumes "nic_ok e"
  shows "mmio_base e \<noteq> 0" "length (tx_ring e) = 8" "length (rx_ring e) = 8" "length (tx_buf e) = 8"
    "length (rx_buf e) = 8" "unat (tx_tail e) < 8" "unat (rx_tail e) < 8" "c_rdh (adapter e) < 8"
    "c_rdt (adapter e) = in_ring (unat (rx_tail e)) 7" "c_tdh (adapter e) = unat (tx_tail e)"
    "i < 8 \<Longrightarrow> length (tx_buf e ! i) = 2048" "i < 8 \<Longrightarrow> length (rx_buf e ! i) = 2048"
    "i < rx_count e \<Longrightarrow> rd_status (rx_slot e i) = 1" "i < rx_count e \<Longrightarrow> frame_fits (rx_frame e i)"
    "rx_count e \<le> i \<Longrightarrow> i < 8 \<Longrightarrow> rd_status (rx_slot e i) = 0" "length (nic_mac e) = 6"
  using assms by (simp_all add: nic_ok_def nic_shape_def rx_slots_ok_def)

lemma in_ring_less [simp]: "in_ring t i < 8"
  by (simp add: in_ring_def)

lemma in_ring_inj: "i < 8 \<Longrightarrow> j < 8 \<Longrightarrow> in_ring t i = in_ring t j \<longleftrightarrow> i = j"
proof -
  have "i = j" if ij: "i < 8" "j < 8" and eq: "(t + i) mod 8 = (t + j) mod 8" and le: "i \<le> j" for i j :: nat
  proof -
    have "(t + j) - (t + i) = j - i" by simp
    moreover have "8 dvd (t + j) - (t + i)"
      using eq le by (metis add_le_cancel_left mod_eq_dvd_iff_nat)
    ultimately have "8 dvd j - i" by simp
    then show "i = j" using ij le by (auto dest: dvd_imp_le)
  qed
  from this [of i j] this [of j i] show "i < 8 \<Longrightarrow> j < 8 \<Longrightarrow> in_ring t i = in_ring t j \<longleftrightarrow> i = j"
    by (cases "i \<le> j") (auto simp: in_ring_def)
qed

lemma in_ring_step: "in_ring (in_ring t (Suc 0)) i = in_ring t (Suc i)"
  by (simp add: in_ring_def mod_simps)

lemma in_ring_0: "t < 8 \<Longrightarrow> in_ring t 0 = t"
  by (simp add: in_ring_def)

lemma ring_distance:
  assumes "t < 8" "p < 8"
  shows "(in_ring t p + 8 - t) mod 8 = p"
proof (cases "t + p < 8")
  case True
  then show ?thesis by (simp add: in_ring_def)
next
  case False
  then have "in_ring t p = t + p - 8" using assms by (simp add: in_ring_def mod_if)
  then show ?thesis using False assms by simp
qed

lemma ring_distance_back:
  assumes "t < 8" "h < 8"
  shows "in_ring t ((h + 8 - t) mod 8) = h"
  using assms by (cases "t \<le> h") (auto simp: in_ring_def mod_simps)

lemma rx_count_less [simp]: "rx_count e < 8"
  by (simp add: rx_count_def)

lemma rdh_slot: "nic_ok e \<Longrightarrow> c_rdh (adapter e) = in_ring (unat (rx_tail e)) (rx_count e)"
  by (simp add: nic_okD rx_count_def ring_distance_back)

lemma tail_step: "unat (t :: u32) < 8 \<Longrightarrow> unat ((t + 1) mod 8) = in_ring (unat t) (Suc 0)"
  by (simp add: unat_mod unat32_add_small in_ring_def)


lemma in_ring_round: "t < 8 \<Longrightarrow> in_ring t 8 = t"
  by (simp add: in_ring_def)

lemma rx_step_slot:
  assumes "unat (rx_tail e) < 8" "unat (rx_tail e') = in_ring (unat (rx_tail e)) (Suc 0)"
    "rx_ring e' = (rx_ring e)[unat (rx_tail e) := d]" "length (rx_ring e) = 8" "i < 8"
  shows "rx_slot e' i = (if i = 7 then d else rx_slot e (Suc i))"
proof (cases "i = 7")
  case True
  then show ?thesis
    using assms by (simp add: rx_slot_def in_ring_step in_ring_round)
next
  case False
  then have "in_ring (unat (rx_tail e)) (Suc i) \<noteq> in_ring (unat (rx_tail e)) 0"
    using assms(5) by (subst in_ring_inj) auto
  then show ?thesis
    using assms False by (simp add: rx_slot_def in_ring_step in_ring_0)
qed

lemma recv_none:
  assumes "nic_ok e" "rx_pending e = []"
  shows "e1000_recv card_hw m e = (Some [], e)"
proof -
  have "rx_count e = 0" using assms(2) by (simp add: rx_pending_def)
  then have "rd_status (rx_slot e 0) = 0" using nic_okD(15) [OF assms(1), of 0] by simp
  then show ?thesis
    using assms(1) by (simp add: e1000_recv_def nic_okD rx_slot_def in_ring_0)
qed

lemma recv_some:
  assumes ok: "nic_ok e" and p: "rx_pending e = f # fs"
  shows "\<exists>e'. e1000_recv card_hw m e = (Some (take m f), e') \<and> nic_ok e' \<and> rx_pending e' = fs \<and>
    c_wire (adapter e') = c_wire (adapter e)"
proof -
  note okD = nic_okD [OF ok]
  define t where "t = unat (rx_tail e)"
  obtain c where c: "rx_count e = Suc c" using p by (cases "rx_count e") (auto simp: rx_pending_def)
  have c7: "Suc c < 8" using rx_count_less [of e] by (simp only: c)
  have t: "t < 8" using okD by (simp add: t_def)
  have fr: "f = rx_frame e 0" and fs: "fs = map (\<lambda>i. rx_frame e (Suc i)) [0..<c]"
    using p by (simp_all add: rx_pending_def c upt_conv_Cons map_Suc_upt [symmetric] o_def del: upt_Suc)
  have s0: "rx_slot e 0 = rx_ring e ! t" by (simp add: rx_slot_def t_def [symmetric] in_ring_0 t)
  have st: "rd_status (rx_ring e ! t) = 1" using okD(13) [of 0] c s0 by simp
  define d where "d = (rx_ring e ! t)\<lparr>rd_status := 0\<rparr>"
  define e' where "e' = e\<lparr>rx_ring := (rx_ring e)[t := d], rx_tail := (rx_tail e + 1) mod 8,
    adapter := (adapter e)\<lparr>c_rdt := t\<rparr>\<rparr>"
  have call: "e1000_recv card_hw m e = (Some (take m f), e')"
    using okD(1) st
    by (simp add: e1000_recv_def t_def [symmetric] card_hw_def card_write_def E1000_RDT_def
        e1000_sizes d_def [symmetric] e'_def fr rx_frame_def s0 in_ring_0 t min_def Let_def)
  have tl: "unat (rx_tail e') = in_ring t (Suc 0)"
    using t by (simp add: e'_def tail_step t_def)
  have slot: "rx_slot e' i = (if i = 7 then d else rx_slot e (Suc i))" if "i < 8" for i
    by (rule rx_step_slot) (use okD tl that in \<open>simp_all add: e'_def t_def\<close>)
  have cnt: "rx_count e' = c"
  proof -
    have "c_rdh (adapter e') = in_ring (in_ring t (Suc 0)) c"
      using rdh_slot [OF ok] by (simp add: e'_def c t_def in_ring_step)
    then show ?thesis
      using c7 by (simp add: rx_count_def tl ring_distance)
  qed
  have frame: "rx_frame e' i = rx_frame e (Suc i)" if "i < 7" for i
    using slot [of i] that by (simp add: rx_frame_def tl in_ring_step t_def) (simp add: e'_def)
  have "rx_pending e' = fs"
    using frame c7 by (simp add: rx_pending_def cnt fs)
  moreover have "rx_slots_ok e'"
    unfolding rx_slots_ok_def cnt
  proof (intro conjI allI impI)
    fix i assume "i < c"
    then have i: "i < 7" "Suc i < rx_count e" using c7 by (simp_all add: c)
    then show "rd_status (rx_slot e' i) = 1" "frame_fits (rx_frame e' i)"
      using okD(13,14) [of "Suc i"] frame [of i] slot [of i] by simp_all
  next
    fix i assume i: "c \<le> i \<and> i < 8"
    show "rd_status (rx_slot e' i) = 0"
    proof (cases "i = 7")
      case True
      then show ?thesis using slot [of i] by (simp add: d_def)
    next
      case False
      then have "rx_count e \<le> Suc i" "Suc i < 8" using i by (auto simp: c)
      then show ?thesis using okD(15) [of "Suc i"] slot [of i] i False by simp
    qed
  qed
  moreover have "nic_shape e'"
    using ok t unfolding nic_ok_def nic_shape_def tl in_ring_step in_ring_round [OF t, simplified]
    by (simp add: e'_def in_ring_round)
  moreover have "c_wire (adapter e') = c_wire (adapter e)" by (simp add: e'_def)
  ultimately show ?thesis using call by (auto simp: nic_ok_def)
qed

lemma deliver_full: "nic_ok e \<Longrightarrow> length (rx_pending e) = 7 \<Longrightarrow> deliver f e = e"
  using rdh_slot [of e] by (simp add: deliver_def nic_okD rx_pending_def)

lemma deliver_queues:
  assumes ok: "nic_ok e" and room: "length (rx_pending e) < 7" and f: "frame_fits f"
  shows "nic_ok (deliver f e)" "rx_pending (deliver f e) = rx_pending e @ [f]"
    "c_wire (adapter (deliver f e)) = c_wire (adapter e)"
proof -
  note okD = nic_okD [OF ok]
  define t where "t = unat (rx_tail e)"
  define p where "p = rx_count e"
  have p7: "p < 7" using room by (simp add: rx_pending_def p_def)
  have t: "t < 8" using okD by (simp add: t_def)
  define h where "h = in_ring t p"
  have rdh: "c_rdh (adapter e) = h" using rdh_slot [OF ok] by (simp add: h_def t_def p_def)
  have "in_ring t p \<noteq> in_ring t 7" using p7 by (subst in_ring_inj) auto
  then have ne: "h \<noteq> c_rdt (adapter e)" by (simp add: okD h_def t_def)
  have h8: "h < 8" by (simp add: h_def)
  define d where "d = (rx_ring e ! h)\<lparr>rd_length := of_nat (length f), rd_status := 1\<rparr>"
  have fl: "length f \<le> 2048" using f by (simp add: frame_fits_def)
  then have dl: "unat (rd_length d) = length f" by (simp add: d_def)
  define e' where "e' = e\<lparr>rx_buf := (rx_buf e)[h := overlay (rx_buf e ! h) 0 f], rx_ring := (rx_ring e)[h := d],
      adapter := (adapter e)\<lparr>c_rdh := (h + 1) mod 8\<rparr>\<rparr>"
  have e': "deliver f e = e'"
    using ne by (simp add: e'_def deliver_def rdh d_def)
  have sel: "unat (rx_tail e') = t" "rx_ring e' = (rx_ring e)[h := d]"
    "rx_buf e' = (rx_buf e)[h := overlay (rx_buf e ! h) 0 f]" "c_rdh (adapter e') = in_ring t (Suc p)"
    by (simp_all add: e'_def t_def h_def in_ring_def mod_simps)
  have buf: "length (rx_buf e ! h) = 2048" using okD(12) [OF h8] .
  have cnt: "rx_count e' = Suc p"
    using t p7 by (simp add: rx_count_def sel ring_distance)
  have at_h: "in_ring t i = h \<longleftrightarrow> i = p" if "i < 8" for i
    using that p7 by (simp add: h_def in_ring_inj)
  have slot: "rx_slot e' i = (if i = p then d else rx_slot e i)" if "i < 8" for i
    using at_h [OF that] h8 okD(3)
    by (cases "in_ring t i = h") (simp_all add: rx_slot_def sel t_def [symmetric])
  have frame: "rx_frame e' i = (if i = p then f else rx_frame e i)" if "i < 8" for i
    using at_h [OF that] h8 okD(5) slot [OF that] dl
    by (cases "in_ring t i = h") (simp_all add: rx_frame_def sel t_def [symmetric] overlay_0)
  have pend: "rx_pending e' = rx_pending e @ [f]"
    using frame p7 by (simp add: rx_pending_def cnt p_def [symmetric])
  have "rx_slots_ok e'"
    unfolding rx_slots_ok_def cnt
  proof (intro conjI allI impI)
    fix i assume "i < Suc p"
    then have i: "i < 8" "i \<noteq> p \<Longrightarrow> i < rx_count e" using p7 by (auto simp: p_def)
    show "rd_status (rx_slot e' i) = 1" "frame_fits (rx_frame e' i)"
      using slot [OF i(1)] frame [OF i(1)] okD(13,14) [of i] i(2) f by (auto simp: d_def)
  next
    fix i assume "Suc p \<le> i \<and> i < 8"
    then show "rd_status (rx_slot e' i) = 0"
      using slot [of i] okD(15) [of i] by (simp add: p_def)
  qed
  moreover have "nic_shape e'"
  proof -
    have "\<forall>b\<in>set (rx_buf e'). length b = 2048"
      using ok buf fl unfolding sel
      by (auto simp: nic_ok_def nic_shape_def dest!: set_update_cases)
    moreover have "c_rdh (adapter e') < 8" by (simp add: sel)
    ultimately show ?thesis
      using ok by (simp add: nic_ok_def nic_shape_def) (simp add: e'_def)
  qed
  ultimately have "nic_ok e'" by (simp add: nic_ok_def)
  then show "nic_ok (deliver f e)" "rx_pending (deliver f e) = rx_pending e @ [f]"
    using pend by (simp_all add: e')
  show "c_wire (adapter (deliver f e)) = c_wire (adapter e)" by (simp add: deliver_def Let_def)
qed

lemma nic_deliver_ok: "nic_ok e \<Longrightarrow> frame_fits f \<Longrightarrow> nic_ok (deliver f e)"
proof -
  assume "nic_ok e" "frame_fits f"
  moreover have "length (rx_pending e) < 8" using rx_count_less [of e] by (simp only: rx_pending_def length_map length_upt diff_zero)
  then have "length (rx_pending e) = 7 \<or> length (rx_pending e) < 7" by linarith
  ultimately show ?thesis
    by (auto simp: deliver_full deliver_queues(1))
qed

subsection \<open>Sending\<close>

lemma transmit_one:
  assumes "c_tdh (adapter e) = i" "i < 8" "tdt = in_ring i (Suc 0)"
  shows "transmit tdt (Suc (Suc n)) e =
    e\<lparr>tx_ring := (tx_ring e)[i := (tx_ring e ! i)\<lparr>td_status := 1\<rparr>],
      adapter := (adapter e)\<lparr>c_tdh := tdt,
        c_wire := c_wire (adapter e) @ [take (unat (td_length (tx_ring e ! i))) (tx_buf e ! i)]\<rparr>\<rparr>"
proof -
  have "in_ring i 0 \<noteq> in_ring i (Suc 0)" by (subst in_ring_inj) auto
  then have "i \<noteq> tdt" using assms by (simp add: in_ring_0)
  then show ?thesis
    using assms by (simp add: Let_def) (simp add: in_ring_def)
qed

lemma send_ring:
  assumes ok: "nic_ok e" and len: "length p \<le> 2048"
  shows "\<exists>e'. e1000_send card_hw p e = (int (length p), e') \<and> nic_ok e' \<and> rx_pending e' = rx_pending e \<and>
    c_wire (adapter e') = c_wire (adapter e) @ [p]"
proof -
  note okD = nic_okD [OF ok]
  define i where "i = unat (tx_tail e)"
  have i: "i < 8" using okD by (simp add: i_def)
  define d where "d = (tx_ring e ! i)\<lparr>td_length := of_nat (length p), td_cmd := 0x0B, td_status := 0\<rparr>"
  define e1 where "e1 = e\<lparr>tx_buf := (tx_buf e)[i := overlay (tx_buf e ! i) 0 p], tx_ring := (tx_ring e)[i := d],
    tx_tail := (tx_tail e + 1) mod 8\<rparr>"
  have tl: "unat ((tx_tail e + 1) mod 8) = in_ring i (Suc 0)"
    using i by (simp add: tail_step i_def)
  define e2 where "e2 = e1\<lparr>tx_ring := (tx_ring e)[i := d\<lparr>td_status := 1\<rparr>],
    adapter := (adapter e)\<lparr>c_tdh := in_ring i (Suc 0), c_wire := c_wire (adapter e) @ [p]\<rparr>\<rparr>"
  have dl: "unat (td_length d) = length p" using len by (simp add: d_def)
  have n: "(8 :: nat) = Suc (Suc 6)" by simp
  have w: "card_write 0x3818 ((tx_tail e + 1) mod 8) e1 = e2"
  proof -
    have "card_write 0x3818 ((tx_tail e + 1) mod 8) e1 = transmit (in_ring i (Suc 0)) (Suc (Suc 6)) e1"
      by (simp add: card_write_def tl flip: n)
    also have "\<dots> = e2"
      by (subst transmit_one [where i = i])
        (use okD i dl in \<open>simp_all add: e1_def e2_def i_def [symmetric] overlay_0\<close>)
    finally show ?thesis .
  qed
  have st: "td_status (tx_ring e2 ! i) = 1" using i okD(2) by (simp add: e2_def)
  have "(99999 :: nat) = Suc 99998" by simp
  moreover have "send_wait card_hw i (Suc k) e2 = e2" for k using st by simp
  ultimately have wait: "send_wait card_hw i 99999 e2 = e2" by metis
  have call: "e1000_send card_hw p e = (int (length p), e2)"
    using okD(1) len w wait st
    by (simp add: e1000_send_def e1000_sizes i_def [symmetric] d_def [symmetric] E1000_TDT_def Let_def
        card_hw_def flip: e1_def)
  have "nic_shape e2"
  proof -
    have "\<forall>b\<in>set ((tx_buf e)[i := overlay (tx_buf e ! i) 0 p]). length b = 2048"
      using ok okD(11) [OF i] len
      by (auto simp: nic_ok_def nic_shape_def dest!: set_update_cases)
    then show ?thesis
      using ok tl by (simp add: nic_ok_def nic_shape_def e2_def e1_def)
  qed
  moreover have cnt: "rx_count e2 = rx_count e" by (simp add: rx_count_def e2_def e1_def)
  moreover have "rx_slot e2 = rx_slot e" "rx_frame e2 = rx_frame e"
    by (rule ext, simp add: rx_slot_def rx_frame_def e2_def e1_def)+
  ultimately have "nic_ok e2" "rx_pending e2 = rx_pending e"
    using ok by (simp_all add: nic_ok_def rx_slots_ok_def rx_pending_def)
  then show ?thesis using call by (simp add: e2_def)
qed

lemma sleep_ok: "nic_ok e \<Longrightarrow> nic_ok (card_sleep k e)"
proof -
  assume ok: "nic_ok e"
  have fold: "nic_ok (fold deliver (filter frame_fits fs) e)" if "nic_ok e" for fs e
    using that by (induction fs arbitrary: e) (auto simp: nic_deliver_ok)
  show ?thesis
  proof (cases "c_arrivals (adapter e)")
    case Nil
    then show ?thesis using ok by (simp add: card_sleep_def)
  next
    case (Cons fs rest)
    let ?e = "e\<lparr>adapter := (adapter e)\<lparr>c_arrivals := rest\<rparr>\<rparr>"
    have "rx_count ?e = rx_count e" "rx_slot ?e = rx_slot e" "rx_frame ?e = rx_frame e"
      by (simp add: rx_count_def) (rule ext, simp add: rx_slot_def rx_frame_def)+
    then have "nic_ok ?e" using ok by (simp add: nic_ok_def nic_shape_def rx_slots_ok_def)
    then show ?thesis using Cons fold by (simp add: card_sleep_def)
  qed
qed

definition e1000_driver :: "ring_card e1000 driver" where
  "e1000_driver = \<lparr>d_recv = e1000_recv card_hw, d_send = e1000_send card_hw, d_mac = e1000_get_mac,
     d_sleep = card_sleep\<rparr>"

interpretation eth: nic_driver e1000_driver rx_pending "\<lambda>e. c_wire (adapter e)" nic_ok
proof (unfold_locales, goal_cases)
  case (1 n m)
  then show ?case by (simp add: e1000_driver_def recv_none)
next
  case (2 n f fs m)
  then show ?case using recv_some [of n f fs m] by (auto simp: e1000_driver_def)
next
  case (3 n p)
  then show ?case using send_ring [of n p] by (auto simp: e1000_driver_def)
next
  case (4 n k)
  then show ?case by (simp add: e1000_driver_def sleep_ok)
next
  case (5 n f)
  then obtain i where "i < rx_count n" "f = rx_frame n i" by (auto simp: rx_pending_def)
  then show ?case using nic_okD(14) [OF 5(1), of i] by (simp add: frame_fits_def)
qed

subsection \<open>Initialisation\<close>

lemma eeprom_card: "eeprom_read card_hw a e =
    (c_rom (adapter e) (ucast a), e\<lparr>adapter := (adapter e)\<lparr>c_eerd := push_bit 8 (ucast a) OR 1\<rparr>\<rparr>)"
proof -
  have sh: "drop_bit 8 (push_bit 8 (ucast a) OR 1 :: u32) = ucast a"
    by (rule bit_word_eqI) (auto simp: bit_simps dest: byte_bit)
  have n: "(9999 :: nat) = Suc 9998" by simp
  have v: "(push_bit 16 (ucast (w :: u16)) OR 0x10 :: u32) AND push_bit 4 1 \<noteq> 0"
    "ucast (drop_bit 16 (push_bit 16 (ucast w) OR 0x10 :: u32)) = w" for w
  proof -
    have "bit ((push_bit 16 (ucast w) OR 0x10 :: u32) AND push_bit 4 1) 4"
      by (simp add: bit_simps)
    then show "(push_bit 16 (ucast w) OR 0x10 :: u32) AND push_bit 4 1 \<noteq> 0" by force
    show "ucast (drop_bit 16 (push_bit 16 (ucast w) OR 0x10 :: u32)) = w"
      by (rule bit_word_eqI) (auto simp: bit_simps)
  qed
  have "eeprom_wait card_hw (Suc k) x e = (push_bit 16 (ucast (c_rom (adapter e) (drop_bit 8 (c_eerd (adapter e))))) OR 0x10, e)" for k x e
    using v(1) by (simp add: card_hw_def E1000_EERD_def)
  then have w: "eeprom_wait card_hw 9999 x e = (push_bit 16 (ucast (c_rom (adapter e) (drop_bit 8 (c_eerd (adapter e))))) OR 0x10, e)" for x e
    unfolding n by blast
  have v': "ucast (drop_bit 16 (push_bit 16 (ucast (w :: u16)) :: u32)) = w" for w
    by (rule bit_word_eqI) (auto simp: bit_simps)
  have sh': "drop_bit 8 (push_bit 8 (ucast a) :: u32) = ucast a"
    by (rule bit_word_eqI) (auto simp: bit_simps dest: byte_bit)
  have "h_write card_hw = card_write" by (simp add: card_hw_def)
  then show ?thesis
    unfolding eeprom_read_def Let_def w by (simp add: card_write_def E1000_EERD_def v' sh')
qed

text \<open>The addresses of the card's own memory: six bytes in three words of its ROM.\<close>

definition rom_mac :: "(u32 \<Rightarrow> u16) \<Rightarrow> u8 list" where
  "rom_mac rom = concat (map (\<lambda>a. [ucast (rom a AND 0xFF), ucast (drop_bit 8 (rom a))]) [0, 1, 2])"

lemma card_hw_sel: "h_write card_hw = card_write" "h_nop card_hw = id"
  "h_read card_hw E1000_CTRL e = (0, e)"
  by (simp_all add: card_hw_def E1000_CTRL_def)

lemma read_mac_card:
  "read_mac card_hw e = e\<lparr>nic_mac := rom_mac (c_rom (adapter e)),
     adapter := (adapter e)\<lparr>c_eerd := push_bit 8 2 OR 1\<rparr>\<rparr>"
  by (simp add: read_mac_def eeprom_card rom_mac_def Let_def)

lemma start_card:
  fixes e L
  defines "s \<equiv> e1000_start card_hw L e"
  shows "nic_mac s = rom_mac (c_rom (adapter e))" "mmio_base s = mmio_base e" "tx_buf s = tx_buf e"
    "rx_buf s = rx_buf e" "tx_tail s = 0" "rx_tail s = 0" "c_wire (adapter s) = c_wire (adapter e)"
    "tx_ring s = map (\<lambda>i. \<lparr>td_addr = ucast (at_tx_buf L + of_nat (i * E1000_BUF_SIZE)),
            td_length = 0, td_cmd = 0, td_status = 0\<rparr>) [0..<E1000_NUM_TX]"
    "rx_ring s = map (\<lambda>i. \<lparr>rd_addr = ucast (at_rx_buf L + of_nat (i * E1000_BUF_SIZE)),
            rd_length = 0, rd_status = 0\<rparr>) [0..<E1000_NUM_RX]"
    "c_rdh (adapter s) = 0" "c_rdt (adapter s) = 7" "c_tdh (adapter s) = 0"
proof -
  have t: "transmit 0 8 x = x" if "c_tdh (adapter x) = 0" for x
  proof -
    have n: "(8 :: nat) = Suc 7" by simp
    show ?thesis unfolding n by (simp only: transmit.simps Let_def that simp_thms if_True)
  qed
  note d = s_def e1000_start_def Let_def set_ctrl_def card_hw_sel prod.case id_funpow read_mac_card
    setup_tx_def setup_rx_def
  show "nic_mac s = rom_mac (c_rom (adapter e))" "mmio_base s = mmio_base e" "tx_buf s = tx_buf e"
    "rx_buf s = rx_buf e" "tx_tail s = 0" "rx_tail s = 0" "c_wire (adapter s) = c_wire (adapter e)"
    "tx_ring s = map (\<lambda>i. \<lparr>td_addr = ucast (at_tx_buf L + of_nat (i * E1000_BUF_SIZE)),
            td_length = 0, td_cmd = 0, td_status = 0\<rparr>) [0..<E1000_NUM_TX]"
    "rx_ring s = map (\<lambda>i. \<lparr>rd_addr = ucast (at_rx_buf L + of_nat (i * E1000_BUF_SIZE)),
            rd_length = 0, rd_status = 0\<rparr>) [0..<E1000_NUM_RX]"
    "c_rdh (adapter s) = 0" "c_rdt (adapter s) = 7" "c_tdh (adapter s) = 0"
    unfolding d by (simp_all add: card_write_def e1000_regs t E1000_NUM_RX_def)
qed

lemma length_rom_mac [simp]: "length (rom_mac rom) = 6"
  by (simp add: rom_mac_def)

lemma start_ok:
  assumes "mmio_base e \<noteq> 0" "length (tx_buf e) = 8" "length (rx_buf e) = 8"
    "\<forall>b \<in> set (tx_buf e). length b = 2048" "\<forall>b \<in> set (rx_buf e). length b = 2048"
  shows "nic_ok (e1000_start card_hw L e)" "rx_pending (e1000_start card_hw L e) = []"
proof -
  define s where "s = e1000_start card_hw L e"
  note s = start_card [of L e, folded s_def]
  have c: "rx_count s = 0" by (simp add: rx_count_def s)
  have "rx_slots_ok s"
    unfolding rx_slots_ok_def c
    by (simp add: rx_slot_def s in_ring_def E1000_NUM_RX_def)
  moreover have "nic_shape s"
    using assms by (simp add: nic_shape_def s e1000_sizes in_ring_def)
  ultimately show "nic_ok (e1000_start card_hw L e)" "rx_pending (e1000_start card_hw L e) = []"
    by (simp_all add: nic_ok_def rx_pending_def c flip: s_def)
qed


lemma deliver_pending:
  assumes "nic_ok e" "frame_fits f"
  shows "nic_ok (deliver f e)"
    "rx_pending (deliver f e) = (if length (rx_pending e) < 7 then rx_pending e @ [f] else rx_pending e)"
proof -
  have "length (rx_pending e) < 8"
    using rx_count_less [of e] by (simp only: rx_pending_def length_map length_upt diff_zero)
  then show "nic_ok (deliver f e)"
    "rx_pending (deliver f e) = (if length (rx_pending e) < 7 then rx_pending e @ [f] else rx_pending e)"
    using deliver_queues [OF assms(1) _ assms(2)] deliver_full [OF assms(1)] nic_deliver_ok [OF assms] by auto
qed

lemma deliver_all_ok: "nic_ok e \<Longrightarrow> list_all frame_fits fs \<Longrightarrow> nic_ok (fold deliver fs e)"
  by (induction fs arbitrary: e) (auto simp: nic_deliver_ok)

lemma deliver_all_pending:
  "nic_ok e \<Longrightarrow> list_all frame_fits fs \<Longrightarrow> rx_pending (fold deliver fs e) = take 7 (rx_pending e @ fs)"
proof (induction fs arbitrary: e)
  case Nil
  have "length (rx_pending e) < 8"
    using rx_count_less [of e] by (simp only: rx_pending_def length_map length_upt diff_zero)
  then show ?case by simp
next
  case (Cons f fs)
  have "length (rx_pending e) < 8"
    using rx_count_less [of e] by (simp only: rx_pending_def length_map length_upt diff_zero)
  then show ?case
    using Cons.IH [of "deliver f e"] Cons.prems deliver_pending [of e f] by (auto simp: take_Cons')
qed

fun recv_times :: "nat \<Rightarrow> nat \<Rightarrow> ring_card e1000 \<Rightarrow> u8 list list \<times> ring_card e1000" where
  "recv_times m 0 e = ([], e)"
| "recv_times m (Suc n) e =
     (case e1000_recv card_hw m e of
        (Some f, e) \<Rightarrow> (let (fs, e) = recv_times m n e in (f # fs, e))
      | (None, e) \<Rightarrow> ([], e))"

lemma recv_times_pending:
  "nic_ok e \<Longrightarrow> rx_pending e = fs @ rest \<Longrightarrow>
   \<exists>e'. recv_times m (length fs) e = (map (take m) fs, e') \<and> nic_ok e' \<and> rx_pending e' = rest"
proof (induction fs arbitrary: e)
  case Nil
  then show ?case by simp
next
  case (Cons f fs)
  obtain e1 where e1: "e1000_recv card_hw m e = (Some (take m f), e1)" "nic_ok e1" "rx_pending e1 = fs @ rest"
    using recv_some [OF Cons.prems(1), of f "fs @ rest" m] Cons.prems(2) by auto
  then show ?case using Cons.IH [OF e1(2,3)] by auto
qed

text \<open>A card as it comes out of reset, for the witnesses.\<close>

definition blank_nic :: "ring_card e1000" where
  "blank_nic = \<lparr>mmio_base = 0xFEB80000, nic_mac = replicate 6 0, tx_ring = [], rx_ring = [],
     tx_buf = replicate 8 (replicate 2048 0), rx_buf = replicate 8 (replicate 2048 0), tx_tail = 5, rx_tail = 3,
     adapter = \<lparr>c_rdh = 0, c_rdt = 0, c_tdh = 0, c_eerd = 0, c_rom = (\<lambda>_. 0x5452), c_wire = [], c_arrivals = []\<rparr>\<rparr>"

definition demo_layout :: nic_layout where
  "demo_layout = \<lparr>at_tx_ring = 0x30000, at_rx_ring = 0x30100, at_tx_buf = 0x31000, at_rx_buf = 0x35000\<rparr>"

definition ready_nic :: "ring_card e1000" where
  "ready_nic = e1000_start card_hw demo_layout blank_nic"

lemma ready_nic: "nic_ok ready_nic" "rx_pending ready_nic = []" "length (nic_mac ready_nic) = 6"
  unfolding ready_nic_def
  by (rule start_ok, simp_all add: blank_nic_def)+ (simp add: start_card)

definition ready_net :: "ring_card e1000 net" where
  "ready_net = net_init e1000_driver \<lparr>my_mac = [], arp_cache = [], udp_handlers = [], udp_calls = [],
     nic = ready_nic\<rparr>"

lemma ready_net: "net_ok ready_net" "nic ready_net = ready_nic" "udp_calls ready_net = []"
  unfolding ready_net_def
  by (rule net_ok_init, simp add: e1000_driver_def e1000_get_mac_def ready_nic) (simp_all add: net_init_def)

subsection \<open>Properties\<close>

text \<open>
  C13: the receive ring is a queue of seven frames.  In every state the driver and the card can
  share (started by the driver, then any frames arriving and being fetched, whatever the
  position in the ring), frames that arrive are fetched in the order of arrival, whole
  up to the size of the caller's buffer, until the ring is empty; when seven are waiting
  further frames are dropped and none of the waiting ones is overwritten.
\<close>

theorem e1000_ring_is_queue:
  assumes "nic_ok e" "\<forall>f \<in> set fs. 34 \<le> length f \<and> length f \<le> 2048"
  shows "\<exists>e'. recv_times m (length (take 7 (rx_pending e @ fs))) (fold deliver fs e) =
      (map (take m) (take 7 (rx_pending e @ fs)), e') \<and>
    nic_ok e' \<and> rx_pending e' = [] \<and> e1000_recv card_hw m e' = (Some [], e')"
proof -
  have "list_all frame_fits fs" using assms(2) by (simp add: list_all_iff frame_fits_def)
  note d = deliver_all_ok [OF assms(1) this] deliver_all_pending [OF assms(1) this]
  obtain e' where "recv_times m (length (take 7 (rx_pending e @ fs))) (fold deliver fs e) =
      (map (take m) (take 7 (rx_pending e @ fs)), e')" "nic_ok e'" "rx_pending e' = []"
    using recv_times_pending [OF d(1), of _ "[]" m] d(2) by auto
  then show ?thesis using recv_none [of e' m] by blast
qed

theorem e1000_ring_is_queue_witness:
  "\<exists>e'. recv_times 1500 2 (fold deliver [replicate 60 1, replicate 1514 2] ready_nic) =
     ([replicate 60 1, replicate 1500 2], e')"
proof -
  have "\<forall>f \<in> set [replicate 60 1, replicate 1514 2 :: u8 list]. 34 \<le> length f \<and> length f \<le> 2048" by simp
  from e1000_ring_is_queue [OF ready_nic(1) this, of 1500] show ?thesis
    by (auto simp: ready_nic(2) numeral_2_eq_2)
qed



text \<open>
  C23: a datagram crosses the wire.  When one stack sends data to this host's address (whose
  hardware address it knows), exactly one frame leaves its card, and a second stack whose card
  receives that frame calls the handler registered for the port once, with the data, its length,
  the sender's address and port.
\<close>

theorem udp_crosses_wire:
  assumes "net_ok a" "nic_ok (nic a)" "arp_cache_get my_ip (arp_cache a) = Some m"
    and "net_ok b" "nic_ok (nic b)" "rx_pending (nic b) = []"
    and "find_slot (\<lambda>e. ue_used e \<and> ue_port e = dport) (udp_handlers b) = Some i"
    and "length data \<le> UDP_MAX_PAYLOAD" "length buf = 1500"
  shows "\<exists>a' frame b'. net_udp_send e1000_driver buf my_ip dport sport data a = Some (int (length data), a') \<and>
    c_wire (adapter (nic a')) = c_wire (adapter (nic a)) @ [frame] \<and>
    net_poll e1000_driver buf (b\<lparr>nic := deliver frame (nic b)\<rparr>) = Some b' \<and>
    (\<exists>c. udp_calls b' = udp_calls b @ [c] \<and> uc_handler c = ue_handler (udp_handlers b ! i) \<and>
      take (unat (uc_len c)) (uc_data c) = data \<and> unat (uc_len c) = length data \<and>
      uc_src_ip c = my_ip \<and> uc_src_port c = sport)"
proof -
  have d: "length data \<le> 512" using assms(8) by (simp add: UDP_MAX_PAYLOAD_def)
  have m: "length m = 6" using arp_cache_get_length [OF _ assms(3)] assms(1) by (simp add: net_ok_def)
  have ma: "length (my_mac a) = 6" using assms(1) by (simp add: net_ok_def)
  have ip: "length my_ip = 4" by (simp add: my_ip_def)
  define frame where "frame = take (42 + length data) (udp_packet m (my_mac a) my_ip dport sport data)"
  obtain a' where a': "net_udp_send e1000_driver buf my_ip dport sport data a = Some (int (length data), a')"
    "c_wire (adapter (nic a')) = c_wire (adapter (nic a)) @ [frame]"
    using eth.udp_send_known [of a my_ip m data buf dport sport] assms(1-3,8) ip
    by (auto simp: eth.stack_ok_def frame_def)
  have fl: "length frame = 42 + length data"
    using d by (simp add: frame_def udp_packet_fields [OF assms(8) m ma ip])
  have fits: "frame_fits frame" using d fl by (simp add: frame_fits_def)
  let ?b = "b\<lparr>nic := deliver frame (nic b)\<rparr>"
  have ok: "eth.stack_ok ?b" "rx_pending (nic ?b) = [frame]"
    using assms(4,6) deliver_pending [OF assms(5) fits] by (simp_all add: eth.stack_ok_def net_ok_def)
  define c where "c = \<lparr>uc_handler = ue_handler (udp_handlers b ! i), uc_data = data @ drop (42 + length data) buf,
       uc_len = of_nat (length data), uc_src_ip = my_ip, uc_src_port = sport\<rparr>"
  have step: "handle_frame e1000_driver (overlay buf 0 frame) (of_nat (length frame)) (?b\<lparr>nic := n'\<rparr>) =
      Some ((?b\<lparr>nic := n'\<rparr>)\<lparr>udp_calls := udp_calls (?b\<lparr>nic := n'\<rparr>) @ [c]\<rparr>)" for n'
    using udp_delivery [OF assms(8) m ma assms(9), of dport "?b\<lparr>nic := n'\<rparr>" i e1000_driver sport] assms(7)
    by (simp add: frame_def c_def)
  obtain n1 n2 where p: "net_poll e1000_driver buf ?b =
      Some (((?b\<lparr>nic := n1\<rparr>)\<lparr>udp_calls := udp_calls (?b\<lparr>nic := n1\<rparr>) @ [c]\<rparr>)\<lparr>nic := n2\<rparr>)"
    using eth.poll_one [OF ok(1) assms(9) ok(2), of "\<lambda>t. t\<lparr>udp_calls := udp_calls t @ [c]\<rparr>"] fl d step by auto
  have c: "take (unat (uc_len c)) (uc_data c) = data" "unat (uc_len c) = length data"
    using d by (simp_all add: c_def)
  define b' where "b' = ((?b\<lparr>nic := n1\<rparr>)\<lparr>udp_calls := udp_calls (?b\<lparr>nic := n1\<rparr>) @ [c]\<rparr>)\<lparr>nic := n2\<rparr>"
  have e: "\<exists>c. udp_calls b' = udp_calls b @ [c] \<and> uc_handler c = ue_handler (udp_handlers b ! i) \<and>
      take (unat (uc_len c)) (uc_data c) = data \<and> unat (uc_len c) = length data \<and>
      uc_src_ip c = my_ip \<and> uc_src_port c = sport"
    by (rule exI [of _ c]) (use c in \<open>simp add: b'_def\<close>, simp add: c_def)
  show ?thesis
    by (rule exI [of _ a'], rule exI [of _ frame], rule exI [of _ b'])
      (use a' p [folded b'_def] e in blast)
qed

definition known_net :: "ring_card e1000 net" where
  "known_net = net_udp_register 7 0x1234 (ready_net\<lparr>arp_cache := arp_cache_set my_ip [1, 2, 3, 4, 5, 6] (arp_cache ready_net)\<rparr>)"

theorem udp_crosses_wire_witness:
  "\<exists>a' frame b' c. net_udp_send e1000_driver (replicate 1500 0) my_ip 7 9 [104, 105] known_net = Some (2, a') \<and>
    net_poll e1000_driver (replicate 1500 0) (known_net\<lparr>nic := deliver frame (nic known_net)\<rparr>) = Some b' \<and>
    udp_calls b' = [c] \<and> uc_handler c = 0x1234 \<and> take 2 (uc_data c) = [104, 105]"
proof -
  have ok: "net_ok known_net"
    unfolding known_net_def using ready_net(1)
    by (intro net_ok_register) (simp add: net_ok_def arp_cache_set_ok my_ip_def)
  have n: "nic known_net = ready_nic" "udp_calls known_net = []"
    by (auto simp: known_net_def net_udp_register_def ready_net split: option.split)
  have u: "udp_handlers ready_net = replicate UDP_HANDLERS_MAX \<lparr>ue_port = 0, ue_handler = 0, ue_used = False\<rparr>"
    by (simp add: ready_net_def net_init_def)
  have a: "arp_cache known_net = arp_cache_set my_ip [1, 2, 3, 4, 5, 6] (arp_cache ready_net)"
    by (simp add: known_net_def net_udp_register_def split: option.split)
  have h: "find_slot (\<lambda>e. ue_used e \<and> ue_port e = 7) (udp_handlers known_net) = Some 0"
    "ue_handler (udp_handlers known_net ! 0) = 0x1234"
    by (simp_all add: known_net_def net_udp_register_def u UDP_HANDLERS_MAX_def numeral_eq_Suc)
  have arp: "arp_cache_get my_ip (arp_cache known_net) = Some [1, 2, 3, 4, 5, 6]"
    unfolding a ready_net_def net_init_def
    by (simp add: arp_cache_set_def arp_cache_get_def ARP_CACHE_SIZE_def numeral_eq_Suc arp_hit_def my_ip_def)
  have "nic_ok (nic known_net)" "rx_pending (nic known_net) = []" by (simp_all add: n ready_nic)
  moreover have "length [104, 105 :: u8] \<le> UDP_MAX_PAYLOAD" "length (replicate 1500 (0 :: u8)) = 1500"
    by (simp_all add: UDP_MAX_PAYLOAD_def)
  ultimately obtain a' frame b' c where
    "net_udp_send e1000_driver (replicate 1500 0) my_ip 7 9 [104, 105] known_net = Some (int (length [104, 105 :: u8]), a')"
    "net_poll e1000_driver (replicate 1500 0) (known_net\<lparr>nic := deliver frame (nic known_net)\<rparr>) = Some b'"
    "udp_calls b' = udp_calls known_net @ [c]" "uc_handler c = ue_handler (udp_handlers known_net ! 0)"
    "take (unat (uc_len c)) (uc_data c) = [104, 105]" "unat (uc_len c) = length [104, 105 :: u8]"
    using udp_crosses_wire [OF ok _ arp ok _ _ h(1), of "[104, 105]" "replicate 1500 0" 9] by blast
  moreover have "int (length [104, 105 :: u8]) = 2" "length [104, 105 :: u8] = 2" by simp_all
  ultimately show ?thesis
    unfolding n(2) h(2) by (intro exI conjI) (simp_all add: numeral_2_eq_2)
qed

end
