(* ===== verification/Editor.thy ===== *)
theory Editor
  imports Ramfs Keyboard
begin

text \<open>
  The text editor, \<^verbatim>\<open>kernel/editor.c\<close>, without its screen output (theory \<open>EdSession\<close>): the line
  buffer and its editing operations, searching, loading and saving.  Columns, lines and
  lengths are natural numbers; the arrays are lists of their size.  Accesses outside an
  array cannot happen while \<open>ed_ok\<close> holds, which the lemmas show every operation keeps; only
  \<open>load_file\<close> can break it.
\<close>

unbundle bit_operations_syntax

subsection \<open>State\<close>

definition ED_ROWS :: nat where "ED_ROWS = 22"
definition ED_MAX_LINES :: nat where "ED_MAX_LINES = 128"
definition ED_LINE_MAX :: nat where "ED_LINE_MAX = 80"

lemmas ed_limits = ED_ROWS_def ED_MAX_LINES_def ED_LINE_MAX_def

record editor =
  ed_buf :: "u8 list list"
  line_len :: "nat list"
  num_lines :: nat
  cx :: nat
  cy :: nat
  scroll_y :: nat
  modified :: bool
  filename :: "u8 list"
  msg :: "u8 list"
  msg_time :: u32
  search_query :: "u8 list"
  search_row :: nat
  search_col :: nat

definition buf_init :: "editor \<Rightarrow> editor" where
  "buf_init e = e\<lparr>ed_buf := replicate ED_MAX_LINES (replicate (ED_LINE_MAX + 1) 0),
     line_len := replicate ED_MAX_LINES 0, num_lines := 1, cx := 0, cy := 0, scroll_y := 0,
     modified := False, msg := (msg e)[0 := 0], msg_time := 0\<rparr>"

text \<open>The two shifting loops, over bytes of a line and over lines.\<close>

fun shift_right :: "nat \<Rightarrow> nat \<Rightarrow> 'a list \<Rightarrow> 'a list" where
  "shift_right lo 0 xs = xs"
| "shift_right lo (Suc i) xs = (if lo < Suc i then shift_right lo i (xs[Suc i := xs ! i]) else xs)"

fun shift_left :: "nat \<Rightarrow> nat \<Rightarrow> 'a list \<Rightarrow> 'a list" where
  "shift_left i 0 xs = xs"
| "shift_left i (Suc k) xs = shift_left (i + 1) k (xs[i := xs ! (i + 1)])"

text \<open>\<^verbatim>\<open>for (i = lo; i < hi; i++) a[i] = a[i + 1];\<close>\<close>

definition shift_down_to :: "nat \<Rightarrow> nat \<Rightarrow> 'a list \<Rightarrow> 'a list" where
  "shift_down_to lo hi xs = shift_left lo (hi - lo) xs"

definition row_of :: "nat \<Rightarrow> editor \<Rightarrow> u8 list" where
  "row_of i e = ed_buf e ! i"

definition set_row :: "nat \<Rightarrow> u8 list \<Rightarrow> editor \<Rightarrow> editor" where
  "set_row i r e = e\<lparr>ed_buf := (ed_buf e)[i := r]\<rparr>"

definition set_len :: "nat \<Rightarrow> nat \<Rightarrow> editor \<Rightarrow> editor" where
  "set_len i n e = e\<lparr>line_len := (line_len e)[i := n]\<rparr>"

subsection \<open>Editing operations\<close>

definition buf_insert_char :: "u8 \<Rightarrow> editor \<Rightarrow> editor" where
  "buf_insert_char c e =
     (if ED_MAX_LINES \<le> cy e then e
      else
        (let len = line_len e ! cy e in
         if ED_LINE_MAX \<le> len then e
         else
           (let r = shift_right (cx e) len (row_of (cy e) e);
                r = r[cx e := c];
                e = set_len (cy e) (len + 1) e;
                r = r[len + 1 := 0]
            in (set_row (cy e) r e)\<lparr>cx := cx e + 1, modified := True\<rparr>)))"

definition lines_up :: "nat \<Rightarrow> editor \<Rightarrow> editor" where
  "lines_up i e = e\<lparr>ed_buf := shift_down_to i (num_lines e - 1) (ed_buf e),
     line_len := shift_down_to i (num_lines e - 1) (line_len e), num_lines := num_lines e - 1\<rparr>"

definition buf_delete_char :: "editor \<Rightarrow> editor" where
  "buf_delete_char e =
     (if cx e = 0 then
        (if cy e = 0 then e
         else
           (let prev_len = line_len e ! (cy e - 1);
                cur_len = line_len e ! cy e;
                e' = (if prev_len + cur_len \<le> ED_LINE_MAX then
                        (let r = overlay (row_of (cy e - 1) e) prev_len (take cur_len (row_of (cy e) e));
                             r = r[prev_len + cur_len := 0];
                             e1 = set_len (cy e - 1) (prev_len + cur_len) (set_row (cy e - 1) r e);
                             e2 = lines_up (cy e) e1
                         in e2\<lparr>cy := cy e - 1, cx := prev_len\<rparr>)
                      else e)
            in e'\<lparr>modified := True\<rparr>))
      else
        (let len = line_len e ! cy e;
             r = shift_down_to (cx e - 1) (len - 1) (row_of (cy e) e);
             e = set_len (cy e) (len - 1) e;
             r = r[len - 1 := 0]
         in (set_row (cy e) r e)\<lparr>cx := cx e - 1, modified := True\<rparr>))"

definition buf_newline :: "editor \<Rightarrow> editor" where
  "buf_newline e =
     (if ED_MAX_LINES \<le> num_lines e then e
      else
        (let e = e\<lparr>ed_buf := shift_right (cy e + 1) (num_lines e) (ed_buf e),
                   line_len := shift_right (cy e + 1) (num_lines e) (line_len e),
                   num_lines := num_lines e + 1\<rparr>;
             rest = line_len e ! cy e - cx e;
             r = overlay (row_of (cy e + 1) e) 0 (take rest (drop (cx e) (row_of (cy e) e)));
             e = set_len (cy e + 1) rest (set_row (cy e + 1) (r[rest := 0]) e);
             e = set_len (cy e) (cx e) (set_row (cy e) ((row_of (cy e) e)[cx e := 0]) e)
         in e\<lparr>cy := cy e + 1, cx := 0, modified := True\<rparr>))"

definition clip_cx :: "editor \<Rightarrow> editor" where
  "clip_cx e = (if line_len e ! cy e < cx e then e\<lparr>cx := line_len e ! cy e\<rparr> else e)"

definition buf_delete_line :: "editor \<Rightarrow> editor" where
  "buf_delete_line e =
     (if num_lines e = 1 then
        (set_len 0 0 (set_row 0 (replicate (ED_LINE_MAX + 1) 0) e))\<lparr>cx := 0, modified := True\<rparr>
      else
        (let e = lines_up (cy e) e;
             e = (if num_lines e \<le> cy e then e\<lparr>cy := num_lines e - 1\<rparr> else e)
         in (clip_cx e)\<lparr>modified := True\<rparr>))"

subsection \<open>Searching\<close>

text \<open>
  Does the query stand at column \<open>c\<close> of a line?  The columns are tried in ascending order; the
  last one is \<open>lim - length q\<close>, and there is none when the query is longer than \<open>lim\<close>.
\<close>

definition match_at :: "u8 list \<Rightarrow> nat \<Rightarrow> cstr \<Rightarrow> bool" where
  "match_at row c q \<longleftrightarrow> strncmp_bytes (cstr_of (drop c row)) q (length q) = 0"

definition find_in_line :: "u8 list \<Rightarrow> nat \<Rightarrow> nat \<Rightarrow> cstr \<Rightarrow> nat option" where
  "find_in_line row start lim q =
     (if length q \<le> lim then find (\<lambda>c. match_at row c q) [start..<Suc (lim - length q)] else None)"

fun find_lines :: "(nat \<Rightarrow> nat \<times> nat) \<Rightarrow> cstr \<Rightarrow> nat list \<Rightarrow> editor \<Rightarrow> (nat \<times> nat) option" where
  "find_lines lims q [] e = None"
| "find_lines lims q (l # ls) e =
     (case find_in_line (row_of l e) (fst (lims l)) (snd (lims l)) q of
        Some c \<Rightarrow> Some (l, c)
      | None \<Rightarrow> find_lines lims q ls e)"

definition ed_find :: "cstr \<Rightarrow> editor \<Rightarrow> bool \<times> editor" where
  "ed_find q e =
     (if q = [] then (False, e)
      else
        (case find_lines (\<lambda>l. (if l = cy e then cx e + 1 else 0, line_len e ! l)) q [cy e..<num_lines e] e of
           Some (l, c) \<Rightarrow> (True, e\<lparr>search_row := l, search_col := c\<rparr>)
         | None \<Rightarrow>
           (case find_lines (\<lambda>l. (0, if l = cy e then cx e else line_len e ! l)) q [0..<Suc (cy e)] e of
              Some (l, c) \<Rightarrow> (True, e\<lparr>search_row := l, search_col := c\<rparr>)
            | None \<Rightarrow> (False, e))))"

definition adjust_scroll :: "editor \<Rightarrow> editor" where
  "adjust_scroll e =
     (let e = (if cy e < scroll_y e then e\<lparr>scroll_y := cy e\<rparr> else e)
      in if scroll_y e + ED_ROWS \<le> cy e then e\<lparr>scroll_y := cy e - ED_ROWS + 1\<rparr> else e)"

definition set_msg :: "cstr \<Rightarrow> u32 \<Rightarrow> editor \<Rightarrow> editor" where
  "set_msg s now e = e\<lparr>msg := overlay (msg e) 0 (strncpy_bytes s 79), msg_time := now\<rparr>"

subsection \<open>Keys\<close>

text \<open>
  The body of the main loop for one event: what it does to the editor and how it goes on.
  \<open>now\<close> is the tick counter.
\<close>

datatype ed_next = Ed_redraw | Ed_ignore | Ed_quit | Ed_save | Ed_prompt

definition ctrl :: "char \<Rightarrow> u8" where "ctrl c = of_char c - 96"

definition ed_find_next :: "u32 \<Rightarrow> editor \<Rightarrow> editor" where
  "ed_find_next now e =
     (let q = cstr_of (search_query e); (found, e') = (if q = [] then (False, e) else ed_find q e)
      in if found then set_msg (lit ''found.'') now (e'\<lparr>cy := search_row e', cx := search_col e'\<rparr>)
         else set_msg (lit ''not found.'') now e')"

definition ed_char :: "u32 \<Rightarrow> u8 \<Rightarrow> editor \<Rightarrow> ed_next \<times> editor" where
  "ed_char now c e =
     (if c = ctrl CHR ''q'' then (Ed_quit, e)
      else if c = ctrl CHR ''s'' then (Ed_save, e)
      else if c = ctrl CHR ''k'' then (Ed_redraw, buf_delete_line e)
      else if c = ctrl CHR ''a'' then (Ed_redraw, e\<lparr>cx := 0\<rparr>)
      else if c = ctrl CHR ''e'' then (Ed_redraw, e\<lparr>cx := line_len e ! cy e\<rparr>)
      else if c = 10 then (Ed_redraw, buf_newline e)
      else if c = 8 then (Ed_redraw, buf_delete_char e)
      else if 32 \<le> c \<and> c < 127 then (Ed_redraw, buf_insert_char c e)
      else if c = ctrl CHR ''f'' then (Ed_prompt, e)
      else if c = ctrl CHR ''n'' then (Ed_redraw, ed_find_next now e)
      else (Ed_ignore, e))"

definition ed_key :: "u32 \<Rightarrow> term_event \<Rightarrow> editor \<Rightarrow> ed_next \<times> editor" where
  "ed_key now ev e =
     (case ev_type ev of
        TERM_UP \<Rightarrow> (Ed_redraw, if 0 < cy e then clip_cx (e\<lparr>cy := cy e - 1\<rparr>) else e)
      | TERM_DOWN \<Rightarrow> (Ed_redraw, if cy e < num_lines e - 1 then clip_cx (e\<lparr>cy := cy e + 1\<rparr>) else e)
      | TERM_LEFT \<Rightarrow> (Ed_redraw, if 0 < cx e then e\<lparr>cx := cx e - 1\<rparr>
                       else if 0 < cy e then e\<lparr>cy := cy e - 1, cx := line_len e ! (cy e - 1)\<rparr> else e)
      | TERM_RIGHT \<Rightarrow> (Ed_redraw, if cx e < line_len e ! cy e then e\<lparr>cx := cx e + 1\<rparr>
                       else if cy e < num_lines e - 1 then e\<lparr>cy := cy e + 1, cx := 0\<rparr> else e)
      | TERM_HOME \<Rightarrow> (Ed_redraw, e\<lparr>cx := 0\<rparr>)
      | TERM_END \<Rightarrow> (Ed_redraw, e\<lparr>cx := line_len e ! cy e\<rparr>)
      | TERM_CHAR \<Rightarrow> ed_char now (ev_ch ev) e
      | _ \<Rightarrow> (Ed_ignore, e))"

text \<open>The part after the label \<^verbatim>\<open>redraw\<close>, without the drawing.\<close>

definition ed_step :: "u32 \<Rightarrow> term_event \<Rightarrow> editor \<Rightarrow> ed_next \<times> editor" where
  "ed_step now ev e =
     (let (next, e) = ed_key now ev e in (next, if next = Ed_redraw then adjust_scroll e else e))"

subsection \<open>Files\<close>

fun load_chunk :: "u8 list \<Rightarrow> u8 list list \<Rightarrow> nat list \<Rightarrow> nat \<Rightarrow> nat \<Rightarrow>
    u8 list list \<times> nat list \<times> nat \<times> nat" where
  "load_chunk [] b l line col = (b, l, line, col)"
| "load_chunk (c # cs) b l line col =
     (if c = 10 then
        (let b = b[line := (b ! line)[col := 0]]; l = l[line := col]; line = line + 1
         in if ED_MAX_LINES \<le> line then (b, l, line, 0) else load_chunk cs b l line 0)
      else if col < ED_LINE_MAX then load_chunk cs (b[line := (b ! line)[col := c]]) l line (col + 1)
      else load_chunk cs b l line col)"

partial_function (option) load_file_loop ::
    "'h fs \<Rightarrow> u32 \<Rightarrow> u32 \<Rightarrow> u8 list list \<Rightarrow> nat list \<Rightarrow> nat \<Rightarrow> nat \<Rightarrow>
     (u8 list list \<times> nat list \<times> nat) option" where
  "load_file_loop s node pos b l line col =
     (case vfs_read s node pos 128 of None \<Rightarrow> None
      | Some tmp \<Rightarrow>
          if tmp \<noteq> [] \<and> line < ED_MAX_LINES then
            (case load_chunk tmp b l line col of (b, l, line, col) \<Rightarrow>
               load_file_loop s node (pos + of_nat (length tmp)) b l line col)
          else Some (b, l, line))"

definition load_file :: "'h fs \<Rightarrow> cstr \<Rightarrow> editor \<Rightarrow> editor option" where
  "load_file s path e =
     (let node = vfs_resolve s path in
      if node = 0 \<or> n_flags (the (fs_nodes s node)) AND VFS_FILE = 0 then Some e
      else
        (case load_file_loop s node 0 (ed_buf e) (line_len e) 0 0 of None \<Rightarrow> None
         | Some (b, l, line) \<Rightarrow>
             (let n = (if line < ED_MAX_LINES \<and> l ! line = 0 then (if line = 0 then 1 else line) else line + 1)
              in Some (e\<lparr>ed_buf := b, line_len := l, num_lines := n\<rparr>))))"

text \<open>The file is written line by line; the line break is counted even when it was not stored.\<close>

fun save_lines :: "u32 \<Rightarrow> u32 \<Rightarrow> (u8 list \<times> nat) list \<Rightarrow> 'h fs \<Rightarrow> 'h fs option" where
  "save_lines node pos [] s = Some s"
| "save_lines node pos ((row, len) # ls) s =
     (case vfs_write s node pos (take len row) of None \<Rightarrow> None
      | Some (n, s) \<Rightarrow>
          (case vfs_write s node (pos + n) [10] of None \<Rightarrow> None
           | Some (k, s) \<Rightarrow> save_lines node (pos + n + 1) ls s))"

definition last_slash :: "cstr \<Rightarrow> nat" where
  "last_slash p = (case find (\<lambda>i. p ! i = 47) (rev [0..<length p]) of Some i \<Rightarrow> i | None \<Rightarrow> 0)"

definition save_target :: "cstr \<Rightarrow> mem fs \<Rightarrow> u32 \<times> cstr" where
  "save_target name s =
     (let k = last_slash (take 127 name) in
      if k = 0 then (vfs_root s, tl name)
      else (vfs_resolve s (take k name), drop (k + 1) (take 127 name)))"

definition save_to :: "u32 \<Rightarrow> u32 \<Rightarrow> editor \<Rightarrow> 'h fs \<Rightarrow> (editor \<times> 'h fs) option" where
  "save_to now node e s =
     (let s = s\<lparr>fs_nodes := (fs_nodes s)(node \<mapsto> (the (fs_nodes s node))\<lparr>n_length := 0\<rparr>)\<rparr>
      in case save_lines node 0 (take (num_lines e) (zip (ed_buf e) (line_len e))) s of None \<Rightarrow> None
         | Some s \<Rightarrow> Some (set_msg (lit ''file saved.'') now (e\<lparr>modified := False\<rparr>), s))"

definition save_file :: "u32 \<Rightarrow> editor \<Rightarrow> mem fs \<Rightarrow> (editor \<times> mem fs) option" where
  "save_file now e s =
     (let name = cstr_of (filename e); node = vfs_resolve s name in
      if node \<noteq> 0 then save_to now node e s
      else
        (let (parent, base) = save_target name s in
         if parent = 0 then Some (set_msg (lit ''save failed: no parent dir'') now e, s)
         else
           (let (node, s) = ramfs_mkfile parent base s
            in if node = 0 then Some (set_msg (lit ''save failed: could not create file'') now e, s)
               else save_to now node e s)))"


subsection \<open>The shifting loops\<close>

lemma length_shift_right [simp]: "length (shift_right lo i xs) = length xs"
  by (induction lo i xs rule: shift_right.induct) auto

lemma nth_shift_right:
  "i < length xs \<Longrightarrow> j < length xs \<Longrightarrow>
   shift_right lo i xs ! j = (if lo < j \<and> j \<le> i then xs ! (j - 1) else xs ! j)"
proof (induction lo i xs rule: shift_right.induct)
  case (1 lo xs)
  then show ?case by auto
next
  case (2 lo i xs)
  then show ?case
    by (auto simp: nth_list_update le_Suc_eq)
qed

lemma length_shift_left [simp]: "length (shift_left i k xs) = length xs"
  by (induction i k xs rule: shift_left.induct) auto

lemma nth_shift_left:
  "i + k < length xs \<Longrightarrow> j < length xs \<Longrightarrow>
   shift_left i k xs ! j = (if i \<le> j \<and> j < i + k then xs ! (j + 1) else xs ! j)"
proof (induction i k xs rule: shift_left.induct)
  case (1 i xs)
  then show ?case by auto
next
  case (2 i k xs)
  then show ?case by (auto simp: nth_list_update)
qed

lemma length_shift_down_to [simp]: "length (shift_down_to lo hi xs) = length xs"
  by (simp add: shift_down_to_def)

lemma nth_shift_down_to:
  "hi < length xs \<Longrightarrow> j < length xs \<Longrightarrow>
   shift_down_to lo hi xs ! j = (if lo \<le> j \<and> j < hi then xs ! (j + 1) else xs ! j)"
  by (cases "lo \<le> hi") (auto simp: shift_down_to_def nth_shift_left)

text \<open>As operations on the used part of an array.\<close>

lemma shift_right_insert:
  assumes "lo \<le> i" "i < length xs"
  shows "take (Suc i) ((shift_right lo i xs)[lo := x]) = take lo xs @ [x] @ drop lo (take i xs)"
proof (rule nth_equalityI)
  show "length (take (Suc i) ((shift_right lo i xs)[lo := x])) = length (take lo xs @ [x] @ drop lo (take i xs))"
    using assms by simp
  fix j assume "j < length (take (Suc i) ((shift_right lo i xs)[lo := x]))"
  then show "take (Suc i) ((shift_right lo i xs)[lo := x]) ! j = (take lo xs @ [x] @ drop lo (take i xs)) ! j"
    using assms by (auto simp: nth_shift_right nth_append nth_list_update not_less_eq nth_Cons')
qed

lemma shift_down_remove:
  assumes "lo < n" "n \<le> length xs"
  shows "take (n - 1) (shift_down_to lo (n - 1) xs) = take lo xs @ drop (Suc lo) (take n xs)"
proof (rule nth_equalityI)
  show "length (take (n - 1) (shift_down_to lo (n - 1) xs)) = length (take lo xs @ drop (Suc lo) (take n xs))"
    using assms by simp
  fix j assume "j < length (take (n - 1) (shift_down_to lo (n - 1) xs))"
  then show "take (n - 1) (shift_down_to lo (n - 1) xs) ! j = (take lo xs @ drop (Suc lo) (take n xs)) ! j"
    using assms by (auto simp: nth_shift_down_to nth_append)
qed

subsection \<open>Well-formed editors\<close>

definition ed_shape :: "editor \<Rightarrow> bool" where
  "ed_shape e \<longleftrightarrow> length (ed_buf e) = 128 \<and> (\<forall>r \<in> set (ed_buf e). length r = 81) \<and>
     length (line_len e) = 128 \<and> (\<forall>n \<in> set (line_len e). n \<le> 80) \<and>
     1 \<le> num_lines e \<and> num_lines e \<le> 128 \<and> length (msg e) = 80"

definition ed_ok :: "editor \<Rightarrow> bool" where
  "ed_ok e \<longleftrightarrow> ed_shape e \<and> cy e < num_lines e \<and> cx e \<le> line_len e ! cy e"

lemma ed_okD:
  assumes "ed_ok e"
  shows "length (ed_buf e) = 128" "length (line_len e) = 128" "i < 128 \<Longrightarrow> length (ed_buf e ! i) = 81"
    "i < 128 \<Longrightarrow> line_len e ! i \<le> 80" "1 \<le> num_lines e" "num_lines e \<le> 128" "cy e < num_lines e"
    "cx e \<le> line_len e ! cy e" "ed_shape e" "cy e < 128" "length (msg e) = 80"
  using assms by (auto simp: ed_ok_def ed_shape_def)

text \<open>The text: the used part of every used line.\<close>

definition text_of :: "editor \<Rightarrow> u8 list list" where
  "text_of e = map (\<lambda>i. take (line_len e ! i) (ed_buf e ! i)) [0..<num_lines e]"

definition cursor_of :: "editor \<Rightarrow> nat \<times> nat" where
  "cursor_of e = (cy e, cx e)"

lemma length_text [simp]: "length (text_of e) = num_lines e"
  by (simp add: text_of_def)

lemma text_nth: "i < num_lines e \<Longrightarrow> text_of e ! i = take (line_len e ! i) (ed_buf e ! i)"
  by (simp add: text_of_def)

lemma text_line_length: "ed_ok e \<Longrightarrow> i < num_lines e \<Longrightarrow> length (text_of e ! i) = line_len e ! i"
  using ed_okD(3,4) [of e i] ed_okD(6) [of e] by (simp add: text_nth)

subsection \<open>The document\<close>

text \<open>What an editor promises: operations on a list of lines and a cursor.\<close>

type_synonym doc = "u8 list list \<times> nat \<times> nat"

definition doc_of :: "editor \<Rightarrow> doc" where
  "doc_of e = (text_of e, cy e, cx e)"

fun doc_insert :: "u8 \<Rightarrow> doc \<Rightarrow> doc" where
  "doc_insert c (ls, r, k) =
     (if length (ls ! r) < 80 then (ls[r := take k (ls ! r) @ [c] @ drop k (ls ! r)], r, k + 1) else (ls, r, k))"

fun doc_newline :: "doc \<Rightarrow> doc" where
  "doc_newline (ls, r, k) =
     (if length ls < 128
      then (take r ls @ [take k (ls ! r), drop k (ls ! r)] @ drop (r + 1) ls, r + 1, 0) else (ls, r, k))"

fun doc_backspace :: "doc \<Rightarrow> doc" where
  "doc_backspace (ls, r, 0) =
     (if 0 < r \<and> length (ls ! (r - 1)) + length (ls ! r) \<le> 80
      then (take (r - 1) ls @ [ls ! (r - 1) @ ls ! r] @ drop (r + 1) ls, r - 1, length (ls ! (r - 1)))
      else (ls, r, 0))"
| "doc_backspace (ls, r, Suc k) = (ls[r := take k (ls ! r) @ drop (Suc k) (ls ! r)], r, k)"

fun doc_kill_line :: "doc \<Rightarrow> doc" where
  "doc_kill_line (ls, r, k) =
     (if length ls = 1 then ([[]], r, 0)
      else (let ls' = take r ls @ drop (r + 1) ls; r' = min r (length ls' - 1)
            in (ls', r', min k (length (ls' ! r')))))"

lemma ed_shape_set_row [kinv]: "ed_shape e \<Longrightarrow> length r = 81 \<Longrightarrow> ed_shape (set_row i r e)"
  by (auto simp: ed_shape_def set_row_def dest!: set_update_cases)

lemma ed_shape_set_len [kinv]: "ed_shape e \<Longrightarrow> n \<le> 80 \<Longrightarrow> ed_shape (set_len i n e)"
  by (auto simp: ed_shape_def set_len_def dest!: set_update_cases)

lemma set_row_sel [simp]:
  "ed_buf (set_row i r e) = (ed_buf e)[i := r]" "line_len (set_row i r e) = line_len e"
  "num_lines (set_row i r e) = num_lines e" "cx (set_row i r e) = cx e" "cy (set_row i r e) = cy e"
  "ed_buf (set_len i n e) = ed_buf e" "line_len (set_len i n e) = (line_len e)[i := n]"
  "num_lines (set_len i n e) = num_lines e" "cx (set_len i n e) = cx e" "cy (set_len i n e) = cy e"
  by (simp_all add: set_row_def set_len_def)

lemma ed_shape_fields [simp]:
  "ed_shape (e\<lparr>cx := a\<rparr>) = ed_shape e" "ed_shape (e\<lparr>cy := a\<rparr>) = ed_shape e"
  "ed_shape (e\<lparr>modified := b\<rparr>) = ed_shape e" "ed_shape (e\<lparr>scroll_y := a\<rparr>) = ed_shape e"
  "ed_shape (e\<lparr>search_row := a\<rparr>) = ed_shape e" "ed_shape (e\<lparr>search_col := a\<rparr>) = ed_shape e"
  by (simp_all add: ed_shape_def)

lemma text_of_one_line:
  assumes "i < num_lines e" "length (ed_buf e) = 128" "length (line_len e) = 128" "num_lines e \<le> 128"
  shows "text_of (set_row i r (set_len i n e)) = (text_of e)[i := take n r]"
  using assms by (intro nth_equalityI) (auto simp: text_of_def nth_list_update)

lemma text_of_fields [simp]:
  "text_of (e\<lparr>cx := a\<rparr>) = text_of e" "text_of (e\<lparr>cy := a\<rparr>) = text_of e"
  "text_of (e\<lparr>modified := b\<rparr>) = text_of e"
  by (simp_all add: text_of_def)

subsection \<open>Insertion\<close>

lemma insert_result:
  assumes ok: "ed_ok e"
  shows "ed_ok (buf_insert_char c e)" "doc_of (buf_insert_char c e) = doc_insert c (doc_of e)"
proof -
  note d = ed_okD [OF ok]
  define len where "len = line_len e ! cy e"
  have len: "length (text_of e ! cy e) = len" using text_line_length [OF ok d(7)] by (simp add: len_def)
  have "ed_ok (buf_insert_char c e) \<and> doc_of (buf_insert_char c e) = doc_insert c (doc_of e)"
  proof (cases "80 \<le> len")
    case True
    then show ?thesis
      using ok len d(10) by (simp add: buf_insert_char_def doc_of_def ed_limits len_def)
  next
    case False
    define r where "r = (shift_right (cx e) len (row_of (cy e) e))[cx e := c, len + 1 := 0]"
    have row: "length (row_of (cy e) e) = 81" using d(3) [OF d(10)] by (simp add: row_of_def)
    have res: "buf_insert_char c e = (set_row (cy e) r (set_len (cy e) (len + 1) e))\<lparr>cx := cx e + 1, modified := True\<rparr>"
      using False d(10) by (simp add: buf_insert_char_def ed_limits len_def r_def Let_def)
    have lr: "length r = 81" using row by (simp add: r_def)
    have shape: "ed_shape (set_row (cy e) r (set_len (cy e) (len + 1) e))"
      by (intro ed_shape_set_row ed_shape_set_len d(9) lr) (use False in simp)
    have ok': "ed_ok (buf_insert_char c e)"
      using shape d False unfolding res ed_ok_def by (simp add: len_def)
    have "take (len + 1) r = take (cx e) (text_of e ! cy e) @ [c] @ drop (cx e) (text_of e ! cy e)"
    proof -
      have "take (len + 1) r = take (Suc len) ((shift_right (cx e) len (row_of (cy e) e))[cx e := c])"
        by (simp add: r_def)
      also have "\<dots> = take (cx e) (row_of (cy e) e) @ [c] @ drop (cx e) (take len (row_of (cy e) e))"
        by (rule shift_right_insert) (use d(8) row False in \<open>simp_all add: len_def\<close>)
      finally show ?thesis
        using d(7,8) by (simp add: text_nth row_of_def len_def min_def)
    qed
    then have "text_of (buf_insert_char c e) =
        (text_of e)[cy e := take (cx e) (text_of e ! cy e) @ [c] @ drop (cx e) (text_of e ! cy e)]"
      unfolding res using d by (simp add: text_of_one_line)
    then have "doc_of (buf_insert_char c e) = doc_insert c (doc_of e)"
      using False by (simp add: doc_of_def len) (simp add: res)
    with ok' show ?thesis by blast
  qed
  then show "ed_ok (buf_insert_char c e)" "doc_of (buf_insert_char c e) = doc_insert c (doc_of e)" by blast+
qed

subsection \<open>Lines moving up and down\<close>

lemma set_shift_down: "hi < length xs \<Longrightarrow> set (shift_down_to lo hi xs) \<subseteq> set xs"
proof
  fix x assume "hi < length xs" "x \<in> set (shift_down_to lo hi xs)"
  then obtain j where "j < length xs" "x = shift_down_to lo hi xs ! j" by (auto simp: in_set_conv_nth)
  then show "x \<in> set xs" using \<open>hi < length xs\<close> by (simp add: nth_shift_down_to)
qed

lemma set_shift_right: "i < length xs \<Longrightarrow> set (shift_right lo i xs) \<subseteq> set xs"
proof
  fix x assume "i < length xs" "x \<in> set (shift_right lo i xs)"
  then obtain j where "j < length xs" "x = shift_right lo i xs ! j" by (auto simp: in_set_conv_nth)
  then show "x \<in> set xs" using \<open>i < length xs\<close> by (simp add: nth_shift_right)
qed

lemma lines_up_shape [kinv]:
  assumes "ed_shape e" "2 \<le> num_lines e"
  shows "ed_shape (lines_up i e)"
proof -
  have "num_lines e - 1 < 128" using assms unfolding ed_shape_def by linarith
  then show ?thesis
    using assms set_shift_down [of "num_lines e - 1" "ed_buf e" i]
      set_shift_down [of "num_lines e - 1" "line_len e" i]
    by (auto simp: ed_shape_def lines_up_def dest: subsetD)
qed

lemma lines_up_sel [simp]:
  "num_lines (lines_up i e) = num_lines e - 1" "cx (lines_up i e) = cx e" "cy (lines_up i e) = cy e"
  "line_len (lines_up i e) = shift_down_to i (num_lines e - 1) (line_len e)"
  by (simp_all add: lines_up_def)

lemma text_lines_up:
  assumes "ed_shape e" "i < num_lines e" "2 \<le> num_lines e"
  shows "text_of (lines_up i e) = take i (text_of e) @ drop (i + 1) (text_of e)"
proof (rule nth_equalityI)
  show "length (text_of (lines_up i e)) = length (take i (text_of e) @ drop (i + 1) (text_of e))"
    using assms by simp
  fix j assume "j < length (text_of (lines_up i e))"
  then show "text_of (lines_up i e) ! j = (take i (text_of e) @ drop (i + 1) (text_of e)) ! j"
    using assms by (auto simp: text_of_def lines_up_def ed_shape_def nth_shift_down_to nth_append)
qed

lemma kill_line_result:
  assumes ok: "ed_ok e"
  shows "ed_ok (buf_delete_line e)" "doc_of (buf_delete_line e) = doc_kill_line (doc_of e)"
proof -
  note d = ed_okD [OF ok]
  have "ed_ok (buf_delete_line e) \<and> doc_of (buf_delete_line e) = doc_kill_line (doc_of e)"
  proof (cases "num_lines e = 1")
    case True
    let ?e = "set_len 0 0 (set_row 0 (replicate 81 0) e)"
    have "ed_shape ?e" by (intro ed_shape_set_row ed_shape_set_len d(9)) simp_all
    moreover have "text_of ?e = [[]]" using True d(2) by (simp add: text_of_def)
    moreover have "cy e = 0" using True d(7) by simp
    moreover have "length (text_of e) = 1" using True by simp
    ultimately show ?thesis
      using True by (simp add: buf_delete_line_def ed_limits ed_ok_def doc_of_def)
  next
    case False
    then have n: "2 \<le> num_lines e" using d(5) by simp
    define e1 where "e1 = lines_up (cy e) e"
    define e2 where "e2 = (if num_lines e1 \<le> cy e1 then e1\<lparr>cy := num_lines e1 - 1\<rparr> else e1)"
    have s1: "ed_shape e1" using lines_up_shape [OF d(9) n] by (simp add: e1_def)
    have n1: "num_lines e1 = num_lines e - 1" "cy e1 = cy e" "cx e1 = cx e" by (simp_all add: e1_def)
    have t1: "text_of e1 = take (cy e) (text_of e) @ drop (cy e + 1) (text_of e)"
      unfolding e1_def by (rule text_lines_up [OF d(9,7) n])
    have s2: "ed_shape e2" "cy e2 < num_lines e2" "text_of e2 = text_of e1" "cx e2 = cx e"
      "cy e2 = min (cy e) (num_lines e1 - 1)"
      using s1 n n1 by (auto simp: e2_def text_of_def min_def)
    have ok2: "ed_ok (e2\<lparr>cx := 0\<rparr>)" using s2 by (simp add: ed_ok_def)
    have l2: "length (text_of e2 ! cy e2) = line_len e2 ! cy e2"
      using text_line_length [OF ok2, of "cy e2"] s2(2) by simp
    have res: "buf_delete_line e = (clip_cx e2)\<lparr>modified := True\<rparr>"
      using False by (simp add: buf_delete_line_def e1_def [symmetric] e2_def [symmetric] Let_def)
    have "ed_ok (buf_delete_line e)"
      using s2 unfolding res ed_ok_def by (auto simp: clip_cx_def)
    moreover have "doc_of (buf_delete_line e) = doc_kill_line (doc_of e)"
    proof -
      have "doc_of (buf_delete_line e) = (text_of e2, cy e2, min (cx e) (line_len e2 ! cy e2))"
        using s2 by (auto simp: res doc_of_def clip_cx_def min_def)
      also have "\<dots> = doc_kill_line (doc_of e)"
      proof -
        have "length (text_of e) \<noteq> 1" "length (text_of e2) = num_lines e1" using False s2(3) by simp_all
        then show ?thesis
          by (simp only: doc_of_def doc_kill_line.simps Let_def if_False t1 [folded s2(3), symmetric]
              s2(5) [symmetric] l2)
      qed
      finally show ?thesis .
    qed
    ultimately show ?thesis by blast
  qed
  then show "ed_ok (buf_delete_line e)" "doc_of (buf_delete_line e) = doc_kill_line (doc_of e)" by blast+
qed

lemma join_result:
  assumes ok: "ed_ok e" and cx0: "cx e = 0" and cy: "cy e = Suc p" and fits: "line_len e ! p + line_len e ! cy e \<le> 80"
  shows "ed_ok (buf_delete_char e) \<and> doc_of (buf_delete_char e) = doc_backspace (doc_of e)"
proof -
  note d = ed_okD [OF ok]
  have row: "length (row_of i e) = 81" if "i < 128" for i using d(3) [OF that] by (simp add: row_of_def)
  have p: "p < num_lines e" "p < 128" "2 \<le> num_lines e" using d(6,7) cy by simp_all
  define a where "a = line_len e ! p"
  define b where "b = line_len e ! cy e"
  have la: "length (text_of e ! p) = a" "length (text_of e ! cy e) = b"
    using text_line_length [OF ok p(1)] text_line_length [OF ok d(7)] by (simp_all add: a_def b_def)
  have True: "a + b \<le> 80" using fits by (simp add: a_def b_def)
  define r where "r = (overlay (row_of p e) a (take b (row_of (cy e) e)))[a + b := 0]"
  define e1 where "e1 = set_len p (a + b) (set_row p r e)"
  have lb: "length (take b (row_of (cy e) e)) = b" using row [OF d(10)] True by simp
  have lr: "length r = 81" using row [OF p(2)] lb True by (simp add: r_def length_overlay)
  have s1: "ed_shape e1"
    unfolding e1_def by (intro ed_shape_set_len ed_shape_set_row d(9) lr True)
  have res: "buf_delete_char e = (lines_up (cy e) e1)\<lparr>cy := p, cx := a, modified := True\<rparr>"
  proof -
    have "cy e \<noteq> 0" "cy e - 1 = p" using cy by simp_all
    then show ?thesis
      using cx0 True
      by (simp add: buf_delete_char_def a_def [symmetric] b_def [symmetric] ed_limits r_def [symmetric]
          e1_def [symmetric] Let_def)
  qed
  have n1: "num_lines e1 = num_lines e" by (simp add: e1_def)
  have tr: "take (a + b) r = text_of e ! p @ text_of e ! cy e"
  proof -
    have "take (a + b) r = take (a + b) (overlay (row_of p e) a (take b (row_of (cy e) e)))"
      by (simp add: r_def)
    also have "\<dots> = take a (row_of p e) @ take b (row_of (cy e) e)"
      using row [OF p(2)] row [OF d(10)] True by (simp add: overlay_def min_def)
    finally show ?thesis using p(1) d(7) by (simp add: text_nth row_of_def a_def b_def)
  qed
  have t1: "text_of e1 = (text_of e)[p := text_of e ! p @ text_of e ! cy e]"
  proof -
    have "e1 = set_row p r (set_len p (a + b) e)" by (simp add: e1_def set_row_def set_len_def)
    then show ?thesis using text_of_one_line [OF p(1) d(1,2,6)] tr by simp
  qed
  have t2: "text_of (lines_up (cy e) e1) = take p (text_of e) @ [text_of e ! p @ text_of e ! cy e] @ drop (cy e + 1) (text_of e)"
    using text_lines_up [OF s1, of "cy e"] n1 d(7) p(3) t1 cy
    by (simp add: take_Suc_conv_app_nth)
  have hi: "num_lines e - Suc 0 < 128" "p < num_lines e - Suc 0" using d(6,7) cy p(3) by linarith+
  have "ed_ok (buf_delete_char e)"
    unfolding res ed_ok_def using lines_up_shape [OF s1, of "cy e"] n1 p True cy hi
    by (simp add: nth_shift_down_to e1_def d(2))
  moreover have "doc_of (buf_delete_char e) = doc_backspace (doc_of e)"
    using cx0 cy True la t2 by (simp add: res doc_of_def)
  ultimately show ?thesis by blast
qed

lemma delete_before_result:
  assumes ok: "ed_ok e" and cx: "cx e = Suc k"
  shows "ed_ok (buf_delete_char e) \<and> doc_of (buf_delete_char e) = doc_backspace (doc_of e)"
proof -
  note d = ed_okD [OF ok]
  have row: "length (row_of i e) = 81" if "i < 128" for i using d(3) [OF that] by (simp add: row_of_def)
  define len where "len = line_len e ! cy e"
  have len: "k < len" "len \<le> 80" using d(4) [OF d(10)] d(8) cx by (simp_all add: len_def)
  define r where "r = (shift_down_to k (len - 1) (row_of (cy e) e))[len - 1 := 0]"
  have lr: "length r = 81" using row [OF d(10)] by (simp add: r_def)
  have res: "buf_delete_char e = (set_row (cy e) r (set_len (cy e) (len - 1) e))\<lparr>cx := k, modified := True\<rparr>"
    using cx by (simp add: buf_delete_char_def len_def r_def Let_def)
  have shape: "ed_shape (set_row (cy e) r (set_len (cy e) (len - 1) e))"
    by (intro ed_shape_set_row ed_shape_set_len d(9) lr) (use len in simp)
  have "take (len - 1) r = take k (row_of (cy e) e) @ drop (Suc k) (take len (row_of (cy e) e))"
    using shift_down_remove [of k len "row_of (cy e) e"] len row [OF d(10)] by (simp add: r_def)
  also have "\<dots> = take k (text_of e ! cy e) @ drop (Suc k) (text_of e ! cy e)"
    using d(7) len by (simp add: text_nth row_of_def len_def [symmetric] min_def)
  finally have t: "text_of (buf_delete_char e) =
      (text_of e)[cy e := take k (text_of e ! cy e) @ drop (Suc k) (text_of e ! cy e)]"
    unfolding res using d by (simp add: text_of_one_line)
  have "ed_ok (buf_delete_char e)"
    using shape d len unfolding res ed_ok_def by simp
  moreover have "doc_of (buf_delete_char e) = doc_backspace (doc_of e)"
    using t cx by (simp add: doc_of_def) (simp add: res)
  ultimately show ?thesis by blast
qed

lemma backspace_result:
  assumes ok: "ed_ok e"
  shows "ed_ok (buf_delete_char e)" "doc_of (buf_delete_char e) = doc_backspace (doc_of e)"
proof -
  note d = ed_okD [OF ok]
  have "ed_ok (buf_delete_char e) \<and> doc_of (buf_delete_char e) = doc_backspace (doc_of e)"
  proof (cases "cx e")
    case cx0: 0
    show ?thesis
    proof (cases "cy e")
      case 0
      then show ?thesis using ok cx0 by (simp add: buf_delete_char_def doc_of_def)
    next
      case cy: (Suc p)
      show ?thesis
      proof (cases "line_len e ! p + line_len e ! cy e \<le> 80")
        case False
        have "p < num_lines e" using d(7) cy by simp
        then show ?thesis
          using ok False text_line_length [OF ok, of p] text_line_length [OF ok d(7)] cx0 cy
          by (simp add: buf_delete_char_def ed_limits ed_ok_def doc_of_def)
      qed (rule join_result [OF ok cx0 cy])
    qed
  qed (rule delete_before_result [OF ok])
  then show "ed_ok (buf_delete_char e)" "doc_of (buf_delete_char e) = doc_backspace (doc_of e)" by blast+
qed

subsection \<open>Line breaks\<close>

text \<open>The text when the line under the cursor became \<open>q\<close> and \<open>r\<close> and the later ones moved down.\<close>

lemma text_of_split:
  assumes ok: "ed_ok e" and n: "num_lines e < 128" "num_lines t = num_lines e + 1" and k: "k \<le> line_len e ! cy e"
    and at: "\<And>j. j < num_lines e + 1 \<Longrightarrow> ed_buf t ! j = (if j = cy e then q else if j = cy e + 1 then r
        else shift_right (cy e + 1) (num_lines e) (ed_buf e) ! j)"
      "\<And>j. j < num_lines e + 1 \<Longrightarrow> line_len t ! j = (if j = cy e then k else if j = cy e + 1 then line_len e ! cy e - k
        else shift_right (cy e + 1) (num_lines e) (line_len e) ! j)"
    and tr: "take (line_len e ! cy e - k) r = drop k (text_of e ! cy e)" "take k q = take k (text_of e ! cy e)"
  shows "text_of t = take (cy e) (text_of e) @ [take k (text_of e ! cy e), drop k (text_of e ! cy e)] @ drop (cy e + 1) (text_of e)"
    (is "_ = ?r")
proof (rule nth_equalityI)
  note d = ed_okD [OF ok]
  show "length (text_of t) = length ?r" using n d(7) by simp
  fix j assume "j < length (text_of t)"
  then have j: "j < num_lines e + 1" by (simp add: n)
  note at = at [OF j]
  consider "j < cy e" | "j = cy e" | "j = cy e + 1" | "cy e + 1 < j" by linarith
  then show "text_of t ! j = ?r ! j"
  proof cases
    case 1
    then show ?thesis using j n d(1,2,7) at by (simp add: text_nth nth_append nth_shift_right)
  next
    case 2
    then show ?thesis using j at tr n d(7) by (simp add: text_nth nth_append)
  next
    case 3
    then show ?thesis using j at tr n d(7) by (simp add: text_nth nth_append)
  next
    case 4
    then obtain i where i: "j = Suc (Suc (cy e + i))" by (metis less_iff_Suc_add add_Suc_right add_Suc Suc_eq_plus1)
    show ?thesis using j n d(1,2,7) at by (simp add: i text_nth nth_append nth_shift_right add.assoc)
  qed
qed

lemma newline_result:
  assumes ok: "ed_ok e"
  shows "ed_ok (buf_newline e)" "doc_of (buf_newline e) = doc_newline (doc_of e)"
proof -
  note d = ed_okD [OF ok]
  have "ed_ok (buf_newline e) \<and> doc_of (buf_newline e) = doc_newline (doc_of e)"
  proof (cases "128 \<le> num_lines e")
    case True
    then show ?thesis using ok by (simp add: buf_newline_def ed_limits doc_of_def)
  next
    case False
    define n where "n = num_lines e"
    have n: "n < 128" "cy e < n" using False d(7) by (simp_all add: n_def)
    define k where "k = cx e"
    define len where "len = line_len e ! cy e"
    have k: "k \<le> len" "len \<le> 80" using d(8) d(4) [OF d(10)] by (simp_all add: k_def len_def)
    define e1 where "e1 = e\<lparr>ed_buf := shift_right (cy e + 1) n (ed_buf e),
       line_len := shift_right (cy e + 1) n (line_len e), num_lines := n + 1\<rparr>"
    have s1: "ed_shape e1"
      using d(9) n(1) set_shift_right [of n "ed_buf e" "cy e + 1"] set_shift_right [of n "line_len e" "cy e + 1"]
      by (auto simp: ed_shape_def e1_def dest: subsetD)
    have cur: "row_of (cy e) e1 = row_of (cy e) e" "line_len e1 ! cy e = len"
      using n d(1,2) by (simp_all add: e1_def row_of_def nth_shift_right len_def)
    have row: "length (row_of i e1) = 81" if "i < 128" for i
      using s1 that by (simp add: ed_shape_def row_of_def)
    define r where "r = (overlay (row_of (cy e + 1) e1) 0 (take (len - k) (drop k (row_of (cy e) e))))[len - k := 0]"
    define q where "q = (row_of (cy e) e)[k := 0]"
    have rowcy: "length (row_of (cy e) e) = 81" using d(3) [OF d(10)] by (simp add: row_of_def)
    have lt: "length (take (len - k) (drop k (row_of (cy e) e))) = len - k" using rowcy k by simp
    have lr: "length r = 81" "length q = 81"
      using row [of "cy e + 1"] rowcy lt k n by (simp_all add: r_def q_def length_overlay)
    define e2 where "e2 = set_len (cy e + 1) (len - k) (set_row (cy e + 1) r e1)"
    define e3 where "e3 = set_len (cy e) k (set_row (cy e) q e2)"
    have q2: "row_of (cy e) e2 = row_of (cy e) e"
      using cur(1) by (simp add: e2_def row_of_def)
    have f1: "cy e1 = cy e" "cx e1 = cx e" by (simp_all add: e1_def)
    have f2: "cy e2 = cy e" "cx e2 = k" and f3: "cy e3 = cy e"
      by (simp_all add: e3_def e2_def f1 k_def)
    have res: "buf_newline e = e3\<lparr>cy := cy e + 1, cx := 0, modified := True\<rparr>"
    proof -
      have "buf_newline e =
        (let rest = line_len e1 ! cy e1 - cx e1;
             r = overlay (row_of (cy e1 + 1) e1) 0 (take rest (drop (cx e1) (row_of (cy e1) e1)));
             e = set_len (cy e1 + 1) rest (set_row (cy e1 + 1) (r[rest := 0]) e1);
             e = set_len (cy e) (cx e) (set_row (cy e) ((row_of (cy e) e)[cx e := 0]) e)
         in e\<lparr>cy := cy e + 1, cx := 0, modified := True\<rparr>)"
        using False by (simp add: buf_newline_def ed_limits e1_def n_def Let_def)
      also have "\<dots> = e3\<lparr>cy := cy e + 1, cx := 0, modified := True\<rparr>"
        unfolding Let_def f1 cur k_def [symmetric] r_def [symmetric] e2_def [symmetric] f2 q2
          q_def [symmetric] e3_def [symmetric] f3 by (rule refl)
      finally show ?thesis .
    qed
    have s3: "ed_shape e3"
      unfolding e3_def e2_def
      by (intro ed_shape_set_len ed_shape_set_row s1 lr) (use k in simp_all)
    have n3: "num_lines e3 = n + 1" by (simp add: e3_def e2_def e1_def)
    have tr: "take (len - k) r = drop k (text_of e ! cy e)" "take k q = take k (text_of e ! cy e)"
    proof -
      have "take (len - k) r = take (len - k) (drop k (row_of (cy e) e))"
        using lt by (simp add: r_def overlay_0)
      then show "take (len - k) r = drop k (text_of e ! cy e)"
        using d(7) by (simp add: text_nth row_of_def len_def drop_take)
      show "take k q = take k (text_of e ! cy e)"
        using d(7) k by (simp add: q_def text_nth row_of_def len_def [symmetric] min_def)
    qed
    have at: "ed_buf e3 ! j = (if j = cy e then q else if j = cy e + 1 then r else ed_buf e1 ! j)"
      "line_len e3 ! j = (if j = cy e then k else if j = cy e + 1 then len - k else line_len e1 ! j)" if j: "j < n + 1" for j
      using j n d(1,2) by (auto simp: e3_def e2_def nth_list_update e1_def)
    have "text_of e3 = take (cy e) (text_of e) @ [take k (text_of e ! cy e), drop k (text_of e ! cy e)] @ drop (cy e + 1) (text_of e)"
      by (rule text_of_split [OF ok, of e3 k q r]) (use n k(1) n3 at tr in \<open>simp_all add: n_def len_def e1_def\<close>)
    then have doc: "doc_of (buf_newline e) = doc_newline (doc_of e)"
      using n by (simp add: doc_of_def k_def n_def) (simp add: res)
    have "ed_ok (buf_newline e)"
      using s3 n n3 unfolding res ed_ok_def by simp
    with doc show ?thesis by blast
  qed
  then show "ed_ok (buf_newline e)" "doc_of (buf_newline e) = doc_newline (doc_of e)" by blast+
qed

subsection \<open>Searching finds occurrences\<close>

definition occurs_at :: "u8 list list \<Rightarrow> u8 list \<Rightarrow> nat \<times> nat \<Rightarrow> bool" where
  "occurs_at ls q p \<longleftrightarrow> fst p < length ls \<and> snd p + length q \<le> length (ls ! fst p) \<and>
     take (length q) (drop (snd p) (ls ! fst p)) = q"

lemma take_takeWhile_eq:
  "\<forall>x \<in> set q. P x \<Longrightarrow> take (length q) (takeWhile P xs) = q \<longleftrightarrow> take (length q) xs = q"
proof (induction q arbitrary: xs)
  case (Cons x q)
  then show ?case by (cases xs) auto
qed simp

lemma match_at_iff:
  assumes "is_cstr q"
  shows "match_at row c q \<longleftrightarrow> take (length q) (drop c row) = q"
proof -
  have "is_cstr (cstr_of (drop c row))" by simp
  then show ?thesis
    using assms take_takeWhile_eq [of q "\<lambda>x. x \<noteq> 0" "drop c row"]
    by (auto simp: match_at_def strncmp_bytes_prefix cstr_of_def is_cstr_def)
qed

lemma find_in_line_Some:
  assumes "find_in_line row start lim q = Some c"
  shows "start \<le> c" "c + length q \<le> lim" "match_at row c q"
  using assms by (auto simp: find_in_line_def find_Some_iff split: if_splits simp del: upt_Suc dest: nth_mem)

lemma find_in_line_None:
  assumes "find_in_line row start lim q = None" "start \<le> c" "c + length q \<le> lim"
  shows "\<not> match_at row c q"
  using assms by (auto simp: find_in_line_def find_None_iff split: if_splits)

lemma find_lines_Some:
  "find_lines lims q ls e = Some (l, c) \<Longrightarrow>
   l \<in> set ls \<and> find_in_line (row_of l e) (fst (lims l)) (snd (lims l)) q = Some c"
  by (induction lims q ls e rule: find_lines.induct) (auto split: option.splits)

lemma find_lines_None:
  "find_lines lims q ls e = None \<Longrightarrow> l \<in> set ls \<Longrightarrow>
   find_in_line (row_of l e) (fst (lims l)) (snd (lims l)) q = None"
  by (induction lims q ls e rule: find_lines.induct) (auto split: option.splits)

lemma occurs_at_match:
  assumes "ed_ok e" "is_cstr q" "l < num_lines e" "c + length q \<le> line_len e ! l"
  shows "occurs_at (text_of e) q (l, c) \<longleftrightarrow> match_at (row_of l e) c q"
proof -
  have "take (length q) (drop c (text_of e ! l)) = take (length q) (drop c (row_of l e))"
    using assms(3,4) by (simp add: text_nth row_of_def drop_take min_def)
  then show ?thesis
    using assms text_line_length [OF assms(1,3)] by (simp add: occurs_at_def match_at_iff)
qed

text \<open>The two passes: after the cursor to the end of the text, then from the top to the cursor.\<close>

lemma ed_find_eq:
  "ed_find q e = (if q = [] then (False, e) else
     case find_lines (\<lambda>l. (if l = cy e then cx e + 1 else 0, line_len e ! l)) q [cy e..<num_lines e] e of
       Some p \<Rightarrow> (True, e\<lparr>search_row := fst p, search_col := snd p\<rparr>)
     | None \<Rightarrow>
       (case find_lines (\<lambda>l. (0, if l = cy e then cx e else line_len e ! l)) q [0..<Suc (cy e)] e of
          Some p \<Rightarrow> (True, e\<lparr>search_row := fst p, search_col := snd p\<rparr>) | None \<Rightarrow> (False, e)))"
  unfolding ed_find_def case_prod_beta ..

lemma find_lines_in_text:
  assumes "find_lines lims q ls e = Some (l, c)"
    "\<And>l. l \<in> set ls \<Longrightarrow> l < num_lines e \<and> snd (lims l) \<le> line_len e ! l"
  shows "l < num_lines e" "c + length q \<le> line_len e ! l" "match_at (row_of l e) c q"
proof -
  have l: "l \<in> set ls" "find_in_line (row_of l e) (fst (lims l)) (snd (lims l)) q = Some c"
    using find_lines_Some [OF assms(1)] by auto
  show "l < num_lines e" "c + length q \<le> line_len e ! l" "match_at (row_of l e) c q"
    using find_in_line_Some [OF l(2)] assms(2) [OF l(1)] by auto
qed

lemma ed_find_found:
  assumes ok: "ed_ok e" and q: "is_cstr q" and f: "ed_find q e = (True, e')"
  shows "occurs_at (text_of e) q (search_row e', search_col e')"
    "e' = e\<lparr>search_row := search_row e', search_col := search_col e'\<rparr>"
proof -
  let ?l1 = "\<lambda>l. (if l = cy e then cx e + 1 else 0, line_len e ! l)"
  let ?l2 = "\<lambda>l. (0, if l = cy e then cx e else line_len e ! l)"
  obtain lims ls l c where w: "find_lines lims q ls e = Some (l, c)"
      "(lims, ls) = (?l1, [cy e..<num_lines e]) \<or> (lims, ls) = (?l2, [0..<Suc (cy e)])"
    and e': "e' = e\<lparr>search_row := l, search_col := c\<rparr>"
  proof (cases "find_lines ?l1 q [cy e..<num_lines e] e")
    case None
    then show ?thesis
      using f that [of ?l2 "[0..<Suc (cy e)]"]
      by (cases "find_lines ?l2 q [0..<Suc (cy e)] e") (auto simp: ed_find_eq simp del: upt_Suc split: if_splits)
  next
    case (Some p)
    then show ?thesis
      using f that [of ?l1 "[cy e..<num_lines e]"] by (cases p) (auto simp: ed_find_eq split: if_splits)
  qed
  have in_text: "l < num_lines e \<and> snd (lims l) \<le> line_len e ! l" if "l \<in> set ls" for l
    using w(2) that ed_okD(7,8) [OF ok] by (auto simp del: upt_Suc)
  note lc = find_lines_in_text [OF w(1) in_text]
  show "occurs_at (text_of e) q (search_row e', search_col e')"
    "e' = e\<lparr>search_row := search_row e', search_col := search_col e'\<rparr>"
    using occurs_at_match [OF ok q lc(1,2)] lc(3) by (simp_all add: e')
qed

lemma ed_find_missing:
  assumes ok: "ed_ok e" and q: "is_cstr q" and f: "ed_find q e = (False, e')"
  shows "e' = e" "occurs_at (text_of e) q (l, c) \<Longrightarrow> q = [] \<or> l = cy e \<and> c \<le> cx e \<and> cx e < c + length q"
proof -
  let ?l1 = "\<lambda>l. (if l = cy e then cx e + 1 else 0, line_len e ! l)"
  let ?l2 = "\<lambda>l. (0, if l = cy e then cx e else line_len e ! l)"
  have r: "e' = e \<and> (q = [] \<or> find_lines ?l1 q [cy e..<num_lines e] e = None \<and>
      find_lines ?l2 q [0..<Suc (cy e)] e = None)"
    using f by (simp add: ed_find_eq del: upt_Suc split: if_splits option.splits)
  then show "e' = e" by blast
  assume oc: "occurs_at (text_of e) q (l, c)"
  have l: "l < num_lines e" "c + length q \<le> line_len e ! l"
    using oc text_line_length [OF ok, of l] by (auto simp: occurs_at_def)
  have m: "match_at (row_of l e) c q" using occurs_at_match [OF ok q l] oc by simp
  show "q = [] \<or> l = cy e \<and> c \<le> cx e \<and> cx e < c + length q"
  proof (cases "q = []")
    case False
    then have n1: "find_lines ?l1 q [cy e..<num_lines e] e = None" and n2: "find_lines ?l2 q [0..<Suc (cy e)] e = None"
      using r by simp_all
    have p1: "c < (if l = cy e then cx e + 1 else 0)" if "cy e \<le> l"
    proof (rule ccontr)
      assume "\<not> c < (if l = cy e then cx e + 1 else 0)"
      moreover have "find_in_line (row_of l e) (if l = cy e then cx e + 1 else 0) (line_len e ! l) q = None"
        using find_lines_None [OF n1, of l] l(1) that by simp
      ultimately show False using find_in_line_None [OF _ _ l(2)] m by (simp only: not_less)
    qed
    have p2: "(if l = cy e then cx e else line_len e ! l) < c + length q" if "l \<le> cy e"
    proof (rule ccontr)
      assume a: "\<not> (if l = cy e then cx e else line_len e ! l) < c + length q"
      have "find_in_line (row_of l e) 0 (if l = cy e then cx e else line_len e ! l) q = None"
        using find_lines_None [OF n2, of l] that by (cases "l = cy e") simp_all
      from find_in_line_None [OF this le0] show False using a m by (simp only: not_less)
    qed
    show ?thesis using p1 p2 l by (cases "l \<le> cy e") (auto split: if_splits)
  qed simp
qed

lemma ed_ok_goto:
  assumes "ed_ok e" "occurs_at (text_of e) q (l, c)"
  shows "ed_ok (e\<lparr>search_row := l', search_col := c', cy := l, cx := c\<rparr>)"
  using assms text_line_length [OF assms(1), of l] by (auto simp: ed_ok_def occurs_at_def)


subsection \<open>Events\<close>

text \<open>What the keys do to the document.\<close>

fun doc_move :: "term_key_type \<Rightarrow> doc \<Rightarrow> doc" where
  "doc_move TERM_UP (ls, r, k) = (if r = 0 then (ls, r, k) else (ls, r - 1, min k (length (ls ! (r - 1)))))"
| "doc_move TERM_DOWN (ls, r, k) =
     (if Suc r < length ls then (ls, r + 1, min k (length (ls ! (r + 1)))) else (ls, r, k))"
| "doc_move TERM_LEFT (ls, r, k) =
     (if 0 < k then (ls, r, k - 1) else if 0 < r then (ls, r - 1, length (ls ! (r - 1))) else (ls, r, k))"
| "doc_move TERM_RIGHT (ls, r, k) =
     (if k < length (ls ! r) then (ls, r, k + 1) else if Suc r < length ls then (ls, r + 1, 0) else (ls, r, k))"
| "doc_move TERM_HOME (ls, r, k) = (ls, r, 0)"
| "doc_move TERM_END (ls, r, k) = (ls, r, length (ls ! r))"
| "doc_move _ d = d"

definition doc_event :: "term_event \<Rightarrow> doc \<Rightarrow> doc" where
  "doc_event ev d =
     (if ev_type ev \<noteq> TERM_CHAR then doc_move (ev_type ev) d
      else if ev_ch ev = 11 then doc_kill_line d
      else if ev_ch ev = 1 then doc_move TERM_HOME d
      else if ev_ch ev = 5 then doc_move TERM_END d
      else if ev_ch ev = 10 then doc_newline d
      else if ev_ch ev = 8 then doc_backspace d
      else if 32 \<le> ev_ch ev \<and> ev_ch ev < 127 then doc_insert (ev_ch ev) d
      else d)"

lemma ctrl_codes [simp]:
  "ctrl CHR ''q'' = 17" "ctrl CHR ''s'' = 19" "ctrl CHR ''k'' = 11" "ctrl CHR ''a'' = 1"
  "ctrl CHR ''e'' = 5" "ctrl CHR ''f'' = 6" "ctrl CHR ''n'' = 14"
  by (simp_all add: ctrl_def)

lemma doc_of_goto:
  assumes "ed_ok e" "r < num_lines e" "k \<le> line_len e ! r"
  shows "ed_ok (e\<lparr>cy := r, cx := k\<rparr>)" "doc_of (e\<lparr>cy := r, cx := k\<rparr>) = (text_of e, r, k)"
  using assms by (simp_all add: ed_ok_def doc_of_def)

lemma clip_goto: "clip_cx (e\<lparr>cy := r\<rparr>) = e\<lparr>cy := r, cx := min (cx e) (line_len e ! r)\<rparr>"
  by (simp add: clip_cx_def min_def)

lemma doc_of_col:
  assumes "ed_ok e" "k \<le> line_len e ! cy e"
  shows "ed_ok (e\<lparr>cx := k\<rparr>)" "doc_of (e\<lparr>cx := k\<rparr>) = (text_of e, cy e, k)"
  using assms by (simp_all add: ed_ok_def doc_of_def)

lemma move_result:
  assumes ok: "ed_ok e" and t: "ev_type ev \<noteq> TERM_CHAR"
  shows "ed_ok (snd (ed_key now ev e))" "doc_of (snd (ed_key now ev e)) = doc_move (ev_type ev) (doc_of e)"
proof -
  note d = ed_okD [OF ok]
  note g = doc_of_goto [OF ok] text_line_length [OF ok]
  have "ed_ok (snd (ed_key now ev e)) \<and> doc_of (snd (ed_key now ev e)) = doc_move (ev_type ev) (doc_of e)"
  proof (cases "ev_type ev")
    case TERM_UP
    then show ?thesis using g d(7) ok by (auto simp: ed_key_def doc_of_def [of e] clip_goto)
  next
    case TERM_DOWN
    then show ?thesis using g d(7) ok by (auto simp: ed_key_def doc_of_def [of e] clip_goto)
  next
    case TERM_LEFT
    then show ?thesis using g d(7,8) ok doc_of_col [OF ok] by (auto simp: ed_key_def doc_of_def)
  next
    case TERM_RIGHT
    then show ?thesis using g d(7,8) ok doc_of_col [OF ok] by (auto simp: ed_key_def doc_of_def)
  next
    case TERM_HOME
    then show ?thesis using g d(7,8) doc_of_col [OF ok] by (auto simp: ed_key_def doc_of_def)
  next
    case TERM_END
    then show ?thesis using g d(7,8) doc_of_col [OF ok] by (auto simp: ed_key_def doc_of_def)
  qed (use ok t in \<open>auto simp: ed_key_def\<close>)
  then show "ed_ok (snd (ed_key now ev e))" "doc_of (snd (ed_key now ev e)) = doc_move (ev_type ev) (doc_of e)"
    by blast+
qed

lemma set_msg_sel [simp]:
  "ed_buf (set_msg m now e) = ed_buf e" "line_len (set_msg m now e) = line_len e"
  "num_lines (set_msg m now e) = num_lines e" "cx (set_msg m now e) = cx e" "cy (set_msg m now e) = cy e"
  "scroll_y (set_msg m now e) = scroll_y e" "search_query (set_msg m now e) = search_query e"
  "filename (set_msg m now e) = filename e"
  "length (msg e) = 80 \<Longrightarrow> length (msg (set_msg m now e)) = 80"
  "text_of (set_msg m now e) = text_of e" "doc_of (set_msg m now e) = doc_of e"
  by (simp_all add: set_msg_def strncpy_bytes_def length_overlay text_of_def doc_of_def)

lemma ed_ok_set_msg [simp]: "ed_ok e \<Longrightarrow> ed_ok (set_msg m now e)"
  by (simp add: ed_ok_def ed_shape_def)

lemma ed_ok_fields [simp]:
  "ed_ok (e\<lparr>modified := b\<rparr>) = ed_ok e" "ed_ok (e\<lparr>scroll_y := y\<rparr>) = ed_ok e"
  "ed_ok (e\<lparr>search_query := s\<rparr>) = ed_ok e"
  "doc_of (e\<lparr>modified := b\<rparr>) = doc_of e" "doc_of (e\<lparr>scroll_y := y\<rparr>) = doc_of e"
  "doc_of (e\<lparr>search_query := s\<rparr>) = doc_of e"
  by (simp_all add: ed_ok_def ed_shape_def doc_of_def text_of_def)

lemma ed_goto_result:
  assumes "ed_ok e" "is_cstr q" "ed_find q e = (True, e')"
  shows "ed_ok (e'\<lparr>cy := search_row e', cx := search_col e'\<rparr>)"
    "text_of (e'\<lparr>cy := search_row e', cx := search_col e'\<rparr>) = text_of e"
proof -
  note f = ed_find_found [OF assms]
  have r: "e'\<lparr>cy := search_row e', cx := search_col e'\<rparr> =
      e\<lparr>search_row := search_row e', search_col := search_col e', cy := search_row e', cx := search_col e'\<rparr>"
    by (subst f(2)) simp
  show "ed_ok (e'\<lparr>cy := search_row e', cx := search_col e'\<rparr>)"
    unfolding r by (rule ed_ok_goto [OF assms(1) f(1)])
  show "text_of (e'\<lparr>cy := search_row e', cx := search_col e'\<rparr>) = text_of e"
    unfolding r by (simp add: text_of_def)
qed

lemma find_next_result:
  assumes ok: "ed_ok e"
  shows "ed_ok (ed_find_next now e)" "text_of (ed_find_next now e) = text_of e"
proof -
  define q where "q = cstr_of (search_query e)"
  have q: "is_cstr q" by (simp add: q_def)
  obtain found e' where f: "(if q = [] then (False, e) else ed_find q e) = (found, e')" by fastforce
  have r: "ed_find_next now e = (if found then set_msg (lit ''found.'') now (e'\<lparr>cy := search_row e', cx := search_col e'\<rparr>)
      else set_msg (lit ''not found.'') now e')"
    by (simp only: ed_find_next_def q_def [symmetric] Let_def f prod.case)
  have "ed_ok (ed_find_next now e) \<and> text_of (ed_find_next now e) = text_of e"
  proof (cases found)
    case True
    then have "ed_find q e = (True, e')" using f by (simp split: if_splits)
    from ed_goto_result [OF ok q this] show ?thesis unfolding r using True by simp
  next
    case False
    then have "e' = e" using f ed_find_missing(1) [OF ok q, of e'] by (cases "q = []") simp_all
    then show ?thesis unfolding r using False ok by simp
  qed
  then show "ed_ok (ed_find_next now e)" "text_of (ed_find_next now e) = text_of e" by blast+
qed

lemma char_result:
  assumes "ed_ok e"
  shows "ed_ok (snd (ed_char now c e))"
    "c \<noteq> 14 \<Longrightarrow> doc_of (snd (ed_char now c e)) = doc_event \<lparr>ev_type = TERM_CHAR, ev_ch = c\<rparr> (doc_of e)"
proof -
  note r = insert_result [OF assms] newline_result [OF assms] backspace_result [OF assms]
    kill_line_result [OF assms] find_next_result [OF assms] doc_of_col [OF assms]
  show "ed_ok (snd (ed_char now c e))" using assms by (simp add: ed_char_def r)
  have len: "length (text_of e ! cy e) = line_len e ! cy e"
    by (rule text_line_length [OF assms ed_okD(7) [OF assms]])
  have dm: "doc_move TERM_HOME (doc_of e) = doc_of (e\<lparr>cx := 0\<rparr>)"
    "doc_move TERM_END (doc_of e) = doc_of (e\<lparr>cx := line_len e ! cy e\<rparr>)"
    by (simp_all add: r) (simp_all add: doc_of_def len)
  show "doc_of (snd (ed_char now c e)) = doc_event \<lparr>ev_type = TERM_CHAR, ev_ch = c\<rparr> (doc_of e)" if "c \<noteq> 14"
    using that by (simp add: ed_char_def doc_event_def r dm)
qed

definition window_ok :: "editor \<Rightarrow> bool" where
  "window_ok e \<longleftrightarrow> scroll_y e \<le> cy e \<and> cy e < scroll_y e + ED_ROWS"

lemma adjust_scroll_result [simp]:
  "window_ok (adjust_scroll e)" "ed_ok (adjust_scroll e) = ed_ok e" "doc_of (adjust_scroll e) = doc_of e"
  by (auto simp: adjust_scroll_def window_ok_def ED_ROWS_def Let_def)

lemma unchanged_if:
  "(fst x \<noteq> Ed_redraw \<longrightarrow> snd x = e) \<Longrightarrow> (fst y \<noteq> Ed_redraw \<longrightarrow> snd y = e) \<Longrightarrow>
   (fst (if b then x else y) \<noteq> Ed_redraw \<longrightarrow> snd (if b then x else y) = e)"
  by simp

lemma key_unchanged:
  "fst (ed_key now ev e) \<noteq> Ed_redraw \<Longrightarrow> snd (ed_key now ev e) = e"
proof -
  have "fst (ed_char now c e) \<noteq> Ed_redraw \<longrightarrow> snd (ed_char now c e) = e" for c
    unfolding ed_char_def by (intro unchanged_if) simp_all
  then show "fst (ed_key now ev e) \<noteq> Ed_redraw \<Longrightarrow> snd (ed_key now ev e) = e"
    by (simp add: ed_key_def split: term_key_type.splits)
qed

lemma step_result:
  assumes "ed_ok e"
  shows "ed_ok (snd (ed_step now ev e))"
    "ev_type ev \<noteq> TERM_CHAR \<or> ev_ch ev \<noteq> 14 \<Longrightarrow> doc_of (snd (ed_step now ev e)) = doc_event ev (doc_of e)"
    "window_ok e \<Longrightarrow> window_ok (snd (ed_step now ev e))"
proof -
  have st: "ed_step now ev e = (fst (ed_key now ev e),
      if fst (ed_key now ev e) = Ed_redraw then adjust_scroll (snd (ed_key now ev e)) else snd (ed_key now ev e))"
    by (simp add: ed_step_def Let_def case_prod_beta)
  have ch: "ed_key now ev e = ed_char now (ev_ch ev) e" if "ev_type ev = TERM_CHAR"
    using that by (simp add: ed_key_def)
  show "ed_ok (snd (ed_step now ev e))"
    using move_result(1) [OF assms] char_result(1) [OF assms] ch by (cases "ev_type ev = TERM_CHAR") (simp_all add: st)
  show "doc_of (snd (ed_step now ev e)) = doc_event ev (doc_of e)" if "ev_type ev \<noteq> TERM_CHAR \<or> ev_ch ev \<noteq> 14"
    using move_result(2) [OF assms] char_result(2) [OF assms] ch that
    by (cases "ev_type ev = TERM_CHAR") (simp_all add: st doc_event_def)
  show "window_ok (snd (ed_step now ev e))" if "window_ok e"
    using key_unchanged [of now ev e] that by (simp add: st)
qed


text \<open>
  Searching is sound, and complete except at the cursor: a reported position is an
  occurrence of the query in the text, the editor is otherwise unchanged, and when nothing is
  found every occurrence there is covers the cursor position itself.
\<close>

lemma ed_find_correct:
  assumes "ed_ok e" "is_cstr q" "q \<noteq> []" "ed_find q e = (found, e')"
  shows "(if found
     then occurs_at (text_of e) q (search_row e', search_col e') \<and>
       e' = e\<lparr>search_row := search_row e', search_col := search_col e'\<rparr>
     else e' = e \<and> (\<forall>l c. occurs_at (text_of e) q (l, c) \<longrightarrow>
       l = cy e \<and> c \<le> cx e \<and> cx e < c + length q))"
proof (cases found)
  case True
  with ed_find_found [OF assms(1,2)] assms(4) show ?thesis by simp
next
  case False
  with ed_find_missing [OF assms(1,2)] assms(3,4) show ?thesis by auto
qed


subsection \<open>Examples\<close>

definition blank_editor :: editor where
  "blank_editor = buf_init \<lparr>ed_buf = [], line_len = [], num_lines = 0, cx = 0, cy = 0, scroll_y = 0,
     modified = False, filename = replicate 128 0, msg = replicate 80 0, msg_time = 0,
     search_query = replicate 64 0, search_row = 0, search_col = 0\<rparr>"

lemma buf_init_ok: "length (msg e) = 80 \<Longrightarrow> ed_ok (buf_init e) \<and> doc_of (buf_init e) = ([[]], 0, 0)"
  by (simp add: ed_ok_def ed_shape_def buf_init_def ed_limits doc_of_def text_of_def)

lemma blank_editor_ok: "ed_ok blank_editor" "doc_of blank_editor = ([[]], 0, 0)"
  using buf_init_ok by (simp_all add: blank_editor_def)

lemma typed_a:
  "\<exists>e. ed_ok e \<and> doc_of e = ([[97]], 0, 1) \<and> e = buf_insert_char 97 blank_editor"
  using insert_result [OF blank_editor_ok(1), of 97] by (simp add: blank_editor_ok(2))


lemma ed_find_correct_witness:
  "\<exists>e e'. text_of e = [[97]] \<and> ed_find [97] e = (True, e') \<and> search_row e' = 0 \<and> search_col e' = 0"
proof -
  obtain e where e: "ed_ok e" "doc_of e = ([[97]], 0, 1)" using typed_a by blast
  then have t: "text_of e = [[97]]" "cy e = 0" "cx e = 1" by (simp_all add: doc_of_def)
  obtain found e' where f: "ed_find [97] e = (found, e')" by fastforce
  have occ: "occurs_at [[97]] [97] p \<longleftrightarrow> p = (0, 0)" for p
    by (cases p) (auto simp: occurs_at_def)
  have "is_cstr ([97] :: u8 list)" by (simp add: is_cstr_def)
  from ed_find_correct [OF e(1) this _ f] have "found \<and> search_row e' = 0 \<and> search_col e' = 0"
    by (auto simp: t occ split: if_splits)
  then show ?thesis using f t by (intro exI [of _ e] exI [of _ e']) simp
qed

text \<open>The one occurrence in a text is not found while the cursor stands on it.\<close>

lemma ed_find_misses_cursor:
  "\<exists>e. ed_ok e \<and> doc_of e = ([[97]], 0, 0) \<and> occurs_at (text_of e) [97] (0, 0) \<and> ed_find [97] e = (False, e)"
proof -
  obtain a where a: "ed_ok a" "doc_of a = ([[97]], 0, 1)" using typed_a by blast
  define e where "e = a\<lparr>cx := 0\<rparr>"
  have e: "ed_ok e" "doc_of e = ([[97]], 0, 0)"
    using doc_of_col [OF a(1), of 0] a(2) by (simp_all add: e_def doc_of_def)
  then have t: "text_of e = [[97]]" "cy e = 0" "cx e = 0" by (simp_all add: doc_of_def)
  then have "num_lines e = 1" using length_text [of e, symmetric] by simp
  moreover have "line_len e ! 0 = 1" using text_line_length [OF e(1), of 0] t \<open>num_lines e = 1\<close> by simp
  ultimately have "ed_find [97] e = (False, e)" by (simp add: ed_find_def t find_in_line_def)
  then show ?thesis using e by (intro exI [of _ e]) (simp add: t(1) occurs_at_def)
qed

end
