(* ===== verification/Term.thy ===== *)
theory Term
  imports Vga
begin

text \<open>
  The terminal area of the shell (\<^verbatim>\<open>put\<close>, \<^verbatim>\<open>fill_row\<close>, \<^verbatim>\<open>str_at\<close>, \<^verbatim>\<open>scroll\<close>, \<^verbatim>\<open>shell_puts\<close> and
  \<^verbatim>\<open>shell_newline\<close> of \<^verbatim>\<open>kernel/shell.c\<close>): rows 0 to 22 scroll, row 23 holds the prompt and row 24
  the status bar.  What a command prints is a list of \<open>sh_out\<close> actions; \<open>run_out\<close> draws them.
\<close>

unbundle bit_operations_syntax

subsection \<open>The code\<close>

abbreviation VGA_COLOR_BLACK :: u8 where "VGA_COLOR_BLACK \<equiv> 0"
abbreviation VGA_COLOR_CYAN :: u8 where "VGA_COLOR_CYAN \<equiv> 3"
abbreviation VGA_COLOR_RED :: u8 where "VGA_COLOR_RED \<equiv> 4"
abbreviation VGA_COLOR_LIGHT_GREY :: u8 where "VGA_COLOR_LIGHT_GREY \<equiv> 7"
abbreviation VGA_COLOR_DARK_GREY :: u8 where "VGA_COLOR_DARK_GREY \<equiv> 8"
abbreviation VGA_COLOR_LIGHT_GREEN :: u8 where "VGA_COLOR_LIGHT_GREEN \<equiv> 10"
abbreviation VGA_COLOR_LIGHT_CYAN :: u8 where "VGA_COLOR_LIGHT_CYAN \<equiv> 11"
abbreviation VGA_COLOR_LIGHT_RED :: u8 where "VGA_COLOR_LIGHT_RED \<equiv> 12"
abbreviation VGA_COLOR_YELLOW :: u8 where "VGA_COLOR_YELLOW \<equiv> 14"
abbreviation VGA_COLOR_WHITE :: u8 where "VGA_COLOR_WHITE \<equiv> 15"

definition TERM_TOP :: nat where "TERM_TOP = 0"
definition TERM_BOT :: nat where "TERM_BOT = 22"
definition PROMPT_ROW :: nat where "PROMPT_ROW = 23"
definition STATUS_ROW :: nat where "STATUS_ROW = 24"

lemmas term_rows [simp] = TERM_TOP_def TERM_BOT_def PROMPT_ROW_def STATUS_ROW_def

record terminal =
  t_fb :: "u16 list"
  shell_row :: nat

definition cell_of :: "u8 \<Rightarrow> u8 \<Rightarrow> u8 \<Rightarrow> u16" where
  "cell_of c fg bg = push_bit 8 (push_bit 4 (ucast bg) OR ucast fg) OR ucast c"

definition put_cell :: "int \<Rightarrow> int \<Rightarrow> u8 \<Rightarrow> u8 \<Rightarrow> u8 \<Rightarrow> u16 list \<Rightarrow> u16 list" where
  "put_cell col row c fg bg cells =
     (if col < 0 \<or> int VGA_WIDTH \<le> col \<or> row < 0 \<or> int VGA_HEIGHT \<le> row then cells
      else cells[nat (row * int VGA_WIDTH + col) := cell_of c fg bg])"

definition fill_row :: "int \<Rightarrow> u8 \<Rightarrow> u8 \<Rightarrow> u8 \<Rightarrow> u16 list \<Rightarrow> u16 list" where
  "fill_row row c fg bg cells = fold (\<lambda>i. put_cell (int i) row c fg bg) [0..<VGA_WIDTH] cells"

fun str_at :: "int \<Rightarrow> int \<Rightarrow> cstr \<Rightarrow> u8 \<Rightarrow> u8 \<Rightarrow> u16 list \<Rightarrow> u16 list" where
  "str_at col row [] fg bg cells = cells"
| "str_at col row (c # s) fg bg cells =
     (if col < int VGA_WIDTH then str_at (col + 1) row s fg bg (put_cell col row c fg bg cells) else cells)"

text \<open>Every row is copied from the one below it, top down.\<close>

definition scroll_rows :: "u16 list \<Rightarrow> u16 list" where
  "scroll_rows cells =
     map (\<lambda>i. if i < TERM_BOT * VGA_WIDTH then cells ! (i + VGA_WIDTH) else cells ! i) [0..<length cells]"

definition term_scroll :: "terminal \<Rightarrow> terminal" where
  "term_scroll t =
     (let t = t\<lparr>t_fb := fill_row (int TERM_BOT) 32 VGA_COLOR_WHITE VGA_COLOR_BLACK (scroll_rows (t_fb t))\<rparr>
      in if TERM_BOT < shell_row t then t\<lparr>shell_row := TERM_BOT\<rparr> else t)"

definition shell_newline :: "terminal \<Rightarrow> terminal" where
  "shell_newline t =
     (let t = t\<lparr>shell_row := shell_row t + 1\<rparr>
      in if TERM_BOT < shell_row t then (term_scroll t)\<lparr>shell_row := TERM_BOT\<rparr> else t)"

fun puts_loop :: "nat \<Rightarrow> cstr \<Rightarrow> u8 \<Rightarrow> terminal \<Rightarrow> terminal" where
  "puts_loop col [] fg t = t"
| "puts_loop col (c # s) fg t =
     (let (col, t) = (if c = 10 \<or> VGA_WIDTH \<le> col then (0, shell_newline t) else (col, t))
      in if c \<noteq> 10
         then puts_loop (col + 1) s fg
                (t\<lparr>t_fb := put_cell (int col) (int (shell_row t)) c fg VGA_COLOR_BLACK (t_fb t)\<rparr>)
         else puts_loop col s fg t)"

definition shell_puts :: "cstr \<Rightarrow> u8 \<Rightarrow> terminal \<Rightarrow> terminal" where
  "shell_puts s fg t = shell_newline (puts_loop 0 s fg t)"

text \<open>What a command prints.\<close>

datatype sh_out = Puts cstr u8 | Newline | Clear | At "int" cstr u8

definition cmd_clear :: "terminal \<Rightarrow> terminal" where
  "cmd_clear t =
     t\<lparr>t_fb := fold (\<lambda>r. fill_row (int r) 32 VGA_COLOR_WHITE VGA_COLOR_BLACK) [TERM_TOP..<Suc TERM_BOT] (t_fb t),
       shell_row := TERM_TOP\<rparr>"

fun out_step :: "sh_out \<Rightarrow> terminal \<Rightarrow> terminal" where
  "out_step (Puts s fg) t = shell_puts s fg t"
| "out_step Newline t = shell_newline t"
| "out_step Clear t = cmd_clear t"
| "out_step (At col s fg) t =
     t\<lparr>t_fb := str_at col (int (shell_row t)) s fg VGA_COLOR_BLACK (t_fb t)\<rparr>"

definition run_out :: "sh_out list \<Rightarrow> terminal \<Rightarrow> terminal" where
  "run_out os t = fold out_step os t"

text \<open>The idiom \<^verbatim>\<open>shell_puts(..); shell_newline();\<close>\<close>

definition say :: "string \<Rightarrow> u8 \<Rightarrow> sh_out list" where
  "say s fg = [Puts (lit s) fg, Newline]"

definition say_line :: "cstr \<Rightarrow> u8 \<Rightarrow> sh_out list" where
  "say_line s fg = [Puts s fg, Newline]"

subsection \<open>Rows\<close>

definition row_cells :: "nat \<Rightarrow> u16 list \<Rightarrow> u16 list" where
  "row_cells r cells = take 80 (drop (80 * r) cells)"

definition term_ok :: "terminal \<Rightarrow> bool" where
  "term_ok t \<longleftrightarrow> length (t_fb t) = 2000 \<and> shell_row t \<le> 22"

text \<open>The two bars at the bottom.\<close>

definition bars :: "terminal \<Rightarrow> u16 list" where
  "bars t = drop 1840 (t_fb t)"

lemma length_put_cell [simp]: "length (put_cell col row c fg bg cells) = length cells"
  by (simp add: put_cell_def)

lemma drop_put_cell:
  assumes "row \<le> 22"
  shows "drop 1840 (put_cell col row c fg bg cells) = drop 1840 cells"
proof (cases "col < 0 \<or> 80 \<le> col \<or> row < 0")
  case False
  then have "nat (row * 80 + col) < 1840" using assms by linarith
  then show ?thesis by (simp add: put_cell_def)
qed (auto simp: put_cell_def)

lemma fold_keeps:
  assumes "\<And>x a. x \<in> set xs \<Longrightarrow> P (f x a) = P a"
  shows "P (fold f xs a) = P a"
  using assms by (induction xs arbitrary: a) auto

lemma length_fill_row [simp]: "length (fill_row row c fg bg cells) = length cells"
  unfolding fill_row_def by (rule fold_keeps) simp

lemma drop_fill_row: "row \<le> 22 \<Longrightarrow> drop 1840 (fill_row row c fg bg cells) = drop 1840 cells"
  unfolding fill_row_def by (rule fold_keeps) (rule drop_put_cell)

lemma length_str_at [simp]: "length (str_at col row s fg bg cells) = length cells"
  by (induction col row s fg bg cells rule: str_at.induct) simp_all

lemma drop_str_at: "row \<le> 22 \<Longrightarrow> drop 1840 (str_at col row s fg bg cells) = drop 1840 cells"
  by (induction col row s fg bg cells rule: str_at.induct) (simp_all add: drop_put_cell)

lemma length_scroll_rows [simp]: "length (scroll_rows cells) = length cells"
  by (simp add: scroll_rows_def)

lemma drop_scroll_rows: "drop 1840 (scroll_rows cells) = drop 1840 cells"
  by (rule nth_equalityI) (simp_all add: scroll_rows_def)

definition keeps_bars :: "(terminal \<Rightarrow> terminal) \<Rightarrow> bool" where
  "keeps_bars f \<longleftrightarrow> (\<forall>t. term_ok t \<longrightarrow> term_ok (f t) \<and> bars (f t) = bars t)"

lemma keeps_barsD: "keeps_bars f \<Longrightarrow> term_ok t \<Longrightarrow> term_ok (f t)"
  "keeps_bars f \<Longrightarrow> term_ok t \<Longrightarrow> bars (f t) = bars t"
  by (simp_all add: keeps_bars_def)

lemma newline_keeps [kinv]: "keeps_bars shell_newline"
  by (auto simp: keeps_bars_def shell_newline_def term_scroll_def term_ok_def bars_def Let_def
      drop_fill_row drop_scroll_rows)

lemma puts_loop_keeps: "term_ok t \<Longrightarrow> term_ok (puts_loop col s fg t) \<and> bars (puts_loop col s fg t) = bars t"
proof (induction col s fg t rule: puts_loop.induct)
  case (2 col c s fg t)
  have nl: "term_ok (shell_newline t)" "bars (shell_newline t) = bars t"
    using newline_keeps 2(3) by (simp_all add: keeps_bars_def)
  have put: "term_ok (u\<lparr>t_fb := put_cell k (int (shell_row u)) c fg 0 (t_fb u)\<rparr>) \<and>
      bars (u\<lparr>t_fb := put_cell k (int (shell_row u)) c fg 0 (t_fb u)\<rparr>) = bars u" if "term_ok u" for u k
    using that by (simp add: term_ok_def bars_def drop_put_cell)
  show ?case
    using 2 nl put by (cases "c = 10 \<or> 80 \<le> col") auto
qed simp

lemma puts_keeps [kinv]: "keeps_bars (shell_puts s fg)"
  using puts_loop_keeps newline_keeps by (auto simp: keeps_bars_def shell_puts_def)

lemma clear_keeps [kinv]: "keeps_bars cmd_clear"
proof -
  have "length (fold (\<lambda>r. fill_row (int r) 32 15 0) [0..<23] cells) = length cells" for cells :: "u16 list"
    by (rule fold_keeps) simp
  moreover have "drop 1840 (fold (\<lambda>r. fill_row (int r) 32 15 0) [0..<23] cells) = drop 1840 cells"
    for cells :: "u16 list"
    by (rule fold_keeps) (rule drop_fill_row, simp)
  ultimately show ?thesis by (simp add: keeps_bars_def cmd_clear_def term_ok_def bars_def del: upt_Suc)
qed

lemma out_step_keeps: "keeps_bars (out_step a)"
proof (cases a)
  case (At col s fg)
  then show ?thesis by (auto simp: keeps_bars_def term_ok_def bars_def drop_str_at)
qed (auto simp: keeps_bars_def keeps_barsD [OF puts_keeps] keeps_barsD [OF newline_keeps]
    keeps_barsD [OF clear_keeps])

lemma run_out_keeps: "keeps_bars (run_out os)"
proof -
  have "term_ok t \<Longrightarrow> term_ok (run_out os t) \<and> bars (run_out os t) = bars t" for t
    unfolding run_out_def
    by (induction os arbitrary: t) (simp_all add: keeps_barsD [OF out_step_keeps])
  then show ?thesis by (simp add: keeps_bars_def)
qed


subsection \<open>A line of text\<close>

lemma nth_str_at:
  assumes "length cells = 2000" "row < 25" "col + length s \<le> 80" "i < 2000"
  shows "str_at (int col) (int row) s fg bg cells ! i =
    (if row * 80 + col \<le> i \<and> i < row * 80 + col + length s
     then cell_of (s ! (i - (row * 80 + col))) fg bg else cells ! i)"
  using assms
proof (induction s arbitrary: col cells)
  case (Cons c s)
  define cells' where "cells' = cells[row * 80 + col := cell_of c fg bg]"
  have "nat (int row * 80 + int col) = row * 80 + col" by linarith
  then have step: "str_at (int col) (int row) (c # s) fg bg cells = str_at (int (col + 1)) (int row) s fg bg cells'"
    using Cons.prems by (simp add: put_cell_def cells'_def add.commute)
  have "row * 80 + col < 2000" using Cons.prems by simp
  then have at: "cells' ! i = (if i = row * 80 + col then cell_of c fg bg else cells ! i)"
    using Cons.prems by (simp add: cells'_def nth_list_update)
  have l: "length cells' = 2000" using Cons.prems by (simp add: cells'_def)
  show ?case
    unfolding step using Cons.IH [OF l Cons.prems(2) _ Cons.prems(4), of "col + 1"] Cons.prems(3) at
    by (auto simp: nth_Cons' Suc_le_eq)
qed auto

lemma puts_loop_short:
  "10 \<notin> set s \<Longrightarrow> col + length s \<le> 80 \<Longrightarrow>
   puts_loop col s fg t = t\<lparr>t_fb := str_at (int col) (int (shell_row t)) s fg 0 (t_fb t)\<rparr>"
proof (induction s arbitrary: col t)
  case (Cons c s)
  then show ?case by (simp add: add.commute)
qed simp

lemma nth_fill_row_other:
  "i \<notin> {80 * row..<80 * row + 80} \<Longrightarrow> fill_row (int row) c fg bg cells ! i = cells ! i"
proof -
  assume i: "i \<notin> {80 * row..<80 * row + 80}"
  have "put_cell (int k) (int row) c fg bg a ! i = a ! i" if "k < 80" for k a
  proof -
    have "nat (int row * 80 + int k) = row * 80 + k" by linarith
    then show ?thesis using i that by (auto simp: put_cell_def)
  qed
  then show ?thesis unfolding fill_row_def by (intro fold_keeps) auto
qed

lemma newline_row:
  assumes "term_ok t" "j < 80"
  shows "t_fb (shell_newline t) ! ((shell_row (shell_newline t) - 1) * 80 + j) = t_fb t ! (shell_row t * 80 + j)"
proof (cases "shell_row t = 22")
  case True
  have "t_fb (shell_newline t) ! (21 * 80 + j) = scroll_rows (t_fb t) ! (21 * 80 + j)"
    using nth_fill_row_other [of "21 * 80 + j" 22 32 15 0 "scroll_rows (t_fb t)"] assms True
    by (simp add: shell_newline_def term_scroll_def Let_def)
  also have "\<dots> = t_fb t ! (22 * 80 + j)"
    using assms by (simp add: scroll_rows_def term_ok_def)
  finally show ?thesis using True by (simp add: shell_newline_def Let_def term_scroll_def)
qed (use assms in \<open>simp add: shell_newline_def term_ok_def Let_def\<close>)

lemma puts_line:
  assumes "term_ok t" "10 \<notin> set s" "length s \<le> 80" "j < length s"
  shows "t_fb (shell_puts s fg t) ! ((shell_row (shell_puts s fg t) - 1) * 80 + j) = cell_of (s ! j) fg 0"
proof -
  define u where "u = puts_loop 0 s fg t"
  have u: "u = t\<lparr>t_fb := str_at 0 (int (shell_row t)) s fg 0 (t_fb t)\<rparr>"
    using puts_loop_short [of s 0] assms by (simp add: u_def)
  have ok: "term_ok u" using puts_loop_keeps [OF assms(1)] by (simp add: u_def)
  have "t_fb u ! (shell_row t * 80 + j) = cell_of (s ! j) fg 0"
    using nth_str_at [of "t_fb t" "shell_row t" 0 s "shell_row t * 80 + j" fg 0] assms
    by (simp add: u term_ok_def)
  then show ?thesis
    using newline_row [OF ok, of j] assms by (simp add: shell_puts_def u_def [symmetric]) (simp add: u)
qed



end
