(* ===== verification/ShText.thy ===== *)
theory ShText
  imports Ramfs Term Console "HOL-Library.Multiset"
begin

text \<open>
  The text commands of \<^verbatim>\<open>kernel/shell.c\<close>: \<^verbatim>\<open>cat\<close>, \<^verbatim>\<open>wc\<close>, \<^verbatim>\<open>head\<close>, \<^verbatim>\<open>tail\<close>, \<^verbatim>\<open>sort\<close>, \<^verbatim>\<open>uniq\<close> and
  \<^verbatim>\<open>grep\<close>.  They read a file in pieces of 127 or 128 bytes and treat it byte by byte; the reading
  loop is \<open>scan_loop\<close>, the treatment of one byte a function of its own.  A command gives what
  it prints, and \<open>None\<close> where it would read outside a buffer.
\<close>

unbundle bit_operations_syntax

subsection \<open>Reading a file in pieces\<close>

text \<open>\<^verbatim>\<open>while (go && (n = vfs_read(node, off, size, tmp)) > 0) { for (i..n) body; off += n; }\<close>\<close>

partial_function (option) scan_loop ::
    "'h fs \<Rightarrow> u32 \<Rightarrow> u32 \<Rightarrow> u32 \<Rightarrow> ('a \<Rightarrow> bool) \<Rightarrow> (u8 \<Rightarrow> 'a \<Rightarrow> 'a) \<Rightarrow> 'a \<Rightarrow> 'a option" where
  "scan_loop s node sz pos go f a =
     (if go a then
        (case vfs_read s node pos sz of None \<Rightarrow> None
         | Some tmp \<Rightarrow>
             if tmp = [] then Some a
             else scan_loop s node sz (pos + of_nat (length tmp)) go f (fold f tmp a))
      else Some a)"

text \<open>A file of the ramfs: it is a file and no longer than its buffer of 4096 bytes.\<close>

definition small_file :: "mem fs \<Rightarrow> u32 \<Rightarrow> bool" where
  "small_file s p \<longleftrightarrow> ram_ok s \<and> is_file s p \<and> length (file_bytes s p) \<le> 4096"

lemma vfs_read_piece:
  assumes f: "small_file s p" and k: "k \<le> 4096" and sz: "unat sz \<le> 4096"
  shows "vfs_read s p (of_nat k) sz = Some (take (unat sz) (drop k (file_bytes s p)))"
proof -
  obtain n where "fs_nodes s p = Some n" using f by (auto simp: small_file_def is_file_def)
  then have "p \<noteq> 0" using fs_okD(1) f by (auto simp: small_file_def)
  moreover have "unat (of_nat k :: u32) = k" using k by simp
  moreover have "unat (of_nat k :: u32) + unat sz < 4294967296" using k sz by simp
  ultimately show ?thesis
    using ramfs_read_bytes [of heap_owned s p "of_nat k" sz] f by (simp add: vfs_read_def small_file_def)
qed

lemma fold_stopped: "\<not> go a \<Longrightarrow> (\<And>a c. \<not> go a \<Longrightarrow> f c a = a) \<Longrightarrow> fold f xs a = a"
  by (induction xs) simp_all

text \<open>Whatever the size of the pieces, the result is the fold over the whole file.\<close>

lemma scan_loop_from:
  assumes f: "small_file s p" and sz: "0 < sz" "unat sz \<le> 4096"
    and go: "\<And>a c. \<not> go a \<Longrightarrow> g c a = a"
  shows "k \<le> length (file_bytes s p) \<Longrightarrow>
    scan_loop s p sz (of_nat k) go g a = Some (fold g (drop k (file_bytes s p)) a)"
proof (induction "length (file_bytes s p) - k" arbitrary: k a rule: less_induct)
  case less
  let ?F = "file_bytes s p"
  have len: "length ?F \<le> 4096" using f by (simp add: small_file_def)
  have zpos: "0 < unat sz" using sz(1) by (simp add: word_less_nat_alt)
  note rd = vfs_read_piece [OF f, of k sz] less.prems len sz(2)
  show ?case
  proof (cases "go a")
    case False
    then show ?thesis using go by (subst scan_loop.simps) (simp add: fold_stopped)
  next
    case True
    define t where "t = take (unat sz) (drop k ?F)"
    show ?thesis
    proof (cases "k = length ?F")
      case True
      then show ?thesis using rd \<open>go a\<close> by (subst scan_loop.simps) simp
    next
      case False
      then have ne: "t \<noteq> []" "k + length t \<le> length ?F" "0 < length t"
        using less.prems zpos by (auto simp: t_def)
      have "scan_loop s p sz (of_nat k) go g a = scan_loop s p sz (of_nat (k + length t)) go g (fold g t a)"
        using rd ne(1) \<open>go a\<close> by (subst scan_loop.simps) (simp add: t_def [symmetric])
      also have "\<dots> = Some (fold g (drop (k + length t) ?F) (fold g t a))"
        using ne by (intro less.hyps) linarith+
      also have "\<dots> = Some (fold g (t @ drop (k + length t) ?F) a)" by simp
      also have "t @ drop (k + length t) ?F = drop k ?F"
        using append_take_drop_id [of "length t" "drop k ?F"]
        by (simp add: t_def add.commute min_def split: if_splits)
      finally show ?thesis .
    qed
  qed
qed

lemma scan_loop_file:
  assumes "small_file s p" "0 < sz" "unat sz \<le> 4096" "\<And>a c. \<not> go a \<Longrightarrow> g c a = a"
  shows "scan_loop s p sz 0 go g a = Some (fold g (file_bytes s p) a)"
  using scan_loop_from [OF assms, where k = 0] by simp


subsection \<open>Opening the file\<close>

abbreviation VFS_PATH_MAX :: nat where "VFS_PATH_MAX \<equiv> 256"

text \<open>\<open>cwd\<close> is never empty; the last byte of the buffer stays 0.\<close>

definition make_full :: "cstr \<Rightarrow> cstr \<Rightarrow> cstr" where
  "make_full cwd path =
     (if path \<noteq> [] \<and> hd path = slash then take (VFS_PATH_MAX - 1) path
      else
        (let out = take (VFS_PATH_MAX - 1) cwd;
             out = (if length out < VFS_PATH_MAX - 2 \<and> last out \<noteq> slash then out @ [slash] else out)
         in out @ take (VFS_PATH_MAX - length out - 1) path))"

definition on_file :: "string \<Rightarrow> string \<Rightarrow> cstr \<Rightarrow> cstr \<Rightarrow> mem fs \<Rightarrow> (u32 \<Rightarrow> sh_out list option) \<Rightarrow> sh_out list option" where
  "on_file usage missing cwd path s body =
     (if path = [] then Some (say usage VGA_COLOR_LIGHT_RED)
      else
        (let node = vfs_resolve s (make_full cwd path) in
         if node = 0 \<or> n_flags (the (fs_nodes s node)) AND VFS_FILE = 0 then Some (say missing VGA_COLOR_LIGHT_RED)
         else body node))"

subsection \<open>The commands\<close>

text \<open>Every piece of 127 bytes is printed as a string, each with the line break of \<open>shell_puts\<close>.\<close>

partial_function (option) cat_loop :: "mem fs \<Rightarrow> u32 \<Rightarrow> u32 \<Rightarrow> sh_out list \<Rightarrow> sh_out list option" where
  "cat_loop s node pos out =
     (case vfs_read s node pos 127 of None \<Rightarrow> None
      | Some buf \<Rightarrow>
          if buf = [] then Some out
          else cat_loop s node (pos + of_nat (length buf)) (out @ [Puts (cstr_of buf) VGA_COLOR_WHITE]))"

definition cmd_cat :: "cstr \<Rightarrow> cstr \<Rightarrow> mem fs \<Rightarrow> sh_out list option" where
  "cmd_cat cwd path s =
     on_file ''usage: cat <path>'' ''cat: no such file'' cwd path s
       (\<lambda>node. map_option (\<lambda>out. out @ [Newline]) (cat_loop s node 0 []))"

definition dec :: "u32 \<Rightarrow> cstr" where
  "dec v = (if v = 0 then [48] else udigits 10 v)"

record wc_state =
  wc_lines :: u32
  wc_words :: u32
  wc_bytes :: u32
  in_word :: bool

definition wc_step :: "u8 \<Rightarrow> wc_state \<Rightarrow> wc_state" where
  "wc_step c w =
     (let w = w\<lparr>wc_bytes := wc_bytes w + 1\<rparr>;
          w = (if c = 10 then w\<lparr>wc_lines := wc_lines w + 1\<rparr> else w)
      in if c = 32 \<or> c = 9 \<or> c = 10 then w\<lparr>in_word := False\<rparr>
         else if \<not> in_word w then w\<lparr>in_word := True, wc_words := wc_words w + 1\<rparr> else w)"

text \<open>The text must fit the buffer of 64 bytes.\<close>

definition wc_text :: "wc_state \<Rightarrow> cstr \<Rightarrow> cstr" where
  "wc_text w path = dec (wc_lines w) @ [32] @ dec (wc_words w) @ [32] @ dec (wc_bytes w) @ [32] @ path"

definition cmd_wc :: "cstr \<Rightarrow> cstr \<Rightarrow> mem fs \<Rightarrow> sh_out list option" where
  "cmd_wc cwd path s =
     on_file ''usage: wc <file>'' ''wc: not found'' cwd path s
       (\<lambda>node. case scan_loop s node 128 0 (\<lambda>_. True) wc_step \<lparr>wc_lines = 0, wc_words = 0, wc_bytes = 0, in_word = False\<rparr> of
          None \<Rightarrow> None
        | Some w \<Rightarrow> if length (wc_text w path) < 64 then Some (say_line (wc_text w path) VGA_COLOR_WHITE) else None)"

text \<open>
  \<^verbatim>\<open>if (c == '\n') { line[lpos] = 0; handle; lpos = 0; } else if (lpos < 127) line[lpos++] = c;\<close>
  for as long as the loop goes on: \<open>line\<close> is the bytes below \<^verbatim>\<open>lpos\<close>.
\<close>

definition line_step :: "('a \<Rightarrow> bool) \<Rightarrow> (u8 list \<Rightarrow> 'a \<Rightarrow> 'a) \<Rightarrow> u8 \<Rightarrow> u8 list \<times> 'a \<Rightarrow> u8 list \<times> 'a" where
  "line_step go handle c st =
     (let (line, a) = st in
      if go a
      then (if c = 10 then ([], handle line a) else if length line < 127 then (line @ [c], a) else (line, a))
      else (line, a))"

definition head_line :: "u8 list \<Rightarrow> nat \<times> sh_out list \<Rightarrow> nat \<times> sh_out list" where
  "head_line line a = (fst a + 1, snd a @ say_line (cstr_of line) VGA_COLOR_WHITE)"

definition cmd_head :: "cstr \<Rightarrow> cstr \<Rightarrow> nat \<Rightarrow> mem fs \<Rightarrow> sh_out list option" where
  "cmd_head cwd path k s =
     on_file ''usage: head <file>'' ''head: not found'' cwd path s
       (\<lambda>node. map_option (\<lambda>(line, n, out). out)
          (scan_loop s node 128 0 (\<lambda>(line, n, out). n < k) (line_step (\<lambda>(n, out). n < k) head_line) ([], 0, [])))"

text \<open>The ring of \<^verbatim>\<open>tail\<close> is 32 rows of 128 bytes on the stack, with what was there before: \<open>junk\<close>.\<close>

definition ring_put :: "u8 list \<Rightarrow> nat \<times> u8 list \<Rightarrow> nat \<times> u8 list" where
  "ring_put line a =
     (fst a + 1, overlay (snd a) (128 * (fst a mod 32)) (strncpy_bytes (cstr_of line) 127))"

definition ring_get :: "nat \<Rightarrow> u8 list \<Rightarrow> cstr option" where
  "ring_get i ring =
     (let r = drop (128 * (i mod 32)) ring in if 0 \<in> set r then Some (cstr_of r) else None)"

fun tail_lines :: "nat list \<Rightarrow> u8 list \<Rightarrow> sh_out list option" where
  "tail_lines [] ring = Some []"
| "tail_lines (i # is) ring =
     (case ring_get i ring of None \<Rightarrow> None
      | Some l \<Rightarrow> map_option (\<lambda>out. say_line l VGA_COLOR_WHITE @ out) (tail_lines is ring))"

definition cmd_tail :: "u8 list \<Rightarrow> cstr \<Rightarrow> cstr \<Rightarrow> nat \<Rightarrow> mem fs \<Rightarrow> sh_out list option" where
  "cmd_tail junk cwd path k s =
     on_file ''usage: tail <file>'' ''tail: not found'' cwd path s
       (\<lambda>node. case scan_loop s node 128 0 (\<lambda>_. True) (line_step (\<lambda>_. True) ring_put) ([], 0, junk) of
          None \<Rightarrow> None
        | Some (line, n, ring) \<Rightarrow> tail_lines [(if k < n then n - k else 0)..<n] ring)"


text \<open>
  \<^verbatim>\<open>sort\<close>: up to 64 lines in rows of 128 bytes that start zeroed, so each row is the C string
  stored in it; the swap through \<^verbatim>\<open>tmp2\<close> exchanges the strings.
\<close>

definition sort_line :: "u8 list \<Rightarrow> cstr list \<Rightarrow> cstr list" where
  "sort_line line ls = ls @ [cstr_of line]"

definition swap_step :: "cstr list \<Rightarrow> nat \<Rightarrow> cstr list" where
  "swap_step xs j =
     (if strcmp_bytes (xs ! j) (xs ! (j + 1)) > 0 then xs[j := xs ! (j + 1), j + 1 := xs ! j] else xs)"

definition bubble_pass :: "cstr list \<Rightarrow> nat \<Rightarrow> cstr list" where
  "bubble_pass xs i = foldl swap_step xs [0..<length xs - i - 1]"

definition bubble_sort :: "cstr list \<Rightarrow> cstr list" where
  "bubble_sort xs = foldl bubble_pass xs [0..<length xs - 1]"

definition cmd_sort :: "cstr \<Rightarrow> cstr \<Rightarrow> mem fs \<Rightarrow> sh_out list option" where
  "cmd_sort cwd path s =
     on_file ''usage: sort <file>'' ''sort: not found'' cwd path s
       (\<lambda>node. case scan_loop s node 128 0 (\<lambda>_. True) (line_step (\<lambda>ls. length ls < 64) sort_line) ([], []) of
          None \<Rightarrow> None
        | Some (line, ls) \<Rightarrow>
            (let ls = (if line \<noteq> [] \<and> length ls < 64 then sort_line line ls else ls)
             in Some (concat (map (\<lambda>l. say_line l VGA_COLOR_WHITE) (bubble_sort ls)))))"

text \<open>\<^verbatim>\<open>uniq\<close>: \<open>prev\<close> is an array of 128 bytes, on the stack.\<close>

record uniq_state =
  u_prev :: "u8 list"
  u_first :: bool
  u_out :: "sh_out list"

definition uniq_line :: "u8 list \<Rightarrow> uniq_state \<Rightarrow> uniq_state" where
  "uniq_line line u =
     (if u_first u \<or> strcmp_bytes (cstr_of line) (cstr_of (u_prev u)) \<noteq> 0
      then u\<lparr>u_out := u_out u @ say_line (cstr_of line) VGA_COLOR_WHITE,
             u_prev := overlay (u_prev u) 0 (strncpy_bytes (cstr_of line) 127), u_first := False\<rparr>
      else u)"

definition cmd_uniq :: "u8 list \<Rightarrow> cstr \<Rightarrow> cstr \<Rightarrow> mem fs \<Rightarrow> sh_out list option" where
  "cmd_uniq junk cwd path s =
     on_file ''usage: uniq <file>'' ''uniq: not found'' cwd path s
       (\<lambda>node. case scan_loop s node 128 0 (\<lambda>_. True) (line_step (\<lambda>_. True) uniq_line)
            ([], \<lparr>u_prev = junk[0 := 0], u_first = True, u_out = []\<rparr>) of
          None \<Rightarrow> None
        | Some (line, u) \<Rightarrow>
            if line \<noteq> [] \<and> (u_first u \<or> strcmp_bytes (cstr_of line) (cstr_of (u_prev u)) \<noteq> 0)
            then Some (u_out u @ say_line (cstr_of line) VGA_COLOR_WHITE) else Some (u_out u))"

text \<open>\<^verbatim>\<open>grep\<close>: the byte that finds the line buffer full is dropped.\<close>

definition line_matches :: "cstr \<Rightarrow> cstr \<Rightarrow> bool" where
  "line_matches pat line \<longleftrightarrow>
     find (\<lambda>j. strncmp_bytes (drop j line) pat (length pat) = 0)
       [0..<Suc (length line) - length pat] \<noteq> None"

record grep_state =
  g_line :: "u8 list"
  g_found :: nat
  g_out :: "sh_out list"

definition grep_step :: "cstr \<Rightarrow> u8 \<Rightarrow> grep_state \<Rightarrow> grep_state" where
  "grep_step pat c g =
     (if c = 10 \<or> 126 \<le> length (g_line g) then
        (let line = cstr_of (g_line g);
             g = (if line_matches pat line
                  then g\<lparr>g_found := g_found g + 1, g_out := g_out g @ say_line line VGA_COLOR_LIGHT_GREEN\<rparr> else g)
         in g\<lparr>g_line := []\<rparr>)
      else g\<lparr>g_line := g_line g @ [c]\<rparr>)"

definition cmd_grep :: "cstr \<Rightarrow> cstr \<Rightarrow> cstr \<Rightarrow> mem fs \<Rightarrow> sh_out list option" where
  "cmd_grep cwd pat path s =
     (if pat = [] then Some (say ''usage: grep <p> <path>'' VGA_COLOR_LIGHT_RED)
      else on_file ''usage: grep <p> <path>'' ''grep: not found'' cwd path s
        (\<lambda>node. case scan_loop s node 127 0 (\<lambda>_. True) (grep_step pat) \<lparr>g_line = [], g_found = 0, g_out = []\<rparr> of
           None \<Rightarrow> None
         | Some g \<Rightarrow> Some (if g_found g = 0 then g_out g @ say ''no matches.'' VGA_COLOR_LIGHT_GREY else g_out g)))"

subsection \<open>The lines of a file\<close>

definition text_step :: "u8 \<Rightarrow> u8 list list \<times> u8 list \<Rightarrow> u8 list list \<times> u8 list" where
  "text_step c st = (if c = 10 then (fst st @ [snd st], []) else (fst st, snd st @ [c]))"

definition lines_of :: "u8 list \<Rightarrow> u8 list list" where
  "lines_of bs = fst (fold text_step bs ([], []))"

definition rest_of :: "u8 list \<Rightarrow> u8 list" where
  "rest_of bs = snd (fold text_step bs ([], []))"

lemma lines_of_snoc [simp]:
  "lines_of [] = []" "rest_of [] = []"
  "lines_of (bs @ [c]) = (if c = 10 then lines_of bs @ [rest_of bs] else lines_of bs)"
  "rest_of (bs @ [c]) = (if c = 10 then [] else rest_of bs @ [c])"
  by (simp_all add: lines_of_def rest_of_def text_step_def)

text \<open>They are the lines: joined with line breaks they give the file, and hold none themselves.\<close>

lemma lines_of_join: "concat (map (\<lambda>l. l @ [10]) (lines_of bs)) @ rest_of bs = bs"
  by (induction bs rule: rev_induct) auto

lemma lines_of_no_break: "10 \<notin> set (rest_of bs) \<and> (\<forall>l \<in> set (lines_of bs). 10 \<notin> set l)"
  by (induction bs rule: rev_induct) auto

lemma lines_of_cons_break:
  "10 \<notin> set l \<Longrightarrow> lines_of (l @ [10] @ bs) = l # lines_of bs \<and> rest_of (l @ [10] @ bs) = rest_of bs"
proof (induction bs rule: rev_induct)
  case Nil
  then have "lines_of l = [] \<and> rest_of l = l"
    by (induction l rule: rev_induct) auto
  then show ?case by simp
next
  case (snoc c bs)
  then have "lines_of ((l @ [10] @ bs) @ [c]) = l # lines_of (bs @ [c]) \<and>
      rest_of ((l @ [10] @ bs) @ [c]) = rest_of (bs @ [c])"
    by (simp only: lines_of_snoc) simp
  then show ?case by simp
qed

text \<open>What the byte-wise loop does, in terms of the lines cut to 127 bytes.\<close>

lemma fold_line_step:
  assumes "fold (line_step go h) bs ([], a) = (line, b)"
  shows "b = fold (\<lambda>l a. if go a then h (take 127 l) a else a) (lines_of bs) a"
    "go b \<Longrightarrow> line = take 127 (rest_of bs)"
proof -
  have "b = fold (\<lambda>l a. if go a then h (take 127 l) a else a) (lines_of bs) a \<and>
      (go b \<longrightarrow> line = take 127 (rest_of bs))"
    using assms
  proof (induction bs arbitrary: line b rule: rev_induct)
    case (snoc c bs)
    obtain l0 b0 where s0: "fold (line_step go h) bs ([], a) = (l0, b0)" by fastforce
    note ih = snoc.IH [OF s0]
    have st: "(line, b) = line_step go h c (l0, b0)" using snoc.prems s0 by simp
    show ?case
    proof (cases "go b0")
      case False
      then have "line = l0" "b = b0" using st by (simp_all add: line_step_def)
      then show ?thesis using ih False by simp
    next
      case True
      then show ?thesis using st ih
        by (auto simp: line_step_def split: if_splits)
    qed
  qed simp
  then show "b = fold (\<lambda>l a. if go a then h (take 127 l) a else a) (lines_of bs) a"
    "go b \<Longrightarrow> line = take 127 (rest_of bs)" by blast+
qed


subsection \<open>Bubble sort\<close>

abbreviation str_le :: "cstr \<Rightarrow> cstr \<Rightarrow> bool" where
  "str_le a b \<equiv> strcmp_bytes a b \<le> 0"

lemma str_le_linear: "str_le a b \<or> str_le b a"
  using strcmp_bytes_antisym [of a b] by linarith

lemma length_swap_step [simp]: "length (swap_step xs j) = length xs"
  by (simp add: swap_step_def)

lemma mset_swap_step: "j + 1 < length xs \<Longrightarrow> mset (swap_step xs j) = mset xs"
  by (simp add: swap_step_def mset_swap)

text \<open>A pass over the first \<open>n + 1\<close> strings moves their greatest to position \<open>n\<close>.\<close>

lemma pass_result:
  assumes "n < length xs" "\<forall>x \<in> set xs. is_cstr x"
  defines "ys \<equiv> foldl swap_step xs [0..<n]"
  shows "length ys = length xs" "mset ys = mset xs" "mset (take (n + 1) ys) = mset (take (n + 1) xs)"
    "\<forall>k > n. k < length xs \<longrightarrow> ys ! k = xs ! k" "\<forall>k \<le> n. str_le (ys ! k) (ys ! n)"
proof -
  have "length ys = length xs \<and> mset ys = mset xs \<and> mset (take (n + 1) ys) = mset (take (n + 1) xs) \<and>
      (\<forall>k > n. k < length xs \<longrightarrow> ys ! k = xs ! k) \<and> (\<forall>k \<le> n. str_le (ys ! k) (ys ! n))"
    unfolding ys_def using assms(1)
  proof (induction n)
    case (Suc n)
    define zs where "zs = foldl swap_step xs [0..<n]"
    have ih: "length zs = length xs" "mset zs = mset xs" "mset (take (n + 1) zs) = mset (take (n + 1) xs)"
      "\<forall>k > n. k < length xs \<longrightarrow> zs ! k = xs ! k" "\<forall>k \<le> n. str_le (zs ! k) (zs ! n)"
      using Suc by (simp_all add: zs_def)
    have in_set: "is_cstr (zs ! k)" if "k < length xs" for k
      using that ih(1) mset_eq_setD [OF ih(2)] assms(2) nth_mem [of k zs] by simp
    have res: "foldl swap_step xs [0..<Suc n] = swap_step zs n" by (simp add: zs_def)
    have m: "mset (swap_step zs n) = mset zs" using Suc.prems ih(1) by (intro mset_swap_step) simp
    have above: "swap_step zs n ! k = xs ! k" if "Suc n < k" "k < length xs" for k
      using that ih(1,4) Suc.prems by (simp add: swap_step_def)
    have drop_eq: "drop (n + 2) (swap_step zs n) = drop (n + 2) xs"
      by (rule nth_equalityI) (use ih(1) above in simp_all)
    have take_eq: "mset (take (n + 2) (swap_step zs n)) = mset (take (n + 2) xs)"
    proof -
      have "mset (take (n + 2) (swap_step zs n)) + mset (drop (n + 2) (swap_step zs n)) = mset (swap_step zs n)"
        by (metis append_take_drop_id mset_append)
      also have "\<dots> = mset (take (n + 2) xs) + mset (drop (n + 2) xs)"
        using m ih(2) by (metis append_take_drop_id mset_append)
      finally show ?thesis unfolding drop_eq by (rule add_right_imp_eq)
    qed
    have le: "str_le (swap_step zs n ! k) (swap_step zs n ! Suc n)" if "k \<le> Suc n" for k
    proof -
      have c: "is_cstr (zs ! k)" "is_cstr (zs ! n)" "is_cstr (zs ! Suc n)"
        using in_set that Suc.prems by simp_all
      have kn: "str_le (zs ! k) (zs ! n)" if "k \<le> n" using ih(5) that by simp
      have "str_le (zs ! k) (zs ! Suc n)" if "k \<le> n" "str_le (zs ! n) (zs ! Suc n)"
        using strcmp_bytes_trans [OF kn [OF that(1)] that(2) c] .
      then show ?thesis
        using that kn Suc.prems ih(1) str_le_linear [of "zs ! n" "zs ! Suc n"]
        by (auto simp: swap_step_def nth_list_update le_Suc_eq)
    qed
    show ?case
      unfolding res using ih(1,2) m take_eq le above by simp
  qed simp
  then show "length ys = length xs" "mset ys = mset xs" "mset (take (n + 1) ys) = mset (take (n + 1) xs)"
    "\<forall>k > n. k < length xs \<longrightarrow> ys ! k = xs ! k" "\<forall>k \<le> n. str_le (ys ! k) (ys ! n)" by blast+
qed

text \<open>After \<open>m\<close> passes the last \<open>m\<close> positions are final.\<close>

lemma bubble_passes:
  assumes "\<forall>x \<in> set xs. is_cstr x" "m < length xs"
  defines "ys \<equiv> foldl bubble_pass xs [0..<m]"
  shows "mset ys = mset xs" "\<forall>a b. a < b \<and> b < length xs \<and> length xs - m \<le> b \<longrightarrow> str_le (ys ! a) (ys ! b)"
proof -
  have "mset ys = mset xs \<and>
      (\<forall>a b. a < b \<and> b < length xs \<and> length xs - m \<le> b \<longrightarrow> str_le (ys ! a) (ys ! b))"
    unfolding ys_def using assms(2)
  proof (induction m)
    case (Suc m)
    define zs where "zs = foldl bubble_pass xs [0..<m]"
    define n where "n = length xs - m - 1"
    have ih: "mset zs = mset xs"
      "\<forall>a b. a < b \<and> b < length xs \<and> length xs - m \<le> b \<longrightarrow> str_le (zs ! a) (zs ! b)"
      using Suc by (simp_all add: zs_def)
    have len: "length zs = length xs" by (rule mset_eq_length [OF ih(1)])
    have cs: "\<forall>x \<in> set zs. is_cstr x" using assms(1) mset_eq_setD [OF ih(1)] by simp
    have n: "n < length zs" using Suc.prems len by (simp add: n_def)
    define us where "us = foldl swap_step zs [0..<n]"
    have res: "foldl bubble_pass xs [0..<Suc m] = us"
      by (simp add: zs_def [symmetric] bubble_pass_def us_def n_def len)
    note p = pass_result [OF n cs, folded us_def]
    have low: "\<exists>a' \<le> n. us ! a = zs ! a'" if "a \<le> n" for a
    proof -
      have "us ! a \<in> set (take (n + 1) us)" using that n p(1) nth_mem [of a "take (n + 1) us"] by simp
      then have "us ! a \<in> set (take (n + 1) zs)" using mset_eq_setD [OF p(3)] by simp
      then show ?thesis by (auto simp: in_set_conv_nth less_Suc_eq_le)
    qed
    have "str_le (us ! a) (us ! b)" if ab: "a < b" "b < length xs" "length xs - Suc m \<le> b" for a b
    proof -
      have "n \<le> b" using ab(3) by (simp add: n_def)
      then consider "b = n" | "n < b" by linarith
      then show ?thesis
      proof cases
        case 2
        then have fb: "length xs - m \<le> b" "us ! b = zs ! b" using p(4) ab len by (simp_all add: n_def)
        obtain a' where "a' < b" "us ! a = zs ! a'"
        proof (cases "a \<le> n")
          case True
          from low [OF this] obtain a' where "a' \<le> n" "us ! a = zs ! a'" by blast
          then show ?thesis using 2 that [of a'] by simp
        next
          case False
          then show ?thesis using that [of a] p(4) ab len by simp
        qed
        then show ?thesis using ih(2) fb ab by simp
      qed (use p(5) ab in simp)
    qed
    then show ?case unfolding res using p(2) ih(1) by simp
  qed simp
  then show "mset ys = mset xs"
    "\<forall>a b. a < b \<and> b < length xs \<and> length xs - m \<le> b \<longrightarrow> str_le (ys ! a) (ys ! b)" by blast+
qed

lemma bubble_sort_sorts:
  assumes "\<forall>x \<in> set xs. is_cstr x"
  shows "mset (bubble_sort xs) = mset xs" "sorted_wrt str_le (bubble_sort xs)"
proof -
  have "mset (bubble_sort xs) = mset xs \<and> sorted_wrt str_le (bubble_sort xs)"
  proof (cases "xs = []")
    case False
    then have "length xs - 1 < length xs" by simp
    note b = bubble_passes [OF assms this, folded bubble_sort_def]
    then have "length (bubble_sort xs) = length xs" by (intro mset_eq_length) simp
    with b show ?thesis by (auto simp: sorted_wrt_iff_nth_less)
  qed (simp add: bubble_sort_def)
  then show "mset (bubble_sort xs) = mset xs" "sorted_wrt str_le (bubble_sort xs)" by blast+
qed


subsection \<open>What the commands print\<close>

definition all_lines :: "u8 list \<Rightarrow> u8 list list" where
  "all_lines bs = lines_of bs @ (if rest_of bs = [] then [] else [rest_of bs])"

text \<open>How a line appears: cut to 127 bytes, up to a NUL byte.\<close>

definition shown :: "u8 list \<Rightarrow> cstr" where
  "shown l = cstr_of (take 127 l)"

definition print_lines :: "cstr list \<Rightarrow> sh_out list" where
  "print_lines ls = concat (map (\<lambda>l. say_line l VGA_COLOR_WHITE) ls)"

definition opens :: "cstr \<Rightarrow> cstr \<Rightarrow> mem fs \<Rightarrow> u32 \<Rightarrow> bool" where
  "opens cwd path s node \<longleftrightarrow> path \<noteq> [] \<and> vfs_resolve s (make_full cwd path) = node \<and>
     n_flags (the (fs_nodes s node)) AND VFS_FILE \<noteq> 0 \<and> small_file s node"

lemma small_file_nonzero: "small_file s node \<Longrightarrow> node \<noteq> 0"
  using fs_okD(1) by (auto simp: small_file_def is_file_def)

lemma on_file_opens: "opens cwd path s node \<Longrightarrow> on_file u m cwd path s body = body node"
  using small_file_nonzero [of s node] by (auto simp: on_file_def opens_def Let_def)

lemma is_cstr_shown [simp]: "is_cstr (shown l)"
  by (simp add: shown_def)

lemma shown_take [simp]: "cstr_of (take 127 l) = shown l"
  by (simp add: shown_def)

text \<open>The outcome of a line loop over a file.\<close>

lemma scan_lines:
  assumes "opens cwd path s node" "\<And>st. go (snd st) \<Longrightarrow> cont st"
  shows "\<exists>line b. scan_loop s node 128 0 cont (line_step go h) ([], a) = Some (line, b) \<and>
      b = fold (\<lambda>l a. if go a then h (take 127 l) a else a) (lines_of (file_bytes s node)) a \<and>
      (go b \<longrightarrow> line = take 127 (rest_of (file_bytes s node)))"
proof -
  have sm: "small_file s node" using assms(1) by (simp add: opens_def)
  have st: "line_step go h c st = st" if "\<not> cont st" for c st
    using assms(2) [of st] that by (auto simp: line_step_def split: prod.splits)
  have "scan_loop s node 128 0 cont (line_step go h) ([], a) = Some (fold (line_step go h) (file_bytes s node) ([], a))"
    by (rule scan_loop_file [OF sm]) (simp_all add: st)
  moreover obtain line b where "fold (line_step go h) (file_bytes s node) ([], a) = (line, b)" by fastforce
  ultimately show ?thesis using fold_line_step by fastforce
qed

lemma fold_take: "length acc \<le> k \<Longrightarrow>
  fold (\<lambda>l a. if length a < k then a @ [f l] else a) ls acc = take k (acc @ map f ls)"
proof (induction ls arbitrary: acc)
  case (Cons l ls)
  then show ?case by (cases "length acc < k") (simp_all add: Cons.IH)
qed simp

lemma sort_input:
  assumes "opens cwd path s node"
  shows "cmd_sort cwd path s =
    Some (print_lines (bubble_sort (take 64 (map shown (all_lines (file_bytes s node))))))"
proof -
  let ?F = "file_bytes s node"
  obtain line ls where r: "scan_loop s node 128 0 (\<lambda>_. True) (line_step (\<lambda>ls. length ls < 64) sort_line) ([], []) = Some (line, ls)"
    "ls = fold (\<lambda>l a. if length a < 64 then sort_line (take 127 l) a else a) (lines_of ?F) []"
    "length ls < 64 \<longrightarrow> line = take 127 (rest_of ?F)"
    using scan_lines [OF assms, of "\<lambda>ls. length ls < 64" "\<lambda>_. True" sort_line "[]"] by auto
  have ls: "ls = take 64 (map shown (lines_of ?F))"
    unfolding r(2) sort_line_def shown_take using fold_take [of "[]" 64 shown] by simp
  have "(if line \<noteq> [] \<and> length ls < 64 then sort_line line ls else ls) = take 64 (map shown (all_lines ?F))"
  proof (cases "length ls < 64")
    case True
    then have "ls = map shown (lines_of ?F)" "line = take 127 (rest_of ?F)"
      "length (lines_of ?F) < 64" using ls r(3) by simp_all
    then show ?thesis by (auto simp: all_lines_def sort_line_def)
  next
    case False
    then have "64 \<le> length (lines_of ?F)" using ls by simp
    then show ?thesis using False ls by (simp add: all_lines_def)
  qed
  then show ?thesis
    using on_file_opens [OF assms] r(1) by (simp add: cmd_sort_def print_lines_def Let_def)
qed

lemma head_lines:
  assumes "opens cwd path s node"
  shows "cmd_head cwd path k s = Some (print_lines (map shown (take k (lines_of (file_bytes s node)))))"
proof -
  let ?F = "file_bytes s node"
  let ?go = "\<lambda>(n, out). n < k"
  have f: "fold (\<lambda>l a. if ?go a then head_line (take 127 l) a else a) ls (n, out) =
      (min k (n + length ls), out @ print_lines (map shown (take (k - n) ls)))" if "n \<le> k" for ls n out
    using that
  proof (induction ls arbitrary: n out)
    case (Cons l ls)
    then show ?case by (cases "n < k") (simp_all add: head_line_def print_lines_def take_Cons' Suc_diff_Suc)
  qed (simp add: print_lines_def)
  obtain line b where r: "scan_loop s node 128 0 (\<lambda>(line, n, out). n < k) (line_step ?go head_line) ([], 0, []) = Some (line, b)"
    "b = fold (\<lambda>l a. if ?go a then head_line (take 127 l) a else a) (lines_of ?F) (0, [])"
    using scan_lines [OF assms, of ?go "\<lambda>(line, n, out). n < k" head_line "(0, [])"]
    by (force simp: case_prod_beta)
  show ?thesis
    using on_file_opens [OF assms] r f [of 0 "lines_of ?F" "[]"] by (simp add: cmd_head_def)
qed


text \<open>A row of 128 bytes that holds a line of less than 127.\<close>

lemma strncpy_row:
  assumes "length s < 127"
  shows "strncpy_bytes s 127 = s @ 0 # replicate (127 - length s) 0" "length (strncpy_bytes s 127) = 128"
  using assms by (simp_all add: strncpy_bytes_def)

lemma length_shown: "length (shown l) \<le> length l" "length (shown l) \<le> 127"
  using length_cstr_of [of "take 127 l"] by simp_all

lemma uniq_step:
  assumes "length (u_prev u) = 128" "length l < 127"
  shows "uniq_line (take 127 l) u =
    (if u_first u \<or> shown l \<noteq> cstr_of (u_prev u)
     then u\<lparr>u_out := u_out u @ say_line (shown l) VGA_COLOR_WHITE, u_prev := strncpy_bytes (shown l) 127, u_first := False\<rparr>
     else u)"
proof -
  have "length (shown l) < 127" using length_shown(1) [of l] assms(2) by linarith
  then have "length (strncpy_bytes (shown l) 127) = 128" by (rule strncpy_row(2))
  then have "overlay (u_prev u) 0 (strncpy_bytes (shown l) 127) = strncpy_bytes (shown l) 127"
    using assms(1) by (simp add: overlay_def)
  moreover have "strcmp_bytes (shown l) (cstr_of (u_prev u)) \<noteq> 0 \<longleftrightarrow> shown l \<noteq> cstr_of (u_prev u)"
    using strcmp_bytes_eq_0 by simp
  ultimately show ?thesis unfolding uniq_line_def shown_take by (simp only:)
qed

lemma cstr_of_row: "is_cstr s \<Longrightarrow> length s < 127 \<Longrightarrow> cstr_of (strncpy_bytes s 127) = s"
  by (simp add: strncpy_row)

lemma uniq_fold:
  assumes "length prev = 128" "\<forall>l \<in> set ls. length l < 127"
  defines "u \<equiv> fold (\<lambda>l. uniq_line (take 127 l)) ls \<lparr>u_prev = prev, u_first = True, u_out = []\<rparr>"
  shows "length (u_prev u) = 128" "u_first u \<longleftrightarrow> ls = []"
    "u_out u = print_lines (remdups_adj (map shown ls))"
    "ls \<noteq> [] \<longrightarrow> cstr_of (u_prev u) = shown (last ls)"
proof -
  have "length (u_prev u) = 128 \<and> (u_first u \<longleftrightarrow> ls = []) \<and>
      u_out u = print_lines (remdups_adj (map shown ls)) \<and>
      (ls \<noteq> [] \<longrightarrow> cstr_of (u_prev u) = shown (last ls))"
    unfolding u_def using assms(2)
  proof (induction ls rule: rev_induct)
    case Nil
    then show ?case using assms(1) by (simp add: print_lines_def)
  next
    case (snoc l ls)
    define v where "v = fold (\<lambda>l. uniq_line (take 127 l)) ls \<lparr>u_prev = prev, u_first = True, u_out = []\<rparr>"
    have v: "length (u_prev v) = 128" "u_first v \<longleftrightarrow> ls = []"
      "u_out v = print_lines (remdups_adj (map shown ls))"
      "ls \<noteq> [] \<longrightarrow> cstr_of (u_prev v) = shown (last ls)"
      using snoc by (simp_all add: v_def)
    have l: "length l < 127" "length (shown l) < 127"
      using snoc.prems length_shown(1) [of l] by simp_all
    note st = uniq_step [OF v(1) l(1)]
    have res: "fold (\<lambda>l. uniq_line (take 127 l)) (ls @ [l]) \<lparr>u_prev = prev, u_first = True, u_out = []\<rparr> =
        uniq_line (take 127 l) v" by (simp only: fold_append fold.simps comp_apply id_apply v_def)
    show ?case
    proof (cases "ls = []")
      case True
      then show ?thesis
        unfolding res st using v l by (simp add: print_lines_def cstr_of_row strncpy_row(2))
    next
      case False
      then obtain ls' x where ls: "ls = ls' @ [x]" by (metis rev_exhaust)
      show ?thesis
        unfolding res st using v l False
        by (simp add: cstr_of_row strncpy_row(2) remdups_adj_append_two ls print_lines_def)
    qed
  qed
  then show "length (u_prev u) = 128" "u_first u \<longleftrightarrow> ls = []"
    "u_out u = print_lines (remdups_adj (map shown ls))"
    "ls \<noteq> [] \<longrightarrow> cstr_of (u_prev u) = shown (last ls)" by blast+
qed

lemma uniq_lines:
  assumes "opens cwd path s node" "length junk = 128"
    "\<forall>l \<in> set (all_lines (file_bytes s node)). length l < 127"
  shows "cmd_uniq junk cwd path s =
    Some (print_lines (remdups_adj (map shown (all_lines (file_bytes s node)))))"
proof -
  let ?F = "file_bytes s node"
  let ?u = "\<lparr>u_prev = junk[0 := 0], u_first = True, u_out = []\<rparr>"
  obtain line u where r: "scan_loop s node 128 0 (\<lambda>_. True) (line_step (\<lambda>_. True) uniq_line) ([], ?u) = Some (line, u)"
    "u = fold (\<lambda>l. uniq_line (take 127 l)) (lines_of ?F) ?u" "line = take 127 (rest_of ?F)"
    using scan_lines [OF assms(1), of "\<lambda>_. True" "\<lambda>_. True" uniq_line ?u] by auto
  have "length (junk[0 := 0]) = 128" "\<forall>l \<in> set (lines_of ?F). length l < 127"
    using assms(2,3) by (simp_all add: all_lines_def)
  note u = uniq_fold [OF this, folded r(2)]
  have run: "cmd_uniq junk cwd path s =
      (if line \<noteq> [] \<and> (u_first u \<or> strcmp_bytes (cstr_of line) (cstr_of (u_prev u)) \<noteq> 0)
       then Some (u_out u @ say_line (cstr_of line) VGA_COLOR_WHITE) else Some (u_out u))"
    using on_file_opens [OF assms(1)] r(1) by (simp add: cmd_uniq_def)
  show ?thesis
  proof (cases "rest_of ?F = []")
    case True
    then show ?thesis using run r(3) u(3) by (simp add: all_lines_def)
  next
    case False
    then have ne: "line \<noteq> []" "cstr_of line = shown (rest_of ?F)" using r(3) by simp_all
    show ?thesis
    proof (cases "lines_of ?F = []")
      case True
      then show ?thesis using run u ne False by (simp add: all_lines_def print_lines_def)
    next
      case nl: False
      then obtain ls' x where ls: "lines_of ?F = ls' @ [x]" by (metis rev_exhaust)
      then show ?thesis
        using run u ne False by (simp add: all_lines_def remdups_adj_append_two print_lines_def)
    qed
  qed
qed


text \<open>The ring of \<open>tail\<close> holds the last 32 lines.\<close>

definition ring_row :: "nat \<Rightarrow> u8 list \<Rightarrow> u8 list" where
  "ring_row m ring = take 128 (drop (128 * m) ring)"

lemma ring_row_put:
  assumes "length ring = 4096" "length row = 128" "a < 32" "b < 32"
  shows "ring_row a (overlay ring (128 * b) row) = (if a = b then row else ring_row a ring)"
proof (cases "a = b")
  case True
  then show ?thesis using overlay_slice [of "128 * b" ring row] assms by (simp add: ring_row_def)
next
  case False
  have fit: "128 * b + length row \<le> length ring" using assms by simp
  have "overlay ring (128 * b) row ! (128 * a + j) = ring ! (128 * a + j)" if "j < 128" for j
  proof -
    have "128 * a + j < 128 * b \<or> 128 * b + length row \<le> 128 * a + j" using False that assms(2) by linarith
    then show ?thesis using nth_overlay [OF fit, of "128 * a + j"] assms that by auto
  qed
  then have "ring_row a (overlay ring (128 * b) row) = ring_row a ring"
    unfolding ring_row_def by (intro nth_equalityI) (use assms length_overlay [OF fit] in simp_all)
  with False show ?thesis by simp
qed

lemma ring_get_row:
  assumes "ring_row (i mod 32) ring = strncpy_bytes s 127" "is_cstr s" "length s < 127"
  shows "ring_get i ring = Some s"
proof -
  define r where "r = drop (128 * (i mod 32)) ring"
  have "take 128 r @ drop 128 r = r" by (rule append_take_drop_id)
  then have "r = s @ 0 # (replicate (127 - length s) 0 @ drop 128 r)"
    using assms(1) by (simp add: ring_row_def r_def strncpy_row [OF assms(3)])
  then have "0 \<in> set r" "cstr_of r = s"
    using cstr_of_append_nul [OF assms(2)] by (metis in_set_conv_decomp, metis)
  then show ?thesis by (simp add: ring_get_def r_def [symmetric])
qed

lemma ring_fold:
  assumes "length junk = 4096" "\<forall>l \<in> set ls. length l < 127"
  defines "st \<equiv> fold (\<lambda>l. ring_put (take 127 l)) ls (0, junk)"
  shows "fst st = length ls" "length (snd st) = 4096"
    "\<forall>i < length ls. length ls \<le> i + 32 \<longrightarrow> ring_row (i mod 32) (snd st) = strncpy_bytes (shown (ls ! i)) 127"
proof -
  have "fst st = length ls \<and> length (snd st) = 4096 \<and>
    (\<forall>i < length ls. length ls \<le> i + 32 \<longrightarrow> ring_row (i mod 32) (snd st) = strncpy_bytes (shown (ls ! i)) 127)"
    unfolding st_def using assms(2)
  proof (induction ls rule: rev_induct)
    case (snoc l ls)
    define v where "v = fold (\<lambda>l. ring_put (take 127 l)) ls (0, junk)"
    have v: "fst v = length ls" "length (snd v) = 4096"
      "\<forall>i < length ls. length ls \<le> i + 32 \<longrightarrow> ring_row (i mod 32) (snd v) = strncpy_bytes (shown (ls ! i)) 127"
      using snoc by (simp_all add: v_def)
    define m where "m = length ls mod 32"
    have m: "m < 32" by (simp add: m_def)
    have row: "length (strncpy_bytes (shown l) 127) = 128"
      using snoc.prems length_shown(1) [of l] by (intro strncpy_row(2)) simp
    have fit: "128 * m + length (strncpy_bytes (shown l) 127) \<le> length (snd v)" using row v(2) m by simp
    have res: "fold (\<lambda>l. ring_put (take 127 l)) (ls @ [l]) (0, junk) =
        (length ls + 1, overlay (snd v) (128 * m) (strncpy_bytes (shown l) 127))"
      by (simp add: ring_put_def v_def [symmetric] v(1) m_def del: take_all_iff)
    have "ring_row (i mod 32) (overlay (snd v) (128 * m) (strncpy_bytes (shown l) 127)) =
        strncpy_bytes (shown ((ls @ [l]) ! i)) 127" if i: "i < length ls + 1" "length ls + 1 \<le> i + 32" for i
    proof (cases "i = length ls")
      case True
      then show ?thesis using ring_row_put [OF v(2) row, of "i mod 32" m] m by (simp add: m_def)
    next
      case False
      then have "i < length ls" using i(1) by simp
      moreover have "i mod 32 \<noteq> m"
      proof
        assume "i mod 32 = m"
        then have "32 dvd length ls - i"
          using \<open>i < length ls\<close> mod_eq_dvd_iff_nat [of i "length ls" 32] by (simp add: m_def)
        then have "32 \<le> length ls - i" using \<open>i < length ls\<close> by (intro dvd_imp_le) simp_all
        then show False using i(2) by linarith
      qed
      ultimately show ?thesis
        using ring_row_put [OF v(2) row, of "i mod 32" m] m v(3) i by (simp add: nth_append)
    qed
    then show ?case unfolding res using length_overlay [OF fit] v(2) by simp
  qed (use assms(1) in simp)
  then show "fst st = length ls" "length (snd st) = 4096"
    "\<forall>i < length ls. length ls \<le> i + 32 \<longrightarrow> ring_row (i mod 32) (snd st) = strncpy_bytes (shown (ls ! i)) 127"
    by blast+
qed

lemma tail_lines_get:
  "\<forall>i \<in> set is. ring_get i ring = Some (f i) \<Longrightarrow> tail_lines is ring = Some (print_lines (map f is))"
  by (induction "is") (simp_all add: print_lines_def)

lemma tail_result:
  assumes "opens cwd path s node" "length junk = 4096" "k \<le> 32"
    "\<forall>l \<in> set (lines_of (file_bytes s node)). length l < 127"
  shows "cmd_tail junk cwd path k s =
    (let ls = map shown (lines_of (file_bytes s node)) in Some (print_lines (drop (length ls - k) ls)))"
proof -
  let ?L = "lines_of (file_bytes s node)"
  obtain line n ring where r: "scan_loop s node 128 0 (\<lambda>_. True) (line_step (\<lambda>_. True) ring_put) ([], 0, junk) = Some (line, n, ring)"
    "(n, ring) = fold (\<lambda>l. ring_put (take 127 l)) ?L (0, junk)"
    using scan_lines [OF assms(1), of "\<lambda>_. True" "\<lambda>_. True" ring_put "(0, junk)"] by fastforce
  note f = ring_fold [OF assms(2,4), folded r(2), simplified]
  have "ring_get i ring = Some (shown (?L ! i))" if "i \<in> set [n - k..<n]" for i
    using ring_get_row [of i ring "shown (?L ! i)"] f assms(3,4) that length_shown(1) [of "?L ! i"] nth_mem [of i ?L]
    by fastforce
  then have "tail_lines [n - k..<n] ring = Some (print_lines (map (\<lambda>i. shown (?L ! i)) [n - k..<n]))"
    by (intro tail_lines_get) blast
  moreover have "map (\<lambda>i. shown (?L ! i)) [n - k..<n] = drop (n - k) (map shown ?L)"
    by (rule nth_equalityI) (simp_all add: f)
  moreover have "(if k < n then n - k else 0) = n - k" by simp
  ultimately show ?thesis
    using f(1) by (simp only: cmd_tail_def on_file_opens [OF assms(1)] r(1) option.case prod.case Let_def
        length_map)
qed


text \<open>Words are the maximal runs of bytes that are not white space.\<close>

definition space :: "u8 \<Rightarrow> bool" where
  "space c \<longleftrightarrow> c = 32 \<or> c = 9 \<or> c = 10"

definition word_count :: "u8 list \<Rightarrow> nat" where
  "word_count bs = length (filter (\<lambda>i. \<not> space (bs ! i) \<and> (i = 0 \<or> space (bs ! (i - 1)))) [0..<length bs])"

lemma word_count_snoc:
  "word_count (bs @ [c]) = word_count bs + (if \<not> space c \<and> (bs = [] \<or> space (last bs)) then 1 else 0)"
proof -
  have "filter (\<lambda>i. \<not> space ((bs @ [c]) ! i) \<and> (i = 0 \<or> space ((bs @ [c]) ! (i - 1)))) [0..<length bs] =
      filter (\<lambda>i. \<not> space (bs ! i) \<and> (i = 0 \<or> space (bs ! (i - 1)))) [0..<length bs]"
    by (intro filter_cong) (auto simp: nth_append)
  then show ?thesis
    by (cases "bs = []") (auto simp: word_count_def nth_append last_conv_nth)
qed

lemma wc_fold:
  defines "w0 \<equiv> \<lparr>wc_lines = 0, wc_words = 0, wc_bytes = 0, in_word = False\<rparr>"
  shows "fold wc_step bs w0 = \<lparr>wc_lines = of_nat (length (lines_of bs)), wc_words = of_nat (word_count bs),
    wc_bytes = of_nat (length bs), in_word = (bs \<noteq> [] \<and> \<not> space (last bs))\<rparr>"
proof (induction bs rule: rev_induct)
  case (snoc c bs)
  then show ?case by (auto simp: wc_step_def word_count_snoc space_def Let_def)
qed (simp add: w0_def word_count_def)

lemma line_matches_iff:
  assumes "is_cstr pat" "is_cstr line"
  shows "line_matches pat line \<longleftrightarrow> (\<exists>a b. line = a @ pat @ b)"
proof -
  have m: "strncmp_bytes (drop j line) pat (length pat) = 0 \<longleftrightarrow> take (length pat) (drop j line) = pat" for j
    using assms by (intro strncmp_bytes_prefix) (auto simp: is_cstr_def dest: in_set_dropD)
  have "line_matches pat line \<longleftrightarrow> (\<exists>j < Suc (length line) - length pat. take (length pat) (drop j line) = pat)"
    by (auto simp: line_matches_def find_None_iff m simp del: upt_Suc)
  also have "\<dots> \<longleftrightarrow> (\<exists>a b. line = a @ pat @ b)"
  proof
    assume "\<exists>j < Suc (length line) - length pat. take (length pat) (drop j line) = pat"
    then obtain j where "take (length pat) (drop j line) = pat" by blast
    then have "line = take j line @ pat @ drop (length pat) (drop j line)"
      by (metis append_take_drop_id)
    then show "\<exists>a b. line = a @ pat @ b" by blast
  next
    assume "\<exists>a b. line = a @ pat @ b"
    then obtain a b where "line = a @ pat @ b" by blast
    then show "\<exists>j < Suc (length line) - length pat. take (length pat) (drop j line) = pat"
      by (intro exI [of _ "length a"]) simp
  qed
  finally show ?thesis .
qed

lemma grep_fold:
  fixes pat :: cstr
  assumes "\<forall>l \<in> set (lines_of bs). length l \<le> 126" "length (rest_of bs) \<le> 126"
  defines "hits \<equiv> filter (line_matches pat) (map cstr_of (lines_of bs))"
  shows "fold (grep_step pat) bs \<lparr>g_line = [], g_found = 0, g_out = []\<rparr> =
    \<lparr>g_line = rest_of bs, g_found = length hits,
      g_out = concat (map (\<lambda>l. say_line l VGA_COLOR_LIGHT_GREEN) hits)\<rparr>"
  unfolding hits_def using assms(1,2)
proof (induction bs rule: rev_induct)
  case (snoc c bs)
  have "\<forall>l \<in> set (lines_of bs). length l \<le> 126" using snoc.prems(1) by (auto split: if_splits)
  moreover have "length (rest_of bs) \<le> (if c = 10 then 126 else 125)"
    using snoc.prems by (auto split: if_splits)
  ultimately show ?case using snoc.IH by (auto simp: grep_step_def Let_def split: if_splits)
qed simp

subsection \<open>Properties\<close>

text \<open>
  C36: \<^verbatim>\<open>sort\<close> prints the first 64 lines of a file, each cut to 127 bytes, as a sorted
  permutation of them with respect to the order of \<^verbatim>\<open>strcmp\<close>.
\<close>

theorem shell_sort_sorts:
  assumes "opens cwd path s node"
  shows "\<exists>ls. cmd_sort cwd path s = Some (print_lines ls) \<and> sorted_wrt str_le ls \<and>
     mset ls = mset (take 64 (map shown (all_lines (file_bytes s node))))"
proof -
  have "\<forall>x \<in> set (take 64 (map shown (all_lines (file_bytes s node)))). is_cstr x"
    by (auto dest!: in_set_takeD)
  from bubble_sort_sorts [OF this] sort_input [OF assms] show ?thesis by blast
qed

text \<open>
  On a file whose lines are shorter than 127 bytes \<^verbatim>\<open>head\<close> prints the first ten lines,
  \<^verbatim>\<open>tail\<close> the last ten, \<^verbatim>\<open>uniq\<close> the lines without adjacent repetitions, whatever was on the
  stack before; \<^verbatim>\<open>head\<close> and \<^verbatim>\<open>tail\<close> leave out a last line without a line break.
\<close>

lemma shell_line_filters:
  assumes "opens cwd path s node" "length ring = 4096" "length prev = 128"
    "\<forall>l \<in> set (all_lines (file_bytes s node)). length l < 127"
  shows "cmd_head cwd path 10 s = Some (print_lines (map shown (take 10 (lines_of (file_bytes s node))))) \<and>
     cmd_tail ring cwd path 10 s = (let ls = map shown (lines_of (file_bytes s node))
       in Some (print_lines (drop (length ls - 10) ls))) \<and>
     cmd_uniq prev cwd path s = Some (print_lines (remdups_adj (map shown (all_lines (file_bytes s node)))))"
  using head_lines [OF assms(1)] tail_result [OF assms(1,2)] uniq_lines [OF assms(1,3,4)] assms(4)
  by (simp add: all_lines_def)

text \<open>
  \<^verbatim>\<open>wc\<close> counts the line breaks, the words and the bytes of a file, and \<^verbatim>\<open>grep\<close> prints, in order,
  exactly the complete lines that contain the pattern, when none is longer than 126 bytes; a text
  of \<^verbatim>\<open>wc\<close> that does not fit its buffer of 64 bytes overruns it.
\<close>

lemma shell_wc_grep:
  assumes "opens cwd path s node" "is_cstr pat" "pat \<noteq> []"
    "\<forall>l \<in> set (lines_of (file_bytes s node)). length l \<le> 126" "length (rest_of (file_bytes s node)) \<le> 126"
  shows "(let bs = file_bytes s node;
          text = dec (of_nat (length (lines_of bs))) @ [32] @ dec (of_nat (word_count bs)) @ [32] @
            dec (of_nat (length bs)) @ [32] @ path;
          hits = filter (\<lambda>l. \<exists>a b. l = a @ pat @ b) (map cstr_of (lines_of bs))
      in cmd_wc cwd path s = (if length text < 64 then Some (say_line text VGA_COLOR_WHITE) else None) \<and>
         cmd_grep cwd pat path s = Some (if hits = [] then say ''no matches.'' VGA_COLOR_LIGHT_GREY
           else concat (map (\<lambda>l. say_line l VGA_COLOR_LIGHT_GREEN) hits)))"
proof -
  let ?F = "file_bytes s node"
  have sm: "small_file s node" using assms(1) by (simp add: opens_def)
  have hits: "filter (line_matches pat) (map cstr_of (lines_of ?F)) =
      filter (\<lambda>l. \<exists>a b. l = a @ pat @ b) (map cstr_of (lines_of ?F))"
    by (rule filter_cong [OF refl], unfold set_map, elim imageE)
      (simp only: line_matches_iff [OF assms(2) is_cstr_cstr_of])
  define H where "H = filter (\<lambda>l. \<exists>a b. l = a @ pat @ b) (map cstr_of (lines_of ?F))"
  have g: "fold (grep_step pat) ?F \<lparr>g_line = [], g_found = 0, g_out = []\<rparr> =
      \<lparr>g_line = rest_of ?F, g_found = length H, g_out = concat (map (\<lambda>l. say_line l VGA_COLOR_LIGHT_GREEN) H)\<rparr>"
    using grep_fold [OF assms(4,5), of pat] unfolding hits H_def [symmetric] .
  have "cmd_grep cwd pat path s = Some (if H = [] then say ''no matches.'' VGA_COLOR_LIGHT_GREY
      else concat (map (\<lambda>l. say_line l VGA_COLOR_LIGHT_GREEN) H))"
    using scan_loop_file [OF sm, of 127 "\<lambda>_. True" "grep_step pat"] assms(3)
    by (simp add: cmd_grep_def on_file_opens [OF assms(1)] g)
  moreover have "cmd_wc cwd path s =
      (let text = dec (of_nat (length (lines_of ?F))) @ [32] @ dec (of_nat (word_count ?F)) @ [32] @
         dec (of_nat (length ?F)) @ [32] @ path
       in if length text < 64 then Some (say_line text VGA_COLOR_WHITE) else None)"
    using scan_loop_file [OF sm, of 128 "\<lambda>_. True" wc_step] wc_fold [of ?F]
    by (simp add: cmd_wc_def on_file_opens [OF assms(1)] wc_text_def Let_def)
  ultimately show ?thesis unfolding Let_def H_def [symmetric] by blast
qed

subsection \<open>Examples\<close>

text \<open>A file system whose root is a file, so that the path \<^verbatim>\<open>/\<close> names it.\<close>

definition one_file_fs :: "mem \<Rightarrow> u8 list \<Rightarrow> mem fs" where
  "one_file_fs m bs = \<lparr>fs_nodes = [0x300010 \<mapsto> \<lparr>n_name = replicate 64 0, n_flags = VFS_FILE,
       n_length = of_nat (length bs), n_inode = 0x300080, n_parent = 0\<rparr>],
     fs_datas = [0x300080 \<mapsto> \<lparr>d_buf = Some (bs @ replicate (4096 - length bs) 0), d_capacity = 4096, d_children = []\<rparr>],
     fs_heap = m, fs_root = 0x300010, next_inode = 1\<rparr>"

lemma one_file_fs_ok:
  assumes m: "heap_ok m [(96, False), (144, False), (1048288, True)]" and l: "length bs \<le> 4096"
  shows "opens cwd (lit ''/'') (one_file_fs m bs) 0x300010"
    "file_bytes (one_file_fs m bs) 0x300010 = bs" "file_cap (one_file_fs m bs) 0x300010 = 4096"
    "ram_ok (one_file_fs m bs)"
proof -
  have "heap_owned m = {0x300010, 0x300080}"
    by (auto simp: heap_owned_def heap_blocks_eq [OF m])
  then show ok: "ram_ok (one_file_fs m bs)"
    using l by (auto simp: one_file_fs_def fs_ok_def node_ok_def data_ok_def split: if_splits)
  have u: "unat (of_nat (length bs) :: u32) = length bs" using l by simp
  have nd: "node_data (one_file_fs m bs) 0x300010 =
      Some \<lparr>d_buf = Some (bs @ replicate (4096 - length bs) 0), d_capacity = 4096, d_children = []\<rparr>"
    by (simp add: node_data_def one_file_fs_def)
  show fb: "file_bytes (one_file_fs m bs) 0x300010 = bs"
    using l by (simp add: file_bytes_def nd) (simp add: one_file_fs_def)
  show "file_cap (one_file_fs m bs) 0x300010 = 4096" by (simp add: file_cap_def nd)
  have "vfs_resolve (one_file_fs m bs) (make_full cwd (lit ''/'')) = 0x300010"
    by (simp add: make_full_def vfs_resolve_def one_file_fs_def)
  moreover have "is_file (one_file_fs m bs) 0x300010"
    using l by (simp add: is_file_def one_file_fs_def)
  ultimately show "opens cwd (lit ''/'') (one_file_fs m bs) 0x300010"
    using ok fb l by (simp add: opens_def small_file_def) (simp add: one_file_fs_def VFS_FILE_def)
qed

lemma one_file: "length bs \<le> 4096 \<Longrightarrow> \<exists>s. opens cwd (lit ''/'') s 0x300010 \<and> file_bytes s 0x300010 = bs"
  using sample_heap one_file_fs_ok(1,2) by blast

theorem shell_sort_sorts_witness:
  "\<exists>s. cmd_sort (lit ''/'') (lit ''/'') s = Some (print_lines [lit ''a'', lit ''b''])"
proof -
  let ?F = "lit ''b'' @ [10] @ lit ''a''"
  obtain s where s: "opens (lit ''/'') (lit ''/'') s 0x300010" "file_bytes s 0x300010 = ?F"
    using one_file [of ?F] by auto
  have "map shown (all_lines ?F) = [lit ''b'', lit ''a'']"
    using lines_of_cons_break [of "lit ''b''" "lit ''a''"] lines_of_snoc(3,4) [of "[]" "of_char CHR ''a''"]
    by (simp add: all_lines_def shown_def cstr_of_def)
  then obtain ls where ls: "cmd_sort (lit ''/'') (lit ''/'') s = Some (print_lines ls)" "sorted_wrt str_le ls"
      "mset ls = {# lit ''b'', lit ''a'' #}"
    using shell_sort_sorts [OF s(1)] s(2) by auto
  have "length ls = 2" using mset_eq_length [of ls "[lit ''b'', lit ''a'']"] ls(3) by simp
  then obtain x y where xy: "ls = [x, y]" by (auto simp: numeral_2_eq_2 length_Suc_conv)
  then have "x = lit ''a'' \<and> y = lit ''b''"
    using ls(2,3) by (auto simp: add_eq_conv_ex)
  with ls(1) xy show ?thesis by blast
qed


lemma one_line_file: "lines_of [97, 10] = [[97]]" "rest_of [97, 10] = []" "word_count [97, 10] = 1"
  "shown [97] = [97]"
  using lines_of_snoc(3,4) [of "[97]" 10] lines_of_snoc(3,4) [of "[]" 97]
  by (simp_all add: word_count_def space_def shown_def cstr_of_def)

lemma shell_line_filters_witness:
  "\<exists>s. cmd_tail (replicate 4096 7) [47] [47] 10 s = Some (print_lines [[97]]) \<and>
     cmd_uniq (replicate 128 7) [47] [47] s = Some (print_lines [[97]])"
proof -
  obtain s where s: "opens [47] [47] s 0x300010" "file_bytes s 0x300010 = [97, 10]"
    using one_file [of "[97, 10]" "[47]"] by auto
  show ?thesis
    using shell_line_filters [OF s(1), of "replicate 4096 7" "replicate 128 7"]
    by (intro exI [of _ s]) (simp add: s(2) one_line_file all_lines_def)
qed

lemma shell_wc_grep_witness:
  "\<exists>s. cmd_wc [47] [47] s = Some (say_line (lit ''1 1 2 /'') VGA_COLOR_WHITE) \<and>
     cmd_grep [47] [97] [47] s = Some (say_line [97] VGA_COLOR_LIGHT_GREEN)"
proof -
  obtain s where s: "opens [47] [47] s 0x300010" "file_bytes s 0x300010 = [97, 10]"
    using one_file [of "[97, 10]" "[47]"] by auto
  have d: "dec 1 = [49]" "dec 2 = [50]" by (simp_all add: dec_def udigits_step)
  have "\<exists>a b. [97] = a @ [97 :: u8] @ b" by (intro exI [of _ "[]"]) simp
  then have f: "filter (\<lambda>l. \<exists>a b. l = a @ [97 :: u8] @ b) (map cstr_of [[97]]) = [[97]]"
    by (simp add: cstr_of_def)
  have "is_cstr ([97] :: u8 list)" by (simp add: is_cstr_def)
  from shell_wc_grep [OF s(1) this] show ?thesis
    unfolding s(2) one_line_file f Let_def by (intro exI [of _ s]) (simp add: d)
qed

end
