(* ===== verification/ShFiles.thy ===== *)
theory ShFiles
  imports ShText
begin

text \<open>
  The file commands of \<^verbatim>\<open>kernel/shell.c\<close>: \<^verbatim>\<open>cd\<close>, \<^verbatim>\<open>pwd\<close>, \<^verbatim>\<open>ls\<close>, \<^verbatim>\<open>write\<close>, \<^verbatim>\<open>mkdir\<close>, \<^verbatim>\<open>touch\<close>, \<^verbatim>\<open>rm\<close>,
  \<^verbatim>\<open>mv\<close>, \<^verbatim>\<open>cp\<close> and \<^verbatim>\<open>find\<close>, over the file system in the kernel heap.  They look into the data block
  of a directory as the file system does; removing or moving an entry never frees memory.
  The redrawing of the status row by \<^verbatim>\<open>cd\<close> is not part of what a command prints.
\<close>

unbundle bit_operations_syntax

subsection \<open>The working directory\<close>

definition is_dir :: "'h fs \<Rightarrow> u32 \<Rightarrow> bool" where
  "is_dir s c = (n_flags (the (fs_nodes s c)) AND VFS_DIR \<noteq> 0)"

record sh_dir =
  cwd :: cstr
  prev_cwd :: cstr

definition cmd_pwd :: "sh_dir \<Rightarrow> sh_out list" where
  "cmd_pwd w = say_line (cwd w) VGA_COLOR_WHITE"

text \<open>Without an argument \<^verbatim>\<open>strncpy(cwd, "/", 256)\<close> is called, which writes 257 bytes.\<close>

definition cmd_cd :: "cstr \<Rightarrow> mem fs \<Rightarrow> sh_dir \<Rightarrow> (sh_out list \<times> sh_dir) option" where
  "cmd_cd path s w =
     (if path = [] then
        (if length (strncpy_bytes [slash] VFS_PATH_MAX) > VFS_PATH_MAX then None
         else Some (say_line [slash] VGA_COLOR_WHITE, w\<lparr>cwd := [slash]\<rparr>))
      else Some (if path = [45] then
        (let w = w\<lparr>cwd := take (VFS_PATH_MAX - 1) (prev_cwd w), prev_cwd := take (VFS_PATH_MAX - 1) (cwd w)\<rparr>
         in (say_line (cwd w) VGA_COLOR_WHITE, w))
      else
        (let full = make_full (cwd w) path; node = vfs_resolve s full in
         if node = 0 \<or> \<not> is_dir s node
         then (say ''cd: no such directory'' VGA_COLOR_LIGHT_RED, w)
         else ([], w\<lparr>prev_cwd := take (VFS_PATH_MAX - 1) (cwd w), cwd := full\<rparr>))))"

text \<open>The entries of a directory side by side, with line breaks where they do not fit.\<close>

fun ls_entries :: "mem fs \<Rightarrow> int \<Rightarrow> u32 list \<Rightarrow> sh_out list" where
  "ls_entries s col [] = []"
| "ls_entries s col (c # cs) =
     (let dir = is_dir s c; n = node_name s c; nlen = int (length n);
          (brk, col) = (if col + nlen + 3 \<ge> int VGA_WIDTH then ([Newline], 0) else ([], col));
          out = brk @ [At col n (if dir then VGA_COLOR_LIGHT_CYAN else VGA_COLOR_WHITE)];
          col = col + nlen;
          (out, col) = (if dir then (out @ [At col [slash] VGA_COLOR_LIGHT_CYAN], col + 1) else (out, col))
      in out @ [At col [32] VGA_COLOR_BLACK, At (col + 1) [32] VGA_COLOR_BLACK] @ ls_entries s (col + 2) cs)"

definition cmd_ls :: "mem fs \<Rightarrow> sh_dir \<Rightarrow> sh_out list" where
  "cmd_ls s w =
     (let dir = vfs_resolve s (cwd w) in
      if dir = 0 \<or> \<not> is_dir s dir
      then say ''ls: not a directory'' VGA_COLOR_LIGHT_RED
      else
        (case node_data s dir of
           None \<Rightarrow> say ''(empty)'' VGA_COLOR_LIGHT_GREY
         | Some d \<Rightarrow>
             if d_children d = [] then say ''(empty)'' VGA_COLOR_LIGHT_GREY
             else ls_entries s 0 (d_children d) @ [Newline]))"

subsection \<open>Creating and writing\<close>

definition sh_ok :: "sh_out list" where "sh_ok = say ''OK'' VGA_COLOR_LIGHT_GREEN"

definition cmd_write :: "cstr \<Rightarrow> cstr \<Rightarrow> sh_dir \<Rightarrow> mem fs \<Rightarrow> (sh_out list \<times> mem fs) option" where
  "cmd_write fname data w s =
     (if fname = [] then Some (say ''usage: write <n> <text>'' VGA_COLOR_LIGHT_RED, s)
      else
        (let parent = vfs_resolve s (cwd w) in
         if parent = 0 then Some (say ''write: bad cwd'' VGA_COLOR_LIGHT_RED, s)
         else
           (let node = vfs_finddir s parent fname;
                (node, s) = (if node = 0 then ramfs_mkfile parent fname s else (node, s))
            in if node = 0 then Some (say ''write: failed'' VGA_COLOR_LIGHT_RED, s)
               else map_option (\<lambda>(n, s). (sh_ok, s)) (vfs_write s node 0 data))))"

definition cmd_mkdir :: "cstr \<Rightarrow> sh_dir \<Rightarrow> mem fs \<Rightarrow> sh_out list \<times> mem fs" where
  "cmd_mkdir name w s =
     (if name = [] then (say ''usage: mkdir <n>'' VGA_COLOR_LIGHT_RED, s)
      else
        (let parent = vfs_resolve s (cwd w) in
         if parent = 0 then (say ''mkdir: bad cwd'' VGA_COLOR_LIGHT_RED, s)
         else
           (let (node, s) = ramfs_mkdir parent name s
            in if node = 0 then (say ''mkdir: failed'' VGA_COLOR_LIGHT_RED, s) else (sh_ok, s))))"

definition cmd_touch :: "cstr \<Rightarrow> sh_dir \<Rightarrow> mem fs \<Rightarrow> sh_out list \<times> mem fs" where
  "cmd_touch name w s =
     (if name = [] then (say ''usage: touch <file>'' VGA_COLOR_LIGHT_RED, s)
      else
        (let parent = vfs_resolve s (cwd w) in
         if parent = 0 then (say ''touch: bad cwd'' VGA_COLOR_LIGHT_RED, s)
         else if vfs_finddir s parent name \<noteq> 0 then (say ''touch: already exists'' VGA_COLOR_LIGHT_GREY, s)
         else
           (let (node, s) = ramfs_mkfile parent name s
            in if node = 0 then (say ''touch: failed'' VGA_COLOR_LIGHT_RED, s) else (sh_ok, s))))"

subsection \<open>Removing and moving\<close>

text \<open>\<^verbatim>\<open>for (j = i; j < cnt - 1; j++) ch[j] = ch[j+1]; ch[cnt-1] = NULL; cnt--;\<close>\<close>

definition drop_child :: "nat \<Rightarrow> u32 \<Rightarrow> mem fs \<Rightarrow> mem fs" where
  "drop_child i dir s =
     (let d = the (node_data s dir)
      in s\<lparr>fs_datas := (fs_datas s)(n_inode (the (fs_nodes s dir)) \<mapsto>
           d\<lparr>d_children := take i (d_children d) @ drop (i + 1) (d_children d)\<rparr>)\<rparr>)"

definition cmd_rm :: "cstr \<Rightarrow> sh_dir \<Rightarrow> mem fs \<Rightarrow> sh_out list \<times> mem fs" where
  "cmd_rm name w s =
     (if name = [] then (say ''usage: rm <file>'' VGA_COLOR_LIGHT_RED, s)
      else
        (let parent = vfs_resolve s (cwd w) in
         if parent = 0 then (say ''rm: bad cwd'' VGA_COLOR_LIGHT_RED, s)
         else
           (case node_data s parent of
              None \<Rightarrow> (say ''rm: bad dir'' VGA_COLOR_LIGHT_RED, s)
            | Some d \<Rightarrow>
                (case find_slot (\<lambda>c. strcmp_bytes (node_name s c) name = 0) (d_children d) of
                   None \<Rightarrow> (say ''rm: not found'' VGA_COLOR_LIGHT_RED, s)
                 | Some i \<Rightarrow>
                     if is_dir s (d_children d ! i)
                     then (say ''rm: is a directory'' VGA_COLOR_LIGHT_RED, s)
                     else (sh_ok, drop_child i parent s)))))"

text \<open>Renaming stores the name in the 64 bytes of the node.\<close>

definition rename_node :: "u32 \<Rightarrow> cstr \<Rightarrow> mem fs \<Rightarrow> mem fs" where
  "rename_node node dst s =
     (let n = the (fs_nodes s node)
      in s\<lparr>fs_nodes := (fs_nodes s)(node \<mapsto>
           n\<lparr>n_name := (overlay (n_name n) 0 (strncpy_bytes dst (VFS_NAME_MAX - 1)))[VFS_NAME_MAX - 1 := 0]\<rparr>)\<rparr>)"

definition move_into :: "u32 \<Rightarrow> u32 \<Rightarrow> u32 \<Rightarrow> mem fs \<Rightarrow> sh_out list \<times> mem fs" where
  "move_into node parent dstdir s =
     (let s = (case find_slot (\<lambda>c. c = node) (d_children (the (node_data s parent))) of
                 None \<Rightarrow> s | Some i \<Rightarrow> drop_child i parent s);
          drd = the (node_data s dstdir)
      in if length (d_children drd) < 32
         then (sh_ok,
           s\<lparr>fs_nodes := (fs_nodes s)(node \<mapsto> (the (fs_nodes s node))\<lparr>n_parent := dstdir\<rparr>),
             fs_datas := (fs_datas s)(n_inode (the (fs_nodes s dstdir)) \<mapsto>
               drd\<lparr>d_children := d_children drd @ [node]\<rparr>)\<rparr>)
         else (say ''mv: dst dir full'' VGA_COLOR_LIGHT_RED, s))"

definition cmd_mv :: "cstr \<Rightarrow> cstr \<Rightarrow> sh_dir \<Rightarrow> mem fs \<Rightarrow> sh_out list \<times> mem fs" where
  "cmd_mv src dst w s =
     (if src = [] \<or> dst = [] then (say ''usage: mv <src> <dst>'' VGA_COLOR_LIGHT_RED, s)
      else
        (let parent = vfs_resolve s (cwd w) in
         if parent = 0 then (say ''mv: bad cwd'' VGA_COLOR_LIGHT_RED, s)
         else
           (let node = vfs_finddir s parent src in
            if node = 0 then (say ''mv: src not found'' VGA_COLOR_LIGHT_RED, s)
            else
              (let dstdir = vfs_finddir s parent dst in
               if dstdir \<noteq> 0 \<and> is_dir s dstdir
               then move_into node parent dstdir s
               else (sh_ok, rename_node node dst s)))))"

subsection \<open>Copying\<close>

partial_function (option) cp_loop :: "u32 \<Rightarrow> u32 \<Rightarrow> u32 \<Rightarrow> mem fs \<Rightarrow> mem fs option" where
  "cp_loop src dst pos s =
     (case vfs_read s src pos 128 of None \<Rightarrow> None
      | Some tmp \<Rightarrow>
          if tmp = [] then Some s
          else
            (case vfs_write s dst pos tmp of None \<Rightarrow> None
             | Some (n, s) \<Rightarrow> cp_loop src dst (pos + of_nat (length tmp)) s))"

definition set_length :: "u32 \<Rightarrow> u32 \<Rightarrow> mem fs \<Rightarrow> mem fs" where
  "set_length node l s = s\<lparr>fs_nodes := (fs_nodes s)(node \<mapsto> (the (fs_nodes s node))\<lparr>n_length := l\<rparr>)\<rparr>"

definition cmd_cp :: "cstr \<Rightarrow> cstr \<Rightarrow> sh_dir \<Rightarrow> mem fs \<Rightarrow> (sh_out list \<times> mem fs) option" where
  "cmd_cp src dst w s =
     (if src = [] \<or> dst = [] then Some (say ''usage: cp <src> <dst>'' VGA_COLOR_LIGHT_RED, s)
      else
        (let parent = vfs_resolve s (cwd w) in
         if parent = 0 then Some (say ''cp: bad cwd'' VGA_COLOR_LIGHT_RED, s)
         else
           (let snode = vfs_finddir s parent src in
            if snode = 0 \<or> n_flags (the (fs_nodes s snode)) AND VFS_FILE = 0
            then Some (say ''cp: src not found'' VGA_COLOR_LIGHT_RED, s)
            else
              (let dstdir = vfs_finddir s parent dst;
                   (dnode, s) =
                     (if dstdir \<noteq> 0 \<and> is_dir s dstdir then
                        (let dnode = vfs_finddir s dstdir src
                         in if dnode = 0 then ramfs_mkfile dstdir src s else (dnode, s))
                      else
                        (let dnode = vfs_finddir s parent dst
                         in if dnode = 0 then ramfs_mkfile parent dst s else (dnode, s)))
               in if dnode = 0 then Some (say ''cp: failed to create dst'' VGA_COLOR_LIGHT_RED, s)
                  else map_option (Pair sh_ok) (cp_loop snode dnode 0 (set_length dnode 0 s))))))"

subsection \<open>Finding\<close>

text \<open>The path of a child, in the buffer of 256 bytes.\<close>

definition child_path :: "cstr \<Rightarrow> cstr \<Rightarrow> cstr" where
  "child_path path name =
     (let out = take (VFS_PATH_MAX - 1) path;
          out = (if length out < VFS_PATH_MAX - 2 \<and> last out \<noteq> slash then out @ [slash] else out)
      in out @ take (VFS_PATH_MAX - length out - 1) name)"

text \<open>The loop over the entries of a directory; a cycle of directories is never left.\<close>

partial_function (option) find_recurse ::
    "mem fs \<Rightarrow> cstr \<Rightarrow> cstr \<Rightarrow> u32 list \<Rightarrow> cstr list option" where
  "find_recurse s name path kids =
     (if kids = [] then Some []
      else
        (let c = hd kids; cpath = child_path path (node_name s c) in
         Option.bind (find_recurse s name cpath (if is_dir s c then children s c else []))
           (\<lambda>sub. Option.bind (find_recurse s name path (tl kids))
             (\<lambda>others. Some ((if strcmp_bytes (node_name s c) name = 0 then [cpath] else []) @ sub @ others)))))"

definition cmd_find :: "cstr \<Rightarrow> mem fs \<Rightarrow> sh_out list option" where
  "cmd_find name s =
     (if name = [] then Some (say ''usage: find <n>'' VGA_COLOR_LIGHT_RED)
      else if vfs_root s = 0 then Some (say ''find: no fs'' VGA_COLOR_LIGHT_RED)
      else map_option (\<lambda>hits. if hits = [] then say ''not found.'' VGA_COLOR_LIGHT_GREY
                       else concat (map (\<lambda>p. say_line p VGA_COLOR_LIGHT_GREEN) hits))
             (find_recurse s name [slash] (children s (vfs_root s))))"


subsection \<open>What writing keeps\<close>

text \<open>A write changes the bytes and the length of one file: names, directories and flags stay.\<close>

definition same_tree :: "'h fs \<Rightarrow> 'h fs \<Rightarrow> bool" where
  "same_tree s s' \<longleftrightarrow> (\<forall>q. node_name s' q = node_name s q \<and> children s' q = children s q \<and>
     n_flags (the (fs_nodes s' q)) = n_flags (the (fs_nodes s q)))"

lemma same_tree_trans: "same_tree s s' \<Longrightarrow> same_tree s' s'' \<Longrightarrow> same_tree s s''"
  by (simp add: same_tree_def)

lemma same_tree_finddir: "same_tree s s' \<Longrightarrow> vfs_finddir s' p x = vfs_finddir s p x"
  by (simp add: vfs_finddir_def finddir_children same_tree_def split: option.splits)

lemma same_tree_update:
  assumes "fs_nodes s p = Some n" "fs_datas s (n_inode n) = Some d"
  shows "same_tree s (s\<lparr>fs_datas := (fs_datas s)(n_inode n \<mapsto> d\<lparr>d_buf := b\<rparr>),
    fs_nodes := (fs_nodes s)(p \<mapsto> n\<lparr>n_length := l\<rparr>)\<rparr>)"
  using assms by (auto simp: same_tree_def node_name_def children_def node_data_def split: option.splits)

lemma same_tree_write:
  assumes "fs_ok own s" "is_file s p" "ramfs_write s p pos bs = Some (k, s')"
    "unat pos \<le> file_cap s p" "unat pos + length bs < 4294967296"
  shows "same_tree s s'"
proof -
  obtain n d b where nd: "fs_nodes s p = Some n" "fs_datas s (n_inode n) = Some d" "d_buf d = Some b"
    using assms(2) unfolding is_file_def by blast
  have "node_data s p = Some d" using nd fs_okD(2) [OF assms(1) nd(1)] by (simp add: node_data_def)
  then have "unat pos \<le> unat (d_capacity d)" using assms(4) by (simp add: file_cap_def)
  then show ?thesis
    using ramfs_write_in_range [OF assms(1) nd, of pos bs] assms(3,5) same_tree_update [OF nd(1,2)] by auto
qed

lemma set_length_0:
  assumes ok: "fs_ok own s" and f: "is_file s p"
  defines "s' \<equiv> set_length p 0 s"
  shows "fs_ok own s' \<and> is_file s' p \<and> file_cap s' p = file_cap s p \<and> same_tree s s' \<and>
    file_bytes s' p = [] \<and> (\<forall>q. q \<noteq> p \<longrightarrow> file_bytes s' q = file_bytes s q \<and> (is_file s q \<longrightarrow> is_file s' q))"
proof -
  obtain n d b where nd: "fs_nodes s p = Some n" "fs_datas s (n_inode n) = Some d" "d_buf d = Some b"
    using f unfolding is_file_def by blast
  have e: "s' = s\<lparr>fs_datas := (fs_datas s)(n_inode n \<mapsto> d\<lparr>d_buf := Some b\<rparr>),
      fs_nodes := (fs_nodes s)(p \<mapsto> n\<lparr>n_length := 0\<rparr>)\<rparr>"
    using nd by (simp add: s'_def set_length_def fun_upd_idem)
  have ok': "fs_ok own s'" unfolding e by (rule fs_ok_write [OF ok nd refl])
  have tree: "same_tree s s'" unfolding e by (rule same_tree_update [OF nd(1,2)])
  have dat: "node_data s' q = node_data s q" for q
    using nd by (auto simp: s'_def set_length_def node_data_def split: option.splits)
  show ?thesis
    using ok' tree nd
    by (simp add: file_bytes_def file_cap_def is_file_def dat)
       (simp add: s'_def set_length_def split: option.splits)
qed

subsection \<open>Copying\<close>

lemma vfs_write_append:
  assumes ok: "ram_ok s" and f: "is_file s p" and cap: "file_cap s p = 4096"
    and k: "k = length (file_bytes s p)" "k + length bs \<le> 4096"
  shows "\<exists>s'. vfs_write s p (of_nat k) bs = Some (of_nat (length bs), s') \<and> ram_ok s' \<and> is_file s' p \<and>
    file_cap s' p = 4096 \<and> same_tree s s' \<and> file_bytes s' p = file_bytes s p @ bs \<and>
    (\<forall>q. q \<noteq> p \<longrightarrow> file_bytes s' q = file_bytes s q \<and> (is_file s q \<longrightarrow> is_file s' q))"
proof -
  have u: "unat (of_nat k :: u32) = k" using k by simp
  have m: "min (length bs) (4096 - k) = length bs" using k by simp
  obtain s' where s': "ramfs_write s p (of_nat k) bs = Some (of_nat (length bs), s')" "ram_ok s'" "is_file s' p"
    "file_cap s' p = 4096" "length (file_bytes s' p) = k + length bs"
    "take (length bs) (drop k (file_bytes s' p)) = bs"
    "\<forall>i < k. file_bytes s' p ! i = file_bytes s p ! i" "\<forall>q. q \<noteq> p \<longrightarrow> file_bytes s' q = file_bytes s q"
    using ramfs_write_result [OF ok f, of "of_nat k" bs] k cap unfolding u cap m
    by (auto simp: max_def)
  have tree: "same_tree s s'" by (rule same_tree_write [OF ok f s'(1)]) (use k cap in \<open>simp_all add: u\<close>)
  have "file_bytes s' p = take k (file_bytes s' p) @ drop k (file_bytes s' p)" by simp
  also have "take k (file_bytes s' p) = file_bytes s p"
    using s'(5,7) k(1) by (intro nth_equalityI) auto
  also have "drop k (file_bytes s' p) = bs" using s'(5,6) by (simp add: min_def)
  finally have fb: "file_bytes s' p = file_bytes s p @ bs" .
  have nz: "p \<noteq> 0" using f fs_okD(1) [OF ok] by (auto simp: is_file_def)
  have "is_file s' q" if "q \<noteq> p" "is_file s q" for q
  proof -
    obtain n d b where nd: "fs_nodes s p = Some n" "fs_datas s (n_inode n) = Some d" "d_buf d = Some b"
      using f unfolding is_file_def by blast
    have "node_data s p = Some d" using nd fs_okD(2) [OF ok nd(1)] by (simp add: node_data_def)
    then have "unat (of_nat k :: u32) \<le> unat (d_capacity d)" using cap k by (simp add: file_cap_def u)
    then have e: "s' = s\<lparr>fs_datas := (fs_datas s)(n_inode n \<mapsto> d\<lparr>d_buf := Some (overlay b k
          (take (min (length bs) (unat (d_capacity d) - k)) bs))\<rparr>),
        fs_nodes := (fs_nodes s)(p \<mapsto> n\<lparr>n_length := of_nat (max (unat (n_length n))
          (k + min (length bs) (unat (d_capacity d) - k)))\<rparr>)\<rparr>"
      using ramfs_write_in_range [OF ok nd, of "of_nat k" bs] s'(1) k unfolding u by simp
    have "n_inode m \<noteq> n_inode n" if "fs_nodes s q = Some m" for m
      using fs_okD(6) [OF ok that nd(1)] \<open>q \<noteq> p\<close> by auto
    then show ?thesis using that unfolding e is_file_def by auto
  qed
  with s' tree fb nz show ?thesis by (simp add: vfs_write_def)
qed

lemma cp_loop_copies:
  assumes "src \<noteq> dst"
  shows "ram_ok s \<Longrightarrow> is_file s src \<Longrightarrow> length (file_bytes s src) \<le> 4096 \<Longrightarrow> is_file s dst \<Longrightarrow>
    file_cap s dst = 4096 \<Longrightarrow> k \<le> length (file_bytes s src) \<Longrightarrow> file_bytes s dst = take k (file_bytes s src) \<Longrightarrow>
    \<exists>s'. cp_loop src dst (of_nat k) s = Some s' \<and> ram_ok s' \<and> same_tree s s' \<and>
      file_bytes s' dst = file_bytes s src \<and> (\<forall>q. q \<noteq> dst \<longrightarrow> file_bytes s' q = file_bytes s q)"
proof (induction "length (file_bytes s src) - k" arbitrary: k s rule: less_induct)
  case less
  let ?F = "file_bytes s src"
  have len: "length ?F \<le> 4096" and kl: "k \<le> length ?F" by fact+
  have sm: "small_file s src" using less.prems by (simp add: small_file_def)
  have "k \<le> 4096" using len kl by simp
  note rd = vfs_read_piece [OF sm this, of 128, simplified]
  show ?case
  proof (cases "k = length ?F")
    case True
    then show ?thesis using rd less.prems by (subst cp_loop.simps) (auto simp: same_tree_def)
  next
    case False
    define t where "t = take 128 (drop k ?F)"
    have t: "t \<noteq> []" "k + length t \<le> length ?F" "0 < length t" using False kl by (auto simp: t_def)
    have ft: "take k ?F @ t = take (k + length t) ?F"
      using kl by (simp add: t_def take_add min_def)
    have kd: "k = length (file_bytes s dst)" using less.prems(7) kl by simp
    have "k + length t \<le> 4096" using t(2) len by simp
    from vfs_write_append [OF less.prems(1,4,5) kd this]
    obtain s1 where s1: "vfs_write s dst (of_nat k) t = Some (of_nat (length t), s1)" "ram_ok s1"
      "is_file s1 dst" "file_cap s1 dst = 4096" "same_tree s s1" "file_bytes s1 dst = file_bytes s dst @ t"
      "\<forall>q. q \<noteq> dst \<longrightarrow> file_bytes s1 q = file_bytes s q \<and> (is_file s q \<longrightarrow> is_file s1 q)" by blast
    have F1: "file_bytes s1 src = ?F" "is_file s1 src" using s1(7) assms less.prems(2) by auto
    have d1: "file_bytes s1 dst = take (k + length t) (file_bytes s1 src)"
      unfolding F1(1) s1(6) less.prems(7) by (rule ft)
    have "length ?F - (k + length t) < length ?F - k" using t(2,3) by linarith
    then have "\<exists>s'. cp_loop src dst (of_nat (k + length t)) s1 = Some s' \<and> ram_ok s' \<and> same_tree s1 s' \<and>
        file_bytes s' dst = file_bytes s1 src \<and> (\<forall>q. q \<noteq> dst \<longrightarrow> file_bytes s' q = file_bytes s1 q)"
      using less.hyps [OF _ s1(2) F1(2) _ s1(3,4) _ d1] len t(2)
      unfolding F1(1) by blast
    moreover have "cp_loop src dst (of_nat k) s = cp_loop src dst (of_nat (k + length t)) s1"
      using rd s1(1) t(1) by (subst cp_loop.simps) (simp add: t_def [symmetric])
    ultimately show ?thesis
      using s1(5,7) same_tree_trans [OF s1(5)] F1(1) by auto
  qed
qed


subsection \<open>Removing and renaming\<close>

lemma drop_child_children:
  assumes ok: "fs_ok own s" and d: "node_data s p = Some d"
  shows "children (drop_child i p s) p = take i (children s p) @ drop (i + 1) (children s p)"
    "q \<noteq> p \<Longrightarrow> children (drop_child i p s) q = children s q"
    "node_name (drop_child i p s) q = node_name s q" "file_bytes (drop_child i p s) q = file_bytes s q"
proof -
  obtain n where n: "fs_nodes s p = Some n" "n_inode n \<noteq> 0" "fs_datas s (n_inode n) = Some d"
    using d by (auto simp: node_data_Some)
  have o: "n_inode m \<noteq> n_inode n" if "fs_nodes s q = Some m" "q \<noteq> p" for q m
    using fs_okD(6) [OF ok that(1) n(1)] that(2) by blast
  show "children (drop_child i p s) p = take i (children s p) @ drop (i + 1) (children s p)"
    using n d by (simp add: drop_child_def children_def node_data_def)
  show "q \<noteq> p \<Longrightarrow> children (drop_child i p s) q = children s q"
    using n d o by (auto simp: drop_child_def children_def node_data_def split: option.splits)
  show "node_name (drop_child i p s) q = node_name s q"
    using d by (simp add: drop_child_def node_name_def)
  show "file_bytes (drop_child i p s) q = file_bytes s q"
    using n d o by (cases "q = p") (auto simp: drop_child_def file_bytes_def node_data_def split: option.splits)
qed

text \<open>Names in a directory are distinct when no entry shadows another.\<close>

definition distinct_names :: "'h fs \<Rightarrow> u32 \<Rightarrow> bool" where
  "distinct_names s p \<longleftrightarrow> distinct (map (node_name s) (children s p)) \<and> 0 \<notin> set (children s p)"

lemma finddir_iff:
  assumes "distinct_names s p" "is_cstr x" "p \<noteq> 0" "c \<noteq> 0"
  shows "vfs_finddir s p x = c \<longleftrightarrow> c \<in> set (children s p) \<and> node_name s c = x"
proof -
  have eq: "strcmp_bytes (node_name s q) x = 0 \<longleftrightarrow> node_name s q = x" for q
    using assms(2) by (simp add: node_name_def)
  have inj: "i = j" if "i < length (children s p)" "j < length (children s p)"
      "node_name s (children s p ! i) = node_name s (children s p ! j)" for i j
    using nth_eq_iff_index_eq [of "map (node_name s) (children s p)" i j] assms(1) that
    unfolding distinct_names_def by (metis length_map nth_map)
  show ?thesis
  proof
    assume "vfs_finddir s p x = c"
    then obtain i where i: "find_slot (\<lambda>c. strcmp_bytes (node_name s c) x = 0) (children s p) = Some i"
        "children s p ! i = c"
      using assms(3,4) by (auto simp: vfs_finddir_def finddir_children split: option.splits)
    show "c \<in> set (children s p) \<and> node_name s c = x"
      using find_slot_SomeD(1,2) [OF i(1)] i(2) by (auto simp only: eq nth_mem)
  next
    assume c: "c \<in> set (children s p) \<and> node_name s c = x"
    then obtain i where i: "i < length (children s p)" "children s p ! i = c" by (auto simp: in_set_conv_nth)
    obtain j where j: "find_slot (\<lambda>c. strcmp_bytes (node_name s c) x = 0) (children s p) = Some j"
      using find_slot_ex [of c "children s p" "\<lambda>c. strcmp_bytes (node_name s c) x = 0"] c
      unfolding eq by blast
    have "j < length (children s p)" "node_name s (children s p ! j) = x" using find_slot_SomeD(1,2) [OF j] by (auto simp only: eq)
    then have "i = j" using inj [OF i(1)] i c by metis
    then show "vfs_finddir s p x = c"
      using i assms(3) unfolding vfs_finddir_def finddir_children j option.case by metis
  qed
qed

text \<open>The lookups of a directory are determined by its entries, so a change of the entries is a
  change of the lookups.\<close>

lemma finddir_eqI:
  assumes "distinct_names s p" "distinct_names s' p'" "p \<noteq> 0" "p' \<noteq> 0" "is_cstr x" "is_cstr y"
    and "\<And>c. c \<in> set (children s p) \<and> node_name s c = x \<longleftrightarrow> c \<in> set (children s' p') \<and> node_name s' c = y"
  shows "vfs_finddir s p x = vfs_finddir s' p' y"
proof (cases "vfs_finddir s p x = 0")
  case True
  show ?thesis
  proof (rule ccontr)
    assume "\<not> ?thesis"
    then have nz: "vfs_finddir s' p' y \<noteq> 0" using True by simp
    then have "vfs_finddir s p x = vfs_finddir s' p' y"
      using finddir_iff [OF assms(2,6,4) nz] finddir_iff [OF assms(1,5,3) nz] assms(7) by simp
    with True nz show False by simp
  qed
next
  case False
  then show ?thesis
    using finddir_iff [OF assms(1,5,3) False] finddir_iff [OF assms(2,6,4) False] assms(7) by simp
qed

lemma finddir_0I:
  assumes "distinct_names s p" "p \<noteq> 0" "is_cstr x" "\<And>c. c \<in> set (children s p) \<Longrightarrow> node_name s c \<noteq> x"
  shows "vfs_finddir s p x = 0"
  using finddir_iff [OF assms(1,3,2)] assms(4) by blast

lemma find_index:
  assumes "distinct_names s p" "p \<noteq> 0" "is_cstr x" "vfs_finddir s p x = c" "c \<noteq> 0"
  shows "\<exists>i < length (children s p). find_slot (\<lambda>c. strcmp_bytes (node_name s c) x = 0) (children s p) = Some i \<and>
    children s p ! i = c"
  using assms(2,4,5)
  by (auto simp: vfs_finddir_def finddir_children dest: find_slot_SomeD(1) split: option.splits)

lemma drop_nth_set:
  assumes "distinct xs" "i < length xs"
  shows "set (take i xs @ drop (i + 1) xs) = set xs - {xs ! i}"
proof -
  have "xs = take i xs @ xs ! i # drop (i + 1) xs" using assms(2) by (simp add: id_take_nth_drop)
  then show ?thesis using assms(1)
    by (metis Diff_insert_absorb Un_insert_right distinct_append distinct.simps(2) list.set(2)
        set_append disjoint_insert(1) UnE)
qed

lemma drop_child_lookup:
  assumes ok: "fs_ok own s" and d: "node_data s p = Some d" and u: "distinct_names s p"
    and i: "i < length (children s p)" "node_name s (children s p ! i) = name" and c: "is_cstr x"
  shows "distinct_names (drop_child i p s) p"
    "vfs_finddir (drop_child i p s) p x = (if x = name then 0 else vfs_finddir s p x)"
proof -
  note D = drop_child_children [OF ok d, where i = i]
  let ?s = "drop_child i p s"
  have pz: "p \<noteq> 0" using d fs_okD(1) [OF ok] by (auto simp: node_data_Some)
  have dm: "distinct (map (node_name s) (children s p))" using u by (simp add: distinct_names_def)
  then have dc: "distinct (children s p)" by (simp add: distinct_map)
  have set: "set (children ?s p) = set (children s p) - {children s p ! i}"
    unfolding D(1) by (rule drop_nth_set [OF dc i(1)])
  have nn: "node_name ?s = node_name s" using D(3) by blast
  have "distinct (take i (map (node_name s) (children s p)) @ drop (i + 1) (map (node_name s) (children s p)))"
    using dm i(1) by (subst (asm) id_take_nth_drop [of i]) (auto simp: take_map drop_map)
  then have "distinct (map (node_name s) (children ?s p))" by (simp only: D(1) map_append take_map drop_map)
  then show u': "distinct_names ?s p"
    using u set by (simp add: distinct_names_def nn)
  have only: "q = children s p ! i" if "q \<in> set (children s p)" "node_name s q = name" for q
    using that i inj_on_eq_iff [OF _ that(1) nth_mem [OF i(1)], of "node_name s"] dm
    by (simp add: distinct_map)
  show "vfs_finddir ?s p x = (if x = name then 0 else vfs_finddir s p x)"
  proof (cases "x = name")
    case True
    then show ?thesis using finddir_0I [OF u' pz c] only by (auto simp: set nn)
  next
    case False
    then show ?thesis using finddir_eqI [OF u' u pz pz c c] i(2) by (auto simp: set nn)
  qed
qed

lemma kid_node:
  assumes "fs_ok own s" "c \<in> set (children s p)"
  shows "\<exists>n. fs_nodes s c = Some n"
proof -
  obtain d where d: "node_data s p = Some d" "c \<in> set (d_children d)"
    using assms(2) by (cases "node_data s p") (auto simp: children_def)
  then obtain a where "fs_datas s a = Some d" by (auto simp: node_data_Some)
  from fs_okD(7) [OF assms(1) this] show ?thesis using d(2) by (auto simp: data_ok_def)
qed

lemma rename_node_keeps:
  assumes "fs_nodes s f = Some n"
  shows "children (rename_node f dst s) q = children s q" "file_bytes (rename_node f dst s) q = file_bytes s q"
proof -
  have "node_data (rename_node f dst s) q = node_data s q"
    using assms by (auto simp: rename_node_def node_data_def Let_def split: option.splits)
  then show "children (rename_node f dst s) q = children s q" "file_bytes (rename_node f dst s) q = file_bytes s q"
    using assms by (simp_all add: children_def file_bytes_def) (simp add: rename_node_def split: option.splits)
qed

lemma rename_node_lookup:
  assumes ok: "fs_ok own s" and u: "distinct_names s p" and pz: "p \<noteq> 0"
    and f: "vfs_finddir s p src = f" "f \<noteq> 0" "is_cstr src" and dst: "is_cstr dst" "length dst < 64"
    and fresh: "vfs_finddir s p dst = 0" and c: "is_cstr x"
  shows "vfs_finddir (rename_node f dst s) p x =
    (if x = dst then f else if x = src then 0 else vfs_finddir s p x)"
proof -
  let ?s = "rename_node f dst s"
  have fin: "f \<in> set (children s p)" "node_name s f = src"
    using finddir_iff [OF u f(3) pz f(2)] f(1) by simp_all
  obtain n where n: "fs_nodes s f = Some n" using kid_node [OF ok fin(1)] by blast
  have "cstr_of (copy_field (n_name n) dst 63) = dst"
    using fs_okD(5) [OF ok n] dst by simp
  then have nf: "node_name ?s f = dst"
    using n by (simp add: rename_node_def node_name_def copy_field_def Let_def)
  have no: "node_name ?s q = node_name s q" if "q \<noteq> f" for q
    using that by (simp add: rename_node_def node_name_def Let_def)
  have kids: "children ?s q = children s q" for q by (rule rename_node_keeps(1) [OF n])
  have free: "node_name s q \<noteq> dst" if "q \<in> set (children s p)" for q
    using that finddir_iff [OF u dst(1) pz, of q] fresh u by (auto simp: distinct_names_def)
  have inj: "inj_on (node_name s) (set (children s p))" "distinct (children s p)"
    using u by (auto simp: distinct_names_def distinct_map)
  have "inj_on (node_name ?s) (set (children s p))"
  proof (rule inj_onI)
    fix a b
    assume ab: "a \<in> set (children s p)" "b \<in> set (children s p)" and eq: "node_name ?s a = node_name ?s b"
    have "a = f" if "b = f" using free [OF ab(1)] no [of a] eq nf that by metis
    moreover have "b = f" if "a = f" using free [OF ab(2)] no [of b] eq nf that by metis
    moreover have "a = b" if "a \<noteq> f" "b \<noteq> f"
      using inj_onD [OF inj(1) _ ab] no [OF that(1)] no [OF that(2)] eq by metis
    ultimately show "a = b" by blast
  qed
  then have u': "distinct_names ?s p" using u inj(2) by (simp add: distinct_names_def kids distinct_map)
  have only: "q = f" if "q \<in> set (children s p)" "node_name s q = src" for q
    using inj_onD [OF inj(1) _ that(1) fin(1)] that(2) fin(2) by simp
  have sd: "src \<noteq> dst" using f fresh by auto
  consider "x = dst" | "x \<noteq> dst" "x = src" | "x \<noteq> dst" "x \<noteq> src" by blast
  then show ?thesis
  proof cases
    case 1
    then show ?thesis using finddir_iff [OF u' c pz f(2)] fin(1) nf by (simp add: kids)
  next
    case 2
    have "node_name ?s q \<noteq> x" if "q \<in> set (children ?s p)" for q
      using that only [of q] no [of q] nf 2 by (cases "q = f") (auto simp: kids)
    then show ?thesis using finddir_0I [OF u' pz c] 2 by simp
  next
    case 3
    have "(q \<in> set (children ?s p) \<and> node_name ?s q = x) = (q \<in> set (children s p) \<and> node_name s q = x)" for q
      using no [of q] nf fin 3 by (cases "q = f") (auto simp: kids)
    then show ?thesis using finddir_eqI [OF u' u pz pz c c] 3 by simp
  qed
qed


text \<open>
  C35: \<^verbatim>\<open>cp\<close> from a file of the working directory to another existing file gives that file exactly the
  bytes of the source, whatever it held before; all other files, and every lookup, stay as they
  are.  Copying a file onto itself empties it.
\<close>

theorem shell_cp_copies:
  assumes "ram_ok s" "vfs_resolve s (cwd w) = p" "src \<noteq> []" "dst \<noteq> []"
    and "vfs_finddir s p src = f" "n_flags (the (fs_nodes s f)) AND VFS_FILE \<noteq> 0" "small_file s f"
    and "vfs_finddir s p dst = g" "is_file s g" "file_cap s g = 4096" "\<not> is_dir s g"
  shows "\<exists>s'. cmd_cp src dst w s = Some (sh_ok, s') \<and> ram_ok s' \<and>
    file_bytes s' g = (if g = f then [] else file_bytes s f) \<and>
    (\<forall>q. q \<noteq> g \<longrightarrow> file_bytes s' q = file_bytes s q) \<and> (\<forall>a x. vfs_finddir s' a x = vfs_finddir s a x)"
proof -
  have nz: "f \<noteq> 0" "g \<noteq> 0" "p \<noteq> 0"
    using small_file_nonzero [OF assms(7)] assms(5,9) fs_okD(1) [OF assms(1)]
    by (auto simp: is_file_def vfs_finddir_def)
  have run: "cmd_cp src dst w s = map_option (Pair sh_ok) (cp_loop f g 0 (set_length g 0 s))"
    using assms(2-6,8,11) nz by (simp add: cmd_cp_def Let_def)
  define s0 where "s0 = set_length g 0 s"
  note L = set_length_0 [OF assms(1,9), folded s0_def]
  show ?thesis
  proof (cases "g = f")
    case True
    have sm: "small_file s0 f" using L True by (simp add: small_file_def)
    have "vfs_read s0 f 0 128 = Some []" using vfs_read_piece [OF sm, of 0 128] L True by simp
    then have "cp_loop f g 0 s0 = Some s0" by (subst cp_loop.simps) (simp add: True)
    then show ?thesis using run L True same_tree_finddir unfolding s0_def [symmetric] by auto
  next
    case False
    have "\<exists>s'. cp_loop f g (of_nat 0) s0 = Some s' \<and> ram_ok s' \<and> same_tree s0 s' \<and>
        file_bytes s' g = file_bytes s0 f \<and> (\<forall>q. q \<noteq> g \<longrightarrow> file_bytes s' q = file_bytes s0 q)"
      using L False assms(7,10) by (intro cp_loop_copies) (auto simp: small_file_def)
    then show ?thesis
      using run L False same_tree_finddir same_tree_trans unfolding s0_def [symmetric] by fastforce
  qed
qed

subsection \<open>Finding\<close>

text \<open>Reference: everything below a directory, each node with its path, to a given depth.\<close>

fun paths_below :: "nat \<Rightarrow> mem fs \<Rightarrow> cstr \<Rightarrow> u32 list \<Rightarrow> (cstr \<times> u32) list" where
  "paths_below 0 s path kids = []"
| "paths_below (Suc n) s path kids = concat (map (\<lambda>c.
     (child_path path (node_name s c), c) #
     (if is_dir s c then paths_below n s (child_path path (node_name s c)) (children s c) else [])) kids)"

definition named_paths :: "mem fs \<Rightarrow> cstr \<Rightarrow> (cstr \<times> u32) list \<Rightarrow> cstr list" where
  "named_paths s name xs = map fst (filter (\<lambda>(q, c). node_name s c = name) xs)"

text \<open>Directories are ranked when every directory is ranked lower than the one it is in.\<close>

definition ranked :: "(u32 \<Rightarrow> nat) \<Rightarrow> mem fs \<Rightarrow> bool" where
  "ranked r s \<longleftrightarrow> (\<forall>p c. c \<in> set (children s p) \<longrightarrow> is_dir s c \<longrightarrow> r c < r p)"

lemma find_recurse_ranked:
  assumes r: "ranked r s" and nm: "is_cstr name"
  shows "\<forall>c \<in> set kids. is_dir s c \<longrightarrow> r c < n \<Longrightarrow>
    find_recurse s name path kids = Some (named_paths s name (paths_below (Suc n) s path kids))"
proof (induction n arbitrary: path kids rule: less_induct)
  case (less n)
  from less.prems show ?case
  proof (induction kids)
    case Nil
    then show ?case by (subst find_recurse.simps) (simp add: named_paths_def)
  next
    case (Cons c cs)
    let ?p = "child_path path (node_name s c)"
    have hit: "strcmp_bytes (node_name s c) name = 0 \<longleftrightarrow> node_name s c = name" using nm by (simp add: node_name_def)
    have sub: "find_recurse s name ?p (if is_dir s c then children s c else []) =
        Some (named_paths s name (if is_dir s c then paths_below n s ?p (children s c) else []))"
    proof (cases "is_dir s c")
      case True
      then have lt: "r c < n" using Cons.prems by simp
      then obtain m where m: "n = Suc m" by (cases n) auto
      have "\<forall>q \<in> set (children s c). is_dir s q \<longrightarrow> r q < m" using r lt m by (force simp: ranked_def)
      then show ?thesis using less.IH [of m "children s c" ?p] m True by simp
    next
      case False
      then show ?thesis by (subst find_recurse.simps) (simp add: named_paths_def)
    qed
    have "find_recurse s name path cs = Some (named_paths s name (paths_below (Suc n) s path cs))"
      using Cons by simp
    then show ?case
      by (subst find_recurse.simps) (simp add: sub hit Let_def, simp add: named_paths_def)
  qed
qed

text \<open>A directory that is an entry of itself is walked into again and again.\<close>

lemma find_recurse_loops:
  assumes "is_dir s c" "c \<in> set (children s c)"
  shows "c \<in> set kids \<Longrightarrow> find_recurse s name path kids = None"
proof -
  have "s' = s \<longrightarrow> c \<notin> set ks" if "find_recurse s' n p ks = Some y" for s' n p ks y
    using that
  proof (rule find_recurse.raw_induct [rotated])
    fix f and s' :: "mem fs" and n p ks y
    assume IH: "\<And>s' n p ks y. f s' n p ks = Some y \<Longrightarrow> s' = s \<longrightarrow> c \<notin> set ks"
      and run: "(if ks = [] then Some []
         else let q = hd ks; cpath = child_path p (node_name s' q) in
           Option.bind (f s' n cpath (if is_dir s' q then children s' q else []))
             (\<lambda>sub. Option.bind (f s' n p (tl ks))
               (\<lambda>others. Some ((if strcmp_bytes (node_name s' q) n = 0 then [cpath] else []) @ sub @ others)))) = Some y"
    show "s' = s \<longrightarrow> c \<notin> set ks"
    proof (cases ks)
      case (Cons q qs)
      then obtain sub others where
        "f s' n (child_path p (node_name s' q)) (if is_dir s' q then children s' q else []) = Some sub"
        "f s' n p qs = Some others"
        using run by (auto simp: Let_def bind_eq_Some_conv)
      from IH [OF this(1)] IH [OF this(2)] show ?thesis using Cons assms by (auto split: if_splits)
    qed simp
  qed
  then show "c \<in> set kids \<Longrightarrow> find_recurse s name path kids = None"
    by (cases "find_recurse s name path kids") auto
qed


subsection \<open>Directories that swallow entries\<close>

text \<open>Moving into a directory that already has 32 entries removes the entry first and only then
  reports that there is no room: no lookup finds it any more.\<close>

lemma mv_into_full_directory:
  assumes "ram_ok s" "node_data s p = Some d" "distinct_names s p" "vfs_resolve s (cwd w) = p"
    and "is_cstr src" "is_cstr dst" "src \<noteq> []" "dst \<noteq> []"
    and "vfs_finddir s p src = f" "f \<noteq> 0" "vfs_finddir s p dst = g" "g \<noteq> 0" "is_dir s g" "g \<noteq> p"
    and "32 \<le> length (children s g)"
  shows "cmd_mv src dst w s =
    (say ''mv: dst dir full'' VGA_COLOR_LIGHT_RED, drop_child (the (find_slot (\<lambda>c. c = f) (children s p))) p s)"
proof -
  have pz: "p \<noteq> 0" using assms(2) fs_okD(1) [OF assms(1)] by (auto simp: node_data_Some)
  have "f \<in> set (children s p)" using finddir_iff [OF assms(3,5) pz assms(10)] assms(9) by simp
  then obtain i where i: "find_slot (\<lambda>c. c = f) (children s p) = Some i"
    using find_slot_ex [of f "children s p" "\<lambda>c. c = f"] by blast
  have ch: "d_children (the (node_data (drop_child i p s) g)) = children s g"
  proof -
    have "children (drop_child i p s) g = children s g" by (rule drop_child_children(2) [OF assms(1,2,14)])
    moreover have "children s g \<noteq> []" using assms(15) by auto
    ultimately show ?thesis by (cases "node_data (drop_child i p s) g") (simp_all add: children_def)
  qed
  have kids: "d_children (the (node_data s p)) = children s p" using assms(2) by (simp add: children_def)
  have "cmd_mv src dst w s = move_into f p g s"
    using assms(7,8,10,12,13) pz by (simp add: cmd_mv_def Let_def assms(4,9,11))
  also have "\<dots> = (say ''mv: dst dir full'' VGA_COLOR_LIGHT_RED, drop_child i p s)"
    using assms(15) by (simp add: move_into_def kids i ch)
  finally show ?thesis by (simp add: i)
qed

text \<open>A directory moved into itself leaves the working directory and becomes its own entry.\<close>

lemma mv_into_itself:
  assumes "ram_ok s" "node_data s p = Some d" "distinct_names s p" "vfs_resolve s (cwd w) = p"
    and "is_cstr src" "src \<noteq> []" "vfs_finddir s p src = f" "f \<noteq> 0" "is_dir s f" "f \<noteq> p"
    and "length (children s f) < 32"
  shows "\<exists>s'. cmd_mv src src w s = (sh_ok, s') \<and> f \<in> set (children s' f)"
proof -
  have pz: "p \<noteq> 0" using assms(2) fs_okD(1) [OF assms(1)] by (auto simp: node_data_Some)
  have fin: "f \<in> set (children s p)" using finddir_iff [OF assms(3,5) pz assms(8)] assms(7) by simp
  then obtain i where i: "find_slot (\<lambda>c. c = f) (children s p) = Some i"
    using find_slot_ex [of f "children s p" "\<lambda>c. c = f"] by blast
  obtain n where n: "fs_nodes s f = Some n" using kid_node [OF assms(1) fin] by blast
  then obtain e where e: "node_data s f = Some e" using node_data_ex [OF assms(1)] by blast
  let ?s = "drop_child i p s"
  obtain m where m: "fs_nodes s p = Some m" "n_inode m \<noteq> 0" using assms(2) by (auto simp: node_data_Some)
  have ne: "n_inode n \<noteq> n_inode m" using fs_okD(6) [OF assms(1) n m(1)] assms(10) by blast
  have e': "node_data ?s f = Some e" "fs_nodes ?s f = Some n" "n_inode n \<noteq> 0"
    using e n ne m by (auto simp: drop_child_def node_data_def Let_def split: if_splits)
  have kids: "d_children (the (node_data s p)) = children s p" using assms(2) by (simp add: children_def)
  have len: "length (d_children e) < 32" using assms(11) e by (simp add: children_def)
  have "cmd_mv src src w s = move_into f p f s"
    using assms(6,8,9) pz by (simp add: cmd_mv_def Let_def assms(4,7))
  moreover have "fst (move_into f p f s) = sh_ok" "f \<in> set (children (snd (move_into f p f s)) f)"
    using len e'(3) unfolding move_into_def kids i option.case Let_def e'(1,2) option.sel
    by (simp_all add: children_def node_data_def)
  ultimately show ?thesis by (metis prod.collapse)
qed

subsection \<open>Examples\<close>

text \<open>A root directory with a file \<^verbatim>\<open>a\<close> that holds one byte and an empty file \<^verbatim>\<open>b\<close>.\<close>

definition two_files :: "mem \<Rightarrow> mem fs" where
  "two_files m = \<lparr>fs_nodes = [0x300010 \<mapsto> \<lparr>n_name = slash # replicate 63 0, n_flags = VFS_DIR,
         n_length = 0, n_inode = 0x300080, n_parent = 0\<rparr>,
       0x300120 \<mapsto> \<lparr>n_name = 97 # replicate 63 0, n_flags = VFS_FILE, n_length = 1, n_inode = 0x300190, n_parent = 0x300010\<rparr>,
       0x300230 \<mapsto> \<lparr>n_name = 98 # replicate 63 0, n_flags = VFS_FILE, n_length = 0, n_inode = 0x3002A0, n_parent = 0x300010\<rparr>],
     fs_datas = [0x300080 \<mapsto> \<lparr>d_buf = None, d_capacity = 0, d_children = [0x300120, 0x300230]\<rparr>,
       0x300190 \<mapsto> \<lparr>d_buf = Some (7 # replicate 4095 0), d_capacity = 4096, d_children = []\<rparr>,
       0x3002A0 \<mapsto> \<lparr>d_buf = Some (replicate 4096 0), d_capacity = 4096, d_children = []\<rparr>],
     fs_heap = m, fs_root = 0x300010, next_inode = 3\<rparr>"

lemma two_files_parts:
  "node_data (two_files m) 0x300010 = Some \<lparr>d_buf = None, d_capacity = 0, d_children = [0x300120, 0x300230]\<rparr>"
  "children (two_files m) 0x300010 = [0x300120, 0x300230]"
  "node_name (two_files m) 0x300120 = [97]" "node_name (two_files m) 0x300230 = [98]"
  "file_bytes (two_files m) 0x300120 = [7]" "is_file (two_files m) 0x300120" "is_file (two_files m) 0x300230"
  "file_cap (two_files m) 0x300230 = 4096" "\<not> is_dir (two_files m) 0x300120" "\<not> is_dir (two_files m) 0x300230"
  "vfs_resolve (two_files m) [slash] = 0x300010"
  "n_flags (the (fs_nodes (two_files m) 0x300120)) AND VFS_FILE = 1"
  by (simp_all add: two_files_def node_data_def children_def node_name_def cstr_of_def file_bytes_def is_file_def
      file_cap_def is_dir_def vfs_resolve_def VFS_DIR_def VFS_FILE_def)

lemma two_files_find:
  "vfs_finddir (two_files m) 0x300010 [97] = 0x300120" "vfs_finddir (two_files m) 0x300010 [98] = 0x300230"
  "vfs_finddir (two_files m) 0x300010 [99] = 0" "distinct_names (two_files m) 0x300010"
  by (simp_all add: vfs_finddir_def finddir_children distinct_names_def two_files_parts)

lemma two_files_ok:
  "heap_owned m = {0x300010, 0x300080, 0x300120, 0x300190, 0x300230, 0x3002A0} \<Longrightarrow> ram_ok (two_files m)"
  by (auto simp: two_files_def fs_ok_def node_ok_def data_ok_def split: if_splits)


theorem shell_cp_copies_witness:
  "\<exists>s s'. cmd_cp [97] [98] \<lparr>cwd = [slash], prev_cwd = [slash]\<rparr> s = Some (sh_ok, s') \<and> file_bytes s' 0x300230 = [7]"
proof -
  obtain m where m: "ram_ok (two_files m)" using six_blocks two_files_ok by blast
  then have "small_file (two_files m) 0x300120" by (simp add: small_file_def two_files_parts)
  then show ?thesis
    using shell_cp_copies [OF m, where w = "\<lparr>cwd = [slash], prev_cwd = [slash]\<rparr>" and p = "0x300010"
        and src = "[97]" and dst = "[98]" and f = "0x300120" and g = "0x300230"]
    by (simp add: two_files_parts two_files_find) blast
qed


end
