(* ===== verification/ShLine.thy ===== *)
theory ShLine
  imports Editor ShText Keyboard Fat12 "HOL-Library.Sublist"
begin

text \<open>
  The command line of \<^verbatim>\<open>kernel/shell.c\<close>: the buffer of 78 bytes with its cursor, the ring of 32
  history rows, completion with the tab key, the reverse search of Ctrl-R, and the prompt row.
  The rows of the history are read as C strings; the file the history is kept in goes through the
  FAT12 file system, whose sectors are a parameter as in \<open>Fat12\<close>.
\<close>

unbundle bit_operations_syntax

subsection \<open>The buffer and the history\<close>

definition CMD_BUF_SIZE :: nat where "CMD_BUF_SIZE = 78"
definition HISTORY_SIZE :: nat where "HISTORY_SIZE = 32"

lemmas line_limits [simp] = CMD_BUF_SIZE_def HISTORY_SIZE_def

record cmd_line =
  cmd_buf :: "u8 list"
  cmd_len :: nat
  cursor_pos :: nat
  history :: "u8 list list"
  history_count :: nat
  history_idx :: int

text \<open>\<^verbatim>\<open>cmd_len = 0; cursor_pos = 0; memset(cmd_buf, 0, CMD_BUF_SIZE);\<close>\<close>

definition clear_line :: "cmd_line \<Rightarrow> cmd_line" where
  "clear_line l = l\<lparr>cmd_len := 0, cursor_pos := 0, cmd_buf := replicate CMD_BUF_SIZE 0\<rparr>"

definition history_row :: "nat \<Rightarrow> cmd_line \<Rightarrow> cstr" where
  "history_row i l = cstr_of (history l ! (i mod HISTORY_SIZE))"

definition put_history :: "cstr \<Rightarrow> cmd_line \<Rightarrow> cmd_line" where
  "put_history s l =
     (let slot = history_count l mod HISTORY_SIZE
      in l\<lparr>history := (history l)[slot := copy_field (history l ! slot) s (CMD_BUF_SIZE - 1)],
           history_count := history_count l + 1\<rparr>)"

definition history_push :: "cmd_line \<Rightarrow> cmd_line" where
  "history_push l = (if cmd_len l = 0 then l else (put_history (cstr_of (cmd_buf l)) l)\<lparr>history_idx := -1\<rparr>)"

text \<open>\<^verbatim>\<open>strncpy(cmd_buf, s, CMD_BUF_SIZE - 1); cmd_len = cursor_pos = strlen(cmd_buf);\<close>\<close>

definition load_line :: "cstr \<Rightarrow> cmd_line \<Rightarrow> cmd_line" where
  "load_line s l =
     (let b = overlay (cmd_buf l) 0 (strncpy_bytes s (CMD_BUF_SIZE - 1)); n = length (cstr_of b)
      in l\<lparr>cmd_buf := b, cmd_len := n, cursor_pos := n\<rparr>)"

definition history_up :: "cmd_line \<Rightarrow> cmd_line" where
  "history_up l =
     (if history_count l = 0 then l
      else
        (let l = (if history_idx l = -1 then l\<lparr>history_idx := int (history_count l) - 1\<rparr>
                  else if history_idx l > 0 then l\<lparr>history_idx := history_idx l - 1\<rparr> else l)
         in load_line (history_row (nat (history_idx l)) l) l))"

definition history_down :: "cmd_line \<Rightarrow> cmd_line" where
  "history_down l =
     (if history_idx l = -1 then l
      else
        (let l = l\<lparr>history_idx := history_idx l + 1\<rparr>
         in if history_idx l \<ge> int (history_count l)
            then (clear_line l)\<lparr>history_idx := -1\<rparr>
            else load_line (history_row (nat (history_idx l)) l) l))"

subsection \<open>The history file\<close>

definition HISTORY_FILE :: cstr where "HISTORY_FILE = lit ''HISTORY''"

fun history_bytes :: "cstr list \<Rightarrow> u8 list \<Rightarrow> u8 list" where
  "history_bytes [] hbuf = hbuf"
| "history_bytes (h # hs) hbuf =
     (if length hbuf + length h + 1 \<ge> HISTORY_SIZE * CMD_BUF_SIZE then hbuf
      else history_bytes hs (hbuf @ h @ [10]))"

definition kept_rows :: "cmd_line \<Rightarrow> cstr list" where
  "kept_rows l =
     map (\<lambda>i. history_row i l)
       [(if history_count l > HISTORY_SIZE then history_count l - HISTORY_SIZE else 0)..<history_count l]"

definition history_save :: "'s sectors \<Rightarrow> cmd_line \<Rightarrow> 's fat \<Rightarrow> 's fat option" where
  "history_save D l s =
     (let hbuf = history_bytes (kept_rows l) []
      in if hbuf = [] then Some s else map_option snd (fat12_write D HISTORY_FILE hbuf s))"

text \<open>\<^verbatim>\<open>while (*line && history_count < HISTORY_SIZE * 2)\<close>, over the bytes before the NUL\<close>

function history_lines :: "cstr \<Rightarrow> cmd_line \<Rightarrow> cmd_line" where
  "history_lines text l =
     (if text \<noteq> [] \<and> history_count l < HISTORY_SIZE * 2 then
        (let line = takeWhile (\<lambda>c. c \<noteq> 10) text
         in history_lines (drop (length line + 1) text) (if line \<noteq> [] then put_history line l else l))
      else l)"
  by auto
termination history_lines by (relation "measure (\<lambda>(text, l). length text)") auto

declare history_lines.simps [simp del]

definition history_load :: "'s sectors \<Rightarrow> cmd_line \<Rightarrow> 's fat \<Rightarrow> (cmd_line \<times> 's fat) option" where
  "history_load D l s =
     (case fat12_read D HISTORY_FILE (of_nat (HISTORY_SIZE * CMD_BUF_SIZE) - 1) s of
        None \<Rightarrow> None
      | Some (bs, s) \<Rightarrow> Some (if bs = [] then l else history_lines (cstr_of bs) l, s))"

subsection \<open>Completion\<close>

definition tab_commands :: "cstr list" where
  "tab_commands = map lit
     [''help'', ''clear'', ''echo'', ''calc'', ''color'', ''env'', ''export'', ''unset'',
      ''uptime'', ''time'', ''mem'', ''sysinfo'', ''dmesg'', ''top'', ''ps'', ''kill'', ''spawn'',
      ''history'', ''pwd'', ''cd'', ''ls'', ''cat'', ''write'', ''mkdir'', ''find'', ''grep'',
      ''diskls'', ''diskcat'', ''diskwrite'', ''diskdel'', ''disksync'', ''chmod'',
      ''touch'', ''rm'', ''mv'', ''cp'', ''wc'', ''head'', ''tail'', ''netinfo'', ''arp'', ''ping'',
      ''udpsend'', ''date'', ''whoami'', ''hostname'', ''uname'', ''sort'', ''uniq'',
      ''proctest'', ''edit'', ''shoot'', ''about'', ''reboot'', ''halt'', ''poweroff'']"

definition tab_complete :: "cmd_line \<Rightarrow> sh_out list \<times> cmd_line" where
  "tab_complete l =
     (let l = l\<lparr>cmd_buf := (cmd_buf l)[cmd_len l := 0]\<rparr>;
          typed = cstr_of (cmd_buf l);
          matches = filter (\<lambda>c. strncmp_bytes c typed (length typed) = 0) tab_commands
      in if length matches = 1 then
           (let l = load_line (last matches) l
            in ([], if cmd_len l < CMD_BUF_SIZE - 1
                    then l\<lparr>cmd_buf := (cmd_buf l)[cmd_len l := 32], cmd_len := cmd_len l + 1,
                           cursor_pos := cmd_len l + 1\<rparr>
                    else l))
         else if length matches > 1 then
           ([Newline] @ concat (map (\<lambda>c. say_line c VGA_COLOR_LIGHT_GREY) matches), l)
         else ([], l))"

subsection \<open>The keys of the main loop\<close>

text \<open>All keys but the return key and Ctrl-R.\<close>

definition line_char :: "u8 \<Rightarrow> cmd_line \<Rightarrow> sh_out list \<times> cmd_line" where
  "line_char c l =
     (if c = 8 then
        ([], if cursor_pos l > 0
             then l\<lparr>cmd_buf := (shift_down_to (cursor_pos l - 1) (cmd_len l - 1) (cmd_buf l))[cmd_len l - 1 := 0],
                    cmd_len := cmd_len l - 1, cursor_pos := cursor_pos l - 1\<rparr>
             else l)
      else if c = 9 then tab_complete l
      else if c = ctrl CHR ''u'' then ([], clear_line l)
      else ([], if 32 \<le> c \<and> c < 127 \<and> cmd_len l < CMD_BUF_SIZE - 1
                then l\<lparr>cmd_buf := (shift_right (cursor_pos l) (cmd_len l) (cmd_buf l))[cursor_pos l := c],
                       cursor_pos := cursor_pos l + 1, cmd_len := cmd_len l + 1\<rparr>
                else l))"

definition line_key :: "term_event \<Rightarrow> cmd_line \<Rightarrow> sh_out list \<times> cmd_line" where
  "line_key ev l =
     (case ev_type ev of
        TERM_UP \<Rightarrow> ([], history_up l)
      | TERM_DOWN \<Rightarrow> ([], history_down l)
      | TERM_LEFT \<Rightarrow> ([], if cursor_pos l > 0 then l\<lparr>cursor_pos := cursor_pos l - 1\<rparr> else l)
      | TERM_RIGHT \<Rightarrow> ([], if cursor_pos l < cmd_len l then l\<lparr>cursor_pos := cursor_pos l + 1\<rparr> else l)
      | TERM_HOME \<Rightarrow> ([], l\<lparr>cursor_pos := 0\<rparr>)
      | TERM_END \<Rightarrow> ([], l\<lparr>cursor_pos := cmd_len l\<rparr>)
      | TERM_DEL \<Rightarrow> ([], if cursor_pos l < cmd_len l
           then l\<lparr>cmd_buf := (shift_down_to (cursor_pos l) (cmd_len l - 1) (cmd_buf l))[cmd_len l - 1 := 0],
                  cmd_len := cmd_len l - 1\<rparr>
           else l)
      | TERM_CHAR \<Rightarrow> line_char (ev_ch ev) l
      | _ \<Rightarrow> ([], l))"

subsection \<open>The reverse search\<close>

text \<open>\<^verbatim>\<open>for (i = n - 1; i >= 0; i--)\<close>: the newest row below \<open>n\<close> that contains the query\<close>

fun search_down :: "cmd_line \<Rightarrow> cstr \<Rightarrow> nat \<Rightarrow> int" where
  "search_down l query 0 = -1"
| "search_down l query (Suc i) =
     (if line_matches query (history_row i l) then int i else search_down l query i)"

text \<open>The keys are those \<^verbatim>\<open>keyboard_getchar\<close> gives, without the zeros the loop waits on; \<open>None\<close> is a
  search that still waits.  After Ctrl-R the loop starts again, and there the match is looked for anew.\<close>

fun ctrl_r_search :: "u8 list \<Rightarrow> cstr \<Rightarrow> cmd_line \<Rightarrow> (cmd_line \<times> u8 list) option" where
  "ctrl_r_search [] query l = None"
| "ctrl_r_search (c # keys) query l =
     (let found = (if query \<noteq> [] then search_down l query (history_count l) else -1)
      in if c = 10 then
           Some (if found \<ge> 0 then
                   (let h = history_row (nat found) l
                    in if length h < CMD_BUF_SIZE
                       then l\<lparr>cmd_buf := overlay (cmd_buf l) 0 (h @ [0]), cmd_len := length h, cursor_pos := length h\<rparr>
                       else l)
                 else l, keys)
         else if c = ctrl CHR ''r'' then
           (let found = (if found > 0 then
                           (let next = search_down l query (nat found) in if next \<ge> 0 then next else found)
                         else found)
            in ctrl_r_search keys query l)
         else if c = ctrl CHR ''c'' \<or> c = 27 then Some (clear_line l, keys)
         else if c = 8 then ctrl_r_search keys (if query \<noteq> [] then butlast query else query) l
         else if 32 \<le> c \<and> c < 127 \<and> length query < CMD_BUF_SIZE - 1 then ctrl_r_search keys (query @ [c]) l
         else ctrl_r_search keys query l)"

subsection \<open>The prompt row\<close>

definition build_prompt :: "cstr \<Rightarrow> cstr" where
  "build_prompt cwd = lit ''root'' @ [64] @ lit ''baSic_'' @ [58] @ cwd @ [35, 32]"

text \<open>The cells of the prompt with their colours, as the two loops over \<^verbatim>\<open>prompt[48]\<close> give them;
  \<open>None\<close> when the prompt and its NUL do not fit the array.\<close>

definition prompt_cells :: "cstr \<Rightarrow> (u8 \<times> u8 \<times> u8) list option" where
  "prompt_cells cwd =
     (let p = build_prompt cwd; user = takeWhile (\<lambda>c. c \<noteq> 58) p;
          path = takeWhile (\<lambda>c. c \<noteq> 35) (dropWhile (\<lambda>c. c \<noteq> 58) p)
      in if length p + 1 > 48 then None
         else Some (map (\<lambda>c. (c, VGA_COLOR_LIGHT_GREEN, VGA_COLOR_BLACK)) user @
                    map (\<lambda>c. (c, VGA_COLOR_LIGHT_CYAN, VGA_COLOR_BLACK)) path @
                    [(35, VGA_COLOR_WHITE, VGA_COLOR_BLACK), (32, VGA_COLOR_WHITE, VGA_COLOR_BLACK)]))"

fun draw_cells :: "nat \<Rightarrow> int \<Rightarrow> (u8 \<times> u8 \<times> u8) list \<Rightarrow> u16 list \<Rightarrow> u16 list" where
  "draw_cells col row [] cells = cells"
| "draw_cells col row ((c, fg, bg) # cs) cells = draw_cells (col + 1) row cs (put_cell (int col) row c fg bg cells)"

text \<open>The loop over \<^verbatim>\<open>cmd_buf\<close>, with the cell under the cursor reversed, and the cursor at the end.\<close>

definition line_cells :: "cmd_line \<Rightarrow> (u8 \<times> u8 \<times> u8) list" where
  "line_cells l =
     map (\<lambda>i. if i = cursor_pos l then (cmd_buf l ! i, VGA_COLOR_BLACK, VGA_COLOR_WHITE)
              else (cmd_buf l ! i, VGA_COLOR_WHITE, VGA_COLOR_BLACK)) [0..<cmd_len l]"

definition prompt_redraw :: "cstr \<Rightarrow> cmd_line \<Rightarrow> u16 list \<Rightarrow> u16 list option" where
  "prompt_redraw cwd l cells =
     (case prompt_cells cwd of
        None \<Rightarrow> None
      | Some prompt \<Rightarrow>
          (let cells = fill_row (int PROMPT_ROW) 32 VGA_COLOR_WHITE VGA_COLOR_BLACK cells;
               shown = take (VGA_WIDTH - 1 - length prompt) (line_cells l);
               cells = draw_cells 0 (int PROMPT_ROW) (prompt @ shown) cells;
               col = length prompt + length shown
           in Some (if cursor_pos l \<ge> cmd_len l \<and> col < VGA_WIDTH
                    then put_cell (int col) (int PROMPT_ROW) 32 VGA_COLOR_BLACK VGA_COLOR_LIGHT_GREY cells
                    else cells)))"

definition echo_input :: "cstr \<Rightarrow> cmd_line \<Rightarrow> terminal \<Rightarrow> terminal option" where
  "echo_input cwd l t =
     (case prompt_cells cwd of
        None \<Rightarrow> None
      | Some prompt \<Rightarrow>
          (let t = shell_newline t;
               shown = take (VGA_WIDTH - length prompt)
                         (map (\<lambda>i. (cmd_buf l ! i, VGA_COLOR_WHITE, VGA_COLOR_BLACK)) [0..<cmd_len l])
           in Some (t\<lparr>t_fb := draw_cells 0 (int (shell_row t)) (prompt @ shown) (t_fb t)\<rparr>)))"

subsection \<open>The line as a text with a cursor\<close>

definition line_text :: "cmd_line \<Rightarrow> cstr" where
  "line_text l = take (cmd_len l) (cmd_buf l)"

definition line_ok :: "cmd_line \<Rightarrow> bool" where
  "line_ok l \<longleftrightarrow> length (cmd_buf l) = 78 \<and> cmd_len l \<le> 77 \<and> cursor_pos l \<le> cmd_len l \<and> is_cstr (line_text l) \<and>
     cmd_buf l ! 77 = 0 \<and> length (history l) = 32 \<and> (\<forall>r \<in> set (history l). length r = 78 \<and> r ! 77 = 0) \<and>
     -1 \<le> history_idx l \<and> history_idx l < int (history_count l)"

text \<open>The bytes behind the line are zero.\<close>

definition clean :: "cmd_line \<Rightarrow> bool" where
  "clean l \<longleftrightarrow> (\<forall>i. cmd_len l \<le> i \<longrightarrow> i < 78 \<longrightarrow> cmd_buf l ! i = 0)"

text \<open>What a key means for the text and the cursor.\<close>

definition doc_line_char :: "u8 \<Rightarrow> cstr \<times> nat \<Rightarrow> cstr \<times> nat" where
  "doc_line_char c = (\<lambda>(t, k).
     if c = 8 then (if k = 0 then (t, k) else (take (k - 1) t @ drop k t, k - 1))
     else if c = ctrl CHR ''u'' then ([], 0)
     else if 32 \<le> c \<and> c < 127 \<and> length t < 77 then (take k t @ [c] @ drop k t, k + 1)
     else (t, k))"

definition doc_line_key :: "term_event \<Rightarrow> cstr \<times> nat \<Rightarrow> cstr \<times> nat" where
  "doc_line_key ev = (\<lambda>(t, k).
     case ev_type ev of
       TERM_LEFT \<Rightarrow> (t, k - 1)
     | TERM_RIGHT \<Rightarrow> (t, min (k + 1) (length t))
     | TERM_HOME \<Rightarrow> (t, 0)
     | TERM_END \<Rightarrow> (t, length t)
     | TERM_DEL \<Rightarrow> (take k t @ drop (k + 1) t, k)
     | TERM_CHAR \<Rightarrow> doc_line_char (ev_ch ev) (t, k)
     | _ \<Rightarrow> (t, k))"

lemma line_okD:
  assumes "line_ok l"
  shows "length (cmd_buf l) = 78" "cmd_len l \<le> 77" "cursor_pos l \<le> cmd_len l" "is_cstr (line_text l)"
    "length (history l) = 32" "length (line_text l) = cmd_len l" "cmd_buf l ! 77 = 0"
  using assms by (auto simp: line_ok_def line_text_def)

lemma delete_at:
  assumes "length b = 78" "n \<le> 77" "k < n"
  shows "take (n - 1) ((shift_down_to k (n - 1) b)[n - 1 := 0]) = take k (take n b) @ drop (k + 1) (take n b)"
proof (rule nth_equalityI)
  show "length (take (n - 1) ((shift_down_to k (n - 1) b)[n - 1 := 0])) =
      length (take k (take n b) @ drop (k + 1) (take n b))"
    using assms by simp
  fix i assume "i < length (take (n - 1) ((shift_down_to k (n - 1) b)[n - 1 := 0]))"
  then show "take (n - 1) ((shift_down_to k (n - 1) b)[n - 1 := 0]) ! i =
      (take k (take n b) @ drop (k + 1) (take n b)) ! i"
    using assms by (auto simp: nth_shift_down_to nth_append)
qed

lemma delete_clean:
  assumes "length b = 78" "n \<le> 77" "k < n" "\<forall>i. n \<le> i \<longrightarrow> i < 78 \<longrightarrow> b ! i = 0" "n - 1 \<le> i" "i < 78"
  shows "(shift_down_to k (n - 1) b)[n - 1 := 0] ! i = (0 :: u8)"
  using assms by (cases "i = n - 1") (simp_all add: nth_shift_down_to)

lemma cstr_parts: "is_cstr (a @ b) \<longleftrightarrow> is_cstr a \<and> is_cstr b" "is_cstr (c # b) \<longleftrightarrow> c \<noteq> 0 \<and> is_cstr b"
  "is_cstr t \<Longrightarrow> is_cstr (drop k t)"
  by (auto simp: is_cstr_def dest: in_set_dropD)

text \<open>Deleting the byte at \<open>k\<close>, moving the cursor to \<open>j\<close>.\<close>

lemma delete_step:
  assumes ok: "line_ok l" and k: "k < cmd_len l" and j: "j < cmd_len l"
  defines "l' \<equiv> l\<lparr>cmd_buf := (shift_down_to k (cmd_len l - 1) (cmd_buf l))[cmd_len l - 1 := 0],
    cmd_len := cmd_len l - 1, cursor_pos := j\<rparr>"
  shows "line_ok l' \<and> (clean l \<longrightarrow> clean l') \<and> line_text l' = take k (line_text l) @ drop (k + 1) (line_text l)"
proof -
  note d = line_okD [OF ok]
  have t: "line_text l' = take k (line_text l) @ drop (k + 1) (line_text l)"
    using delete_at [OF d(1,2) k] by (simp add: l'_def line_text_def)
  have "is_cstr (line_text l')" unfolding t using d(4) by (simp add: cstr_parts is_cstr_take)
  moreover have "clean l'" if "clean l"
    using that delete_clean [OF d(1,2) k] by (simp add: clean_def l'_def)
  moreover have "cmd_buf l' ! 77 = 0"
    using d(1,2,7) k by (auto simp: l'_def nth_list_update nth_shift_down_to)
  moreover have "cmd_len l - 1 \<le> 77" "j \<le> cmd_len l - 1" using d(2) j by linarith+
  ultimately show ?thesis using t ok by (simp add: line_ok_def) (simp add: l'_def)
qed

lemma insert_step:
  assumes ok: "line_ok l" and n: "cmd_len l < 77" and c: "c \<noteq> 0"
  defines "l' \<equiv> l\<lparr>cmd_buf := (shift_right (cursor_pos l) (cmd_len l) (cmd_buf l))[cursor_pos l := c],
    cursor_pos := cursor_pos l + 1, cmd_len := cmd_len l + 1\<rparr>"
  shows "line_ok l' \<and> (clean l \<longrightarrow> clean l') \<and>
    line_text l' = take (cursor_pos l) (line_text l) @ [c] @ drop (cursor_pos l) (line_text l)"
proof -
  note d = line_okD [OF ok]
  have t: "line_text l' = take (cursor_pos l) (line_text l) @ [c] @ drop (cursor_pos l) (line_text l)"
    using shift_right_insert [of "cursor_pos l" "cmd_len l" "cmd_buf l" c] d(1-3) n
    by (simp add: l'_def line_text_def min_def)
  have "is_cstr (line_text l')" unfolding t using d(4) c by (simp add: cstr_parts is_cstr_take)
  moreover have "clean l'" if "clean l"
    using that d(1-3) n by (auto simp: clean_def l'_def nth_shift_right nth_list_update)
  moreover have "cmd_buf l' ! 77 = 0"
    using d(1-3,7) n by (simp add: l'_def nth_list_update nth_shift_right)
  ultimately show ?thesis using t ok n by (simp add: line_ok_def) (simp add: l'_def)
qed

lemma clear_step: "line_ok l \<Longrightarrow> line_ok (clear_line l) \<and> clean (clear_line l) \<and> line_text (clear_line l) = []"
  by (simp add: line_ok_def clear_line_def clean_def line_text_def is_cstr_def)

lemma load_step:
  assumes ok: "line_ok l" and s: "is_cstr s" "length s \<le> 77"
  shows "line_ok (load_line s l) \<and> clean (load_line s l) \<and> line_text (load_line s l) = s \<and>
    cursor_pos (load_line s l) = length s"
proof -
  note d = line_okD [OF ok]
  define b where "b = overlay (cmd_buf l) 0 (strncpy_bytes s 77)"
  have b: "b = s @ replicate (78 - length s) 0"
  proof (cases "length s < 77")
    case True
    then have "78 - length s = Suc (77 - length s)" by simp
    then show ?thesis using d(1) True by (simp add: b_def strncpy_bytes_def overlay_0 del: replicate_Suc)
  next
    case False
    have "drop 77 (cmd_buf l) = [0]"
      using d(1,7) by (intro nth_equalityI) auto
    then show ?thesis using False s by (simp add: b_def strncpy_bytes_def overlay_0)
  qed
  obtain m where m: "78 - length s = Suc m" using s(2) by (cases "78 - length s") auto
  have n: "cstr_of b = s" using s(1) unfolding b m replicate_Suc by simp
  have len: "length b = 78" using s(2) by (simp add: b)
  have z: "b ! i = 0" if "length s \<le> i" "i < 78" for i
    using that by (simp add: b nth_append)
  have e: "load_line s l = l\<lparr>cmd_buf := b, cmd_len := length s, cursor_pos := length s\<rparr>"
    by (simp add: load_line_def b_def [symmetric] n Let_def)
  have "line_text (load_line s l) = s" by (simp add: e line_text_def b)
  then show ?thesis using ok s z len by (simp add: line_ok_def clean_def) (simp add: e)
qed

lemma load_line_keeps [simp]:
  "history (load_line s l) = history l" "history_count (load_line s l) = history_count l"
  "history_idx (load_line s l) = history_idx l"
  by (simp_all add: load_line_def Let_def)

lemma history_row_ok:
  assumes "line_ok l"
  shows "is_cstr (history_row i l)" "length (history_row i l) \<le> 77"
proof -
  have "history l ! (i mod 32) \<in> set (history l)" using line_okD(5) [OF assms] by (intro nth_mem) simp
  then have r: "length (history l ! (i mod 32)) = 78" "history l ! (i mod 32) ! 77 = 0"
    using assms by (auto simp: line_ok_def)
  show "is_cstr (history_row i l)" by (simp add: history_row_def)
  have "\<not> 77 < length (cstr_of (history l ! (i mod 32)))"
  proof
    assume lt: "77 < length (cstr_of (history l ! (i mod 32)))"
    then have "history l ! (i mod 32) ! 77 = cstr_of (history l ! (i mod 32)) ! 77"
      by (simp add: cstr_of_def takeWhile_nth)
    then show False using r(2) lt nth_mem [OF lt] by (simp add: cstr_of_no_nul flip: is_cstr_def)
  qed
  then show "length (history_row i l) \<le> 77" by (simp add: history_row_def)
qed

lemma idx_ok:
  "line_ok l \<Longrightarrow> -1 \<le> i \<Longrightarrow> i < int (history_count l) \<Longrightarrow>
   line_ok (l\<lparr>history_idx := i\<rparr>) \<and> line_text (l\<lparr>history_idx := i\<rparr>) = line_text l"
  by (simp add: line_ok_def line_text_def)

lemma recall_step:
  assumes "line_ok l" "-1 \<le> i" "i < int (history_count l)"
  defines "l' \<equiv> load_line (history_row (nat i) (l\<lparr>history_idx := i\<rparr>)) (l\<lparr>history_idx := i\<rparr>)"
  shows "line_ok l' \<and> clean l' \<and> line_text l' = history_row (nat i) l \<and>
    cursor_pos l' = length (history_row (nat i) l) \<and> history_idx l' = i \<and> history l' = history l \<and>
    history_count l' = history_count l"
proof -
  have ok: "line_ok (l\<lparr>history_idx := i\<rparr>)" using idx_ok assms by blast
  have e: "history_row (nat i) (l\<lparr>history_idx := i\<rparr>) = history_row (nat i) l" by (simp add: history_row_def)
  show ?thesis
    using load_step [OF ok, of "history_row (nat i) l"] history_row_ok [OF assms(1)]
    unfolding l'_def e by simp
qed

subsection \<open>Completion\<close>

lemma starts_with:
  "is_cstr c \<Longrightarrow> is_cstr t \<Longrightarrow> strncmp_bytes c t (length t) = 0 \<longleftrightarrow> prefix t c"
  by (simp add: strncmp_bytes_prefix prefix_def) (metis append_take_drop_id append_eq_conv_conj)

lemma tab_commands_ok: "\<forall>c \<in> set tab_commands. is_cstr c \<and> length c < 77"
  by (simp add: tab_commands_def is_cstr_def lit_def)

definition completions :: "cstr \<Rightarrow> cstr list" where
  "completions t = filter (prefix t) tab_commands"

lemma end_line:
  assumes ok: "line_ok l"
  defines "l' \<equiv> l\<lparr>cmd_buf := (cmd_buf l)[cmd_len l := 0]\<rparr>"
  shows "line_ok l' \<and> (clean l \<longrightarrow> clean l') \<and> line_text l' = line_text l \<and> cstr_of (cmd_buf l') = line_text l \<and>
    cursor_pos l' = cursor_pos l"
proof -
  note d = line_okD [OF ok]
  have t: "line_text l' = line_text l" by (simp add: l'_def line_text_def)
  have "cmd_buf l' = line_text l @ 0 # drop (cmd_len l + 1) (cmd_buf l)"
    using d(1,2) by (simp add: l'_def line_text_def upd_conv_take_nth_drop)
  then have "cstr_of (cmd_buf l') = line_text l" using d(4) by simp
  then show ?thesis
    using ok t by (simp add: line_ok_def clean_def) (auto simp: l'_def nth_list_update)
qed

lemma tab_complete_cases:
  assumes ok: "line_ok l"
  defines "ms \<equiv> completions (line_text l)"
  defines "r \<equiv> tab_complete l"
  shows "line_ok (snd r) \<and> (clean l \<longrightarrow> clean (snd r)) \<and>
    (if length ms = 1 then fst r = [] \<and> line_text (snd r) = hd ms @ [32] \<and> cursor_pos (snd r) = length (hd ms) + 1
     else line_text (snd r) = line_text l \<and> cursor_pos (snd r) = cursor_pos l \<and>
       fst r = (if ms = [] then [] else [Newline] @ concat (map (\<lambda>c. say_line c VGA_COLOR_LIGHT_GREY) ms)))"
proof -
  define l0 where "l0 = l\<lparr>cmd_buf := (cmd_buf l)[cmd_len l := 0]\<rparr>"
  note E = end_line [OF ok, folded l0_def]
  have "filter (\<lambda>c. strncmp_bytes c (line_text l) (length (line_text l)) = 0) tab_commands = ms"
    using tab_commands_ok line_okD(4) [OF ok]
    unfolding ms_def completions_def by (intro filter_cong) (auto simp: starts_with)
  then have r: "r = (if length ms = 1 then
       (let l = load_line (last ms) l0
        in ([], if cmd_len l < 77 then l\<lparr>cmd_buf := (cmd_buf l)[cmd_len l := 32], cmd_len := cmd_len l + 1,
              cursor_pos := cmd_len l + 1\<rparr> else l))
     else if length ms > 1 then ([Newline] @ concat (map (\<lambda>c. say_line c VGA_COLOR_LIGHT_GREY) ms), l0)
     else ([], l0))"
    using E by (simp add: r_def tab_complete_def l0_def [symmetric] Let_def)
  show ?thesis
  proof (cases "length ms = 1")
    case True
    then obtain c where c: "ms = [c]" by (auto simp: length_Suc_conv)
    then have "c \<in> set ms" by simp
    then have "c \<in> set tab_commands" by (simp add: ms_def completions_def)
    then have cs: "is_cstr c" "length c < 77" using tab_commands_ok by auto
    define l1 where "l1 = load_line c l0"
    have L: "line_ok l1" "clean l1" "line_text l1 = c" "cursor_pos l1 = length c"
      using load_step [of l0 c] E cs by (simp_all add: l1_def)
    have n: "cmd_len l1 = length c" using line_okD(6) [OF L(1)] L(3) by simp
    define l2 where "l2 = l1\<lparr>cmd_buf := (shift_right (cursor_pos l1) (cmd_len l1) (cmd_buf l1))[cursor_pos l1 := 32],
      cursor_pos := cursor_pos l1 + 1, cmd_len := cmd_len l1 + 1\<rparr>"
    have l2: "r = ([], l2)"
    proof -
      have "shift_right (length c) (length c) (cmd_buf l1) = cmd_buf l1" by (cases "length c") simp_all
      then show ?thesis using c n L(4) cs(2) by (simp add: r l1_def [symmetric] l2_def)
    qed
    have "line_ok l2 \<and> (clean l1 \<longrightarrow> clean l2) \<and> line_text l2 = take (length c) c @ [32] @ drop (length c) c"
      using insert_step [OF L(1), of 32, folded l2_def] n cs(2) unfolding L(3,4) by simp
    then show ?thesis using L c l2 by (simp add: l2_def)
  next
    case False
    then show ?thesis using E r by (cases ms) auto
  qed
qed

subsection \<open>Every key\<close>

lemma up_cases:
  assumes ok: "line_ok l" and n: "history_count l \<noteq> 0"
  defines "i \<equiv> (if history_idx l = -1 then int (history_count l) - 1
    else if history_idx l > 0 then history_idx l - 1 else history_idx l)"
  shows "line_ok (history_up l) \<and> clean (history_up l) \<and> line_text (history_up l) = history_row (nat i) l \<and>
    cursor_pos (history_up l) = length (history_row (nat i) l) \<and> history_idx (history_up l) = i \<and>
    history (history_up l) = history l \<and> history_count (history_up l) = history_count l"
proof -
  have b: "-1 \<le> i" "i < int (history_count l)" using ok n by (auto simp: i_def line_ok_def)
  have "(if history_idx l = -1 then l\<lparr>history_idx := int (history_count l) - 1\<rparr>
      else if history_idx l > 0 then l\<lparr>history_idx := history_idx l - 1\<rparr> else l) = l\<lparr>history_idx := i\<rparr>"
    by (simp add: i_def)
  then have "history_up l = load_line (history_row (nat i) (l\<lparr>history_idx := i\<rparr>)) (l\<lparr>history_idx := i\<rparr>)"
    unfolding history_up_def Let_def using n by simp
  with recall_step [OF ok b] show ?thesis by simp
qed

lemma down_cases:
  assumes ok: "line_ok l" and n: "history_idx l \<noteq> -1"
  defines "i \<equiv> history_idx l + 1"
  shows "line_ok (history_down l) \<and> clean (history_down l) \<and>
    (if i = int (history_count l)
     then line_text (history_down l) = [] \<and> history_idx (history_down l) = -1
     else line_text (history_down l) = history_row (nat i) l \<and> history_idx (history_down l) = i) \<and>
    history (history_down l) = history l \<and> history_count (history_down l) = history_count l"
proof (cases "i = int (history_count l)")
  case True
  then have "history_down l = (clear_line (l\<lparr>history_idx := i\<rparr>))\<lparr>history_idx := -1\<rparr>"
    using n by (simp add: history_down_def i_def)
  also have "\<dots> = (clear_line l)\<lparr>history_idx := -1\<rparr>" by (simp add: clear_line_def)
  finally show ?thesis
    using True clear_step [OF ok] idx_ok [of "clear_line l" "-1"]
    by (simp add: clean_def) (simp add: clear_line_def)
next
  case False
  then have b: "-1 \<le> i" "i < int (history_count l)" using ok n by (auto simp: i_def line_ok_def)
  then have "history_down l = load_line (history_row (nat i) (l\<lparr>history_idx := i\<rparr>)) (l\<lparr>history_idx := i\<rparr>)"
    using n by (simp add: history_down_def i_def Let_def)
  with recall_step [OF ok b] False show ?thesis by simp
qed

lemma line_char_step:
  fixes c :: u8
  assumes ok: "line_ok l"
  defines "l' \<equiv> snd (line_char c l)"
  shows "line_ok l' \<and> (clean l \<longrightarrow> clean l') \<and>
    (c \<noteq> 9 \<longrightarrow> (line_text l', cursor_pos l') = doc_line_char c (line_text l, cursor_pos l))"
proof -
  note d = line_okD [OF ok]
  consider "c = 8" | "c = 9" | "c = ctrl CHR ''u''" "c \<noteq> 8" "c \<noteq> 9" | "c \<noteq> 8" "c \<noteq> 9" "c \<noteq> ctrl CHR ''u''" by blast
  then show ?thesis
  proof cases
    case 1
    show ?thesis
    proof (cases "cursor_pos l = 0")
      case False
      then have "cursor_pos l - 1 < cmd_len l" using d(3) by simp
      from delete_step [OF ok this this] show ?thesis
        using 1 False by (simp add: l'_def line_char_def doc_line_char_def)
    qed (use 1 ok in \<open>simp add: l'_def line_char_def doc_line_char_def\<close>)
  next
    case 2
    then show ?thesis using tab_complete_cases [OF ok] by (simp add: l'_def line_char_def)
  next
    case 3
    have "cursor_pos (clear_line l) = 0" by (simp add: clear_line_def)
    then show ?thesis using 3 clear_step [OF ok] by (simp add: l'_def line_char_def doc_line_char_def)
  next
    case 4
    show ?thesis
    proof (cases "32 \<le> c \<and> c < 127 \<and> cmd_len l < 77")
      case True
      then have "c \<noteq> 0" by auto
      with insert_step [OF ok, of c] True 4 show ?thesis
        by (simp add: l'_def line_char_def doc_line_char_def d(6))
    next
      case False
      then have "doc_line_char c (line_text l, cursor_pos l) = (line_text l, cursor_pos l)"
        using 4 by (auto simp: doc_line_char_def d(6))
      then show ?thesis using False 4 ok by (auto simp: l'_def line_char_def)
    qed
  qed
qed


subsection \<open>The history as the list of all lines\<close>

text \<open>\<open>H\<close> is everything ever entered; the ring holds its last 32 lines.\<close>

definition hist_rel :: "cmd_line \<Rightarrow> cstr list \<Rightarrow> bool" where
  "hist_rel l H \<longleftrightarrow> history_count l = length H \<and>
     (\<forall>i < length H. length H \<le> i + 32 \<longrightarrow> history_row i l = H ! i)"

lemma mod_32_other:
  assumes "i < n" "n < i + (32 :: nat)"
  shows "i mod 32 \<noteq> n mod 32"
proof
  assume "i mod 32 = n mod 32"
  then have "32 dvd n - i" using assms(1) by (metis less_imp_le mod_eq_dvd_iff_nat)
  then show False using assms by (auto dest: dvd_imp_le)
qed

lemma put_history_line:
  assumes ok: "line_ok l"
  shows "line_ok (put_history s l)"
proof -
  let ?k = "history_count l mod 32"
  have "?k < length (history l)" using line_okD(5) [OF ok] by simp
  then have len: "length (history l ! ?k) = Suc 77" using ok by (auto simp: line_ok_def)
  then have z: "copy_field (history l ! ?k) s 77 ! 77 = 0"
    using length_overlay [of 0 "strncpy_bytes s 77" "history l ! ?k"] length_strncpy_bytes_le [of s 77]
    by (simp add: copy_field_def)
  show ?thesis
    using ok z len by (auto simp: put_history_def Let_def line_ok_def line_text_def dest!: set_update_cases)
qed

lemma put_history_ok:
  assumes ok: "line_ok l" and s: "is_cstr s" "length s \<le> 77"
  shows "line_ok (put_history s l)" "hist_rel l H \<Longrightarrow> hist_rel (put_history s l) (H @ [s])"
proof -
  let ?k = "history_count l mod 32"
  let ?r = "copy_field (history l ! ?k) s 77"
  have k: "?k < length (history l)" using line_okD(5) [OF ok] by simp
  have len: "length (history l ! ?k) = Suc 77" using ok nth_mem [OF k] by (auto simp: line_ok_def)
  have e: "put_history s l = l\<lparr>history := (history l)[?k := ?r], history_count := history_count l + 1\<rparr>"
    by (simp add: put_history_def Let_def)
  have r: "cstr_of ?r = s" using s len by simp
  show "line_ok (put_history s l)" by (rule put_history_line [OF ok])
  show "hist_rel (put_history s l) (H @ [s])" if "hist_rel l H"
  proof -
    have n: "history_count l = length H" using that by (simp add: hist_rel_def)
    have "history_row i (put_history s l) = (H @ [s]) ! i" if i: "i < length H + 1" "length H + 1 \<le> i + 32" for i
    proof (cases "i = length H")
      case True
      then show ?thesis using k r n by (simp add: history_row_def e)
    next
      case False
      then have lt: "i < length H" using i(1) by simp
      then have "i mod 32 \<noteq> ?k" using mod_32_other [of i "length H"] i(2) n by simp
      then have "history_row i (put_history s l) = history_row i l" by (simp add: history_row_def e)
      also have "\<dots> = H ! i" using \<open>hist_rel l H\<close> lt i(2) by (simp add: hist_rel_def)
      finally show ?thesis using lt by (simp add: nth_append)
    qed
    then show ?thesis by (simp add: hist_rel_def e n)
  qed
qed

lemma clean_cstr_of:
  assumes "line_ok l" "clean l"
  shows "cstr_of (cmd_buf l) = line_text l"
proof -
  note d = line_okD [OF assms(1)]
  have "(cmd_buf l)[cmd_len l := 0] = cmd_buf l"
    using assms(2) d(1,2) by (intro nth_equalityI) (auto simp: clean_def nth_list_update)
  with end_line [OF assms(1)] show ?thesis by simp
qed

lemma history_push_rel:
  assumes "line_ok l" "clean l" "hist_rel l H" "line_text l \<noteq> []"
  shows "hist_rel (history_push l) (H @ [line_text l])" "line_ok (history_push l)"
    "line_text (history_push l) = line_text l" "history_idx (history_push l) = -1"
proof -
  have ne: "cmd_len l \<noteq> 0" using line_okD(6) [OF assms(1)] assms(4) by (cases "line_text l") auto
  have e: "history_push l = (put_history (line_text l) l)\<lparr>history_idx := -1\<rparr>"
    using ne clean_cstr_of [OF assms(1,2)] by (simp add: history_push_def)
  have s: "is_cstr (line_text l)" "length (line_text l) \<le> 77" using line_okD [OF assms(1)] by auto
  note P = put_history_ok [OF assms(1) s]
  show "hist_rel (history_push l) (H @ [line_text l])"
    using P(2) [OF assms(3)] by (simp add: e hist_rel_def history_row_def)
  show "line_ok (history_push l)" using idx_ok [OF P(1), of "-1"] by (simp add: e)
  show "line_text (history_push l) = line_text l" "history_idx (history_push l) = -1"
    by (simp_all add: e line_text_def put_history_def Let_def)
qed

lemma ups:
  assumes ok: "line_ok l" and idx: "history_idx l = -1"
  shows "k < history_count l \<Longrightarrow>
    line_ok ((history_up ^^ Suc k) l) \<and> history_idx ((history_up ^^ Suc k) l) = int (history_count l - Suc k) \<and>
    line_text ((history_up ^^ Suc k) l) = history_row (history_count l - Suc k) l \<and>
    history ((history_up ^^ Suc k) l) = history l \<and> history_count ((history_up ^^ Suc k) l) = history_count l"
proof (induction k)
  case 0
  then show ?case using up_cases [OF ok] idx by (simp add: nat_diff_distrib')
next
  case (Suc k)
  let ?u = "(history_up ^^ Suc k) l"
  have IH: "line_ok ?u" "history_idx ?u = int (history_count l - Suc k)" "history ?u = history l"
    "history_count ?u = history_count l" using Suc by simp_all
  have pos: "history_idx ?u \<noteq> -1" "history_idx ?u > 0" "history_count ?u \<noteq> 0" using IH Suc.prems by simp_all
  have i: "nat (history_idx ?u - 1) = history_count l - Suc (Suc k)" "history_idx ?u - 1 = int (history_count l - Suc (Suc k))"
    using IH(2) Suc.prems by simp_all
  have row: "history_row j ?u = history_row j l" for j by (simp only: history_row_def IH(3))
  have "(history_up ^^ Suc (Suc k)) l = history_up ?u" by simp
  then show ?case
    using up_cases [OF IH(1) pos(3)] pos(1,2) unfolding row i(2) [symmetric] i(1) [symmetric] IH(3,4) by simp
qed

text \<open>
  The history of the shell: with the ring holding the last lines of everything entered, entering a
  line appends it; and pressing Up \<open>k\<close> times from a fresh line, for every \<open>k\<close> up to the number of
  lines kept, shows the \<open>k\<close>-th line from the end, and Down after that the one following it or an
  empty line.
\<close>

lemma shell_history_recall:
  assumes "line_ok l" "hist_rel l H" "history_idx l = -1"
  shows "(clean l \<and> line_text l \<noteq> [] \<longrightarrow> hist_rel (history_push l) (H @ [line_text l])) \<and>
    (\<forall>k. 1 \<le> k \<and> k \<le> length H \<and> k \<le> 32 \<longrightarrow>
       line_text ((history_up ^^ k) l) = H ! (length H - k) \<and>
       line_text (history_down ((history_up ^^ k) l)) = (if k = 1 then [] else H ! (length H - k + 1)))"
proof (intro conjI impI allI)
  assume "clean l \<and> line_text l \<noteq> []"
  then show "hist_rel (history_push l) (H @ [line_text l])" using history_push_rel(1) assms by blast
next
  fix k assume k: "1 \<le> k \<and> k \<le> length H \<and> k \<le> 32"
  then obtain j where j: "k = Suc j" by (cases k) auto
  have n: "history_count l = length H" using assms(2) by (simp add: hist_rel_def)
  let ?u = "(history_up ^^ k) l"
  have U: "line_ok ?u" "history_idx ?u = int (length H - k)" "line_text ?u = history_row (length H - k) l"
    "history ?u = history l" "history_count ?u = length H"
    using ups [OF assms(1,3), of j] k j n by simp_all
  have row: "history_row i ?u = history_row i l" for i by (simp only: history_row_def U(4))
  have H: "history_row i l = H ! i" if "i < length H" "length H - k \<le> i" for i
  proof -
    have "length H \<le> i + 32" using that(2) k by linarith
    then show ?thesis using assms(2) that(1) by (simp add: hist_rel_def)
  qed
  have "length H - k < length H" using k by linarith
  then show "line_text ?u = H ! (length H - k)" using U(3) H by simp
  have "history_idx ?u \<noteq> -1" using U(2) by simp
  note D = down_cases [OF U(1) this]
  show "line_text (history_down ?u) = (if k = 1 then [] else H ! (length H - k + 1))"
  proof (cases "k = 1")
    case True
    then show ?thesis using D U(2,5) k by (simp add: of_nat_diff)
  next
    case False
    then have ne: "history_idx ?u + 1 \<noteq> int (history_count ?u)" using U(2,5) k by simp
    have nat: "nat (history_idx ?u + 1) = length H - k + 1" using U(2) by simp
    have "length H - k + 1 < length H" using k False by linarith
    then show ?thesis using D ne False H [of "length H - k + 1"] unfolding nat row by simp
  qed
qed

text \<open>Going up further than the ring is long shows newer lines again.\<close>

lemma history_up_past_ring:
  assumes "line_ok l" "hist_rel l H" "history_idx l = -1" "32 < k" "k \<le> 64" "k \<le> length H"
  shows "line_text ((history_up ^^ k) l) = H ! (length H - k + 32)"
proof -
  obtain j where j: "k = Suc j" using assms(4) by (cases k) auto
  have n: "history_count l = length H" using assms(2) by (simp add: hist_rel_def)
  have "line_text ((history_up ^^ k) l) = history_row (length H - k) l"
    using ups [OF assms(1,3), of j] j n assms(6) by simp
  also have "\<dots> = history_row (length H - k + 32) l" by (simp add: history_row_def)
  also have "\<dots> = H ! (length H - k + 32)" using assms by (simp add: hist_rel_def)
  finally show ?thesis .
qed

text \<open>
  The tab key completes exactly when one command of the list starts with the line: the line
  becomes that command and a space.  When several do, they are printed and the line stays; when
  none does, nothing happens.
\<close>

lemma shell_tab_completes:
  assumes "line_ok l" "ev_type ev = TERM_CHAR" "ev_ch ev = 9"
  shows "let ms = filter (prefix (line_text l)) tab_commands; (out, l') = line_key ev l
    in (case ms of
        [] \<Rightarrow> out = [] \<and> line_text l' = line_text l
      | [c] \<Rightarrow> out = [] \<and> line_text l' = c @ [32] \<and> cursor_pos l' = length c + 1
      | _ \<Rightarrow> out = [Newline] @ concat (map (\<lambda>c. say_line c VGA_COLOR_LIGHT_GREY) ms) \<and> line_text l' = line_text l)"
proof -
  have "line_key ev l = tab_complete l" using assms(2,3) by (simp add: line_key_def line_char_def)
  then show ?thesis
    using tab_complete_cases [OF assms(1), unfolded completions_def]
    by (cases "tab_complete l") (auto simp: Let_def split: list.splits)
qed

subsection \<open>The reverse search\<close>

lemma search_down_newest:
  "search_down l q n = (if \<exists>i < n. line_matches q (history_row i l)
    then int (GREATEST i. i < n \<and> line_matches q (history_row i l)) else -1)"
proof (induction n)
  case (Suc n)
  show ?case
  proof (cases "line_matches q (history_row n l)")
    case True
    have "(GREATEST i. i < Suc n \<and> line_matches q (history_row i l)) = n"
      using True by (intro Greatest_equality) auto
    then show ?thesis using True by auto
  next
    case False
    then have "i < Suc n \<and> line_matches q (history_row i l) \<longleftrightarrow> i < n \<and> line_matches q (history_row i l)" for i
      by (metis less_Suc_eq)
    then show ?thesis using False Suc by auto
  qed
qed simp

text \<open>Ctrl-R during a search has no effect: the older match it finds is forgotten at once.\<close>

lemma ctrl_r_again_ignored: "ctrl_r_search (ctrl CHR ''r'' # keys) query l = ctrl_r_search keys query l"
  by (simp add: ctrl_def Let_def)

text \<open>Accepting a match copies it over the line without clearing what was there: the bytes behind
  it stay, and the next letter typed makes them part of what goes to the history.\<close>

lemma search_leaves_old_bytes:
  "\<exists>l l' k. line_ok l \<and> clean l \<and> ctrl_r_search [108, 10] [] l = Some (l', []) \<and>
     line_text (snd (line_char 120 l')) = lit ''lsx'' \<and>
     history_row 1 (history_push (snd (line_char 120 l'))) = lit ''lsxd''"
proof -
  define r where "r = [108, 115 :: u8] @ replicate 76 0"
  define l where "l = \<lparr>cmd_buf = [97, 98, 99, 100] @ replicate 74 0, cmd_len = 4, cursor_pos = 4,
    history = r # replicate 31 (replicate 78 0), history_count = 1, history_idx = -1\<rparr>"
  define l' where "l' = l\<lparr>cmd_buf := [108, 115, 0, 100] @ replicate 74 0, cmd_len := 2, cursor_pos := 2\<rparr>"
  have row: "history_row 0 l = [108, 115]" by (simp add: history_row_def l_def r_def cstr_of_def)
  have "line_matches [108] [108, 115]"
    by (simp add: line_matches_def strncmp_bytes_def upt_rec)
  then have run: "ctrl_r_search [108, 10] [] l = Some (l', [])"
    using row by (simp add: l'_def ctrl_def Let_def) (simp add: l_def overlay_0)
  have sr: "shift_right 2 2 xs = xs" for xs :: "u8 list" by (simp add: numeral_2_eq_2)
  define m where "m = snd (line_char 120 l')"
  have m: "m = l'\<lparr>cmd_buf := [108, 115, 120, 100] @ replicate 74 0, cursor_pos := 3, cmd_len := 3\<rparr>"
    by (simp add: m_def line_char_def l'_def ctrl_def sr)
  have "line_text m = lit ''lsx''" by (simp add: m line_text_def lit_def)
  moreover have "history_row 1 (history_push m) = lit ''lsxd''"
  proof -
    have e: "cstr_of (cmd_buf m) = [108, 115, 120, 100]" by (simp add: m cstr_of_def)
    have "history_row 1 (history_push m) = cstr_of (copy_field (replicate 78 0) [108, 115, 120, 100] 77)"
      unfolding history_push_def e by (simp add: history_row_def put_history_def) (simp add: m l'_def l_def)
    also have "\<dots> = [108, 115, 120, 100]" by (subst cstr_of_copy_field) (simp_all add: is_cstr_def)
    finally show ?thesis by (simp add: lit_def)
  qed
  moreover have "line_ok l"
    by (simp add: line_ok_def l_def line_text_def is_cstr_def r_def)
  moreover have "clean l"
    by (auto simp: clean_def l_def nth_append)
  ultimately show ?thesis using run unfolding m_def by blast
qed

subsection \<open>The history file\<close>

lemma history_bytes_all:
  "length b + length (concat (map (\<lambda>h. h @ [10]) hs)) < 2496 \<Longrightarrow>
   history_bytes hs b = b @ concat (map (\<lambda>h. h @ [10]) hs)"
  by (induction hs arbitrary: b) simp_all

lemma history_lines_join:
  "\<forall>h \<in> set hs. is_cstr h \<and> h \<noteq> [] \<and> 10 \<notin> set h \<and> length h \<le> 77 \<Longrightarrow> line_ok l \<Longrightarrow> hist_rel l H \<Longrightarrow>
   length H + length hs \<le> 64 \<Longrightarrow>
   hist_rel (history_lines (concat (map (\<lambda>h. h @ [10]) hs)) l) (H @ hs)"
proof (induction hs arbitrary: l H)
  case Nil
  then show ?case by (subst history_lines.simps) simp
next
  case (Cons h hs)
  have h: "is_cstr h" "length h \<le> 77" "h \<noteq> []" "10 \<notin> set h" using Cons.prems(1) by simp_all
  have tw: "takeWhile (\<lambda>c. c \<noteq> 10) (h @ 10 # xs) = h" for xs
    using h(4) by (subst takeWhile_append2) auto
  have c: "history_count l < 64" using Cons.prems(3,4) by (simp add: hist_rel_def)
  have "history_lines (concat (map (\<lambda>h. h @ [10]) (h # hs))) l =
      history_lines (concat (map (\<lambda>h. h @ [10]) hs)) (put_history h l)"
    using c h(3) by (subst history_lines.simps) (simp add: tw)
  moreover have "hist_rel (history_lines (concat (map (\<lambda>h. h @ [10]) hs)) (put_history h l)) ((H @ [h]) @ hs)"
    using Cons put_history_ok [OF Cons.prems(2) h(1,2)] by (intro Cons.IH) auto
  ultimately show ?case by simp
qed

text \<open>What \<^verbatim>\<open>history_save\<close> writes, \<^verbatim>\<open>history_load\<close> reads back as the same lines.\<close>

lemma history_file_roundtrip:
  assumes "\<forall>h \<in> set hs. is_cstr h \<and> h \<noteq> [] \<and> 10 \<notin> set h \<and> length h \<le> 77" "length hs \<le> 32"
    and "length (concat (map (\<lambda>h. h @ [10]) hs)) < 2496" "line_ok l" "history_count l = 0"
  shows "hist_rel (history_lines (history_bytes hs []) l) hs"
  using history_lines_join [OF assms(1,4), of "[]"] history_bytes_all [of "[]" hs] assms(2,3,5)
  by (simp add: hist_rel_def)

subsection \<open>The prompt row\<close>

text \<open>The prompt overflows its array of 48 bytes when the working directory has more than 33
  characters.\<close>

lemma prompt_overflow: "prompt_cells cwd = None \<longleftrightarrow> length cwd > 33"
  by (simp add: prompt_cells_def build_prompt_def Let_def)

subsection \<open>Examples\<close>

definition sample_line :: cmd_line where
  "sample_line = \<lparr>cmd_buf = lit ''uni'' @ replicate 75 0, cmd_len = 3, cursor_pos = 3,
     history = replicate 32 (replicate 78 0), history_count = 0, history_idx = -1\<rparr>"

lemma sample_line_ok: "line_ok sample_line" "clean sample_line" "line_text sample_line = lit ''uni''"
  "hist_rel sample_line []"
  by (auto simp: line_ok_def sample_line_def line_text_def is_cstr_def clean_def nth_append lit_def hist_rel_def)


lemma shell_history_recall_witness:
  "\<exists>l. line_text ((history_up ^^ 1) l) = lit ''uni''"
proof -
  note P = history_push_rel [OF sample_line_ok(1,2,4)]
  have ne: "line_text sample_line \<noteq> []" by (simp add: sample_line_ok)
  show ?thesis
    using shell_history_recall [OF P(2) P(1) P(4), THEN conjunct2, rule_format, of 1] ne sample_line_ok(3)
    by (intro exI [of _ "history_push sample_line"]) simp
qed

lemma shell_tab_completes_witness:
  "line_text (snd (line_key \<lparr>ev_type = TERM_CHAR, ev_ch = 9\<rparr> sample_line)) = lit ''uniq ''"
proof -
  have "filter (prefix (lit ''uni'')) tab_commands = [lit ''uniq'']"
    by (simp add: tab_commands_def lit_def)
  then show ?thesis
    using shell_tab_completes [OF sample_line_ok(1), of "\<lparr>ev_type = TERM_CHAR, ev_ch = 9\<rparr>"]
    by (auto simp: sample_line_ok Let_def lit_def split: prod.splits)
qed

end
