(* ===== verification/DiskSync.thy ===== *)
theory DiskSync
  imports Ramfs Env Disk
begin

text \<open>
  \<^verbatim>\<open>kernel/disksync.c\<close>: the table of aliases, the boot path and the configuration that is run at boot.
  The configuration is a text constant of the source; \<open>run_config\<close> runs any text.  The names in the
  alias table are C strings in arrays whose last byte is never written.
\<close>

unbundle bit_operations_syntax

subsection \<open>Lines of a text\<close>

text \<open>\<^verbatim>\<open>while (*line) { end = line; while (*end && *end != '\n') end++; body(line); line = *end ? end + 1 : end; }\<close>\<close>

function text_lines :: "cstr \<Rightarrow> cstr list" where
  "text_lines t =
     (if t = [] then []
      else (let line = takeWhile (\<lambda>c. c \<noteq> 10) t in line # text_lines (drop (length line + 1) t)))"
  by auto
termination text_lines by (relation "measure length") auto

declare text_lines.simps [simp del]

lemma text_lines_Nil [simp]: "text_lines [] = []"
  by (simp add: text_lines.simps)

lemma text_lines_line: "10 \<notin> set l \<Longrightarrow> text_lines (l @ 10 # t) = l # text_lines t"
proof -
  assume "10 \<notin> set l"
  then have "takeWhile (\<lambda>c. c \<noteq> 10) (l @ 10 # t) = l" by (subst takeWhile_append2) auto
  then show ?thesis by (subst text_lines.simps) simp
qed

lemma text_lines_join:
  "\<forall>l \<in> set ls. 10 \<notin> set l \<Longrightarrow> text_lines (concat (map (\<lambda>l. l @ [10]) ls)) = ls"
  by (induction ls) (simp_all add: text_lines_line)

text \<open>Nothing is lost: joining the lines with line breaks gives the t back, up to a final one.\<close>

lemma text_lines_concat:
  "concat (map (\<lambda>l. l @ [10]) (text_lines t)) = (if t = [] \<or> last t = 10 then t else t @ [10])"
proof (induction t rule: text_lines.induct)
  case (1 t)
  show ?case
  proof (cases "t = []")
    case False
    define l where "l = takeWhile (\<lambda>c. c \<noteq> 10) t"
    define rest where "rest = drop (length l + 1) t"
    note IH = 1 [OF False refl, folded l_def rest_def]
    have e: "text_lines t = l # text_lines rest"
      using False by (subst text_lines.simps) (simp add: l_def rest_def Let_def)
    show ?thesis
    proof (cases "length l < length t")
      case True
      have "t ! length l = 10"
        using nth_length_takeWhile [of "\<lambda>c. c \<noteq> 10" t] True by (simp add: l_def)
      moreover have "take (length l) t = l"
        by (metis l_def takeWhile_eq_take)
      ultimately have "t = l @ 10 # rest"
        using id_take_nth_drop [OF True] by (simp add: rest_def)
      then show ?thesis using IH e by simp
    next
      case False
      then have "l = t" by (metis l_def length_takeWhile_le nless_le not_less takeWhile_eq_take take_all)
      moreover have "10 \<notin> set l" by (auto simp: l_def dest: set_takeWhileD)
      ultimately show ?thesis using e \<open>t \<noteq> []\<close> by (auto simp: rest_def dest: last_in_set)
    qed
  qed simp
qed

subsection \<open>Aliases\<close>

definition ALIAS_MAX :: nat where "ALIAS_MAX = 16"
definition ALIAS_NAME_MAX :: nat where "ALIAS_NAME_MAX = 16"
definition ALIAS_CMD_MAX :: nat where "ALIAS_CMD_MAX = 64"

lemmas alias_limits [simp] = ALIAS_MAX_def ALIAS_NAME_MAX_def ALIAS_CMD_MAX_def

record alias_entry =
  al_name :: "u8 list"
  al_cmd :: "u8 list"
  al_used :: bool

definition alias_hit :: "cstr \<Rightarrow> alias_entry \<Rightarrow> bool" where
  "alias_hit name e \<longleftrightarrow> al_used e \<and> strcmp_bytes (cstr_of (al_name e)) name = 0"

definition alias_resolve :: "cstr \<Rightarrow> alias_entry list \<Rightarrow> cstr option" where
  "alias_resolve name t = map_option (\<lambda>i. cstr_of (al_cmd (t ! i))) (find_slot (alias_hit name) t)"

definition alias_set :: "cstr \<Rightarrow> cstr \<Rightarrow> alias_entry list \<Rightarrow> alias_entry list" where
  "alias_set name cmd t =
     (case find_slot (alias_hit name) t of
        Some i \<Rightarrow> t[i := (t ! i)\<lparr>al_cmd := overlay (al_cmd (t ! i)) 0 (strncpy_bytes cmd (ALIAS_CMD_MAX - 1))\<rparr>]
      | None \<Rightarrow>
        (case find_slot (\<lambda>e. \<not> al_used e) t of
           Some i \<Rightarrow> t[i := \<lparr>al_name = overlay (al_name (t ! i)) 0 (strncpy_bytes name (ALIAS_NAME_MAX - 1)),
                             al_cmd = overlay (al_cmd (t ! i)) 0 (strncpy_bytes cmd (ALIAS_CMD_MAX - 1)),
                             al_used = True\<rparr>]
         | None \<Rightarrow> t))"

definition alias_blank :: "alias_entry list" where
  "alias_blank = replicate ALIAS_MAX \<lparr>al_name = replicate 16 0, al_cmd = replicate 64 0, al_used = False\<rparr>"

text \<open>The table is the store of the prelude; the last byte of each array stays 0.\<close>

definition alias_entry_ok :: "alias_entry \<Rightarrow> bool" where
  "alias_entry_ok e \<longleftrightarrow> length (al_name e) = 16 \<and> length (al_cmd e) = 64 \<and> al_name e ! 15 = 0 \<and> al_cmd e ! 63 = 0"

definition alias_key_of :: "alias_entry \<Rightarrow> cstr option" where
  "alias_key_of e = (if al_used e then Some (cstr_of (al_name e)) else None)"

definition alias_val_of :: "alias_entry \<Rightarrow> cstr" where
  "alias_val_of e = cstr_of (al_cmd e)"

definition alias_okk :: "cstr \<Rightarrow> bool" where
  "alias_okk k \<longleftrightarrow> is_cstr k \<and> length k < 16"

definition alias_upd :: "cstr \<Rightarrow> alias_entry \<Rightarrow> alias_entry" where
  "alias_upd v e = e\<lparr>al_cmd := overlay (al_cmd e) 0 (strncpy_bytes v 63)\<rparr>"

definition alias_ins :: "cstr \<Rightarrow> cstr \<Rightarrow> alias_entry \<Rightarrow> alias_entry" where
  "alias_ins k v e = \<lparr>al_name = overlay (al_name e) 0 (strncpy_bytes k 15),
     al_cmd = overlay (al_cmd e) 0 (strncpy_bytes v 63), al_used = True\<rparr>"

lemma store_field:
  assumes "length arr = Suc n" "arr ! n = 0"
  shows "overlay arr 0 (strncpy_bytes s n) = copy_field arr s n"
proof -
  let ?o = "overlay arr 0 (strncpy_bytes s n)"
  have "?o ! n = 0"
  proof (cases "length s < n")
    case True
    then show ?thesis by (simp add: overlay_0 strncpy_bytes_def nth_append del: replicate_Suc)
  next
    case False
    then show ?thesis using assms by (simp add: overlay_0 strncpy_bytes_def nth_append)
  qed
  then have "?o[n := 0] = ?o" by (metis list_update_id)
  then show ?thesis by (simp add: copy_field_def)
qed

lemma store_field_ok:
  assumes "length arr = Suc n" "arr ! n = 0"
  shows "length (overlay arr 0 (strncpy_bytes s n)) = Suc n" "overlay arr 0 (strncpy_bytes s n) ! n = 0"
    "is_cstr s \<Longrightarrow> cstr_of (overlay arr 0 (strncpy_bytes s n)) = take n s"
proof -
  note e = store_field [OF assms, of s]
  show l: "length (overlay arr 0 (strncpy_bytes s n)) = Suc n" using assms(1) by (simp add: e)
  show "is_cstr s \<Longrightarrow> cstr_of (overlay arr 0 (strncpy_bytes s n)) = take n s" using assms(1) by (simp add: e)
  have "n < length (overlay arr 0 (strncpy_bytes s n))" using l by simp
  then have "copy_field arr s n ! n = 0" by (simp add: copy_field_def)
  then show "overlay arr 0 (strncpy_bytes s n) ! n = 0" by (simp only: e)
qed

lemma alias_fields:
  assumes "alias_entry_ok e"
  shows "alias_entry_ok (alias_upd v e)" "alias_entry_ok (alias_ins k v e)"
    "is_cstr v \<Longrightarrow> alias_val_of (alias_upd v e) = take 63 v" "is_cstr v \<Longrightarrow> alias_val_of (alias_ins k v e) = take 63 v"
    "alias_okk k \<Longrightarrow> alias_key_of (alias_ins k v e) = Some k" "alias_key_of (alias_upd v e) = alias_key_of e"
proof -
  have n: "length (al_name e) = Suc 15" "al_name e ! 15 = 0" and c: "length (al_cmd e) = Suc 63" "al_cmd e ! 63 = 0"
    using assms by (simp_all add: alias_entry_ok_def)
  show "alias_entry_ok (alias_upd v e)" "alias_entry_ok (alias_ins k v e)"
    using store_field_ok(1,2) [OF n] store_field_ok(1,2) [OF c] n c
    by (simp_all add: alias_entry_ok_def alias_upd_def alias_ins_def)
  show "is_cstr v \<Longrightarrow> alias_val_of (alias_upd v e) = take 63 v" "is_cstr v \<Longrightarrow> alias_val_of (alias_ins k v e) = take 63 v"
    using store_field_ok(3) [OF c] by (simp_all add: alias_val_of_def alias_upd_def alias_ins_def)
  show "alias_okk k \<Longrightarrow> alias_key_of (alias_ins k v e) = Some k"
    using store_field_ok(3) [OF n] by (simp add: alias_okk_def alias_key_of_def alias_ins_def)
  show "alias_key_of (alias_upd v e) = alias_key_of e" by (simp add: alias_key_of_def alias_upd_def)
qed

interpretation al: slot_table alias_key_of alias_val_of alias_upd alias_ins alias_entry_ok
    alias_okk is_cstr "take 63" 16
  by unfold_locales (simp_all add: alias_fields)

lemma alias_hit_key: "is_cstr k \<Longrightarrow> alias_hit k = (\<lambda>e. alias_key_of e = Some k)"
  by (rule ext) (auto simp: alias_hit_def alias_key_of_def)

lemma alias_free_key: "(\<lambda>e. \<not> al_used e) = (\<lambda>e. alias_key_of e = None)"
  by (rule ext) (simp add: alias_key_of_def)

lemma alias_resolve_slot: "is_cstr k \<Longrightarrow> alias_resolve k t = slot_lookup alias_key_of alias_val_of k t"
  by (simp add: alias_resolve_def slot_lookup_def slot_find_def alias_hit_key alias_val_of_def)

lemma alias_set_put: "is_cstr k \<Longrightarrow> alias_set k v t = al.put k v t"
  by (simp add: alias_set_def al.put_def slot_put_def slot_find_def slot_free_def alias_hit_key
      alias_free_key alias_upd_def alias_ins_def split: option.splits)

lemma alias_blank_ok: "al.table_ok alias_blank"
  by (simp add: al.table_ok_def alias_blank_def alias_entry_ok_def)

lemma alias_set_resolve:
  assumes "al.table_ok t" "alias_okk k" "is_cstr v" "slot_room alias_key_of t k"
  shows "alias_resolve k (alias_set k v t) = Some (take 63 v)"
    "is_cstr k' \<Longrightarrow> k' \<noteq> k \<Longrightarrow> alias_resolve k' (alias_set k v t) = alias_resolve k' t"
  using al.kv.store_same [OF assms] al.kv.store_other [OF assms(1,2), of k' v] assms(2)
  by (simp_all add: alias_okk_def alias_resolve_slot alias_set_put)

subsection \<open>The configuration\<close>

record config =
  cf_fs :: "mem fs"
  cf_env :: "env_entry list"
  alias_table :: "alias_entry list"
  boot_path :: "u8 list"

definition disksync_boot_path :: "config \<Rightarrow> cstr" where
  "disksync_boot_path c = cstr_of (boot_path c)"

text \<open>The part before the first \<^verbatim>\<open>=\<close> and the part behind it.\<close>

definition split_eq :: "cstr \<Rightarrow> (cstr \<times> cstr) option" where
  "split_eq kv =
     (let k = takeWhile (\<lambda>c. c \<noteq> 61) kv in if length k < length kv then Some (k, drop (length k + 1) kv) else None)"

definition set_motd :: "cstr \<Rightarrow> config \<Rightarrow> config option" where
  "set_motd text c =
     (let s = cf_fs c; etc = vfs_finddir s (vfs_root s) (lit ''etc'') in
      if etc = 0 then Some c
      else
        (let motd = vfs_finddir s etc (lit ''motd'');
             (motd, s) = (if motd = 0 then ramfs_mkfile etc (lit ''motd'') s else (motd, s))
         in if motd = 0 then Some (c\<lparr>cf_fs := s\<rparr>)
            else map_option (\<lambda>(n, s). c\<lparr>cf_fs := s\<rparr>) (vfs_write s motd 0 text)))"

definition config_line :: "cstr \<Rightarrow> config \<Rightarrow> config option" where
  "config_line line c =
     (if line = [] \<or> hd line = 35 then Some c
      else if strncmp_bytes line (lit ''motd='') 5 = 0 then set_motd (drop 5 line) c
      else if strncmp_bytes line (lit ''env='') 4 = 0 then
        Some (case split_eq (drop 4 line) of None \<Rightarrow> c
              | Some (k, v) \<Rightarrow> c\<lparr>cf_env := snd (env_set k v (cf_env c))\<rparr>)
      else if strncmp_bytes line (lit ''alias='') 6 = 0 then
        Some (case split_eq (drop 6 line) of None \<Rightarrow> c
              | Some (k, v) \<Rightarrow> c\<lparr>alias_table := alias_set k v (alias_table c)\<rparr>)
      else if strncmp_bytes line (lit ''path='') 5 = 0 then
        Some (c\<lparr>boot_path := copy_field (boot_path c) (drop 5 line) 63\<rparr>)
      else Some c)"

fun config_lines :: "cstr list \<Rightarrow> config \<Rightarrow> config option" where
  "config_lines [] c = Some c"
| "config_lines (l # ls) c = (case config_line l c of None \<Rightarrow> None | Some c \<Rightarrow> config_lines ls c)"

definition run_config :: "cstr \<Rightarrow> config \<Rightarrow> config option" where
  "run_config cfg c = config_lines (text_lines (take 511 cfg)) c"

definition boot_config :: cstr where
  "boot_config = lit ''motd=welcome to baSic_ v1.0'' @ [10] @ lit ''env=HOSTNAME=baSic'' @ [10] @
     lit ''alias=ll=ls'' @ [10] @ lit ''path=/'' @ [10]"

definition disksync_run_init :: "config \<Rightarrow> config option" where
  "disksync_run_init c = run_config boot_config c"

definition disksync_flush :: "'d ports \<Rightarrow> 'd disk \<Rightarrow> 'd disk" where
  "disksync_flush P d = disk_cache_flush P d"

subsection \<open>What the boot configuration does\<close>

lemma boot_lines:
  "text_lines (take 511 boot_config) =
     [lit ''motd=welcome to baSic_ v1.0'', lit ''env=HOSTNAME=baSic'', lit ''alias=ll=ls'', lit ''path=/'']"
  using text_lines_join [of "[lit ''motd=welcome to baSic_ v1.0'', lit ''env=HOSTNAME=baSic'', lit ''alias=ll=ls'', lit ''path=/'']"]
  by (simp add: boot_config_def lit_def)

lemma write_front:
  assumes ok: "ram_ok s" and f: "is_file s p" and cap: "file_cap s p = 4096" and b: "length bs \<le> 4096"
  shows "\<exists>s'. vfs_write s p 0 bs = Some (of_nat (length bs), s') \<and>
    file_bytes s' p = bs @ drop (length bs) (file_bytes s p) \<and> (\<forall>q. q \<noteq> p \<longrightarrow> file_bytes s' q = file_bytes s q)"
proof -
  have m: "min (length bs) (4096 - unat (0 :: u32)) = length bs" using b by simp
  obtain s' where s': "ramfs_write s p 0 bs = Some (of_nat (length bs), s')"
    "length (file_bytes s' p) = max (length (file_bytes s p)) (length bs)"
    "take (length bs) (file_bytes s' p) = bs"
    "\<forall>i < length (file_bytes s p). length bs \<le> i \<longrightarrow> file_bytes s' p ! i = file_bytes s p ! i"
    "\<forall>q. q \<noteq> p \<longrightarrow> file_bytes s' q = file_bytes s q"
    using ramfs_write_result [OF ok f, of 0 bs] b cap unfolding cap m by auto
  have "drop (length bs) (file_bytes s' p) = drop (length bs) (file_bytes s p)"
    using s'(2,4) by (intro nth_equalityI) auto
  then have "file_bytes s' p = bs @ drop (length bs) (file_bytes s p)"
    using append_take_drop_id [of "length bs" "file_bytes s' p"] s'(3) by simp
  moreover have "p \<noteq> 0" using f fs_okD(1) [OF ok] by (auto simp: is_file_def)
  ultimately show ?thesis using s'(1,5) by (simp add: vfs_write_def)
qed

lemma config_line_kinds:
  "config_line (lit ''motd='' @ t) c = set_motd t c"
  "config_line (lit ''path='' @ t) c = Some (c\<lparr>boot_path := copy_field (boot_path c) t 63\<rparr>)"
  "config_line (lit ''env='' @ t) c = Some (case split_eq t of None \<Rightarrow> c
     | Some (k, v) \<Rightarrow> c\<lparr>cf_env := snd (env_set k v (cf_env c))\<rparr>)"
  "config_line (lit ''alias='' @ t) c = Some (case split_eq t of None \<Rightarrow> c
     | Some (k, v) \<Rightarrow> c\<lparr>alias_table := alias_set k v (alias_table c)\<rparr>)"
  by (simp_all add: config_line_def strncmp_bytes_def lit_def)

lemma split_eq_at: "61 \<notin> set k \<Longrightarrow> split_eq (k @ 61 # v) = Some (k, v)"
proof -
  assume "61 \<notin> set k"
  then have "takeWhile (\<lambda>c. c \<noteq> 61) (k @ 61 # v) = k" by (subst takeWhile_append2) auto
  then show ?thesis by (simp add: split_eq_def)
qed

text \<open>
  Running the boot configuration stores its variable and its alias, every other variable and
  alias keeps its value, and the boot path is the root; the message of the day is written over the
  front of the file \<^verbatim>\<open>/etc/motd\<close>, whose longer old text stays behind it, and no other file
  changes.
\<close>

lemma disksync_boot_effect:
  assumes "ram_ok (cf_fs c)" "vfs_finddir (cf_fs c) (vfs_root (cf_fs c)) (lit ''etc'') = etc" "etc \<noteq> 0"
    and "vfs_finddir (cf_fs c) etc (lit ''motd'') = motd" "is_file (cf_fs c) motd" "file_cap (cf_fs c) motd = 4096"
    and "env_ok (cf_env c)" "fst (env_set (lit ''HOSTNAME'') (lit ''baSic'') (cf_env c))"
    and "length (alias_table c) = 16" "\<forall>e \<in> set (alias_table c). alias_entry_ok e \<and> \<not> al_used e"
    and "length (boot_path c) = 64"
  shows "\<exists>c'. disksync_run_init c = Some c' \<and>
    env_get (lit ''HOSTNAME'') (cf_env c') = Some (lit ''baSic'') \<and>
    (\<forall>k. is_cstr k \<longrightarrow> k \<noteq> lit ''HOSTNAME'' \<longrightarrow> env_get k (cf_env c') = env_get k (cf_env c)) \<and>
    (\<forall>k. is_cstr k \<longrightarrow> alias_resolve k (alias_table c') = (if k = lit ''ll'' then Some (lit ''ls'') else None)) \<and>
    disksync_boot_path c' = [slash] \<and>
    file_bytes (cf_fs c') motd = lit ''welcome to baSic_ v1.0'' @ drop 22 (file_bytes (cf_fs c) motd) \<and>
    (\<forall>q. q \<noteq> motd \<longrightarrow> file_bytes (cf_fs c') q = file_bytes (cf_fs c) q)"
proof -
  let ?w = "lit ''welcome to baSic_ v1.0''"
  have nz: "motd \<noteq> 0" using fs_okD(1) [OF assms(1)] assms(5) by (auto simp: is_file_def)
  obtain s' where s': "vfs_write (cf_fs c) motd 0 ?w = Some (of_nat (length ?w), s')"
    "file_bytes s' motd = ?w @ drop (length ?w) (file_bytes (cf_fs c) motd)"
    "\<forall>q. q \<noteq> motd \<longrightarrow> file_bytes s' q = file_bytes (cf_fs c) q"
    using write_front [OF assms(1,5,6), of ?w] by auto
  define c' where "c' = c\<lparr>cf_fs := s', cf_env := snd (env_set (lit ''HOSTNAME'') (lit ''baSic'') (cf_env c)),
    alias_table := alias_set (lit ''ll'') (lit ''ls'') (alias_table c),
    boot_path := copy_field (boot_path c) [slash] 63\<rparr>"
  have m: "set_motd ?w c = Some (c\<lparr>cf_fs := s'\<rparr>)"
    using assms(2-4) nz s'(1) by (simp add: set_motd_def Let_def)
  have l: "lit ''motd=welcome to baSic_ v1.0'' = lit ''motd='' @ ?w"
    "lit ''env=HOSTNAME=baSic'' = lit ''env='' @ lit ''HOSTNAME'' @ 61 # lit ''baSic''"
    "lit ''alias=ll=ls'' = lit ''alias='' @ lit ''ll'' @ 61 # lit ''ls''" "lit ''path=/'' = lit ''path='' @ [slash]"
    by (simp_all add: lit_def)
  have ne: "61 \<notin> set (lit ''HOSTNAME'')" "61 \<notin> set (lit ''ll'')" by (simp_all add: lit_def)
  have run: "disksync_run_init c = Some c'"
    unfolding disksync_run_init_def run_config_def boot_lines l
    by (simp only: config_lines.simps config_line_kinds m option.case split_eq_at [OF ne(1)] split_eq_at [OF ne(2)] prod.case)
       (simp add: c'_def)
  have E: "env_get (lit ''HOSTNAME'') (cf_env c') = Some (lit ''baSic'')"
    "\<forall>k. is_cstr k \<longrightarrow> k \<noteq> lit ''HOSTNAME'' \<longrightarrow> env_get k (cf_env c') = env_get k (cf_env c)"
    using env_set_get [OF assms(7) _ _ assms(8)]
    by (simp_all add: c'_def env_okk_def ENV_KEY_MAX_def is_cstr_def lit_def)
  have tab: "al.table_ok (alias_table c)" using assms(9,10) by (simp add: al.table_ok_def)
  have none: "alias_resolve k (alias_table c) = None" for k
    using assms(10) by (auto simp: alias_resolve_def find_slot_None alias_hit_def)
  have "find_slot (\<lambda>e. alias_key_of e = None) (alias_table c) \<noteq> None"
    using assms(9,10) by (cases "alias_table c") (auto simp: find_slot_None alias_key_of_def)
  then have room: "slot_room alias_key_of (alias_table c) (lit ''ll'')" by (simp add: slot_room_def slot_free_def)
  have ok: "alias_okk (lit ''ll'')" "is_cstr (lit ''ls'')" by (simp_all add: alias_okk_def is_cstr_def lit_def)
  note A = alias_set_resolve [OF tab ok room]
  have "alias_resolve k (alias_table c') = (if k = lit ''ll'' then Some (lit ''ls'') else None)" if "is_cstr k" for k
    using A(1) A(2) [OF that] none by (simp add: c'_def lit_def)
  moreover have "disksync_boot_path c' = [slash]"
    using assms(11) by (simp add: c'_def is_cstr_def disksync_boot_path_def)
  moreover have "cf_fs c' = s'" by (simp add: c'_def)
  moreover have "length ?w = 22" by simp
  then have "file_bytes s' motd = ?w @ drop 22 (file_bytes (cf_fs c) motd)" using s'(2) by (simp only:)
  ultimately show ?thesis using run E s'(3) by blast
qed

subsection \<open>Example\<close>

text \<open>A root with the directory \<^verbatim>\<open>etc\<close> and the file \<^verbatim>\<open>motd\<close> in it.\<close>

definition boot_tree :: "mem \<Rightarrow> mem fs" where
  "boot_tree m = \<lparr>fs_nodes = [0x300010 \<mapsto> \<lparr>n_name = slash # replicate 63 0, n_flags = VFS_DIR,
         n_length = 0, n_inode = 0x300080, n_parent = 0\<rparr>,
       0x300120 \<mapsto> \<lparr>n_name = lit ''etc'' @ replicate 61 0, n_flags = VFS_DIR, n_length = 0, n_inode = 0x300190, n_parent = 0x300010\<rparr>,
       0x300230 \<mapsto> \<lparr>n_name = lit ''motd'' @ replicate 60 0, n_flags = VFS_FILE, n_length = 0, n_inode = 0x3002A0, n_parent = 0x300120\<rparr>],
     fs_datas = [0x300080 \<mapsto> \<lparr>d_buf = None, d_capacity = 0, d_children = [0x300120]\<rparr>,
       0x300190 \<mapsto> \<lparr>d_buf = None, d_capacity = 0, d_children = [0x300230]\<rparr>,
       0x3002A0 \<mapsto> \<lparr>d_buf = Some (replicate 4096 0), d_capacity = 4096, d_children = []\<rparr>],
     fs_heap = m, fs_root = 0x300010, next_inode = 3\<rparr>"

definition boot_state :: "mem \<Rightarrow> config" where
  "boot_state m = \<lparr>cf_fs = boot_tree m, cf_env = env_init, alias_table = alias_blank, boot_path = slash # replicate 63 0\<rparr>"

lemma disksync_boot_effect_witness:
  "\<exists>m c'. disksync_run_init (boot_state m) = Some c' \<and> alias_resolve (lit ''ll'') (alias_table c') = Some (lit ''ls'') \<and>
     env_get (lit ''HOSTNAME'') (cf_env c') = Some (lit ''baSic'')"
proof -
  obtain m where m: "heap_owned m = {0x300010, 0x300080, 0x300120, 0x300190, 0x300230, 0x3002A0}"
    using six_blocks by blast
  let ?s = "cf_fs (boot_state m)"
  have s: "?s = boot_tree m" "vfs_root (boot_tree m) = 0x300010"
    by (simp_all add: boot_state_def vfs_root_def boot_tree_def)
  have ok: "ram_ok (boot_tree m)"
    using m by (auto simp: boot_tree_def fs_ok_def node_ok_def data_ok_def split: if_splits)
  have f: "vfs_finddir (boot_tree m) 0x300010 (lit ''etc'') = 0x300120"
    "vfs_finddir (boot_tree m) 0x300120 (lit ''motd'') = 0x300230"
    "is_file (boot_tree m) 0x300230" "file_cap (boot_tree m) 0x300230 = 4096"
    by (simp_all add: vfs_finddir_def finddir_children children_def node_data_def node_name_def cstr_of_def
        boot_tree_def is_file_def file_cap_def lit_def)
  have "fst (env_set (lit ''HOSTNAME'') (lit ''baSic'') env_init)" by code_simp
  then have e: "env_ok (cf_env (boot_state m))"
    "fst (env_set (lit ''HOSTNAME'') (lit ''baSic'') (cf_env (boot_state m)))"
    using env_init_ok by (simp_all only: boot_state_def config.simps)
  have t: "length (alias_table (boot_state m)) = 16" "length (boot_path (boot_state m)) = 64"
    "\<forall>e \<in> set (alias_table (boot_state m)). alias_entry_ok e \<and> \<not> al_used e"
    by (auto simp: boot_state_def alias_blank_def alias_entry_ok_def)
  obtain c' where c': "disksync_run_init (boot_state m) = Some c'"
      "env_get (lit ''HOSTNAME'') (cf_env c') = Some (lit ''baSic'')"
      "\<forall>k. is_cstr k \<longrightarrow> alias_resolve k (alias_table c') = (if k = lit ''ll'' then Some (lit ''ls'') else None)"
    using disksync_boot_effect [of "boot_state m" "0x300120" "0x300230"] ok f e t unfolding s by auto
  have "is_cstr (lit ''ll'')" by (simp add: is_cstr_def lit_def)
  with c'(3) have "alias_resolve (lit ''ll'') (alias_table c') = Some (lit ''ls'')" by presburger
  with c'(1,2) show ?thesis by blast
qed

end
