(* ===== verification/ShInfo.thy ===== *)
theory ShInfo
  imports ShLine DiskSync Rtc Clock E1000 "HOL-Library.Signed_Division"
begin

text \<open>
  The commands of \<^verbatim>\<open>kernel/shell.c\<close> that report: the time and the date, the memory, the processes, the
  history, the aliases, and the status row.  The texts are built in arrays of the stack; \<open>None\<close> is a
  number that does not fit its eight digits.
\<close>

unbundle bit_operations_syntax

subsection \<open>Time\<close>

definition TZ_OFFSET_H :: nat where "TZ_OFFSET_H = 6"

text \<open>\<^verbatim>\<open>'0' + n / 10\<close> and \<^verbatim>\<open>'0' + n % 10\<close>\<close>

definition two :: "nat \<Rightarrow> cstr" where
  "two n = [of_nat (48 + n div 10), of_nat (48 + n mod 10)]"

definition local_hour :: "rtc_time \<Rightarrow> nat" where
  "local_hour t = (let h = unat (hour t) + TZ_OFFSET_H in if h \<ge> 24 then h - 24 else h)"

definition clock_text :: "rtc_time \<Rightarrow> cstr" where
  "clock_text t = two (local_hour t) @ [58] @ two (unat (minute t)) @ [58] @ two (unat (second t))"

definition cmd_time :: "rtc_time \<Rightarrow> sh_out list" where
  "cmd_time t =
     say_line (lit ''time  : '' @ clock_text t @ lit '' BDT (UTC+6)  2026-'' @
       two (unat (month t)) @ [45] @ two (unat (day t))) VGA_COLOR_LIGHT_CYAN"

text \<open>Hours, minutes and seconds of the uptime, each cut to a byte.\<close>

definition up_hms :: "u32 \<Rightarrow> nat \<times> nat \<times> nat" where
  "up_hms ticks =
     (let s = ticks div 1000
      in (unat (ucast (s div 3600) :: u8), unat (ucast ((s mod 3600) div 60) :: u8), unat (ucast (s mod 60) :: u8)))"

definition cmd_uptime :: "u32 \<Rightarrow> sh_out list" where
  "cmd_uptime ticks =
     (case up_hms ticks of (h, m, s) \<Rightarrow>
        say_line (lit ''uptime: '' @ two h @ lit ''h '' @ two m @ lit ''m '' @ two s @ lit ''s'') VGA_COLOR_LIGHT_CYAN)"

text \<open>The status row.\<close>

definition draw_status :: "cstr \<Rightarrow> rtc_time \<Rightarrow> u32 \<Rightarrow> u16 list \<Rightarrow> u16 list" where
  "draw_status cwd t ticks cells =
     (let row = int STATUS_ROW; bg = VGA_COLOR_DARK_GREY;
          cells = fill_row row 32 VGA_COLOR_BLACK bg cells;
          cells = str_at 1 row (lit ''baSic_ v1.0'') VGA_COLOR_LIGHT_GREEN bg cells;
          cells = str_at 13 row (lit ''|'') VGA_COLOR_DARK_GREY bg cells;
          cells = str_at 15 row cwd VGA_COLOR_WHITE bg cells;
          cells = str_at 55 row (clock_text t @ lit '' BD'') VGA_COLOR_LIGHT_CYAN bg cells
      in case up_hms ticks of (h, m, s) \<Rightarrow>
           str_at 68 row (lit ''| '' @ two h @ [58] @ two m @ [58] @ two s) VGA_COLOR_YELLOW bg cells)"

subsection \<open>The date\<close>

definition day_names :: "string list" where
  "day_names = [''Sun'', ''Mon'', ''Tue'', ''Wed'', ''Thu'', ''Fri'', ''Sat'']"

definition month_names :: "string list" where
  "month_names = [''Jan'', ''Feb'', ''Mar'', ''Apr'', ''May'', ''Jun'', ''Jul'', ''Aug'', ''Sep'', ''Oct'', ''Nov'', ''Dec'']"

text \<open>The day of the week, 0 for Sunday, with the signed division of C.\<close>

definition day_of_week :: "rtc_time \<Rightarrow> int" where
  "day_of_week t =
     (let m = uint (month t); y = 2000 + uint (year t);
          (m, y) = (if m < 3 then (m + 12, y - 1) else (m, y));
          k = y smod 100; j = y sdiv 100;
          dow = (uint (day t) + (13 * (m + 1) sdiv 5) + k + k sdiv 4 + j sdiv 4 - 2 * j) smod 7;
          dow = (if dow < 0 then dow + 7 else dow)
      in (dow + 6) smod 7)"

definition cmd_date :: "rtc_time \<Rightarrow> sh_out list" where
  "cmd_date t =
     (let ds = lit (day_names ! nat (day_of_week t));
          ms = lit (if 1 \<le> month t \<and> month t \<le> 12 then month_names ! (unat (month t) - 1) else ''???'')
      in say_line (ds @ [32] @ ms @ [32] @ two (unat (day t)) @ [32] @ clock_text t @ lit '' BDT 20'' @
           [of_nat (48 + unat (year t) div 10 mod 10), of_nat (48 + unat (year t) mod 10)]) VGA_COLOR_LIGHT_CYAN)"

subsection \<open>Memory and texts\<close>

definition cmd_mem :: "pmm \<Rightarrow> sh_out list" where
  "cmd_mem p =
     (let total = pmm_total_frames p * 4; free = pmm_free_frames p * 4; used = total - free
      in say_line (lit ''total  : '' @ dec total @ lit '' KB'') VGA_COLOR_WHITE @
         say_line (lit ''used   : '' @ dec used @ lit '' KB'') VGA_COLOR_LIGHT_RED @
         say_line (lit ''free   : '' @ dec free @ lit '' KB'') VGA_COLOR_LIGHT_GREEN)"

definition cmd_sysinfo :: "u32 \<Rightarrow> sh_out list" where
  "cmd_sysinfo ticks =
     say ''baSic_ v1.0'' VGA_COLOR_LIGHT_CYAN @
     say ''  arch    : x86 32-bit protected mode'' VGA_COLOR_WHITE @
     say ''  kernel  : baSic_ original'' VGA_COLOR_WHITE @
     say ''  license : GPL v2'' VGA_COLOR_WHITE @
     say ''  tz      : Asia/Dhaka (BDT UTC+6)'' VGA_COLOR_WHITE @
     cmd_uptime ticks"

definition cmd_about :: "sh_out list" where
  "cmd_about =
     say ''baSic_ v1.0'' VGA_COLOR_LIGHT_CYAN @
     say ''  author  : Shahriar Dhrubo'' VGA_COLOR_WHITE @
     say ''  arch    : x86 32-bit protected mode'' VGA_COLOR_WHITE @
     say ''  license : GPL v2'' VGA_COLOR_WHITE"

definition cmd_whoami :: "sh_out list" where
  "cmd_whoami = say ''root'' VGA_COLOR_LIGHT_GREEN"

definition cmd_uname :: "sh_out list" where
  "cmd_uname = say ''baSic_ 1.0 x86 32-bit'' VGA_COLOR_WHITE"

definition cmd_hostname :: "env_entry list \<Rightarrow> sh_out list" where
  "cmd_hostname t =
     say_line (case env_get (lit ''HOSTNAME'') t of Some h \<Rightarrow> h | None \<Rightarrow> lit ''baSic_'') VGA_COLOR_WHITE"

definition cmd_help :: "sh_out list" where
  "cmd_help =
     [Puts (lit ''baSic_ built-in commands:'') VGA_COLOR_YELLOW, Newline,
      Puts (lit ''  system   : help clear sysinfo about uptime time date whoami hostname uname mem top dmesg'') VGA_COLOR_LIGHT_GREY,
      Puts (lit ''  process  : ps kill spawn proctest'') VGA_COLOR_LIGHT_GREY,
      Puts (lit ''  env      : env export unset'') VGA_COLOR_LIGHT_GREY,
      Puts (lit ''  math     : calc'') VGA_COLOR_LIGHT_GREY,
      Puts (lit ''  display  : color'') VGA_COLOR_LIGHT_GREY,
      Puts (lit ''  nav      : pwd cd ls'') VGA_COLOR_LIGHT_GREY,
      Puts (lit ''  files    : cat write mkdir find grep edit touch rm mv cp wc head tail sort uniq'') VGA_COLOR_LIGHT_GREY,
      Puts (lit ''  net      : netinfo arp ping udpsend'') VGA_COLOR_LIGHT_GREY,
      Puts (lit ''  script   : run'') VGA_COLOR_LIGHT_GREY,
      Puts (lit ''  disk     : diskls diskcat diskwrite diskdel disksync chmod'') VGA_COLOR_LIGHT_GREY,
      Puts (lit ''  fun      : shoot'') VGA_COLOR_LIGHT_CYAN,
      Puts (lit ''  power    : reboot halt poweroff'') VGA_COLOR_LIGHT_GREY,
      Newline,
      Puts (lit ''  keys: Tab=complete  Up/Down=history  Ctrl-R=search  Left/Right=cursor'') VGA_COLOR_DARK_GREY]"

subsection \<open>Processes\<close>

text \<open>\<^verbatim>\<open>char tmp[8]; int ti = 6;\<close>: a number of more than seven digits leaves the array.\<close>

definition short_dec :: "u32 \<Rightarrow> cstr option" where
  "short_dec v = (if length (dec v) > 7 then None else Some (dec v))"

definition pad_to :: "nat \<Rightarrow> cstr \<Rightarrow> cstr" where
  "pad_to n line = line @ replicate (n - length line) 32"

fun state_name :: "proc_state \<Rightarrow> string" where
  "state_name PROC_UNUSED = ''unused  ''"
| "state_name PROC_READY = ''ready   ''"
| "state_name PROC_RUNNING = ''running ''"
| "state_name PROC_SLEEPING = ''sleeping''"
| "state_name PROC_DEAD = ''dead    ''"
| "state_name PROC_ZOMBIE = ''zombie  ''"

definition ps_line :: "process \<Rightarrow> cstr option" where
  "ps_line p =
     (case (short_dec (pid p), short_dec (parent_pid p)) of
        (Some a, Some b) \<Rightarrow>
          (let line = pad_to 6 (lit ''  '' @ a);
               line = pad_to 12 (line @ b);
               line = line @ lit (state_name (p_state p)) @ [32]
           in Some (line @ take (63 - length line) (cstr_of (p_name p))))
      | _ \<Rightarrow> None)"

definition table_lines :: "(process \<Rightarrow> cstr option) \<Rightarrow> ptable \<Rightarrow> cstr list option" where
  "table_lines f s = those (map f (filter (\<lambda>p. p_state p \<noteq> PROC_UNUSED) (proc_table s)))"

definition cmd_ps :: "ptable \<Rightarrow> sh_out list option" where
  "cmd_ps s =
     map_option (\<lambda>ls. say ''  PID  PPID  STATE     NAME'' VGA_COLOR_LIGHT_GREY @
         (if ls = [] then say ''  (no processes)'' VGA_COLOR_LIGHT_GREY
          else concat (map (\<lambda>l. say_line l VGA_COLOR_WHITE) ls)))
       (table_lines ps_line s)"

definition proctest_line :: "process \<Rightarrow> cstr option" where
  "proctest_line p =
     map_option (\<lambda>a. let line = lit ''  pid='' @ a @ lit '' name=''
                      in line @ take (46 - length line) (cstr_of (p_name p)))
       (short_dec (pid p))"

definition cmd_proctest :: "ptable \<Rightarrow> sh_out list option" where
  "cmd_proctest s =
     map_option (\<lambda>ls. say ''process table:'' VGA_COLOR_YELLOW @
         concat (map (\<lambda>l. say_line l VGA_COLOR_WHITE) ls) @
         say_line (lit ''active: '' @ dec (of_nat (length ls))) VGA_COLOR_LIGHT_CYAN)
       (table_lines proctest_line s)"

subsection \<open>The logs\<close>

definition cmd_dmesg :: "console \<Rightarrow> (sh_out list \<times> console) option" where
  "cmd_dmesg c = map_option (Pair [Newline]) (klog_dump c)"

text \<open>The environment is printed through \<^verbatim>\<open>kprintf\<close>: the lines it prints and the shell's output.\<close>

definition cmd_env :: "env_entry list \<Rightarrow> cstr list \<times> sh_out list" where
  "cmd_env t = (env_dump t, [Newline])"

text \<open>The output before and after the dump of the profiler, which goes through \<^verbatim>\<open>kprintf\<close>.\<close>

definition cmd_top ::
    "ptable \<Rightarrow> pmm \<Rightarrow> u32 list \<Rightarrow> u32 list \<Rightarrow> timer \<Rightarrow> watchdog \<Rightarrow> console \<Rightarrow> (sh_out list \<times> sh_out list \<times> console) option" where
  "cmd_top s p names counters t wd c =
     (case cmd_ps s of
        None \<Rightarrow> None
      | Some ps \<Rightarrow>
          (case prof_dump names counters c of
             None \<Rightarrow> None
           | Some c \<Rightarrow>
               Some (say ''PROCESSES:'' VGA_COLOR_YELLOW @ ps @ [Newline] @ say ''KERNEL PROFILER:'' VGA_COLOR_YELLOW,
                 [Newline] @ say ''MEMORY:'' VGA_COLOR_YELLOW @ cmd_mem p @
                 (if watchdog_fired t wd then say ''WATCHDOG: TIMEOUT!'' VGA_COLOR_LIGHT_RED
                  else say ''watchdog: OK'' VGA_COLOR_LIGHT_GREEN), c)))"

subsection \<open>History, aliases and the network card\<close>

definition history_line :: "cmd_line \<Rightarrow> nat \<Rightarrow> cstr option" where
  "history_line l i =
     map_option (\<lambda>n. let line = n @ lit ''  '' in line @ take (CMD_BUF_SIZE + 4 - length line) (history_row i l))
       (short_dec (of_nat (i + 1)))"

definition cmd_history :: "cmd_line \<Rightarrow> sh_out list option" where
  "cmd_history l =
     (if history_count l = 0 then Some (say ''(no history)'' VGA_COLOR_LIGHT_GREY)
      else map_option (\<lambda>ls. concat (map (\<lambda>t. say_line t VGA_COLOR_LIGHT_GREY) ls))
             (those (map (history_line l)
               [(if history_count l > HISTORY_SIZE then history_count l - HISTORY_SIZE else 0)..<history_count l])))"

definition cmd_alias :: "alias_entry list \<Rightarrow> sh_out list" where
  "cmd_alias t =
     (let ls = map (\<lambda>e. cstr_of (al_name e) @ lit '' -> '' @ cstr_of (al_cmd e)) (filter al_used t)
      in if ls = [] then say ''no aliases.'' VGA_COLOR_LIGHT_GREY
         else concat (map (\<lambda>l. say_line l VGA_COLOR_WHITE) ls))"

definition hex_byte :: "u8 \<Rightarrow> cstr" where
  "hex_byte b = [lit ''0123456789abcdef'' ! unat (drop_bit 4 b), lit ''0123456789abcdef'' ! unat (b AND 0xF)]"

fun mac_text :: "u8 list \<Rightarrow> cstr" where
  "mac_text [] = []"
| "mac_text [b] = hex_byte b"
| "mac_text (b # bs) = hex_byte b @ [58] @ mac_text bs"

definition cmd_netinfo :: "'h e1000 \<Rightarrow> sh_out list" where
  "cmd_netinfo n = say_line (lit ''MAC: '' @ mac_text (e1000_get_mac n)) VGA_COLOR_LIGHT_CYAN"

subsection \<open>The calendar\<close>

definition leap_year :: "nat \<Rightarrow> bool" where
  "leap_year y \<longleftrightarrow> (4 dvd y \<and> \<not> 100 dvd y) \<or> 400 dvd y"

definition month_lengths :: "nat \<Rightarrow> nat list" where
  "month_lengths y = [31, if leap_year y then 29 else 28, 31, 30, 31, 30, 31, 31, 30, 31, 30, 31]"

text \<open>Days from the first of January 2000, a Saturday, to the given date.\<close>

definition days_since_2000 :: "nat \<Rightarrow> nat \<Rightarrow> nat \<Rightarrow> nat" where
  "days_since_2000 y m d =
     sum_list (map (\<lambda>i. sum_list (month_lengths i)) [2000..<y]) + sum_list (take (m - 1) (month_lengths y)) + (d - 1)"

definition weekday :: "nat \<Rightarrow> nat \<Rightarrow> nat \<Rightarrow> nat" where
  "weekday y m d = (6 + days_since_2000 y m d) mod 7"

lemma sdiv_smod_pos: "0 \<le> a \<Longrightarrow> 0 < b \<Longrightarrow> a sdiv b = a div (b :: int)" "0 \<le> a \<Longrightarrow> 0 < b \<Longrightarrow> a smod b = a mod (b :: int)"
  by (cases "a = 0"; simp add: signed_divide_int_def signed_modulo_int_def minus_mult_div_eq_mod [symmetric] mult.commute)+

lemma smod_wrap: "(if a smod 7 < 0 then a smod 7 + 7 else a smod 7) = a mod (7 :: int)"
proof (cases "0 \<le> a")
  case False
  then have "a smod 7 = - ((- a) mod 7)"
    by (simp add: signed_divide_int_def signed_modulo_int_def minus_mult_div_eq_mod [symmetric] mult.commute)
  then show ?thesis by (simp add: zmod_zminus1_eq_if)
qed (simp add: sdiv_smod_pos)

lemma leap_2000: "n < 100 \<Longrightarrow> leap_year (2000 + n) \<longleftrightarrow> 4 dvd n"
  unfolding leap_year_def by presburger

lemma years_days:
  "n \<le> 100 \<Longrightarrow> sum_list (map (\<lambda>i. sum_list (month_lengths i)) [2000..<2000 + n]) = 365 * n + (n + 3) div 4"
proof (induction n)
  case (Suc n)
  then have IH: "sum_list (map (\<lambda>i. sum_list (month_lengths i)) [2000..<2000 + n]) = 365 * n + (n + 3) div 4"
    by simp
  have "sum_list (month_lengths (2000 + n)) = (if 4 dvd n then 366 else 365)"
    using leap_2000 [of n] Suc.prems by (simp add: month_lengths_def)
  moreover have "(Suc n + 3) div 4 = (n + 3) div 4 + (if 4 dvd n then 1 else 0)" by presburger
  moreover have "[2000..<2000 + Suc n] = [2000..<2000 + n] @ [2000 + n]"
    by (subst add_Suc_right, rule upt_Suc_append) simp
  ultimately show ?case using IH by (simp only: map_append sum_list_append) simp
qed simp

text \<open>The term of the month in Zeller's formula counts the days before it, up to whole weeks.\<close>

lemma month_term:
  assumes "m \<in> {1..12}"
  shows "\<exists>q. int (sum_list (take (m - 1) (month_lengths y))) + 7 * q =
    13 * ((if m < 3 then int m + 12 else int m) + 1) div 5 + (if m < 3 then -1 else if leap_year y then 1 else 0)"
proof -
  have m: "m \<in> {1, 2, 3, 4, 5, 6, 7, 8, 9, 10, 11, 12}" using assms unfolding atLeastAtMost_iff by simp presburger
  let ?b = "int (sum_list (take (m - 1) (month_lengths y)))"
  let ?z = "13 * ((if m < 3 then int m + 12 else int m) + 1) div 5 + (if m < 3 then -1 else if leap_year y then 1 else 0)"
  from m have "7 dvd ?z - ?b" by (elim insertE emptyE) (simp_all add: month_lengths_def numeral_nat)
  then obtain q where "?z - ?b = 7 * q" by (elim dvdE)
  then have "?b + 7 * q = ?z" by simp
  then show ?thesis by blast
qed

lemma mod_7I: "b = a + 6 + 7 * k \<Longrightarrow> (a mod 7 + 6) mod 7 = b mod (7 :: int)"
  by (simp add: mod_add_left_eq)

lemma zeller:
  assumes "y < 100" "m \<in> {1..12 :: nat}" "1 \<le> d"
  defines "M \<equiv> (if m < 3 then int m + 12 else int m)" and "Y \<equiv> (if m < 3 then 2000 + int y - 1 else 2000 + int y)"
  shows "((int d + 13 * (M + 1) div 5 + Y mod 100 + Y mod 100 div 4 + Y div 100 div 4 - 2 * (Y div 100)) mod 7 + 6) mod 7 =
    int (weekday (2000 + y) m d)"
proof -
  define B where "B = int (sum_list (take (m - 1) (month_lengths (2000 + y))))"
  have D: "int (weekday (2000 + y) m d) = (6 + 365 * int y + (int y + 3) div 4 + B + (int d - 1)) mod 7"
    using years_days [of y] assms(1,3)
    by (simp add: weekday_def days_since_2000_def B_def zmod_int zdiv_int of_nat_diff algebra_simps)
  obtain q where q: "B + 7 * q = 13 * (M + 1) div 5 + (if m < 3 then -1 else if leap_year (2000 + y) then 1 else 0)"
    using month_term [OF assms(2), of "2000 + y"] unfolding B_def M_def by blast
  have L: "leap_year (2000 + y) \<longleftrightarrow> int y mod 4 = 0" using leap_2000 [OF assms(1)] by presburger
  have y: "0 \<le> int y" "int y < 100" using assms(1) by simp_all
  show ?thesis
  proof (cases "m < 3")
    case False
    then have "Y = int y + 20 * 100" by (simp add: Y_def)
    then have c: "Y mod 100 = int y" "Y div 100 = 20" using y by (simp_all only: mod_mult_self1 div_mult_self1) simp_all
    have l: "(int y + 3) div 4 + (if int y mod 4 = 0 then 1 else 0) = int y div 4 + 1" by presburger
    have q': "B + 7 * q = 13 * (M + 1) div 5 + (if int y mod 4 = 0 then 1 else 0)" using q False L by simp
    show ?thesis unfolding D c
      by (rule mod_7I [where k = "52 * int y + 5 - q"]) (use q' l in \<open>cases "int y mod 4 = 0"; simp\<close>)
  next
    case True
    show ?thesis
    proof (cases "y = 0")
      case z: True
      then have c: "Y mod 100 = 99" "Y div 100 = 19" using True by (simp_all add: Y_def)
      have q': "B + 7 * q = 13 * (M + 1) div 5 - 1" using q True by simp
      show ?thesis unfolding D c by (rule mod_7I [where k = "- 13 - q"]) (use q' z in simp)
    next
      case False
      have "Y = (int y - 1) + 20 * 100" using True by (simp add: Y_def)
      then have c: "Y mod 100 = int y - 1" "Y div 100 = 20" using y False by (simp_all only: mod_mult_self1 div_mult_self1) simp_all
      have l: "(int y + 3) div 4 = (int y - 1) div 4 + 1" by presburger
      have q': "B + 7 * q = 13 * (M + 1) div 5 - 1" using q True by simp
      show ?thesis unfolding D c l by (rule mod_7I [where k = "52 * int y + 5 - q"]) (use q' in simp)
    qed
  qed
qed

lemma day_of_week_weekday:
  assumes "unat (year t) < 100" "unat (month t) \<in> {1..12}" "1 \<le> unat (day t)"
  shows "day_of_week t = int (weekday (2000 + unat (year t)) (unat (month t)) (unat (day t)))"
proof -
  let ?m = "unat (month t)" and ?y = "unat (year t)" and ?d = "unat (day t)"
  define M where "M = (if ?m < 3 then int ?m + 12 else int ?m)"
  define Y where "Y = (if ?m < 3 then 2000 + int ?y - 1 else 2000 + int ?y)"
  have pos: "0 \<le> Y" "0 \<le> 13 * (M + 1)" "0 \<le> Y div 100" "0 \<le> Y mod 100"
    by (simp_all add: Y_def M_def pos_imp_zdiv_nonneg_iff)
  have u: "uint x = int (unat x)" for x :: u8 by simp
  have lt: "uint (month t) < 3 \<longleftrightarrow> ?m < 3" using of_nat_less_iff [of ?m 3, where 'a = int] by simp
  have my: "(if uint (month t) < 3 then (uint (month t) + 12, 2000 + uint (year t) - 1)
      else (uint (month t), 2000 + uint (year t))) = (M, Y)"
    by (simp add: M_def Y_def lt)
  have "day_of_week t = ((int ?d + 13 * (M + 1) div 5 + Y mod 100 + Y mod 100 div 4 + Y div 100 div 4 -
      2 * (Y div 100)) mod 7 + 6) smod 7"
    unfolding day_of_week_def Let_def my prod.case smod_wrap sdiv_smod_pos(2) [OF pos(1) zero_less_numeral]
      sdiv_smod_pos(1) [OF pos(1) zero_less_numeral] sdiv_smod_pos(1) [OF pos(2) zero_less_numeral]
      sdiv_smod_pos(1) [OF pos(3) zero_less_numeral] sdiv_smod_pos(1) [OF pos(4) zero_less_numeral]
    by (simp only: u)
  also have "\<dots> = ((int ?d + 13 * (M + 1) div 5 + Y mod 100 + Y mod 100 div 4 + Y div 100 div 4 -
      2 * (Y div 100)) mod 7 + 6) mod 7"
    by (intro sdiv_smod_pos(2)) simp_all
  also have "\<dots> = int (weekday (2000 + ?y) ?m ?d)"
    unfolding M_def Y_def by (rule zeller) (use assms in simp_all)
  finally show ?thesis .
qed

text \<open>
  For every date of the years 2000 to 2099 the \<^verbatim>\<open>date\<close> command prints the name of its day of the
  week, as counting the days from the first of January 2000 gives it, and the name of its month.
\<close>

lemma date_names_weekday:
  assumes "unat (year t) < 100" "unat (month t) \<in> {1..12}" "1 \<le> unat (day t)"
  shows "\<exists>rest. cmd_date t = say_line (lit (day_names ! weekday (2000 + unat (year t)) (unat (month t)) (unat (day t))) @
    [32] @ lit (month_names ! (unat (month t) - 1)) @ rest) VGA_COLOR_LIGHT_CYAN"
proof -
  have "1 \<le> month t \<and> month t \<le> 12" using assms(2) by (simp add: word_le_nat_alt)
  then have "cmd_date t = say_line (lit (day_names ! weekday (2000 + unat (year t)) (unat (month t)) (unat (day t))) @
      [32] @ lit (month_names ! (unat (month t) - 1)) @ [32] @ two (unat (day t)) @ [32] @ clock_text t @ lit '' BDT 20'' @
      [of_nat (48 + unat (year t) div 10 mod 10), of_nat (48 + unat (year t) mod 10)]) VGA_COLOR_LIGHT_CYAN"
    unfolding cmd_date_def Let_def day_of_week_weekday [OF assms] nat_int by (simp only: if_True simp_thms)
  then show ?thesis by blast
qed

lemma date_names_weekday_witness:
  "\<exists>rest. cmd_date \<lparr>second = 0, minute = 0, hour = 0, day = 29, month = 2, year = 24\<rparr> =
     say_line (lit ''Thu Feb'' @ rest) VGA_COLOR_LIGHT_CYAN"
proof -
  have "[2000..<2024] = [2000..<2000 + (24 :: nat)]" by simp
  then have y: "sum_list (map (\<lambda>i. sum_list (month_lengths i)) [2000..<2024]) = 365 * 24 + (24 + 3) div 4"
    using years_days [of 24] by (simp only: order_refl)
  have w: "weekday 2024 2 29 = 4"
    unfolding weekday_def days_since_2000_def y by (simp add: month_lengths_def)
  have n: "day_names ! 4 = ''Thu''" "month_names ! 1 = ''Feb''" by (simp_all add: day_names_def month_names_def)
  let ?t = "\<lparr>second = 0, minute = 0, hour = 0, day = 29, month = 2, year = 24\<rparr> :: rtc_time"
  have "unat (year ?t) < 100" "unat (month ?t) \<in> {1..12}" "1 \<le> unat (day ?t)" by simp_all
  moreover have date_text: "2000 + unat (year ?t) = 2024" "unat (month ?t) = 2" "unat (day ?t) = 29" "(2 :: nat) - 1 = 1"
    by simp_all
  ultimately have "\<exists>rest. cmd_date ?t = say_line (lit ''Thu'' @ [32] @ lit ''Feb'' @ rest) VGA_COLOR_LIGHT_CYAN"
    using date_names_weekday [of ?t] unfolding date_text w n by blast
  then obtain rest where "cmd_date ?t = say_line (lit ''Thu'' @ [32] @ lit ''Feb'' @ rest) VGA_COLOR_LIGHT_CYAN"
    by blast
  then show ?thesis by (intro exI [of _ rest]) (simp add: lit_def)
qed

subsection \<open>The rows the bars are drawn in\<close>

lemma take_put_cell:
  assumes "23 \<le> row" "0 \<le> col"
  shows "take 1840 (put_cell col row c fg bg cells) = take 1840 cells"
proof -
  have "1840 \<le> nat (row * 80 + col)" using assms by linarith
  then show ?thesis by (simp add: put_cell_def)
qed

lemma take_fill_row: "23 \<le> row \<Longrightarrow> take 1840 (fill_row row c fg bg cells) = take 1840 cells"
  unfolding fill_row_def by (rule fold_keeps) (simp add: take_put_cell)

lemma take_str_at: "23 \<le> row \<Longrightarrow> 0 \<le> col \<Longrightarrow> take 1840 (str_at col row s fg bg cells) = take 1840 cells"
  by (induction col row s fg bg cells rule: str_at.induct) (simp_all add: take_put_cell)

lemma take_draw_cells: "23 \<le> row \<Longrightarrow> take 1840 (draw_cells col row cs cells) = take 1840 cells"
  by (induction cs arbitrary: col cells) (auto simp: take_put_cell)

text \<open>Drawing the status row or the prompt leaves the scrolling area alone.\<close>

lemma bars_keep_area:
  "take 1840 (draw_status cwd t ticks cells) = take 1840 cells"
  "prompt_redraw cwd l cells = Some cells' \<Longrightarrow> take 1840 cells' = take 1840 cells"
  by (auto simp: draw_status_def prompt_redraw_def Let_def take_str_at take_fill_row take_draw_cells take_put_cell
      split: prod.splits option.splits if_splits)

end
