(* ===== verification/ShCmd.thy ===== *)
theory ShCmd
  imports ShInfo Calc Filemeta Signal Elf Net
begin

text \<open>
  The commands of \<^verbatim>\<open>kernel/shell.c\<close> that act on other components: the calculator, the environment,
  signals, loading a program, the disk, permissions and the network.  Each gives its output and the
  new state of what it acts on; \<open>None\<close> is an undefined access or a fault of that component.
\<close>

unbundle bit_operations_syntax

subsection \<open>Output and environment\<close>

definition cmd_echo :: "cstr \<Rightarrow> sh_out list" where
  "cmd_echo t = (if t \<noteq> [] then [Puts t VGA_COLOR_WHITE] else []) @ [Newline]"

definition cmd_color :: "cstr \<Rightarrow> sh_out list" where
  "cmd_color arg = say ''color: terminal stays black for readability.'' VGA_COLOR_LIGHT_GREY"

text \<open>\<^verbatim>\<open>while (v) { tmp[ti--] = '0' + v % 10; v /= 10; }\<close> on a signed number\<close>

function int_digits :: "int \<Rightarrow> cstr" where
  "int_digits v = (if v = 0 then [] else int_digits (v sdiv 10) @ [word_of_int (48 + v smod 10)])"
  by auto
termination int_digits
proof (relation "measure (\<lambda>v. nat \<bar>v\<bar>)")
  fix v :: int assume "v \<noteq> 0"
  moreover from this have "\<bar>v\<bar> div 10 < \<bar>v\<bar>" by linarith
  ultimately show "(v sdiv 10, v) \<in> measure (\<lambda>v. nat \<bar>v\<bar>)"
    by (simp add: signed_divide_int_def abs_mult)
qed simp

declare int_digits.simps [simp del]

definition calc_text :: "i32 \<Rightarrow> cstr" where
  "calc_text result =
     (let (minus, v) = (if sint result < 0 then ([45], - result) else ([], result))
      in lit ''= '' @ minus @ (if v = 0 then [48] else int_digits (sint v)))"

definition cmd_calc :: "cstr \<Rightarrow> sh_out list option" where
  "cmd_calc expr =
     (if expr = [] then Some (say ''usage: calc <expr>'' VGA_COLOR_LIGHT_RED)
      else
        (case calc_eval expr of
           Divide_fault \<Rightarrow> None
         | Calc_refused \<Rightarrow> Some (say ''error: invalid expression'' VGA_COLOR_LIGHT_RED)
         | Calc_value result \<Rightarrow> Some (say_line (calc_text result) VGA_COLOR_LIGHT_GREEN)))"

definition cmd_export :: "cstr \<Rightarrow> env_entry list \<Rightarrow> sh_out list \<times> env_entry list" where
  "cmd_export arg t =
     (if arg = [] then (say ''usage: export KEY=value'' VGA_COLOR_LIGHT_RED, t)
      else
        (let key = take (ENV_KEY_MAX - 1) (takeWhile (\<lambda>c. c \<noteq> 61) arg); rest = drop (length key) arg in
         if rest = [] \<or> hd rest \<noteq> 61 then (say_line (lit ''error: missing '' @ [39, 61, 39]) VGA_COLOR_LIGHT_RED, t)
         else
           (let (ok, t) = env_set key (tl rest) t
            in (if ok then say ''OK'' VGA_COLOR_LIGHT_GREEN else say ''error: table full'' VGA_COLOR_LIGHT_RED, t))))"

definition cmd_unset :: "cstr \<Rightarrow> env_entry list \<Rightarrow> sh_out list \<times> env_entry list" where
  "cmd_unset key t =
     (if key = [] then (say ''usage: unset KEY'' VGA_COLOR_LIGHT_RED, t)
      else (say ''OK'' VGA_COLOR_LIGHT_GREEN, env_unset key t))"

subsection \<open>Processes\<close>

definition cmd_kill :: "u32 \<Rightarrow> int \<Rightarrow> sig_entry list \<Rightarrow> sh_out list \<times> sig_entry list" where
  "cmd_kill p signo t = (say ''signal sent.'' VGA_COLOR_LIGHT_GREEN, signal_send p signo t)"

text \<open>What \<^verbatim>\<open>spawn\<close> works on; the file is read to the address 0x400000.\<close>

record 's spawner =
  sp_mem :: mem
  sp_fs :: "mem fs"
  sp_procs :: ptable
  sp_fat :: "'s fat"

definition start_program :: "cstr \<Rightarrow> u8 list \<Rightarrow> 's spawner \<Rightarrow> sh_out list \<times> 's spawner" where
  "start_program path bs s =
     (let s = s\<lparr>sp_mem := store_bytes (sp_mem s) 0x400000 bs\<rparr>
      in if bs = [] then (say ''spawn: empty file'' VGA_COLOR_LIGHT_RED, s)
         else
           (let (entry, m) = elf_load 0x400000 (of_nat (length bs)) (sp_mem s); s = s\<lparr>sp_mem := m\<rparr>
            in if entry = 0 then (say ''spawn: not a valid ELF'' VGA_COLOR_LIGHT_RED, s)
               else
                 (case proc_create path entry (sp_procs s) of
                    (None, pt) \<Rightarrow> (say ''spawn: process table full'' VGA_COLOR_LIGHT_RED, s\<lparr>sp_procs := pt\<rparr>)
                  | (Some i, pt) \<Rightarrow>
                      (say ''process queued.'' VGA_COLOR_LIGHT_GREEN,
                       s\<lparr>sp_procs := upd_proc i (\<lambda>p. p\<lparr>p_state := PROC_READY\<rparr>) pt\<rparr>))))"

definition cmd_spawn :: "'s sectors \<Rightarrow> cstr \<Rightarrow> cstr \<Rightarrow> 's spawner \<Rightarrow> (sh_out list \<times> 's spawner) option" where
  "cmd_spawn D cwd path s =
     (if path = [] then Some (say ''usage: spawn <file>'' VGA_COLOR_LIGHT_RED, s)
      else
        (case fat12_read D path 0x100000 (sp_fat s) of
           None \<Rightarrow> None
         | Some (bs, ft) \<Rightarrow>
             (let s = s\<lparr>sp_fat := ft\<rparr>
              in if bs \<noteq> [] then Some (start_program path bs s)
                 else
                   (let node = vfs_resolve (sp_fs s) (make_full cwd path) in
                    if node = 0 \<or> n_flags (the (fs_nodes (sp_fs s) node)) AND VFS_FILE = 0
                    then Some (say ''spawn: file not found'' VGA_COLOR_LIGHT_RED, s)
                    else map_option (\<lambda>bs. start_program path bs s) (vfs_read (sp_fs s) node 0 0x100000)))))"

subsection \<open>The disk\<close>

definition cmd_diskls :: "'s sectors \<Rightarrow> 's fat \<Rightarrow> (sh_out list \<times> 's fat) option" where
  "cmd_diskls D s =
     map_option (\<lambda>(es, s).
         (if es = [] then say ''disk: no FAT12 or empty'' VGA_COLOR_LIGHT_GREY
          else concat (map (\<lambda>e. [Puts (de_name e) (if de_is_dir e then VGA_COLOR_LIGHT_CYAN else VGA_COLOR_WHITE)] @
                 (if de_is_dir e then [Puts (lit ''/'') VGA_COLOR_LIGHT_CYAN] else []) @
                 [Puts (lit ''  '') VGA_COLOR_BLACK]) es) @ [Newline], s))
       (fat12_list D 32 s)"

definition cmd_diskcat :: "'s sectors \<Rightarrow> cstr \<Rightarrow> 's fat \<Rightarrow> (sh_out list \<times> 's fat) option" where
  "cmd_diskcat D path s =
     (if path = [] then Some (say ''usage: diskcat <file>'' VGA_COLOR_LIGHT_RED, s)
      else map_option (\<lambda>(bs, s).
             (if bs = [] then say ''diskcat: not found'' VGA_COLOR_LIGHT_RED
              else say_line (cstr_of bs) VGA_COLOR_WHITE, s))
           (fat12_read D path 2047 s))"

definition cmd_diskwrite :: "'s sectors \<Rightarrow> cstr \<Rightarrow> cstr \<Rightarrow> 's fat \<Rightarrow> (sh_out list \<times> 's fat) option" where
  "cmd_diskwrite D fname data s =
     (if fname = [] then Some (say ''usage: diskwrite <f> <text>'' VGA_COLOR_LIGHT_RED, s)
      else map_option (\<lambda>(n, s).
             (if sint n < 0 then say ''diskwrite: failed'' VGA_COLOR_LIGHT_RED
              else say ''OK'' VGA_COLOR_LIGHT_GREEN, s))
           (fat12_write D fname data s))"

definition cmd_diskdelete :: "'s sectors \<Rightarrow> cstr \<Rightarrow> 's fat \<Rightarrow> (sh_out list \<times> 's fat) option" where
  "cmd_diskdelete D fname s =
     (if fname = [] then Some (say ''usage: diskdel <file>'' VGA_COLOR_LIGHT_RED, s)
      else map_option (\<lambda>(ok, s).
             (if ok then say ''OK'' VGA_COLOR_LIGHT_GREEN else say ''diskdel: not found'' VGA_COLOR_LIGHT_RED, s))
           (fat12_delete D fname s))"

definition cmd_disksync :: "'d ports \<Rightarrow> 'd disk \<Rightarrow> sh_out list \<times> 'd disk" where
  "cmd_disksync P d = (say ''disk flushed.'' VGA_COLOR_LIGHT_GREEN, disksync_flush P d)"

definition mode_bits :: "cstr \<Rightarrow> u8" where
  "mode_bits mode =
     fold (\<lambda>c perms. let perms = (if c = 114 then perms OR PERM_READ else perms);
                         perms = (if c = 119 then perms OR PERM_WRITE else perms)
                     in if c = 120 then perms OR PERM_EXEC else perms) mode 0"

definition cmd_chmod :: "cstr \<Rightarrow> cstr \<Rightarrow> filemeta list \<Rightarrow> sh_out list \<times> filemeta list" where
  "cmd_chmod path mode t = (say ''OK'' VGA_COLOR_LIGHT_GREEN, filemeta_set path (mode_bits mode) t)"

subsection \<open>The network\<close>

text \<open>The loop over a dotted address: the bytes so far, the index of the next one, the number being
  read, and the rest of the text.\<close>

fun ip_loop :: "(u8 \<Rightarrow> bool) \<Rightarrow> cstr \<Rightarrow> nat \<Rightarrow> u8 \<Rightarrow> u8 list \<Rightarrow> u8 list \<times> cstr" where
  "ip_loop stop [] i v ip = (if i < 4 then ip[i := v] else ip, [])"
| "ip_loop stop (c # p) i v ip =
     (if \<not> stop c \<and> i < 4 then
        (if 48 \<le> c \<and> c \<le> 57 then ip_loop stop p i (v * 10 + (c - 48)) ip
         else if c = 46 then ip_loop stop p (i + 1) 0 (ip[i := v])
         else ip_loop stop p i v ip)
      else (if i < 4 then ip[i := v] else ip, c # p))"

definition gateway :: "u8 list" where "gateway = [10, 0, 2, 2]"

definition cmd_arp :: "'n driver \<Rightarrow> u8 list \<Rightarrow> cstr \<Rightarrow> 'n net \<Rightarrow> (sh_out list \<times> 'n net) option" where
  "cmd_arp D buf ip_str s =
     (if ip_str = [] then Some (say ''usage: arp <ip>'' VGA_COLOR_LIGHT_RED, s)
      else map_option (\<lambda>(ok, s). ([], s)) (net_arp_request D buf (fst (ip_loop (\<lambda>c. False) ip_str 0 0 gateway)) s))"

definition cmd_ping :: "'n driver \<Rightarrow> u8 list \<Rightarrow> cstr \<Rightarrow> 'n net \<Rightarrow> (sh_out list \<times> 'n net) option" where
  "cmd_ping D buf ip_str s =
     (if ip_str = [] then Some (say ''usage: ping <ip>'' VGA_COLOR_LIGHT_RED, s)
      else map_option (\<lambda>(r, s). ([], s)) (net_ping D buf (fst (ip_loop (\<lambda>c. False) ip_str 0 0 gateway)) s))"

fun port_loop :: "u16 \<Rightarrow> cstr \<Rightarrow> u16 \<times> cstr" where
  "port_loop v [] = (v, [])"
| "port_loop v (c # p) = (if 48 \<le> c \<and> c \<le> 57 then port_loop (v * 10 + (ucast c - 48)) p else (v, c # p))"

definition skip_spaces :: "cstr \<Rightarrow> cstr" where
  "skip_spaces p = dropWhile (\<lambda>c. c = 32) p"

definition cmd_udpsend :: "'n driver \<Rightarrow> u8 list \<Rightarrow> cstr \<Rightarrow> 'n net \<Rightarrow> (sh_out list \<times> 'n net) option" where
  "cmd_udpsend D buf arg s =
     (if arg = [] then Some (say ''usage: udpsend <ip> <port> <msg>'' VGA_COLOR_LIGHT_RED, s)
      else
        (let (ip, p) = ip_loop (\<lambda>c. c = 32) arg 0 0 gateway;
             (port, p) = port_loop 0 (skip_spaces p);
             p = skip_spaces p
         in if p = [] then Some (say ''udpsend: missing message'' VGA_COLOR_LIGHT_RED, s)
            else map_option (\<lambda>(n, s). (say ''OK'' VGA_COLOR_LIGHT_GREEN, s)) (net_udp_send D buf ip port 12345 (take (unat (of_nat (length p) :: u16)) p) s)))"

subsection \<open>The calculator's answer\<close>

lemma unat_digit: "i < 10 \<Longrightarrow> unat (of_nat (48 + i) :: u8) = 48 + i"
  unfolding unat_of_nat by (rule mod_less) simp

lemma int_digits_value: "0 \<le> v \<Longrightarrow> Console.digits_value 10 (int_digits v) = nat v"
proof (induction v rule: int_digits.induct)
  case (1 v)
  show ?case
  proof (cases "v = 0")
    case True
    then show ?thesis by (simp add: int_digits.simps Console.digits_value_def)
  next
    case False
    have q: "v sdiv 10 = v div 10" "v smod 10 = v mod 10" using 1(2) sdiv_smod_pos [of v 10] by simp_all
    have "digit_value (word_of_int (48 + v mod 10)) = nat (v mod 10)"
    proof -
      define i where "i = nat (v mod 10)"
      have i: "v mod 10 = int i" "i < 10" by (simp_all add: i_def nat_less_iff)
      have "(word_of_int (48 + v mod 10) :: u8) = of_nat (48 + i)" by (simp add: i(1))
      moreover have "unat (of_nat (48 + i) :: u8) = 48 + i" using i(2) by (rule unat_digit)
      ultimately have "unat (word_of_int (48 + v mod 10) :: u8) = nat (48 + v mod 10)" by (simp add: i(1) nat_add_distrib)
      then show ?thesis by (auto simp: digit_value_def word_le_nat_alt nat_add_distrib)
    qed
    then show ?thesis
      using 1 False q by (subst int_digits.simps) (simp add: digits_value_snoc nat_div_distrib nat_mod_distrib)
  qed
qed

text \<open>The answer is the decimal numeral of the result, for every result but the smallest number.\<close>

lemma calc_text_value:
  assumes "sint v \<noteq> - 2147483648"
  shows "\<exists>ds. calc_text v = lit ''= '' @ (if sint v < 0 then [45] else []) @ ds \<and>
    Console.digits_value 10 ds = nat \<bar>sint v\<bar>"
proof -
  define w where "w = (if sint v < 0 then - v else v)"
  have r: "- 2147483648 \<le> sint v" "sint v < 2147483648"
    using sint_ge [of v] sint_lt [of v] by simp_all
  have "sint (- v) = - sint v"
    using r assms unfolding sint_word_ariths(4) by (intro signed_take_bit_int_eq_self) simp_all
  then have w: "sint w = \<bar>sint v\<bar>" by (simp add: w_def)
  define ds where "ds = (if w = 0 then [48] else int_digits (sint w))"
  have "Console.digits_value 10 ds = nat (sint w)"
    using int_digits_value [of "sint w"] w
    by (cases "w = 0") (simp_all add: ds_def Console.digits_value_def digit_value_def)
  moreover have "calc_text v = lit ''= '' @ (if sint v < 0 then [45] else []) @ ds"
    by (simp add: calc_text_def ds_def w_def)
  ultimately show ?thesis unfolding w by blast
qed

text \<open>The smallest number is its own negation: what is printed after the minus sign is no numeral.\<close>

lemma calc_text_smallest: "calc_text 0x80000000 = lit ''= -'' @ lit ''./,),(-*,(''"
  by code_simp

text \<open>
  \<open>calc\<close> prints the value of the expression it is given: for the text of any well formed expression
  whose value the code computes, the answer is the sign and the decimal numeral of that value, for every
  value but the smallest 32-bit number, which is printed as \<open>-./,),(-*,(\<close>.
\<close>

lemma smallest_sint: "sint (0x80000000 :: i32) = - 2147483648"
  by simp

lemma shell_calc_prints:
  assumes "expr_ok x" "expr_value x = Some v" "white ws"
  shows "\<exists>ds. cmd_calc (show_expr x @ ws) = Some (say_line (lit ''= '' @ (if sint v < 0 then [45] else []) @ ds) VGA_COLOR_LIGHT_GREEN) \<and>
    (sint v \<noteq> - 2147483648 \<longrightarrow> Console.digits_value 10 ds = nat \<bar>sint v\<bar>) \<and>
    (sint v = - 2147483648 \<longrightarrow> ds = lit ''./,),(-*,('')"
proof -
  have "calc_eval [] = Calc_refused" by code_simp
  then have "show_expr x @ ws \<noteq> []" using calc_eval_show [OF assms] by auto
  then have c: "cmd_calc (show_expr x @ ws) = Some (say_line (calc_text v) VGA_COLOR_LIGHT_GREEN)"
    by (simp only: cmd_calc_def calc_eval_show [OF assms]) simp
  show ?thesis
  proof (cases "sint v = - 2147483648")
    case True
    then have "v = 0x80000000" by (metis signed_word_eqI smallest_sint)
    then show ?thesis using c True calc_text_smallest by (simp add: lit_def)
  next
    case False
    then show ?thesis using c calc_text_value [OF False] by auto
  qed
qed

lemma shell_calc_prints_witness:
  "\<exists>ds. cmd_calc (lit ''2*3 - 9'') = Some (say_line (lit ''= '' @ [45] @ ds) VGA_COLOR_LIGHT_GREEN) \<and>
     Console.digits_value 10 ds = 3"
proof -
  let ?n = "\<lambda>d. Fac (Num [] [d])"
  let ?x = "AddOp (Trm (MulOp (?n 50) [] Mul (Num [] [51]))) [32] Sub (Fac (Num [32] [57]))"
  have x: "lit ''2*3 - 9'' = show_expr ?x @ []" "expr_ok ?x" "white []" "expr_value ?x = Some (- 3)"
    by (simp_all add: of_char_def number_ok_def is_digit_def white_def Calc.digits_value_def)
  show ?thesis using shell_calc_prints [OF x(2,4,3)] unfolding x(1) by simp
qed

subsection \<open>Numbers read back\<close>

lemma digit_char: "i < 10 \<Longrightarrow> lit ''0123456789abcdef'' ! i = of_nat (48 + i)"
proof -
  have "\<forall>i \<in> set [0..<10]. lit ''0123456789abcdef'' ! i = of_nat (48 + i)" by code_simp
  then show "i < 10 \<Longrightarrow> ?thesis" by simp
qed

lemma digit_char_word:
  assumes "i < 10"
  shows "(ucast (lit ''0123456789abcdef'' ! i) :: 'a :: len word) - 48 = of_nat i"
    and "48 \<le> lit ''0123456789abcdef'' ! i" and "lit ''0123456789abcdef'' ! i \<le> 57"
proof -
  have u: "unat (lit ''0123456789abcdef'' ! i) = 48 + i" unfolding digit_char [OF assms] by (rule unat_digit [OF assms])
  have "(ucast (lit ''0123456789abcdef'' ! i) :: 'a word) = of_nat (48 + i)" by (metis u of_nat_unat)
  then show "(ucast (lit ''0123456789abcdef'' ! i) :: 'a :: len word) - 48 = of_nat i" by simp
  show "48 \<le> lit ''0123456789abcdef'' ! i" "lit ''0123456789abcdef'' ! i \<le> 57"
    using assms u by (simp_all add: word_le_nat_alt)
qed

lemma udigits_fold:
  "foldl (\<lambda>v c. v * 10 + (ucast c - 48)) 0 (udigits 10 n) = (of_nat (unat n) :: 'a :: len word) \<and>
   (\<forall>c \<in> set (udigits 10 n). 48 \<le> c \<and> c \<le> 57)"
proof (induction "unat n" arbitrary: n rule: less_induct)
  case less
  show ?case
  proof (cases "n = 0")
    case False
    then have n: "0 < n" "0 < unat n" by (simp_all add: word_neq_0_conv unat_gt_0)
    have u: "unat (n div 10) = unat n div 10" "unat (n mod 10) = unat n mod 10" by (simp_all add: unat_div unat_mod)
    then have ih: "foldl (\<lambda>v c. v * 10 + (ucast c - 48)) 0 (udigits 10 (n div 10)) = (of_nat (unat n div 10) :: 'a word)"
      "\<forall>c \<in> set (udigits 10 (n div 10)). 48 \<le> c \<and> c \<le> 57"
      using less [of "n div 10"] n(2) by simp_all
    have "(of_nat (unat n div 10) * 10 + of_nat (unat n mod 10) :: 'a word) = of_nat (unat n div 10 * 10 + unat n mod 10)"
      by (simp only: of_nat_add of_nat_mult of_nat_numeral)
    then have s: "(of_nat (unat n div 10) * 10 + of_nat (unat n mod 10) :: 'a word) = of_nat (unat n)" by simp
    have m: "unat n mod 10 < 10" by simp
    define d where "d = lit ''0123456789abcdef'' ! (unat n mod 10)"
    have d: "(ucast d :: 'a word) - 48 = of_nat (unat n mod 10)" "48 \<le> d" "d \<le> 57"
      using digit_char_word [OF m] by (simp_all only: d_def)
    have "udigits 10 n = udigits 10 (n div 10) @ [d]"
      using udigits_step [OF n(1), of 10] u(2) by (simp only: d_def) simp
    then show ?thesis using ih s d by (simp only: foldl_append foldl_Cons foldl_Nil) simp
  qed simp
qed

lemma dec_fold: "foldl (\<lambda>v c. v * 10 + (ucast c - 48)) 0 (dec n) = (of_nat (unat n) :: 'a :: len word)"
  "\<forall>c \<in> set (dec n). 48 \<le> c \<and> c \<le> 57" "dec n \<noteq> []"
proof -
  have "(ucast (48 :: u8) :: 'a word) = 48" using digit_char_word(1) [of 0, where 'a = 'a] by (simp add: lit_def)
  then show "foldl (\<lambda>v c. v * 10 + (ucast c - 48)) 0 (dec n) = (of_nat (unat n) :: 'a word)"
    using udigits_fold [of n, where 'a = 'a] by (simp add: dec_def)
  show "\<forall>c \<in> set (dec n). 48 \<le> c \<and> c \<le> 57"
    using udigits_fold [of n, where 'a = 8] by (auto simp: dec_def)
  show "dec n \<noteq> []" using udigits_step [of n 10] by (auto simp: dec_def word_neq_0_conv)
qed

text \<open>An address as it is written, and the loop that reads it.\<close>

definition dotted :: "u8 list \<Rightarrow> cstr" where
  "dotted ip = dec (ucast (ip ! 0)) @ lit ''.'' @ dec (ucast (ip ! 1)) @ lit ''.'' @
     dec (ucast (ip ! 2)) @ lit ''.'' @ dec (ucast (ip ! 3))"

lemma ip_loop_digits:
  assumes "\<forall>c \<in> set ds. 48 \<le> c \<and> c \<le> 57" "\<And>c. stop c \<Longrightarrow> c = 32" "i < 4"
  shows "ip_loop stop (ds @ p) i v ip = ip_loop stop p i (foldl (\<lambda>v c. v * 10 + (ucast c - 48)) v ds) ip"
  using assms(1)
proof (induction ds arbitrary: v)
  case (Cons c ds)
  then have "c \<noteq> 32" by auto
  then have "\<not> stop c" using assms(2) by blast
  with Cons assms(3) show ?case by simp
qed simp

lemma ip_loop_dec:
  assumes "\<And>c. stop c \<Longrightarrow> c = 32" "i < 4"
  shows "ip_loop stop (dec (ucast (b :: u8)) @ p) i 0 ip = ip_loop stop p i b ip"
proof -
  have "unat b < 2 ^ 32" by (rule less_trans [OF unsigned_less]) simp
  then have "(of_nat (unat (ucast b :: u32)) :: u8) = b"
    by (simp add: unsigned_ucast_eq take_bit_nat_eq_self)
  then show ?thesis
    using ip_loop_digits [OF dec_fold(2) assms, where p = p and v = 0 and ip = ip] dec_fold(1) [of "ucast b", where 'a = 8] by simp
qed

lemma ip_loop_dotted:
  assumes "\<And>c. stop c \<Longrightarrow> c = 32" "length ip = 4" "p = [] \<or> stop (hd p)"
  shows "ip_loop stop (dotted ip @ p) 0 0 gateway = (ip, p)"
proof -
  obtain a b c d where ip: "ip = [a, b, c, d]" using assms(2) by (auto simp: length_Suc_conv numeral_eq_Suc)
  have ns: "\<not> stop 46" using assms(1) [of 46] by auto
  have last: "ip_loop stop (dec (ucast x) @ p) (Suc (Suc (Suc 0))) 0 jp = (jp[Suc (Suc (Suc 0)) := x], p)" for x jp
    using assms(3) ip_loop_dec [OF assms(1), where i = "Suc (Suc (Suc 0))" and b = x and p = p and ip = jp] by (cases p) auto
  show ?thesis
    using ns last [of d] by (simp add: ip dotted_def ip_loop_dec [OF assms(1)] gateway_def)
qed

lemma port_loop_dec:
  assumes "p = [] \<or> hd p < 48"
  shows "port_loop 0 (dec (ucast (w :: u16)) @ p) = (w, p)"
proof -
  have loop: "port_loop v (ds @ p) = (foldl (\<lambda>v c. v * 10 + (ucast c - 48)) v ds, p)"
    if "\<forall>c \<in> set ds. 48 \<le> c \<and> c \<le> 57" for ds v
    using that
  proof (induction ds arbitrary: v)
    case Nil
    then show ?case using assms by (cases p) (auto simp: word_less_nat_alt word_le_nat_alt)
  qed simp
  have "unat w < 2 ^ 32" by (rule less_trans [OF unsigned_less]) simp
  then have "(of_nat (unat (ucast w :: u32)) :: u16) = w"
    by (simp add: unsigned_ucast_eq take_bit_nat_eq_self)
  then show ?thesis using loop [OF dec_fold(2) [of "ucast w"]] dec_fold(1) [of "ucast w", where 'a = 16] by simp
qed

text \<open>
  \<open>udpsend <ip> <port> <msg>\<close> reads back what it is given: for a dotted address, a port in decimal
  and a message that does not start with a space, it hands exactly that address, port and message to the
  network, from port 12345, and prints OK whatever the network answers; without a message nothing is sent.
\<close>

lemma shell_udpsend_sends:
  assumes "length ip = 4"
  shows "(payload \<noteq> [] \<and> hd payload \<noteq> 32 \<and> length payload < 65536 \<longrightarrow>
      cmd_udpsend D buf (dotted ip @ [32] @ dec (ucast (port :: u16)) @ [32] @ payload) s =
        map_option (\<lambda>(n, s). (say ''OK'' VGA_COLOR_LIGHT_GREEN, s)) (net_udp_send D buf ip port 12345 payload s)) \<and>
    cmd_udpsend D buf (dotted ip @ [32] @ dec (ucast port)) s =
        Some (say ''udpsend: missing message'' VGA_COLOR_LIGHT_RED, s)"
proof -
  have ne: "dotted ip \<noteq> []" using dec_fold(3) by (simp add: dotted_def)
  have ip: "ip_loop (\<lambda>c. c = 32) (dotted ip @ [32] @ p) 0 0 gateway = (ip, [32] @ p)" for p
    by (rule ip_loop_dotted) (use assms in simp_all)
  have sp: "skip_spaces ([32] @ dec n @ p) = dec n @ p" for n p
    using dec_fold(2,3) [of n] by (cases "dec n") (auto simp: skip_spaces_def)
  have sent: "cmd_udpsend D buf (dotted ip @ [32] @ dec (ucast (port :: u16)) @ [32] @ payload) s =
        map_option (\<lambda>(n, s). (say ''OK'' VGA_COLOR_LIGHT_GREEN, s)) (net_udp_send D buf ip port 12345 payload s)"
    if m: "payload \<noteq> []" "hd payload \<noteq> 32" "length payload < 65536"
  proof -
    have "skip_spaces ([32] @ payload) = payload" using m(1,2) by (cases payload) (auto simp: skip_spaces_def)
    moreover have "unat (of_nat (length payload) :: u16) = length payload" using m(3) by (simp add: unat_of_nat)
    ultimately show ?thesis
      using port_loop_dec [of "[32] @ payload" port] m(1) ne
      by (simp only: cmd_udpsend_def ip sp Let_def prod.case) simp
  qed
  have "cmd_udpsend D buf (dotted ip @ [32] @ dec (ucast port)) s =
        Some (say ''udpsend: missing message'' VGA_COLOR_LIGHT_RED, s)"
    using port_loop_dec [of "[]" port] ip [of "dec (ucast port)"] sp [of "ucast port" "[]"] ne
    by (simp add: cmd_udpsend_def) (simp add: skip_spaces_def)
  with sent show ?thesis by blast
qed

lemma shell_udpsend_sends_witness:
  "map_option (\<lambda>(out, s). out) (cmd_udpsend demo_driver (replicate 1500 0) (lit ''10.0.2.2 80 hi'') demo_net) =
     map_option (\<lambda>(n, s). say ''OK'' VGA_COLOR_LIGHT_GREEN) (net_udp_send demo_driver (replicate 1500 0) [10, 0, 2, 2] 80 12345 (lit ''hi'') demo_net)"
proof -
  have t: "lit ''10.0.2.2 80 hi'' = dotted [10, 0, 2, 2] @ [32] @ dec (ucast (80 :: u16)) @ [32] @ lit ''hi''"
    by code_simp
  have l: "length [10, 0, 2, 2 :: u8] = 4" "lit ''hi'' \<noteq> []" "hd (lit ''hi'') \<noteq> 32" "length (lit ''hi'') < 65536"
    by (simp_all add: of_char_def)
  from shell_udpsend_sends [OF l(1), of "lit ''hi''" demo_driver "replicate 1500 0" 80 demo_net] l(2-4)
  have "cmd_udpsend demo_driver (replicate 1500 0) (lit ''10.0.2.2 80 hi'') demo_net =
      map_option (\<lambda>(n, s). (say ''OK'' VGA_COLOR_LIGHT_GREEN, s))
        (net_udp_send demo_driver (replicate 1500 0) [10, 0, 2, 2] 80 12345 (lit ''hi'') demo_net)"
    unfolding t by blast
  then show ?thesis by (simp only: option.map_comp) (simp add: comp_def case_prod_unfold)
qed

subsection \<open>Starting a program\<close>

lemma start_program_cases:
  assumes "start_program path bs s = (out, s')" "m = store_bytes (sp_mem s) 0x400000 bs"
    "l = elf_load 0x400000 (of_nat (length bs)) m"
  shows "sp_fs s' = sp_fs s \<and> sp_fat s' = sp_fat s \<and>
    (sp_procs s' = sp_procs s \<and>
       (bs = [] \<and> out = say ''spawn: empty file'' VGA_COLOR_LIGHT_RED \<or>
        bs \<noteq> [] \<and> fst l = 0 \<and> out = say ''spawn: not a valid ELF'' VGA_COLOR_LIGHT_RED \<or>
        bs \<noteq> [] \<and> (\<forall>p \<in> set (proc_table (sp_procs s)). p_state p \<noteq> PROC_UNUSED) \<and>
          out = say ''spawn: process table full'' VGA_COLOR_LIGHT_RED) \<or>
     bs \<noteq> [] \<and> fst l \<noteq> 0 \<and> out = say ''process queued.'' VGA_COLOR_LIGHT_GREEN \<and> sp_mem s' = snd l \<and>
       (\<exists>i p. i < length (proc_table (sp_procs s)) \<and> p_state (proc_table (sp_procs s) ! i) = PROC_UNUSED \<and>
          sp_procs s' = (sp_procs s)\<lparr>next_pid := next_pid (sp_procs s) + 1,
            proc_table := (proc_table (sp_procs s))[i := p]\<rparr> \<and>
          pid p = next_pid (sp_procs s) \<and> p_state p = PROC_READY \<and> c_eip (ctx p) = fst l))"
proof -
  obtain e m' where l: "l = (e, m')" by fastforce
  then have load: "elf_load 0x400000 (of_nat (length bs)) (store_bytes (sp_mem s) 0x400000 bs) = (e, m')"
    using assms by simp
  consider "bs = []" | "bs \<noteq> []" "e = 0" | "bs \<noteq> []" "e \<noteq> 0" by blast
  then show ?thesis
  proof cases
    case 1
    then show ?thesis using assms(1) by (auto simp: start_program_def)
  next
    case 2
    then show ?thesis using assms(1) l load by (auto simp: start_program_def Let_def)
  next
    case 3
    show ?thesis
    proof (cases "find_slot (\<lambda>p. p_state p = PROC_UNUSED) (proc_table (sp_procs s))")
      case None
      then have "proc_create path e (sp_procs s) = (None, sp_procs s)" by (simp add: proc_create_def)
      moreover have "\<forall>p \<in> set (proc_table (sp_procs s)). p_state p \<noteq> PROC_UNUSED"
        using None by (simp add: find_slot_None)
      ultimately show ?thesis using assms(1) 3 l load by (auto simp: start_program_def Let_def)
    next
      case (Some i)
      obtain p where p: "proc_create path e (sp_procs s) = (Some i, (sp_procs s)\<lparr>next_pid := next_pid (sp_procs s) + 1,
          proc_table := (proc_table (sp_procs s))[i := p]\<rparr>)"
        "pid p = next_pid (sp_procs s)" "p_state p = PROC_READY" "c_eip (ctx p) = e"
        by (simp add: proc_create_def Some Let_def)
      have r: "p\<lparr>p_state := PROC_READY\<rparr> = p" using p(3) by simp
      have i: "i < length (proc_table (sp_procs s))" "p_state (proc_table (sp_procs s) ! i) = PROC_UNUSED"
        using find_slot_SomeD(1,2) [OF Some] by simp_all
      have "s' = s\<lparr>sp_mem := m', sp_procs := (sp_procs s)\<lparr>next_pid := next_pid (sp_procs s) + 1,
          proc_table := (proc_table (sp_procs s))[i := p]\<rparr>\<rparr>"
        "out = say ''process queued.'' VGA_COLOR_LIGHT_GREEN"
        using assms(1) 3 load p i(1) r by (auto simp: start_program_def Let_def upd_proc_def)
      then show ?thesis using 3 l p(2-4) i by auto
    qed
  qed
qed


text \<open>The program of the ELF loader's example, kept in the file \<open>/p\<close>, with no disk mounted.\<close>

definition sample_spawner :: "unit spawner" where
  "sample_spawner = \<lparr>sp_mem = (\<lambda>_. 0),
     sp_fs = \<lparr>fs_nodes = [0x300010 \<mapsto> \<lparr>n_name = replicate 64 0, n_flags = VFS_DIR, n_length = 0, n_inode = 0x300080, n_parent = 0\<rparr>,
         0x300100 \<mapsto> \<lparr>n_name = 112 # replicate 63 0, n_flags = VFS_FILE, n_length = 88, n_inode = 0x300180, n_parent = 0x300010\<rparr>],
       fs_datas = [0x300080 \<mapsto> \<lparr>d_buf = None, d_capacity = 0, d_children = [0x300100]\<rparr>,
         0x300180 \<mapsto> \<lparr>d_buf = Some sample_elf, d_capacity = 88, d_children = []\<rparr>],
       fs_heap = (\<lambda>_. 0), fs_root = 0x300010, next_inode = 1\<rparr>,
     sp_procs = sample_procs,
     sp_fat = \<lparr>bytes_per_sector = 0, sectors_per_cluster = 0, reserved_sectors = 0, num_fats = 0, root_entry_count = 0,
       sectors_per_fat = 0, total_sectors = 0, fat_start_lba = 0, root_start_lba = 0, data_start_lba = 0,
       total_clusters = 0, fat12_ready = False, fat_data = [], fat_dirty = False, store = ()\<rparr>\<rparr>"

definition no_disk :: "unit sectors" where
  "no_disk = \<lparr>sec_read = (\<lambda>_ t. (None, t)), sec_write = (\<lambda>_ _ t. (False, t)), sec_flush = (\<lambda>t. t)\<rparr>"

lemma sample_spawn:
  "map_option fst (cmd_spawn no_disk (lit ''/'') (lit ''p'') sample_spawner) = Some (say ''process queued.'' VGA_COLOR_LIGHT_GREEN)"
proof -
  have n: "vfs_resolve (sp_fs sample_spawner) (make_full (lit ''/'') (lit ''p'')) = 0x300100" by code_simp
  have r: "vfs_read (sp_fs sample_spawner) 0x300100 0 0x100000 = Some sample_elf" by code_simp
  have f: "fat12_read no_disk (lit ''p'') 0x100000 (sp_fat sample_spawner) = Some ([], sp_fat sample_spawner)"
    "n_flags (the (fs_nodes (sp_fs sample_spawner) 0x300100)) = VFS_FILE" "VFS_FILE AND VFS_FILE \<noteq> 0"
    "sp_mem sample_spawner = (\<lambda>_. 0)"
    by (simp_all add: fat12_read_def sample_spawner_def VFS_FILE_def)
  have e: "fst (elf_load 0x400000 88 (store_bytes (\<lambda>_. 0) 0x400000 sample_elf)) = 0x1000" by code_simp
  have p: "fst (proc_create (lit ''p'') 0x1000 (sp_procs sample_spawner)) = Some 2"
    by (simp add: proc_create_def sample_spawner_def sample_procs_def proc_zero_def Let_def)
  have l: "length sample_elf = 88" "sample_elf \<noteq> []" by (simp_all add: sample_elf_def)
  have "fst (start_program (lit ''p'') sample_elf (sample_spawner\<lparr>sp_fat := sp_fat sample_spawner\<rparr>)) =
      say ''process queued.'' VGA_COLOR_LIGHT_GREEN"
    using e p by (auto simp: start_program_def Let_def l f(4) split: prod.split option.split)
  moreover have "sample_spawner\<lparr>sp_fat := sp_fat sample_spawner\<rparr> = sample_spawner" by simp
  moreover have "lit ''p'' \<noteq> []" by simp
  ultimately show ?thesis
    unfolding cmd_spawn_def f(1) Let_def option.case prod.case
    by (simp only: n r f(2,3) spawner.simps) simp
qed


end
