(* ===== verification/Shooter.thy ===== *)
theory Shooter
  imports Term
begin

text \<open>
  The game, \<^verbatim>\<open>kernel/shooter.c\<close>: the static variables are the fields of \<open>game\<close>, with the two local
  variables of the main loop and the screen.  Coordinates and counters of type \<^verbatim>\<open>int\<close> are integers;
  score, level, timers and the random state are 32-bit words.  The main loop reads one key per frame;
  the keys are a parameter, 0 for none, and so is the tick counter at the start.
\<close>

unbundle bit_operations_syntax

subsection \<open>State\<close>

definition FIELD_TOP :: int where "FIELD_TOP = 1"
definition FIELD_BOT :: int where "FIELD_BOT = 22"
definition PLAYER_ROW :: int where "PLAYER_ROW = 23"
definition MAX_BULLETS :: nat where "MAX_BULLETS = 8"
definition MAX_ENEMIES :: nat where "MAX_ENEMIES = 24"
definition MAX_STARS :: nat where "MAX_STARS = 20"

lemmas game_limits [simp] = FIELD_TOP_def FIELD_BOT_def PLAYER_ROW_def MAX_BULLETS_def MAX_ENEMIES_def MAX_STARS_def

abbreviation VGA_COLOR_LIGHT_MAGENTA :: u8 where "VGA_COLOR_LIGHT_MAGENTA \<equiv> 13"

record bullet =
  bul_x :: int
  bul_y :: int
  b_active :: bool

record enemy =
  en_x :: int
  en_y :: int
  e_active :: bool
  hp :: int
  e_ch :: u8
  e_color :: u8

record star =
  st_x :: int
  st_y :: int
  st_ch :: u8

record game =
  player_x :: int
  player_lives :: int
  score :: u32
  level :: u32
  bullets :: "bullet list"
  enemies :: "enemy list"
  stars :: "star list"
  game_over :: bool
  enemy_move_timer :: u32
  enemy_move_interval :: u32
  enemies_alive :: int
  rng_state :: u32
  direction :: int
  space_held :: bool
  level_clear_timer :: nat
  screen :: "u16 list"

subsection \<open>Drawing\<close>

definition clear_field :: "u16 list \<Rightarrow> u16 list" where
  "clear_field cells =
     fold (\<lambda>r. fold (\<lambda>c. put_cell (int c) (int r) 32 VGA_COLOR_BLACK VGA_COLOR_BLACK) [0..<VGA_WIDTH]) [0..<VGA_HEIGHT] cells"

fun draw_char_row :: "int \<Rightarrow> int \<Rightarrow> cstr \<Rightarrow> u8 \<Rightarrow> u16 list \<Rightarrow> u16 list" where
  "draw_char_row col row [] fg cells = cells"
| "draw_char_row col row (c # s) fg cells =
     draw_char_row (col + 1) row s fg (put_cell col row c fg VGA_COLOR_BLACK cells)"

text \<open>\<^verbatim>\<open>while (val > 0 && i > 0) { buf[i--] = '0' + val % 10; val /= 10; }\<close>\<close>

fun num_digits :: "nat \<Rightarrow> u32 \<Rightarrow> cstr" where
  "num_digits 0 v = []"
| "num_digits (Suc i) v = (if v > 0 then num_digits i (v div 10) @ [ucast (48 + v mod 10)] else [])"

definition draw_num :: "int \<Rightarrow> int \<Rightarrow> u32 \<Rightarrow> u8 \<Rightarrow> u16 list \<Rightarrow> u16 list" where
  "draw_num col row v fg cells =
     (if v = 0 then put_cell col row 48 fg VGA_COLOR_BLACK cells
      else draw_char_row col row (num_digits 10 v) fg cells)"

definition draw_hud :: "game \<Rightarrow> u16 list \<Rightarrow> u16 list" where
  "draw_hud g cells =
     (let cells = fold (\<lambda>c. put_cell (int c) 0 32 VGA_COLOR_BLACK VGA_COLOR_DARK_GREY) [0..<VGA_WIDTH] cells;
          cells = draw_char_row 1 0 (lit ''SCORE:'') VGA_COLOR_YELLOW cells;
          cells = draw_num 8 0 (score g) VGA_COLOR_WHITE cells;
          cells = draw_char_row 20 0 (lit ''LIVES:'') VGA_COLOR_LIGHT_RED cells;
          cells = fold (\<lambda>i. put_cell (27 + int i * 2) 0 60 VGA_COLOR_LIGHT_RED VGA_COLOR_DARK_GREY)
                    [0..<nat (player_lives g)] cells;
          cells = draw_char_row 50 0 (lit ''LEVEL:'') VGA_COLOR_LIGHT_CYAN cells;
          cells = draw_num 57 0 (level g) VGA_COLOR_WHITE cells
      in draw_char_row 65 0 (lit ''A/D:move SPACE:fire'') VGA_COLOR_DARK_GREY cells)"

definition draw_stars :: "game \<Rightarrow> u16 list \<Rightarrow> u16 list" where
  "draw_stars g = fold (\<lambda>s. put_cell (st_x s) (st_y s) (st_ch s) VGA_COLOR_DARK_GREY VGA_COLOR_BLACK) (stars g)"

definition draw_player :: "game \<Rightarrow> u16 list \<Rightarrow> u16 list" where
  "draw_player g cells =
     put_cell (player_x g + 1) PLAYER_ROW 41 VGA_COLOR_LIGHT_GREEN VGA_COLOR_BLACK
       (put_cell (player_x g) PLAYER_ROW 94 VGA_COLOR_WHITE VGA_COLOR_BLACK
         (put_cell (player_x g - 1) PLAYER_ROW 40 VGA_COLOR_LIGHT_GREEN VGA_COLOR_BLACK cells))"

definition erase_player :: "game \<Rightarrow> u16 list \<Rightarrow> u16 list" where
  "erase_player g =
     fold (\<lambda>x. put_cell x PLAYER_ROW 32 VGA_COLOR_BLACK VGA_COLOR_BLACK) [player_x g - 1, player_x g, player_x g + 1]"

definition draw_enemies :: "game \<Rightarrow> u16 list \<Rightarrow> u16 list" where
  "draw_enemies g = fold (\<lambda>e. put_cell (en_x e) (en_y e) (e_ch e) (e_color e) VGA_COLOR_BLACK) (filter e_active (enemies g))"

definition erase_enemies :: "game \<Rightarrow> u16 list \<Rightarrow> u16 list" where
  "erase_enemies g = fold (\<lambda>e. put_cell (en_x e) (en_y e) 32 VGA_COLOR_BLACK VGA_COLOR_BLACK) (filter e_active (enemies g))"

definition draw_bullets :: "game \<Rightarrow> u16 list \<Rightarrow> u16 list" where
  "draw_bullets g = fold (\<lambda>b. put_cell (bul_x b) (bul_y b) 124 VGA_COLOR_LIGHT_CYAN VGA_COLOR_BLACK) (filter b_active (bullets g))"

definition erase_bullets :: "game \<Rightarrow> u16 list \<Rightarrow> u16 list" where
  "erase_bullets g = fold (\<lambda>b. put_cell (bul_x b) (bul_y b) 32 VGA_COLOR_BLACK VGA_COLOR_BLACK) (filter b_active (bullets g))"

definition draw_game_over :: "game \<Rightarrow> u16 list \<Rightarrow> u16 list" where
  "draw_game_over g cells =
     (let cx = int VGA_WIDTH div 2; cy = int VGA_HEIGHT div 2;
          cells = draw_char_row (cx - 5) (cy - 1) (lit ''GAME  OVER'') VGA_COLOR_LIGHT_RED cells;
          cells = draw_char_row (cx - 6) cy (lit ''SCORE:'') VGA_COLOR_YELLOW cells;
          cells = draw_num (cx + 1) cy (score g) VGA_COLOR_WHITE cells
      in draw_char_row (cx - 8) (cy + 2) (lit ''press Q to exit'') VGA_COLOR_LIGHT_GREY cells)"

definition draw_level_clear :: "u16 list \<Rightarrow> u16 list" where
  "draw_level_clear cells =
     (let cx = int VGA_WIDTH div 2 - 6; cy = int VGA_HEIGHT div 2;
          cells = draw_char_row cx cy (lit ''LEVEL CLEAR!'') VGA_COLOR_LIGHT_GREEN cells
      in draw_char_row cx (cy + 2) (lit ''next wave...'') VGA_COLOR_LIGHT_GREY cells)"

text \<open>Drawing something onto the screen of the game.\<close>

definition on_screen :: "(game \<Rightarrow> u16 list \<Rightarrow> u16 list) \<Rightarrow> game \<Rightarrow> game" where
  "on_screen f g = g\<lparr>screen := f g (screen g)\<rparr>"

subsection \<open>The start of a game and of a wave\<close>

definition rng :: "u32 \<Rightarrow> u32" where
  "rng r =
     (let r = r XOR push_bit 13 r; r = r XOR drop_bit 17 r
      in r XOR push_bit 5 r)"

fun make_stars :: "nat \<Rightarrow> u32 \<Rightarrow> star list \<times> u32" where
  "make_stars 0 r = ([], r)"
| "make_stars (Suc n) r =
     (let r1 = rng r; r2 = rng r1; r3 = rng r2;
          s = \<lparr>st_x = int (unat (r1 mod of_nat VGA_WIDTH)),
               st_y = FIELD_TOP + int (unat (r2 mod of_int (FIELD_BOT - FIELD_TOP))),
               st_ch = (if r3 mod 3 = 0 then 42 else 46)\<rparr>;
          (ss, r4) = make_stars n r3
      in (s # ss, r4))"

definition init_stars :: "game \<Rightarrow> game" where
  "init_stars g = (let (ss, r) = make_stars MAX_STARS (rng_state g) in g\<lparr>stars := ss, rng_state := r\<rparr>)"

definition enemy_chars :: "u8 list" where "enemy_chars = lit ''VWM''"
definition enemy_colors :: "u8 list" where
  "enemy_colors = [VGA_COLOR_LIGHT_RED, VGA_COLOR_LIGHT_MAGENTA, VGA_COLOR_YELLOW]"

text \<open>Three rows of eight: every slot is used.\<close>

definition wave_enemy :: "u32 \<Rightarrow> nat \<Rightarrow> nat \<Rightarrow> enemy" where
  "wave_enemy lvl r c =
     \<lparr>en_x = 4 + int c * 9, en_y = FIELD_TOP + int r * 3, e_active = True, hp = 1 + int (unat (lvl div 3)),
      e_ch = enemy_chars ! (r mod 3), e_color = enemy_colors ! (r mod 3)\<rparr>"

definition spawn_wave :: "game \<Rightarrow> game" where
  "spawn_wave g =
     (let es = concat (map (\<lambda>r. map (wave_enemy (level g) r) [0..<8]) [0..<3]);
          interval = (if level g < 5 then 30 - level g * 4 else 10)
      in g\<lparr>enemies := es, enemies_alive := int (length es),
           enemy_move_interval := (if interval < 6 then 6 else interval)\<rparr>)"

definition no_bullet :: bullet where "no_bullet = \<lparr>bul_x = 0, bul_y = 0, b_active = False\<rparr>"

definition init_game :: "u32 \<Rightarrow> game \<Rightarrow> game" where
  "init_game ticks g =
     spawn_wave (init_stars
       (g\<lparr>player_x := int VGA_WIDTH div 2, player_lives := 3, score := 0, level := 1, game_over := False,
          enemy_move_timer := 0, rng_state := ticks + 1, bullets := replicate MAX_BULLETS no_bullet\<rparr>))"

subsection \<open>A frame\<close>

definition fire_bullet :: "game \<Rightarrow> game" where
  "fire_bullet g =
     (case find_slot (\<lambda>b. \<not> b_active b) (bullets g) of
        None \<Rightarrow> g
      | Some i \<Rightarrow> g\<lparr>bullets := (bullets g)[i := \<lparr>bul_x = player_x g, bul_y = PLAYER_ROW - 1, b_active = True\<rparr>]\<rparr>)"

definition hit_enemy :: "nat \<Rightarrow> game \<Rightarrow> game" where
  "hit_enemy j g =
     (let e = enemies g ! j; h = hp e - 1 in
      if h \<le> 0
      then g\<lparr>enemies := (enemies g)[j := e\<lparr>hp := h, e_active := False\<rparr>],
             enemies_alive := enemies_alive g - 1, score := score g + 10 * level g\<rparr>
      else g\<lparr>enemies := (enemies g)[j := e\<lparr>hp := h\<rparr>]\<rparr>)"

definition move_bullet :: "game \<Rightarrow> nat \<Rightarrow> game" where
  "move_bullet g i =
     (let b = bullets g ! i in
      if \<not> b_active b then g
      else
        (let b = b\<lparr>bul_y := bul_y b - 1\<rparr> in
         if bul_y b < FIELD_TOP then g\<lparr>bullets := (bullets g)[i := b\<lparr>b_active := False\<rparr>]\<rparr>
         else
           (case find_slot (\<lambda>e. e_active e \<and> bul_x b = en_x e \<and> bul_y b = en_y e) (enemies g) of
              None \<Rightarrow> g\<lparr>bullets := (bullets g)[i := b]\<rparr>
            | Some j \<Rightarrow> hit_enemy j (g\<lparr>bullets := (bullets g)[i := b\<lparr>b_active := False\<rparr>]\<rparr>))))"

definition update_bullets :: "game \<Rightarrow> game" where
  "update_bullets g = foldl move_bullet g [0..<MAX_BULLETS]"

definition min_x :: "enemy list \<Rightarrow> int" where
  "min_x es = fold (\<lambda>e m. if en_x e < m then en_x e else m) (filter e_active es) (int VGA_WIDTH)"

definition max_x :: "enemy list \<Rightarrow> int" where
  "max_x es = fold (\<lambda>e m. if en_x e > m then en_x e else m) (filter e_active es) 0"

definition move_enemy :: "bool \<Rightarrow> game \<Rightarrow> nat \<Rightarrow> game" where
  "move_enemy shift_down g i =
     (let e = enemies g ! i in
      if \<not> e_active e then g
      else
        (let e = e\<lparr>en_x := en_x e + direction g\<rparr>;
             e = (if shift_down then e\<lparr>en_y := en_y e + 1\<rparr> else e)
         in if en_y e \<ge> PLAYER_ROW
            then g\<lparr>enemies := (enemies g)[i := e\<lparr>e_active := False\<rparr>], player_lives := player_lives g - 1,
                   enemies_alive := enemies_alive g - 1,
                   game_over := (game_over g \<or> player_lives g - 1 \<le> 0)\<rparr>
            else g\<lparr>enemies := (enemies g)[i := e]\<rparr>))"

definition update_enemies :: "game \<Rightarrow> game" where
  "update_enemies g =
     (let g = g\<lparr>enemy_move_timer := enemy_move_timer g + 1\<rparr> in
      if enemy_move_timer g < enemy_move_interval g then g
      else
        (let g = g\<lparr>enemy_move_timer := 0\<rparr>; lo = min_x (enemies g); hi = max_x (enemies g);
             right = (hi \<ge> int VGA_WIDTH - 2); left = (lo \<le> 1);
             g = (if right then g\<lparr>direction := -1\<rparr> else g);
             g = (if left then g\<lparr>direction := 1\<rparr> else g)
         in foldl (move_enemy (right \<or> left)) (on_screen erase_enemies g) [0..<MAX_ENEMIES]))"

definition steer :: "u8 \<Rightarrow> game \<Rightarrow> game" where
  "steer c g =
     (let g = (if (c = 97 \<or> c = 65) \<and> player_x g > 2 then g\<lparr>player_x := player_x g - 1\<rparr> else g)
      in if (c = 100 \<or> c = 68) \<and> player_x g < int VGA_WIDTH - 3 then g\<lparr>player_x := player_x g + 1\<rparr> else g)"

definition trigger :: "u8 \<Rightarrow> game \<Rightarrow> game" where
  "trigger c g =
     (if c = 32 then (if \<not> space_held g then (fire_bullet g)\<lparr>space_held := True\<rparr> else g)
      else g\<lparr>space_held := False\<rparr>)"

text \<open>One frame of play, and one frame of the pause between two waves.\<close>

definition play_frame :: "u8 \<Rightarrow> game \<Rightarrow> game" where
  "play_frame c g =
     (if game_over g then on_screen draw_game_over g
      else
        (let g = on_screen erase_enemies (on_screen erase_bullets (on_screen erase_player g));
             g = update_enemies (update_bullets (trigger c (steer c g)));
             g = on_screen draw_hud (on_screen draw_player (on_screen draw_bullets
                   (on_screen draw_enemies (on_screen draw_stars g))))
         in if enemies_alive g \<le> 0 \<and> \<not> game_over g
            then (on_screen (\<lambda>g. draw_level_clear) g)\<lparr>level_clear_timer := 60\<rparr> else g))"

definition pause_frame :: "game \<Rightarrow> game" where
  "pause_frame g =
     (let g = g\<lparr>level_clear_timer := level_clear_timer g - 1\<rparr> in
      if level_clear_timer g = 0
      then on_screen draw_stars (on_screen draw_hud (spawn_wave
             (on_screen (\<lambda>g. clear_field) (g\<lparr>level := level g + 1, bullets := replicate MAX_BULLETS no_bullet\<rparr>))))
      else g)"

text \<open>The main loop, until \<^verbatim>\<open>q\<close> is read: the keys are those of the frames that read one.\<close>

function shooter_loop :: "u8 list \<Rightarrow> game \<Rightarrow> (game \<times> u8 list) option" where
  "shooter_loop keys g =
     (if level_clear_timer g > 0 then shooter_loop keys (pause_frame g)
      else
        (case keys of [] \<Rightarrow> None
         | c # keys \<Rightarrow> if c = 113 \<or> c = 81 then Some (g, keys) else shooter_loop keys (play_frame c g)))"
  by auto
termination shooter_loop
  by (relation "inv_image (less_than <*lex*> less_than) (\<lambda>(keys, g). (length keys, level_clear_timer g))")
    (auto simp: pause_frame_def on_screen_def spawn_wave_def Let_def)

declare shooter_loop.simps [simp del]

definition shooter_run :: "u32 \<Rightarrow> u8 list \<Rightarrow> game \<Rightarrow> (game \<times> u8 list) option" where
  "shooter_run ticks keys g =
     (let g = init_game ticks (on_screen (\<lambda>g. clear_field) g);
          g = on_screen draw_player (on_screen draw_enemies (on_screen draw_stars (on_screen draw_hud g)))
      in map_option (\<lambda>(g, keys). (on_screen (\<lambda>g. clear_field) g, keys))
           (shooter_loop keys (g\<lparr>space_held := False, level_clear_timer := 0\<rparr>)))"

subsection \<open>The invariant\<close>

definition alive_enemies :: "game \<Rightarrow> enemy list" where
  "alive_enemies g = filter e_active (enemies g)"

definition enemy_ok :: "enemy \<Rightarrow> bool" where
  "enemy_ok e \<longleftrightarrow> (e_active e \<longrightarrow> 1 \<le> en_x e \<and> en_x e \<le> 78 \<and> 1 \<le> en_y e \<and> en_y e \<le> 22 \<and> 0 < hp e)"

definition bullet_ok :: "bullet \<Rightarrow> bool" where
  "bullet_ok b \<longleftrightarrow> (b_active b \<longrightarrow> 2 \<le> bul_x b \<and> bul_x b \<le> 77 \<and> 1 \<le> bul_y b \<and> bul_y b \<le> 22)"

definition narrow :: "enemy list \<Rightarrow> bool" where
  "narrow es \<longleftrightarrow> (\<forall>a \<in> set es. \<forall>b \<in> set es. e_active a \<and> e_active b \<longrightarrow> en_x a - en_x b \<le> 63)"

definition game_ok :: "game \<Rightarrow> bool" where
  "game_ok g \<longleftrightarrow>
     length (bullets g) = 8 \<and> length (enemies g) = 24 \<and> length (screen g) = 2000 \<and>
     2 \<le> player_x g \<and> player_x g \<le> 77 \<and> (\<forall>b \<in> set (bullets g). bullet_ok b) \<and>
     (\<forall>e \<in> set (enemies g). enemy_ok e) \<and> narrow (enemies g) \<and> direction g \<in> {1, -1} \<and>
     enemies_alive g = int (length (alive_enemies g)) \<and> player_lives g \<le> 3 \<and>
     (game_over g \<longleftrightarrow> player_lives g \<le> 0) \<and>
     (level_clear_timer g > 0 \<longrightarrow> enemies_alive g = 0 \<and> \<not> game_over g)"

lemma game_okD:
  assumes "game_ok g"
  shows "length (bullets g) = 8" "length (enemies g) = 24" "length (screen g) = 2000"
    "2 \<le> player_x g" "player_x g \<le> 77" "\<forall>b \<in> set (bullets g). bullet_ok b"
    "\<forall>e \<in> set (enemies g). enemy_ok e" "narrow (enemies g)" "direction g \<in> {1, -1}"
    "enemies_alive g = int (length (alive_enemies g))" "player_lives g \<le> 3"
    "game_over g \<longleftrightarrow> player_lives g \<le> 0"
  using assms by (simp_all add: game_ok_def)

text \<open>A predicate on the actors is kept when the screen changes.\<close>

lemma length_fold_cells:
  "(\<And>x cells. length (f x cells) = length cells) \<Longrightarrow> length (fold f xs cells) = length cells"
  for f :: "'a \<Rightarrow> u16 list \<Rightarrow> u16 list"
  by (induction xs arbitrary: cells) simp_all

lemma length_draw_char_row [simp]: "length (draw_char_row col row s fg cells) = length cells"
  by (induction s arbitrary: col cells) simp_all

lemma length_drawing [simp]:
  "length (clear_field cells) = length cells" "length (draw_num col row v fg cells) = length cells"
  "length (draw_hud g cells) = length cells" "length (draw_stars g cells) = length cells"
  "length (draw_player g cells) = length cells" "length (erase_player g cells) = length cells"
  "length (draw_enemies g cells) = length cells" "length (erase_enemies g cells) = length cells"
  "length (draw_bullets g cells) = length cells" "length (erase_bullets g cells) = length cells"
  "length (draw_game_over g cells) = length cells" "length (draw_level_clear cells) = length cells"
  by (simp_all add: clear_field_def draw_num_def draw_hud_def draw_stars_def draw_player_def erase_player_def
      draw_enemies_def erase_enemies_def draw_bullets_def erase_bullets_def draw_game_over_def
      draw_level_clear_def Let_def length_fold_cells)

lemma on_screen_sel [simp]:
  "player_x (on_screen f g) = player_x g" "player_lives (on_screen f g) = player_lives g"
  "score (on_screen f g) = score g" "level (on_screen f g) = level g" "bullets (on_screen f g) = bullets g"
  "enemies (on_screen f g) = enemies g" "game_over (on_screen f g) = game_over g"
  "enemy_move_timer (on_screen f g) = enemy_move_timer g"
  "enemy_move_interval (on_screen f g) = enemy_move_interval g"
  "enemies_alive (on_screen f g) = enemies_alive g" "direction (on_screen f g) = direction g"
  "space_held (on_screen f g) = space_held g" "level_clear_timer (on_screen f g) = level_clear_timer g"
  "alive_enemies (on_screen f g) = alive_enemies g"
  by (simp_all add: on_screen_def alive_enemies_def)

lemma game_ok_on_screen:
  "(\<And>cells. length (f g cells) = length cells) \<Longrightarrow> game_ok g \<Longrightarrow> game_ok (on_screen f g)"
  unfolding game_ok_def by (simp only: on_screen_sel) (auto simp: on_screen_def)

subsection \<open>Bullets\<close>

text \<open>What \<open>k\<close> enemies shot down change.\<close>

definition shot :: "nat \<Rightarrow> game \<Rightarrow> game \<Rightarrow> bool" where
  "shot k g g' \<longleftrightarrow>
     score g' = score g + of_nat k * (10 * level g) \<and> enemies_alive g' = enemies_alive g - int k \<and>
     level g' = level g \<and> player_lives g' = player_lives g \<and> game_over g' = game_over g \<and>
     player_x g' = player_x g \<and> direction g' = direction g \<and> level_clear_timer g' = level_clear_timer g"

lemma shot_refl: "shot 0 g g"
  by (simp add: shot_def)

lemma shot_trans: "shot k g g' \<Longrightarrow> shot m g' g'' \<Longrightarrow> shot (k + m) g g''"
  by (simp add: shot_def algebra_simps)

lemma filter_update_off:
  "j < length xs \<Longrightarrow> P (xs ! j) \<Longrightarrow> \<not> P x \<Longrightarrow> Suc (length (filter P (xs[j := x]))) = length (filter P xs)"
  by (induction xs arbitrary: j) (auto split: nat.splits simp: nth_Cons)

lemma filter_update_on:
  "j < length xs \<Longrightarrow> P (xs ! j) \<Longrightarrow> P x \<Longrightarrow> length (filter P (xs[j := x])) = length (filter P xs)"
  by (induction xs arbitrary: j) (auto split: nat.splits simp: nth_Cons)

lemma narrow_update:
  assumes "narrow es" "j < length es" "en_x e = en_x (es ! j)" "e_active (es ! j)"
  shows "narrow (es[j := e])"
proof -
  have m: "es ! j \<in> set es" using assms(2) by simp
  have "\<exists>a' \<in> set es. e_active a' \<and> en_x a = en_x a'" if "a \<in> set (es[j := e])" "e_active a" for a
  proof -
    have "a \<in> insert e (set es)" using that(1) set_update_subset_insert by fast
    then show ?thesis using that(2) assms(3,4) m by auto
  qed
  then show ?thesis using assms(1) unfolding narrow_def by metis
qed

lemma hit_enemy_ok:
  assumes "game_ok g" "level_clear_timer g = 0" "j < 24" "e_active (enemies g ! j)"
  shows "game_ok (hit_enemy j g) \<and> (\<exists>k \<le> 1. shot k g (hit_enemy j g))"
proof -
  note G = game_okD [OF assms(1)]
  define e where "e = enemies g ! j"
  have j: "j < length (enemies g)" using G(2) assms(3) by simp
  have e: "enemy_ok e" "e_active e" using G(7) j assms(4) by (simp_all add: e_def)
  let ?e = "if hp e - 1 \<le> 0 then e\<lparr>hp := hp e - 1, e_active := False\<rparr> else e\<lparr>hp := hp e - 1\<rparr>"
  have en: "enemies (hit_enemy j g) = (enemies g)[j := ?e]" by (simp add: hit_enemy_def e_def Let_def)
  have alive: "enemies_alive (hit_enemy j g) = int (length (alive_enemies (hit_enemy j g)))"
    using filter_update_off [OF j, of e_active "e\<lparr>hp := hp e - 1, e_active := False\<rparr>"]
      filter_update_on [OF j, of e_active "e\<lparr>hp := hp e - 1\<rparr>"] e(2) assms(4) G(10)
    unfolding alive_enemies_def en by (simp add: hit_enemy_def e_def [symmetric] Let_def)
  have "narrow ((enemies g)[j := ?e])"
    using narrow_update [OF G(8) j] assms(4) by (simp add: e_def)
  moreover have "enemy_ok ?e" using e by (simp add: enemy_ok_def)
  then have "\<forall>x \<in> set ((enemies g)[j := ?e]). enemy_ok x" using G(7) by (auto dest!: set_update_cases)
  ultimately have "game_ok (hit_enemy j g)"
    using G alive assms(2) unfolding game_ok_def en by (simp add: hit_enemy_def Let_def)
  moreover have "shot (if hp e - 1 \<le> 0 then 1 else 0) g (hit_enemy j g)"
    by (simp add: shot_def hit_enemy_def e_def [symmetric] Let_def)
  ultimately show ?thesis by (metis le_numeral_extra(1) le_numeral_extra(4) zero_le_one)
qed

lemma game_ok_bullet:
  assumes "game_ok g" "bullet_ok b"
  shows "game_ok (g\<lparr>bullets := (bullets g)[i := b]\<rparr>)"
  using assms by (auto simp: game_ok_def alive_enemies_def dest!: set_update_cases)

lemma move_bullet_ok:
  assumes "game_ok g" "level_clear_timer g = 0" "i < 8"
  shows "game_ok (move_bullet g i) \<and> (\<exists>k \<le> 1. shot k g (move_bullet g i))"
proof -
  note G = game_okD [OF assms(1)]
  have self: "shot 0 g (g\<lparr>bullets := bs\<rparr>)" for bs by (simp add: shot_def)
  show ?thesis
  proof (cases "b_active (bullets g ! i)")
    case False
    then show ?thesis using assms shot_refl by (auto simp: move_bullet_def)
  next
    case True
    define b where "b = (bullets g ! i)\<lparr>bul_y := bul_y (bullets g ! i) - 1\<rparr>"
    have old: "bullet_ok (bullets g ! i)" using G(1,6) assms(3) by simp
    show ?thesis
    proof (cases "bul_y b < 1")
      case True
      have "game_ok (g\<lparr>bullets := (bullets g)[i := b\<lparr>b_active := False\<rparr>]\<rparr>)"
        by (rule game_ok_bullet [OF assms(1)]) (simp add: bullet_ok_def)
      moreover have "move_bullet g i = g\<lparr>bullets := (bullets g)[i := b\<lparr>b_active := False\<rparr>]\<rparr>"
        using True \<open>b_active (bullets g ! i)\<close> by (simp add: move_bullet_def b_def Let_def)
      ultimately show ?thesis using self by (metis zero_le_one)
    next
      case False
      let ?hit = "find_slot (\<lambda>e. e_active e \<and> bul_x b = en_x e \<and> bul_y b = en_y e) (enemies g)"
      show ?thesis
      proof (cases ?hit)
        case None
        have "bullet_ok b" using old False by (auto simp: bullet_ok_def b_def)
        from game_ok_bullet [OF assms(1) this, of i]
        moreover have "move_bullet g i = g\<lparr>bullets := (bullets g)[i := b]\<rparr>"
          using False None \<open>b_active (bullets g ! i)\<close> by (simp add: move_bullet_def b_def Let_def)
        ultimately show ?thesis using self by (metis zero_le_one)
      next
        case (Some j)
        let ?g = "g\<lparr>bullets := (bullets g)[i := b\<lparr>b_active := False\<rparr>]\<rparr>"
        have "game_ok ?g" by (rule game_ok_bullet [OF assms(1)]) (simp add: bullet_ok_def)
        then have "game_ok (hit_enemy j ?g) \<and> (\<exists>k \<le> 1. shot k ?g (hit_enemy j ?g))"
          using hit_enemy_ok [of ?g j] assms(2) find_slot_SomeD(1,2) [OF Some] G(2) by simp
        moreover have "move_bullet g i = hit_enemy j ?g"
          using False Some \<open>b_active (bullets g ! i)\<close> by (simp add: move_bullet_def b_def Let_def)
        moreover have "shot k g h" if "shot k ?g h" for k h using that by (simp add: shot_def)
        ultimately show ?thesis by metis
      qed
    qed
  qed
qed

lemma update_bullets_ok:
  assumes "game_ok g" "level_clear_timer g = 0"
  shows "game_ok (update_bullets g) \<and> (\<exists>k \<le> 8. shot k g (update_bullets g))"
proof -
  have "n \<le> 8 \<Longrightarrow> game_ok (foldl move_bullet g [0..<n]) \<and> (\<exists>k \<le> n. shot k g (foldl move_bullet g [0..<n]))" for n
  proof (induction n)
    case (Suc n)
    then obtain k where k: "k \<le> n" "shot k g (foldl move_bullet g [0..<n])" "game_ok (foldl move_bullet g [0..<n])"
      by auto
    moreover from k(2) have "level_clear_timer (foldl move_bullet g [0..<n]) = 0" using assms(2) by (simp add: shot_def)
    ultimately obtain m where "m \<le> 1" "shot m (foldl move_bullet g [0..<n]) (foldl move_bullet g [0..<Suc n])"
      "game_ok (foldl move_bullet g [0..<Suc n])"
      using move_bullet_ok [of "foldl move_bullet g [0..<n]" n] Suc.prems by auto
    then show ?case using shot_trans [OF k(2)] k(1) by (metis add_le_mono Suc_eq_plus1)
  qed (use assms shot_refl in auto)
  from this [of 8] show ?thesis by (simp add: update_bullets_def)
qed

subsection \<open>Enemies\<close>

text \<open>One step of one enemy, and which of them lands.\<close>

definition lands :: "bool \<Rightarrow> enemy \<Rightarrow> bool" where
  "lands sd e \<longleftrightarrow> e_active e \<and> 23 \<le> (if sd then en_y e + 1 else en_y e)"

definition adv :: "bool \<Rightarrow> int \<Rightarrow> enemy \<Rightarrow> enemy" where
  "adv sd d e =
     (if e_active e then e\<lparr>en_x := en_x e + d, en_y := (if sd then en_y e + 1 else en_y e), e_active := \<not> lands sd e\<rparr> else e)"

definition landed :: "bool \<Rightarrow> enemy list \<Rightarrow> nat" where
  "landed sd es = length (filter (lands sd) es)"

lemma move_enemies:
  assumes "n \<le> length (enemies g)" "game_over g \<longleftrightarrow> player_lives g \<le> 0"
  shows "foldl (move_enemy sd) g [0..<n] =
    g\<lparr>enemies := map (adv sd (direction g)) (take n (enemies g)) @ drop n (enemies g),
      player_lives := player_lives g - int (landed sd (take n (enemies g))),
      enemies_alive := enemies_alive g - int (landed sd (take n (enemies g))),
      game_over := (player_lives g - int (landed sd (take n (enemies g))) \<le> 0)\<rparr>"
  using assms(1)
proof (induction n)
  case 0
  then show ?case using assms(2) by (simp add: landed_def)
next
  case (Suc n)
  let ?es = "enemies g"
  have n: "n < length ?es" using Suc.prems by simp
  define e where "e = ?es ! n"
  define A where "A = map (adv sd (direction g)) (take n ?es)"
  define B where "B = drop (Suc n) ?es"
  define k where "k = int (landed sd (take n ?es))"
  have t: "take (Suc n) ?es = take n ?es @ [e]" "drop n ?es = e # B" and A: "length A = n"
    using n by (simp_all add: take_Suc_conv_app_nth Cons_nth_drop_Suc A_def B_def e_def)
  have l: "landed sd (take (Suc n) ?es) = landed sd (take n ?es) + (if lands sd e then 1 else 0)"
    by (simp add: landed_def t(1))
  have m: "map (adv sd (direction g)) (take (Suc n) ?es) @ drop (Suc n) ?es = A @ adv sd (direction g) e # B"
    by (simp add: t(1) A_def B_def)
  have at: "(A @ e # B) ! n = e" "\<And>x. (A @ e # B)[n := x] = A @ x # B"
    using A by (simp_all add: nth_append list_update_append)
  have pos: "0 \<le> k" by (simp add: k_def)
  have "foldl (move_enemy sd) g [0..<n] = g\<lparr>enemies := A @ e # B, player_lives := player_lives g - k,
      enemies_alive := enemies_alive g - k, game_over := (player_lives g - k \<le> 0)\<rparr>"
    using Suc n by (simp add: A_def [symmetric] k_def [symmetric] t(2))
  then have "foldl (move_enemy sd) g [0..<Suc n] = move_enemy sd (g\<lparr>enemies := A @ e # B, player_lives := player_lives g - k,
      enemies_alive := enemies_alive g - k, game_over := (player_lives g - k \<le> 0)\<rparr>) n"
    by simp
  also have "\<dots> = g\<lparr>enemies := A @ adv sd (direction g) e # B,
      player_lives := player_lives g - (k + (if lands sd e then 1 else 0)),
      enemies_alive := enemies_alive g - (k + (if lands sd e then 1 else 0)),
      game_over := (player_lives g - (k + (if lands sd e then 1 else 0)) \<le> 0)\<rparr>"
  proof (cases "e_active e")
    case True
    have "(player_lives g \<le> k \<or> player_lives g - k \<le> 1) = (player_lives g \<le> k + 1)" by linarith
    with True show ?thesis
      by (cases "lands sd e") (auto simp: move_enemy_def at adv_def lands_def Let_def diff_diff_eq)
  next
    case False
    then have "A @ e # B = (A @ e # B)[n := e]" "\<not> lands sd e" by (simp_all add: at lands_def)
    then show ?thesis using False by (simp add: move_enemy_def at adv_def)
  qed
  finally show ?case unfolding m l k_def by (cases "lands sd e") (simp_all add: add.commute)
qed

lemma max_x_eq: "max_x es = Max (insert 0 (en_x ` {e \<in> set es. e_active e}))"
proof -
  have "(\<lambda>(e :: enemy) m. if en_x e > m then en_x e else m) = (\<lambda>e. max (en_x e))" by (auto simp: max_def fun_eq_iff)
  then have "max_x es = fold max (map en_x (filter e_active es)) 0" by (simp only: max_x_def fold_map comp_def)
  also have "\<dots> = Max (set (0 # map en_x (filter e_active es)))" by (rule Max.set_eq_fold [symmetric])
  finally show ?thesis by simp
qed

lemma min_x_eq: "min_x es = Min (insert 80 (en_x ` {e \<in> set es. e_active e}))"
proof -
  have "(\<lambda>(e :: enemy) m. if en_x e < m then en_x e else m) = (\<lambda>e. min (en_x e))" by (auto simp: min_def fun_eq_iff)
  then have "min_x es = fold min (map en_x (filter e_active es)) 80"
    by (simp only: min_x_def fold_map comp_def VGA_WIDTH_def) simp
  also have "\<dots> = Min (set (80 # map en_x (filter e_active es)))" by (rule Min.set_eq_fold [symmetric])
  finally show ?thesis by simp
qed

lemma max_x: "e \<in> set es \<Longrightarrow> e_active e \<Longrightarrow> en_x e \<le> max_x es"
  "max_x es = 0 \<or> (\<exists>e \<in> set es. e_active e \<and> en_x e = max_x es)"
proof -
  have f: "finite (insert 0 (en_x ` {e \<in> set es. e_active e}))" by simp
  show "e \<in> set es \<Longrightarrow> e_active e \<Longrightarrow> en_x e \<le> max_x es" unfolding max_x_eq using f by (intro Max_ge) auto
  show "max_x es = 0 \<or> (\<exists>e \<in> set es. e_active e \<and> en_x e = max_x es)"
    using Max_in [OF f, folded max_x_eq] by fastforce
qed

lemma min_x: "e \<in> set es \<Longrightarrow> e_active e \<Longrightarrow> min_x es \<le> en_x e"
  "min_x es = 80 \<or> (\<exists>e \<in> set es. e_active e \<and> en_x e = min_x es)"
proof -
  have f: "finite (insert 80 (en_x ` {e \<in> set es. e_active e}))" by simp
  show "e \<in> set es \<Longrightarrow> e_active e \<Longrightarrow> min_x es \<le> en_x e" unfolding min_x_eq using f by (intro Min_le) auto
  show "min_x es = 80 \<or> (\<exists>e \<in> set es. e_active e \<and> en_x e = min_x es)"
    using Min_in [OF f, folded min_x_eq] by fastforce
qed

definition move_dir :: "game \<Rightarrow> int" where
  "move_dir g = (if min_x (enemies g) \<le> 1 then 1 else if max_x (enemies g) \<ge> 78 then -1 else direction g)"

definition shifts :: "game \<Rightarrow> bool" where
  "shifts g \<longleftrightarrow> max_x (enemies g) \<ge> 78 \<or> min_x (enemies g) \<le> 1"

definition steps_now :: "game \<Rightarrow> bool" where
  "steps_now g \<longleftrightarrow> \<not> enemy_move_timer g + 1 < enemy_move_interval g"

lemma update_enemies_eq:
  assumes "game_ok g"
  shows "update_enemies g =
    (if steps_now g then
       (on_screen erase_enemies (g\<lparr>enemy_move_timer := 0, direction := move_dir g\<rparr>))
         \<lparr>enemies := map (adv (shifts g) (move_dir g)) (enemies g),
          player_lives := player_lives g - int (landed (shifts g) (enemies g)),
          enemies_alive := enemies_alive g - int (landed (shifts g) (enemies g)),
          game_over := (player_lives g - int (landed (shifts g) (enemies g)) \<le> 0)\<rparr>
     else g\<lparr>enemy_move_timer := enemy_move_timer g + 1\<rparr>)"
proof (cases "steps_now g")
  case True
  note G = game_okD [OF assms]
  let ?g = "on_screen erase_enemies (g\<lparr>enemy_move_timer := 0, direction := move_dir g\<rparr>)"
  have "update_enemies g = foldl (move_enemy (shifts g)) ?g [0..<24]"
    using True by (simp add: update_enemies_def steps_now_def shifts_def move_dir_def Let_def)
  then show ?thesis
    using move_enemies [of 24 ?g "shifts g"] G(2,12) True by simp
qed (simp add: update_enemies_def steps_now_def Let_def)

lemma adv_alive:
  "length (filter e_active (map (adv sd d) es)) = length (filter e_active es) - landed sd es \<and>
   landed sd es \<le> length (filter e_active es)"
proof (induction es)
  case (Cons e es)
  then show ?case
    by (cases "e_active e"; cases "lands sd e") (auto simp: adv_def landed_def lands_def Suc_diff_le)
qed (simp add: landed_def)

lemma adv_sel:
  "en_x (adv sd d e) = (if e_active e then en_x e + d else en_x e)"
  "e_active (adv sd d e) \<longleftrightarrow> e_active e \<and> \<not> lands sd e"
  "en_y (adv sd d e) = (if e_active e \<and> sd then en_y e + 1 else en_y e)" "hp (adv sd d e) = hp e"
  by (simp_all add: adv_def lands_def)

lemma narrow_adv: "narrow es \<Longrightarrow> narrow (map (adv sd d) es)"
  unfolding narrow_def by (simp add: adv_sel)

lemma enemy_ok_adv:
  assumes "game_ok g" "e \<in> set (enemies g)"
  shows "enemy_ok (adv (shifts g) (move_dir g) e)"
proof (cases "e_active e")
  case True
  note G = game_okD [OF assms(1)]
  have e: "1 \<le> en_x e" "en_x e \<le> 78" "1 \<le> en_y e" "en_y e \<le> 22" "0 < hp e"
    using G(7) assms(2) True by (auto simp: enemy_ok_def)
  have b: "min_x (enemies g) \<le> en_x e" "en_x e \<le> max_x (enemies g)"
    using min_x(1) max_x(1) assms(2) True by auto
  have "en_x e \<le> 64" if lo: "min_x (enemies g) \<le> 1"
  proof -
    obtain a where "a \<in> set (enemies g)" "e_active a" "en_x a = min_x (enemies g)"
      using min_x(2) [of "enemies g"] lo by auto
    then have "en_x e - en_x a \<le> 63" using G(8) assms(2) True unfolding narrow_def by blast
    then show ?thesis using lo \<open>en_x a = min_x (enemies g)\<close> by simp
  qed
  moreover have "15 \<le> en_x e" if hi: "max_x (enemies g) \<ge> 78"
  proof -
    obtain a where "a \<in> set (enemies g)" "e_active a" "en_x a = max_x (enemies g)"
      using max_x(2) [of "enemies g"] hi by auto
    then have "en_x a - en_x e \<le> 63" using G(8) assms(2) True unfolding narrow_def by blast
    then show ?thesis using hi \<open>en_x a = max_x (enemies g)\<close> by simp
  qed
  ultimately have "1 \<le> en_x e + move_dir g" "en_x e + move_dir g \<le> 78"
    using b e G(9) by (auto simp: move_dir_def)
  then show ?thesis using e by (auto simp: enemy_ok_def adv_sel lands_def)
qed (simp add: enemy_ok_def adv_sel)

lemma update_enemies_ok:
  assumes "game_ok g" "level_clear_timer g = 0"
  shows "game_ok (update_enemies g)"
proof (cases "steps_now g")
  case True
  note G = game_okD [OF assms(1)]
  let ?es = "map (adv (shifts g) (move_dir g)) (enemies g)"
  have a: "enemies_alive g - int (landed (shifts g) (enemies g)) = int (length (filter e_active ?es))"
    using adv_alive [of "shifts g" "move_dir g" "enemies g"] G(10) by (simp add: alive_enemies_def of_nat_diff)
  have "\<forall>e \<in> set ?es. enemy_ok e" using enemy_ok_adv [OF assms(1)] by auto
  moreover have "narrow ?es" by (rule narrow_adv [OF G(8)])
  moreover have "move_dir g \<in> {1, -1}" using G(9) by (auto simp: move_dir_def)
  moreover have "length (screen (on_screen erase_enemies g)) = 2000" using G(3) by (simp add: on_screen_def)
  ultimately show ?thesis
    using G a assms(2) True unfolding update_enemies_eq [OF assms(1)] game_ok_def
    by (auto simp: alive_enemies_def on_screen_def)
next
  case False
  then show ?thesis
    using assms unfolding update_enemies_eq [OF assms(1)] by (simp add: game_ok_def alive_enemies_def)
qed

subsection \<open>Frames\<close>

lemma steer_sel [simp]:
  "player_lives (steer c g) = player_lives g" "score (steer c g) = score g" "level (steer c g) = level g"
  "enemies (steer c g) = enemies g" "game_over (steer c g) = game_over g"
  "enemies_alive (steer c g) = enemies_alive g" "level_clear_timer (steer c g) = level_clear_timer g"
  by (simp_all add: steer_def Let_def)

lemma trigger_sel [simp]:
  "player_lives (trigger c g) = player_lives g" "score (trigger c g) = score g" "level (trigger c g) = level g"
  "enemies (trigger c g) = enemies g" "game_over (trigger c g) = game_over g" "player_x (trigger c g) = player_x g"
  "enemies_alive (trigger c g) = enemies_alive g" "level_clear_timer (trigger c g) = level_clear_timer g"
  by (simp_all add: trigger_def fire_bullet_def split: option.split)

lemma steer_ok: "game_ok g \<Longrightarrow> game_ok (steer c g)"
  by (auto simp: game_ok_def steer_def Let_def alive_enemies_def)

lemma trigger_ok: "game_ok g \<Longrightarrow> game_ok (trigger c g)"
proof -
  assume g: "game_ok g"
  have "game_ok (fire_bullet g)"
  proof (cases "find_slot (\<lambda>b. \<not> b_active b) (bullets g)")
    case (Some i)
    then show ?thesis using game_okD(4,5) [OF g]
      by (simp add: fire_bullet_def game_ok_bullet [OF g] bullet_ok_def)
  qed (simp add: fire_bullet_def g)
  moreover have "game_ok (h\<lparr>space_held := b\<rparr>)" if "game_ok h" for h b
    using that by (auto simp: game_ok_def alive_enemies_def)
  ultimately show ?thesis using g by (simp add: trigger_def)
qed

text \<open>What a frame of play does to the counters: \<open>k\<close> enemies shot, \<open>l\<close> landed.\<close>

lemma play_frame_counts:
  assumes "game_ok g" "level_clear_timer g = 0" "\<not> game_over g"
  shows "game_ok (play_frame c g) \<and>
    (\<exists>k l. k \<le> 8 \<and> score (play_frame c g) = score g + of_nat k * (10 * level g) \<and>
       player_lives (play_frame c g) = player_lives g - int l \<and>
       enemies_alive (play_frame c g) = enemies_alive g - int k - int l \<and> level (play_frame c g) = level g) \<and>
    (level_clear_timer (play_frame c g) > 0 \<longleftrightarrow> enemies_alive (play_frame c g) = 0 \<and> 0 < player_lives (play_frame c g))"
proof -
  define g1 where "g1 = on_screen erase_enemies (on_screen erase_bullets (on_screen erase_player g))"
  define g2 where "g2 = trigger c (steer c g1)"
  define g3 where "g3 = update_bullets g2"
  define g4 where "g4 = update_enemies g3"
  define g5 where "g5 = on_screen draw_hud (on_screen draw_player (on_screen draw_bullets
                   (on_screen draw_enemies (on_screen draw_stars g4))))"
  have e: "play_frame c g = (if enemies_alive g5 \<le> 0 \<and> \<not> game_over g5
      then (on_screen (\<lambda>g. draw_level_clear) g5)\<lparr>level_clear_timer := 60\<rparr> else g5)"
    using assms(3) by (simp add: play_frame_def Let_def g1_def g2_def g3_def g4_def g5_def)
  have ok2: "game_ok g2" unfolding g2_def g1_def
    by (intro trigger_ok steer_ok game_ok_on_screen assms(1)) simp_all
  have t2: "level_clear_timer g2 = 0" using assms(2) by (simp add: g2_def g1_def)
  from update_bullets_ok [OF ok2 t2] obtain k where ok3: "game_ok g3" and k: "k \<le> 8" "shot k g2 g3"
    unfolding g3_def by blast
  have t3: "level_clear_timer g3 = 0" using k(2) t2 by (simp add: shot_def)
  have ok4: "game_ok g4" unfolding g4_def by (rule update_enemies_ok [OF ok3 t3])
  obtain l where l: "score g4 = score g3" "level g4 = level g3" "player_lives g4 = player_lives g3 - int l"
      "enemies_alive g4 = enemies_alive g3 - int l" "level_clear_timer g4 = 0"
    using t3 unfolding g4_def update_enemies_eq [OF ok3]
    by (cases "steps_now g3") (auto intro: that [of 0])
  have ok5: "game_ok g5" unfolding g5_def by (intro game_ok_on_screen ok4) simp_all
  have s5: "score g5 = score g4" "level g5 = level g4" "player_lives g5 = player_lives g4"
      "enemies_alive g5 = enemies_alive g4" "level_clear_timer g5 = level_clear_timer g4" "game_over g5 = game_over g4"
    by (simp_all add: g5_def)
  have over: "game_over g5 \<longleftrightarrow> player_lives g5 \<le> 0" and ge: "0 \<le> enemies_alive g5"
    using game_okD(10,12) [OF ok5] by simp_all
  have ok: "game_ok (play_frame c g)"
  proof (cases "enemies_alive g5 \<le> 0 \<and> \<not> game_over g5")
    case True
    have "game_ok (on_screen (\<lambda>g. draw_level_clear) g5)" by (rule game_ok_on_screen [OF _ ok5]) simp
    then show ?thesis unfolding e using True over ge by (simp add: game_ok_def alive_enemies_def)
  next
    case False
    then have "play_frame c g = g5" unfolding e by (rule if_not_P)
    then show ?thesis by (simp only: ok5)
  qed
  have "score (play_frame c g) = score g5 \<and> player_lives (play_frame c g) = player_lives g5 \<and>
      enemies_alive (play_frame c g) = enemies_alive g5 \<and> level (play_frame c g) = level g5"
    unfolding e by simp
  moreover have "score g5 = score g + of_nat k * (10 * level g)" "player_lives g5 = player_lives g - int l"
    "enemies_alive g5 = enemies_alive g - int k - int l" "level g5 = level g"
    using k(2) l unfolding s5 by (simp_all add: shot_def g2_def g1_def)
  moreover have "level_clear_timer (play_frame c g) > 0 \<longleftrightarrow> enemies_alive g5 = 0 \<and> 0 < player_lives g5"
    unfolding e using over ge l(5) s5(5) by auto
  ultimately show ?thesis using ok k(1) by auto
qed

text \<open>A new wave: twenty-four enemies, 63 columns wide.\<close>

lemma wave_list: "enemies (spawn_wave g) = concat (map (\<lambda>r. map (wave_enemy (level g) r) [0..<8]) [0, 1, 2])"
proof -
  have "[0..<3] = [0, 1, 2 :: nat]" by (simp add: upt_rec numeral_3_eq_3)
  then show ?thesis by (simp add: spawn_wave_def Let_def)
qed

lemma spawn_wave_sel [simp]:
  "bullets (spawn_wave g) = bullets g" "screen (spawn_wave g) = screen g" "player_x (spawn_wave g) = player_x g"
  "direction (spawn_wave g) = direction g" "player_lives (spawn_wave g) = player_lives g"
  "game_over (spawn_wave g) = game_over g" "level_clear_timer (spawn_wave g) = level_clear_timer g"
  "level (spawn_wave g) = level g" "enemies_alive (spawn_wave g) = 24" "score (spawn_wave g) = score g"
  using arg_cong [OF wave_list [of g], of length] by (simp_all add: spawn_wave_def Let_def)

lemma spawn_wave_ok:
  assumes "length (bullets g) = 8" "length (screen g) = 2000" "2 \<le> player_x g" "player_x g \<le> 77"
    "\<forall>b \<in> set (bullets g). bullet_ok b" "direction g \<in> {1, -1}" "player_lives g \<le> 3"
    "game_over g \<longleftrightarrow> player_lives g \<le> 0" "level_clear_timer g = 0"
  shows "game_ok (spawn_wave g)"
proof -
  have en: "\<exists>r < 3. \<exists>c < 8. e = wave_enemy (level g) r c" if "e \<in> set (enemies (spawn_wave g))" for e
  proof -
    have "\<exists>r \<in> {0, 1, 2}. \<exists>c \<in> {0..<8}. e = wave_enemy (level g) r c"
      using that unfolding wave_list by (simp add: image_iff)
    then obtain r c where "r \<in> {0, 1, 2}" "c \<in> {0..<8}" "e = wave_enemy (level g) r c" by blast
    then show ?thesis by (intro exI [of _ r] conjI exI [of _ c]) auto
  qed
  have ok: "enemy_ok (wave_enemy lvl r c)" if "r < 3" "c < 8" for lvl r c
  proof -
    have "0 < 1 + uint (lvl div 3)" by (rule add_pos_nonneg) (simp, rule unsigned_greater_eq)
    then show ?thesis using that by (simp add: enemy_ok_def wave_enemy_def)
  qed
  have "en_x (wave_enemy lvl r c) - en_x (wave_enemy lvl r' c') \<le> 63" if "c < 8" "c' < 8" for lvl r c r' c'
    using that by (simp add: wave_enemy_def)
  then have n: "narrow (enemies (spawn_wave g))" unfolding narrow_def using en by metis
  have a: "filter e_active (enemies (spawn_wave g)) = enemies (spawn_wave g)" "length (enemies (spawn_wave g)) = 24"
    unfolding wave_list by (auto simp: wave_enemy_def intro: filter_True)
  have "\<forall>e \<in> set (enemies (spawn_wave g)). enemy_ok e" using en ok by metis
  then show ?thesis using assms n a by (simp add: game_ok_def alive_enemies_def)
qed

lemma pause_frame_ok:
  assumes "game_ok g" "level_clear_timer g > 0"
  shows "game_ok (pause_frame g) \<and> level_clear_timer (pause_frame g) = level_clear_timer g - 1 \<and>
    (level_clear_timer g = 1 \<longrightarrow> level (pause_frame g) = level g + 1 \<and> enemies_alive (pause_frame g) = 24)"
proof (cases "level_clear_timer g = 1")
  case True
  note G = game_okD [OF assms(1)]
  let ?g = "on_screen (\<lambda>g. clear_field) ((g\<lparr>level_clear_timer := 0\<rparr>)\<lparr>level := level g + 1, bullets := replicate 8 no_bullet\<rparr>)"
  have b: "length (screen ?g) = 2000" using G(3) by (simp add: on_screen_def)
  have "game_ok (spawn_wave ?g)"
    by (rule spawn_wave_ok) (use G b in \<open>auto simp: bullet_ok_def no_bullet_def\<close>)
  then have "game_ok (on_screen draw_stars (on_screen draw_hud (spawn_wave ?g)))"
    by (intro game_ok_on_screen) simp_all
  then show ?thesis using True by (simp add: pause_frame_def Let_def)
next
  case False
  then show ?thesis using assms by (auto simp: pause_frame_def Let_def game_ok_def alive_enemies_def)
qed

lemma init_game_ok:
  assumes "length (screen g) = 2000" "direction g \<in> {1, -1}"
  shows "game_ok ((init_game ticks g)\<lparr>space_held := False, level_clear_timer := 0\<rparr>)"
proof -
  obtain ss r where st: "make_stars MAX_STARS (ticks + 1) = (ss, r)" by fastforce
  have "(init_game ticks g)\<lparr>space_held := False, level_clear_timer := 0\<rparr> =
    spawn_wave (g\<lparr>player_x := 40, player_lives := 3, score := 0, level := 1, game_over := False,
          enemy_move_timer := 0, rng_state := r, bullets := replicate 8 no_bullet, stars := ss,
          space_held := False, level_clear_timer := 0\<rparr>)"
    using st by (simp add: init_game_def init_stars_def spawn_wave_def Let_def)
  also have "game_ok \<dots>"
    by (rule spawn_wave_ok) (use assms in \<open>auto simp: bullet_ok_def no_bullet_def\<close>)
  finally show ?thesis .
qed

lemma play_frame_ok:
  assumes "game_ok g" "level_clear_timer g = 0"
  shows "game_ok (play_frame c g)"
proof (cases "game_over g")
  case True
  then show ?thesis using game_ok_on_screen [OF _ assms(1), of draw_game_over] by (simp add: play_frame_def)
next
  case False
  then show ?thesis using play_frame_counts [OF assms] by simp
qed

subsection \<open>The whole game\<close>

text \<open>
  C38: Every frame of the game keeps the invariant: the player stays in columns 2 to 77, bullets and enemies
  stay inside the field, the counter of enemies is the number of active ones, and the game is over exactly
  when no life is left.  A frame of play gives ten times the level for each of the \<open>k\<close> enemies shot, takes
  one life for each of the \<open>l\<close> that land, and starts the pause exactly when the last enemy is gone while a life is left;
  the last frame of the pause starts the next level with 24 enemies; after the end only the screen changes.
\<close>

theorem shooter_frames_account:
  assumes "game_ok g"
  shows "(level_clear_timer g > 0 \<longrightarrow> game_ok (pause_frame g) \<and>
       (level_clear_timer g = 1 \<longrightarrow> level (pause_frame g) = level g + 1 \<and> enemies_alive (pause_frame g) = 24)) \<and>
    (level_clear_timer g = 0 \<longrightarrow> game_ok (play_frame c g) \<and>
       (game_over g \<longrightarrow> (\<exists>cells. play_frame c g = g\<lparr>screen := cells\<rparr>)) \<and>
       (\<not> game_over g \<longrightarrow>
         (\<exists>k l. k \<le> 8 \<and> score (play_frame c g) = score g + of_nat k * (10 * level g) \<and>
            player_lives (play_frame c g) = player_lives g - int l \<and>
            enemies_alive (play_frame c g) = enemies_alive g - int k - int l \<and> level (play_frame c g) = level g) \<and>
         (level_clear_timer (play_frame c g) > 0 \<longleftrightarrow> enemies_alive (play_frame c g) = 0 \<and> 0 < player_lives (play_frame c g))))"
proof (intro conjI)
  let ?p = "play_frame c g"
  show "level_clear_timer g > 0 \<longrightarrow> game_ok (pause_frame g) \<and>
       (level_clear_timer g = 1 \<longrightarrow> level (pause_frame g) = level g + 1 \<and> enemies_alive (pause_frame g) = 24)"
    using pause_frame_ok [OF assms] by simp
  show "level_clear_timer g = 0 \<longrightarrow> game_ok ?p \<and>
       (game_over g \<longrightarrow> (\<exists>cells. ?p = g\<lparr>screen := cells\<rparr>)) \<and>
       (\<not> game_over g \<longrightarrow>
         (\<exists>k l. k \<le> 8 \<and> score ?p = score g + of_nat k * (10 * level g) \<and>
            player_lives ?p = player_lives g - int l \<and>
            enemies_alive ?p = enemies_alive g - int k - int l \<and> level ?p = level g) \<and>
         (level_clear_timer ?p > 0 \<longleftrightarrow> enemies_alive ?p = 0 \<and> 0 < player_lives ?p))"
    (is "_ \<longrightarrow> _ \<and> _ \<and> (_ \<longrightarrow> ?count \<and> ?last)")
  proof (intro impI conjI)
    assume t: "level_clear_timer g = 0"
    show "game_ok ?p" by (rule play_frame_ok [OF assms t])
    show "\<exists>cells. ?p = g\<lparr>screen := cells\<rparr>" if "game_over g"
      using that by (auto simp: play_frame_def on_screen_def)
    show ?count if "\<not> game_over g"
      by (rule play_frame_counts [OF assms t that, THEN conjunct2, THEN conjunct1])
    show ?last if "\<not> game_over g"
      by (rule play_frame_counts [OF assms t that, THEN conjunct2, THEN conjunct2])
  qed
qed

text \<open>The game ends when \<^verbatim>\<open>q\<close> is read, and not before; it leaves a blank screen.\<close>

lemma pause_ends:
  "game_ok g \<Longrightarrow> level_clear_timer g = n \<Longrightarrow>
   \<exists>g'. game_ok g' \<and> level_clear_timer g' = 0 \<and> shooter_loop keys g = shooter_loop keys g'"
proof (induction n arbitrary: g)
  case (Suc n)
  then have "game_ok (pause_frame g)" "level_clear_timer (pause_frame g) = n"
    using pause_frame_ok [of g] by simp_all
  moreover have "shooter_loop keys g = shooter_loop keys (pause_frame g)"
    using Suc.prems(2) by (subst shooter_loop.simps) simp
  ultimately show ?case using Suc.IH by metis
qed auto

lemma shooter_loop_returns:
  assumes "c = 113 \<or> c = 81"
  shows "game_ok g \<Longrightarrow> \<forall>k \<in> set ks. k \<noteq> 113 \<and> k \<noteq> 81 \<Longrightarrow>
    \<exists>g'. shooter_loop (ks @ c # rest) g = Some (g', rest) \<and> game_ok g'"
proof (induction ks arbitrary: g)
  case Nil
  obtain g' where "game_ok g'" "level_clear_timer g' = 0" "shooter_loop (c # rest) g = shooter_loop (c # rest) g'"
    using pause_ends [OF Nil(1) refl] by blast
  then show ?case using assms by (simp add: shooter_loop.simps [of "c # rest" g'])
next
  case (Cons k ks)
  obtain g' where g': "game_ok g'" "level_clear_timer g' = 0"
      "shooter_loop (k # ks @ c # rest) g = shooter_loop (k # ks @ c # rest) g'"
    using pause_ends [OF Cons.prems(1) refl] by blast
  have "shooter_loop (k # ks @ c # rest) g' = shooter_loop (ks @ c # rest) (play_frame k g')"
    using g'(2) Cons.prems(2) by (subst shooter_loop.simps) simp
  then show ?case using Cons.IH [OF play_frame_ok [OF g'(1,2)]] Cons.prems(2) g'(3) by simp
qed

lemma shooter_run_returns:
  assumes "length (screen g) = 2000" "direction g \<in> {1, -1}" "\<forall>k \<in> set ks. k \<noteq> 113 \<and> k \<noteq> 81" "c = 113 \<or> c = 81"
  shows "\<exists>g'. shooter_run ticks (ks @ c # rest) g = Some (on_screen (\<lambda>g. clear_field) g', rest) \<and> game_ok g'"
proof -
  let ?h = "on_screen draw_player (on_screen draw_enemies (on_screen draw_stars (on_screen draw_hud
      (init_game ticks (on_screen (\<lambda>g. clear_field) g)))))\<lparr>space_held := False, level_clear_timer := 0\<rparr>"
  have "game_ok (on_screen draw_player (on_screen draw_enemies (on_screen draw_stars (on_screen draw_hud
      ((init_game ticks (on_screen (\<lambda>g. clear_field) g))\<lparr>space_held := False, level_clear_timer := 0\<rparr>)))))"
    using assms(1,2) by (intro game_ok_on_screen init_game_ok) (simp_all, simp add: on_screen_def)
  then have "game_ok ?h" by (simp add: game_ok_def alive_enemies_def on_screen_def draw_hud_def draw_stars_def draw_enemies_def draw_player_def)
  from shooter_loop_returns [OF assms(4) this assms(3), of rest] show ?thesis by (auto simp: shooter_run_def Let_def)
qed

theorem shooter_frames_account_witness:
  "\<exists>g. game_ok g \<and> level_clear_timer g = 0 \<and> game_ok (play_frame 32 g) \<and> enemies_alive g = 24"
proof -
  let ?g0 = "\<lparr>player_x = 0, player_lives = 0, score = 0, level = 0, bullets = [], enemies = [], stars = [],
    game_over = False, enemy_move_timer = 0, enemy_move_interval = 0, enemies_alive = 0, rng_state = 0,
    direction = 1, space_held = False, level_clear_timer = 0, screen = replicate 2000 0\<rparr>"
  let ?g = "(init_game 7 ?g0)\<lparr>space_held := False, level_clear_timer := 0\<rparr>"
  have ok: "game_ok ?g" by (rule init_game_ok) simp_all
  have "enemies_alive ?g = 24" by (simp add: init_game_def)
  then show ?thesis using shooter_frames_account [OF ok, of 32] ok by (intro exI [of _ ?g]) simp
qed

text \<open>
  Bullets move before enemies do and a hit is looked for only after a bullet's own move: when an enemy
  comes down into the cell of a bullet the two pass each other.
\<close>

definition crossing :: game where
  "crossing = \<lparr>player_x = 40, player_lives = 3, score = 0, level = 1,
    bullets = \<lparr>bul_x = 77, bul_y = 10, b_active = True\<rparr> # replicate 7 no_bullet,
    enemies = \<lparr>en_x = 78, en_y = 8, e_active = True, hp = 1, e_ch = 86, e_color = 12\<rparr> #
      replicate 23 \<lparr>en_x = 0, en_y = 0, e_active = False, hp = 0, e_ch = 0, e_color = 0\<rparr>,
    stars = [], game_over = False, enemy_move_timer = 29, enemy_move_interval = 26, enemies_alive = 1,
    rng_state = 1, direction = 1, space_held = False, level_clear_timer = 0, screen = []\<rparr>"

lemma bullets_pass_through:
  "(\<lambda>g. (hd (bullets g), hd (enemies g))) (update_enemies (update_bullets crossing)) =
     (\<lparr>bul_x = 77, bul_y = 9, b_active = True\<rparr>, \<lparr>en_x = 77, en_y = 9, e_active = True, hp = 1, e_ch = 86, e_color = 12\<rparr>)"
  "(\<lambda>g. (hd (bullets g), hd (enemies g))) (update_bullets (update_enemies (update_bullets crossing))) =
     (\<lparr>bul_x = 77, bul_y = 8, b_active = True\<rparr>, \<lparr>en_x = 77, en_y = 9, e_active = True, hp = 1, e_ch = 86, e_color = 12\<rparr>)"
  by code_simp+

end
