(* ===== verification/EdSession.thy ===== *)
theory EdSession
  imports Editor ShFiles
begin

text \<open>
  The rest of \<^verbatim>\<open>kernel/editor.c\<close>: the screen, the prompt for a text to search, and \<^verbatim>\<open>editor_open\<close>, the whole
  session from the opened file to the answer whether to save.  The events and the characters the loops
  read are parameters, each with the tick counter at that moment; \<open>None\<close> is a session that waits for more.
\<close>

unbundle bit_operations_syntax

subsection \<open>The screen\<close>

definition ROW_TITLE :: int where "ROW_TITLE = 0"
definition ROW_TEXT_S :: int where "ROW_TEXT_S = 1"
definition ROW_TEXT_E :: int where "ROW_TEXT_E = 22"
definition ROW_STATUS :: int where "ROW_STATUS = 23"
definition ROW_MSG :: int where "ROW_MSG = 24"

lemmas ed_screen_rows [simp] = ROW_TITLE_def ROW_TEXT_S_def ROW_TEXT_E_def ROW_STATUS_def ROW_MSG_def

definition ed_put :: "int \<Rightarrow> int \<Rightarrow> u8 \<Rightarrow> u8 \<Rightarrow> u8 \<Rightarrow> u16 list \<Rightarrow> u16 list" where
  "ed_put col row c fg bg cells =
     (if col < 0 \<or> int VGA_WIDTH \<le> col \<or> row < 0 \<or> int VGA_HEIGHT \<le> row then cells
      else cells[nat (row * int VGA_WIDTH + col) := cell_of c fg bg])"

definition ed_fill_row :: "int \<Rightarrow> u8 \<Rightarrow> u8 \<Rightarrow> u8 \<Rightarrow> u16 list \<Rightarrow> u16 list" where
  "ed_fill_row row c fg bg cells = fold (\<lambda>i. ed_put (int i) row c fg bg) [0..<VGA_WIDTH] cells"

fun ed_str :: "int \<Rightarrow> int \<Rightarrow> cstr \<Rightarrow> u8 \<Rightarrow> u8 \<Rightarrow> u16 list \<Rightarrow> u16 list" where
  "ed_str col row [] fg bg cells = cells"
| "ed_str col row (c # s) fg bg cells =
     (if col < int VGA_WIDTH then ed_str (col + 1) row s fg bg (ed_put col row c fg bg cells) else cells)"

definition ed_num :: "int \<Rightarrow> int \<Rightarrow> u32 \<Rightarrow> u8 \<Rightarrow> u8 \<Rightarrow> u16 list \<Rightarrow> u16 list" where
  "ed_num col row v fg bg cells =
     (if v = 0 then ed_put col row 48 fg bg cells else ed_str col row (udigits 10 v) fg bg cells)"

definition render_titlebar :: "editor \<Rightarrow> u16 list \<Rightarrow> u16 list" where
  "render_titlebar e cells =
     (let name = cstr_of (filename e); bg = VGA_COLOR_LIGHT_GREY;
          cells = ed_fill_row ROW_TITLE 32 VGA_COLOR_BLACK bg cells;
          cells = ed_str 1 ROW_TITLE (lit ''baSic_ editor'') VGA_COLOR_BLACK bg cells;
          cells = ed_str 16 ROW_TITLE (lit ''|'') VGA_COLOR_DARK_GREY bg cells;
          cells = ed_str 18 ROW_TITLE name VGA_COLOR_BLACK bg cells;
          cells = (if modified e
                   then ed_str (18 + int (length name)) ROW_TITLE (lit '' [modified]'') VGA_COLOR_RED bg cells
                   else cells)
      in ed_str 45 ROW_TITLE (lit ''^S save  ^Q quit  ^F find  ^K del'') VGA_COLOR_DARK_GREY bg cells)"

text \<open>\<^verbatim>\<open>while (lnum > 0 && li >= 0) { lbuf[li--] = '0' + lnum % 10; lnum /= 10; }\<close>\<close>

fun gutter_loop :: "nat \<Rightarrow> u32 \<Rightarrow> cstr \<Rightarrow> cstr" where
  "gutter_loop 0 v lbuf = lbuf"
| "gutter_loop (Suc li) v lbuf =
     (if v > 0 then gutter_loop li (v div 10) (lbuf[li := ucast (48 + v mod 10)]) else lbuf)"

definition highlight_row :: "int \<Rightarrow> u16 list \<Rightarrow> u16 list" where
  "highlight_row vrow cells =
     fold (\<lambda>c cells. let cell = cells ! nat (vrow * int VGA_WIDTH + int c)
                     in ed_put (int c) vrow (ucast cell) (ucast (drop_bit 8 cell) AND 0x0F) VGA_COLOR_DARK_GREY cells)
       [0..<VGA_WIDTH] cells"

definition render_row :: "editor \<Rightarrow> nat \<Rightarrow> u16 list \<Rightarrow> u16 list" where
  "render_row e r cells =
     (let line = scroll_y e + r; vrow = ROW_TEXT_S + int r;
          cells = fold (\<lambda>c. ed_put (int c) vrow 32 VGA_COLOR_LIGHT_GREY VGA_COLOR_BLACK) [0..<VGA_WIDTH] cells
      in if line \<ge> num_lines e then cells
         else
           (let lbuf = gutter_loop 4 (of_nat (line + 1)) [32, 32, 32, 32];
                cells = ed_str 0 vrow lbuf VGA_COLOR_DARK_GREY VGA_COLOR_BLACK cells;
                cells = ed_put 4 vrow 32 VGA_COLOR_DARK_GREY VGA_COLOR_BLACK cells;
                cells = fold (\<lambda>c. ed_put (int c + 5) vrow (row_of line e ! c) VGA_COLOR_WHITE VGA_COLOR_BLACK)
                          [0..<min (line_len e ! line) (VGA_WIDTH - 5)] cells
            in if line = cy e then highlight_row vrow cells else cells))"

definition render_text :: "editor \<Rightarrow> u16 list \<Rightarrow> u16 list" where
  "render_text e cells = fold (render_row e) [0..<ED_ROWS] cells"

definition render_cursor :: "editor \<Rightarrow> u16 list \<Rightarrow> u16 list" where
  "render_cursor e cells =
     (let vrow = ROW_TEXT_S + (int (cy e) - int (scroll_y e)); vcol = int (cx e) + 5
      in if vrow < ROW_TEXT_S \<or> vrow > ROW_TEXT_E then cells
         else
           (let vcol = (if vcol \<ge> int VGA_WIDTH then int VGA_WIDTH - 1 else vcol);
                ch = ucast (cells ! nat (vrow * int VGA_WIDTH + vcol))
            in ed_put vcol vrow (if ch \<noteq> 0 then ch else 32) VGA_COLOR_BLACK VGA_COLOR_WHITE cells))"

definition render_statusbar :: "editor \<Rightarrow> u16 list \<Rightarrow> u16 list" where
  "render_statusbar e cells =
     (let fg = VGA_COLOR_BLACK; bg = VGA_COLOR_CYAN;
          cells = ed_fill_row ROW_STATUS 32 fg bg cells;
          cells = ed_str 1 ROW_STATUS (lit ''Ln:'') fg bg cells;
          cells = ed_num 4 ROW_STATUS (of_nat (cy e + 1)) fg bg cells;
          cells = ed_str 8 ROW_STATUS (lit ''Col:'') fg bg cells;
          cells = ed_num 12 ROW_STATUS (of_nat (cx e + 1)) fg bg cells;
          cells = ed_str 16 ROW_STATUS (lit ''Lines:'') fg bg cells
      in ed_num 22 ROW_STATUS (of_nat (num_lines e)) fg bg cells)"

definition render_msgbar :: "u32 \<Rightarrow> editor \<Rightarrow> u16 list \<Rightarrow> u16 list" where
  "render_msgbar now e cells =
     (let cells = ed_fill_row ROW_MSG 32 VGA_COLOR_LIGHT_GREY VGA_COLOR_BLACK cells; m = cstr_of (msg e)
      in if m \<noteq> [] \<and> now - msg_time e < 3000
         then ed_str 1 ROW_MSG m VGA_COLOR_LIGHT_GREEN VGA_COLOR_BLACK cells
         else ed_str 1 ROW_MSG (lit ''^S save  ^Q quit  ^K kill  ^A home  ^E end  ^F find  ^N next'')
                VGA_COLOR_DARK_GREY VGA_COLOR_BLACK cells)"

definition render_all :: "u32 \<Rightarrow> editor \<Rightarrow> u16 list \<Rightarrow> u16 list" where
  "render_all now e cells =
     render_cursor e (render_msgbar now e (render_statusbar e (render_text e (render_titlebar e cells))))"

subsection \<open>The search prompt\<close>

text \<open>\<^verbatim>\<open>strncpy(search_query, query, 63)\<close> and the search, when a text was given\<close>

definition confirm_search :: "u32 \<Rightarrow> cstr \<Rightarrow> editor \<Rightarrow> editor" where
  "confirm_search now query e =
     (if query = [] then e
      else
        (let e = e\<lparr>search_query := overlay (search_query e) 0 (strncpy_bytes query 63)\<rparr>;
             (found, e) = ed_find (cstr_of (search_query e)) e
         in if found then set_msg (lit ''found.'') now (adjust_scroll (e\<lparr>cy := search_row e, cx := search_col e\<rparr>))
            else set_msg (lit ''not found.'') now e))"

fun prompt_loop :: "(u32 \<times> u8) list \<Rightarrow> cstr \<Rightarrow> editor \<Rightarrow> u16 list \<Rightarrow>
    (editor \<times> u16 list \<times> (u32 \<times> u8) list) option" where
  "prompt_loop [] query e cells = None"
| "prompt_loop ((now, c) # chars) query e cells =
     (if c = 10 \<or> c = ctrl CHR ''f'' then Some (confirm_search now query e, cells, chars)
      else if c = 27 \<or> c = ctrl CHR ''q'' then Some (e, cells, chars)
      else if c = 8 then
        (if query \<noteq> [] then
           (let query = butlast query; q = int (length query);
                cells = ed_put (7 + q + 1) ROW_MSG 32 VGA_COLOR_CYAN VGA_COLOR_CYAN cells;
                cells = ed_put (7 + q) ROW_MSG 95 VGA_COLOR_BLACK VGA_COLOR_WHITE cells
            in prompt_loop chars query e cells)
         else prompt_loop chars query e cells)
      else if 32 \<le> c \<and> c < 127 \<and> length query < 63 then
        (let query = query @ [c]; q = int (length query);
             cells = ed_put (7 + q - 1) ROW_MSG c VGA_COLOR_YELLOW VGA_COLOR_CYAN cells;
             cells = ed_put (7 + q) ROW_MSG 95 VGA_COLOR_BLACK VGA_COLOR_WHITE cells
         in prompt_loop chars query e cells)
      else prompt_loop chars query e cells)"

definition ed_search_prompt :: "(u32 \<times> u8) list \<Rightarrow> editor \<Rightarrow> u16 list \<Rightarrow>
    (editor \<times> u16 list \<times> (u32 \<times> u8) list) option" where
  "ed_search_prompt chars e cells =
     (let cells = ed_fill_row ROW_MSG 32 VGA_COLOR_BLACK VGA_COLOR_CYAN cells;
          cells = ed_str 1 ROW_MSG (lit ''find: '') VGA_COLOR_WHITE VGA_COLOR_CYAN cells;
          query = take 63 (cstr_of (search_query e));
          cells = (if query \<noteq> [] then ed_str 7 ROW_MSG query VGA_COLOR_YELLOW VGA_COLOR_CYAN cells else cells);
          cells = ed_put (7 + int (length query)) ROW_MSG 95 VGA_COLOR_BLACK VGA_COLOR_WHITE cells
      in prompt_loop chars query e cells)"

subsection \<open>The session\<close>

record ed_world =
  w_ed :: editor
  w_fs :: "mem fs"
  w_cells :: "u16 list"
  w_events :: "(u32 \<times> term_event) list"
  w_chars :: "(u32 \<times> u8) list"

fun ed_loop :: "(u32 \<times> term_event) list \<Rightarrow> ed_world \<Rightarrow> ed_world option" where
  "ed_loop [] w = None"
| "ed_loop ((now, ev) # evs) w =
     (let (next, e) = ed_step now ev (w_ed w); w = w\<lparr>w_ed := e\<rparr> in
      case next of
        Ed_quit \<Rightarrow> Some (w\<lparr>w_events := evs\<rparr>)
      | Ed_redraw \<Rightarrow> ed_loop evs (w\<lparr>w_cells := render_all now e (w_cells w)\<rparr>)
      | Ed_ignore \<Rightarrow> ed_loop evs w
      | Ed_save \<Rightarrow>
          (case save_file now e (w_fs w) of None \<Rightarrow> None
           | Some (e, fs) \<Rightarrow> ed_loop evs (w\<lparr>w_ed := e, w_fs := fs, w_cells := render_all now e (w_cells w)\<rparr>))
      | Ed_prompt \<Rightarrow>
          (case ed_search_prompt (w_chars w) e (w_cells w) of None \<Rightarrow> None
           | Some (e, cells, chars) \<Rightarrow>
               ed_loop evs (w\<lparr>w_ed := e, w_cells := render_all now e cells, w_chars := chars\<rparr>)))"

fun ask_save :: "(u32 \<times> u8) list \<Rightarrow> ed_world \<Rightarrow> ed_world option" where
  "ask_save [] w = None"
| "ask_save ((now, c) # chars) w =
     (if c = 121 \<or> c = 89 then
        map_option (\<lambda>(e, fs). w\<lparr>w_ed := e, w_fs := fs, w_chars := chars\<rparr>) (save_file now (w_ed w) (w_fs w))
      else if c = 110 \<or> c = 78 then Some (w\<lparr>w_chars := chars\<rparr>)
      else ask_save chars w)"

definition open_buffer :: "cstr \<Rightarrow> mem fs \<Rightarrow> editor \<Rightarrow> editor option" where
  "open_buffer path s e =
     load_file s path ((buf_init e)\<lparr>filename := (overlay (filename e) 0 (strncpy_bytes path 127))[127 := 0]\<rparr>)"

definition blank_screen :: "u16 list \<Rightarrow> u16 list" where
  "blank_screen cells =
     fold (\<lambda>r. fold (\<lambda>c. ed_put (int c) (int r) 32 VGA_COLOR_BLACK VGA_COLOR_BLACK) [0..<VGA_WIDTH]) [0..<VGA_HEIGHT] cells"

definition editor_open :: "cstr \<Rightarrow> u32 \<Rightarrow> ed_world \<Rightarrow> ed_world option" where
  "editor_open path now w =
     (case open_buffer path (w_fs w) (w_ed w) of None \<Rightarrow> None
      | Some e \<Rightarrow>
          (case ed_loop (w_events w) (w\<lparr>w_ed := e, w_cells := render_all now e (blank_screen (w_cells w))\<rparr>) of
             None \<Rightarrow> None
           | Some w \<Rightarrow>
               if modified (w_ed w)
               then ask_save (w_chars w)
                      (w\<lparr>w_cells := ed_str 1 ROW_MSG (lit ''unsaved changes! save? (y/n)'') VGA_COLOR_YELLOW VGA_COLOR_BLACK
                                     (ed_fill_row ROW_MSG 32 VGA_COLOR_LIGHT_GREY VGA_COLOR_BLACK (w_cells w))\<rparr>)
               else Some w))"

subsection \<open>The bytes of a saved text\<close>

definition joined :: "u8 list list \<Rightarrow> u8 list" where
  "joined ts = concat (map (\<lambda>t. t @ [10]) ts)"

lemma joined_simps [simp]: "joined [] = []" "joined (t # ts) = t @ 10 # joined ts"
  by (simp_all add: joined_def)

text \<open>A write changes neither the root nor what a path stands for.\<close>

lemma vfs_write_root: "vfs_write s p pos bs = Some (k, s') \<Longrightarrow> fs_root s' = fs_root s"
  by (auto simp: vfs_write_def ramfs_write_def Let_def split: if_splits option.splits)

lemma same_tree_resolve:
  assumes "same_tree s s'" "fs_root s' = fs_root s"
  shows "vfs_resolve s' path = vfs_resolve s path"
proof -
  have "resolve_loop s' path cur = resolve_loop s path cur" for path cur
  proof (induction "length path" arbitrary: path cur rule: less_induct)
    case less
    show ?case
    proof (cases "path = []")
      case False
      then show ?thesis
        using less [OF path_rest_shorter [OF False]]
        by (simp add: resolve_loop.simps [of s' path cur] resolve_loop.simps [of s path cur] same_tree_finddir [OF assms(1)])
    qed (simp add: resolve_loop.simps)
  qed
  then show ?thesis using assms(2) by (simp add: vfs_resolve_def)
qed

lemma save_lines_bytes:
  assumes "\<forall>(row, len) \<in> set ls. len \<le> length row"
  shows "ram_ok s \<Longrightarrow> is_file s p \<Longrightarrow> file_cap s p = 4096 \<Longrightarrow>
    length (file_bytes s p) + length (joined (map (\<lambda>(row, len). take len row) ls)) \<le> 4096 \<Longrightarrow>
    \<exists>s'. save_lines p (of_nat (length (file_bytes s p))) ls s = Some s' \<and> ram_ok s' \<and> is_file s' p \<and>
      file_cap s' p = 4096 \<and> same_tree s s' \<and> fs_root s' = fs_root s \<and>
      file_bytes s' p = file_bytes s p @ joined (map (\<lambda>(row, len). take len row) ls)"
  using assms
proof (induction ls arbitrary: s)
  case Nil
  then show ?case by (simp add: same_tree_def)
next
  case (Cons rl ls)
  obtain row len where rl: "rl = (row, len)" by fastforce
  let ?t = "take len row" and ?B = "file_bytes s p"
  have room: "length ?B + length ?t + 1 + length (joined (map (\<lambda>(row, len). take len row) ls)) \<le> 4096"
    using Cons.prems(4) rl by simp
  have "length ?B + length ?t \<le> 4096" using room by linarith
  from vfs_write_append [OF Cons.prems(1-3) refl this]
  obtain s1 where s1: "vfs_write s p (of_nat (length ?B)) ?t = Some (of_nat (length ?t), s1)" "ram_ok s1" "is_file s1 p"
      "file_cap s1 p = 4096" "same_tree s s1" "file_bytes s1 p = ?B @ ?t"
    by blast
  have "length ?B + length ?t + length [10 :: u8] \<le> 4096" using room by simp
  with s1(6) obtain s2 where s2: "vfs_write s1 p (of_nat (length ?B + length ?t)) [10] = Some (of_nat 1, s2)" "ram_ok s2" "is_file s2 p"
      "file_cap s2 p = 4096" "same_tree s1 s2" "file_bytes s2 p = (?B @ ?t) @ [10]"
    using vfs_write_append [OF s1(2-4), of "length ?B + length ?t" "[10]"] by auto
  have "length (file_bytes s2 p) + length (joined (map (\<lambda>(row, len). take len row) ls)) \<le> 4096"
    using room s2(6) by simp
  from Cons.IH [OF s2(2-4) this] Cons.prems(5)
  obtain s' where s': "save_lines p (of_nat (length (file_bytes s2 p))) ls s2 = Some s'" "ram_ok s'" "is_file s' p"
      "file_cap s' p = 4096" "same_tree s2 s'" "fs_root s' = fs_root s2"
      "file_bytes s' p = file_bytes s2 p @ joined (map (\<lambda>(row, len). take len row) ls)"
    by auto
  have "save_lines p (of_nat (length ?B)) (rl # ls) s = Some s'"
    using s1(1) s2(1) s'(1) s2(6) by (simp add: rl add_ac)
  moreover have "same_tree s s'" using s1(5) s2(5) s'(5) same_tree_trans by blast
  moreover have "fs_root s' = fs_root s" using s'(6) vfs_write_root [OF s1(1)] vfs_write_root [OF s2(1)] by simp
  ultimately show ?case using s'(2-4,7) s2(6) rl by (intro exI [of _ s']) simp
qed

subsection \<open>Loading\<close>

lemma load_chunk_text:
  assumes "10 \<notin> set t"
  shows "col + length t \<le> 80 \<Longrightarrow> line < length b \<Longrightarrow> length (b ! line) = 81 \<Longrightarrow>
    load_chunk (t @ cs) b l line col =
      load_chunk cs (b[line := overlay (b ! line) col t]) l line (col + length t)"
  using assms
proof (induction t arbitrary: b col)
  case Nil
  then show ?case by (simp add: overlay_def)
next
  case (Cons c t)
  let ?b = "b[line := (b ! line)[col := c]]"
  have "load_chunk ((c # t) @ cs) b l line col = load_chunk (t @ cs) ?b l line (col + 1)"
    using Cons.prems by (simp add: ED_LINE_MAX_def)
  also have "\<dots> = load_chunk cs (?b[line := overlay (?b ! line) (col + 1) t]) l line (col + 1 + length t)"
    using Cons.prems by (intro Cons.IH) simp_all
  also have "overlay (?b ! line) (col + 1) t = overlay (b ! line) col (c # t)"
    using Cons.prems by (simp add: overlay_def take_Suc_conv_app_nth)
  finally show ?case by simp
qed

lemma load_chunk_line:
  assumes "10 \<notin> set t" "length t \<le> 80" "line < 127" "length b = 128" "\<forall>r \<in> set b. length r = 81"
  shows "load_chunk (t @ 10 # cs) b l line 0 =
    load_chunk cs (b[line := overlay (b ! line) 0 (t @ [0])]) (l[line := length t]) (line + 1) 0"
proof -
  have r: "line < length b" "length (b ! line) = 81" using assms(3-5) by simp_all
  have "(overlay (b ! line) 0 t)[length t := 0] = overlay (b ! line) 0 (t @ [0])"
    using r(2) assms(2) by (simp add: overlay_def list_update_append Cons_nth_drop_Suc [symmetric])
  then show ?thesis
    using load_chunk_text [OF assms(1), of 0 line b "10 # cs" l] assms(2,3) r by (simp add: ED_MAX_LINES_def)
qed

lemma load_chunk_lines:
  assumes "\<forall>t \<in> set ts. 10 \<notin> set t \<and> length t \<le> 80"
  shows "line + length ts \<le> 127 \<Longrightarrow> length b = 128 \<Longrightarrow> \<forall>r \<in> set b. length r = 81 \<Longrightarrow> length l = 128 \<Longrightarrow>
    \<exists>b' l'. load_chunk (joined ts) b l line 0 = (b', l', line + length ts, 0) \<and>
      length b' = 128 \<and> (\<forall>r \<in> set b'. length r = 81) \<and> length l' = 128 \<and>
      (\<forall>i < length ts. l' ! (line + i) = length (ts ! i) \<and> take (length (ts ! i)) (b' ! (line + i)) = ts ! i) \<and>
      (\<forall>i. i < line \<or> line + length ts \<le> i \<longrightarrow> l' ! i = l ! i \<and> b' ! i = b ! i)"
  using assms
proof (induction ts arbitrary: b l line)
  case (Cons t ts)
  let ?b = "b[line := overlay (b ! line) 0 (t @ [0])]" and ?l = "l[line := length t]"
  have t: "10 \<notin> set t" "length t \<le> 80" "line < 127" using Cons.prems by auto
  have r: "length (b ! line) = 81" using Cons.prems t(3) by simp
  have "length (overlay (b ! line) 0 (t @ [0])) = 81" using r t(2) by (simp add: klen)
  then have ok: "length ?b = 128" "\<forall>r \<in> set ?b. length r = 81" "length ?l = 128"
    using Cons.prems by (auto dest!: set_update_cases)
  obtain b' l' where IH: "load_chunk (joined ts) ?b ?l (line + 1) 0 = (b', l', line + 1 + length ts, 0)"
      "length b' = 128" "\<forall>r \<in> set b'. length r = 81" "length l' = 128"
      "\<forall>i < length ts. l' ! (line + 1 + i) = length (ts ! i) \<and> take (length (ts ! i)) (b' ! (line + 1 + i)) = ts ! i"
      "\<forall>i. i < line + 1 \<or> line + 1 + length ts \<le> i \<longrightarrow> l' ! i = ?l ! i \<and> b' ! i = ?b ! i"
    using Cons.IH [of "line + 1" ?b ?l] ok Cons.prems by auto
  have "load_chunk (joined (t # ts)) b l line 0 = (b', l', line + length (t # ts), 0)"
    using load_chunk_line [OF t, of b "joined ts" l] Cons.prems IH(1) by simp
  moreover have "l' ! (line + i) = length ((t # ts) ! i) \<and> take (length ((t # ts) ! i)) (b' ! (line + i)) = (t # ts) ! i"
    if "i < length (t # ts)" for i
  proof (cases i)
    case 0
    then show ?thesis using IH(6) Cons.prems t by (simp add: overlay_def)
  next
    case (Suc j)
    then show ?thesis using IH(5) that by simp
  qed
  ultimately show ?case using IH(2-4,6) by (intro exI [of _ b'] exI [of _ l']) auto
qed simp

text \<open>Reading in pieces gives the same as reading the file at once, as long as the lines fit.\<close>

lemma load_chunk_append:
  "line + count_list xs 10 < 128 \<Longrightarrow>
   load_chunk (xs @ ys) b l line col =
     (case load_chunk xs b l line col of (b, l, line, col) \<Rightarrow> load_chunk ys b l line col) \<and>
   fst (snd (snd (load_chunk xs b l line col))) = line + count_list xs 10"
  by (induction xs b l line col rule: load_chunk.induct) (auto simp: ED_MAX_LINES_def ED_LINE_MAX_def Let_def)

lemma load_file_loop_all:
  assumes f: "small_file s p"
  shows "k \<le> length (file_bytes s p) \<Longrightarrow> line + count_list (drop k (file_bytes s p)) 10 < 128 \<Longrightarrow>
    load_file_loop s p (of_nat k) b l line col =
      (case load_chunk (drop k (file_bytes s p)) b l line col of (b, l, line, col) \<Rightarrow> Some (b, l, line))"
proof (induction "length (file_bytes s p) - k" arbitrary: k b l line col rule: less_induct)
  case less
  let ?F = "file_bytes s p"
  define t where "t = take 128 (drop k ?F)"
  have len: "length ?F \<le> 4096" using f by (simp add: small_file_def)
  have rd: "vfs_read s p (of_nat k) 128 = Some t"
    using vfs_read_piece [OF f, of k 128] less.prems len by (simp add: t_def)
  show ?case
  proof (cases "k = length ?F")
    case True
    then show ?thesis using rd by (subst load_file_loop.simps) (simp add: t_def)
  next
    case False
    then have ne: "t \<noteq> []" "k + length t \<le> length ?F" "0 < length t" using less.prems by (auto simp: t_def)
    have split: "drop k ?F = t @ drop (k + length t) ?F"
      using append_take_drop_id [of "length t" "drop k ?F"] by (simp add: t_def add.commute min_def split: if_splits)
    have c: "line + count_list t 10 + count_list (drop (k + length t) ?F) 10 < 128"
      using less.prems(2) unfolding split by simp
    obtain b1 l1 line1 col1 where st: "load_chunk t b l line col = (b1, l1, line1, col1)" by (metis prod_cases4)
    have line1: "line1 = line + count_list t 10"
      using load_chunk_append [of line t "[]" b l col] c st by simp
    have "load_file_loop s p (of_nat k) b l line col = load_file_loop s p (of_nat (k + length t)) b1 l1 line1 col1"
      using rd ne(1) less.prems(2) st by (subst load_file_loop.simps) (simp add: ED_MAX_LINES_def)
    also have "\<dots> = (case load_chunk (drop (k + length t) ?F) b1 l1 line1 col1 of (b, l, line, col) \<Rightarrow> Some (b, l, line))"
      using ne c line1 by (intro less.hyps) linarith+
    also have "load_chunk (drop (k + length t) ?F) b1 l1 line1 col1 = load_chunk (drop k ?F) b l line col"
      using load_chunk_append [of line t "drop (k + length t) ?F" b l col] c st by (simp add: split [symmetric])
    finally show ?thesis .
  qed
qed

subsection \<open>Saving and opening again\<close>

lemma count_joined: "\<forall>t \<in> set ts. 10 \<notin> set t \<Longrightarrow> count_list (joined ts) 10 = length ts"
  by (induction ts) (simp_all add: count_list_0_iff)

lemma load_file_tail:
  assumes f: "small_file s p" "file_bytes s p = joined ts @ u" "n_flags (the (fs_nodes s p)) AND VFS_FILE \<noteq> 0"
    and r: "vfs_resolve s path = p"
    and t: "\<forall>t \<in> set ts. 10 \<notin> set t \<and> length t \<le> 80" "ts \<noteq> []" "length ts \<le> 127" "10 \<notin> set u" "length u \<le> 80"
    and e: "ed_buf e = replicate 128 (replicate 81 0)" "line_len e = replicate 128 0"
  shows "\<exists>e'. load_file s path e = Some e' \<and> text_of e' = ts \<and> modified e' = modified e \<and> cx e' = cx e \<and> cy e' = cy e"
proof -
  obtain n where "fs_nodes s p = Some n" using f(1) by (auto simp: small_file_def is_file_def)
  then have nz: "p \<noteq> 0" using fs_okD(1) f(1) by (auto simp: small_file_def)
  obtain b0 l' where L: "load_chunk (joined ts) (ed_buf e) (line_len e) 0 0 = (b0, l', length ts, 0)"
      "length b0 = 128" "\<forall>r \<in> set b0. length r = 81"
      "\<forall>i < length ts. l' ! i = length (ts ! i) \<and> take (length (ts ! i)) (b0 ! i) = ts ! i"
      "\<forall>i. length ts \<le> i \<longrightarrow> l' ! i = line_len e ! i"
    using load_chunk_lines [OF t(1), of 0 "ed_buf e" "line_len e"] t(3) e by (auto simp: klen)
  define b' where "b' = b0[length ts := overlay (b0 ! length ts) 0 u]"
  have c: "count_list (joined ts) 10 = length ts" using count_joined t(1) by simp
  have "load_chunk u b0 l' (length ts) 0 = (b', l', length ts, length u)"
    using load_chunk_text [OF t(4), of 0 "length ts" b0 "[]" l'] t(3,5) L(2,3) by (simp add: b'_def)
  then have "load_chunk (joined ts @ u) (ed_buf e) (line_len e) 0 0 = (b', l', length ts, length u)"
    using load_chunk_append [of 0 "joined ts" u "ed_buf e" "line_len e" 0] L(1) c t(3) by simp
  moreover have "count_list (joined ts @ u) 10 = length ts" using c t(4) by (simp add: count_list_0_iff)
  ultimately have "load_file_loop s p 0 (ed_buf e) (line_len e) 0 0 = Some (b', l', length ts)"
    using load_file_loop_all [OF f(1), of 0 0 "ed_buf e" "line_len e" 0] f(2) t(3) by simp
  moreover have "l' ! length ts = 0" using L(5) e(2) t(3) by simp
  ultimately have "load_file s path e = Some (e\<lparr>ed_buf := b', line_len := l', num_lines := length ts\<rparr>)"
    using nz f(3) r t(2,3) by (simp add: load_file_def ED_MAX_LINES_def Let_def)
  moreover have "text_of (e\<lparr>ed_buf := b', line_len := l', num_lines := length ts\<rparr>) = ts"
    using L(4) by (intro nth_equalityI) (simp_all add: text_nth b'_def)
  ultimately show ?thesis by auto
qed

lemmas load_file_text = load_file_tail [where u = "[]", simplified]

lemma text_of_zip:
  assumes "ed_ok e"
  shows "map (\<lambda>(row, len). take len row) (take (num_lines e) (zip (ed_buf e) (line_len e))) = text_of e"
    and "\<forall>(row, len) \<in> set (take (num_lines e) (zip (ed_buf e) (line_len e))). len \<le> length row"
proof -
  note E = ed_okD [OF assms]
  show "map (\<lambda>(row, len). take len row) (take (num_lines e) (zip (ed_buf e) (line_len e))) = text_of e"
    using E(1,2,6) by (intro nth_equalityI) (simp_all add: text_nth)
  show "\<forall>(row, len) \<in> set (take (num_lines e) (zip (ed_buf e) (line_len e))). len \<le> length row"
    using E(1-4) by (fastforce simp: in_set_conv_nth)
qed

lemma save_to_bytes:
  assumes "ed_ok e" "ram_ok s" "is_file s p" "file_cap s p = 4096" "length (joined (text_of e)) \<le> 4096"
  shows "\<exists>e' s'. save_to now p e s = Some (e', s') \<and> file_bytes s' p = joined (text_of e) \<and> ram_ok s' \<and> is_file s' p \<and>
    same_tree s s' \<and> fs_root s' = fs_root s \<and> text_of e' = text_of e \<and> \<not> modified e' \<and> filename e' = filename e"
proof -
  let ?s = "set_length p 0 s"
  note Z = set_length_0 [OF assms(2,3)]
  have z: "ram_ok ?s" "is_file ?s p" "file_cap ?s p = 4096" "file_bytes ?s p = []" "same_tree s ?s" "fs_root ?s = fs_root s"
    using Z assms(4) by (simp_all add: set_length_def)
  obtain s' where s': "save_lines p 0 (take (num_lines e) (zip (ed_buf e) (line_len e))) ?s = Some s'" "ram_ok s'" "is_file s' p"
      "same_tree ?s s'" "fs_root s' = fs_root ?s" "file_bytes s' p = joined (text_of e)"
    using save_lines_bytes [OF text_of_zip(2) [OF assms(1)] z(1-3)] assms(5) z(4) text_of_zip(1) [OF assms(1)] by auto
  have "save_to now p e s = Some (set_msg (lit ''file saved.'') now (e\<lparr>modified := False\<rparr>), s')"
    using s'(1) by (simp add: save_to_def set_length_def)
  moreover have "same_tree s s'" using same_tree_trans [OF z(5) s'(4)] .
  ultimately show ?thesis using s' z(6) by (simp add: set_msg_def text_of_def)
qed

text \<open>
  C12: A text that was saved is the text that is opened again.  When the file exists and the text has at
  most 127 lines that fit its 4096 bytes, saving succeeds, the file then holds every line with its line
  break, and opening the path in a fresh editor shows exactly the same lines, with the cursor at the start
  and nothing marked as modified.
\<close>

theorem editor_save_reopens:
  assumes "ed_ok e" "ram_ok s" "is_file s p" "file_cap s p = 4096" "n_flags (the (fs_nodes s p)) AND VFS_FILE \<noteq> 0"
    and "vfs_resolve s (cstr_of (filename e)) = p" "p \<noteq> 0"
    and "\<forall>t \<in> set (text_of e). 10 \<notin> set t" "num_lines e \<le> 127" "length (joined (text_of e)) \<le> 4096"
  shows "\<exists>e' s' e''. save_file now e s = Some (e', s') \<and> text_of e' = text_of e \<and> \<not> modified e' \<and>
    file_bytes s' p = concat (map (\<lambda>t. t @ [10]) (text_of e)) \<and>
    open_buffer (cstr_of (filename e)) s' e0 = Some e'' \<and> doc_of e'' = (text_of e, 0, 0) \<and> \<not> modified e''"
proof -
  obtain e' s' where S: "save_to now p e s = Some (e', s')" "file_bytes s' p = joined (text_of e)" "ram_ok s'" "is_file s' p"
      "same_tree s s'" "fs_root s' = fs_root s" "text_of e' = text_of e" "\<not> modified e'"
    using save_to_bytes [OF assms(1-4,10)] by blast
  have "save_file now e s = Some (e', s')" using S(1) assms(6,7) by (simp add: save_file_def)
  moreover have "small_file s' p" using S(2-4) assms(10) by (simp add: small_file_def)
  moreover have "n_flags (the (fs_nodes s' p)) AND VFS_FILE \<noteq> 0" using S(5) assms(5) by (simp add: same_tree_def)
  moreover have "vfs_resolve s' (cstr_of (filename e)) = p" using same_tree_resolve [OF S(5,6)] assms(6) by simp
  moreover have "\<forall>t \<in> set (text_of e). 10 \<notin> set t \<and> length t \<le> 80"
    using assms(8) text_line_length [OF assms(1)] ed_okD(4,6) [OF assms(1)] by (auto simp: in_set_conv_nth)
  moreover have "text_of e \<noteq> []" using ed_okD(5) [OF assms(1)] by (metis length_text list.size(3) not_one_le_zero)
  ultimately obtain e'' where "open_buffer (cstr_of (filename e)) s' e0 = Some e''" "text_of e'' = text_of e"
      "\<not> modified e''" "cx e'' = 0" "cy e'' = 0"
    using load_file_text [of s' p "text_of e" "cstr_of (filename e)"
        "(buf_init e0)\<lparr>filename := (overlay (filename e0) 0 (strncpy_bytes (cstr_of (filename e)) 127))[127 := 0]\<rparr>"]
      S(2) assms(9)
    by (auto simp: open_buffer_def buf_init_def ED_MAX_LINES_def ED_LINE_MAX_def)
  with S \<open>save_file now e s = Some (e', s')\<close> show ?thesis by (auto simp: doc_of_def joined_def)
qed

theorem editor_save_reopens_witness:
  "\<exists>e s e' s' e''. text_of e = [[97]] \<and> save_file 0 e s = Some (e', s') \<and> file_bytes s' 0x300010 = [97, 10] \<and>
     open_buffer (lit ''/'') s' blank_editor = Some e'' \<and> doc_of e'' = ([[97]], 0, 0)"
proof -
  obtain m where m: "heap_ok m [(96, False), (144, False), (1048288, True)]" using sample_heap by blast
  define s where "s = one_file_fs m []"
  have s: "opens [47] (lit ''/'') s 0x300010" "file_bytes s 0x300010 = []" "file_cap s 0x300010 = 4096"
    unfolding s_def by (rule one_file_fs_ok [OF m]; simp)+
  obtain e0 where e0: "ed_ok e0" "doc_of e0 = ([[97]], 0, 1)" using typed_a by blast
  let ?e = "e0\<lparr>filename := 47 # replicate 127 0\<rparr>"
  have e: "ed_ok ?e" "text_of ?e = [[97]]" "cstr_of (filename ?e) = [47]" "num_lines ?e = 1"
  proof -
    have n: "num_lines e0 = 1" using e0(2) length_text [of e0] by (simp add: doc_of_def)
    show "ed_ok ?e" using e0(1) by (simp add: ed_ok_def ed_shape_def)
    show "text_of ?e = [[97]]" using e0(2) by (simp add: doc_of_def text_of_def)
    show "cstr_of (filename ?e) = [47]" by (simp add: cstr_of_def)
    show "num_lines ?e = 1" using n by simp
  qed
  have f: "ram_ok s" "is_file s 0x300010" "n_flags (the (fs_nodes s 0x300010)) AND VFS_FILE \<noteq> 0"
    "vfs_resolve s (cstr_of (filename ?e)) = 0x300010"
    using s(1) unfolding e(3) by (simp_all add: opens_def small_file_def make_full_def)
  obtain e' s' e'' where "save_file 0 ?e s = Some (e', s')" "file_bytes s' 0x300010 = [97, 10]"
      "open_buffer [47] s' blank_editor = Some e''" "doc_of e'' = ([[97]], 0, 0)"
    using editor_save_reopens [OF e(1) f(1,2) s(3) f(3,4), of 0 blank_editor] e by auto
  then show ?thesis using e(2) by (intro exI [of _ ?e] exI [of _ s] exI) simp
qed

text \<open>A last line without a line break is not shown.\<close>

lemma load_drops_last_line:
  assumes "small_file s p" "file_bytes s p = joined ts @ u" "10 \<notin> set u" "u \<noteq> []" "length u \<le> 80"
    "\<forall>t \<in> set ts. 10 \<notin> set t \<and> length t \<le> 80" "ts \<noteq> []" "length ts \<le> 127"
    "n_flags (the (fs_nodes s p)) AND VFS_FILE \<noteq> 0" "vfs_resolve s path = p"
  shows "\<exists>e'. open_buffer path s e = Some e' \<and> text_of e' = ts"
proof -
  let ?e = "(buf_init e)\<lparr>filename := (overlay (filename e) 0 (strncpy_bytes path 127))[127 := 0]\<rparr>"
  have "ed_buf ?e = replicate 128 (replicate 81 0)" "line_len ?e = replicate 128 0"
    by (simp_all add: buf_init_def ED_MAX_LINES_def ED_LINE_MAX_def)
  from load_file_tail [OF assms(1,2,9,10,6,7,8,3,5) this] show ?thesis by (auto simp: open_buffer_def)
qed

text \<open>A file of 128 lines leaves 129 lines, one more than the arrays have.\<close>

lemma load_too_many:
  assumes "small_file s p" "file_bytes s p = replicate 128 10"
    "n_flags (the (fs_nodes s p)) AND VFS_FILE \<noteq> 0" "vfs_resolve s path = p" "p \<noteq> 0"
  shows "\<exists>e'. open_buffer path s e = Some e' \<and> num_lines e' = 129"
proof -
  have c: "load_chunk (replicate n 10) b l line 0 = (b', l', line', col') \<Longrightarrow> line + n = 128 \<Longrightarrow> line' = 128" for n b l line b' l' line' col'
    by (induction n arbitrary: b l line) (auto simp: ED_MAX_LINES_def Let_def split: if_splits)
  let ?b = "replicate 128 (replicate 81 0)" and ?l = "replicate 128 0"
  obtain b' l' line' col' where L: "load_chunk (replicate 128 10) ?b ?l 0 0 = (b', l', line', col')" by (metis prod_cases4)
  then have line: "line' = 128" using c by simp
  have r: "vfs_read s p 0 128 = Some (replicate 128 10)" "vfs_read s p 128 128 = Some []"
    using vfs_read_piece [OF assms(1), of 0 128] vfs_read_piece [OF assms(1), of 128 128] assms(2) by simp_all
  have "load_file_loop s p 0 ?b ?l 0 0 = load_file_loop s p 128 b' l' 128 col'"
    using r(1) L line by (subst load_file_loop.simps) (simp add: ED_MAX_LINES_def)
  also have "\<dots> = Some (b', l', 128)" using r(2) by (subst load_file_loop.simps) simp
  finally show ?thesis
    using assms(3-5) by (auto simp: open_buffer_def load_file_def buf_init_def ED_MAX_LINES_def ED_LINE_MAX_def Let_def)
qed

subsection \<open>A session that never saves\<close>

lemma step_save: "fst (ed_step now ev e) = Ed_save \<Longrightarrow> ev_type ev = TERM_CHAR \<and> ev_ch ev = ctrl CHR ''s''"
  by (auto simp: ed_step_def ed_key_def ed_char_def Let_def split: prod.splits if_splits term_key_type.splits)

text \<open>Without Ctrl-S and with the answer \<^verbatim>\<open>n\<close> no file is changed.\<close>

lemma session_without_save:
  assumes "\<forall>(now, ev) \<in> set evs. \<not> (ev_type ev = TERM_CHAR \<and> ev_ch ev = ctrl CHR ''s'')"
  shows "ed_loop evs w = Some w' \<Longrightarrow> w_fs w' = w_fs w"
  using assms
proof (induction evs arbitrary: w)
  case (Cons p evs)
  obtain now ev where p: "p = (now, ev)" by fastforce
  obtain nx e where st: "ed_step now ev (w_ed w) = (nx, e)" by fastforce
  have "nx \<noteq> Ed_save" using step_save [of now ev "w_ed w"] st Cons.prems(2) by (auto simp: p)
  then show ?case
    using Cons st by (cases nx) (fastforce simp: p split: option.splits)+
qed simp

end
