(* ===== verification/ShDispatch.thy ===== *)
theory ShDispatch
  imports ShCmd Shooter EdSession
begin

text \<open>
  The shell of \<^verbatim>\<open>kernel/shell.c\<close> as a whole: which command a line is (\<^verbatim>\<open>dispatch\<close>), what the command
  does to the state of the kernel, scripts (\<^verbatim>\<open>cmd_run\<close>, \<^verbatim>\<open>shell_exec_line\<close>), the editor and the game
  as the shell calls them, the power commands, \<^verbatim>\<open>shell_init\<close> and the main loop \<^verbatim>\<open>shell_run\<close>.
  A script re-enters \<^verbatim>\<open>dispatch\<close>, so what is left to do after a command is a list of frames.
\<close>

unbundle bit_operations_syntax

subsection \<open>State\<close>

text \<open>
  The frame buffer is that of the console, which \<^verbatim>\<open>kprintf\<close> writes too.  The inputs still to come:
  what \<^verbatim>\<open>term_poll\<close> and \<^verbatim>\<open>keyboard_getchar\<close> will give, with the tick counts at which they do, the
  keys of the game's frames, and the tick counts when a session of the editor or the game ends.
\<close>

record ('d, 'h) shell =
  sh_sp :: "'d disk spawner"
  sh_line :: cmd_line
  sh_dirs :: sh_dir
  sh_con :: console
  sh_row :: nat
  sh_env :: "env_entry list"
  sh_alias :: "alias_entry list"
  sh_boot :: "u8 list"
  sh_metas :: "filemeta list"
  sh_sigs :: "sig_entry list"
  sh_pmm :: pmm
  sh_prof :: "u32 list"
  sh_net :: "'h e1000 net"
  sh_timer :: timer
  sh_dog :: watchdog
  sh_ed :: editor
  sh_game :: game
  sh_sbuf :: "u8 list"
  sh_off :: bool
  in_events :: "(u32 \<times> term_event) list"
  in_chars :: "(u32 \<times> u8) list"
  in_frames :: "u8 list"
  in_back :: "u32 list"

text \<open>What the kernel runs on: the ports of the drive, the driver of the network card and what its
  buffer on the stack holds, the clock by tick count, the bytes a stack array starts with, the
  addresses of the profiler's names, and what interrupts do to the timer while \<^verbatim>\<open>timer_sleep\<close> waits.\<close>

record ('d, 'h) host =
  h_ports :: "'d ports"
  h_nic :: "'h e1000 driver"
  h_packet :: "u8 list"
  h_clock :: "u32 \<Rightarrow> rtc_time"
  h_stack :: "u8 list"
  h_names :: "u32 list"
  h_irqs :: "(timer \<Rightarrow> timer) list"

abbreviation sh_cwd :: "('d, 'h) shell \<Rightarrow> cstr" where
  "sh_cwd s \<equiv> cwd (sh_dirs s)"

abbreviation sh_fs :: "('d, 'h) shell \<Rightarrow> mem fs" where
  "sh_fs s \<equiv> sp_fs (sh_sp s)"

abbreviation sh_disk :: "('d, 'h) host \<Rightarrow> 'd disk sectors" where
  "sh_disk H \<equiv> disk_sectors (h_ports H)"

definition set_fs :: "mem fs \<Rightarrow> ('d, 'h) shell \<Rightarrow> ('d, 'h) shell" where
  "set_fs fs s = s\<lparr>sh_sp := (sh_sp s)\<lparr>sp_fs := fs\<rparr>\<rparr>"

definition set_fat :: "'d disk fat \<Rightarrow> ('d, 'h) shell \<Rightarrow> ('d, 'h) shell" where
  "set_fat ft s = s\<lparr>sh_sp := (sh_sp s)\<lparr>sp_fat := ft\<rparr>\<rparr>"

definition sh_cells :: "('d, 'h) shell \<Rightarrow> u16 list" where
  "sh_cells s = fb (c_vga (sh_con s))"

definition set_cells :: "u16 list \<Rightarrow> ('d, 'h) shell \<Rightarrow> ('d, 'h) shell" where
  "set_cells cells s = s\<lparr>sh_con := (sh_con s)\<lparr>c_vga := (c_vga (sh_con s))\<lparr>fb := cells\<rparr>\<rparr>\<rparr>"

definition on_term :: "(terminal \<Rightarrow> terminal) \<Rightarrow> ('d, 'h) shell \<Rightarrow> ('d, 'h) shell" where
  "on_term f s =
     (let t = f \<lparr>t_fb = sh_cells s, shell_row = sh_row s\<rparr> in (set_cells (t_fb t) s)\<lparr>sh_row := shell_row t\<rparr>)"

definition emit :: "sh_out list \<Rightarrow> ('d, 'h) shell \<Rightarrow> ('d, 'h) shell" where
  "emit os s = on_term (run_out os) s"

definition show_status :: "('d, 'h) host \<Rightarrow> ('d, 'h) shell \<Rightarrow> ('d, 'h) shell" where
  "show_status H s =
     (let t = timer_ticks (sh_timer s) in set_cells (draw_status (sh_cwd s) (h_clock H t) t (sh_cells s)) s)"

definition show_prompt :: "('d, 'h) shell \<Rightarrow> ('d, 'h) shell option" where
  "show_prompt s = map_option (\<lambda>cells. set_cells cells s) (prompt_redraw (sh_cwd s) (sh_line s) (sh_cells s))"

subsection \<open>Which command a line is\<close>

datatype plain =
  P_help | P_clear | P_uptime | P_time | P_mem | P_sysinfo | P_dmesg | P_top | P_ps | P_history | P_pwd | P_ls
| P_env | P_diskls | P_disksync | P_about | P_shoot | P_reboot | P_halt | P_alias | P_netinfo | P_date | P_whoami
| P_hostname | P_uname | P_proctest | P_poweroff

datatype unary =
  U_wc | U_head | U_tail | U_sort | U_uniq | U_udpsend | U_arp | U_ping | U_run | U_touch | U_rm | U_echo | U_calc
| U_color | U_cd | U_mkdir | U_cat | U_find | U_export | U_unset | U_edit | U_diskcat | U_diskdel | U_spawn

datatype binary = B_cp | B_mv | B_grep | B_write | B_diskwrite | B_chmod

datatype command = C_plain plain | C_unary unary cstr | C_binary binary cstr cstr | C_kill u32 i32 | C_usage string | C_unknown cstr

definition plain_table :: "(cstr \<times> plain) list" where
  "plain_table = map (\<lambda>(n, p). (lit n, p))
     [(''help'', P_help), (''clear'', P_clear), (''uptime'', P_uptime), (''time'', P_time), (''mem'', P_mem),
      (''sysinfo'', P_sysinfo), (''dmesg'', P_dmesg), (''top'', P_top), (''ps'', P_ps), (''history'', P_history),
      (''pwd'', P_pwd), (''ls'', P_ls), (''env'', P_env), (''diskls'', P_diskls), (''disksync'', P_disksync),
      (''about'', P_about), (''shoot'', P_shoot), (''reboot'', P_reboot), (''halt'', P_halt), (''alias'', P_alias),
      (''netinfo'', P_netinfo), (''date'', P_date), (''whoami'', P_whoami), (''hostname'', P_hostname),
      (''uname'', P_uname), (''proctest'', P_proctest), (''poweroff'', P_poweroff)]"

definition unary_table :: "(cstr \<times> unary) list" where
  "unary_table = map (\<lambda>(n, u). (lit n, u))
     [(''wc '', U_wc), (''head '', U_head), (''tail '', U_tail), (''sort '', U_sort), (''uniq '', U_uniq),
      (''udpsend '', U_udpsend), (''arp '', U_arp), (''ping '', U_ping), (''run '', U_run), (''touch '', U_touch),
      (''rm '', U_rm), (''echo '', U_echo), (''calc '', U_calc), (''color '', U_color), (''cd '', U_cd),
      (''mkdir '', U_mkdir), (''cat '', U_cat), (''find '', U_find), (''export '', U_export), (''unset '', U_unset),
      (''edit '', U_edit), (''diskcat '', U_diskcat), (''diskdel '', U_diskdel), (''spawn '', U_spawn)]"

fun streq :: "cstr \<Rightarrow> cstr \<Rightarrow> int" where
  "streq [] [] = 0"
| "streq [] (b # bs) = - uint b"
| "streq (a # as) [] = uint a"
| "streq (a # as) (b # bs) = (if a = b then streq as bs else uint a - uint b)"

definition starts :: "string \<Rightarrow> nat \<Rightarrow> cstr \<Rightarrow> bool" where
  "starts w n t \<longleftrightarrow> strncmp_bytes t (lit w) n = 0"

text \<open>The text up to the first blank and the text behind it.\<close>

definition two_args :: "binary \<Rightarrow> string \<Rightarrow> cstr \<Rightarrow> command" where
  "two_args b usage t =
     (let a = takeWhile (\<lambda>c. c \<noteq> 32) t
      in if length a < length t then C_binary b a (drop (length a + 1) t) else C_usage usage)"

fun num_loop :: "i32 \<Rightarrow> cstr \<Rightarrow> i32 \<times> cstr" where
  "num_loop v [] = (v, [])"
| "num_loop v (c # p) = (if 48 \<le> c \<and> c \<le> 57 then num_loop (v * 10 + (ucast c - 48)) p else (v, c # p))"

definition kill_args :: "cstr \<Rightarrow> command" where
  "kill_args p =
     (let (n, p) = num_loop 0 p
      in if p \<noteq> [] \<and> hd p = 32 then C_kill n (fst (num_loop 0 (tl p))) else C_kill n (word_of_int SIGTERM))"

text \<open>What stands at \<^verbatim>\<open>cmd_buf + 5\<close>, which lies behind the NUL when the line is \<^verbatim>\<open>kill\<close> or \<^verbatim>\<open>grep\<close> alone;
  \<open>None\<close> when the string there does not end in the buffer.\<close>

definition fifth :: "u8 list \<Rightarrow> cstr option" where
  "fifth buf = (if 0 \<in> set (drop 5 buf) then Some (cstr_of (drop 5 buf)) else None)"

definition parse_command :: "u8 list \<Rightarrow> command option" where
  "parse_command buf =
     (let t = cstr_of buf in
      case find (\<lambda>(n, p). streq t n = 0) plain_table of
        Some (n, p) \<Rightarrow> Some (C_plain p)
      | None \<Rightarrow>
          if starts ''cp '' 3 t then Some (two_args B_cp ''usage: cp <src> <dst>'' (drop 3 t))
          else if starts ''mv '' 3 t then Some (two_args B_mv ''usage: mv <src> <dst>'' (drop 3 t))
          else
            (case find (\<lambda>(n, u). strncmp_bytes t n (length n) = 0) unary_table of
               Some (n, u) \<Rightarrow> Some (C_unary u (drop (length n) t))
             | None \<Rightarrow>
                 if starts ''kill '' 4 t then map_option kill_args (fifth buf)
                 else if starts ''grep '' 4 t
                 then map_option (two_args B_grep ''usage: grep <p> <path>'') (fifth buf)
                 else if starts ''write '' 6 t then Some (two_args B_write ''usage: write <n> <text>'' (drop 6 t))
                 else if starts ''diskwrite '' 10 t
                 then Some (two_args B_diskwrite ''usage: diskwrite <f> <text>'' (drop 10 t))
                 else if starts ''chmod '' 6 t then Some (two_args B_chmod ''usage: chmod <path> <rwx>'' (drop 6 t))
                 else Some (C_unknown t)))"

subsection \<open>The commands on the state\<close>

text \<open>\<^verbatim>\<open>env\<close> prints through \<^verbatim>\<open>kprintf\<close>.\<close>

fun print_env :: "env_entry list \<Rightarrow> console \<Rightarrow> console option" where
  "print_env [] c = Some c"
| "print_env (e # es) c =
     (if e_used e
      then Option.bind (kprintf (lit ''  %s=%s'' @ [10]) [KStr (Some (cstr_of (e_key e))), KStr (Some (cstr_of (e_val e)))] c)
             (print_env es)
      else print_env es c)"

text \<open>The three power commands: \<open>pause\<close> for those that sleep before the machine stops.\<close>

definition shut_down :: "('d, 'h) host \<Rightarrow> sh_out list \<Rightarrow> bool \<Rightarrow> ('d, 'h) shell \<Rightarrow> ('d, 'h) shell option" where
  "shut_down H said pause s =
     (case history_save (sh_disk H) (sh_line s) (sp_fat (sh_sp s)) of
        None \<Rightarrow> None
      | Some ft \<Rightarrow>
          (let s = emit said (set_fat (ft\<lparr>store := disksync_flush (h_ports H) (store ft)\<rparr>) s)
           in if pause then map_option (\<lambda>t. s\<lparr>sh_timer := t, sh_off := True\<rparr>) (timer_sleep (h_irqs H) 500 (sh_timer s))
              else Some (s\<lparr>sh_off := True\<rparr>)))"

text \<open>Back from a session that used the whole screen, at the next tick count of \<open>in_back\<close>.\<close>

definition come_back :: "('d, 'h) host \<Rightarrow> string \<Rightarrow> ('d, 'h) shell \<Rightarrow> ('d, 'h) shell option" where
  "come_back H back s =
     (case in_back s of
        [] \<Rightarrow> None
      | now # later \<Rightarrow>
          (let s = s\<lparr>in_back := later, sh_timer := (sh_timer s)\<lparr>tick_count := now\<rparr>,
                     sh_con := (sh_con s)\<lparr>c_vga := vga_clear (c_vga (sh_con s))\<rparr>, sh_row := TERM_TOP\<rparr>
           in show_prompt (emit (say back VGA_COLOR_LIGHT_GREY) (show_status H s))))"

definition cmd_edit :: "('d, 'h) host \<Rightarrow> cstr \<Rightarrow> ('d, 'h) shell \<Rightarrow> ('d, 'h) shell option" where
  "cmd_edit H path s =
     (if path = [] then Some (emit (say ''usage: edit <path>'' VGA_COLOR_LIGHT_RED) s)
      else
        (case editor_open (make_full (sh_cwd s) path) (timer_ticks (sh_timer s))
                \<lparr>w_ed = sh_ed s, w_fs = sh_fs s, w_cells = sh_cells s, w_events = in_events s, w_chars = in_chars s\<rparr> of
           None \<Rightarrow> None
         | Some w \<Rightarrow>
             come_back H ''returned from editor.''
               ((set_fs (w_fs w) (set_cells (w_cells w) s))
                  \<lparr>sh_ed := w_ed w, in_events := w_events w, in_chars := w_chars w\<rparr>)))"

definition cmd_shoot :: "('d, 'h) host \<Rightarrow> ('d, 'h) shell \<Rightarrow> ('d, 'h) shell option" where
  "cmd_shoot H s =
     (let s = emit (say ''launching shooter... press Q to quit'' VGA_COLOR_LIGHT_CYAN) s in
      case timer_sleep (h_irqs H) 500 (sh_timer s) of
        None \<Rightarrow> None
      | Some t \<Rightarrow>
          (case shooter_run (timer_ticks t) (in_frames s) ((sh_game s)\<lparr>screen := sh_cells s\<rparr>) of
             None \<Rightarrow> None
           | Some (g, keys) \<Rightarrow>
               come_back H ''returned from shooter.''
                 ((set_cells (screen g) s)\<lparr>sh_timer := t, sh_game := g, in_frames := keys\<rparr>)))"

definition run_plain :: "('d, 'h) host \<Rightarrow> plain \<Rightarrow> ('d, 'h) shell \<Rightarrow> ('d, 'h) shell option" where
  "run_plain H p s =
     (let out = (\<lambda>os. Some (emit os s)); ticks = timer_ticks (sh_timer s); now = h_clock H ticks in
      case p of
        P_help \<Rightarrow> out cmd_help
      | P_clear \<Rightarrow> Some (on_term cmd_clear s)
      | P_uptime \<Rightarrow> out (cmd_uptime ticks)
      | P_time \<Rightarrow> out (cmd_time now)
      | P_mem \<Rightarrow> out (cmd_mem (sh_pmm s))
      | P_sysinfo \<Rightarrow> out (cmd_sysinfo ticks)
      | P_dmesg \<Rightarrow> map_option (\<lambda>(os, c). emit os (s\<lparr>sh_con := c\<rparr>)) (cmd_dmesg (sh_con s))
      | P_top \<Rightarrow>
          (case cmd_top (sp_procs (sh_sp s)) (sh_pmm s) (h_names H) (sh_prof s) (sh_timer s) (sh_dog s) (sh_con s) of
             None \<Rightarrow> None
           | Some (before, after, _) \<Rightarrow>
               (let s = emit before s
                in map_option (\<lambda>c. emit after (s\<lparr>sh_con := c\<rparr>)) (prof_dump (h_names H) (sh_prof s) (sh_con s))))
      | P_ps \<Rightarrow> map_option (\<lambda>os. emit os s) (cmd_ps (sp_procs (sh_sp s)))
      | P_history \<Rightarrow> map_option (\<lambda>os. emit os s) (cmd_history (sh_line s))
      | P_pwd \<Rightarrow> out (cmd_pwd (sh_dirs s))
      | P_ls \<Rightarrow> out (cmd_ls (sh_fs s) (sh_dirs s))
      | P_env \<Rightarrow> map_option (\<lambda>c. emit (snd (cmd_env (sh_env s))) (s\<lparr>sh_con := c\<rparr>)) (print_env (sh_env s) (sh_con s))
      | P_diskls \<Rightarrow> map_option (\<lambda>(os, ft). emit os (set_fat ft s)) (cmd_diskls (sh_disk H) (sp_fat (sh_sp s)))
      | P_disksync \<Rightarrow>
          (let ft = sp_fat (sh_sp s); (os, d) = cmd_disksync (h_ports H) (store ft)
           in Some (emit os (set_fat (ft\<lparr>store := d\<rparr>) s)))
      | P_about \<Rightarrow> out cmd_about
      | P_shoot \<Rightarrow> cmd_shoot H s
      | P_reboot \<Rightarrow> shut_down H (say ''rebooting...'' VGA_COLOR_YELLOW) True s
      | P_halt \<Rightarrow> shut_down H (say ''halting...'' VGA_COLOR_LIGHT_RED) False s
      | P_alias \<Rightarrow> out (cmd_alias (sh_alias s))
      | P_netinfo \<Rightarrow> out (cmd_netinfo (nic (sh_net s)))
      | P_date \<Rightarrow> out (cmd_date now)
      | P_whoami \<Rightarrow> out cmd_whoami
      | P_hostname \<Rightarrow> out (cmd_hostname (sh_env s))
      | P_uname \<Rightarrow> out cmd_uname
      | P_proctest \<Rightarrow> map_option (\<lambda>os. emit os s) (cmd_proctest (sp_procs (sh_sp s)))
      | P_poweroff \<Rightarrow> shut_down H (say ''powering off...'' VGA_COLOR_LIGHT_RED) True s)"

subsection \<open>Scripts\<close>

text \<open>
  What is left to do: the lines of a script read from the file system, the place in the static
  buffer a script from the disk is read to, the byte to put back behind its current line, and the
  end of \<^verbatim>\<open>shell_exec_line\<close>.
\<close>

datatype frame = Local "cstr list" | Disk_at nat | Disk_end nat u8 | Line_end

definition cmd_run :: "('d, 'h) host \<Rightarrow> cstr \<Rightarrow> ('d, 'h) shell \<Rightarrow> (frame list \<times> ('d, 'h) shell) option" where
  "cmd_run H path s =
     (if path = [] then Some ([], emit (say ''usage: run <script>'' VGA_COLOR_LIGHT_RED) s)
      else
        (let node = vfs_resolve (sh_fs s) (make_full (sh_cwd s) path) in
         if node = 0 \<or> n_flags (the (fs_nodes (sh_fs s) node)) AND VFS_FILE = 0 then
           (case fat12_read (sh_disk H) path 1023 (sp_fat (sh_sp s)) of
              None \<Rightarrow> None
            | Some (bs, ft) \<Rightarrow>
                (let s = set_fat ft s
                 in if bs = [] then Some ([], emit (say ''run: script not found'' VGA_COLOR_LIGHT_RED) s)
                    else Some ([Disk_at 0], s\<lparr>sh_sbuf := (overlay (sh_sbuf s) 0 bs)[length bs := 0]\<rparr>)))
         else map_option (\<lambda>bs. ([Local (text_lines (cstr_of bs))], s)) (vfs_read (sh_fs s) node 0 1023)))"

text \<open>The commands with one argument; all but \<^verbatim>\<open>run\<close> are done at once.\<close>

definition done_now :: "'s option \<Rightarrow> (frame list \<times> 's) option" where
  "done_now x = map_option (Pair []) x"

definition cmd_cd_status :: "('d, 'h) host \<Rightarrow> cstr \<Rightarrow> ('d, 'h) shell \<Rightarrow> ('d, 'h) shell option" where
  "cmd_cd_status H path s =
     (let node = vfs_resolve (sh_fs s) (make_full (sh_cwd s) path);
          draws = (path = [] \<or> path = [45] \<or> node \<noteq> 0 \<and> is_dir (sh_fs s) node)
      in map_option (\<lambda>(os, w). let s = s\<lparr>sh_dirs := w\<rparr> in emit os (if draws then show_status H s else s))
           (cmd_cd path (sh_fs s) (sh_dirs s)))"

definition run_unary :: "('d, 'h) host \<Rightarrow> unary \<Rightarrow> cstr \<Rightarrow> ('d, 'h) shell \<Rightarrow> (frame list \<times> ('d, 'h) shell) option" where
  "run_unary H u a s =
     (let out = (\<lambda>os. Some (emit os s)); here = sh_cwd s; fs = sh_fs s; ft = sp_fat (sh_sp s);
          shown = map_option (\<lambda>os. emit os s);
          filed = (\<lambda>(os, fs). Some (emit os (set_fs fs s)));
          on_disk = map_option (\<lambda>(os, ft). emit os (set_fat ft s));
          on_net = map_option (\<lambda>(os, n). emit os (s\<lparr>sh_net := n\<rparr>))
      in case u of
        U_run \<Rightarrow> cmd_run H a s
      | U_wc \<Rightarrow> done_now (shown (cmd_wc here a fs))
      | U_head \<Rightarrow> done_now (shown (cmd_head here a 10 fs))
      | U_tail \<Rightarrow> done_now (shown (cmd_tail (h_stack H) here a 10 fs))
      | U_sort \<Rightarrow> done_now (shown (cmd_sort here a fs))
      | U_uniq \<Rightarrow> done_now (shown (cmd_uniq (take 128 (h_stack H)) here a fs))
      | U_udpsend \<Rightarrow> done_now (on_net (cmd_udpsend (h_nic H) (h_packet H) a (sh_net s)))
      | U_arp \<Rightarrow> done_now (on_net (cmd_arp (h_nic H) (h_packet H) a (sh_net s)))
      | U_ping \<Rightarrow> done_now (on_net (cmd_ping (h_nic H) (h_packet H) a (sh_net s)))
      | U_touch \<Rightarrow> done_now (filed (cmd_touch a (sh_dirs s) fs))
      | U_rm \<Rightarrow> done_now (filed (cmd_rm a (sh_dirs s) fs))
      | U_echo \<Rightarrow> done_now (out (cmd_echo a))
      | U_calc \<Rightarrow> done_now (shown (cmd_calc a))
      | U_color \<Rightarrow> done_now (out (cmd_color a))
      | U_cd \<Rightarrow> done_now (cmd_cd_status H a s)
      | U_mkdir \<Rightarrow> done_now (filed (cmd_mkdir a (sh_dirs s) fs))
      | U_cat \<Rightarrow> done_now (shown (cmd_cat here a fs))
      | U_find \<Rightarrow> done_now (shown (cmd_find a fs))
      | U_export \<Rightarrow> done_now (case cmd_export a (sh_env s) of (os, t) \<Rightarrow> Some (emit os (s\<lparr>sh_env := t\<rparr>)))
      | U_unset \<Rightarrow> done_now (case cmd_unset a (sh_env s) of (os, t) \<Rightarrow> Some (emit os (s\<lparr>sh_env := t\<rparr>)))
      | U_edit \<Rightarrow> done_now (cmd_edit H a s)
      | U_diskcat \<Rightarrow> done_now (on_disk (cmd_diskcat (sh_disk H) a ft))
      | U_diskdel \<Rightarrow> done_now (on_disk (cmd_diskdelete (sh_disk H) a ft))
      | U_spawn \<Rightarrow> done_now (map_option (\<lambda>(os, sp). emit os (s\<lparr>sh_sp := sp\<rparr>))
                       (cmd_spawn (sh_disk H) here a (sh_sp s))))"

definition run_binary :: "('d, 'h) host \<Rightarrow> binary \<Rightarrow> cstr \<Rightarrow> cstr \<Rightarrow> ('d, 'h) shell \<Rightarrow> ('d, 'h) shell option" where
  "run_binary H b x y s =
     (let filed = (\<lambda>(os, fs). emit os (set_fs fs s)) in
      case b of
        B_cp \<Rightarrow> map_option filed (cmd_cp x y (sh_dirs s) (sh_fs s))
      | B_mv \<Rightarrow> Some (filed (cmd_mv x y (sh_dirs s) (sh_fs s)))
      | B_grep \<Rightarrow> map_option (\<lambda>os. emit os s) (cmd_grep (sh_cwd s) x y (sh_fs s))
      | B_write \<Rightarrow> map_option filed (cmd_write x y (sh_dirs s) (sh_fs s))
      | B_diskwrite \<Rightarrow> map_option (\<lambda>(os, ft). emit os (set_fat ft s)) (cmd_diskwrite (sh_disk H) x y (sp_fat (sh_sp s)))
      | B_chmod \<Rightarrow> (case cmd_chmod x y (sh_metas s) of (os, t) \<Rightarrow> Some (emit os (s\<lparr>sh_metas := t\<rparr>))))"

definition run_command :: "('d, 'h) host \<Rightarrow> command \<Rightarrow> ('d, 'h) shell \<Rightarrow> (frame list \<times> ('d, 'h) shell) option" where
  "run_command H c s =
     (case c of
        C_plain p \<Rightarrow> done_now (run_plain H p s)
      | C_unary u a \<Rightarrow> run_unary H u a s
      | C_binary b x y \<Rightarrow> done_now (run_binary H b x y s)
      | C_kill p n \<Rightarrow> done_now (case cmd_kill p (sint n) (sh_sigs s) of (os, t) \<Rightarrow> Some (emit os (s\<lparr>sh_sigs := t\<rparr>)))
      | C_usage u \<Rightarrow> done_now (Some (emit (say u VGA_COLOR_LIGHT_RED) s))
      | C_unknown t \<Rightarrow> done_now (Some (emit ([Puts t VGA_COLOR_LIGHT_RED] @
            say '': command not found'' VGA_COLOR_LIGHT_RED) s)))"

text \<open>\<^verbatim>\<open>!!\<close>: the newest row of the history becomes the line, if there is one.\<close>

definition is_bang :: "cmd_line \<Rightarrow> bool" where
  "is_bang l \<longleftrightarrow> cmd_len l = 2 \<and> cmd_buf l ! 0 = 33 \<and> cmd_buf l ! 1 = 33"

definition recall_last :: "cmd_line \<Rightarrow> cmd_line" where
  "recall_last l =
     (let h = history_row (history_count l - 1) l
      in if length h < CMD_BUF_SIZE then l\<lparr>cmd_buf := overlay (cmd_buf l) 0 (h @ [0]), cmd_len := length h\<rparr> else l)"

definition dispatch_step :: "('d, 'h) host \<Rightarrow> ('d, 'h) shell \<Rightarrow> (frame list \<times> ('d, 'h) shell) option" where
  "dispatch_step H s =
     (let l = sh_line s; l = l\<lparr>cmd_buf := (cmd_buf l)[cmd_len l := 0]\<rparr>; s = s\<lparr>sh_line := l\<rparr>
      in if cmd_len l = 0 then Some ([], s)
         else
           (let s = show_status H s; s = s\<lparr>sh_dog := watchdog_kick (sh_timer s) (sh_dog s)\<rparr>
            in if is_bang l \<and> history_count l = 0
               then Some ([], emit (say ''no previous command'' VGA_COLOR_LIGHT_GREY) s)
               else
                 (let s = s\<lparr>sh_line := (if is_bang l then recall_last l else l)\<rparr>
                  in case parse_command (cmd_buf (sh_line s)) of
                       None \<Rightarrow> None
                     | Some c \<Rightarrow> run_command H c s)))"

text \<open>\<^verbatim>\<open>shell_exec_line\<close> up to the call of \<^verbatim>\<open>dispatch\<close>, and what follows it.\<close>

definition put_line :: "cstr \<Rightarrow> cmd_line \<Rightarrow> cmd_line" where
  "put_line line l =
     (let n = (if length line \<ge> CMD_BUF_SIZE then CMD_BUF_SIZE - 1 else length line)
      in l\<lparr>cmd_buf := (overlay (cmd_buf l) 0 (take n line))[n := 0], cmd_len := n\<rparr>)"

definition wipe_line :: "cmd_line \<Rightarrow> cmd_line" where
  "wipe_line l = l\<lparr>cmd_len := 0, cmd_buf := replicate CMD_BUF_SIZE 0\<rparr>"

definition exec_line :: "('d, 'h) host \<Rightarrow> cstr \<Rightarrow> ('d, 'h) shell \<Rightarrow> (frame list \<times> ('d, 'h) shell) option" where
  "exec_line H line s =
     map_option (\<lambda>(fs, s). (fs @ [Line_end], s)) (dispatch_step H (s\<lparr>sh_line := put_line line (sh_line s)\<rparr>))"

definition runs_line :: "cstr \<Rightarrow> bool" where
  "runs_line line \<longleftrightarrow> line \<noteq> [] \<and> hd line \<noteq> 35"

text \<open>One turn of a script's loop.  In the static buffer the line ends at the first line break or NUL;
  \<open>None\<close> when the buffer has neither.\<close>

fun frame_step :: "('d, 'h) host \<Rightarrow> frame \<Rightarrow> ('d, 'h) shell \<Rightarrow> (frame list \<times> ('d, 'h) shell) option" where
  "frame_step H Line_end s = Some ([], s\<lparr>sh_line := wipe_line (sh_line s)\<rparr>)"
| "frame_step H (Local []) s = Some ([], s)"
| "frame_step H (Local (l # ls)) s =
     (if runs_line l then map_option (\<lambda>(fs, s). (fs @ [Local ls], s)) (exec_line H l s) else Some ([Local ls], s))"
| "frame_step H (Disk_at i) s =
     (let rest = drop i (sh_sbuf s); line = takeWhile (\<lambda>c. c \<noteq> 0 \<and> c \<noteq> 10) rest; j = i + length line
      in if rest = [] then None
         else if hd rest = 0 then Some ([], s)
         else if length line = length rest then None
         else
           (let saved = sh_sbuf s ! j; s = s\<lparr>sh_sbuf := (sh_sbuf s)[j := 0]\<rparr>
            in if runs_line line then map_option (\<lambda>(fs, s). (fs @ [Disk_end j saved], s)) (exec_line H line s)
               else Some ([Disk_end j saved], s)))"
| "frame_step H (Disk_end j saved) s =
     Some ([Disk_at (if saved \<noteq> 0 then j + 1 else j)], s\<lparr>sh_sbuf := (sh_sbuf s)[j := saved]\<rparr>)"

partial_function (option) exec :: "('d, 'h) host \<Rightarrow> frame list \<Rightarrow> ('d, 'h) shell \<Rightarrow> ('d, 'h) shell option" where
  "exec H fs s =
     (if fs = [] \<or> sh_off s then Some s
      else Option.bind (frame_step H (hd fs) s) (\<lambda>(new, s). exec H (new @ tl fs) s))"

definition dispatch :: "('d, 'h) host \<Rightarrow> ('d, 'h) shell \<Rightarrow> ('d, 'h) shell option" where
  "dispatch H s = Option.bind (dispatch_step H s) (\<lambda>(fs, s). exec H fs s)"

subsection \<open>Starting and the main loop\<close>

definition apply_boot_path :: "('d, 'h) host \<Rightarrow> ('d, 'h) shell \<Rightarrow> ('d, 'h) shell" where
  "apply_boot_path H s =
     (let bp = cstr_of (sh_boot s); node = vfs_resolve (sh_fs s) bp
      in if bp \<noteq> [] \<and> hd bp = slash \<and> node \<noteq> 0 \<and> is_dir (sh_fs s) node
         then show_status H (s\<lparr>sh_dirs := (sh_dirs s)\<lparr>cwd := take (VFS_PATH_MAX - 1) bp\<rparr>\<rparr>)
         else s)"

definition motd_out :: "mem fs \<Rightarrow> sh_out list option" where
  "motd_out fs =
     (let etc = vfs_finddir fs (vfs_root fs) (lit ''etc'') in
      if etc = 0 then Some []
      else
        (let motd = vfs_finddir fs etc (lit ''motd'') in
         if motd = 0 then Some []
         else map_option (\<lambda>bs. if bs = [] then [] else say_line (cstr_of bs) VGA_COLOR_LIGHT_GREY) (vfs_read fs motd 0 127)))"

definition shell_init :: "('d, 'h) host \<Rightarrow> ('d, 'h) shell \<Rightarrow> ('d, 'h) shell option" where
  "shell_init H s =
     (let s = s\<lparr>sh_con := (sh_con s)\<lparr>c_vga := vga_clear (c_vga (sh_con s))\<rparr>,
                sh_line := (clear_line (sh_line s))\<lparr>history_count := 0, history_idx := -1,
                             history := replicate HISTORY_SIZE (replicate CMD_BUF_SIZE 0)\<rparr>,
                sh_row := TERM_TOP\<rparr>;
          s = show_status H s
      in case history_load (sh_disk H) (sh_line s) (sp_fat (sh_sp s)) of
           None \<Rightarrow> None
         | Some (l, ft) \<Rightarrow>
             (let s = apply_boot_path H (set_fat ft (s\<lparr>sh_line := l\<rparr>)) in
              case motd_out (sh_fs s) of
                None \<Rightarrow> None
              | Some os \<Rightarrow>
                  show_prompt (emit (os @ say ''baSic_ v1.0  |  type help for commands'' VGA_COLOR_DARK_GREY) s)))"

text \<open>Whether a key of the main loop has the prompt drawn anew.\<close>

definition redraws :: "term_event \<Rightarrow> cmd_line \<Rightarrow> bool" where
  "redraws ev l =
     (case ev_type ev of
        TERM_UP \<Rightarrow> history_count l \<noteq> 0
      | TERM_DOWN \<Rightarrow> history_idx l \<noteq> -1
      | TERM_LEFT \<Rightarrow> cursor_pos l > 0
      | TERM_RIGHT \<Rightarrow> cursor_pos l < cmd_len l
      | TERM_HOME \<Rightarrow> True
      | TERM_END \<Rightarrow> True
      | TERM_DEL \<Rightarrow> cursor_pos l < cmd_len l
      | TERM_CHAR \<Rightarrow>
          (let c = ev_ch ev in
           if c = 8 then cursor_pos l > 0
           else if c = 9 then filter (\<lambda>t. strncmp_bytes t (cstr_of ((cmd_buf l)[cmd_len l := 0]))
                  (length (cstr_of ((cmd_buf l)[cmd_len l := 0]))) = 0) tab_commands \<noteq> []
           else c = ctrl CHR ''u'' \<or> 32 \<le> c \<and> c < 127 \<and> cmd_len l < CMD_BUF_SIZE - 1)
      | _ \<Rightarrow> False)"

text \<open>The return key: the line is shown, kept in the history, run and cleared.\<close>

definition enter_line :: "('d, 'h) host \<Rightarrow> ('d, 'h) shell \<Rightarrow> ('d, 'h) shell option" where
  "enter_line H s =
     (case echo_input (sh_cwd s) (sh_line s) \<lparr>t_fb = sh_cells s, shell_row = sh_row s\<rparr> of
        None \<Rightarrow> None
      | Some t \<Rightarrow>
          (let s = (set_cells (t_fb t) s)\<lparr>sh_row := shell_row t\<rparr>; s = on_term shell_newline s
           in case dispatch H (s\<lparr>sh_line := history_push (sh_line s)\<rparr>) of
                None \<Rightarrow> None
              | Some s \<Rightarrow> if sh_off s then Some s else show_prompt (s\<lparr>sh_line := clear_line (sh_line s)\<rparr>)))"

definition key_step :: "('d, 'h) host \<Rightarrow> term_event \<Rightarrow> ('d, 'h) shell \<Rightarrow> ('d, 'h) shell option" where
  "key_step H ev s =
     (if ev_type ev = TERM_CHAR \<and> ev_ch ev = 10 then enter_line H s
      else if ev_type ev = TERM_CHAR \<and> ev_ch ev = ctrl CHR ''r'' then
        (case ctrl_r_search (map snd (in_chars s)) [] (sh_line s) of
           None \<Rightarrow> None
         | Some (l, keys) \<Rightarrow>
             show_prompt (s\<lparr>sh_line := l, in_chars := drop (length (in_chars s) - length keys) (in_chars s)\<rparr>))
      else
        (let (os, l) = line_key ev (sh_line s); redraw = redraws ev (sh_line s); s = emit os (s\<lparr>sh_line := l\<rparr>)
         in if redraw then show_prompt s else Some s))"

text \<open>The main loop over the events to come, one turn for each of them (\<^verbatim>\<open>TERM_NONE\<close>: there was no key), to the
  end of the inputs or until the machine is off.\<close>

partial_function (option) shell_loop :: "('d, 'h) host \<Rightarrow> u32 \<Rightarrow> ('d, 'h) shell \<Rightarrow> ('d, 'h) shell option" where
  "shell_loop H last_s s =
     (if in_events s = [] \<or> sh_off s then Some s
      else
        (let (now, ev) = hd (in_events s);
             s = s\<lparr>in_events := tl (in_events s), sh_timer := (sh_timer s)\<lparr>tick_count := now\<rparr>\<rparr>;
             now_s = now div 1000;
             s = (if now_s \<noteq> last_s
                  then (show_status H s)\<lparr>sh_dog := watchdog_kick (sh_timer s) (sh_dog s)\<rparr> else s)
         in Option.bind (key_step H ev s) (shell_loop H now_s)))"

definition shell_run :: "('d, 'h) host \<Rightarrow> ('d, 'h) shell \<Rightarrow> ('d, 'h) shell option" where
  "shell_run H s = shell_loop H 0xFFFFFFFF s"

end
