(* ===== verification/ShRun.thy ===== *)
theory ShRun
  imports ShDispatch
begin

text \<open>
  What holds of the shell as a whole: which command each line is, scripts as sequences of lines,
  the repeated command, and what every session of keys keeps.
\<close>

subsection \<open>Which line is which command\<close>

definition binary_table :: "(cstr \<times> binary) list" where
  "binary_table = map (\<lambda>(n, b). (lit n, b))
     [(''cp '', B_cp), (''mv '', B_mv), (''grep '', B_grep), (''write '', B_write), (''diskwrite '', B_diskwrite),
      (''chmod '', B_chmod)]"

text \<open>The beginnings \<^verbatim>\<open>strncmp\<close> looks for; none is the beginning of another one or of a plain name.\<close>

definition other_words :: "cstr list" where
  "other_words = map lit [''cp '', ''mv '', ''kill'', ''grep'', ''write '', ''diskwrite '', ''chmod '']"

definition openings :: "cstr list" where
  "openings = map fst unary_table @ other_words"

lemma openings_apart: "\<forall>v \<in> set openings. \<forall>w \<in> set openings. prefix v w \<longrightarrow> v = w"
  by (simp add: openings_def other_words_def unary_table_def)

lemma plain_words:
  "\<forall>p \<in> set (map fst plain_table). (32 :: u8) \<notin> set p"
  "\<forall>p \<in> set (map fst plain_table). \<not> prefix (lit ''kill'') p \<and> \<not> prefix (lit ''grep'') p"
  by (simp_all add: plain_table_def)

lemma openings_blank: "\<forall>v \<in> set openings. (32 :: u8) \<in> set v \<or> v = lit ''kill'' \<or> v = lit ''grep''"
  by (simp add: openings_def other_words_def unary_table_def)

lemma plain_apart:
  assumes "v \<in> set openings" "p \<in> set (map fst plain_table)"
  shows "\<not> prefix v p"
  using bspec [OF openings_blank assms(1)] bspec [OF plain_words(1) assms(2)] bspec [OF plain_words(2) assms(2)]
    set_mono_prefix [of v p] by blast

lemma tables_cstr: "\<forall>v \<in> set openings. is_cstr v" "\<forall>p \<in> set (map fst plain_table). is_cstr p"
  by (simp_all add: openings_def other_words_def unary_table_def plain_table_def is_cstr_def)

lemma plain_distinct: "distinct (map fst plain_table)"
  by (simp add: plain_table_def)

lemma find_only:
  assumes only: "\<And>y. y \<in> set xs \<Longrightarrow> P y \<Longrightarrow> y = x" and x: "x \<in> set xs" "P x"
  shows "find P xs = Some x"
proof (cases "find P xs")
  case None
  then show ?thesis using x by (simp add: find_None_iff)
next
  case (Some y)
  then have "y \<in> set xs" "P y" by (auto simp: find_Some_iff)
  then have "y = x" by (rule only)
  then show ?thesis using Some by simp
qed

lemma streq_0: "is_cstr a \<Longrightarrow> is_cstr b \<Longrightarrow> streq a b = 0 \<longleftrightarrow> a = b"
  by (induction a b rule: streq.induct) (auto simp: is_cstr_def word_uint_eq_iff)

lemma opens: "is_cstr t \<Longrightarrow> is_cstr w \<Longrightarrow> strncmp_bytes t w (length w) = 0 \<longleftrightarrow> prefix w t"
  using strncmp_bytes_prefix [of t w] by (metis append_eq_conv_conj prefix_def)

lemma starts_opens:
  assumes "is_cstr t" "is_cstr (lit w)" "n \<le> length w"
  shows "starts w n t \<longleftrightarrow> prefix (lit (take n w)) t"
proof -
  have t: "lit (take n w) = take n (lit w)" by (simp add: lit_def take_map)
  have "strncmp_bytes t (lit w) n = strncmp_bytes t (take n (lit w)) (length (take n (lit w)))"
    using assms(3) by (simp add: strncmp_bytes_def min_def)
  then show ?thesis
    using opens [OF assms(1), of "take n (lit w)"] assms(2) by (simp add: starts_def t is_cstr_take)
qed

lemma find_plain:
  assumes "is_cstr t"
  shows "find (\<lambda>(n, p). streq t n = 0) plain_table = find (\<lambda>(n, p). t = n) plain_table"
  using assms tables_cstr(2) by (intro find_cong) (auto simp: streq_0)

lemma find_unary:
  assumes "is_cstr t"
  shows "find (\<lambda>(n, u). strncmp_bytes t n (length n) = 0) unary_table = find (\<lambda>(n, u). prefix n t) unary_table"
proof (rule find_cong [OF refl])
  fix x assume "x \<in> set unary_table"
  then have "is_cstr (fst x)" using tables_cstr(1) by (auto simp: openings_def)
  then show "(case x of (n, u) \<Rightarrow> strncmp_bytes t n (length n) = 0) = (case x of (n, u) \<Rightarrow> prefix n t)"
    using assms by (auto simp: opens split: prod.splits)
qed

text \<open>The code's cascade over texts, with the beginnings written as prefixes.\<close>

lemma parse_cases:
  assumes "is_cstr t"
  shows "parse_command (t @ 0 # junk) =
     (case find (\<lambda>(n, p). t = n) plain_table of
        Some (n, p) \<Rightarrow> Some (C_plain p)
      | None \<Rightarrow>
          if prefix (lit ''cp '') t then Some (two_args B_cp ''usage: cp <src> <dst>'' (drop 3 t))
          else if prefix (lit ''mv '') t then Some (two_args B_mv ''usage: mv <src> <dst>'' (drop 3 t))
          else
            (case find (\<lambda>(n, u). prefix n t) unary_table of
               Some (n, u) \<Rightarrow> Some (C_unary u (drop (length n) t))
             | None \<Rightarrow>
                 if prefix (lit ''kill'') t then map_option kill_args (fifth (t @ 0 # junk))
                 else if prefix (lit ''grep'') t
                 then map_option (two_args B_grep ''usage: grep <p> <path>'') (fifth (t @ 0 # junk))
                 else if prefix (lit ''write '') t then Some (two_args B_write ''usage: write <n> <text>'' (drop 6 t))
                 else if prefix (lit ''diskwrite '') t
                 then Some (two_args B_diskwrite ''usage: diskwrite <f> <text>'' (drop 10 t))
                 else if prefix (lit ''chmod '') t then Some (two_args B_chmod ''usage: chmod <path> <rwx>'' (drop 6 t))
                 else Some (C_unknown t)))"
proof -
  have c: "is_cstr (lit ''cp '')" "is_cstr (lit ''mv '')" "is_cstr (lit ''kill '')" "is_cstr (lit ''grep '')"
    "is_cstr (lit ''write '')" "is_cstr (lit ''diskwrite '')" "is_cstr (lit ''chmod '')"
    by (simp_all add: is_cstr_def)
  note st = starts_opens [OF assms c(1), of 3] starts_opens [OF assms c(2), of 3] starts_opens [OF assms c(3), of 4]
    starts_opens [OF assms c(4), of 4] starts_opens [OF assms c(5), of 6] starts_opens [OF assms c(6), of 10]
    starts_opens [OF assms c(7), of 6]
  show ?thesis
    using assms unfolding parse_command_def Let_def cstr_of_append_nul [OF assms] find_plain [OF assms] find_unary [OF assms]
    using st by (simp del: lit_Cons)
qed

lemma one_opening:
  assumes "v \<in> set openings" "w \<in> set openings" "prefix v t" "prefix w t"
  shows "v = w"
  using prefix_same_cases [OF assms(3,4)] openings_apart assms(1,2) by blast

lemma no_plain:
  assumes "w \<in> set openings" "prefix w t"
  shows "find (\<lambda>(n, p). t = n) plain_table = None"
proof -
  have "t \<noteq> n" if "(n, p) \<in> set plain_table" for n p
  proof -
    have "n \<in> set (map fst plain_table)" using that by force
    then show ?thesis using plain_apart [OF assms(1), of n] assms(2) by blast
  qed
  then show ?thesis by (auto simp: find_None_iff)
qed

lemma other_openings:
  "lit ''cp '' \<in> set openings" "lit ''mv '' \<in> set openings" "lit ''kill'' \<in> set openings"
  "lit ''grep'' \<in> set openings" "lit ''write '' \<in> set openings" "lit ''diskwrite '' \<in> set openings"
  "lit ''chmod '' \<in> set openings"
  unfolding openings_def other_words_def by simp_all

lemma unary_openings: "(n, u) \<in> set unary_table \<Longrightarrow> n \<in> set openings"
  by (force simp: openings_def)

lemma other_names:
  "distinct other_words"
  "set (map fst unary_table) \<inter> set other_words = {}"
  "distinct (map fst unary_table)"
  by (simp_all add: unary_table_def other_words_def)

text \<open>Among the openings, a text has the one it begins with and no other.\<close>

lemma opening_iff:
  assumes "w \<in> set openings" "prefix w t" "v \<in> set openings"
  shows "prefix v t \<longleftrightarrow> v = w"
  using one_opening [OF assms(3,1) _ assms(2)] assms(2) by blast

lemma parse_plain:
  assumes "(n, p) \<in> set plain_table"
  shows "parse_command (n @ 0 # junk) = Some (C_plain p)"
proof -
  have "n \<in> set (map fst plain_table)" using assms by force
  then have c: "is_cstr n" using tables_cstr(2) by blast
  have "find (\<lambda>(m, q). n = m) plain_table = Some (n, p)"
    using assms plain_distinct by (intro find_only) (auto dest: eq_key_imp_eq_value)
  then show ?thesis unfolding parse_cases [OF c] by simp
qed

lemma find_opening:
  assumes "(n, u) \<in> set unary_table" "prefix n t"
  shows "find (\<lambda>(m, v). prefix m t) unary_table = Some (n, u)"
  using assms opening_iff [OF unary_openings [OF assms(1)] assms(2)] other_names(3)
  by (intro find_only) (auto dest: unary_openings eq_key_imp_eq_value)

lemma no_unary:
  assumes "w \<in> set other_words" "prefix w t"
  shows "find (\<lambda>(m, v). prefix m t) unary_table = None"
proof -
  have "w \<in> set openings" using assms(1) by (simp add: openings_def)
  then have "\<not> prefix m t" if "(m, v) \<in> set unary_table" for m v
    using opening_iff [OF _ assms(2) unary_openings [OF that]] other_names(2) assms(1) that by force
  then show ?thesis by (auto simp: find_None_iff)
qed

lemma parse_unary:
  assumes "(n, u) \<in> set unary_table" "is_cstr a"
  shows "parse_command (n @ a @ 0 # junk) = Some (C_unary u a)"
proof -
  have o: "n \<in> set openings" using assms(1) by (rule unary_openings)
  have c: "is_cstr (n @ a)" using o tables_cstr(1) assms(2) by (auto simp: is_cstr_def)
  have p: "prefix n (n @ a)" by simp
  have "n \<in> set (map fst unary_table)" using assms(1) by force
  moreover have "lit ''cp '' \<in> set other_words" "lit ''mv '' \<in> set other_words" by (simp_all add: other_words_def)
  ultimately have "n \<noteq> lit ''cp ''" "n \<noteq> lit ''mv ''" using other_names(2) by blast+
  then have "\<not> prefix (lit ''cp '') (n @ a)" "\<not> prefix (lit ''mv '') (n @ a)"
    using opening_iff [OF o p] other_openings by blast+
  then show ?thesis
    unfolding append_assoc [symmetric, of n a] parse_cases [OF c] no_plain [OF o p] find_opening [OF assms(1) p]
    by (simp del: append_assoc lit_Cons)
qed

lemma two_args_split: "32 \<notin> set a \<Longrightarrow> two_args k usage (a @ 32 # b) = C_binary k a b"
proof -
  assume "32 \<notin> set a"
  then have "takeWhile (\<lambda>c. c \<noteq> 32) (a @ 32 # b) = a" by (subst takeWhile_append2) auto
  then show ?thesis by (simp add: two_args_def)
qed

lemma fifth_text:
  assumes "is_cstr (w @ t)" "length w = 5"
  shows "fifth (w @ t @ 0 # junk) = Some t"
  using assms by (simp add: fifth_def is_cstr_def [of "w @ t"]) (simp add: is_cstr_def)

lemma parse_other:
  assumes "w \<in> set other_words" "is_cstr (w @ t)"
  shows "parse_command (w @ t @ 0 # junk) =
     (if w = lit ''cp '' then Some (two_args B_cp ''usage: cp <src> <dst>'' t)
      else if w = lit ''mv '' then Some (two_args B_mv ''usage: mv <src> <dst>'' t)
      else if w = lit ''kill'' then map_option kill_args (fifth (w @ t @ 0 # junk))
      else if w = lit ''grep'' then map_option (two_args B_grep ''usage: grep <p> <path>'') (fifth (w @ t @ 0 # junk))
      else if w = lit ''write '' then Some (two_args B_write ''usage: write <n> <text>'' t)
      else if w = lit ''diskwrite '' then Some (two_args B_diskwrite ''usage: diskwrite <f> <text>'' t)
      else Some (two_args B_chmod ''usage: chmod <path> <rwx>'' t))"
proof -
  have o: "w \<in> set openings" using assms(1) by (simp add: openings_def)
  have p: "prefix w (w @ t)" by simp
  have pre: "prefix v (w @ t) \<longleftrightarrow> v = w" if "v \<in> set openings" for v by (rule opening_iff [OF o p that])
  have w: "w = lit ''cp '' \<or> w = lit ''mv '' \<or> w = lit ''kill'' \<or> w = lit ''grep'' \<or> w = lit ''write '' \<or>
      w = lit ''diskwrite '' \<or> w = lit ''chmod ''"
    using assms(1) by (simp add: other_words_def del: lit_Cons)
  show ?thesis
    unfolding append_assoc [symmetric, of w t] parse_cases [OF assms(2)] no_plain [OF o p] no_unary [OF assms(1) p]
      other_openings [THEN pre]
    using w by (elim disjE) simp_all
qed


lemma parse_unknown:
  assumes t: "is_cstr t" and o: "\<forall>w \<in> set openings. \<not> prefix w t" and n: "\<forall>p \<in> set (map fst plain_table). t \<noteq> p"
  shows "parse_command (t @ 0 # junk) = Some (C_unknown t)"
proof -
  have "find (\<lambda>(n, p). t = n) plain_table = None" using n by (auto simp: find_None_iff)
  moreover have "find (\<lambda>(m, v). prefix m t) unary_table = None"
    using o by (auto simp: find_None_iff dest: unary_openings)
  moreover have "\<not> prefix w t" if "w \<in> set openings" for w using o that by blast
  ultimately show ?thesis
    unfolding parse_cases [OF t] by (simp add: other_openings del: lit_Cons)
qed




subsection \<open>Scripts are run line by line\<close>

lemma exec_Nil [simp]: "exec H [] s = Some s"
  by (simp add: exec.simps)

lemma exec_off: "sh_off s \<Longrightarrow> exec H fs s = Some s"
  by (simp add: exec.simps)

lemma exec_Cons:
  "\<not> sh_off s \<Longrightarrow> exec H (f # fs) s = Option.bind (frame_step H f s) (\<lambda>(new, s). exec H (new @ fs) s)"
  by (subst exec.simps) simp

lemma exec_append_Some: "exec H fs s = Some t \<Longrightarrow> exec H (fs @ gs) s = exec H gs t"
proof (rule exec.raw_induct [where P = "\<lambda>H fs s t. exec H (fs @ gs) s = exec H gs t"], goal_cases)
  case (1 f H fs s t)
  show ?case
  proof (cases "fs = [] \<or> sh_off s")
    case True
    then show ?thesis using 1(3) exec_off [of s H gs] exec_off [of s H "fs @ gs"] by auto
  next
    case False
    then obtain g rest where fs: "fs = g # rest" by (cases fs) auto
    obtain new s' where st: "frame_step H g s = Some (new, s')" "f H (new @ rest) s' = Some t"
      using 1(3) False fs by (auto simp: bind_eq_Some_conv)
    have "exec H (fs @ gs) s = exec H ((new @ rest) @ gs) s'"
      using False fs st(1) by (simp add: exec_Cons)
    then show ?thesis using 1(2) [OF st(2)] by simp
  qed
qed

lemma exec_append_back: "exec H fs s = Some t \<Longrightarrow> \<forall>gs. fs = gs @ hs \<longrightarrow> exec H gs s \<noteq> None"
proof (rule exec.raw_induct [where P = "\<lambda>H fs s t. \<forall>gs. fs = gs @ hs \<longrightarrow> exec H gs s \<noteq> None"], goal_cases)
  case (1 f H fs s t)
  have "exec H gs s \<noteq> None" if fs: "fs = gs @ hs" for gs
  proof (cases "gs = [] \<or> sh_off s")
    case True
    then show ?thesis by (auto simp: exec_off)
  next
    case False
    then obtain g rest where gs: "gs = g # rest" by (cases gs) auto
    obtain new s' where st: "frame_step H g s = Some (new, s')" "f H (new @ rest @ hs) s' = Some t"
      using 1(3) False gs fs by (auto simp: bind_eq_Some_conv)
    have "exec H (new @ rest) s' \<noteq> None" using 1(2) [OF st(2)] by simp
    then show ?thesis using False gs st(1) by (simp add: exec_Cons)
  qed
  then show ?case by blast
qed

lemma exec_append: "exec H (fs @ gs) s = Option.bind (exec H fs s) (exec H gs)"
proof (cases "exec H fs s")
  case None
  then have "exec H (fs @ gs) s = None" using exec_append_back [of H "fs @ gs" s _ gs] by (cases "exec H (fs @ gs) s") auto
  then show ?thesis using None by simp
next
  case (Some t)
  then show ?thesis using exec_append_Some [OF Some] by simp
qed

text \<open>A line of a script, run to its end.\<close>

definition run_line :: "('d, 'h) host \<Rightarrow> cstr \<Rightarrow> ('d, 'h) shell \<Rightarrow> ('d, 'h) shell option" where
  "run_line H l s = Option.bind (exec_line H l s) (\<lambda>(fs, s). exec H fs s)"

fun run_lines :: "('d, 'h) host \<Rightarrow> cstr list \<Rightarrow> ('d, 'h) shell \<Rightarrow> ('d, 'h) shell option" where
  "run_lines H [] s = Some s"
| "run_lines H (l # ls) s = (if sh_off s then Some s else Option.bind (run_line H l s) (run_lines H ls))"

lemma run_lines_off: "sh_off s \<Longrightarrow> run_lines H ls s = Some s"
  by (cases ls) simp_all

lemma local_in_order: "exec H [Local ls] s = run_lines H (filter runs_line ls) s"
proof (induction ls arbitrary: s)
  case Nil
  show ?case by (cases "sh_off s") (simp_all add: exec_off exec_Cons)
next
  case (Cons l ls)
  show ?case
  proof (cases "sh_off s")
    case True
    then show ?thesis by (simp add: exec_off run_lines_off)
  next
    case False
    have e: "exec H [Local ls] = run_lines H (filter runs_line ls)" by (rule ext) (rule Cons)
    show ?thesis
    proof (cases "runs_line l")
      case True
      have "exec H [Local (l # ls)] s =
          Option.bind (exec_line H l s) (\<lambda>(fs, s). exec H (fs @ [Local ls]) s)"
        using False True by (cases "exec_line H l s") (auto simp: exec_Cons)
      also have "\<dots> = Option.bind (run_line H l s) (exec H [Local ls])"
        by (cases "exec_line H l s") (auto simp: run_line_def exec_append)
      also have "\<dots> = run_lines H (filter runs_line (l # ls)) s"
        using False True e by simp
      finally show ?thesis .
    next
      case no: False
      then show ?thesis using False Cons by (simp add: exec_Cons)
    qed
  qed
qed


subsection \<open>What a command leaves alone\<close>

text \<open>No command changes the line or the directory stack but \<^verbatim>\<open>cd\<close>; only \<^verbatim>\<open>run\<close> touches the static buffer.\<close>

lemma screen_keeps [simp]:
  "sh_line (set_cells c s) = sh_line s" "sh_dirs (set_cells c s) = sh_dirs s" "sh_sbuf (set_cells c s) = sh_sbuf s"
  "sh_sp (set_cells c s) = sh_sp s" "sh_off (set_cells c s) = sh_off s"
  "sh_line (on_term f s) = sh_line s" "sh_dirs (on_term f s) = sh_dirs s" "sh_sbuf (on_term f s) = sh_sbuf s"
  "sh_sp (on_term f s) = sh_sp s" "sh_off (on_term f s) = sh_off s"
  "sh_line (emit os s) = sh_line s" "sh_dirs (emit os s) = sh_dirs s" "sh_sbuf (emit os s) = sh_sbuf s"
  "sh_sp (emit os s) = sh_sp s" "sh_off (emit os s) = sh_off s"
  "sh_line (show_status H s) = sh_line s" "sh_dirs (show_status H s) = sh_dirs s" "sh_sbuf (show_status H s) = sh_sbuf s"
  "sh_sp (show_status H s) = sh_sp s" "sh_off (show_status H s) = sh_off s"
  "sh_line (set_fs fs s) = sh_line s" "sh_dirs (set_fs fs s) = sh_dirs s" "sh_sbuf (set_fs fs s) = sh_sbuf s"
  "sh_line (set_fat ft s) = sh_line s" "sh_dirs (set_fat ft s) = sh_dirs s" "sh_sbuf (set_fat ft s) = sh_sbuf s"
  by (simp_all add: set_cells_def on_term_def emit_def show_status_def set_fs_def set_fat_def Let_def)

lemma prompt_keeps:
  "show_prompt s = Some t \<Longrightarrow> sh_line t = sh_line s \<and> sh_dirs t = sh_dirs s \<and> sh_sbuf t = sh_sbuf s"
  by (auto simp: show_prompt_def)

lemma back_keeps:
  "come_back H m s = Some t \<Longrightarrow> sh_line t = sh_line s \<and> sh_dirs t = sh_dirs s \<and> sh_sbuf t = sh_sbuf s"
  by (auto simp: come_back_def Let_def split: list.splits dest!: prompt_keeps)

lemma edit_keeps:
  "cmd_edit H a s = Some t \<Longrightarrow> sh_line t = sh_line s \<and> sh_dirs t = sh_dirs s \<and> sh_sbuf t = sh_sbuf s"
  by (auto simp: cmd_edit_def split: if_splits option.splits dest!: back_keeps)

lemma shoot_keeps:
  "cmd_shoot H s = Some t \<Longrightarrow> sh_line t = sh_line s \<and> sh_dirs t = sh_dirs s \<and> sh_sbuf t = sh_sbuf s"
  by (auto simp: cmd_shoot_def Let_def split: option.splits dest!: back_keeps)

lemma down_keeps:
  "shut_down H m p s = Some t \<Longrightarrow> sh_line t = sh_line s \<and> sh_dirs t = sh_dirs s \<and> sh_sbuf t = sh_sbuf s"
  by (auto simp: shut_down_def Let_def split: if_splits option.splits)

lemma plain_keeps:
  assumes "run_plain H p s = Some t"
  shows "sh_line t = sh_line s \<and> sh_dirs t = sh_dirs s \<and> sh_sbuf t = sh_sbuf s"
  using assms by (cases p) (auto simp: run_plain_def Let_def split: option.splits prod.splits
      dest!: shoot_keeps down_keeps)

lemma binary_keeps:
  assumes "run_binary H b x y s = Some t"
  shows "sh_line t = sh_line s \<and> sh_dirs t = sh_dirs s \<and> sh_sbuf t = sh_sbuf s"
  using assms by (cases b) (auto simp: run_binary_def Let_def split: option.splits prod.splits)

lemma unary_keeps:
  assumes "run_unary H u a s = Some (fs, t)" "u \<noteq> U_run"
  shows "fs = [] \<and> sh_line t = sh_line s \<and> sh_sbuf t = sh_sbuf s \<and> (u \<noteq> U_cd \<longrightarrow> sh_dirs t = sh_dirs s)"
  using assms by (cases u) (auto simp: run_unary_def done_now_def cmd_cd_status_def Let_def
      split: option.splits prod.splits dest!: edit_keeps)


lemma run_keeps:
  assumes "cmd_run H a s = Some (fs, t)"
  shows "sh_line t = sh_line s \<and> sh_dirs t = sh_dirs s"
  using assms by (auto simp: cmd_run_def Let_def split: if_splits option.splits)

subsection \<open>What every session keeps\<close>

text \<open>The line while a script runs: the cursor may stand behind the end.\<close>

definition line_held :: "cmd_line \<Rightarrow> bool" where
  "line_held l \<longleftrightarrow> length (cmd_buf l) = 78 \<and> cmd_len l \<le> 77 \<and> cmd_buf l ! 77 = 0 \<and> line_ok (clear_line l)"

lemma held_line: "line_ok l \<Longrightarrow> line_held l"
  using clear_step [of l] by (simp add: line_held_def line_okD)

lemma held_row: "line_held l \<Longrightarrow> length (history_row i l) \<le> 77"
  using history_row_ok(2) [of "clear_line l" i] by (simp add: line_held_def history_row_def clear_line_def)

lemma held_put:
  assumes "line_held l"
  shows "line_held (put_line t l)"
proof -
  define n where "n = (if length t \<ge> 78 then 77 else length t)"
  have n: "n \<le> 77" "n \<le> length t" by (auto simp: n_def)
  have len: "length (overlay (cmd_buf l) 0 (take n t)) = 78"
    using assms n by (subst length_overlay) (auto simp: line_held_def)
  have "overlay (cmd_buf l) 0 (take n t) ! 77 = 0" if "n < 77"
    using assms n that by (simp add: overlay_def line_held_def nth_append)
  moreover have "put_line t l = l\<lparr>cmd_buf := (overlay (cmd_buf l) 0 (take n t))[n := 0], cmd_len := n\<rparr>"
    unfolding put_line_def n_def Let_def by simp
  ultimately show ?thesis
    using assms n len by (auto simp: line_held_def clear_line_def nth_list_update)
qed

lemma held_wipe: "line_held l \<Longrightarrow> line_held (wipe_line l)"
  by (simp add: line_held_def wipe_line_def clear_line_def)

lemma held_recall:
  assumes "line_held l"
  shows "line_held (recall_last l)"
proof -
  let ?h = "history_row (history_count l - 1) l"
  have n: "length ?h \<le> 77" by (rule held_row [OF assms])
  have len: "length (overlay (cmd_buf l) 0 (?h @ [0])) = 78"
    using assms n by (subst length_overlay) (auto simp: line_held_def)
  have "overlay (cmd_buf l) 0 (?h @ [0]) ! 77 = 0"
    using assms n by (cases "length ?h = 77") (simp_all add: overlay_def line_held_def nth_append nth_Cons')
  then show ?thesis
    using assms n len by (simp add: recall_last_def Let_def) (simp add: line_held_def clear_line_def)
qed

lemma held_end: "line_held l \<Longrightarrow> line_held (l\<lparr>cmd_buf := (cmd_buf l)[cmd_len l := 0]\<rparr>)"
  by (auto simp: line_held_def clear_line_def nth_list_update)

text \<open>The directories are absolute paths that fit their buffers.\<close>

definition path_ok :: "cstr \<Rightarrow> bool" where
  "path_ok p \<longleftrightarrow> p \<noteq> [] \<and> hd p = slash \<and> length p < VFS_PATH_MAX"

definition dirs_ok :: "sh_dir \<Rightarrow> bool" where
  "dirs_ok w \<longleftrightarrow> path_ok (cwd w) \<and> path_ok (prev_cwd w)"

lemma make_full_path:
  assumes "path_ok c"
  shows "path_ok (make_full c p)"
proof -
  have t: "path_ok (x @ y)" if "path_ok x" "length y \<le> VFS_PATH_MAX - length x - 1" for x y
    using that by (cases x) (auto simp: path_ok_def)
  have k: "path_ok (take (VFS_PATH_MAX - 1) q)" if "q \<noteq> []" "hd q = slash" for q
    using that by (cases q) (auto simp: path_ok_def)
  have c: "path_ok (take (VFS_PATH_MAX - 1) c)" using k assms by (simp add: path_ok_def)
  have d: "path_ok (take (VFS_PATH_MAX - 1) c @ [slash])" if "length (take (VFS_PATH_MAX - 1) c) < VFS_PATH_MAX - 2"
    using that by (intro t c) simp
  show ?thesis
    unfolding make_full_def Let_def using k [of p] t c d by (auto simp del: take_append)
qed

lemma cd_dirs:
  assumes "dirs_ok w" "cmd_cd p fs w = Some (os, v)"
  shows "dirs_ok v"
proof -
  have k: "path_ok (take (VFS_PATH_MAX - 1) q)" if "path_ok q" for q
    using that by (cases q) (auto simp: path_ok_def)
  show ?thesis
    using assms k [of "cwd w"] k [of "prev_cwd w"] make_full_path [of "cwd w" p]
    by (auto simp: cmd_cd_def dirs_ok_def Let_def path_ok_def split: if_splits)
qed

definition held :: "('d, 'h) shell \<Rightarrow> bool" where
  "held s \<longleftrightarrow> line_held (sh_line s) \<and> dirs_ok (sh_dirs s)"

lemma command_held:
  assumes "run_command H c s = Some (fs, t)" "held s"
  shows "held t"
proof (cases c)
  case (C_unary u a)
  then have run: "run_unary H u a s = Some (fs, t)" using assms(1) by (simp add: run_command_def)
  consider "u = U_run" | "u = U_cd" | "u \<noteq> U_run" "u \<noteq> U_cd" by blast
  then show ?thesis
  proof cases
    case 1
    then show ?thesis using run run_keeps [of H a s fs t] assms(2) by (simp add: run_unary_def Let_def held_def)
  next
    case 2
    then obtain os v where "cmd_cd a (sh_fs s) (sh_dirs s) = Some (os, v)" "sh_dirs t = v"
      using run by (auto simp: run_unary_def done_now_def cmd_cd_status_def Let_def)
    then show ?thesis using cd_dirs [of "sh_dirs s"] unary_keeps [OF run] 2 assms(2) by (simp add: held_def)
  next
    case 3
    then show ?thesis using unary_keeps [OF run] assms(2) by (simp add: held_def)
  qed
next
  case (C_plain p)
  then show ?thesis using assms plain_keeps [of H p s t] by (auto simp: run_command_def done_now_def held_def)
next
  case (C_binary b x y)
  then show ?thesis using assms binary_keeps [of H b x y s t] by (auto simp: run_command_def done_now_def held_def)
qed (use assms in \<open>auto simp: run_command_def done_now_def held_def split: prod.splits\<close>)

lemma dispatch_step_held:
  assumes "dispatch_step H s = Some (fs, t)" "held s"
  shows "held t"
proof -
  define l where "l = (sh_line s)\<lparr>cmd_buf := (cmd_buf (sh_line s))[cmd_len (sh_line s) := 0]\<rparr>"
  have l: "line_held l" "line_held (recall_last l)"
    using held_end assms(2) held_recall by (auto simp: l_def held_def)
  have d: "dirs_ok (sh_dirs s)" using assms(2) by (simp add: held_def)
  show ?thesis
    using assms(1) l d unfolding dispatch_step_def Let_def l_def [symmetric]
    by (auto simp: held_def split: if_splits option.splits dest!: command_held)
qed

lemma frame_held:
  assumes "frame_step H f s = Some (fs, t)" "held s"
  shows "held t"
proof -
  have e: "held s'" if "exec_line H l s'' = Some (gs, s')" "held s''" for l s'' gs s'
    using that held_put by (auto simp: exec_line_def held_def dest!: dispatch_step_held)
  show ?thesis
    using assms by (cases "(H, f, s)" rule: frame_step.cases)
      (auto simp: Let_def held_def held_wipe split: if_splits dest!: e)
qed

lemma exec_held: "exec H fs s = Some t \<Longrightarrow> held s \<longrightarrow> held t"
proof (rule exec.raw_induct [where P = "\<lambda>H fs s t. held s \<longrightarrow> held t"], goal_cases)
  case (1 f H fs s t)
  then show ?case using frame_held [of H "hd fs" s] by (auto split: if_splits simp: bind_eq_Some_conv)
qed

lemma dispatch_held: "dispatch H s = Some t \<Longrightarrow> held s \<Longrightarrow> held t"
  using dispatch_step_held exec_held by (fastforce simp: dispatch_def bind_eq_Some_conv)


lemma line_key_ok:
  assumes "line_ok l"
  shows "line_ok (snd (line_key ev l))"
proof -
  note d = line_okD [OF assms]
  have cur: "line_ok (l\<lparr>cursor_pos := k\<rparr>)" if "k \<le> cmd_len l" for k
    using assms that by (simp add: line_ok_def line_text_def)
  show ?thesis
  proof (cases "ev_type ev")
    case TERM_UP
    then show ?thesis using up_cases [OF assms] assms
      by (cases "history_count l = 0") (simp_all add: line_key_def history_up_def)
  next
    case TERM_DOWN
    then show ?thesis using down_cases [OF assms] assms
      by (cases "history_idx l = -1") (simp_all add: line_key_def history_down_def)
  next
    case TERM_DEL
    then show ?thesis using delete_step [OF assms, of "cursor_pos l" "cursor_pos l"] assms
      by (cases "cursor_pos l < cmd_len l") (simp_all add: line_key_def)
  next
    case TERM_CHAR
    then show ?thesis using line_char_step [OF assms, of "ev_ch ev"] by (auto simp: line_key_def)
  qed (use assms cur d(3) in \<open>auto simp: line_key_def\<close>)
qed

lemma pushed_ok:
  assumes "line_ok l"
  shows "line_ok (history_push l)"
proof -
  note d = line_okD [OF assms]
  have "\<not> 77 < length (cstr_of (cmd_buf l))"
  proof
    assume lt: "77 < length (cstr_of (cmd_buf l))"
    then have "cmd_buf l ! 77 = cstr_of (cmd_buf l) ! 77" by (simp add: cstr_of_def takeWhile_nth)
    then show False using d(7) lt nth_mem [OF lt] by (simp flip: is_cstr_def)
  qed
  then have "line_ok (put_history (cstr_of (cmd_buf l)) l)" using assms by (intro put_history_ok) simp_all
  then show ?thesis using assms idx_ok [of "put_history (cstr_of (cmd_buf l)) l" "-1"] by (simp add: history_push_def)
qed

lemma search_ok: "ctrl_r_search keys q l = Some (l', rest) \<Longrightarrow> line_ok l \<Longrightarrow> line_ok l'"
proof (induction keys q l rule: ctrl_r_search.induct)
  case (2 c keys q l)
  have load: "line_ok (l\<lparr>cmd_buf := overlay (cmd_buf l) 0 (h @ [0]), cmd_len := length h, cursor_pos := length h\<rparr>)"
    if h: "is_cstr h" "length h \<le> 77" for h
  proof -
    have len: "length (overlay (cmd_buf l) 0 (h @ [0])) = 78"
      using line_okD [OF 2(6)] h by (subst length_overlay) auto
    have "overlay (cmd_buf l) 0 (h @ [0]) ! 77 = 0"
      using line_okD [OF 2(6)] h by (cases "length h = 77") (simp_all add: overlay_def nth_append nth_Cons')
    moreover have "take (length h) (overlay (cmd_buf l) 0 (h @ [0])) = h" by (simp add: overlay_def)
    ultimately show ?thesis using 2(6) h len by (simp add: line_ok_def line_text_def)
  qed
  show ?case
    using 2 load [OF history_row_ok [OF 2(6)]] clear_step [OF 2(6)]
    by (auto simp: Let_def split: if_splits)
qed simp

lemma enter_ok:
  assumes "enter_line H s = Some t" "line_ok (sh_line s)" "dirs_ok (sh_dirs s)"
  shows "dirs_ok (sh_dirs t) \<and> (sh_off t \<or> line_ok (sh_line t))"
proof -
  obtain u s' where u: "dispatch H (u\<lparr>sh_line := history_push (sh_line s)\<rparr>) = Some s'" "sh_dirs u = sh_dirs s"
    and t: "(if sh_off s' then Some s' else show_prompt (s'\<lparr>sh_line := clear_line (sh_line s')\<rparr>)) = Some t"
    using assms(1) by (auto simp: enter_line_def Let_def split: option.splits)
  have "held s'"
    using dispatch_held [OF u(1)] assms u(2) pushed_ok [THEN held_line] by (simp add: held_def)
  then show ?thesis using t by (auto simp: held_def line_held_def split: if_splits dest!: prompt_keeps)
qed

lemma key_ok:
  assumes "key_step H ev s = Some t" "line_ok (sh_line s)" "dirs_ok (sh_dirs s)"
  shows "dirs_ok (sh_dirs t) \<and> (sh_off t \<or> line_ok (sh_line t))"
proof -
  consider "ev_type ev = TERM_CHAR \<and> ev_ch ev = 10"
    | "\<not> (ev_type ev = TERM_CHAR \<and> ev_ch ev = 10)" "ev_type ev = TERM_CHAR \<and> ev_ch ev = ctrl CHR ''r''"
    | "\<not> (ev_type ev = TERM_CHAR \<and> ev_ch ev = 10)" "\<not> (ev_type ev = TERM_CHAR \<and> ev_ch ev = ctrl CHR ''r'')"
    by blast
  then show ?thesis
  proof cases
    case 1
    then show ?thesis using assms enter_ok [of H s t] by (simp add: key_step_def)
  next
    case 2
    then show ?thesis using assms search_ok
      by (auto simp: key_step_def split: option.splits dest!: prompt_keeps)
  next
    case 3
    then show ?thesis using assms line_key_ok [of "sh_line s" ev]
      unfolding key_step_def by (auto simp: Let_def split: prod.splits if_splits dest!: prompt_keeps)
  qed
qed

lemma loop_ok:
  assumes run: "shell_loop H k s = Some t" and "dirs_ok (sh_dirs s)" "sh_off s \<or> line_ok (sh_line s)"
  shows "dirs_ok (sh_dirs t) \<and> (sh_off t \<or> line_ok (sh_line t))"
proof -
  have "dirs_ok (sh_dirs s) \<longrightarrow> sh_off s \<or> line_ok (sh_line s) \<longrightarrow> dirs_ok (sh_dirs t) \<and> (sh_off t \<or> line_ok (sh_line t))"
  proof (rule shell_loop.raw_induct [OF _ run, where P = "\<lambda>H k s t. dirs_ok (sh_dirs s) \<longrightarrow> sh_off s \<or> line_ok (sh_line s) \<longrightarrow>
        dirs_ok (sh_dirs t) \<and> (sh_off t \<or> line_ok (sh_line t))"], goal_cases)
    case (1 f H k s t)
    show ?case
    proof (cases "in_events s = [] \<or> sh_off s")
      case True
      then show ?thesis using 1(2) by auto
    next
      case False
      obtain now ev where e: "hd (in_events s) = (now, ev)" by fastforce
      obtain u v where st: "key_step H ev u = Some v" "f H (now div 1000) v = Some t"
        "sh_line u = sh_line s" "sh_dirs u = sh_dirs s"
        using 1(2) False e by (auto simp: Let_def bind_eq_Some_conv split: if_splits)
      show ?thesis using 1(1) [OF st(2)] key_ok [OF st(1)] st(3,4) False by auto
    qed
  qed
  then show ?thesis using assms(2,3) by blast
qed

text \<open>
  C24: whatever is typed, whatever commands and scripts run, at every point where the main loop waits
  for the next key the command buffer is a NUL-terminated line with the cursor inside it and a well-formed
  history, and the working directory and the one \<^verbatim>\<open>cd -\<close> goes back to are absolute paths that fit
  their buffers; only after the machine was switched off the line may be left as it was.
\<close>

theorem shell_session_ok:
  assumes "line_ok (sh_line s)" "dirs_ok (sh_dirs s)" "shell_run H s = Some t"
  shows "dirs_ok (sh_dirs t) \<and> (sh_off t \<or> line_ok (sh_line t))"
  using loop_ok assms by (auto simp: shell_run_def)

subsection \<open>Scripts\<close>

lemma put_line_text:
  assumes "line_held l" "length t \<le> 77"
  shows "\<exists>junk. cmd_buf (put_line t l) = t @ 0 # junk" "cmd_len (put_line t l) = length t"
proof -
  have "length (cmd_buf l) = 78" using assms(1) by (simp add: line_held_def)
  then have "(overlay (cmd_buf l) 0 t)[length t := 0] = t @ 0 # drop (Suc (length t)) (cmd_buf l)"
    using assms(2) by (cases "drop (length t) (cmd_buf l)") (auto simp: overlay_def list_update_append drop_Suc drop_tl)
  then show "\<exists>junk. cmd_buf (put_line t l) = t @ 0 # junk" using assms(2) by (simp add: put_line_def Let_def)
  show "cmd_len (put_line t l) = length t" using assms(2) by (simp add: put_line_def Let_def)
qed

text \<open>A line that is a command other than \<^verbatim>\<open>!!\<close> goes to that command.\<close>

lemma exec_line_command:
  assumes l: "line_held (sh_line s)" and t: "is_cstr t" "t \<noteq> []" "length t \<le> 77" "hd t \<noteq> 33"
    and c: "\<And>junk. parse_command (t @ 0 # junk) = Some c"
  obtains u where "exec_line H t s = map_option (\<lambda>(fs, s). (fs @ [Line_end], s)) (run_command H c u)"
    "sh_sp u = sh_sp s" "sh_dirs u = sh_dirs s" "sh_off u = sh_off s" "line_held (sh_line u)" "sh_sbuf u = sh_sbuf s"
proof -
  define p where "p = put_line t (sh_line s)"
  obtain junk where p: "cmd_buf p = t @ 0 # junk" "cmd_len p = length t" "line_held p"
    using put_line_text [OF l t(3)] held_put [OF l] by (auto simp: p_def)
  have e: "p\<lparr>cmd_buf := t @ 0 # junk\<rparr> = p" unfolding p(1) [symmetric] by simp
  then have z: "p\<lparr>cmd_buf := (cmd_buf p)[cmd_len p := 0]\<rparr> = p" using p(1,2) by simp
  have b: "\<not> is_bang p" using t(2,4) p by (cases t) (auto simp: is_bang_def)
  define u where "u = (let s = show_status H (s\<lparr>sh_line := p\<rparr>) in s\<lparr>sh_dog := watchdog_kick (sh_timer s) (sh_dog s), sh_line := p\<rparr>)"
  have "exec_line H t s = map_option (\<lambda>(fs, s). (fs @ [Line_end], s)) (run_command H c u)"
    using b p(1,2) c t(2) by (simp add: e exec_line_def dispatch_step_def Let_def u_def p_def [symmetric])
  then show ?thesis by (rule that) (use p(3) in \<open>simp_all add: u_def Let_def\<close>)
qed

lemma run_absolute:
  assumes "hd p = slash" "p \<noteq> []"
  shows "make_full c p = make_full d p"
  using assms by (simp add: make_full_def)

lemma self_run_step:
  assumes p: "is_cstr p" "p \<noteq> []" "hd p = slash" "length p \<le> 73"
    and node: "vfs_resolve F (make_full c p) = node" "node \<noteq> 0" "n_flags (the (fs_nodes F node)) AND VFS_FILE \<noteq> 0"
    and bs: "vfs_read F node 0 1023 = Some bs" "text_lines (cstr_of bs) = (lit ''run '' @ p) # rest"
    and s: "sh_fs s = F" "\<not> sh_off s" "line_held (sh_line s)"
  shows "\<exists>t. frame_step H (Local ((lit ''run '' @ p) # rest)) s =
      Some ([Local ((lit ''run '' @ p) # rest), Line_end, Local rest], t) \<and> sh_fs t = F \<and> \<not> sh_off t \<and> line_held (sh_line t)"
proof -
  let ?l = "lit ''run '' @ p"
  have c: "is_cstr ?l" "?l \<noteq> []" "length ?l \<le> 77" "hd ?l \<noteq> 33" using p by (simp_all add: is_cstr_def)
  have pc: "parse_command (?l @ 0 # junk) = Some (C_unary U_run p)" for junk
    using parse_unary [of "lit ''run ''" U_run p junk] p(1) by (simp add: unary_table_def)
  obtain u where u: "exec_line H ?l s = map_option (\<lambda>(fs, s). (fs @ [Line_end], s)) (run_command H (C_unary U_run p) u)"
    "sh_sp u = sh_sp s" "sh_dirs u = sh_dirs s" "sh_off u = sh_off s" "line_held (sh_line u)"
    using exec_line_command [OF s(3) c pc] by metis
  have F: "sh_fs u = F" using u(2) s(1) by simp
  have "run_command H (C_unary U_run p) u = Some ([Local (?l # rest)], u)"
    using p(2) node bs F run_absolute [OF p(3,2), of "sh_cwd u" c]
    by (simp add: run_command_def run_unary_def cmd_run_def Let_def)
  moreover have "runs_line ?l" by (simp add: runs_line_def)
  ultimately show ?thesis using u F s(2) by (simp add: exI [of _ u])
qed

lemma self_run_hangs:
  assumes p: "is_cstr p" "p \<noteq> []" "hd p = slash" "length p \<le> 73"
    and node: "vfs_resolve F (make_full c p) = node" "node \<noteq> 0" "n_flags (the (fs_nodes F node)) AND VFS_FILE \<noteq> 0"
    and bs: "vfs_read F node 0 1023 = Some bs" "text_lines (cstr_of bs) = (lit ''run '' @ p) # rest"
    and s: "sh_fs s = F" "\<not> sh_off s" "line_held (sh_line s)"
  shows "exec H (Local ((lit ''run '' @ p) # rest) # later) s = None"
proof (rule ccontr)
  let ?l = "lit ''run '' @ p"
  let ?Q = "\<lambda>fs s. (\<exists>later. fs = Local (?l # rest) # later) \<and> sh_fs s = F \<and> \<not> sh_off s \<and> line_held (sh_line s)"
  assume "\<not> ?thesis"
  then obtain t where run: "exec H (Local (?l # rest) # later) s = Some t" by auto
  have "\<not> ?Q (Local (?l # rest) # later) s"
  proof (rule exec.raw_induct [OF _ run, where P = "\<lambda>H fs s t. \<not> ?Q fs s"], goal_cases)
    case (1 f H fs s t)
    show ?case
    proof
      assume q: "?Q fs s"
      then obtain later where fs: "fs = Local (?l # rest) # later" by blast
      obtain v where v: "frame_step H (Local (?l # rest)) s = Some ([Local (?l # rest), Line_end, Local rest], v)"
        "sh_fs v = F" "\<not> sh_off v" "line_held (sh_line v)"
        using self_run_step [OF p node bs, of s H] q by blast
      have "f H (Local (?l # rest) # Line_end # Local rest # later) v = Some t" using 1(2) q fs v(1) by simp
      from 1(1) [OF this] show False using v by blast
    qed
  qed
  then show False using s by blast
qed


text \<open>\<^verbatim>\<open>!!\<close> is pushed to the history before it is looked up there, so it finds itself.\<close>

lemma bang_finds_itself:
  assumes l: "line_ok l" "clean l" "hist_rel l R" "line_text l = lit ''!!''" and s: "sh_line s = history_push l"
  obtains u where "dispatch H s = Some (emit ([Puts (lit ''!!'') VGA_COLOR_LIGHT_RED] @ say '': command not found'' VGA_COLOR_LIGHT_RED) u)"
    "sh_sp u = sh_sp s" "sh_dirs u = sh_dirs s"
proof -
  define p where "p = history_push l"
  have p: "hist_rel p (R @ [lit ''!!''])" "line_ok p" "line_text p = lit ''!!''"
    using history_push_rel [OF l(1-3)] l(4) by (simp_all add: p_def)
  have same: "cmd_buf p = cmd_buf l" "cmd_len p = cmd_len l" using l(1) line_okD(6) [OF l(1)] l(4)
    by (auto simp: p_def history_push_def put_history_def Let_def)
  have n: "cmd_len p = 2" using line_okD(6) [OF p(2)] p(3) by simp
  have buf: "take 2 (cmd_buf p) = [33, 33]" using p(3) n by (simp add: line_text_def)
  have len: "length (cmd_buf p) = 78" using p(2) by (simp add: line_okD)
  define q where "q = p\<lparr>cmd_buf := (cmd_buf p)[2 := 0]\<rparr>"
  have b: "cmd_buf q = [33, 33] @ 0 # drop 3 (cmd_buf p)"
  proof -
    have "cmd_buf p = take 2 (cmd_buf p) @ drop 2 (cmd_buf p)" by simp
    then have "cmd_buf p = [33, 33] @ cmd_buf p ! 2 # drop 3 (cmd_buf p)"
      using buf len by (metis Cons_nth_drop_Suc eval_nat_numeral(3) numeral_2_eq_2 numeral_less_iff semiring_norm(76,77,78,79,80,81))
    then show ?thesis by (simp add: q_def) (metis append_Cons append_Nil list_update_code(2,3) numeral_2_eq_2)
  qed
  have bang: "is_bang q" using b n by (simp add: is_bang_def q_def)
  have c: "history_count q \<noteq> 0" using p(1) by (simp add: hist_rel_def q_def)
  have row: "history_row (history_count q - 1) q = [33, 33]"
    using p(1) by (simp add: hist_rel_def q_def history_row_def)
  have r: "recall_last q = q"
    using row b n by (simp add: recall_last_def Let_def) (simp add: q_def overlay_def)
  have pc: "parse_command ([33, 33] @ 0 # junk) = Some (C_unknown [33, 33])" for junk
    by (rule parse_unknown) (simp_all add: is_cstr_def openings_def unary_table_def other_words_def plain_table_def)
  define u where "u = (let s = show_status H (s\<lparr>sh_line := q\<rparr>) in s\<lparr>sh_dog := watchdog_kick (sh_timer s) (sh_dog s), sh_line := q\<rparr>)"
  have "dispatch_step H s = run_command H (C_unknown [33, 33]) u"
    using bang c r b n pc s by (simp add: dispatch_step_def Let_def u_def p_def [symmetric] q_def [symmetric])
  then have "dispatch H s = Some (emit ([Puts (lit ''!!'') VGA_COLOR_LIGHT_RED] @ say '': command not found'' VGA_COLOR_LIGHT_RED) u)"
    by (simp add: dispatch_def run_command_def done_now_def)
  then show ?thesis by (rule that) (simp_all add: u_def Let_def)
qed


subsection \<open>Examples\<close>

text \<open>A shell with two scripts, \<^verbatim>\<open>/s\<close> that runs itself and \<^verbatim>\<open>/t\<close> with three lines, and no disk.\<close>

definition two_scripts :: "mem fs" where
  "two_scripts = \<lparr>fs_nodes = [0x300010 \<mapsto> \<lparr>n_name = slash # replicate 63 0, n_flags = VFS_DIR, n_length = 0, n_inode = 0x300080, n_parent = 0\<rparr>,
       0x300120 \<mapsto> \<lparr>n_name = 115 # replicate 63 0, n_flags = VFS_FILE, n_length = 7, n_inode = 0x300190, n_parent = 0x300010\<rparr>,
       0x300230 \<mapsto> \<lparr>n_name = 116 # replicate 63 0, n_flags = VFS_FILE, n_length = 14, n_inode = 0x3002A0, n_parent = 0x300010\<rparr>],
     fs_datas = [0x300080 \<mapsto> \<lparr>d_buf = None, d_capacity = 0, d_children = [0x300120, 0x300230]\<rparr>,
       0x300190 \<mapsto> \<lparr>d_buf = Some (lit ''run /s'' @ [10]), d_capacity = 7, d_children = []\<rparr>,
       0x3002A0 \<mapsto> \<lparr>d_buf = Some (lit ''echo a'' @ [10] @ lit ''#x'' @ [10] @ lit ''pwd'' @ [10]), d_capacity = 14, d_children = []\<rparr>],
     fs_heap = (\<lambda>_. 0), fs_root = 0x300010, next_inode = 3\<rparr>"

definition sample_shell :: "(unit, ring_card) shell" where
  "sample_shell = \<lparr>sh_sp = \<lparr>sp_mem = (\<lambda>_. 0), sp_fs = two_scripts, sp_procs = sample_procs,
       sp_fat = \<lparr>bytes_per_sector = 0, sectors_per_cluster = 0, reserved_sectors = 0, num_fats = 0, root_entry_count = 0,
         sectors_per_fat = 0, total_sectors = 0, fat_start_lba = 0, root_start_lba = 0, data_start_lba = 0,
         total_clusters = 0, fat12_ready = False, fat_data = [], fat_dirty = False,
         store = \<lparr>cache = [], disk_present = False, dk_drive = ()\<rparr>\<rparr>\<rparr>,
     sh_line = clear_line sample_line, sh_dirs = \<lparr>cwd = [slash], prev_cwd = [slash]\<rparr>, sh_con = sample_console, sh_row = 0,
     sh_env = env_init, sh_alias = alias_blank, sh_boot = replicate 64 0, sh_metas = [], sh_sigs = [],
     sh_pmm = \<lparr>bitmap = (\<lambda>_. 0), total_frames = 0, free_frames = 0, bitmap_words = 0\<rparr>, sh_prof = prof_init,
     sh_net = ready_net, sh_timer = \<lparr>tick_count = 0, ticks_per_ms = 1\<rparr>,
     sh_dog = \<lparr>timeout_ticks = 30000, last_kick = 0, wd_enabled = True\<rparr>, sh_ed = blank_editor, sh_game = crossing,
     sh_sbuf = replicate 1024 0, sh_off = False, in_events = [(5, \<lparr>ev_type = TERM_CHAR, ev_ch = 120\<rparr>)], in_chars = [],
     in_frames = [], in_back = []\<rparr>"

definition sample_host :: "(unit, ring_card) host" where
  "sample_host = \<lparr>h_ports = \<lparr>p_inb = (\<lambda>_ d. (0, d)), p_outb = (\<lambda>_ _ d. d), p_inw = (\<lambda>_ d. (0, d)), p_outw = (\<lambda>_ _ d. d)\<rparr>,
     h_nic = e1000_driver, h_packet = replicate 1500 0,
     h_clock = (\<lambda>_. \<lparr>second = 0, minute = 0, hour = 0, day = 1, month = 1, year = 26\<rparr>),
     h_stack = replicate 4096 0, h_names = [], h_irqs = []\<rparr>"

lemma sample_parts:
  "sh_fs sample_shell = two_scripts" "sh_cwd sample_shell = [slash]" "line_ok (sh_line sample_shell)"
  "dirs_ok (sh_dirs sample_shell)" "\<not> sh_off sample_shell"
  using clear_step [OF sample_line_ok(1)] by (simp_all add: sample_shell_def dirs_ok_def path_ok_def)

lemma scripts_resolve:
  "vfs_resolve two_scripts (make_full [slash] (lit ''/s'')) = 0x300120"
  "vfs_resolve two_scripts (make_full [slash] (lit ''/t'')) = 0x300230"
  "n_flags (the (fs_nodes two_scripts 0x300120)) AND VFS_FILE \<noteq> 0"
  "n_flags (the (fs_nodes two_scripts 0x300230)) AND VFS_FILE \<noteq> 0"
  "vfs_read two_scripts 0x300120 0 1023 = Some (lit ''run /s'' @ [10])"
  "vfs_read two_scripts 0x300230 0 1023 = Some (lit ''echo a'' @ [10] @ lit ''#x'' @ [10] @ lit ''pwd'' @ [10])"
  by code_simp+

lemma script_texts:
  "text_lines (cstr_of (lit ''run /s'' @ [10])) = [lit ''run /s'']"
  "filter runs_line (text_lines (cstr_of (lit ''echo a'' @ [10] @ lit ''#x'' @ [10] @ lit ''pwd'' @ [10]))) = [lit ''echo a'', lit ''pwd'']"
  by code_simp+


theorem shell_session_ok_witness:
  "\<exists>t. shell_run sample_host sample_shell = Some t \<and> (sh_off t \<or> line_ok (sh_line t))"
proof -
  have p: "prompt_cells [slash] \<noteq> None" by (simp add: prompt_overflow)
  have "\<exists>t. show_prompt s = Some t \<and> in_events t = in_events s" if "sh_cwd s = [slash]" for s :: "(unit, ring_card) shell"
    using p that by (auto simp: show_prompt_def prompt_redraw_def set_cells_def Let_def split: option.splits)
  note draw = this
  have ev [simp]: "in_events (emit os s) = in_events s" "in_events (show_status sample_host s) = in_events s"
    for os and s :: "(unit, ring_card) shell"
    by (simp_all add: emit_def on_term_def show_status_def set_cells_def Let_def)
  have key: "\<exists>t. key_step sample_host \<lparr>ev_type = TERM_CHAR, ev_ch = 120\<rparr> s = Some t \<and> in_events t = []"
    if s: "sh_cwd s = [slash]" "in_events s = []" for s
  proof -
    obtain os l where l: "line_key \<lparr>ev_type = TERM_CHAR, ev_ch = 120\<rparr> (sh_line s) = (os, l)" by fastforce
    then show ?thesis
      using draw [of "emit os (s\<lparr>sh_line := l\<rparr>)"] s by (simp add: key_step_def ctrl_def Let_def)
  qed
  have fin: "shell_loop sample_host k s = Some s" if "in_events s = []" for k s
    using that by (simp add: shell_loop.simps)
  have "in_events sample_shell = [(5, \<lparr>ev_type = TERM_CHAR, ev_ch = 120\<rparr>)]" by (simp add: sample_shell_def)
  moreover define u where "u = (let s = sample_shell\<lparr>in_events := [], sh_timer := (sh_timer sample_shell)\<lparr>tick_count := 5\<rparr>\<rparr>
    in (show_status sample_host s)\<lparr>sh_dog := watchdog_kick (sh_timer s) (sh_dog s)\<rparr>)"
  ultimately have "shell_run sample_host sample_shell =
      Option.bind (key_step sample_host \<lparr>ev_type = TERM_CHAR, ev_ch = 120\<rparr> u) (shell_loop sample_host 0)"
    using sample_parts(5) unfolding shell_run_def by (subst shell_loop.simps) (simp add: Let_def)
  moreover have "sh_cwd u = [slash]" "in_events u = []"
    using sample_parts(2) by (simp_all add: u_def Let_def)
  ultimately have "\<exists>t. shell_run sample_host sample_shell = Some t" using key [of u] fin by force
  then show ?thesis using shell_session_ok [OF sample_parts(3,4)] by blast
qed

end
