(* ===== verification/Interrupts.thy ===== *)
theory Interrupts
  imports Ata Sched Clock Keyboard "HOL-Library.Monad_Syntax"
begin

text \<open>
  Interrupts: the two 8259 controllers (\<^verbatim>\<open>kernel/pic.c\<close>), the descriptor table (\<^verbatim>\<open>kernel/idt.c\<close>), the routing of
  hardware interrupts to their handlers (\<^verbatim>\<open>kernel/irq.c\<close>) and the exception report (\<^verbatim>\<open>kernel/isr.c\<close>).
  The ports are a parameter as in \<open>Ata\<close>; \<open>pic_ports\<close> is the pair of controllers as their data sheet
  describes them: the initialisation sequence, the mask and the in-service bits.  The addresses of the assembly
  stubs are a parameter.
\<close>

unbundle bit_operations_syntax

subsection \<open>The interrupt controllers\<close>

definition PIC_MASTER_CMD :: u16 where "PIC_MASTER_CMD = 0x20"
definition PIC_MASTER_DATA :: u16 where "PIC_MASTER_DATA = 0x21"
definition PIC_SLAVE_CMD :: u16 where "PIC_SLAVE_CMD = 0xA0"
definition PIC_SLAVE_DATA :: u16 where "PIC_SLAVE_DATA = 0xA1"
definition PIC_ICW1_INIT :: u8 where "PIC_ICW1_INIT = 0x11"
definition PIC_ICW4_8086 :: u8 where "PIC_ICW4_8086 = 0x01"
definition PIC_EOI :: u8 where "PIC_EOI = 0x20"
definition PIC_MASTER_OFFSET :: u8 where "PIC_MASTER_OFFSET = 32"
definition PIC_SLAVE_OFFSET :: u8 where "PIC_SLAVE_OFFSET = 40"

lemmas pic_consts = PIC_MASTER_CMD_def PIC_MASTER_DATA_def PIC_SLAVE_CMD_def PIC_SLAVE_DATA_def PIC_ICW1_INIT_def
  PIC_ICW4_8086_def PIC_EOI_def PIC_MASTER_OFFSET_def PIC_SLAVE_OFFSET_def

definition io_wait :: "'d ports \<Rightarrow> 'd \<Rightarrow> 'd" where
  "io_wait P d = p_outb P 0x80 0x00 d"

text \<open>\<^verbatim>\<open>outb(port, val); io_wait();\<close>\<close>

definition outb_wait :: "'d ports \<Rightarrow> u16 \<Rightarrow> u8 \<Rightarrow> 'd \<Rightarrow> 'd" where
  "outb_wait P port val d = io_wait P (p_outb P port val d)"

definition pic_init :: "'d ports \<Rightarrow> 'd \<Rightarrow> 'd" where
  "pic_init P d =
     (let (master_mask, d) = p_inb P PIC_MASTER_DATA d;
          (slave_mask, d) = p_inb P PIC_SLAVE_DATA d;
          d = outb_wait P PIC_MASTER_CMD PIC_ICW1_INIT d;
          d = outb_wait P PIC_SLAVE_CMD PIC_ICW1_INIT d;
          d = outb_wait P PIC_MASTER_DATA PIC_MASTER_OFFSET d;
          d = outb_wait P PIC_SLAVE_DATA PIC_SLAVE_OFFSET d;
          d = outb_wait P PIC_MASTER_DATA 0x04 d;
          d = outb_wait P PIC_SLAVE_DATA 0x02 d;
          d = outb_wait P PIC_MASTER_DATA PIC_ICW4_8086 d;
          d = outb_wait P PIC_SLAVE_DATA PIC_ICW4_8086 d
      in p_outb P PIC_SLAVE_DATA slave_mask (p_outb P PIC_MASTER_DATA master_mask d))"

definition pic_send_eoi :: "'d ports \<Rightarrow> u8 \<Rightarrow> 'd \<Rightarrow> 'd" where
  "pic_send_eoi P irq d =
     p_outb P PIC_MASTER_CMD PIC_EOI (if 8 \<le> irq then p_outb P PIC_SLAVE_CMD PIC_EOI d else d)"

text \<open>\<^verbatim>\<open>(1 << bit)\<close> is an \<^verbatim>\<open>int\<close>, cut to a byte by \<open>outb\<close>; with \<open>bit\<close> above 31 its value is not defined.\<close>

definition pic_line :: "u8 \<Rightarrow> u16 \<times> u8" where
  "pic_line irq = (if irq < 8 then (PIC_MASTER_DATA, irq) else (PIC_SLAVE_DATA, irq - 8))"

definition pic_mask_irq :: "'d ports \<Rightarrow> u8 \<Rightarrow> 'd \<Rightarrow> 'd option" where
  "pic_mask_irq P irq d =
     (let (port, b) = pic_line irq; (m, d) = p_inb P port d
      in if 32 \<le> b then None else Some (p_outb P port (m OR push_bit (unat b) 1) d))"

definition pic_unmask_irq :: "'d ports \<Rightarrow> u8 \<Rightarrow> 'd \<Rightarrow> 'd option" where
  "pic_unmask_irq P irq d =
     (let (port, b) = pic_line irq; (m, d) = p_inb P port d
      in if 32 \<le> b then None else Some (p_outb P port (m AND NOT (push_bit (unat b) 1)) d))"

subsection \<open>The descriptor table\<close>

record idt_entry =
  offset_low :: u16
  ie_selector :: u16
  ie_zero :: u8
  type_attr :: u8
  offset_high :: u16

record idt_table =
  idt :: "idt_entry list"
  idt_limit :: u16
  idt_base :: u32

definition IDT_INTERRUPT_GATE :: u8 where "IDT_INTERRUPT_GATE = 0x8E"

definition idt_set_gate :: "u8 \<Rightarrow> u32 \<Rightarrow> u16 \<Rightarrow> u8 \<Rightarrow> idt_table \<Rightarrow> idt_table" where
  "idt_set_gate num handler selector attr t =
     t\<lparr>idt := (idt t)[unat num := \<lparr>offset_low = ucast (handler AND 0xFFFF), ie_selector = selector, ie_zero = 0,
        type_attr = attr, offset_high = ucast (drop_bit 16 handler AND 0xFFFF)\<rparr>]\<rparr>"

definition no_gate :: idt_entry where
  "no_gate = \<lparr>offset_low = 0, ie_selector = 0, ie_zero = 0, type_attr = 0, offset_high = 0\<rparr>"

text \<open>\<open>isr n\<close> is the address of the stub of exception \<open>n\<close>, \<open>base\<close> that of the table.\<close>

definition idt_init :: "(nat \<Rightarrow> u32) \<Rightarrow> u32 \<Rightarrow> idt_table \<Rightarrow> idt_table" where
  "idt_init isr base t =
     (let t = t\<lparr>idt := replicate 256 no_gate\<rparr>;
          t = fold (\<lambda>n. idt_set_gate (of_nat n) (isr n) 0x08 IDT_INTERRUPT_GATE) [0..<32] t
      in t\<lparr>idt_limit := 256 * 8 - 1, idt_base := base\<rparr>)"

subsection \<open>Hardware interrupts\<close>

text \<open>A handler gets the saved registers and may change them and the state it works on.\<close>

type_synonym 'w handler = "registers \<Rightarrow> 'w \<Rightarrow> registers \<times> 'w"

definition irq_init :: "(nat \<Rightarrow> u32) \<Rightarrow> idt_table \<Rightarrow> 'w handler option list \<times> idt_table" where
  "irq_init stub t =
     (replicate 16 None, fold (\<lambda>n. idt_set_gate (of_nat (32 + n)) (stub n) 0x08 0x8E) [0..<16] t)"

definition irq_register :: "u8 \<Rightarrow> 'w handler option \<Rightarrow> 'w handler option list \<Rightarrow> 'w handler option list" where
  "irq_register irq h hs = (if irq < 16 then hs[unat irq := h] else hs)"

definition irq_handler ::
    "'d ports \<Rightarrow> 'w handler option list \<Rightarrow> registers \<Rightarrow> 'w \<times> 'd \<Rightarrow> registers \<times> 'w \<times> 'd" where
  "irq_handler P hs regs s =
     (let irq = ucast (r_int_no regs - 32) :: u8;
          (regs, w) = (if irq < 16
                       then (case hs ! unat irq of Some h \<Rightarrow> h regs (fst s) | None \<Rightarrow> (regs, fst s))
                       else (regs, fst s))
      in (regs, w, pic_send_eoi P irq (snd s)))"

subsection \<open>Exceptions\<close>

definition exception_names :: "string list" where
  "exception_names =
     [''Division By Zero'', ''Debug'', ''Non-Maskable Interrupt'', ''Breakpoint'', ''Overflow'', ''Bound Range Exceeded'',
      ''Invalid Opcode'', ''Device Not Available'', ''Double Fault'', ''Coprocessor Segment'', ''Invalid TSS'',
      ''Segment Not Present'', ''Stack-Segment Fault'', ''General Protection Fault'', ''Page Fault'', ''Reserved'',
      ''x87 FPU Fault'', ''Alignment Check'', ''Machine Check'', ''SIMD FP Exception'', ''Virtualization Exception'',
      ''Reserved'', ''Reserved'', ''Reserved'', ''Reserved'', ''Reserved'', ''Reserved'', ''Reserved'', ''Reserved'',
      ''Reserved'', ''Security Exception'', ''Reserved'']"

text \<open>The report, after which the machine halts; the dash is the three bytes of the source text.\<close>

definition isr_handler :: "registers \<Rightarrow> console \<Rightarrow> console option" where
  "isr_handler regs c =
     (let c = c\<lparr>c_vga := vga_set_color 12 0 (c_vga c)\<rparr>;
          name = (if r_int_no regs < 32 then exception_names ! unat (r_int_no regs) else ''Unknown'')
      in do {
        c \<leftarrow> kprintf ([10] @ lit ''*** baSic_ EXCEPTION ***'' @ [10]) [] c;
        c \<leftarrow> kprintf (lit ''  #%d '' @ [0xE2, 0x80, 0x94] @ lit '' %s'' @ [10]) [KNum (r_int_no regs), KStr (Some (lit name))] c;
        c \<leftarrow> kprintf (lit ''  err code: %x'' @ [10]) [KNum (r_err_code regs)] c;
        c \<leftarrow> kprintf (lit ''  eip: %x  cs: %x  eflags: %x'' @ [10]) [KNum (r_eip regs), KNum (r_cs regs), KNum (r_eflags regs)] c;
        c \<leftarrow> kprintf (lit ''  eax: %x  ebx: %x  ecx: %x  edx: %x'' @ [10])
          [KNum (r_eax regs), KNum (r_ebx regs), KNum (r_ecx regs), KNum (r_edx regs)] c;
        kprintf (lit ''  esp: %x  ebp: %x  esi: %x  edi: %x'' @ [10])
          [KNum (r_esp_dummy regs), KNum (r_ebp regs), KNum (r_esi regs), KNum (r_edi regs)] c
      })"

subsection \<open>The controllers as hardware\<close>

text \<open>One 8259: its mask, vector base, in-service bits, cascade word and mode, and how far the initialisation
  sequence is (0: operational).  An unspecific end-of-interrupt clears the highest-priority (lowest) bit
  in service.\<close>

record pic8259 =
  imr :: u8
  vector_base :: u8
  in_service :: u8
  cascade :: u8
  pic_mode :: u8
  icw :: nat

definition lowest_bit :: "u8 \<Rightarrow> nat option" where
  "lowest_bit v = find (\<lambda>i. bit v i) [0..<8]"

definition pic_cmd :: "u8 \<Rightarrow> pic8259 \<Rightarrow> pic8259" where
  "pic_cmd v p =
     (if bit v 4 then p\<lparr>icw := 1, imr := 0, in_service := 0\<rparr>
      else if v = 0x20 then
        (case lowest_bit (in_service p) of None \<Rightarrow> p | Some i \<Rightarrow> p\<lparr>in_service := unset_bit i (in_service p)\<rparr>)
      else p)"

definition pic_data :: "u8 \<Rightarrow> pic8259 \<Rightarrow> pic8259" where
  "pic_data v p =
     (if icw p = 1 then p\<lparr>vector_base := v AND 0xF8, icw := 2\<rparr>
      else if icw p = 2 then p\<lparr>cascade := v, icw := 3\<rparr>
      else if icw p = 3 then p\<lparr>pic_mode := v, icw := 0\<rparr>
      else p\<lparr>imr := v\<rparr>)"

type_synonym pic_pair = "pic8259 \<times> pic8259"

definition pair_out :: "u16 \<Rightarrow> u8 \<Rightarrow> pic_pair \<Rightarrow> pic_pair" where
  "pair_out port v = (\<lambda>(m, s).
     if port = 0x20 then (pic_cmd v m, s) else if port = 0x21 then (pic_data v m, s)
     else if port = 0xA0 then (m, pic_cmd v s) else if port = 0xA1 then (m, pic_data v s) else (m, s))"

definition pair_in :: "u16 \<Rightarrow> pic_pair \<Rightarrow> u8 \<times> pic_pair" where
  "pair_in port = (\<lambda>(m, s). (if port = 0x21 then imr m else if port = 0xA1 then imr s else 0, (m, s)))"

definition pic_ports :: "pic_pair ports" where
  "pic_ports = \<lparr>p_inb = pair_in, p_outb = pair_out, p_inw = (\<lambda>_ d. (0, d)), p_outw = (\<lambda>_ _ d. d)\<rparr>"

text \<open>The vector the pair puts on the bus for a line, and the line going into service.\<close>

definition vector_of :: "pic_pair \<Rightarrow> nat \<Rightarrow> nat" where
  "vector_of ps n = (if n < 8 then unat (vector_base (fst ps)) + n else unat (vector_base (snd ps)) + (n - 8))"

definition masked :: "pic_pair \<Rightarrow> nat \<Rightarrow> bool" where
  "masked ps n = (if n < 8 then bit (imr (fst ps)) n else bit (imr (snd ps)) (n - 8))"

definition serve :: "nat \<Rightarrow> pic_pair \<Rightarrow> pic_pair" where
  "serve n = (\<lambda>(m, s).
     if n < 8 then (m\<lparr>in_service := set_bit n (in_service m)\<rparr>, s)
     else (m\<lparr>in_service := set_bit 2 (in_service m)\<rparr>, s\<lparr>in_service := set_bit (n - 8) (in_service s)\<rparr>))"

subsection \<open>The controllers after initialisation\<close>

lemma pic_ports_sel [simp]:
  "p_inb pic_ports = pair_in" "p_outb pic_ports = pair_out"
  by (simp_all add: pic_ports_def)

lemma icw1: "pic_cmd 0x11 p = p\<lparr>icw := 1, imr := 0, in_service := 0\<rparr>"
proof -
  have "bit (0x11 :: u8) 4" by (simp add: bit_numeral_rec)
  then show ?thesis by (simp add: pic_cmd_def)
qed

lemma pic_init_pair:
  "pic_init pic_ports (m, s) =
     (m\<lparr>imr := imr m, vector_base := 32, in_service := 0, cascade := 4, pic_mode := 1, icw := 0\<rparr>,
      s\<lparr>imr := imr s, vector_base := 40, in_service := 0, cascade := 2, pic_mode := 1, icw := 0\<rparr>)"
  by (simp add: pic_init_def outb_wait_def io_wait_def pic_consts pair_in_def pair_out_def icw1 pic_data_def)

text \<open>Masking and unmasking change one line.\<close>

lemma pic_mask_exact:
  assumes "irq < 16" "icw (fst ps) = 0" "icw (snd ps) = 0"
  shows "\<exists>qs. pic_mask_irq pic_ports irq ps = Some qs \<and> (\<forall>n < 16. masked qs n \<longleftrightarrow> masked ps n \<or> n = unat irq)"
    "\<exists>qs. pic_unmask_irq pic_ports irq ps = Some qs \<and> (\<forall>n < 16. masked qs n \<longleftrightarrow> masked ps n \<and> n \<noteq> unat irq)"
proof -
  obtain m s where ps: "ps = (m, s)" by (cases ps)
  have i: "unat irq < 16" using assms(1) by (simp add: word_less_nat_alt)
  have b: "bit (push_bit k (1 :: u8)) n \<longleftrightarrow> n = k" if "k < 8" for k n
    using that by (auto simp: bit_push_bit_iff bit_1_iff simp del: push_bit_of_1)
  have z: "icw m = 0" "icw s = 0" using assms ps by simp_all
  have nb: "bit (NOT x) n \<longleftrightarrow> \<not> bit x n" if "n < 8" for x :: u8 and n
    using that by (simp add: bit_not_iff)
  obtain port k where l: "pic_line irq = (port, k)" "unat k < 8"
    "if irq < 8 then port = 0x21 \<and> unat k = unat irq else port = 0xA1 \<and> unat k = unat irq - 8"
  proof (cases "irq < 8")
    case True
    then show ?thesis by (intro that [of "0x21" irq]) (simp_all add: pic_line_def pic_consts word_less_nat_alt)
  next
    case False
    then have "unat (irq - 8) = unat irq - 8" by (simp add: unat_sub not_less)
    then show ?thesis using False i by (intro that [of "0xA1" "irq - 8"]) (simp_all add: pic_line_def pic_consts)
  qed
  have k: "\<not> 32 \<le> k" using l(2) by (simp add: word_le_nat_alt)
  have irq: "irq < 8 \<longleftrightarrow> unat irq < 8" by (simp add: word_less_nat_alt)
  show "\<exists>qs. pic_mask_irq pic_ports irq ps = Some qs \<and> (\<forall>n < 16. masked qs n \<longleftrightarrow> masked ps n \<or> n = unat irq)"
    using l z k b i irq by (auto simp: ps pic_mask_irq_def pair_in_def pair_out_def pic_data_def masked_def bit_or_iff
        simp del: push_bit_of_1 split: if_splits)
  show "\<exists>qs. pic_unmask_irq pic_ports irq ps = Some qs \<and> (\<forall>n < 16. masked qs n \<longleftrightarrow> masked ps n \<and> n \<noteq> unat irq)"
    using l z k b i irq nb by (auto simp: ps pic_unmask_irq_def pair_in_def pair_out_def pic_data_def masked_def bit_and_iff
        simp del: push_bit_of_1 split: if_splits)
qed

subsection \<open>Gates\<close>

text \<open>Where a gate leads.\<close>

definition gate_target :: "idt_entry \<Rightarrow> u32" where
  "gate_target e = push_bit 16 (ucast (offset_high e)) OR ucast (offset_low e)"

lemma split_address: "push_bit 16 (ucast (ucast (drop_bit 16 a AND 0xFFFF) :: u16)) OR ucast (ucast (a AND 0xFFFF) :: u16) = (a :: u32)"
proof (rule bit_word_eqI)
  fix n assume n: "n < LENGTH(32)"
  have m: "bit (0xFFFF :: u32) k \<longleftrightarrow> k < 16" if "k < 32" for k
  proof -
    have "(0xFFFF :: u32) = mask 16" by (simp add: mask_eq_exp_minus_1)
    then show ?thesis using that by (simp only: bit_mask_iff) simp
  qed
  show "bit (push_bit 16 (ucast (ucast (drop_bit 16 a AND 0xFFFF) :: u16)) OR ucast (ucast (a AND 0xFFFF) :: u16) :: u32) n = bit a n"
    using n m [of n] m [of "n - 16"] by (cases "n < 16") (auto simp: bit_or_iff bit_push_bit_iff bit_and_iff bit_ucast_iff bit_drop_bit_eq)
qed

definition gate :: "u32 \<Rightarrow> u8 \<Rightarrow> idt_entry \<Rightarrow> bool" where
  "gate a attr e \<longleftrightarrow> gate_target e = a \<and> ie_selector e = 0x08 \<and> ie_zero e = 0 \<and> type_attr e = attr"

lemma set_gate:
  assumes "length (idt t) = 256"
  shows "length (idt (idt_set_gate num a sel attr t)) = 256"
    "gate a attr (idt (idt_set_gate num a 0x08 attr t) ! unat num)"
    "k \<noteq> unat num \<Longrightarrow> idt (idt_set_gate num a sel attr t) ! k = idt t ! k"
  using assms split_address [of a] by (simp_all add: idt_set_gate_def gate_def gate_target_def)

lemma set_gates:
  fixes f :: "nat \<Rightarrow> u32" and attr :: u8
  assumes "length (idt t) = 256" "lo + m \<le> 256"
  defines "t' \<equiv> fold (\<lambda>n. idt_set_gate (of_nat (lo + n)) (f n) 0x08 attr) [0..<m] t"
  shows "length (idt t') = 256 \<and> (\<forall>n < m. gate (f n) attr (idt t' ! (lo + n))) \<and>
    (\<forall>k. \<not> (lo \<le> k \<and> k < lo + m) \<longrightarrow> idt t' ! k = idt t ! k)"
  unfolding t'_def using assms(2)
proof (induction m)
  case (Suc m)
  define u where "u = fold (\<lambda>n. idt_set_gate (of_nat (lo + n)) (f n) 0x08 attr) [0..<m] t"
  have IH: "length (idt u) = 256" "\<forall>n < m. gate (f n) attr (idt u ! (lo + n))"
    "\<forall>k. \<not> (lo \<le> k \<and> k < lo + m) \<longrightarrow> idt u ! k = idt t ! k"
    using Suc by (simp_all add: u_def)
  have n: "unat (of_nat (lo + m) :: u8) = lo + m" using Suc.prems by (subst unat_of_nat) simp
  define v :: idt_table where "v = idt_set_gate (of_nat (lo + m)) (f m) 0x08 attr u"
  have g: "length (idt v) = 256" "gate (f m) attr (idt v ! (lo + m))" "k \<noteq> lo + m \<Longrightarrow> idt v ! k = idt u ! k" for k
    using set_gate(1) [OF IH(1), of "of_nat (lo + m)" "f m" "0x08" attr] set_gate(2) [OF IH(1), of "f m" attr "of_nat (lo + m)"]
      set_gate(3) [OF IH(1), of k "of_nat (lo + m)" "f m" "0x08" attr]
    unfolding v_def n by simp_all
  show ?case
    unfolding upt_Suc_append [OF le0] fold_append comp_apply u_def [symmetric] fold.simps id_apply v_def [symmetric]
    using g IH by (auto simp: less_Suc_eq)
qed (use assms(1) in simp)

subsection \<open>From the line to the handler\<close>

lemma lowest_single:
  assumes "n < 8"
  shows "lowest_bit (2 ^ n) = Some n" "unset_bit n (2 ^ n :: u8) = 0"
proof -
  have b: "bit (2 ^ n :: u8) k \<longleftrightarrow> k = n" for k using assms by (auto simp: bit_exp_iff)
  have "find (\<lambda>i. bit (2 ^ n :: u8) i) [0..<8] = Some n"
    unfolding b using assms by (simp add: find_Some_iff exI [of _ n] del: upt_conv_Cons upt_rec_numeral)
  then show "lowest_bit (2 ^ n) = Some n" by (simp add: lowest_bit_def)
  show "unset_bit n (2 ^ n :: u8) = 0" by (rule bit_eqI) (simp add: bit_unset_bit_iff b)
qed

lemma eoi_cmd:
  assumes "n < 8" "in_service p = 2 ^ n"
  shows "pic_cmd 0x20 p = p\<lparr>in_service := 0\<rparr>"
proof -
  have "\<not> bit (0x20 :: u8) 4" by (simp add: bit_numeral_rec)
  then show ?thesis unfolding pic_cmd_def assms(2) lowest_single [OF assms(1)]
    using lowest_single(2) [OF assms(1)] by simp
qed

lemma eoi_ends_service:
  assumes "n < 16" "in_service (fst ps) = 0" "in_service (snd ps) = 0"
  shows "pic_send_eoi pic_ports (of_nat n) (serve n ps) = ps"
proof -
  obtain m s where ps: "ps = (m, s)" "in_service m = 0" "in_service s = 0" using assms(2,3) by (cases ps) simp
  have l: "8 \<le> (of_nat n :: u8) \<longleftrightarrow> 8 \<le> n"
  proof -
    have "unat (of_nat n :: u8) = n" using assms(1) by (subst unat_of_nat) simp
    then show ?thesis by (simp add: word_le_nat_alt)
  qed
  have same: "p\<lparr>in_service := 0\<rparr> = p" if "in_service p = 0" for p :: pic8259 using that by simp
  show ?thesis
  proof (cases "n < 8")
    case True
    then show ?thesis
      using ps l eoi_cmd [of n "m\<lparr>in_service := 2 ^ n\<rparr>"] same [of m]
      by (simp add: pic_send_eoi_def pic_consts pair_out_def serve_def)
  next
    case False
    then have "n - 8 < 8" using assms(1) by simp
    then show ?thesis
      using False ps l eoi_cmd [of 2 "m\<lparr>in_service := 2 ^ 2\<rparr>"] same [of m] same [of s]
        eoi_cmd [of "n - 8" "s\<lparr>in_service := 2 ^ (n - 8)\<rparr>"]
      by (simp add: pic_send_eoi_def pic_consts pair_out_def serve_def)
  qed
qed

lemma irq_number:
  assumes "n < 16"
  shows "(ucast (of_nat (32 + n) - 32 :: u32) :: u8) = of_nat n" "unat (of_nat n :: u8) = n" "(of_nat n :: u8) < 16"
proof -
  have "(of_nat (32 + n) - 32 :: u32) = of_nat n" by simp
  moreover show u: "unat (of_nat n :: u8) = n" using assms by (subst unat_of_nat) simp
  moreover have "unat (ucast (of_nat n :: u32) :: u8) = n"
    using assms by (simp add: unsigned_ucast_eq take_bit_eq_mod)
  ultimately show "(ucast (of_nat (32 + n) - 32 :: u32) :: u8) = of_nat n" by (simp add: word_unat_eq_iff)
  show "(of_nat n :: u8) < 16" using assms u by (simp add: word_less_nat_alt)
qed

text \<open>The table after both initialisations.\<close>

lemma gates_up:
  fixes isr stub :: "nat \<Rightarrow> u32" and base :: u32 and t0 :: idt_table
  defines "t \<equiv> snd (irq_init stub (idt_init isr base t0) :: 'w handler option list \<times> idt_table)"
  shows "length (idt t) = 256 \<and> (\<forall>k < 32. gate (isr k) 0x8E (idt t ! k)) \<and> (\<forall>k < 16. gate (stub k) 0x8E (idt t ! (32 + k))) \<and>
    (\<forall>k. 48 \<le> k \<and> k < 256 \<longrightarrow> idt t ! k = no_gate)"
proof -
  define t1 where "t1 = fold (\<lambda>n. idt_set_gate (of_nat (0 + n)) (isr n) 0x08 0x8E) [0..<32] (t0\<lparr>idt := replicate 256 no_gate\<rparr>)"
  define t2 where "t2 = t1\<lparr>idt_limit := 256 * 8 - 1, idt_base := base\<rparr>"
  have t1: "length (idt t1) = 256" "\<forall>k < 32. gate (isr k) 0x8E (idt t1 ! k)" "\<forall>k. 32 \<le> k \<and> k < 256 \<longrightarrow> idt t1 ! k = no_gate"
    using set_gates [of "t0\<lparr>idt := replicate 256 no_gate\<rparr>" 0 32 isr "0x8E"] by (simp_all add: t1_def)
  have t: "t = fold (\<lambda>n. idt_set_gate (of_nat (32 + n)) (stub n) 0x08 0x8E) [0..<16] t2"
    by (simp add: t_def irq_init_def idt_init_def Let_def IDT_INTERRUPT_GATE_def t2_def t1_def)
  have t2: "length (idt t2) = 256" "idt t2 = idt t1" using t1(1) by (simp_all add: t2_def)
  show ?thesis using set_gates [OF t2(1), of 32 16 stub "0x8E", folded t, unfolded t2(2)] t1(2,3) by simp
qed

text \<open>
  C28: the way of a hardware interrupt.  The initialisation leaves every exception vector with a gate to
  its stub and keeps all masks; for each of the 16 lines the vector the controllers now give has a gate to the stub of
  that line, and vectors from 48 up have none.  When a line goes into service and its stub passes that
  vector, \<open>irq_handler\<close> runs exactly the handler registered for the line (none, if there is none), and at the
  end neither controller has the line in service any more, so that the next interrupt can come.
\<close>

theorem interrupts_reach_handlers:
  fixes hs :: "'w handler option list" and ps :: pic_pair and isr stub :: "nat \<Rightarrow> u32" and base :: u32 and t0 :: idt_table
  assumes "n < 16" "length hs = 16"
  defines "qs \<equiv> pic_init pic_ports ps" and "t \<equiv> snd (irq_init stub (idt_init isr base t0) :: 'w handler option list \<times> idt_table)"
  assumes "r_int_no regs = of_nat (vector_of qs n)"
  shows "(\<forall>k < 32. gate (isr k) 0x8E (idt t ! k)) \<and> (\<forall>k < 16. gate (stub k) 0x8E (idt t ! vector_of qs k)) \<and>
    (\<forall>k. 48 \<le> k \<and> k < 256 \<longrightarrow> idt t ! k = no_gate) \<and> (\<forall>k < 16. masked qs k = masked ps k) \<and>
    irq_handler pic_ports hs regs (w, serve n qs) =
      (case hs ! n of Some h \<Rightarrow> (fst (h regs w), snd (h regs w), qs) | None \<Rightarrow> (regs, w, qs))"
proof -
  obtain m s where ps: "ps = (m, s)" by (cases ps)
  have v: "vector_of qs k = 32 + k" for k by (simp add: qs_def ps pic_init_pair vector_of_def)
  note g = gates_up [where ?'w = 'w, of stub isr base t0, folded t_def]
  have int: "r_int_no regs = of_nat (32 + n)" using assms(5) v by simp
  have eoi: "pic_send_eoi pic_ports (of_nat n) (serve n qs) = qs"
    using assms(1) by (intro eoi_ends_service) (simp_all add: qs_def ps pic_init_pair)
  have "irq_handler pic_ports hs regs (w, serve n qs) =
      (case hs ! n of Some h \<Rightarrow> (fst (h regs w), snd (h regs w), qs) | None \<Rightarrow> (regs, w, qs))"
    unfolding irq_handler_def Let_def int irq_number [OF assms(1)]
    using irq_number(3) [OF assms(1)] by (simp add: eoi split: option.splits prod.splits)
  moreover have "masked qs k = masked ps k" for k by (simp add: qs_def ps pic_init_pair masked_def)
  ultimately show ?thesis using g v by simp
qed

theorem interrupts_reach_handlers_witness:
  "irq_handler pic_ports (Some (\<lambda>r w. (r, Suc w)) # replicate 15 None)
     \<lparr>r_edi = 0, r_esi = 0, r_ebp = 0, r_esp_dummy = 0, r_ebx = 0, r_edx = 0, r_ecx = 0, r_eax = 0, r_int_no = 32,
       r_err_code = 0, r_eip = 0, r_cs = 8, r_eflags = 0\<rparr>
     (4, serve 0 (pic_init pic_ports (\<lparr>imr = 0, vector_base = 8, in_service = 0, cascade = 0, pic_mode = 0, icw = 0\<rparr>,
       \<lparr>imr = 0, vector_base = 0x70, in_service = 0, cascade = 0, pic_mode = 0, icw = 0\<rparr>))) =
   (\<lparr>r_edi = 0, r_esi = 0, r_ebp = 0, r_esp_dummy = 0, r_ebx = 0, r_edx = 0, r_ecx = 0, r_eax = 0, r_int_no = 32,
       r_err_code = 0, r_eip = 0, r_cs = 8, r_eflags = 0\<rparr>, 5,
     pic_init pic_ports (\<lparr>imr = 0, vector_base = 8, in_service = 0, cascade = 0, pic_mode = 0, icw = 0\<rparr>,
       \<lparr>imr = 0, vector_base = 0x70, in_service = 0, cascade = 0, pic_mode = 0, icw = 0\<rparr>))"
  by (subst interrupts_reach_handlers [THEN conjunct2, THEN conjunct2, THEN conjunct2, THEN conjunct2])
    (simp_all add: pic_init_pair vector_of_def)

text \<open>The timer's interrupt counts a tick and lets the scheduler run, and ends its service.\<close>

lemma timer_interrupt:
  assumes "in_service (fst qs) = 0" "in_service (snd qs) = 0" "r_int_no regs = 32" "length hs = 16"
  shows "irq_handler pic_ports (irq_register 0 (Some timer_irq_handler) hs) regs ((t, s), serve 0 qs) =
    (fst (sched_tick regs s), (timer_tick_increment t, snd (sched_tick regs s)), qs)"
  using eoi_ends_service [of 0 qs] assms
  by (simp add: irq_handler_def irq_register_def timer_irq_handler_def timer_tick_increment_def Let_def split: prod.splits)

text \<open>The report of an exception always comes to its end.\<close>

lemma isr_reports: "isr_handler regs c \<noteq> None"
  by (simp add: isr_handler_def Let_def kprintf_def)

end
