(* ===== verification/Machine.thy ===== *)
theory Machine
  imports Ata Console Bytes "HOL-Library.Monad_Syntax"
begin

text \<open>
  The serial port (\<^verbatim>\<open>kernel/serial.c\<close>), the panic screen (\<^verbatim>\<open>kernel/panic.c\<close>), the task state segment and the
  descriptors of user mode (\<^verbatim>\<open>kernel/tss.c\<close>, \<^verbatim>\<open>kernel/userspace.c\<close>).  The ports are a parameter as in \<open>Ata\<close>;
  \<open>uart_ports\<close> is a 16550 with its divisor latch and a transmitter that takes any time to become empty.  The
  global descriptor table lies in memory where \<^verbatim>\<open>sgdt\<close> says.
\<close>

unbundle bit_operations_syntax

subsection \<open>The serial port\<close>

definition COM1_BASE :: u16 where "COM1_BASE = 0x3F8"
definition COM1_DATA :: u16 where "COM1_DATA = COM1_BASE + 0"
definition COM1_IER :: u16 where "COM1_IER = COM1_BASE + 1"
definition COM1_FCR :: u16 where "COM1_FCR = COM1_BASE + 2"
definition COM1_LCR :: u16 where "COM1_LCR = COM1_BASE + 3"
definition COM1_MCR :: u16 where "COM1_MCR = COM1_BASE + 4"
definition COM1_LSR :: u16 where "COM1_LSR = COM1_BASE + 5"
definition LCR_8N1 :: u8 where "LCR_8N1 = 0x03"
definition LCR_DLAB :: u8 where "LCR_DLAB = 0x80"
definition MCR_DTR_RTS :: u8 where "MCR_DTR_RTS = 0x03"
definition FCR_ENABLE :: u8 where "FCR_ENABLE = 0xC7"
definition LSR_THRE :: u8 where "LSR_THRE = 0x20"

lemmas com1 = COM1_BASE_def COM1_DATA_def COM1_IER_def COM1_FCR_def COM1_LCR_def COM1_MCR_def COM1_LSR_def
  LCR_8N1_def LCR_DLAB_def MCR_DTR_RTS_def FCR_ENABLE_def LSR_THRE_def

definition serial_transmit_empty :: "'d ports \<Rightarrow> 'd \<Rightarrow> bool \<times> 'd" where
  "serial_transmit_empty P d = (let (v, d) = p_inb P COM1_LSR d in (v AND LSR_THRE \<noteq> 0, d))"

definition serial_init :: "'d ports \<Rightarrow> 'd \<Rightarrow> 'd" where
  "serial_init P d =
     (let d = p_outb P COM1_IER 0x00 d;
          d = p_outb P COM1_LCR LCR_DLAB d;
          d = p_outb P (COM1_BASE + 0) 0x01 d;
          d = p_outb P (COM1_BASE + 1) 0x00 d;
          d = p_outb P COM1_LCR LCR_8N1 d;
          d = p_outb P COM1_FCR FCR_ENABLE d
      in p_outb P COM1_MCR MCR_DTR_RTS d)"

partial_function (option) serial_putchar :: "'d ports \<Rightarrow> u8 \<Rightarrow> 'd \<Rightarrow> 'd option" where
  "serial_putchar P c d =
     (let (empty, d) = serial_transmit_empty P d
      in if empty then Some (p_outb P COM1_DATA c d) else serial_putchar P c d)"

fun serial_print :: "'d ports \<Rightarrow> cstr \<Rightarrow> 'd \<Rightarrow> 'd option" where
  "serial_print P [] d = Some d"
| "serial_print P (c # s) d =
     Option.bind (if c = 10 then serial_putchar P 13 d else Some d)
       (\<lambda>d. Option.bind (serial_putchar P c d) (serial_print P s))"

subsection \<open>The panic screen\<close>

definition panic_banner :: "cstr list" where
  "panic_banner = map lit
     ['' +-------------------------------------------------+'',
      '' |              baSic_  KERNEL  PANIC              |'',
      '' +-------------------------------------------------+'']"

text \<open>The screen and the serial port when the machine halts.\<close>

definition kpanic :: "'d ports \<Rightarrow> cstr \<Rightarrow> u32 \<Rightarrow> cstr \<Rightarrow> vga \<times> 'd \<Rightarrow> (vga \<times> 'd) option" where
  "kpanic P file line text = (\<lambda>(v, d).
     let nl = vga_putchar 10;
         v = vga_clear (vga_set_color 15 4 v);
         v = fold (\<lambda>b v. nl (vga_print b v)) panic_banner v;
         v = nl v;
         v = nl (vga_print text (vga_print (lit '' message : '') v));
         v = nl (vga_print file (vga_print (lit '' file    : '') v));
         v = nl (vga_print_dec line (vga_print (lit '' line    : '') v));
         v = vga_print (lit '' system halted. reset to continue.'') (nl v)
     in do {
       d \<leftarrow> serial_print P (10 # lit ''[PANIC] '') d;
       d \<leftarrow> serial_print P text d;
       d \<leftarrow> serial_print P (10 # lit ''  file: '') d;
       d \<leftarrow> serial_print P file d;
       d \<leftarrow> serial_print P [10] d;
       Some (v, d)
     })"

subsection \<open>Descriptors\<close>

text \<open>\<open>gdt_set_entry\<close> (both files have it): \<open>gdtr\<close> is the base address \<^verbatim>\<open>sgdt\<close> stores.\<close>

definition gdt_set_entry :: "u32 \<Rightarrow> u32 \<Rightarrow> u32 \<Rightarrow> u32 \<Rightarrow> u8 \<Rightarrow> u8 \<Rightarrow> mem \<Rightarrow> mem" where
  "gdt_set_entry gdtr slot base limit access granularity m =
     (let e = gdtr + slot * 8 in
      m(e := ucast (limit AND 0xFF), e + 1 := ucast (drop_bit 8 limit AND 0xFF), e + 2 := ucast (base AND 0xFF),
        e + 3 := ucast (drop_bit 8 base AND 0xFF), e + 4 := ucast (drop_bit 16 base AND 0xFF), e + 5 := access,
        e + 6 := ucast (drop_bit 16 limit AND 0x0F OR ucast granularity AND 0xF0), e + 7 := ucast (drop_bit 24 base AND 0xFF)))"

record tss =
  t_prev :: u32
  t_esp0 :: u32
  t_ss0 :: u32
  t_esp1 :: u32
  t_ss1 :: u32
  t_esp2 :: u32
  t_ss2 :: u32
  t_cr3 :: u32
  t_eip :: u32
  t_eflags :: u32
  t_eax :: u32
  t_ecx :: u32
  t_edx :: u32
  t_ebx :: u32
  t_esp :: u32
  t_ebp :: u32
  t_esi :: u32
  t_edi :: u32
  t_es :: u32
  t_cs :: u32
  t_ss :: u32
  t_ds :: u32
  t_fs :: u32
  t_gs :: u32
  t_ldt :: u32
  t_trap :: u16
  iomap_base :: u16

definition SIZEOF_TSS :: u32 where "SIZEOF_TSS = 104"

definition zero_tss :: tss where
  "zero_tss = \<lparr>t_prev = 0, t_esp0 = 0, t_ss0 = 0, t_esp1 = 0, t_ss1 = 0, t_esp2 = 0, t_ss2 = 0, t_cr3 = 0, t_eip = 0,
     t_eflags = 0, t_eax = 0, t_ecx = 0, t_edx = 0, t_ebx = 0, t_esp = 0, t_ebp = 0, t_esi = 0, t_edi = 0, t_es = 0,
     t_cs = 0, t_ss = 0, t_ds = 0, t_fs = 0, t_gs = 0, t_ldt = 0, t_trap = 0, iomap_base = 0\<rparr>"

text \<open>\<open>at\<close> is the address of the segment; the result has the selector loaded to the task register.\<close>

definition tss_init :: "u32 \<Rightarrow> u32 \<Rightarrow> mem \<Rightarrow> tss \<times> mem \<times> u16" where
  "tss_init gdtr at m =
     (zero_tss\<lparr>t_ss0 := 0x10, t_esp0 := 0x9F000, iomap_base := ucast SIZEOF_TSS\<rparr>,
      gdt_set_entry gdtr 3 at (SIZEOF_TSS - 1) 0x89 0x00 m, 0x18)"

definition tss_set_kernel_stack :: "u32 \<Rightarrow> tss \<Rightarrow> tss" where
  "tss_set_kernel_stack esp0 t = t\<lparr>t_esp0 := esp0\<rparr>"

definition USER_CODE_SEL :: u16 where "USER_CODE_SEL = 0x23"
definition USER_DATA_SEL :: u16 where "USER_DATA_SEL = 0x2B"

definition userspace_init_gdt :: "u32 \<Rightarrow> mem \<Rightarrow> mem" where
  "userspace_init_gdt gdtr m =
     gdt_set_entry gdtr 5 0 0xFFFFF 0xF2 0xCF (gdt_set_entry gdtr 4 0 0xFFFFF 0xFA 0xCF m)"

text \<open>What \<^verbatim>\<open>iret\<close> pops and the data segments are loaded with.\<close>

record user_state =
  us_eip :: u32
  us_cs :: u16
  us_eflags :: u32
  us_esp :: u32
  us_ss :: u16
  us_data :: u16

definition userspace_enter :: "u32 \<Rightarrow> u32 \<Rightarrow> u32 \<Rightarrow> tss \<Rightarrow> user_state \<times> tss" where
  "userspace_enter entry user_stack eflags t =
     (\<lparr>us_eip = entry, us_cs = USER_CODE_SEL, us_eflags = eflags OR 0x200, us_esp = user_stack, us_ss = USER_DATA_SEL,
       us_data = USER_DATA_SEL\<rparr>, tss_set_kernel_stack 0x9F000 t)"

subsection \<open>The port as hardware\<close>

record uart =
  u_dlab :: bool
  u_divisor :: u16
  u_line :: u8
  u_busy :: nat
  u_delays :: "nat list"
  u_sent :: "u8 list"

text \<open>A byte sent makes the transmitter busy for the next number of polls of \<open>u_delays\<close>.\<close>

definition uart_out :: "u16 \<Rightarrow> u8 \<Rightarrow> uart \<Rightarrow> uart" where
  "uart_out port v u =
     (if port = 0x3FB then u\<lparr>u_dlab := bit v 7, u_line := v\<rparr>
      else if port = 0x3F8 then
        (if u_dlab u then u\<lparr>u_divisor := (u_divisor u AND 0xFF00) OR ucast v\<rparr>
         else u\<lparr>u_sent := u_sent u @ [v], u_busy := (if u_delays u = [] then 0 else hd (u_delays u)), u_delays := tl (u_delays u)\<rparr>)
      else if port = 0x3F9 \<and> u_dlab u then u\<lparr>u_divisor := (u_divisor u AND 0x00FF) OR push_bit 8 (ucast v)\<rparr>
      else u)"

definition uart_in :: "u16 \<Rightarrow> uart \<Rightarrow> u8 \<times> uart" where
  "uart_in port u =
     (if port = 0x3FD then (if u_busy u = 0 then (0x60, u) else (0, u\<lparr>u_busy := u_busy u - 1\<rparr>)) else (0, u))"

definition uart_ports :: "uart ports" where
  "uart_ports = \<lparr>p_inb = uart_in, p_outb = uart_out, p_inw = (\<lambda>_ d. (0, d)), p_outw = (\<lambda>_ _ d. d)\<rparr>"

definition crlf :: "cstr \<Rightarrow> cstr" where
  "crlf s = concat (map (\<lambda>c. if c = 10 then [13, 10] else [c]) s)"

lemma serial_init_uart:
  "\<not> u_dlab (serial_init uart_ports u) \<and> u_divisor (serial_init uart_ports u) = 1 \<and>
    u_line (serial_init uart_ports u) = LCR_8N1 \<and> u_sent (serial_init uart_ports u) = u_sent u"
proof -
  have b: "bit (0x80 :: u8) 7" "\<not> bit (3 :: u8) 7" by (simp_all add: bit_numeral_rec)
  have d: "((v AND 0xFF00) OR 1) AND 0x00FF = (1 :: u16)" for v
    by (simp add: bit.conj_disj_distrib2 and.assoc)
  show ?thesis
    using d by (simp add: serial_init_def uart_ports_def uart_out_def com1 b Let_def)
qed

lemma putchar_waits:
  "\<not> u_dlab u \<Longrightarrow> \<exists>t. serial_putchar uart_ports c u = Some t \<and> u_sent t = u_sent u @ [c] \<and> \<not> u_dlab t \<and>
     u_divisor t = u_divisor u \<and> u_line t = u_line u"
proof (induction "u_busy u" arbitrary: u)
  case 0
  then show ?case
    by (subst serial_putchar.simps) (simp add: serial_transmit_empty_def uart_ports_def uart_in_def uart_out_def com1)
next
  case (Suc n)
  then show ?case
    using Suc(1) [of "u\<lparr>u_busy := n\<rparr>"]
    by (subst serial_putchar.simps) (simp add: serial_transmit_empty_def uart_ports_def uart_in_def com1 Suc(2) [symmetric])
qed

lemma serial_stream:
  "\<not> u_dlab u \<Longrightarrow> \<exists>t. serial_print uart_ports s u = Some t \<and> u_sent t = u_sent u @ crlf s \<and> \<not> u_dlab t \<and>
     u_divisor t = u_divisor u \<and> u_line t = u_line u"
proof (induction s arbitrary: u)
  case (Cons c s)
  obtain v where v: "(if c = 10 then serial_putchar uart_ports 13 u else Some u) = Some v" "\<not> u_dlab v"
    "u_sent v = u_sent u @ (if c = 10 then [13] else [])" "u_divisor v = u_divisor u" "u_line v = u_line u"
    using putchar_waits [OF Cons(2), of 13] Cons(2) by (cases "c = 10") auto
  obtain w where w: "serial_putchar uart_ports c v = Some w" "u_sent w = u_sent v @ [c]" "\<not> u_dlab w"
    "u_divisor w = u_divisor v" "u_line w = u_line v"
    using putchar_waits [OF v(2)] by blast
  from Cons(1) [OF w(3)] show ?case using v w by (auto simp: crlf_def)
qed (simp add: crlf_def)



text \<open>A panic always gets its message out, and leaves the screen red.\<close>

lemma kpanic_ends:
  "\<not> u_dlab u \<Longrightarrow> \<exists>v' u'. kpanic uart_ports file line text (v, u) = Some (v', u') \<and>
     u_sent u' = u_sent u @ crlf (10 # lit ''[PANIC] '' @ text @ 10 # lit ''  file: '' @ file @ [10])"
proof -
  assume u: "\<not> u_dlab u"
  have app: "crlf (a @ b) = crlf a @ crlf b" for a b by (simp add: crlf_def)
  obtain a where a: "serial_print uart_ports (10 # lit ''[PANIC] '') u = Some a" "\<not> u_dlab a"
    "u_sent a = u_sent u @ crlf (10 # lit ''[PANIC] '')" using serial_stream [OF u] by blast
  obtain b where b: "serial_print uart_ports text a = Some b" "\<not> u_dlab b" "u_sent b = u_sent a @ crlf text"
    using serial_stream [OF a(2)] by blast
  obtain c where c: "serial_print uart_ports (10 # lit ''  file: '') b = Some c" "\<not> u_dlab c"
    "u_sent c = u_sent b @ crlf (10 # lit ''  file: '')" using serial_stream [OF b(2)] by blast
  obtain d where d: "serial_print uart_ports file c = Some d" "\<not> u_dlab d" "u_sent d = u_sent c @ crlf file"
    using serial_stream [OF c(2)] by blast
  obtain e where e: "serial_print uart_ports [10] d = Some e" "u_sent e = u_sent d @ crlf [10]"
    using serial_stream [OF d(2)] by blast
  have "10 # lit ''[PANIC] '' @ text @ 10 # lit ''  file: '' @ file @ [10] =
      (10 # lit ''[PANIC] '') @ text @ (10 # lit ''  file: '') @ file @ [10]" by simp
  then have "u_sent e = u_sent u @ crlf (10 # lit ''[PANIC] '' @ text @ 10 # lit ''  file: '' @ file @ [10])"
    using a b c d e by (simp only: app append_assoc)
  then show ?thesis using a(1) b(1) c(1) d(1) e(1) by (simp add: kpanic_def Let_def del: serial_print.simps lit_Cons)
qed

subsection \<open>What the descriptors say\<close>

text \<open>The fields as the processor reads them.\<close>

definition desc_base :: "mem \<Rightarrow> u32 \<Rightarrow> u32" where
  "desc_base m e = le32 (m (e + 2)) (m (e + 3)) (m (e + 4)) (m (e + 7))"

definition desc_limit :: "mem \<Rightarrow> u32 \<Rightarrow> u32" where
  "desc_limit m e = le32 (m e) (m (e + 1)) (m (e + 6) AND 0x0F) 0"

definition desc_is :: "mem \<Rightarrow> u32 \<Rightarrow> u32 \<Rightarrow> u32 \<Rightarrow> u8 \<Rightarrow> u8 \<Rightarrow> bool" where
  "desc_is m e base limit access flags \<longleftrightarrow> desc_base m e = base \<and> desc_limit m e = limit \<and> m (e + 5) = access \<and>
     m (e + 6) AND 0xF0 = flags"

lemma masks: "(0xFF :: u32) = mask 8" "(0xF0 :: u8) = mask 8 AND NOT (mask 4)" "(0xF0 :: u32) = mask 8 AND NOT (mask 4)"
  "(0x0F :: u32) = mask 4" "(0x0F :: u8) = mask 4" "(0xFFFFF :: u32) = mask 20"
  by (simp_all add: mask_eq_exp_minus_1)

lemma low_byte: "(ucast (w AND 0xFF) :: u8) = ucast (w :: u32)"
  unfolding masks by (rule bit_word_eqI) (auto simp: bit_simps)

lemma high_nibbles:
  "(ucast (drop_bit 16 (l :: u32) AND 0x0F OR ucast (g :: u8) AND 0xF0) :: u8) AND 0x0F = ucast (drop_bit 16 l AND 0x0F)"
  "(ucast (drop_bit 16 (l :: u32) AND 0x0F OR ucast (g :: u8) AND 0xF0) :: u8) AND 0xF0 = g AND 0xF0"
  unfolding masks by (rule bit_word_eqI; auto simp: bit_simps)+

lemma limit_20:
  "le32 (ucast l) (ucast (drop_bit 8 l)) (ucast (drop_bit 16 l AND 0x0F)) 0 = l AND 0xFFFFF"
  unfolding le32_def masks
proof (rule bit_word_eqI)
  fix n assume "n < LENGTH(32)"
  then show "bit (ucast (ucast l :: u8) OR push_bit 8 (ucast (ucast (drop_bit 8 l) :: u8)) OR
      push_bit 16 (ucast (ucast (drop_bit 16 l AND mask 4) :: u8)) OR push_bit 24 (ucast (0 :: u8)) :: u32) n =
    bit (l AND mask 20) n"
    by (cases "n < 8"; cases "n < 16"; cases "n < 24") (auto simp: bit_simps)
qed

lemma entry_decodes:
  "desc_is (gdt_set_entry g slot base limit access gran m) (g + slot * 8) base (limit AND 0xFFFFF) access (gran AND 0xF0)"
proof -
  define e where "e = g + slot * 8"
  show ?thesis
    unfolding desc_is_def desc_base_def desc_limit_def gdt_set_entry_def Let_def e_def [symmetric] low_byte
    using high_nibbles [of limit gran] limit_20 [of limit] by (simp add: e_def)
qed

lemma entry_other:
  assumes "8 \<le> a - (g + slot * 8)"
  shows "gdt_set_entry g slot base limit access gran m a = m a"
proof -
  define e where "e = g + slot * 8"
  have "a \<noteq> e + i" if "i < 8" for i :: u32 using assms that by (auto simp: e_def)
  from this [of 0] this [of 1] this [of 2] this [of 3] this [of 4] this [of 5] this [of 6] this [of 7]
  show ?thesis by (simp add: gdt_set_entry_def Let_def e_def [symmetric])
qed

lemma desc_local:
  assumes "m' e = m e" "m' (e + 1) = m (e + 1)" "m' (e + 2) = m (e + 2)" "m' (e + 3) = m (e + 3)"
    "m' (e + 4) = m (e + 4)" "m' (e + 5) = m (e + 5)" "m' (e + 6) = m (e + 6)" "m' (e + 7) = m (e + 7)"
  shows "desc_is m' e b l a f = desc_is m e b l a f"
  using assms by (simp add: desc_is_def desc_base_def desc_limit_def)



end
