(* ===== verification/Boot.thy ===== *)
theory Boot
  imports ShRun Syscall Pci Interrupts Machine
begin

text \<open>
  The start of the kernel, \<^verbatim>\<open>kmain\<close> of \<^verbatim>\<open>kernel/main.c\<close>: the initialisations in their order, the process of
  the shell, and the shell.  The second stage has loaded the image, set up flat segments and called \<^verbatim>\<open>kmain\<close>
  with interrupts off; \<open>loaded\<close> is the state then.  Each line the initialisations log is left out.
\<close>

unbundle bit_operations_syntax

subsection \<open>The state of the whole kernel\<close>

text \<open>What interrupt handlers work on: timer and scheduler, keyboard and its controller.\<close>

type_synonym 'k irq_world = "(timer \<times> sched) \<times> keyboard \<times> 'k"

record ('d, 'h, 'p, 'u, 'k, 'c) kernel =
  kn_con :: console
  kn_out :: "(u16 \<times> u8) list" \<comment> \<open>written to the ports of the screen and the timer\<close>
  kn_idt :: idt_table
  kn_irqs :: "'k irq_world handler option list"
  kn_pic :: 'p
  kn_uart :: 'u
  kn_kbc :: 'k
  kn_conf :: 'c
  kn_timer :: timer
  kn_kbd :: keyboard
  kn_vmm :: "pmm vmm"
  kn_mem :: mem
  kn_fs :: "mem fs"
  kn_fdt :: fdt
  kn_tss :: tss
  kn_task :: u16
  kn_sched :: sched
  kn_sigs :: "sig_entry list"
  kn_env :: "env_entry list"
  kn_prof :: "u32 list"
  kn_metas :: "filemeta list"
  kn_dog :: watchdog
  kn_pci :: pci
  kn_net :: "'h e1000 net"
  kn_fat :: "'d disk fat"
  kn_alias :: "alias_entry list"
  kn_path :: "u8 list"
  kn_sti :: bool

text \<open>The board: the ports of its devices, and the addresses the linker and the second stage chose.\<close>

record ('h, 'p, 'u, 'k, 'c) board =
  b_vga_mode :: u8
  b_pic :: "'p ports"
  b_uart :: "'u ports"
  b_kbc_status :: "'k \<Rightarrow> u8 \<times> 'k"
  b_kbc_data :: "'k \<Rightarrow> u8 \<times> 'k"
  b_conf :: "'c pci_ports"
  b_nic :: "'h nic_hw"
  b_layout :: nic_layout
  b_isr :: "nat \<Rightarrow> u32"
  b_irq :: "nat \<Rightarrow> u32"
  b_syscall :: u32
  b_idt_at :: u32
  b_gdtr :: u32
  b_tss_at :: u32

definition MEM_KB :: u32 where "MEM_KB = 32768"

subsection \<open>The initialisations in their order\<close>

text \<open>The handlers of the timer and the keyboard, each on its part of the state.\<close>

definition timer_handler :: "'k irq_world handler" where
  "timer_handler regs w = (let (regs, t) = timer_irq_handler regs (fst w) in (regs, t, snd w))"

definition keyboard_handler :: "('k \<Rightarrow> u8 \<times> 'k) \<Rightarrow> 'k irq_world handler" where
  "keyboard_handler data regs w =
     (case w of (t, kbd, kbc) \<Rightarrow> let (sc, kbc) = data kbc in (regs, t, keyboard_irq_handler sc kbd, kbc))"

definition init_hardware ::
    "('h, 'p, 'u, 'k, 'c) board \<Rightarrow> ('d, 'h, 'p, 'u, 'k, 'c) kernel \<Rightarrow> ('d, 'h, 'p, 'u, 'k, 'c) kernel option" where
  "init_hardware B k =
     (let (out, v) = vga_init (b_vga_mode B) (c_vga (kn_con k));
          k = k\<lparr>kn_con := (kn_con k)\<lparr>c_vga := v\<rparr>, kn_out := kn_out k @ out\<rparr>;
          k = k\<lparr>kn_idt := idt_init (b_isr B) (b_idt_at B) (kn_idt k)\<rparr>;
          k = k\<lparr>kn_pic := pic_init (b_pic B) (kn_pic k)\<rparr>;
          (irqs, t) = irq_init (b_irq B) (kn_idt k);
          k = k\<lparr>kn_irqs := irqs, kn_idt := t\<rparr>
      in do {
        (out, t) \<leftarrow> timer_init 1000 (kn_timer k);
        let k = k\<lparr>kn_timer := t, kn_out := kn_out k @ out, kn_irqs := irq_register 0 (Some timer_handler) (kn_irqs k)\<rparr>;
        (kbd, kbc) \<leftarrow> keyboard_init (b_kbc_status B) (b_kbc_data B) (kn_kbc k);
        let k = k\<lparr>kn_kbd := kbd, kn_kbc := kbc,
                  kn_irqs := irq_register 1 (Some (keyboard_handler (b_kbc_data B))) (kn_irqs k)\<rparr>;
        let k = k\<lparr>kn_uart := serial_init (b_uart B) (kn_uart k)\<rparr>;
        Some (k\<lparr>kn_con := klog_init (kn_con k)\<rparr>)
      })"

definition init_memory ::
    "('d, 'h, 'p, 'u, 'k, 'c) kernel \<Rightarrow> ('d, 'h, 'p, 'u, 'k, 'c) kernel option" where
  "init_memory k =
     (let v = kn_vmm k;
          v = vmm_init (v\<lparr>frames := pmm_init MEM_KB (frames v)\<rparr>);
          fs = kn_fs k;
          fs = vfs_init (fs\<lparr>fs_heap := fst (heap_init (fs_heap fs))\<rparr>)
      in do {
        (root, fs) \<leftarrow> ramfs_init fs;
        Some (k\<lparr>kn_vmm := v, kn_fs := vfs_set_root root fs, kn_fdt := fd_init (kn_fdt k)\<rparr>)
      })"

definition syscall_init :: "u32 \<Rightarrow> idt_table \<Rightarrow> idt_table" where
  "syscall_init stub t = idt_set_gate 0x80 stub 0x08 0xEE t"

definition init_tables ::
    "('h, 'p, 'u, 'k, 'c) board \<Rightarrow> ('d, 'h, 'p, 'u, 'k, 'c) kernel \<Rightarrow> ('d, 'h, 'p, 'u, 'k, 'c) kernel" where
  "init_tables B k =
     (let k = k\<lparr>kn_idt := syscall_init (b_syscall B) (kn_idt k)\<rparr>;
          (tss, m, sel) = tss_init (b_gdtr B) (b_tss_at B) (kn_mem k);
          k = k\<lparr>kn_tss := tss, kn_task := sel, kn_mem := userspace_init_gdt (b_gdtr B) m\<rparr>;
          s = kn_sched k;
          k = k\<lparr>kn_sched := sched_init (s\<lparr>procs := proc_init (procs s)\<rparr>)\<rparr>
      in k\<lparr>kn_sigs := signal_init, kn_env := env_init, kn_prof := prof_init, kn_metas := filemeta_init,
           kn_dog := watchdog_init 30000 (kn_timer k)\<rparr>)"

text \<open>The configuration runs only when a file system was found.\<close>

definition run_boot_config ::
    "('d, 'h, 'p, 'u, 'k, 'c) kernel \<Rightarrow> ('d, 'h, 'p, 'u, 'k, 'c) kernel option" where
  "run_boot_config k = do {
     c \<leftarrow> disksync_run_init \<lparr>cf_fs = kn_fs k, cf_env = kn_env k, alias_table = kn_alias k, boot_path = kn_path k\<rparr>;
     Some (k\<lparr>kn_fs := cf_fs c, kn_env := cf_env c, kn_alias := alias_table c, kn_path := boot_path c\<rparr>)
   }"

definition init_devices ::
    "('h, 'p, 'u, 'k, 'c) board \<Rightarrow> ('d, 'h) host \<Rightarrow> ('d, 'h, 'p, 'u, 'k, 'c) kernel \<Rightarrow> ('d, 'h, 'p, 'u, 'k, 'c) kernel option" where
  "init_devices B H k =
     (let k = k\<lparr>kn_fat := (kn_fat k)\<lparr>store := disk_init (h_ports H) (store (kn_fat k))\<rparr>\<rparr>;
          (_, pci, c) = pci_init (b_conf B) (kn_conf k);
          (_, c, e, v) = e1000_init (b_conf B) (b_nic B) (b_layout B) pci c (nic (kn_net k)) (kn_vmm k);
          k = k\<lparr>kn_pci := pci, kn_conf := c, kn_vmm := v, kn_net := net_init (h_nic H) ((kn_net k)\<lparr>nic := e\<rparr>)\<rparr>
      in do {
        (found, ft) \<leftarrow> fat12_init (sh_disk H) (kn_fat k);
        let k = k\<lparr>kn_fat := ft\<rparr>;
        if found then run_boot_config k else Some k
      })"

definition start_shell_process ::
    "('d, 'h, 'p, 'u, 'k, 'c) kernel \<Rightarrow> ('d, 'h, 'p, 'u, 'k, 'c) kernel" where
  "start_shell_process k =
     (let s = kn_sched k;
          (i, t) = proc_create (lit ''shell'') 0 (procs s);
          t = (case i of None \<Rightarrow> t
               | Some i \<Rightarrow> (let t = upd_proc i (\<lambda>p. p\<lparr>p_state := PROC_RUNNING\<rparr>) t
                           in proc_set_current (pid (proc_table t ! i)) t))
      in k\<lparr>kn_sched := sched_start (s\<lparr>procs := t\<rparr>), kn_sti := True\<rparr>)"

definition start_kernel ::
    "('h, 'p, 'u, 'k, 'c) board \<Rightarrow> ('d, 'h) host \<Rightarrow> ('d, 'h, 'p, 'u, 'k, 'c) kernel \<Rightarrow> ('d, 'h, 'p, 'u, 'k, 'c) kernel option" where
  "start_kernel B H k = do {
     k \<leftarrow> init_hardware B k;
     k \<leftarrow> init_memory k;
     k \<leftarrow> init_devices B H (init_tables B k);
     Some (start_shell_process k)
   }"

text \<open>The shell on the kernel that was started; \<open>s\<close> has the shell's own variables and its inputs.\<close>

definition shell_on ::
    "('d, 'h, 'p, 'u, 'k, 'c) kernel \<Rightarrow> ('d, 'h) shell \<Rightarrow> ('d, 'h) shell" where
  "shell_on k s = s\<lparr>sh_sp := \<lparr>sp_mem = kn_mem k, sp_fs = kn_fs k, sp_procs = procs (kn_sched k), sp_fat = kn_fat k\<rparr>,
     sh_con := kn_con k, sh_env := kn_env k, sh_alias := kn_alias k, sh_boot := kn_path k, sh_metas := kn_metas k,
     sh_sigs := kn_sigs k, sh_pmm := frames (kn_vmm k), sh_prof := kn_prof k, sh_net := kn_net k,
     sh_timer := kn_timer k, sh_dog := kn_dog k\<rparr>"

definition kmain ::
    "('h, 'p, 'u, 'k, 'c) board \<Rightarrow> ('d, 'h) host \<Rightarrow> ('d, 'h) shell \<Rightarrow> ('d, 'h, 'p, 'u, 'k, 'c) kernel \<Rightarrow> ('d, 'h) shell option" where
  "kmain B H s k = do {
     k \<leftarrow> start_kernel B H k;
     s \<leftarrow> shell_init H (shell_on k s);
     shell_run H s
   }"

text \<open>The variables as the image has them: \<open>.bss\<close> is zero, and the initialised ones have their initial
  values.  The first kernel is what the memory and the devices hold at that moment; nothing else of it is left.\<close>

definition loaded ::
    "u32 \<Rightarrow> ('d, 'h, 'p, 'u, 'k, 'c) kernel \<Rightarrow> ('d, 'h, 'p, 'u, 'k, 'c) kernel" where
  "loaded pt k = k\<lparr>
     kn_con := \<lparr>c_vga = (c_vga (kn_con k))\<lparr>cursor_x := 0, cursor_y := 0, cur_attr := 0\<rparr>,
       log_buf = replicate KLOG_LINES (replicate KLOG_WIDTH 0), log_head = 0, log_count = 0, kbuf = []\<rparr>,
     kn_out := [], kn_timer := \<lparr>tick_count = 0, ticks_per_ms = 0\<rparr>,
     kn_fs := \<lparr>fs_nodes = (\<lambda>_. None), fs_datas = (\<lambda>_. None), fs_heap = fs_heap (kn_fs k), fs_root = 0, next_inode = 1\<rparr>,
     kn_fdt := \<lparr>fd_table = replicate FD_MAX fd_blank, pipe_pool = replicate PIPE_MAX pipe_init,
       pipe_used = replicate PIPE_MAX False\<rparr>,
     kn_sched := \<lparr>sched_enabled = False, tick_counter = 0,
       procs = \<lparr>proc_table = replicate PROC_MAX proc_zero, next_pid = 1, current_pid = 0, pt_base = pt\<rparr>\<rparr>,
     kn_net := \<lparr>my_mac = replicate 6 0, arp_cache = [], udp_handlers = [], udp_calls = [],
       nic = (nic (kn_net k))\<lparr>mmio_base := 0, nic_mac := replicate 6 0, tx_buf := replicate 8 (replicate 2048 0),
         rx_buf := replicate 8 (replicate 2048 0), tx_tail := 0, rx_tail := 0\<rparr>\<rparr>,
     kn_fat := (kn_fat k)\<lparr>fat12_ready := False, fat_dirty := False, fat_data := replicate 1024 0\<rparr>,
     kn_alias := alias_blank, kn_path := slash # replicate 63 0, kn_sti := False\<rparr>"

definition shell_loaded :: "('d, 'h) shell \<Rightarrow> ('d, 'h) shell" where
  "shell_loaded s = s\<lparr>sh_line := \<lparr>cmd_buf = replicate CMD_BUF_SIZE 0, cmd_len = 0, cursor_pos = 0,
       history = replicate HISTORY_SIZE (replicate CMD_BUF_SIZE 0), history_count = 0, history_idx = -1\<rparr>,
     sh_dirs := \<lparr>cwd = [slash], prev_cwd = [slash]\<rparr>, sh_row := TERM_TOP, sh_off := False\<rparr>"

subsection \<open>The tree of a fresh file system\<close>

text \<open>What the initialisation of the file system leaves in a heap \<open>m\<close>.\<close>

definition fresh_dir :: "string \<Rightarrow> u32 \<Rightarrow> u32 \<Rightarrow> vfs_node" where
  "fresh_dir name data parent = \<lparr>n_name = lit name @ replicate (64 - length name) 0, n_flags = VFS_DIR, n_length = 0,
     n_inode = data, n_parent = parent\<rparr>"

definition fresh_tree :: "mem \<Rightarrow> mem fs" where
  "fresh_tree m = \<lparr>fs_nodes = [0x300010 \<mapsto> fresh_dir ''/'' 0x300080 0, 0x300120 \<mapsto> fresh_dir ''etc'' 0x300190 0x300010,
       0x300230 \<mapsto> fresh_dir ''dev'' 0x3002A0 0x300010,
       0x300340 \<mapsto> \<lparr>n_name = lit ''motd'' @ replicate 60 0, n_flags = VFS_FILE, n_length = 42, n_inode = 0x3003B0, n_parent = 0x300120\<rparr>],
     fs_datas = [0x300080 \<mapsto> \<lparr>d_buf = None, d_capacity = 0, d_children = [0x300120, 0x300230]\<rparr>,
       0x300190 \<mapsto> \<lparr>d_buf = None, d_capacity = 0, d_children = [0x300340]\<rparr>,
       0x3002A0 \<mapsto> \<lparr>d_buf = None, d_capacity = 0, d_children = []\<rparr>,
       0x3003B0 \<mapsto> \<lparr>d_buf = Some (motd_text @ replicate 4054 0), d_capacity = 4096, d_children = []\<rparr>],
     fs_heap = m, fs_root = 0x300010, next_inode = 5\<rparr>"

lemma fresh_heap:
  assumes "heap_ok m [(0xFFFF0, True)]"
  obtains m1 m2 m3 m4 m5 m6 m7 m8 m9 where
    "heap_alloc 92 m = (0x300010, m1)" "heap_alloc 140 m1 = (0x300080, m2)"
    "heap_alloc 92 m2 = (0x300120, m3)" "heap_alloc 140 m3 = (0x300190, m4)"
    "heap_alloc 92 m4 = (0x300230, m5)" "heap_alloc 140 m5 = (0x3002A0, m6)"
    "heap_alloc 92 m6 = (0x300340, m7)" "heap_alloc 140 m7 = (0x3003B0, m8)"
    "heap_alloc 4096 m8 = (0x300450, m9)"
    "heap_ok m9 [(96, False), (144, False), (96, False), (144, False), (96, False), (144, False), (96, False), (144, False), (4096, False), (1043360, True)]"
proof -
  have u: "unat (align8 92) = 96" "unat (align8 140) = 144" "unat (align8 4096) = 4096" by (simp_all add: align8_nat)
  obtain m1 where m1: "heap_alloc 92 m = (0x300010, m1)" "heap_ok m1 [(96, False), (1048448, True)]"
    using heap_alloc_at [OF assms, of 92] by (auto simp: u)
  obtain m2 where m2: "heap_alloc 140 m1 = (0x300080, m2)" "heap_ok m2 [(96, False), (144, False), (1048288, True)]"
    using heap_alloc_at [OF m1(2), of 140] by (auto simp: u)
  obtain m3 where m3: "heap_alloc 92 m2 = (0x300120, m3)" "heap_ok m3 [(96, False), (144, False), (96, False), (1048176, True)]"
    using heap_alloc_at [OF m2(2), of 92] by (auto simp: u)
  obtain m4 where m4: "heap_alloc 140 m3 = (0x300190, m4)"
    "heap_ok m4 [(96, False), (144, False), (96, False), (144, False), (1048016, True)]"
    using heap_alloc_at [OF m3(2), of 140] by (auto simp: u)
  obtain m5 where m5: "heap_alloc 92 m4 = (0x300230, m5)"
    "heap_ok m5 [(96, False), (144, False), (96, False), (144, False), (96, False), (1047904, True)]"
    using heap_alloc_at [OF m4(2), of 92] by (auto simp: u)
  obtain m6 where m6: "heap_alloc 140 m5 = (0x3002A0, m6)"
    "heap_ok m6 [(96, False), (144, False), (96, False), (144, False), (96, False), (144, False), (1047744, True)]"
    using heap_alloc_at [OF m5(2), of 140] by (auto simp: u)
  obtain m7 where m7: "heap_alloc 92 m6 = (0x300340, m7)"
    "heap_ok m7 [(96, False), (144, False), (96, False), (144, False), (96, False), (144, False), (96, False), (1047632, True)]"
    using heap_alloc_at [OF m6(2), of 92] by (auto simp: u)
  obtain m8 where m8: "heap_alloc 140 m7 = (0x3003B0, m8)"
    "heap_ok m8 [(96, False), (144, False), (96, False), (144, False), (96, False), (144, False), (96, False), (144, False), (1047472, True)]"
    using heap_alloc_at [OF m7(2), of 140] by (auto simp: u)
  obtain m9 where m9: "heap_alloc 4096 m8 = (0x300450, m9)"
    "heap_ok m9 [(96, False), (144, False), (96, False), (144, False), (96, False), (144, False), (96, False), (144, False), (4096, False), (1043360, True)]"
    using heap_alloc_at [OF m8(2), of 4096] by (auto simp: u)
  show thesis by (rule that [OF m1(1) m2(1) m3(1) m4(1) m5(1) m6(1) m7(1) m8(1) m9])
qed

lemma length_motd: "length motd_text = 42" by (simp add: motd_text_def)

lemma fresh_tree_made:
  assumes "heap_ok m [(0xFFFF0, True)]"
  shows "\<exists>h. ramfs_init \<lparr>fs_nodes = (\<lambda>_. None), fs_datas = (\<lambda>_. None), fs_heap = m, fs_root = 0, next_inode = 1\<rparr> =
      Some (0x300010, (fresh_tree h)\<lparr>fs_root := 0\<rparr>) \<and> ram_ok (fresh_tree h) \<and> heap_good h"
proof -
  obtain m1 m2 m3 m4 m5 m6 m7 m8 m9 where a:
    "heap_alloc 92 m = (0x300010, m1)" "heap_alloc 140 m1 = (0x300080, m2)"
    "heap_alloc 92 m2 = (0x300120, m3)" "heap_alloc 140 m3 = (0x300190, m4)"
    "heap_alloc 92 m4 = (0x300230, m5)" "heap_alloc 140 m5 = (0x3002A0, m6)"
    "heap_alloc 92 m6 = (0x300340, m7)" "heap_alloc 140 m7 = (0x3003B0, m8)"
    "heap_alloc 4096 m8 = (0x300450, m9)"
    and ok: "heap_ok m9 [(96, False), (144, False), (96, False), (144, False), (96, False), (144, False), (96, False), (144, False), (4096, False), (1043360, True)]"
    by (rule fresh_heap [OF assms])
  have own: "heap_owned m9 = {0x300010, 0x300080, 0x300120, 0x300190, 0x300230, 0x3002A0, 0x300340, 0x3003B0, 0x300450}"
    by (auto simp: heap_owned_def heap_blocks_eq [OF ok])
  have "ram_ok (fresh_tree m9)"
    unfolding fs_ok_def using own
    by (auto simp: fresh_tree_def fresh_dir_def node_ok_def data_ok_def length_motd split: if_splits)
  have o: "overlay (replicate 4096 0) 0 motd_text = motd_text @ replicate 4054 0"
    by (simp add: overlay_0 length_motd)
  have nf: "VFS_DIR AND VFS_FILE = 0" "VFS_FILE AND VFS_FILE = VFS_FILE" "VFS_FILE \<noteq> 0" by (simp_all add: VFS_DIR_def VFS_FILE_def)
  have name: "overlay (replicate 64 0) 0 (strncpy_bytes n 63) = n @ replicate (64 - length n) 0" if "length n < 63" for n :: cstr
  proof -
    have "64 - length n = Suc (63 - length n)" using that by simp
    then show ?thesis using that by (simp add: overlay_0 strncpy_bytes_def del: Suc_diff_le diff_Suc_numeral flip: replicate_append_same)
  qed
  have dir: "make_node n VFS_DIR s = (p, s\<lparr>fs_heap := h2, fs_nodes := (fs_nodes s)(p \<mapsto>
        \<lparr>n_name = n @ replicate (64 - length n) 0, n_flags = VFS_DIR, n_length = 0, n_inode = q, n_parent = 0\<rparr>),
      fs_datas := (fs_datas s)(q \<mapsto> \<lparr>d_buf = None, d_capacity = 0, d_children = []\<rparr>), next_inode := next_inode s + 1\<rparr>)"
    if "heap_alloc 92 (fs_heap s) = (p, h1)" "heap_alloc 140 h1 = (q, h2)" "p \<noteq> 0" "q \<noteq> 0" "length n < 63" for n s p q h1 h2
    using that nf by (simp add: make_node_def make_node_of_def SIZEOF_NODE_def SIZEOF_DATA_def name)
  have mkf: "make_node n VFS_FILE s = (p, s\<lparr>fs_heap := h3, fs_nodes := (fs_nodes s)(p \<mapsto>
        \<lparr>n_name = n @ replicate (64 - length n) 0, n_flags = VFS_FILE, n_length = 0, n_inode = q, n_parent = 0\<rparr>),
      fs_datas := (fs_datas s)(q \<mapsto> \<lparr>d_buf = Some (replicate 4096 0), d_capacity = 4096, d_children = []\<rparr>), next_inode := next_inode s + 1\<rparr>)"
    if "heap_alloc 92 (fs_heap s) = (p, h1)" "heap_alloc 140 h1 = (q, h2)" "heap_alloc 4096 h2 = (r, h3)" "p \<noteq> 0" "q \<noteq> 0" "r \<noteq> 0" "length n < 63" for n s p q r h1 h2 h3
    using that nf by (simp add: make_node_def make_node_of_def SIZEOF_NODE_def SIZEOF_DATA_def RAMFS_MAX_FILESIZE_def name)
  define s0 :: "mem fs" where "s0 = \<lparr>fs_nodes = (\<lambda>_. None), fs_datas = (\<lambda>_. None), fs_heap = m, fs_root = 0, next_inode = 1\<rparr>"
  note defs = s0_def ramfs_mkdir_def ramfs_mkdir_of_def ramfs_mkfile_def ramfs_mkfile_of_def add_child_def node_data_def
  obtain s1 where s1: "make_node [slash] VFS_DIR s0 = (0x300010, s1)" "s1 = s0\<lparr>fs_heap := m2, fs_nodes := [0x300010 \<mapsto> fresh_dir ''/'' 0x300080 0],
      fs_datas := [0x300080 \<mapsto> \<lparr>d_buf = None, d_capacity = 0, d_children = []\<rparr>], next_inode := 2\<rparr>"
    using dir [of s0, OF _ a(2)] a(1) by (simp add: s0_def fresh_dir_def)
  obtain s2 where s2: "ramfs_mkdir 0x300010 (lit ''etc'') s1 = (0x300120, s2)"
    "s2 = s1\<lparr>fs_heap := m4, fs_nodes := (fs_nodes s1)(0x300120 \<mapsto> fresh_dir ''etc'' 0x300190 0x300010),
      fs_datas := [0x300190 \<mapsto> \<lparr>d_buf = None, d_capacity = 0, d_children = []\<rparr>,
        0x300080 \<mapsto> \<lparr>d_buf = None, d_capacity = 0, d_children = [0x300120]\<rparr>], next_inode := 3\<rparr>"
    using dir [of s1, OF _ a(4)] a(3) by (simp add: s1 defs fresh_dir_def flip: make_node_def)
  obtain s3 where s3: "ramfs_mkdir 0x300010 (lit ''dev'') s2 = (0x300230, s3)"
    "s3 = s2\<lparr>fs_heap := m6, fs_nodes := (fs_nodes s2)(0x300230 \<mapsto> fresh_dir ''dev'' 0x3002A0 0x300010),
      fs_datas := (fs_datas s2)(0x3002A0 \<mapsto> \<lparr>d_buf = None, d_capacity = 0, d_children = []\<rparr>,
        0x300080 \<mapsto> \<lparr>d_buf = None, d_capacity = 0, d_children = [0x300120, 0x300230]\<rparr>), next_inode := 4\<rparr>"
    using dir [of s2, OF _ a(6)] a(5) by (simp add: s2 s1 defs fresh_dir_def flip: make_node_def)
  obtain s4 where s4: "ramfs_mkfile 0x300120 (lit ''motd'') s3 = (0x300340, s4)"
    "s4 = s3\<lparr>fs_heap := m9, fs_nodes := (fs_nodes s3)(0x300340 \<mapsto> \<lparr>n_name = lit ''motd'' @ replicate 60 0,
        n_flags = VFS_FILE, n_length = 0, n_inode = 0x3003B0, n_parent = 0x300120\<rparr>),
      fs_datas := (fs_datas s3)(0x3003B0 \<mapsto> \<lparr>d_buf = Some (replicate 4096 0), d_capacity = 4096, d_children = []\<rparr>,
        0x300190 \<mapsto> \<lparr>d_buf = None, d_capacity = 0, d_children = [0x300340]\<rparr>), next_inode := 5\<rparr>"
    using mkf [of s3, OF _ a(8,9)] a(7) by (simp add: s3 s2 s1 defs fresh_dir_def flip: make_node_def)
  have w: "vfs_write s4 0x300340 0 motd_text = Some (42, (fresh_tree m9)\<lparr>fs_root := 0\<rparr>)"
    by (simp add: vfs_write_def ramfs_write_def node_data_def s4(2) s3(2) s2(2) s1(2) s0_def length_motd o fresh_tree_def fun_eq_iff)
  have "ramfs_init s0 = Some (0x300010, (fresh_tree m9)\<lparr>fs_root := 0\<rparr>)"
    using s1(1) s2(1) s3(1) s4(1) w
    by (simp add: ramfs_init_def ramfs_init_of_def flip: make_node_def ramfs_mkdir_def ramfs_mkfile_def)
  then show ?thesis using ok heap_goodI [OF ok] \<open>ram_ok (fresh_tree m9)\<close> s0_def by blast
qed

subsection \<open>The first stage\<close>

lemma irq_slots:
  fixes a b :: "'a handler option"
  shows "irq_register 1 b (irq_register 0 a (replicate 16 None)) = a # b # replicate 14 None"
proof -
  have "replicate 16 (None :: 'a handler option) = None # None # replicate 14 None" by (simp add: numeral_eq_Suc)
  then show ?thesis by (simp add: irq_register_def)
qed

lemma hardware_up:
  fixes B :: "('h, 'p, 'u, 'k, 'c) board" and k :: "('d, 'h, 'p, 'u, 'k, 'c) kernel"
  assumes "keyboard_init (b_kbc_status B) (b_kbc_data B) (kn_kbc k) = Some (kbd, kbc)"
  shows "\<exists>k'. init_hardware B k = Some k' \<and> length (idt (kn_idt k')) = 256 \<and>
    (\<forall>n < 32. gate (b_isr B n) 0x8E (idt (kn_idt k') ! n)) \<and> (\<forall>n < 16. gate (b_irq B n) 0x8E (idt (kn_idt k') ! (32 + n))) \<and>
    (\<forall>n. 48 \<le> n \<and> n < 256 \<longrightarrow> idt (kn_idt k') ! n = no_gate) \<and>
    kn_irqs k' = Some timer_handler # Some (keyboard_handler (b_kbc_data B)) # replicate 14 None \<and>
    vga_ok (c_vga (kn_con k')) \<and> kn_timer k' = (kn_timer k)\<lparr>ticks_per_ms := 1\<rparr> \<and> kn_kbd k' = kbd \<and>
    kn_vmm k' = kn_vmm k \<and> kn_fs k' = kn_fs k \<and> kn_fdt k' = kn_fdt k \<and> kn_mem k' = kn_mem k \<and>
    kn_sched k' = kn_sched k \<and> kn_net k' = kn_net k \<and> kn_fat k' = kn_fat k \<and> kn_alias k' = kn_alias k \<and>
    kn_path k' = kn_path k \<and> kn_conf k' = kn_conf k"
proof -
  obtain out v where v: "vga_init (b_vga_mode B) (c_vga (kn_con k)) = (out, v)" "vga_ok v"
    using vga_clear_ok by (simp add: vga_init_def)
  obtain hs t where t: "irq_init (b_irq B) (idt_init (b_isr B) (b_idt_at B) (kn_idt k)) = (hs, t)"
    "hs = replicate 16 (None :: 'k irq_world handler option)"
    by (simp add: irq_init_def)
  note g = gates_up [where ?'w = "'k irq_world", of "b_irq B" "b_isr B" "b_idt_at B" "kn_idt k", unfolded t(1) snd_conv]
  obtain out' where i: "timer_init 1000 (kn_timer k) = Some (out', (kn_timer k)\<lparr>ticks_per_ms := 1\<rparr>)"
    by (simp add: timer_init_def Let_def)
  show ?thesis
    using v g assms
    by (simp add: init_hardware_def Let_def t i irq_slots klog_init_def)
qed

subsection \<open>Memory\<close>

definition identity :: "pmm vmm \<Rightarrow> bool" where
  "identity v \<longleftrightarrow> vm_ok v \<and> paging v \<and> (\<forall>w. unat w < 0x800000 \<longrightarrow> translate v w = Some w) \<and>
     (\<forall>w p. translate v w = Some p \<longrightarrow> p = w)"

lemma memory_ready: "pmm_inv (pmm_init MEM_KB s)" "2 \<le> card (free_set (pmm_init MEM_KB s))"
proof -
  have t: "unat (total_frames (pmm_init MEM_KB s)) = 8192"
    using pmm_init_sets(1) [of MEM_KB s] by (simp add: MEM_KB_def PMM_FRAME_SIZE_def)
  then have f: "free_set (pmm_init MEM_KB s) = {512..<8192}" using pmm_init_sets(2) [of MEM_KB s] by simp
  then have "0 \<notin> free_set (pmm_init MEM_KB s)" by simp
  then show "pmm_inv (pmm_init MEM_KB s)" using pmm_init_sets(3) [of MEM_KB s] t by (simp add: pmm_inv_def free_set_def)
  show "2 \<le> card (free_set (pmm_init MEM_KB s))" by (simp add: f)
qed

text \<open>The frames of the heap arena are free for the frame allocator all the same.\<close>

lemma heap_frames_free:
  "{768..<1024} \<subseteq> free_set (pmm_init MEM_KB s) \<and> HEAP_START = of_nat (768 * 4096) \<and> HEAP_SIZE = of_nat (256 * 4096)"
  using pmm_init_sets(1,2) [of MEM_KB s] by (auto simp: MEM_KB_def PMM_FRAME_SIZE_def HEAP_START_def HEAP_SIZE_def)

lemma vmm_up: "identity (vmm_init (v\<lparr>frames := pmm_init MEM_KB s\<rparr>))"
proof -
  let ?v = "vmm_init (v\<lparr>frames := pmm_init MEM_KB s\<rparr>)"
  have "vm_ok ?v \<and> paging ?v \<and> (\<forall>w. translate ?v w = (if unat w < 0x800000 then Some w else None))"
    using memory_ready [of s] by (intro vmm_init_identity) simp_all
  then show ?thesis unfolding identity_def by (metis option.distinct(1) option.inject)
qed

lemma map_one:
  assumes "identity v"
  shows "identity (vmm_map a a 3 v)"
proof (cases "present v (pdi a) \<or> free_set (frames v) \<noteq> {}")
  case True
  have ok: "vm_ok v" using assms by (simp add: identity_def)
  have r: "present v (pdi a) \<or> 0 < card (free_set (frames v))" using True by (simp add: card_gt_0_iff)
  have fl: "(3 :: u32) < 4096" by simp
  note M = frames.map_other_pages [OF ok r fl, of a, folded vmm_map_def]
  have p: "paging (vmm_map a a 3 v) = paging v"
    by (auto simp: vmm_map_def vmm_map_of_def get_table_of_def set_pte_def Let_def split: prod.splits)
  have s: "page_base a OR (w AND 0xFFF) = w" if "same_page w a" for w
    using same_page_base [OF that] low_or_page [of w] by simp
  have t: "translate (vmm_map a a 3 v) w = (if same_page w a then Some w else translate v w)" for w
    using M(1) [of w] s by simp
  show ?thesis unfolding identity_def t p using M(2) assms by (simp add: identity_def)
next
  case False
  then have "vmm_map a a 3 v = v"
    using frames.map_no_memory [of v a a 3] assms by (simp add: identity_def vmm_map_def)
  then show ?thesis using assms by simp
qed

lemma map_mmio_identity: "identity v \<Longrightarrow> identity (map_mmio base n v)"
  by (induction n) (simp_all add: map_one Let_def)

subsection \<open>The process of the shell\<close>

lemma shell_process:
  fixes k :: "('d, 'h, 'p, 'u, 'k, 'c) kernel"
  assumes "procs (kn_sched k) = \<lparr>proc_table = replicate PROC_MAX proc_zero, next_pid = 1, current_pid = 0, pt_base = pt\<rparr>"
  defines "k' \<equiv> start_shell_process k"
  shows "\<exists>p. procs (kn_sched k') = \<lparr>proc_table = p # replicate 15 proc_zero, next_pid = 2, current_pid = 1, pt_base = pt\<rparr> \<and>
      pid p = 1 \<and> p_state p = PROC_RUNNING \<and> cstr_of (p_name p) = lit ''shell''"
    "sched_enabled (kn_sched k')" "proc_ok (procs (kn_sched k'))" "proc_current (procs (kn_sched k')) = Some 0"
proof -
  have f: "find_slot (\<lambda>p. p_state p = PROC_UNUSED) (replicate 16 proc_zero) = Some 0"
    by (simp add: find_slot_Some proc_zero_def)
  have r: "(replicate 16 proc_zero)[0 := q] = q # replicate 15 proc_zero" for q by (simp add: numeral_eq_Suc)
  have n: "cstr_of (overlay (replicate 32 0) 0 (strncpy_bytes (lit ''shell'') 31)) = lit ''shell''" by code_simp
  obtain p where p: "procs (kn_sched k') = \<lparr>proc_table = p # replicate 15 proc_zero, next_pid = 2, current_pid = 1, pt_base = pt\<rparr>"
      "pid p = 1" "p_state p = PROC_RUNNING" "cstr_of (p_name p) = lit ''shell''" "sched_enabled (kn_sched k')"
    unfolding k'_def start_shell_process_def proc_create_def Let_def
    by (simp add: assms(1) f upd_proc_def proc_set_current_def sched_start_def r n [simplified])
  show "\<exists>p. procs (kn_sched k') = \<lparr>proc_table = p # replicate 15 proc_zero, next_pid = 2, current_pid = 1, pt_base = pt\<rparr> \<and>
      pid p = 1 \<and> p_state p = PROC_RUNNING \<and> cstr_of (p_name p) = lit ''shell''" "sched_enabled (kn_sched k')"
    using p by blast+
  show "proc_ok (procs (kn_sched k'))"
    unfolding p(1) proc_ok_def using p(2,3) by (auto simp: nth_Cons' used_def proc_zero_def)
  show "proc_current (procs (kn_sched k')) = Some 0"
    unfolding p(1) using p(2,3) by (simp add: proc_current_def find_slot_Some)
qed

subsection \<open>The boot configuration on the fresh tree\<close>

text \<open>The message it sets is the beginning of the one that is there: the tree stays as it is.\<close>

lemma fresh_motd:
  "vfs_finddir (fresh_tree h) (vfs_root (fresh_tree h)) (lit ''etc'') = 0x300120"
  "vfs_finddir (fresh_tree h) 0x300120 (lit ''motd'') = 0x300340"
  "vfs_write (fresh_tree h) 0x300340 0 (lit ''welcome to baSic_ v1.0'') = Some (22, fresh_tree h)"
  "vfs_read (fresh_tree h) 0x300340 0 127 = Some motd_text"
proof -
  have o: "overlay (motd_text @ replicate 4054 0) 0 (lit ''welcome to baSic_ v1.0'') = motd_text @ replicate 4054 0"
    by (simp add: overlay_0 motd_text_def)
  show "vfs_finddir (fresh_tree h) (vfs_root (fresh_tree h)) (lit ''etc'') = 0x300120"
    "vfs_finddir (fresh_tree h) 0x300120 (lit ''motd'') = 0x300340"
    by (simp_all add: vfs_finddir_def vfs_root_def finddir_children children_def node_data_def node_name_def cstr_of_def
        fresh_tree_def fresh_dir_def)
  show "vfs_write (fresh_tree h) 0x300340 0 (lit ''welcome to baSic_ v1.0'') = Some (22, fresh_tree h)"
    by (simp add: vfs_write_def ramfs_write_def node_data_def fresh_tree_def length_motd fun_upd_idem o del: lit_Cons)
  show "vfs_read (fresh_tree h) 0x300340 0 127 = Some motd_text"
    by (simp add: vfs_read_def ramfs_read_def node_data_def fresh_tree_def length_motd)
qed

lemma config_run:
  assumes "cf_fs c = fresh_tree h"
  shows "disksync_run_init c = Some (c\<lparr>cf_env := snd (env_set (lit ''HOSTNAME'') (lit ''baSic'') (cf_env c)),
    alias_table := alias_set (lit ''ll'') (lit ''ls'') (alias_table c), boot_path := copy_field (boot_path c) [slash] 63\<rparr>)"
proof -
  let ?w = "lit ''welcome to baSic_ v1.0''"
  have "set_motd ?w c = Some (c\<lparr>cf_fs := fresh_tree h\<rparr>)"
    using assms fresh_motd [of h] by (simp add: set_motd_def Let_def del: lit_Cons)
  moreover have "c\<lparr>cf_fs := fresh_tree h\<rparr> = c" by (simp flip: assms)
  ultimately have m: "set_motd ?w c = Some c" by simp
  have l: "lit ''motd=welcome to baSic_ v1.0'' = lit ''motd='' @ ?w"
    "lit ''env=HOSTNAME=baSic'' = lit ''env='' @ lit ''HOSTNAME'' @ 61 # lit ''baSic''"
    "lit ''alias=ll=ls'' = lit ''alias='' @ lit ''ll'' @ 61 # lit ''ls''" "lit ''path=/'' = lit ''path='' @ [slash]"
    by (simp_all add: lit_def)
  have ne: "61 \<notin> set (lit ''HOSTNAME'')" "61 \<notin> set (lit ''ll'')" by (simp_all add: lit_def)
  show ?thesis
    unfolding disksync_run_init_def run_config_def boot_lines l
    by (simp only: config_lines.simps config_line_kinds m option.case split_eq_at [OF ne(1)] split_eq_at [OF ne(2)] prod.case) simp
qed

subsection \<open>Devices\<close>

definition nic_blank :: "ring_card e1000 \<Rightarrow> bool" where
  "nic_blank e \<longleftrightarrow> mmio_base e = 0 \<and> length (nic_mac e) = 6 \<and> length (tx_buf e) = 8 \<and> length (rx_buf e) = 8 \<and>
     (\<forall>b \<in> set (tx_buf e). length b = 2048) \<and> (\<forall>b \<in> set (rx_buf e). length b = 2048)"

lemma nic_up:
  assumes "nic_blank e" "e1000_init P card_hw L pci d e v = (ok, d', e', v')" "identity v"
  shows "length (nic_mac e') = 6 \<and> (mmio_base e' \<noteq> 0 \<longrightarrow> nic_ok e') \<and> identity v'"
proof (cases "pci_find E1000_VENDOR E1000_DEVICE pci")
  case None
  then show ?thesis using assms by (auto simp: e1000_init_def nic_blank_def)
next
  case (Some dev)
  then obtain b where b: "e' = e1000_start card_hw L (e\<lparr>mmio_base := b\<rparr>)" "v' = map_mmio b 32 v"
    using assms(2) by (auto simp: e1000_init_def Let_def split: prod.splits)
  show ?thesis
    using start_card(1,2) [of L "e\<lparr>mmio_base := b\<rparr>"] start_ok [of "e\<lparr>mmio_base := b\<rparr>" L] assms(1,3) map_mmio_identity
    by (auto simp: b nic_blank_def)
qed

lemma devices_up:
  assumes "fat12_init (sh_disk H) ((kn_fat k)\<lparr>store := disk_init (h_ports H) (store (kn_fat k))\<rparr>) = Some (found, ft)"
    and "b_nic B = card_hw" "h_nic H = e1000_driver" "nic_blank (nic (kn_net k))" "identity (kn_vmm k)" "kn_fs k = fresh_tree h"
  shows "\<exists>k'. init_devices B H k = Some k' \<and> kn_fat k' = ft \<and> identity (kn_vmm k') \<and> net_ok (kn_net k') \<and>
    (mmio_base (nic (kn_net k')) \<noteq> 0 \<longrightarrow> eth.stack_ok (kn_net k')) \<and> kn_fs k' = fresh_tree h \<and>
    kn_env k' = (if found then snd (env_set (lit ''HOSTNAME'') (lit ''baSic'') (kn_env k)) else kn_env k) \<and>
    kn_alias k' = (if found then alias_set (lit ''ll'') (lit ''ls'') (kn_alias k) else kn_alias k) \<and>
    kn_path k' = (if found then copy_field (kn_path k) [slash] 63 else kn_path k) \<and>
    kn_idt k' = kn_idt k \<and> kn_irqs k' = kn_irqs k \<and> kn_con k' = kn_con k \<and> kn_timer k' = kn_timer k \<and>
    kn_fdt k' = kn_fdt k \<and> kn_mem k' = kn_mem k \<and> kn_sched k' = kn_sched k \<and> kn_sigs k' = kn_sigs k \<and>
    kn_prof k' = kn_prof k \<and> kn_metas k' = kn_metas k \<and> kn_dog k' = kn_dog k"
proof -
  obtain n pci c where p: "pci_init (b_conf B) (kn_conf k) = (n, pci, c)" by (cases "pci_init (b_conf B) (kn_conf k)")
  obtain ok c' e' v' where e: "e1000_init (b_conf B) card_hw (b_layout B) pci c (nic (kn_net k)) (kn_vmm k) = (ok, c', e', v')"
    by (cases "e1000_init (b_conf B) card_hw (b_layout B) pci c (nic (kn_net k)) (kn_vmm k)")
  note n = nic_up [OF assms(4) e assms(5)]
  let ?net = "net_init e1000_driver ((kn_net k)\<lparr>nic := e'\<rparr>)"
  have net: "net_ok ?net" "nic ?net = e'"
    using n net_ok_init [of e1000_driver "(kn_net k)\<lparr>nic := e'\<rparr>"] by (simp_all add: e1000_driver_def e1000_get_mac_def net_init_def)
  show ?thesis
    using n net assms config_run [of _ h]
    by (auto simp: init_devices_def Let_def p e run_boot_config_def eth.stack_ok_def)
qed

subsection \<open>The shell\<close>

lemma history_lines_ok: "line_ok l \<Longrightarrow> line_ok (history_lines bs l)"
proof (induction bs l rule: history_lines.induct)
  case (1 bs l)
  then show ?case by (subst history_lines.simps) (auto simp: Let_def put_history_line)
qed

lemma shell_up:
  assumes "shell_init H s = Some t" "dirs_ok (sh_dirs s)"
  shows "line_ok (sh_line t) \<and> dirs_ok (sh_dirs t)"
proof -
  let ?l = "(clear_line (sh_line s))\<lparr>history_count := 0, history_idx := -1, history := replicate 32 (replicate 78 0)\<rparr>"
  have l: "line_ok ?l" by (simp add: line_ok_def clear_line_def line_text_def is_cstr_def)
  define u where "u = show_status H (s\<lparr>sh_con := (sh_con s)\<lparr>c_vga := vga_clear (c_vga (sh_con s))\<rparr>, sh_line := ?l, sh_row := TERM_TOP\<rparr>)"
  have u: "sh_dirs u = sh_dirs s" "sh_line u = ?l" by (simp_all add: u_def)
  obtain l ft os where h: "history_load (sh_disk H) ?l (sp_fat (sh_sp u)) = Some (l, ft)"
    and t: "show_prompt (emit os (apply_boot_path H (set_fat ft (u\<lparr>sh_line := l\<rparr>)))) = Some t"
    using assms(1) unfolding shell_init_def Let_def CMD_BUF_SIZE_def HISTORY_SIZE_def u_def [symmetric] u(2)
    by (auto split: option.splits)
  have "line_ok l" using h l history_lines_ok by (auto simp: history_load_def split: option.splits if_splits)
  moreover have "sh_line (apply_boot_path H w) = sh_line w" "dirs_ok (sh_dirs w) \<Longrightarrow> dirs_ok (sh_dirs (apply_boot_path H w))"
    for w :: "('a, 'b) shell"
    by (auto simp: apply_boot_path_def Let_def dirs_ok_def path_ok_def)
  ultimately show ?thesis using t assms(2) u(1) by (auto dest!: prompt_keeps simp: set_fat_def)
qed

subsection \<open>The kernel starts\<close>

text \<open>The state the system calls work on.\<close>

definition syscall_view :: "('d, 'h, 'p, 'u, 'k, 'c) kernel \<Rightarrow> kstate" where
  "syscall_view k = \<lparr>k_mem = kn_mem k, k_fs = kn_fs k, k_fdt = kn_fdt k, k_procs = procs (kn_sched k), k_sigs = kn_sigs k,
     k_env = kn_env k, k_timer = kn_timer k, k_prof = kn_prof k, k_vga = c_vga (kn_con k), usr_brk = USR_HEAP_BASE\<rparr>"

lemma boot_env:
  defines "t \<equiv> snd (env_set (lit ''HOSTNAME'') (lit ''baSic'') env_init)"
  shows "env_ok t" "env_get (lit ''OS'') t = Some (lit ''baSic_'')" "env_get (lit ''HOSTNAME'') t = Some (lit ''baSic'')"
    "env_get (lit ''OS'') env_init = Some (lit ''baSic_'')" "env_get (lit ''HOSTNAME'') env_init = None"
proof -
  show "env_ok t" unfolding t_def by (rule env_set_ok [OF env_init_ok])
  show "env_get (lit ''OS'') t = Some (lit ''baSic_'')" "env_get (lit ''HOSTNAME'') t = Some (lit ''baSic'')"
    unfolding t_def by code_simp+
  show "env_get (lit ''OS'') env_init = Some (lit ''baSic_'')" "env_get (lit ''HOSTNAME'') env_init = None"
    by code_simp+
qed

lemma boot_alias:
  "alias_resolve (lit ''ll'') (alias_set (lit ''ll'') (lit ''ls'') alias_blank) = Some (lit ''ls'')"
  "alias_resolve (lit ''ll'') alias_blank = None"
  by code_simp+

lemma greeting: "motd_out (fresh_tree h) = Some (say_line motd_text VGA_COLOR_LIGHT_GREY)"
proof -
  have "cstr_of motd_text = motd_text" "motd_text \<noteq> []" by (simp_all add: motd_text_def cstr_of_def)
  then show ?thesis using fresh_motd [of h] by (simp add: motd_out_def)
qed

lemma fdt_up: "fd_ok (fd_init \<lparr>fd_table = replicate FD_MAX fd_blank, pipe_pool = replicate PIPE_MAX pipe_init,
       pipe_used = replicate PIPE_MAX False\<rparr>)"
  by (simp add: fd_ok_def fd_init_def fd_blank_def pipe_init_ok)

lemma syscall_gate:
  assumes "length (idt t) = 256"
  shows "gate a 0xEE (idt (syscall_init a t) ! 0x80)" "n \<noteq> 0x80 \<Longrightarrow> idt (syscall_init a t) ! n = idt t ! n"
  using set_gate(2) [OF assms, of a "0xEE" "0x80"] set_gate(3) [OF assms, of n "0x80" a "0x08" "0xEE"]
  by (simp_all add: syscall_init_def)

lemma shell_ready:
  assumes "fat12_read (sh_disk H) HISTORY_FILE 2495 (sp_fat (sh_sp s)) \<noteq> None" "motd_out (sh_fs s) \<noteq> None"
    and "length (cstr_of (sh_boot s)) \<le> 33" "length (sh_cwd s) \<le> 33"
  shows "shell_init H s \<noteq> None"
proof -
  define u where "u = show_status H (s\<lparr>sh_con := (sh_con s)\<lparr>c_vga := vga_clear (c_vga (sh_con s))\<rparr>,
    sh_line := (clear_line (sh_line s))\<lparr>history_count := 0, history_idx := -1, history := replicate HISTORY_SIZE (replicate CMD_BUF_SIZE 0)\<rparr>,
    sh_row := TERM_TOP\<rparr>)"
  have u: "sh_sp u = sh_sp s" "sh_boot u = sh_boot s" "sh_dirs u = sh_dirs s" by (simp_all add: u_def show_status_def set_cells_def Let_def)
  obtain l ft where l: "history_load (sh_disk H) (sh_line u) (sp_fat (sh_sp u)) = Some (l, ft)"
    using assms(1) by (auto simp: history_load_def u split: option.splits)
  define w where "w = apply_boot_path H (set_fat ft (u\<lparr>sh_line := l\<rparr>))"
  have w: "sh_fs w = sh_fs s" "length (sh_cwd w) \<le> 33"
    using assms(3,4) by (auto simp: w_def apply_boot_path_def set_fat_def show_status_def set_cells_def Let_def u)
  have "show_prompt (emit os w) \<noteq> None" for os
    using w(2) prompt_overflow [of "sh_cwd w"]
    by (auto simp: show_prompt_def prompt_redraw_def Let_def split: option.splits)
  then show ?thesis
    using assms(2) w(1) unfolding shell_init_def Let_def u_def [symmetric] l option.case prod.case w_def [symmetric]
    by (auto split: option.splits)
qed

lemma stages:
  fixes B :: "(ring_card, 'p, 'u, 'k, 'c) board" and H :: "('d, ring_card) host"
    and k0 :: "('d, ring_card, 'p, 'u, 'k, 'c) kernel"
  assumes "flush_controller (b_kbc_status B) (b_kbc_data B) (kn_kbc k0) \<noteq> None"
    and "b_nic B = card_hw" "h_nic H = e1000_driver"
    and "fat12_init (sh_disk H) ((kn_fat (loaded pt k0))\<lparr>store := disk_init (h_ports H) (store (kn_fat k0))\<rparr>) = Some (found, ft)"
  shows "\<exists>k h. start_kernel B H (loaded pt k0) = Some (start_shell_process k) \<and> kn_fs k = fresh_tree h \<and> ram_ok (fresh_tree h) \<and>
    (\<forall>n < 32. gate (b_isr B n) 0x8E (idt (kn_idt k) ! n)) \<and> (\<forall>n < 16. gate (b_irq B n) 0x8E (idt (kn_idt k) ! (32 + n))) \<and>
    gate (b_syscall B) 0xEE (idt (kn_idt k) ! 0x80) \<and>
    kn_irqs k = Some timer_handler # Some (keyboard_handler (b_kbc_data B)) # replicate 14 None \<and> vga_ok (c_vga (kn_con k)) \<and>
    identity (kn_vmm k) \<and> fd_ok (kn_fdt k) \<and>
    procs (kn_sched k) = \<lparr>proc_table = replicate PROC_MAX proc_zero, next_pid = 1, current_pid = 0, pt_base = pt\<rparr> \<and>
    kn_sigs k = signal_init \<and> kn_prof k = prof_init \<and> kn_metas k = filemeta_init \<and>
    kn_env k = (if found then snd (env_set (lit ''HOSTNAME'') (lit ''baSic'') env_init) else env_init) \<and>
    kn_alias k = (if found then alias_set (lit ''ll'') (lit ''ls'') alias_blank else alias_blank) \<and>
    cstr_of (kn_path k) = [slash] \<and> kn_fat k = ft \<and> net_ok (kn_net k) \<and>
    (mmio_base (nic (kn_net k)) \<noteq> 0 \<longrightarrow> eth.stack_ok (kn_net k))"
proof -
  obtain kbd kbc where kb: "keyboard_init (b_kbc_status B) (b_kbc_data B) (kn_kbc (loaded pt k0)) = Some (kbd, kbc)"
    using assms(1) by (auto simp: keyboard_init_def loaded_def)
  obtain k1 where k1: "kn_path k1 = kn_path (loaded pt k0)" "init_hardware B (loaded pt k0) = Some k1" "length (idt (kn_idt k1)) = 256"
    "\<forall>n < 32. gate (b_isr B n) 0x8E (idt (kn_idt k1) ! n)" "\<forall>n < 16. gate (b_irq B n) 0x8E (idt (kn_idt k1) ! (32 + n))"
    "kn_irqs k1 = Some timer_handler # Some (keyboard_handler (b_kbc_data B)) # replicate 14 None"
    "vga_ok (c_vga (kn_con k1))" "kn_vmm k1 = kn_vmm (loaded pt k0)" "kn_fs k1 = kn_fs (loaded pt k0)"
    "kn_fdt k1 = kn_fdt (loaded pt k0)" "kn_sched k1 = kn_sched (loaded pt k0)" "kn_net k1 = kn_net (loaded pt k0)"
    "kn_fat k1 = kn_fat (loaded pt k0)" "kn_alias k1 = kn_alias (loaded pt k0)"
    using hardware_up [OF kb] by (elim exE conjE, intro that)
  obtain h where h: "ramfs_init (vfs_init ((kn_fs k1)\<lparr>fs_heap := fst (heap_init (fs_heap (kn_fs k1)))\<rparr>)) =
      Some (0x300010, (fresh_tree h)\<lparr>fs_root := 0\<rparr>)" "ram_ok (fresh_tree h)"
    using fresh_tree_made [of "fst (heap_init (fs_heap (kn_fs k1)))"] heap_init_chain by (auto simp: k1 loaded_def vfs_init_def)
  define k2 where "k2 = k1\<lparr>kn_vmm := vmm_init ((kn_vmm k1)\<lparr>frames := pmm_init MEM_KB (frames (kn_vmm k1))\<rparr>),
    kn_fs := fresh_tree h, kn_fdt := fd_init (kn_fdt k1)\<rparr>"
  have r: "vfs_set_root 0x300010 ((fresh_tree h)\<lparr>fs_root := 0\<rparr>) = fresh_tree h" by (simp add: vfs_set_root_def fresh_tree_def)
  have k2: "init_memory k1 = Some k2" by (simp add: init_memory_def Let_def h(1) r k2_def)
  define k3 where "k3 = init_tables B k2"
  have k3: "kn_vmm k3 = kn_vmm k2" "kn_fs k3 = fresh_tree h" "kn_fdt k3 = kn_fdt k2" "kn_net k3 = kn_net k1" "kn_fat k3 = kn_fat k1"
    "kn_alias k3 = kn_alias k1" "kn_path k3 = kn_path k1" "kn_env k3 = env_init" "kn_sigs k3 = signal_init" "kn_prof k3 = prof_init"
    "kn_metas k3 = filemeta_init" "kn_con k3 = kn_con k1" "kn_irqs k3 = kn_irqs k1"
    "kn_idt k3 = syscall_init (b_syscall B) (kn_idt k1)" "procs (kn_sched k3) = proc_init (procs (kn_sched k1))"
    by (simp_all add: k3_def init_tables_def Let_def k2_def tss_init_def sched_init_def)
  have id: "identity (kn_vmm k3)" unfolding k3(1) by (simp add: k2_def vmm_up)
  have nb: "nic_blank (nic (kn_net k3))" by (simp add: k3 k1 loaded_def nic_blank_def)
  have ft: "fat12_init (sh_disk H) ((kn_fat k3)\<lparr>store := disk_init (h_ports H) (store (kn_fat k3))\<rparr>) = Some (found, ft)"
    using assms(4) by (simp add: k3 k1 loaded_def)
  obtain k4 where k4: "init_devices B H k3 = Some k4" "kn_fat k4 = ft" "identity (kn_vmm k4)" "net_ok (kn_net k4)"
    "mmio_base (nic (kn_net k4)) \<noteq> 0 \<longrightarrow> eth.stack_ok (kn_net k4)" "kn_fs k4 = fresh_tree h"
    "kn_env k4 = (if found then snd (env_set (lit ''HOSTNAME'') (lit ''baSic'') (kn_env k3)) else kn_env k3)"
    "kn_alias k4 = (if found then alias_set (lit ''ll'') (lit ''ls'') (kn_alias k3) else kn_alias k3)"
    "kn_path k4 = (if found then copy_field (kn_path k3) [slash] 63 else kn_path k3)"
    "kn_idt k4 = kn_idt k3" "kn_irqs k4 = kn_irqs k3" "kn_con k4 = kn_con k3" "kn_fdt k4 = kn_fdt k3" "kn_sched k4 = kn_sched k3"
    "kn_sigs k4 = kn_sigs k3" "kn_prof k4 = kn_prof k3" "kn_metas k4 = kn_metas k3"
    using devices_up [OF ft assms(2,3) nb id k3(2)] by blast
  have gates: "(\<forall>n < 32. gate (b_isr B n) 0x8E (idt (kn_idt k4) ! n)) \<and> (\<forall>n < 16. gate (b_irq B n) 0x8E (idt (kn_idt k4) ! (32 + n))) \<and>
     gate (b_syscall B) 0xEE (idt (kn_idt k4) ! 0x80)"
    using k1(4,5) syscall_gate [OF k1(3)] by (simp add: k4 k3)
  have path: "cstr_of (kn_path k4) = [slash]"
    by (simp add: k4 k3 k1(1) loaded_def is_cstr_def) (simp add: cstr_of_def)
  have keep: "kn_irqs k4 = Some timer_handler # Some (keyboard_handler (b_kbc_data B)) # replicate 14 None" "vga_ok (c_vga (kn_con k4))"
    "fd_ok (kn_fdt k4)" "kn_alias k3 = alias_blank"
    "procs (kn_sched k4) = \<lparr>proc_table = replicate PROC_MAX proc_zero, next_pid = 1, current_pid = 0, pt_base = pt\<rparr>"
    using fdt_up k1(7) by (simp_all add: k4 k3 k2_def k1(6,10,11,14) loaded_def proc_init_def del: proc_limits fd_limits)
  have "start_kernel B H (loaded pt k0) = Some (start_shell_process k4)" by (simp add: start_kernel_def k1(2) k2 k4(1) flip: k3_def)
  then show ?thesis using gates path keep h(2) k4 k3 by (intro exI [of _ k4] exI [of _ h]) simp
qed

lemma kmain_held:
  assumes "start_kernel B H k0 = Some k" "kmain B H (shell_loaded s) k0 = Some t"
  shows "dirs_ok (sh_dirs t) \<and> (sh_off t \<or> line_ok (sh_line t))"
proof -
  obtain u where u: "shell_init H (shell_on k (shell_loaded s)) = Some u" "shell_run H u = Some t"
    using assms by (auto simp: kmain_def bind_eq_Some_conv)
  have "dirs_ok (sh_dirs (shell_on k (shell_loaded s)))"
    by (simp add: shell_on_def shell_loaded_def dirs_ok_def path_ok_def)
  then show ?thesis using shell_up [OF u(1)] u(2) loop_ok by (auto simp: shell_run_def)
qed


definition sample_board :: "(ring_card, pic_pair, uart, unit, Pci.config) board" where
  "sample_board = \<lparr>b_vga_mode = 0, b_pic = pic_ports, b_uart = uart_ports, b_kbc_status = (\<lambda>c. (0x1C, c)),
     b_kbc_data = (\<lambda>c. (0, c)), b_conf = config_ports, b_nic = card_hw, b_layout = demo_layout,
     b_isr = (\<lambda>n. of_nat (0x10000 + 16 * n)), b_irq = (\<lambda>n. of_nat (0x11000 + 16 * n)), b_syscall = 0x12000, b_idt_at = 0x20000,
     b_gdtr = 0x7E00, b_tss_at = 0x21000\<rparr>"

text \<open>A card in slot 3 of the bus, and no drive.\<close>

definition sample_image :: "(unit, ring_card, pic_pair, uart, unit, Pci.config) kernel" where
  "sample_image = \<lparr>kn_con = sample_console, kn_out = [], kn_idt = \<lparr>idt = [], idt_limit = 0, idt_base = 0\<rparr>, kn_irqs = [],
     kn_pic = (\<lparr>imr = 0, vector_base = 8, in_service = 0, cascade = 0, pic_mode = 0, icw = 0\<rparr>,
       \<lparr>imr = 0, vector_base = 0x70, in_service = 0, cascade = 0, pic_mode = 0, icw = 0\<rparr>),
     kn_uart = \<lparr>u_dlab = False, u_divisor = 12, u_line = 0, u_busy = 0, u_delays = [], u_sent = []\<rparr>, kn_kbc = (),
     kn_conf = \<lparr>cf_addr = 0, cf_space = (\<lambda>b s f r. if b = 0 \<and> s = 3 \<and> f = 0
       then (if r = 0 then 0x100E8086 else if r = 0x10 then 0xFEB80000 else 0) else 0xFFFFFFFF)\<rparr>,
     kn_timer = \<lparr>tick_count = 0, ticks_per_ms = 0\<rparr>,
     kn_kbd = \<lparr>last_char = 0, shift_held = False, ctrl_held = False, ext_pending = False, last_ext_sc = 0\<rparr>,
     kn_vmm = \<lparr>page_dir = (\<lambda>_. 0), tables = (\<lambda>_ _. 0), frames = \<lparr>bitmap = (\<lambda>_. 0), total_frames = 0, free_frames = 0, bitmap_words = 0\<rparr>, paging = False\<rparr>,
     kn_mem = (\<lambda>_. 0), kn_fs = \<lparr>fs_nodes = (\<lambda>_. None), fs_datas = (\<lambda>_. None), fs_heap = (\<lambda>_. 0), fs_root = 0, next_inode = 0\<rparr>, kn_fdt = \<lparr>fd_table = [], pipe_pool = [], pipe_used = []\<rparr>, kn_tss = zero_tss, kn_task = 0,
     kn_sched = \<lparr>sched_enabled = False, tick_counter = 0, procs = sample_procs\<rparr>, kn_sigs = [], kn_env = [], kn_prof = [], kn_metas = [],
     kn_dog = \<lparr>timeout_ticks = 0, last_kick = 0, wd_enabled = False\<rparr>, kn_pci = \<lparr>pci_devs = [], pci_count = 0\<rparr>,
     kn_net = ready_net, kn_fat = sp_fat (sh_sp sample_shell), kn_alias = [], kn_path = [], kn_sti = False\<rparr>"

lemma no_drive: "fat12_init (sh_disk sample_host) (ft\<lparr>store := disk_init (h_ports sample_host) dk\<rparr>) =
    Some (False, ft\<lparr>store := disk_init (h_ports sample_host) dk\<rparr>)"
proof -
  have "\<not> disk_present (disk_init (h_ports sample_host) dk)" "cache_find 0 (disk_init (h_ports sample_host) dk) = None"
    by (simp_all add: disk_init_def disk_init_of_def ata_init_def sample_host_def ata_delay_def Let_def cache_find_def find_slot_None)
  then show ?thesis by (simp add: fat12_init_def disk_sectors_def disk_read_sector_def disk_read_sector_of_def)
qed


end
