(* ===== verification/Spec2Isabelle.thy ===== *)
theory Spec2Isabelle
  imports KString Env Heap Pmm Vmm Pipe Ramfs Fd Process Sched Signal Vga Console
    Clock Filemeta Elf Syscall Ata Disk Fat12 Calc Keyboard Rtc Net Pci E1000 Editor Term ShText
    ShFiles ShLine DiskSync ShInfo ShCmd Shooter EdSession ShDispatch ShRun Interrupts
    Machine Boot
begin

text \<open>
  A verification of \<^verbatim>\<open>baSic_\<close>, a kernel for 32-bit x86 written in C: memory, processes, files, disk, screen,
  keyboard, network, and a shell with an editor, a calculator and a game, all of them in the kernel.  The C
  code is translated function by function: a C function is a HOL function of the same name, a \<^verbatim>\<open>struct\<close> or the
  static variables of a file a \<open>record\<close>, an enumeration a \<open>datatype\<close>, a 32-bit integer a word
  that wraps (a natural number or an integer where the code cannot overflow), an array a list that is updated at
  an index, a pointer an index into a table or an address.  State is passed and returned.  Errors are the
  values the code returns.

  Partial results.  A lookup gives \<open>None\<close> where the code gives \<^verbatim>\<open>NULL\<close> or says that nothing was
  found.  Everywhere else \<open>None\<close> means that the C code does not get to a defined result: it reads or writes outside the buffer at hand, uses memory it never wrote, divides by zero, or never returns.
  Every theory says which of these can occur in it.  A loop whose end depends on its data (a chain of blocks, a
  chain of clusters, a string without end, a device that is polled) is a \<open>partial_function (option)\<close>; that
  it returns is then proved as \<open>\<exists>r. f x = Some r\<close>, and that it does not is proved as
  \<open>f x = None\<close>.  No loop of the model has a fuel argument.

  The world outside.  Port accesses, device registers and what hardware does in between are arguments (\<open>P\<close>,
  \<open>H\<close>, \<open>D\<close>) of the operations that use them; so are the keys that are pressed, the clock, the interrupts
  taken while the code waits, the addresses the linker assigns, and the bytes that happen to lie in stack
  arrays.  For each device the development also has one concrete device that keeps its protocol
  (\<open>drive_ports\<close>, \<open>cmos_ports\<close>, \<open>config_ports\<close>, \<open>card\<close>, \<open>pic_ports\<close>, \<open>uart_ports\<close>); with it
  the interface of the driver is interpreted and the theorems that need a device are stated.


  \<^bold>\<open>Foundations\<close>

  \<^item> \<open>Prelude\<close>: the integer types, scans of fixed tables, C strings in arrays, the interfaces \<open>kv_store\<close>
    and \<open>slot_table\<close> of the key tables of the kernel.
  \<^item> \<open>KString\<close> (\<^verbatim>\<open>lib/string.c\<close>), \<open>Bytes\<close> (little-endian fields).

  \<^bold>\<open>Memory\<close>

  \<^item> \<open>Heap\<close> (\<^verbatim>\<open>mm/heap.c\<close>): the chain of headers in memory refines a list of blocks that tile the arena.
    What \<^verbatim>\<open>kmalloc\<close> gives is fresh, aligned and large enough; \<^verbatim>\<open>kfree\<close> keeps all other blocks.
  \<^item> \<open>Pmm\<close> (\<^verbatim>\<open>mm/pmm.c\<close>): the bitmap refines a set of free frames; the locale \<open>frame_source\<close> is what
    \<open>Vmm\<close> (\<^verbatim>\<open>mm/vmm.c\<close>) relies on: page tables, \<^verbatim>\<open>vmm_map\<close> and \<^verbatim>\<open>vmm_unmap\<close> as the MMU sees them.

  \<^bold>\<open>Files and processes\<close>

  \<^item> \<open>Ramfs\<close> (\<^verbatim>\<open>fs/vfs.c\<close>, \<^verbatim>\<open>fs/ramfs.c\<close>): nodes and data blocks in the heap, through the locale
    \<open>allocator\<close> that \<open>Heap\<close> meets; path resolution.  \<open>Fd\<close> (\<^verbatim>\<open>fs/fd.c\<close>): descriptors over nodes and over
    the pipes of \<open>Pipe\<close> (\<^verbatim>\<open>kernel/pipe.c\<close>), which refine a bounded queue.
  \<^item> \<open>Process\<close> (\<^verbatim>\<open>process.c\<close>), \<open>Sched\<close> (\<^verbatim>\<open>sched.c\<close>), \<open>Signal\<close> (\<^verbatim>\<open>signal.c\<close>), \<open>Env\<close> (\<^verbatim>\<open>env.c\<close>), \<open>Filemeta\<close>
    (\<^verbatim>\<open>filemeta.c\<close>), \<open>Elf\<close> (\<^verbatim>\<open>elf.c\<close>).
  \<^item> \<open>Syscall\<close> (\<^verbatim>\<open>syscall.c\<close>): all of these in one state, \<open>syscall_dispatch\<close> and the invariant every
    call keeps.

  \<^bold>\<open>Devices\<close>

  \<^item> \<open>Ata\<close> (\<^verbatim>\<open>ata.c\<close>) below \<open>Disk\<close> (\<^verbatim>\<open>disk.c\<close>, the cache of 16 sectors, locale \<open>sector_drive\<close>)
    below \<open>Fat12\<close> (\<^verbatim>\<open>fat12.c\<close>, locale \<open>sector_store\<close>).
  \<^item> \<open>E1000\<close> (\<^verbatim>\<open>e1000.c\<close>, the rings) below \<open>Net\<close> (\<^verbatim>\<open>net.c\<close>, locale \<open>nic_driver\<close>); \<open>Pci\<close> (\<^verbatim>\<open>pci.c\<close>).
  \<^item> \<open>Vga\<close> (\<^verbatim>\<open>vga.c\<close>), \<open>Console\<close> (\<^verbatim>\<open>kprintf.c\<close>, \<^verbatim>\<open>klog.c\<close>), \<open>Keyboard\<close> (\<^verbatim>\<open>keyboard.c\<close>, \<^verbatim>\<open>terminal.c\<close>),
    \<open>Clock\<close> (\<^verbatim>\<open>timer.c\<close>, \<^verbatim>\<open>watchdog.c\<close>, \<^verbatim>\<open>profiler.c\<close>), \<open>Rtc\<close> (\<^verbatim>\<open>rtc.c\<close>).
  \<^item> \<open>Interrupts\<close> (\<^verbatim>\<open>pic.c\<close>, \<^verbatim>\<open>idt.c\<close>, \<^verbatim>\<open>irq.c\<close>, \<^verbatim>\<open>isr.c\<close>): from the line of a device through controller and
    descriptor to the handler.  \<open>Machine\<close>: \<^verbatim>\<open>serial.c\<close>, \<^verbatim>\<open>panic.c\<close>, \<^verbatim>\<open>tss.c\<close>, \<^verbatim>\<open>userspace.c\<close>.

  \<^bold>\<open>Programs of the kernel\<close>

  \<^item> \<open>Calc\<close> (\<^verbatim>\<open>calc.c\<close>): the parser against its grammar.
  \<^item> \<open>Editor\<close>, \<open>EdSession\<close> (\<^verbatim>\<open>editor.c\<close>): the line buffer refines a document; then the screen, the
    session and the round trip of saving and opening.
  \<^item> \<open>Shooter\<close> (\<^verbatim>\<open>shooter.c\<close>): the game with its invariant and its accounts.
  \<^item> The shell (\<^verbatim>\<open>shell.c\<close>): \<open>Term\<close> (its part of the screen), \<open>ShText\<close>, \<open>ShFiles\<close>, \<open>ShCmd\<close>,
    \<open>ShInfo\<close> (the commands), \<open>ShLine\<close> (the line, the history, completion and search), \<open>DiskSync\<close>
    (\<^verbatim>\<open>disksync.c\<close>: aliases and the boot configuration), \<open>ShDispatch\<close> (which command a line is, scripts, start
    and main loop over the state of the whole kernel) and \<open>ShRun\<close> (what holds of sessions and scripts).
  \<^item> \<open>Boot\<close> (\<^verbatim>\<open>main.c\<close>): \<^verbatim>\<open>kmain\<close> over the state of the whole kernel; it establishes the invariants that the properties
    of the other theories assume, and hands over to the shell.

  \<^bold>\<open>Interfaces\<close>

  \<^item> \<open>kv_store\<close>, with \<open>slot_table\<close> below it: environment, permissions, ARP cache and aliases are its instances.
  \<^item> \<open>frame_source\<close>: what the page tables rely on, met by the frame allocator; \<open>allocator\<close>: what the file system
    relies on, met by \<^verbatim>\<open>kmalloc\<close>; \<open>byte_fifo\<close>: what a pipe promises.
  \<^item> \<open>sector_drive\<close>: what the cache relies on, met by the driver on a drive; \<open>sector_store\<close>: what the FAT12 driver
    relies on, met by the cache on that driver; \<open>nic_driver\<close>: what the network stack relies on, met by the card's
    driver on a card.


  \<^bold>\<open>What the lemmas show\<close>

  Each component with a state has an invariant (the predicates whose names end in \<open>_ok\<close> or \<open>_inv\<close>),
  lemmas that every operation keeps it, the behaviour of every operation on each of its branches, and where
  there is a simpler thing the code stands for, a refinement: heap and list of blocks, bitmap and set, ring
  buffer and queue (pipes and receive ring), cache and disk, line buffers and documents (editor and command
  line), calculator and syntax trees.  Paths, cluster chains, network packets, scancodes, sectors and saved
  texts have round trips.  The properties are the theorems after a block that begins with C and a number; where
  one has hypotheses, the theorem whose name ends in \<open>_witness\<close> applies it at a concrete state.  Where the code does not do
  what it means to, the theorem says what it does (a hypothesis excludes the case, or a conjunct describes it).


  \<^bold>\<open>What is not modelled\<close>

  \<^item> The assembly: the boot sector, the second stage and the interrupt stubs, which push registers and call the
    C functions.  Stubs are addresses in the descriptor table.
  \<^item> Interrupts during the code that does not wait for them: operations are atomic, interleavings are explicit
    where the code waits (\<^verbatim>\<open>hlt\<close> loops of \<open>Process\<close>, \<open>Clock\<close>, \<open>Keyboard\<close>, the frames of \<open>Shooter\<close>).
  \<^item> Lines for the log that other components print by \<^verbatim>\<open>kprintf\<close> or on the serial port in passing; the printing itself is
    \<open>Console\<close> and \<open>Machine\<close>.  What the shell prints is modelled.
  \<^item> Of the shell, the drawing while Ctrl-R is searching; of \<^verbatim>\<open>terminal.c\<close>, \<^verbatim>\<open>term_init\<close>, whose
    variables nothing reads.  Loads of CR0 and CR3 and flushes of the TLB have no state here.
  \<^item> The depth of the kernel stack.
\<close>

end
